(* ===== verification/Prelude.thy ===== *)
theory Prelude
  imports Main "HOL-Library.Word" "HOL-Library.Monad_Syntax"
begin

text \<open>
  What every component of the development shares: the C integer types, byte buffers with
  checked access (a read or a write outside the buffer is the value \<open>None\<close>, so that memory
  safety is a theorem and not an assumption), NUL-terminated strings inside a buffer, and the
  list facts the component proofs use.
\<close>

unbundle bit_operations_syntax

section \<open>Machine integers\<close>

type_synonym u8 = "8 word"
type_synonym u16 = "16 word"
type_synonym u32 = "32 word"

lemma u8_bound: "unat (x :: u8) < 256"
  by (rule order.strict_trans2 [OF unsigned_less]) simp
lemma u16_bound: "unat (x :: u16) < 65536"
  by (rule order.strict_trans2 [OF unsigned_less]) simp
lemma u32_bound: "unat (x :: u32) < 4294967296"
  by (rule order.strict_trans2 [OF unsigned_less]) simp

lemma unat_up_cast:
  "LENGTH('a::len) \<le> LENGTH('b::len) \<Longrightarrow> unat (ucast (x :: 'a word) :: 'b word) = unat x"
  by (metis take_bit_word_eq_self unsigned_ucast_eq unsigned_take_bit_eq)

lemma unat_up_cast8 [simp]:
  "unat (ucast (x :: u8) :: u16) = unat x" "unat (ucast (x :: u8) :: u32) = unat x"
  "unat (ucast (y :: u16) :: u32) = unat y"
  by (simp_all add: unat_up_cast)

text \<open>Packing: a shifted value OR-ed with one that fits below it is their sum.\<close>

lemma push_or_nat: "a < 2 ^ n \<Longrightarrow> push_bit n b OR a = b * 2 ^ n + (a :: nat)"
proof -
  assume "a < 2 ^ n"
  then have a: "take_bit n a = a" by (rule take_bit_nat_eq_self)
  have "push_bit n b AND take_bit n a = 0"
    by (rule bit_eqI) (auto simp: bit_simps)
  then show ?thesis unfolding a by (simp add: disjunctive_add_eq_or [symmetric] push_bit_eq_mult)
qed

lemma unat_push_or:
  fixes x y :: "'a::len word"
  assumes "unat y < 2 ^ n" and "unat x * 2 ^ n < 2 ^ LENGTH('a)"
  shows "unat (push_bit n x OR y) = unat x * 2 ^ n + unat y"
  using assms by (simp add: unsigned_or_eq unsigned_push_bit_eq push_bit_eq_mult [of n "unat x"]
      take_bit_nat_eq_self push_or_nat [unfolded push_bit_eq_mult])

text \<open>String literals of the C sources, as bytes.\<close>

definition str :: "string \<Rightarrow> u8 list" where
  "str s = map of_char s"

section \<open>Checked buffers\<close>

named_theorems mem_simps \<open>reads and writes of byte buffers\<close>

definition ld :: "'a list \<Rightarrow> nat \<Rightarrow> 'a option" where
  "ld b i = (if i < length b then Some (b ! i) else None)"

definition st :: "'a list \<Rightarrow> nat \<Rightarrow> 'a \<Rightarrow> 'a list option" where
  "st b i v = (if i < length b then Some (b[i := v]) else None)"

text \<open>\<open>memcpy\<close> of the bytes \<open>xs\<close> to an offset, and \<open>memmove\<close> inside one buffer.\<close>

definition cpy :: "'a list \<Rightarrow> nat \<Rightarrow> 'a list \<Rightarrow> 'a list option" where
  "cpy b off xs =
     (if off + length xs \<le> length b then Some (take off b @ xs @ drop (off + length xs) b)
      else None)"

definition mov :: "'a list \<Rightarrow> nat \<Rightarrow> nat \<Rightarrow> nat \<Rightarrow> 'a list option" where
  "mov b dst src n = (if src + n \<le> length b then cpy b dst (take n (drop src b)) else None)"

text \<open>The C string that starts at offset \<open>off\<close>.\<close>

definition cstr :: "u8 list \<Rightarrow> nat \<Rightarrow> u8 list" where
  "cstr b off = takeWhile (\<lambda>c. c \<noteq> 0) (drop off b)"

lemma ld_in [mem_simps]: "i < length b \<Longrightarrow> ld b i = Some (b ! i)"
  by (simp add: ld_def)

lemma st_in [mem_simps]: "i < length b \<Longrightarrow> st b i v = Some (b[i := v])"
  by (simp add: st_def)

lemma ld_Some: "ld b i = Some v \<longleftrightarrow> i < length b \<and> b ! i = v"
  by (auto simp: ld_def)

lemma st_Some: "st b i v = Some b' \<longleftrightarrow> i < length b \<and> b' = b[i := v]"
  by (auto simp: st_def)

lemma cpy_in [mem_simps]:
  "off + length xs \<le> length b \<Longrightarrow> cpy b off xs = Some (take off b @ xs @ drop (off + length xs) b)"
  by (simp add: cpy_def)

lemma mov_in [mem_simps]:
  "src + n \<le> length b \<Longrightarrow> dst + n \<le> length b \<Longrightarrow>
    mov b dst src n = Some (take dst b @ take n (drop src b) @ drop (dst + n) b)"
  by (simp add: mov_def cpy_def)

lemma cpy_length: "cpy b off xs = Some b' \<Longrightarrow> length b' = length b"
  by (auto simp: cpy_def split: if_splits)

lemma mov_length: "mov b dst src n = Some b' \<Longrightarrow> length b' = length b"
  by (auto simp: mov_def dest: cpy_length split: if_splits)

text \<open>A buffer seen from an offset: \<open>drop off b = x # xs\<close> is the shape the scanners use.\<close>

lemma drop_ConsD: "drop i b = x # xs \<Longrightarrow> i < length b \<and> b ! i = x \<and> drop (Suc i) b = xs"
  by (metis drop_all drop_Suc list.sel(3) list.simps(3) not_le_imp_less nth_via_drop tl_drop)

lemma ld_drop: "drop i b = x # xs \<Longrightarrow> ld b i = Some x"
  by (auto simp: ld_def dest: drop_ConsD)

lemma take_Suc_update: "i < length b \<Longrightarrow> take (Suc i) (b[i := x]) = take i b @ [x]"
  by (simp add: take_Suc_conv_app_nth)

lemma takeWhile_nul: "0 \<notin> set s \<Longrightarrow> takeWhile (\<lambda>c. c \<noteq> 0) (s @ 0 # post) = s"
  by (induction s) auto

lemma cstr_drop: "drop off b = s @ 0 # post \<Longrightarrow> 0 \<notin> set s \<Longrightarrow> cstr b off = s"
  by (simp add: cstr_def takeWhile_nul)

lemma takeWhile_in_prefix:
  "\<exists>x\<in>set xs. \<not> P x \<Longrightarrow> takeWhile P (xs @ ys) = takeWhile P xs"
  by (induction xs) auto

text \<open>A string that is terminated inside a prefix of the buffer does not depend on the rest.\<close>

lemma cstr_take:
  assumes "0 \<in> set (drop off (take n b))"
  shows "cstr b off = takeWhile (\<lambda>x. x \<noteq> 0) (drop off (take n b))"
proof -
  have "drop off b = take (n - off) (drop off b) @ drop (n - off) (drop off b)"
    by (simp only: append_take_drop_id)
  then have "drop off b = drop off (take n b) @ drop (n - off) (drop off b)"
    by (simp only: drop_take)
  with assms show ?thesis
    unfolding cstr_def by (metis (mono_tags, lifting) takeWhile_in_prefix)
qed

lemma cstr_prefix_cong:
  assumes "take n b' = take n b" and "0 \<in> set (drop off (take n b))"
  shows "cstr b' off = cstr b off"
  using assms by (simp add: cstr_take [of off n])

end
