(* ===== verification/CliValues.thy ===== *)
theory CliValues
  imports Prelude
begin

text \<open>
  The argument-value parsers of \<open>shell/core/cli_parse.c\<close>: \<open>cli_parse_u32\<close>,
  \<open>cli_parse_ipv4\<close>, \<open>cli_parse_ipv4_cidr\<close>, \<open>cli_ipv4_mask_bits\<close>. They only read a
  NUL-terminated token, so a token is the list of its bytes before the terminator (the end of
  the list is where the code meets the NUL) and a NULL pointer is \<open>None\<close>. The result of
  \<open>cli_parse_u32\<close> and \<open>cli_parse_ipv4\<close> is \<open>None\<close> for -1, where nothing is stored, and the
  stored value otherwise; \<open>cli_parse_ipv4_cidr\<close> may store the address and still fail, so its
  result is the return code with what both outputs then hold. All arithmetic is 32-bit.
\<close>

section \<open>Unsigned integers\<close>

abbreviation is_dec :: "u8 \<Rightarrow> bool" where "is_dec c \<equiv> 48 \<le> c \<and> c \<le> 57"

definition digit_u32 :: "u32 \<Rightarrow> u8 \<Rightarrow> u32 option" where
  "digit_u32 base c =
     (if is_dec c then Some (ucast (c - 48))
      else if base = 16 \<and> 97 \<le> c \<and> c \<le> 102 then Some (ucast (c - 97 + 10))
      else if base = 16 \<and> 65 \<le> c \<and> c \<le> 70 then Some (ucast (c - 65 + 10))
      else None)"

fun u32_loop :: "u32 \<Rightarrow> u32 \<Rightarrow> u8 list \<Rightarrow> u32 option" where
  "u32_loop base val [] = Some val"
| "u32_loop base val (c # cs) =
     (case digit_u32 base c of
        None \<Rightarrow> None
      | Some d \<Rightarrow>
          if val > (0xFFFFFFFF - d) div base then None
          else u32_loop base (val * base + d) cs)"

definition hex_prefix :: "u8 list \<Rightarrow> bool" where
  "hex_prefix s \<longleftrightarrow> 2 \<le> length s \<and> s ! 0 = 48 \<and> (s ! 1 = 120 \<or> s ! 1 = 88)"

definition cli_parse_u32 :: "u8 list option \<Rightarrow> u32 option" where
  "cli_parse_u32 p =
     (case p of
        None \<Rightarrow> None
      | Some s \<Rightarrow>
          if s = [] then None
          else let base = (if hex_prefix s then 16 else 10);
                   t = (if hex_prefix s then drop 2 s else s) in
               if t = [] then None else u32_loop base 0 t)"

subsection \<open>The value of a literal\<close>

definition digit_nat :: "nat \<Rightarrow> u8 \<Rightarrow> nat option" where
  "digit_nat base c =
     (if c \<in> {48..57} then Some (unat c - 48)
      else if base = 16 \<and> c \<in> {97..102} then Some (unat c - 87)
      else if base = 16 \<and> c \<in> {65..70} then Some (unat c - 55)
      else None)"

fun num_value :: "nat \<Rightarrow> nat \<Rightarrow> u8 list \<Rightarrow> nat option" where
  "num_value base v [] = Some v"
| "num_value base v (c # cs) =
     Option.bind (digit_nat base c) (\<lambda>d. num_value base (v * base + d) cs)"

text \<open>The number a token denotes, of any size: hexadecimal behind 0x or 0X, else decimal.\<close>

definition literal :: "u8 list \<Rightarrow> nat option" where
  "literal s =
     (if hex_prefix s then if drop 2 s = [] then None else num_value 16 0 (drop 2 s)
      else if s = [] then None else num_value 10 0 s)"

lemma digit_u32_nat:
  assumes "base = 10 \<or> base = 16"
  shows "map_option unat (digit_u32 base c) = digit_nat (unat base) c"
proof -
  have dec: "unat (c - 48) = unat c - 48" if "48 \<le> c"
    using that by (simp add: unat_sub)
  have lo: "unat (c - 87) = unat c - 87" if "97 \<le> c"
    using that unat_sub [of 87 c] by (simp add: word_le_nat_alt)
  have up': "unat (c - 55) = unat c - 55" if "65 \<le> c"
    using that unat_sub [of 55 c] by (simp add: word_le_nat_alt)
  show ?thesis
    using assms by (auto simp: digit_u32_def digit_nat_def dec lo up')
qed

lemma digit_nat_less: "digit_nat base c = Some d \<Longrightarrow> base = 10 \<or> base = 16 \<Longrightarrow> d < base"
  by (auto simp: digit_nat_def word_le_nat_alt split: if_splits)

lemma num_value_mono: "num_value base v s = Some n \<Longrightarrow> 0 < base \<Longrightarrow> v \<le> n"
proof (induction s arbitrary: v)
  case (Cons c s)
  then obtain d where "digit_nat base c = Some d" "num_value base (v * base + d) s = Some n"
    by (auto split: bind_splits)
  with Cons have "v * base + d \<le> n" by blast
  moreover have "v \<le> v * base" using Cons.prems(2) by simp
  ultimately show ?case by linarith
qed simp

lemma u32_step_fits:
  fixes val d base :: u32
  assumes "0 < unat base"
  shows "(0xFFFFFFFF - d) div base < val \<longleftrightarrow> 2 ^ 32 \<le> unat val * unat base + unat d"
proof -
  have d: "unat d < 2 ^ 32" using u32_bound [of d] by simp
  have "unat ((0xFFFFFFFF - d) div base) = (2 ^ 32 - 1 - unat d) div unat base"
    using d by (simp add: unat_div unat_sub word_le_nat_alt)
  then have "(0xFFFFFFFF - d) div base < val \<longleftrightarrow>
      (2 ^ 32 - 1 - unat d) div unat base < unat val"
    by (simp add: word_less_nat_alt)
  also have "\<dots> \<longleftrightarrow> 2 ^ 32 - 1 - unat d < unat val * unat base"
    using assms by (simp add: less_mult_imp_div_less div_less_iff_less_mult)
  also have "\<dots> \<longleftrightarrow> 2 ^ 32 \<le> unat val * unat base + unat d"
    using d by linarith
  finally show ?thesis .
qed

lemma u32_loop_value:
  assumes "base = 10 \<or> base = 16"
  shows "map_option unat (u32_loop base val s) =
    (case num_value (unat base) (unat val) s of
       Some n \<Rightarrow> if n < 2 ^ 32 then Some n else None
     | None \<Rightarrow> None)"
proof (induction s arbitrary: val)
  case Nil
  then show ?case using u32_bound [of val] by simp
next
  case (Cons c s)
  have pos: "0 < unat base" using assms by auto
  show ?case
  proof (cases "digit_u32 base c")
    case None
    with digit_u32_nat [OF assms, of c] show ?thesis by auto
  next
    case (Some d)
    with digit_u32_nat [OF assms, of c] have d: "digit_nat (unat base) c = Some (unat d)" by simp
    show ?thesis
    proof (cases "(0xFFFFFFFF - d) div base < val")
      case True
      then have big: "2 ^ 32 \<le> unat val * unat base + unat d" by (simp only: u32_step_fits [OF pos])
      with num_value_mono [OF _ pos, of "unat val * unat base + unat d" s] True Some d
      show ?thesis by (fastforce split: option.split)
    next
      case False
      then have "unat val * unat base + unat d < 2 ^ 32" by (simp only: u32_step_fits [OF pos] not_le)
      then have "unat (val * base + d) = unat val * unat base + unat d"
        by (simp add: unat_word_ariths)
      with Cons.IH [of "val * base + d"] Some d False show ?thesis by simp
    qed
  qed
qed

lemma cli_parse_u32_value:
  "map_option unat (cli_parse_u32 (Some s)) =
    (case literal s of Some n \<Rightarrow> if n < 2 ^ 32 then Some n else None | None \<Rightarrow> None)"
  using u32_loop_value [of 16 0] u32_loop_value [of 10 0]
  by (auto simp: cli_parse_u32_def literal_def hex_prefix_def)

text \<open>C38. \<open>cli_parse_u32\<close> stores a value exactly for the tokens that are decimal or
  0x-hexadecimal literals of a number below 2^32, and stores that number: the overflow test
  before each multiplication rejects every larger literal and no smaller one.\<close>

theorem cli_parse_u32_iff: "cli_parse_u32 (Some s) = Some v \<longleftrightarrow> literal s = Some (unat v)"
proof -
  have "cli_parse_u32 (Some s) = Some v \<longleftrightarrow> map_option unat (cli_parse_u32 (Some s)) = Some (unat v)"
    by (cases "cli_parse_u32 (Some s)") (auto simp: word_unat_eq_iff)
  also have "\<dots> \<longleftrightarrow> literal s = Some (unat v)"
    unfolding cli_parse_u32_value using u32_bound [of v] by (auto split: option.splits if_splits)
  finally show ?thesis .
qed

section \<open>IPv4 addresses\<close>

text \<open>The digit loop: the octet, the number of digits, the unread text; an octet above 255 fails.\<close>

fun octet_loop :: "u32 \<Rightarrow> nat \<Rightarrow> u8 list \<Rightarrow> (u32 \<times> nat \<times> u8 list) option" where
  "octet_loop v digits [] = Some (v, digits, [])"
| "octet_loop v digits (c # cs) =
     (if is_dec c then
        let v' = v * 10 + ucast (c - 48) in
        if v' > 255 then None else octet_loop v' (digits + 1) cs
      else Some (v, digits, c # cs))"

text \<open>
  The outer loop. The octets are stored in \<open>b[i]\<close>, \<open>i\<close> being their number; the four-entry
  array is a list here, and \<open>i > 3\<close> is tested before the store.
\<close>

lemma octet_loop_shorter: "octet_loop v n s = Some (v', n', r) \<Longrightarrow> length r \<le> length s"
  by (induction v n s rule: octet_loop.induct) (auto simp: Let_def split: if_splits)

function ipv4_loop :: "u32 list \<Rightarrow> u8 list \<Rightarrow> u32 list option" where
  "ipv4_loop b s =
     (case octet_loop 0 0 s of
        None \<Rightarrow> None
      | Some (v, digits, r) \<Rightarrow>
          if digits = 0 \<or> length b > 3 then None
          else (case r of
                  [] \<Rightarrow> Some (b @ [v])
                | c # cs \<Rightarrow> if c \<noteq> 46 then None else ipv4_loop (b @ [v]) cs))"
  by pat_completeness auto
termination
  by (relation "measure (\<lambda>(b, s). length s)") (auto dest: octet_loop_shorter)

declare ipv4_loop.simps [simp del]

definition ipv4_word :: "u32 list \<Rightarrow> u32" where
  "ipv4_word b =
     push_bit 24 (b ! 0) OR push_bit 16 (b ! 1) OR push_bit 8 (b ! 2) OR b ! 3"

definition cli_parse_ipv4 :: "u8 list option \<Rightarrow> u32 option" where
  "cli_parse_ipv4 p =
     (case p of
        None \<Rightarrow> None
      | Some s \<Rightarrow>
          (case ipv4_loop [] s of
             None \<Rightarrow> None
           | Some b \<Rightarrow> if length b \<noteq> 4 then None else Some (ipv4_word b)))"

subsection \<open>Dotted decimal\<close>

text \<open>The number a digit string denotes, of any size.\<close>

definition dec_value :: "u8 list \<Rightarrow> nat" where
  "dec_value s = foldl (\<lambda>v c. v * 10 + (unat c - 48)) 0 s"

lemma foldl_dec_mono: "v \<le> foldl (\<lambda>v c. v * 10 + (unat c - 48)) v s"
proof (induction s arbitrary: v)
  case (Cons c s)
  have "v \<le> v * 10 + (unat c - 48)" by simp
  also note Cons
  finally show ?case by simp
qed simp

lemma octet_step:
  assumes "unat v \<le> 255" and "is_dec c"
  shows "unat (v * 10 + ucast (c - 48) :: u32) = unat v * 10 + (unat c - 48)"
proof -
  have "unat (ucast (c - 48) :: u32) = unat c - 48"
    using assms(2) unat_sub [of 48 c] by simp
  moreover have "unat c \<le> 57" using assms(2) by (simp add: word_le_nat_alt)
  ultimately show ?thesis using assms(1) by (simp add: unat_word_ariths)
qed

lemma octet_loop_spec:
  assumes "unat v \<le> 255" and "\<forall>c\<in>set ds. is_dec c" and "r = [] \<or> \<not> is_dec (hd r)"
  shows "octet_loop v n (ds @ r) =
    (let x = foldl (\<lambda>v c. v * 10 + (unat c - 48)) (unat v) ds in
     if x \<le> 255 then Some (of_nat x, n + length ds, r) else None)"
  using assms
proof (induction ds arbitrary: v n)
  case Nil
  then show ?case by (cases r) auto
next
  case (Cons c ds)
  let ?v = "v * 10 + ucast (c - 48) :: u32"
  have v: "unat ?v = unat v * 10 + (unat c - 48)"
    by (rule octet_step) (use Cons.prems in auto)
  show ?case
  proof (cases "unat v * 10 + (unat c - 48) \<le> 255")
    case True
    then have "\<not> ?v > 255" "unat ?v \<le> 255" using v by (simp_all add: word_less_nat_alt)
    with v Cons.IH [of ?v "n + 1"] Cons.prems show ?thesis
      by (simp only: append_Cons octet_loop.simps Let_def list.set foldl.simps) simp
  next
    case False
    then have "?v > 255" using v by (simp add: word_less_nat_alt)
    moreover have "\<not> foldl (\<lambda>v c. v * 10 + (unat c - 48)) (unat v) (c # ds) \<le> 255"
      using False foldl_dec_mono [of "unat v * 10 + (unat c - 48)" ds] by simp
    ultimately show ?thesis using Cons.prems by (simp add: Let_def)
  qed
qed

text \<open>A dotted quad: four nonempty digit strings, none above 255, with dots between them.\<close>

definition octet :: "u8 list \<Rightarrow> bool" where
  "octet ds \<longleftrightarrow> ds \<noteq> [] \<and> (\<forall>c\<in>set ds. is_dec c) \<and> dec_value ds \<le> 255"

fun dotted :: "u8 list list \<Rightarrow> u8 list" where
  "dotted [] = []"
| "dotted [ds] = ds"
| "dotted (ds # ds' # dss) = ds @ 46 # dotted (ds' # dss)"

lemma octet_loop_octet:
  assumes "octet ds" and "r = [] \<or> \<not> is_dec (hd r)"
  shows "octet_loop 0 0 (ds @ r) = Some (of_nat (dec_value ds), length ds, r)"
  using octet_loop_spec [of 0 ds r 0] assms by (simp add: octet_def dec_value_def)

lemma ipv4_loop_complete:
  assumes "dss \<noteq> []" and "\<forall>ds\<in>set dss. octet ds" and "length b + length dss \<le> 4"
  shows "ipv4_loop b (dotted dss) = Some (b @ map (\<lambda>ds. of_nat (dec_value ds)) dss)"
  using assms
proof (induction dss arbitrary: b rule: dotted.induct)
  case (2 ds)
  then show ?case
    using octet_loop_octet [of ds "[]"] by (simp add: ipv4_loop.simps [of b] octet_def)
next
  case (3 ds ds' dss)
  then show ?case
    using octet_loop_octet [of ds "46 # dotted (ds' # dss)"]
    by (simp add: ipv4_loop.simps [of b "ds @ _"] octet_def)
qed simp

lemma octet_loop_sound:
  assumes "octet_loop 0 0 s = Some (v, n, r)" and "n \<noteq> 0"
  shows "\<exists>ds. s = ds @ r \<and> octet ds \<and> v = of_nat (dec_value ds)"
proof -
  let ?ds = "takeWhile is_dec s" and ?r = "dropWhile is_dec s"
  have r: "?r = [] \<or> \<not> is_dec (hd ?r)" using hd_dropWhile [of is_dec s] by blast
  have ds: "\<forall>c\<in>set ?ds. is_dec c" by (blast dest: set_takeWhileD)
  have "octet_loop 0 0 s = (if dec_value ?ds \<le> 255
      then Some (of_nat (dec_value ?ds), length ?ds, ?r) else None)"
    using octet_loop_spec [OF _ ds r, of 0 0] by (simp add: dec_value_def Let_def)
  with assms have *: "dec_value ?ds \<le> 255" "v = of_nat (dec_value ?ds)" "n = length ?ds" "r = ?r"
    by (simp_all split: if_splits)
  have "s = ?ds @ r" unfolding *(4) by (simp only: takeWhile_dropWhile_id)
  moreover have "?ds \<noteq> []" using assms(2) *(3) by fastforce
  ultimately show ?thesis using ds * unfolding octet_def by blast
qed

lemma ipv4_loop_sound:
  assumes "ipv4_loop b s = Some bs"
  shows "\<exists>dss. dss \<noteq> [] \<and> (\<forall>ds\<in>set dss. octet ds) \<and> s = dotted dss \<and>
    bs = b @ map (\<lambda>ds. of_nat (dec_value ds)) dss"
  using assms
proof (induction b s rule: ipv4_loop.induct)
  case (1 b s)
  from "1.prems" obtain v n r where o: "octet_loop 0 0 s = Some (v, n, r)" "n \<noteq> 0" "\<not> length b > 3"
    by (auto simp: ipv4_loop.simps [of b s] split: option.splits prod.splits if_splits)
  obtain ds where ds: "s = ds @ r" "octet ds" "v = of_nat (dec_value ds)"
    using octet_loop_sound [OF o(1,2)] by blast
  show ?case
  proof (cases r)
    case Nil
    with "1.prems" o have "bs = b @ [v]" by (simp add: ipv4_loop.simps [of b s])
    with ds Nil show ?thesis by (intro exI [of _ "[ds]"]) simp
  next
    case (Cons c cs)
    with "1.prems" o have c: "c = 46" "ipv4_loop (b @ [v]) cs = Some bs"
      by (auto simp: ipv4_loop.simps [of b s] split: if_splits)
    from "1.IH" [OF o(1) refl refl _ Cons _ c(2)] o c obtain dss where
      "dss \<noteq> []" "\<forall>ds\<in>set dss. octet ds" "cs = dotted dss"
      "bs = (b @ [v]) @ map (\<lambda>ds. of_nat (dec_value ds)) dss" by auto
    with ds c Cons show ?thesis
      by (intro exI [of _ "ds # dss"]) (cases dss; simp)
  qed
qed

definition ipv4_value :: "nat \<Rightarrow> nat \<Rightarrow> nat \<Rightarrow> nat \<Rightarrow> nat" where
  "ipv4_value a b c d = ((a * 256 + b) * 256 + c) * 256 + d"

lemma ipv4_word_value:
  assumes "unat a \<le> 255" "unat b \<le> 255" "unat c \<le> 255" "unat d \<le> 255"
  shows "unat (ipv4_word [a, b, c, d]) = ipv4_value (unat a) (unat b) (unat c) (unat d)"
proof -
  have 1: "unat (push_bit 8 c OR d) = unat c * 256 + unat d"
    using assms by (subst unat_push_or) auto
  have 2: "unat (push_bit 16 b OR (push_bit 8 c OR d)) = unat b * 65536 + unat c * 256 + unat d"
    using assms by (subst unat_push_or) (auto simp: 1)
  have 3: "unat (push_bit 24 a OR (push_bit 16 b OR (push_bit 8 c OR d))) =
      unat a * 16777216 + unat b * 65536 + unat c * 256 + unat d"
    using assms by (subst unat_push_or) (auto simp: 2)
  then show ?thesis
    by (simp add: ipv4_word_def ipv4_value_def or.assoc)
qed

text \<open>C39. \<open>cli_parse_ipv4\<close> accepts exactly the dotted quads (four nonempty digit strings, each
  at most 255, nothing else) and stores the address in network significance.\<close>

theorem cli_parse_ipv4_iff:
  "cli_parse_ipv4 (Some s) = Some a \<longleftrightarrow>
    (\<exists>p q r t. s = dotted [p, q, r, t] \<and> octet p \<and> octet q \<and> octet r \<and> octet t \<and>
       unat a = ipv4_value (dec_value p) (dec_value q) (dec_value r) (dec_value t))"
  (is "_ \<longleftrightarrow> ?R")
proof -
  have oct: "unat (of_nat (dec_value ds) :: u32) = dec_value ds"
    "unat (of_nat (dec_value ds) :: u32) \<le> 255" if "octet ds" for ds
    using that by (auto simp: octet_def unsigned_of_nat take_bit_nat_eq_self)
  have val: "unat (ipv4_word (map (\<lambda>ds. of_nat (dec_value ds)) [p, q, r, t])) =
      ipv4_value (dec_value p) (dec_value q) (dec_value r) (dec_value t)"
    if "octet p" "octet q" "octet r" "octet t" for p q r t
    unfolding list.map using that by (subst ipv4_word_value) (simp_all add: oct(2), simp add: oct(1))
  show ?thesis
  proof
    assume "cli_parse_ipv4 (Some s) = Some a"
    then obtain bs where bs: "ipv4_loop [] s = Some bs" "length bs = 4" "a = ipv4_word bs"
      by (auto simp: cli_parse_ipv4_def split: option.splits if_splits)
    from ipv4_loop_sound [OF bs(1)] bs(2) obtain p q r t where
      "s = dotted [p, q, r, t]" "octet p" "octet q" "octet r" "octet t"
      "bs = map (\<lambda>ds. of_nat (dec_value ds)) [p, q, r, t]"
      by (auto simp: numeral_eq_Suc length_Suc_conv)
    with val bs(3) show ?R by auto
  next
    assume ?R
    then obtain p q r t where s: "s = dotted [p, q, r, t]" "octet p" "octet q" "octet r" "octet t"
      "unat a = ipv4_value (dec_value p) (dec_value q) (dec_value r) (dec_value t)" by blast
    let ?bs = "map (\<lambda>ds. of_nat (dec_value ds)) [p, q, r, t] :: u32 list"
    have "ipv4_loop [] s = Some ?bs"
      using ipv4_loop_complete [of "[p, q, r, t]" "[]"] s(1-5) by simp
    moreover have "length ?bs = 4" by simp
    moreover have "ipv4_word ?bs = a"
      using val [OF s(2-5)] s(6) by (simp only: word_unat_eq_iff)
    ultimately show "cli_parse_ipv4 (Some s) = Some a"
      by (simp only: cli_parse_ipv4_def option.case) simp
  qed
qed

section \<open>CIDR notation\<close>

text \<open>
  The copy loop of \<open>cli_parse_ipv4_cidr\<close>: the bytes before the slash go to \<open>buf[20]\<close>, of
  which the last is kept for the terminator. The outer \<open>None\<close> is the buffer overflow (-1).
\<close>

fun cidr_copy :: "u8 list \<Rightarrow> u8 list \<Rightarrow> (u8 list \<times> u8 list option) option" where
  "cidr_copy buf [] = Some (buf, None)"
| "cidr_copy buf (c # cs) =
     (if c = 47 then Some (buf, Some cs)
      else if length buf \<ge> 20 - 1 then None
      else cidr_copy (buf @ [c]) cs)"

definition cidr_mask :: "u32 \<Rightarrow> u32" where
  "cidr_mask bits = (if bits = 0 then 0 else push_bit (unat (32 - bits)) 0xFFFFFFFF)"

text \<open>
  The result and what \<open>*ip\<close> and \<open>*mask\<close> hold afterwards, given what they held before:
  \<open>cli_parse_ipv4\<close> stores the address before the prefix is looked at.
\<close>

definition cli_parse_ipv4_cidr :: "u8 list option \<Rightarrow> u32 \<Rightarrow> u32 \<Rightarrow> int \<times> u32 \<times> u32" where
  "cli_parse_ipv4_cidr p ip msk =
     (case p of
        None \<Rightarrow> (- 1, ip, msk)
      | Some s \<Rightarrow>
          (case cidr_copy [] s of
             None \<Rightarrow> (- 1, ip, msk)
           | Some (buf, slash) \<Rightarrow>
               if slash = None then (- 1, ip, msk)
               else (case cli_parse_ipv4 (Some buf) of
                       None \<Rightarrow> (- 1, ip, msk)
                     | Some addr \<Rightarrow>
                         (case cli_parse_u32 slash of
                            None \<Rightarrow> (- 1, addr, msk)
                          | Some bits \<Rightarrow>
                              if bits > 32 then (- 1, addr, msk) else (0, addr, cidr_mask bits)))))"

lemma mask_shift_less:
  fixes m :: u32
  assumes "m AND 0x80000000 \<noteq> 0"
  shows "unat (push_bit 1 m) < unat m"
proof -
  have "m AND 2 ^ 31 \<noteq> 0" using assms by simp
  then have "bit m 31" by (simp only: and_exp_eq_0_iff_not_bit not_not)
  then have "bit (unat m) 31" by (simp add: bit_unsigned_iff)
  then have big: "2 ^ 31 \<le> unat m"
    by (metis bit_iff_odd div_less even_zero not_le)
  then have "unat (push_bit 1 m) = 2 * unat m - 2 ^ 32"
    using u32_bound [of m] by (simp add: unat_word_ariths mult.commute le_mod_geq)
  with u32_bound [of m] big show ?thesis by simp
qed

function cli_ipv4_mask_bits :: "u32 \<Rightarrow> nat" where
  "cli_ipv4_mask_bits m =
     (if m AND 0x80000000 \<noteq> 0 then 1 + cli_ipv4_mask_bits (push_bit 1 m) else 0)"
  by pat_completeness auto
termination
  by (relation "measure unat") (rule wf_measure, simp only: in_measure, rule mask_shift_less)

declare cli_ipv4_mask_bits.simps [simp del]

lemma cidr_copy_spec:
  "cidr_copy buf s = Some (buf', Some r) \<longleftrightarrow>
    (\<exists>a. s = a @ 47 # r \<and> 47 \<notin> set a \<and> buf' = buf @ a \<and> (a = [] \<or> length buf + length a \<le> 19))"
proof (induction buf s rule: cidr_copy.induct)
  case (2 buf c cs)
  show ?case
  proof (cases "c = 47")
    case True
    then show ?thesis by (auto simp: Cons_eq_append_conv)
  next
    case False
    show ?thesis
    proof
      assume "cidr_copy buf (c # cs) = Some (buf', Some r)"
      with False have "\<not> length buf \<ge> 20 - 1" "cidr_copy (buf @ [c]) cs = Some (buf', Some r)"
        by (auto split: if_splits)
      with "2.IH" [OF False this(1)] obtain a where
        "cs = a @ 47 # r" "47 \<notin> set a" "buf' = (buf @ [c]) @ a"
        "a = [] \<or> length (buf @ [c]) + length a \<le> 19" by blast
      with False \<open>\<not> length buf \<ge> 20 - 1\<close> show "\<exists>a. c # cs = a @ 47 # r \<and> 47 \<notin> set a \<and>
          buf' = buf @ a \<and> (a = [] \<or> length buf + length a \<le> 19)"
        by (intro exI [of _ "c # a"]) auto
    next
      assume "\<exists>a. c # cs = a @ 47 # r \<and> 47 \<notin> set a \<and> buf' = buf @ a \<and>
        (a = [] \<or> length buf + length a \<le> 19)"
      then obtain a where "c # cs = a @ 47 # r" "47 \<notin> set a" "buf' = buf @ a"
        "a = [] \<or> length buf + length a \<le> 19" by blast
      with False show "cidr_copy buf (c # cs) = Some (buf', Some r)"
        using "2.IH" [OF False] by (cases a) auto
    qed
  qed
qed simp

lemma cidr_mask_bits:
  assumes "b \<le> 32"
  shows "cli_ipv4_mask_bits (cidr_mask b) = unat b"
proof -
  have *: "\<forall>k\<in>set [0..<33]. cli_ipv4_mask_bits (cidr_mask (of_nat k)) = k"
    by (simp add: upt_rec cidr_mask_def cli_ipv4_mask_bits.simps push_bit_eq_mult)
  have "unat b < 33" using assms by (simp add: word_le_nat_alt)
  then have "unat b \<in> set [0..<33]" by simp
  with * have "cli_ipv4_mask_bits (cidr_mask (of_nat (unat b))) = unat b" by blast
  then show ?thesis by simp
qed

lemma cidr_mask_value:
  assumes "b \<le> 32"
  shows "unat (cidr_mask b) = 2 ^ 32 - 2 ^ (32 - unat b)"
proof -
  have *: "\<forall>k\<in>set [0..<33]. unat (cidr_mask (of_nat k)) = 2 ^ 32 - 2 ^ (32 - k)"
    by (simp add: upt_rec cidr_mask_def push_bit_eq_mult)
  have "unat b \<in> set [0..<33]" using assms by (simp add: word_le_nat_alt)
  with * have "unat (cidr_mask (of_nat (unat b))) = 2 ^ 32 - 2 ^ (32 - unat b)" by blast
  then show ?thesis by simp
qed

text \<open>The part before the first slash, when it fits the buffer and is an address.\<close>

definition cidr_address :: "u8 list \<Rightarrow> u8 list \<Rightarrow> u32 \<Rightarrow> bool" where
  "cidr_address s t addr \<longleftrightarrow>
    (\<exists>a. s = a @ 47 # t \<and> 47 \<notin> set a \<and> length a \<le> 19 \<and> cli_parse_ipv4 (Some a) = Some addr)"

lemma cidr_address_copy:
  "cidr_address s t addr \<longleftrightarrow> (\<exists>a. cidr_copy [] s = Some (a, Some t) \<and> cli_parse_ipv4 (Some a) = Some addr)"
proof -
  have "(a = [] \<or> length ([] :: u8 list) + length a \<le> 19) = (length a \<le> 19)" for a :: "u8 list"
    by auto
  then show ?thesis unfolding cidr_address_def cidr_copy_spec by (simp only: append_Nil) blast
qed

lemma cidr_cases:
  "cidr_address s t addr \<Longrightarrow> cli_parse_ipv4_cidr (Some s) ip msk =
    (case cli_parse_u32 (Some t) of
       None \<Rightarrow> (- 1, addr, msk)
     | Some bits \<Rightarrow> if bits > 32 then (- 1, addr, msk) else (0, addr, cidr_mask bits))"
  "(\<And>t addr. \<not> cidr_address s t addr) \<Longrightarrow> cli_parse_ipv4_cidr (Some s) ip msk = (- 1, ip, msk)"
  by (auto simp: cidr_address_copy cli_parse_ipv4_cidr_def split: option.splits)

text \<open>C40. \<open>cli_parse_ipv4_cidr\<close> answers 0 exactly for an address that fits its 20-byte buffer, a slash
  and a number of at most 32 prefix bits, and -1 otherwise. The mask is written only then, and it
  is that many ones followed by zeros, as \<open>cli_ipv4_mask_bits\<close> counts them. The address is
  written whenever the part before the slash is one, also when the prefix then fails.\<close>

theorem cli_parse_ipv4_cidr_iff:
  assumes "cli_parse_ipv4_cidr (Some s) ip0 msk0 = (rc, ip, msk)"
  shows "rc = 0 \<and> (\<exists>t bits. cidr_address s t ip \<and> cli_parse_u32 (Some t) = Some bits \<and> unat bits \<le> 32 \<and>
      unat msk = 2 ^ 32 - 2 ^ (32 - unat bits) \<and> cli_ipv4_mask_bits msk = unat bits) \<or>
    rc = - 1 \<and> msk = msk0 \<and>
      ((\<exists>t. cidr_address s t ip \<and> \<not> (\<exists>bits. cli_parse_u32 (Some t) = Some bits \<and> unat bits \<le> 32)) \<or>
       ip = ip0 \<and> (\<forall>t addr. \<not> cidr_address s t addr))"
proof (cases "\<exists>t addr. cidr_address s t addr")
  case False
  with assms show ?thesis by (simp add: cidr_cases(2))
next
  case True
  then obtain t addr where t: "cidr_address s t addr" by blast
  note r = assms [unfolded cidr_cases(1) [OF t]]
  show ?thesis
  proof (cases "\<exists>bits. cli_parse_u32 (Some t) = Some bits \<and> bits \<le> 32")
    case True
    then obtain bits where b: "cli_parse_u32 (Some t) = Some bits" "bits \<le> 32" by blast
    then have "rc = 0" "ip = addr" "msk = cidr_mask bits" using r by (simp_all add: not_less [symmetric])
    with t b cidr_mask_value [OF b(2)] cidr_mask_bits [OF b(2)] show ?thesis
      by (auto simp: word_le_nat_alt)
  next
    case False
    then have "rc = - 1" "ip = addr" "msk = msk0" using r by (auto split: option.splits if_splits simp: not_less)
    with t False show ?thesis by (auto simp: word_le_nat_alt)
  qed
qed

text \<open>The store on the failure path, which the header of the parsers rules out: 1.2.3.4/33.\<close>

lemma cidr_stores_on_failure:
  "cli_parse_ipv4_cidr (Some [49, 46, 50, 46, 51, 46, 52, 47, 51, 51]) ip msk = (- 1, 0x01020304, msk)"
  by code_simp

lemma cli_parse_ipv4_cidr_iff_witness:
  "\<exists>t. cidr_address [49, 46, 50, 46, 51, 46, 52, 47, 50, 52] t 0x01020304"
proof -
  have "cli_parse_ipv4_cidr (Some [49, 46, 50, 46, 51, 46, 52, 47, 50, 52]) 0 0 = (0, 0x01020304, 0xFFFFFF00)"
    by code_simp
  from cli_parse_ipv4_cidr_iff [OF this] show ?thesis by auto
qed

end
