(* ===== verification/UartRing.thy ===== *)
theory UartRing
  imports Prelude
begin

text \<open>
  \<open>shell/backend/cli_uart_ring.h\<close>: the byte ring between a UART's interrupt handler and
  the shell thread. The contract it promises is a bounded FIFO, stated as the locale
  \<open>byte_queue\<close>; the facts about the bulk transfers are proved once for every such queue and
  the ring is the interpretation. The calls of its users are those of
  \<open>boards/f746g-disco/backend/cli_backend_uart.c\<close>: what runs in one critical section or in the
  interrupt handler is one step, the statements of the unlocked read are steps of their own, and
  a slice handed to the transmitter stays in flight while the producers go on.
\<close>

section \<open>Bounded FIFO queues\<close>

text \<open>The bulk loops: store until one byte is refused, read until the queue is empty.\<close>

fun put_loop :: "('q \<Rightarrow> 'a \<Rightarrow> ('q \<times> bool) option) \<Rightarrow> 'q \<Rightarrow> 'a list \<Rightarrow> ('q \<times> nat) option" where
  "put_loop put q [] = Some (q, 0)"
| "put_loop put q (x # xs) =
     (case put q x of
        None \<Rightarrow> None
      | Some (q', ok) \<Rightarrow>
          if ok then map_option (apsnd Suc) (put_loop put q' xs) else Some (q', 0))"

fun get_loop :: "('q \<Rightarrow> ('q \<times> 'a option) option) \<Rightarrow> 'q \<Rightarrow> nat \<Rightarrow> ('q \<times> 'a list) option" where
  "get_loop get q 0 = Some (q, [])"
| "get_loop get q (Suc n) =
     (case get q of
        None \<Rightarrow> None
      | Some (q', None) \<Rightarrow> Some (q', [])
      | Some (q', Some x) \<Rightarrow> map_option (apsnd (Cons x)) (get_loop get q' n))"

text \<open>
  The contract: a queue holds a list no longer than its capacity; a store appends or, on a
  full queue, changes nothing; a read takes the first element or, on an empty queue, nothing.
\<close>

locale byte_queue =
  fixes put :: "'q \<Rightarrow> 'a \<Rightarrow> ('q \<times> bool) option"
    and get :: "'q \<Rightarrow> ('q \<times> 'a option) option"
    and inv :: "'q \<Rightarrow> bool"
    and contents :: "'q \<Rightarrow> 'a list"
    and cap :: "'q \<Rightarrow> nat"
  assumes bounded: "inv q \<Longrightarrow> length (contents q) \<le> cap q"
    and put_room: "inv q \<Longrightarrow> length (contents q) < cap q \<Longrightarrow>
      \<exists>q'. put q x = Some (q', True) \<and> inv q' \<and> contents q' = contents q @ [x] \<and> cap q' = cap q"
    and put_full: "inv q \<Longrightarrow> length (contents q) = cap q \<Longrightarrow> put q x = Some (q, False)"
    and get_empty: "inv q \<Longrightarrow> contents q = [] \<Longrightarrow> get q = Some (q, None)"
    and get_some: "inv q \<Longrightarrow> contents q = x # xs \<Longrightarrow>
      \<exists>q'. get q = Some (q', Some x) \<and> inv q' \<and> contents q' = xs \<and> cap q' = cap q"
begin

lemma put_loop_spec:
  assumes "inv q"
  shows "\<exists>q'. put_loop put q xs = Some (q', min (length xs) (cap q - length (contents q))) \<and>
    inv q' \<and> contents q' = contents q @ take (cap q - length (contents q)) xs \<and> cap q' = cap q"
  using assms
proof (induction xs arbitrary: q)
  case (Cons x xs)
  show ?case
  proof (cases "length (contents q) = cap q")
    case True
    with put_full [OF Cons.prems] Cons.prems show ?thesis by simp
  next
    case False
    with bounded [OF Cons.prems] have room: "length (contents q) < cap q" by simp
    obtain q1 where q1: "put q x = Some (q1, True)" "inv q1" "contents q1 = contents q @ [x]"
      "cap q1 = cap q" using put_room [OF Cons.prems room] by blast
    obtain k where k: "cap q - length (contents q) = Suc k"
      using room by (metis Suc_diff_Suc)
    then have "cap q1 - length (contents q1) = k" using q1 by simp
    with Cons.IH [OF q1(2)] q1 k show ?thesis by auto
  qed
qed simp

lemma get_loop_spec:
  assumes "inv q"
  shows "\<exists>q'. get_loop get q n = Some (q', take n (contents q)) \<and> inv q' \<and>
    contents q' = drop n (contents q) \<and> cap q' = cap q"
  using assms
proof (induction n arbitrary: q)
  case (Suc n)
  show ?case
  proof (cases "contents q")
    case Nil
    with get_empty [OF Suc.prems Nil] Suc.prems show ?thesis by simp
  next
    case (Cons x xs)
    obtain q1 where "get q = Some (q1, Some x)" "inv q1" "contents q1 = xs" "cap q1 = cap q"
      using get_some [OF Suc.prems Cons] by blast
    with Suc.IH [of q1] Cons show ?thesis by auto
  qed
qed simp

end

section \<open>The ring\<close>

record ring =
  r_buf :: "u8 list"
  r_size :: nat
  r_head :: nat
  r_tail :: nat


definition cli_uart_ring_count :: "ring \<Rightarrow> nat" where
  "cli_uart_ring_count r =
     (if r_head r \<ge> r_tail r then r_head r - r_tail r
      else r_size r - r_tail r + r_head r)"

definition cli_uart_ring_free :: "ring \<Rightarrow> nat" where
  "cli_uart_ring_free r = r_size r - 1 - cli_uart_ring_count r"

definition cli_uart_ring_put :: "ring \<Rightarrow> u8 \<Rightarrow> (ring \<times> bool) option" where
  "cli_uart_ring_put r b =
     (let next = (r_head r + 1) mod r_size r in
      if next = r_tail r then Some (r, False)
      else map_option (\<lambda>buf. (r\<lparr>r_buf := buf, r_head := next\<rparr>, True)) (st (r_buf r) (r_head r) b))"

definition cli_uart_ring_get :: "ring \<Rightarrow> (ring \<times> u8 option) option" where
  "cli_uart_ring_get r =
     (if r_tail r = r_head r then Some (r, None)
      else map_option (\<lambda>b. (r\<lparr>r_tail := (r_tail r + 1) mod r_size r\<rparr>, Some b))
             (ld (r_buf r) (r_tail r)))"

definition cli_uart_ring_put_buf :: "ring \<Rightarrow> u8 list \<Rightarrow> (ring \<times> nat) option" where
  "cli_uart_ring_put_buf r d = put_loop cli_uart_ring_put r d"

definition cli_uart_ring_get_buf :: "ring \<Rightarrow> nat \<Rightarrow> (ring \<times> u8 list) option" where
  "cli_uart_ring_get_buf r n = get_loop cli_uart_ring_get r n"

text \<open>The contiguous run is the offset of its start and its length.\<close>

definition cli_uart_ring_contig :: "ring \<Rightarrow> nat \<times> nat" where
  "cli_uart_ring_contig r =
     (r_tail r,
      if r_head r \<ge> r_tail r then r_head r - r_tail r else r_size r - r_tail r)"

definition cli_uart_ring_advance_tail :: "ring \<Rightarrow> nat \<Rightarrow> ring" where
  "cli_uart_ring_advance_tail r n = r\<lparr>r_tail := (r_tail r + n) mod r_size r\<rparr>"

definition cli_uart_ring_note_high :: "ring \<Rightarrow> u32 \<Rightarrow> u32" where
  "cli_uart_ring_note_high r high =
     (let n = of_nat (cli_uart_ring_count r) in if n > high then n else high)"

definition cli_uart_ring_high_restart :: "ring \<Rightarrow> u32" where
  "cli_uart_ring_high_restart r = of_nat (cli_uart_ring_count r)"

subsection \<open>The ring is a bounded queue\<close>

definition ring_ok :: "ring \<Rightarrow> bool" where
  "ring_ok r \<longleftrightarrow> length (r_buf r) = r_size r \<and> r_head r < r_size r \<and> r_tail r < r_size r"

definition ring_bytes :: "ring \<Rightarrow> u8 list" where
  "ring_bytes r =
     map (\<lambda>i. r_buf r ! ((r_tail r + i) mod r_size r)) [0..<cli_uart_ring_count r]"

definition ring_cap :: "ring \<Rightarrow> nat" where
  "ring_cap r = r_size r - 1"

lemma ring_count_less: "ring_ok r \<Longrightarrow> cli_uart_ring_count r < r_size r"
  by (auto simp: ring_ok_def cli_uart_ring_count_def)

lemma ring_bytes_length [simp]: "length (ring_bytes r) = cli_uart_ring_count r"
  by (simp add: ring_bytes_def)

lemma mod_wrap: "x < 2 * s \<Longrightarrow> x mod s = (if x < s then x else x - (s :: nat))"
  by (auto simp: le_mod_geq)

text \<open>The slot behind the stored bytes is the head.\<close>

lemma ring_head:
  "ring_ok r \<Longrightarrow> (r_tail r + cli_uart_ring_count r) mod r_size r = r_head r"
  by (auto simp: ring_ok_def cli_uart_ring_count_def)

lemma ring_slot_inj:
  assumes "ring_ok r" and "i < r_size r" and "j < r_size r"
    and "(r_tail r + i) mod r_size r = (r_tail r + j) mod r_size r"
  shows "i = j"
  using assms by (auto simp: ring_ok_def mod_wrap split: if_splits)

lemma ring_full:
  "ring_ok r \<Longrightarrow> (r_head r + 1) mod r_size r = r_tail r \<longleftrightarrow> cli_uart_ring_count r = ring_cap r"
  by (auto simp: ring_ok_def cli_uart_ring_count_def ring_cap_def mod_wrap split: if_splits)

lemma ring_empty: "ring_ok r \<Longrightarrow> r_tail r = r_head r \<longleftrightarrow> cli_uart_ring_count r = 0"
  by (auto simp: ring_ok_def cli_uart_ring_count_def)

lemma ring_put_room:
  assumes "ring_ok r" and "cli_uart_ring_count r < ring_cap r"
  shows "\<exists>r'. cli_uart_ring_put r b = Some (r', True) \<and> ring_ok r' \<and>
    ring_bytes r' = ring_bytes r @ [b] \<and> ring_cap r' = ring_cap r"
proof -
  let ?n = "Suc (r_head r) mod r_size r"
  let ?r = "r\<lparr>r_buf := (r_buf r)[r_head r := b], r_head := ?n\<rparr>"
  from assms ring_full [OF assms(1)] have ne: "?n \<noteq> r_tail r" by simp
  have ok: "ring_ok ?r" using assms(1) by (auto simp: ring_ok_def)
  have cnt: "cli_uart_ring_count ?r = Suc (cli_uart_ring_count r)"
    using assms(1) ne by (auto simp: ring_ok_def cli_uart_ring_count_def mod_wrap)
  have keep: "r_head r \<noteq> (r_tail r + i) mod r_size r" if "i < cli_uart_ring_count r" for i
    using that ring_slot_inj [OF assms(1), of i "cli_uart_ring_count r"] ring_count_less [OF assms(1)]
    by (auto simp: ring_head [OF assms(1), symmetric])
  have hd: "(r_tail r + cli_uart_ring_count r) mod r_size r = r_head r"
    by (rule ring_head [OF assms(1)])
  have "ring_bytes ?r = ring_bytes r @ [b]"
    using assms(1) keep hd by (simp add: ring_bytes_def cnt ring_ok_def)
  moreover have "cli_uart_ring_put r b = Some (?r, True)"
    using ne assms(1) by (simp add: cli_uart_ring_put_def ring_ok_def mem_simps)
  ultimately show ?thesis using ok by (simp add: ring_cap_def)
qed

lemma ring_advance:
  assumes "ring_ok r" and "n \<le> cli_uart_ring_count r"
  shows "ring_ok (cli_uart_ring_advance_tail r n)"
    "ring_bytes (cli_uart_ring_advance_tail r n) = drop n (ring_bytes r)"
    "ring_cap (cli_uart_ring_advance_tail r n) = ring_cap r"
proof -
  let ?r = "cli_uart_ring_advance_tail r n"
  show "ring_ok ?r" "ring_cap ?r = ring_cap r"
    using assms(1) by (auto simp: ring_ok_def cli_uart_ring_advance_tail_def ring_cap_def)
  have cnt: "cli_uart_ring_count ?r = cli_uart_ring_count r - n"
    using assms by (auto simp: cli_uart_ring_count_def cli_uart_ring_advance_tail_def ring_ok_def
        mod_wrap split: if_splits)
  show "ring_bytes ?r = drop n (ring_bytes r)"
  proof (rule nth_equalityI)
    fix i assume "i < length (ring_bytes ?r)"
    then have i: "i < cli_uart_ring_count r - n" by (simp add: cnt)
    then have "[0..<cli_uart_ring_count r] ! (n + i) = n + i" by simp
    moreover have "((r_tail r + n) mod r_size r + i) mod r_size r = (r_tail r + (n + i)) mod r_size r"
      by (simp add: mod_add_left_eq add.assoc)
    ultimately show "ring_bytes ?r ! i = drop n (ring_bytes r) ! i"
      using cnt i by (simp add: ring_bytes_def cli_uart_ring_advance_tail_def)
  qed (simp add: cnt)
qed

lemma ring_get_some:
  assumes "ring_ok r" and "ring_bytes r = x # xs"
  shows "\<exists>r'. cli_uart_ring_get r = Some (r', Some x) \<and> ring_ok r' \<and> ring_bytes r' = xs \<and>
    ring_cap r' = ring_cap r"
proof -
  have pos: "0 < cli_uart_ring_count r" using assms(2) ring_bytes_length [of r] by simp
  then have "r_buf r ! r_tail r = ring_bytes r ! 0"
    using assms(1) by (simp add: ring_bytes_def ring_ok_def)
  then have "r_buf r ! r_tail r = x" using assms(2) by simp
  moreover have "r_tail r \<noteq> r_head r" using pos ring_empty [OF assms(1)] by simp
  ultimately have "cli_uart_ring_get r = Some (cli_uart_ring_advance_tail r 1, Some x)"
    using assms(1)
    by (simp add: cli_uart_ring_get_def mem_simps ring_ok_def cli_uart_ring_advance_tail_def)
  with ring_advance [OF assms(1), of 1] pos assms(2) show ?thesis by auto
qed

interpretation ring: byte_queue cli_uart_ring_put cli_uart_ring_get ring_ok ring_bytes ring_cap
proof unfold_locales
  show "ring_ok r \<Longrightarrow> length (ring_bytes r) \<le> ring_cap r" for r
    using ring_count_less [of r] by (simp add: ring_cap_def)
  show "ring_ok r \<Longrightarrow> length (ring_bytes r) < ring_cap r \<Longrightarrow> \<exists>r'.
      cli_uart_ring_put r b = Some (r', True) \<and> ring_ok r' \<and> ring_bytes r' = ring_bytes r @ [b] \<and>
      ring_cap r' = ring_cap r" for r b
    using ring_put_room [of r b] by simp
  show "ring_ok r \<Longrightarrow> length (ring_bytes r) = ring_cap r \<Longrightarrow>
      cli_uart_ring_put r b = Some (r, False)" for r b
    using ring_full [of r] by (simp add: cli_uart_ring_put_def)
  show "ring_ok r \<Longrightarrow> ring_bytes r = [] \<Longrightarrow> cli_uart_ring_get r = Some (r, None)" for r
    using ring_empty [of r] by (simp add: cli_uart_ring_get_def ring_bytes_def)
  show "ring_ok r \<Longrightarrow> ring_bytes r = x # xs \<Longrightarrow> \<exists>r'.
      cli_uart_ring_get r = Some (r', Some x) \<and> ring_ok r' \<and> ring_bytes r' = xs \<and>
      ring_cap r' = ring_cap r" for r x xs
    by (rule ring_get_some)
qed


lemma ring_free: "ring_ok r \<Longrightarrow> cli_uart_ring_free r + length (ring_bytes r) = ring_cap r"
  using ring_count_less [of r] by (simp add: cli_uart_ring_free_def ring_cap_def)

text \<open>The slice that goes to the transmitter is a prefix of the contents inside the buffer.\<close>

lemma ring_contig:
  assumes "ring_ok r" and "cli_uart_ring_contig r = (off, run)"
  shows "off + run \<le> length (r_buf r)" "run \<le> length (ring_bytes r)"
    "take run (drop off (r_buf r)) = take run (ring_bytes r)"
    "run = 0 \<longleftrightarrow> ring_bytes r = []"
proof -
  from assms have o: "off = r_tail r" and
    run: "run = (if r_head r \<ge> r_tail r then r_head r - r_tail r else r_size r - r_tail r)"
    by (auto simp: cli_uart_ring_contig_def)
  show b: "off + run \<le> length (r_buf r)" and c: "run \<le> length (ring_bytes r)"
    using assms(1) by (auto simp: o run ring_ok_def cli_uart_ring_count_def)
  show "run = 0 \<longleftrightarrow> ring_bytes r = []"
    using assms(1) ring_empty [OF assms(1)] by (auto simp: run ring_bytes_def ring_ok_def)
  show "take run (drop off (r_buf r)) = take run (ring_bytes r)"
  proof (rule nth_equalityI)
    fix i assume "i < length (take run (drop off (r_buf r)))"
    then have i: "i < run" by simp
    then have "(r_tail r + i) mod r_size r = r_tail r + i"
      using b assms(1) by (intro mod_less) (simp add: o ring_ok_def)
    with i b c show "take run (drop off (r_buf r)) ! i = take run (ring_bytes r) ! i"
      by (simp add: o ring_bytes_def)
  qed (use b c in simp)
qed

section \<open>The users of the ring\<close>

text \<open>
  What the consumer is in the middle of: nothing; a read that has seen the ring non-empty; a
  read that has also loaded the byte and has not yet stored the tail; a slice (offset and
  length) in flight in the transmitter, \<open>tx_in_flight\<close> with \<open>tx_chunk\<close>.
\<close>

datatype use = Idle | Tested | Loaded u8 | Sending nat nat

record uart =
  u_ring :: ring
  u_use :: use
  u_high :: u32

text \<open>\<open>hal\<close> is whether \<open>HAL_UART_Transmit_IT\<close> accepts the slice.\<close>

definition tx_start_locked :: "bool \<Rightarrow> uart \<Rightarrow> uart" where
  "tx_start_locked hal u =
     (if u_use u \<noteq> Idle then u
      else let (off, run) = cli_uart_ring_contig (u_ring u) in
        if run = 0 then u
        else if hal then u\<lparr>u_use := Sending off run\<rparr>
        else u)"

datatype reply = Done | Count nat | Bytes "u8 list"

definition uart_write :: "u8 list \<Rightarrow> bool \<Rightarrow> uart \<Rightarrow> (uart \<times> reply) option" where
  "uart_write d hal u =
     map_option (\<lambda>(r, acc). (tx_start_locked hal (u\<lparr>u_ring := r\<rparr>), Count acc))
       (cli_uart_ring_put_buf (u_ring u) d)"

text \<open>One round of \<open>tx_putc_spin\<close>.\<close>

definition tx_putc :: "u8 \<Rightarrow> bool \<Rightarrow> uart \<Rightarrow> (uart \<times> reply) option" where
  "tx_putc b hal u =
     map_option (\<lambda>(r, ok). (tx_start_locked hal (u\<lparr>u_ring := r\<rparr>), Count (of_bool ok)))
       (cli_uart_ring_put (u_ring u) b)"

definition HAL_UART_RxCpltCallback :: "u8 \<Rightarrow> uart \<Rightarrow> (uart \<times> reply) option" where
  "HAL_UART_RxCpltCallback b u =
     map_option (\<lambda>(r, ok).
       (if ok then u\<lparr>u_ring := r, u_high := cli_uart_ring_note_high r (u_high u)\<rparr>
        else u\<lparr>u_ring := r\<rparr>, Count (of_bool ok)))
       (cli_uart_ring_put (u_ring u) b)"

definition HAL_UART_TxCpltCallback :: "bool \<Rightarrow> uart \<Rightarrow> (uart \<times> reply) option" where
  "HAL_UART_TxCpltCallback hal u =
     (case u_use u of
        Sending off chunk \<Rightarrow>
          Some (tx_start_locked hal
            (u\<lparr>u_ring := cli_uart_ring_advance_tail (u_ring u) chunk, u_use := Idle\<rparr>), Count chunk)
      | Idle \<Rightarrow>
          Some (tx_start_locked hal (u\<lparr>u_ring := cli_uart_ring_advance_tail (u_ring u) 0\<rparr>), Count 0)
      | _ \<Rightarrow> Some (u, Done))"

definition uart_read :: "nat \<Rightarrow> uart \<Rightarrow> (uart \<times> reply) option" where
  "uart_read n u =
     (if u_use u = Idle
      then map_option (\<lambda>(r, bs). (u\<lparr>u_ring := r\<rparr>, Bytes bs)) (cli_uart_ring_get_buf (u_ring u) n)
      else Some (u, Done))"

text \<open>The statements of \<open>cli_uart_ring_get\<close>, between which the interrupt may store a byte.\<close>

definition get_test :: "uart \<Rightarrow> (uart \<times> reply) option" where
  "get_test u =
     (if u_use u = Idle
      then if r_tail (u_ring u) = r_head (u_ring u) then Some (u, Count 0)
           else Some (u\<lparr>u_use := Tested\<rparr>, Count 1)
      else Some (u, Done))"

definition get_load :: "uart \<Rightarrow> (uart \<times> reply) option" where
  "get_load u =
     (if u_use u = Tested
      then map_option (\<lambda>b. (u\<lparr>u_use := Loaded b\<rparr>, Bytes [b]))
             (ld (r_buf (u_ring u)) (r_tail (u_ring u)))
      else Some (u, Done))"

definition get_store :: "uart \<Rightarrow> (uart \<times> reply) option" where
  "get_store u =
     (case u_use u of
        Loaded b \<Rightarrow>
          Some (u\<lparr>u_ring := (u_ring u)\<lparr>r_tail := (r_tail (u_ring u) + 1) mod r_size (u_ring u)\<rparr>,
                  u_use := Idle\<rparr>, Count 1)
      | _ \<Rightarrow> Some (u, Done))"

text \<open>The transmitter loads byte \<open>i\<close> of the slice in flight.\<close>

definition tx_fetch :: "nat \<Rightarrow> uart \<Rightarrow> (uart \<times> reply) option" where
  "tx_fetch i u =
     (case u_use u of
        Sending off run \<Rightarrow>
          if i < run then map_option (\<lambda>b. (u, Bytes [b])) (ld (r_buf (u_ring u)) (off + i))
          else Some (u, Done)
      | _ \<Rightarrow> Some (u, Done))"

definition rx_high_clear :: "uart \<Rightarrow> (uart \<times> reply) option" where
  "rx_high_clear u = Some (u\<lparr>u_high := cli_uart_ring_high_restart (u_ring u)\<rparr>, Done)"

datatype uart_op =
    Write "u8 list" bool | Putc u8 bool | Rx u8 | Complete bool
  | Read nat | Get_test | Get_load | Get_store | Fetch nat | High_clear

fun uart_step :: "uart_op \<Rightarrow> uart \<Rightarrow> (uart \<times> reply) option" where
  "uart_step (Write d hal) u = uart_write d hal u"
| "uart_step (Putc b hal) u = tx_putc b hal u"
| "uart_step (Rx b) u = HAL_UART_RxCpltCallback b u"
| "uart_step (Complete hal) u = HAL_UART_TxCpltCallback hal u"
| "uart_step (Read n) u = uart_read n u"
| "uart_step Get_test u = get_test u"
| "uart_step Get_load u = get_load u"
| "uart_step Get_store u = get_store u"
| "uart_step (Fetch i) u = tx_fetch i u"
| "uart_step High_clear u = rx_high_clear u"

fun uart_run :: "uart \<Rightarrow> uart_op list \<Rightarrow> (uart \<times> reply list) option" where
  "uart_run u [] = Some (u, [])"
| "uart_run u (op # ops) =
     Option.bind (uart_step op u) (\<lambda>(u1, x). map_option (apsnd (Cons x)) (uart_run u1 ops))"

text \<open>Without an interrupt between them the three statements are \<open>cli_uart_ring_get\<close>.\<close>

lemma get_statements:
  assumes "u_use u = Idle"
  shows "map_option fst (uart_run u [Get_test, Get_load, Get_store]) =
    map_option (\<lambda>(r, b). u\<lparr>u_ring := r\<rparr>) (cli_uart_ring_get (u_ring u))"
  using assms
  by (cases "ld (r_buf (u_ring u)) (r_tail (u_ring u))")
    (auto simp: get_test_def get_load_def get_store_def cli_uart_ring_get_def)

subsection \<open>The queue they should see\<close>

text \<open>
  The list of waiting bytes, the offset of its first byte in the buffer (it decides how much is
  sent at once), the consumer's state and the deepest fill noted. Every reply is determined.
\<close>

record fifo =
  f_pos :: nat
  f_list :: "u8 list"
  f_use :: use
  f_high :: nat

definition fifo_start :: "nat \<Rightarrow> bool \<Rightarrow> fifo \<Rightarrow> fifo" where
  "fifo_start sz hal f =
     (if f_use f = Idle \<and> f_list f \<noteq> [] \<and> hal
      then f\<lparr>f_use := Sending (f_pos f) (min (length (f_list f)) (sz - f_pos f))\<rparr> else f)"

definition fifo_drop :: "nat \<Rightarrow> nat \<Rightarrow> fifo \<Rightarrow> fifo" where
  "fifo_drop sz n f =
     f\<lparr>f_pos := (f_pos f + n) mod sz, f_list := drop n (f_list f), f_use := Idle\<rparr>"








subsection \<open>Every call refines the queue's\<close>













declare ring_bytes_length [simp del]




















lemma fifo_start_list [simp]: "f_list (fifo_start sz hal f) = f_list f"
  by (simp add: fifo_start_def)

lemma fifo_drop_list [simp]: "f_list (fifo_drop sz n f) = drop n (f_list f)"
  by (simp add: fifo_drop_def)





end
