(* ===== verification/Crc32.thy ===== *)
theory Crc32
  imports Prelude
begin

text \<open>
  \<open>svc/crc32.c\<close>: CRC-32/ISO-HDLC a nibble at a time from a 16-entry table. The specification
  is the bit-serial division by the reflected polynomial; \<open>crc32_update_bitwise\<close> is the
  equivalence and \<open>crc32_update_append\<close> the streaming law that the blob writers use.
\<close>

section \<open>The table-driven routine\<close>

definition crc32_nibble :: "u32 list" where
  "crc32_nibble =
    [0x00000000, 0x1DB71064, 0x3B6E20C8, 0x26D930AC,
     0x76DC4190, 0x6B6B51F4, 0x4DB26158, 0x5005713C,
     0xEDB88320, 0xF00F9344, 0xD6D6A3E8, 0xCB61B38C,
     0x9B64C2B0, 0x86D3D2D4, 0xA00AE278, 0xBDBDF21C]"

definition crc32_half :: "u32 \<Rightarrow> u32" where
  "crc32_half crc = drop_bit 4 crc XOR crc32_nibble ! unat (crc AND 0x0F)"

definition crc32_byte :: "u32 \<Rightarrow> u8 \<Rightarrow> u32" where
  "crc32_byte crc b = crc32_half (crc32_half (crc XOR ucast b))"

definition crc32_update :: "u32 \<Rightarrow> u8 list \<Rightarrow> u32" where
  "crc32_update crc bs = NOT (foldl crc32_byte (NOT crc) bs)"

section \<open>The bit-serial specification\<close>

definition crc_poly :: u32 where "crc_poly = 0xEDB88320"

definition crc_bit :: "u32 \<Rightarrow> u32" where
  "crc_bit c = (if bit c 0 then drop_bit 1 c XOR crc_poly else drop_bit 1 c)"

definition crc_byte_spec :: "u32 \<Rightarrow> u8 \<Rightarrow> u32" where
  "crc_byte_spec c b = (crc_bit ^^ 8) (c XOR ucast b)"

lemma xor_if:
  fixes u v p :: u32
  shows "(if a \<noteq> b then (u XOR v) XOR p else u XOR v) =
    (if a then u XOR p else u) XOR (if b then v XOR p else v)"
proof (rule bit_eqI)
  fix n
  show "bit (if a \<noteq> b then (u XOR v) XOR p else u XOR v) n =
    bit ((if a then u XOR p else u) XOR (if b then v XOR p else v)) n"
    by (cases "bit u n"; cases "bit v n"; cases "bit p n"; cases a; cases b) (simp_all add: bit_xor_iff)
qed

lemma crc_bit_xor: "crc_bit (x XOR y) = crc_bit x XOR crc_bit y"
  unfolding crc_bit_def drop_bit_xor bit_xor_iff by (rule xor_if)

lemma crc_bit_pow_xor: "(crc_bit ^^ n) (x XOR y) = (crc_bit ^^ n) x XOR (crc_bit ^^ n) y"
  by (induction n) (simp_all add: crc_bit_xor)

lemma crc_bit_shift: "\<forall>m<n. \<not> bit x m \<Longrightarrow> (crc_bit ^^ n) x = drop_bit n x"
proof (induction n)
  case (Suc n)
  then have "(crc_bit ^^ n) x = drop_bit n x" "\<not> bit (drop_bit n x) 0"
    by (simp_all add: bit_drop_bit_eq)
  then show ?case by (simp add: crc_bit_def [of "drop_bit n x"] drop_bit_drop_bit)
qed simp

lemma crc32_nibble_entries: "\<forall>n\<in>set [0..<16]. crc32_nibble ! n = (crc_bit ^^ 4) (of_nat n)"
  by code_simp

lemma crc32_half_bits: "crc32_half c = (crc_bit ^^ 4) c"
proof -
  let ?l = "take_bit 4 c" and ?h = "push_bit 4 (drop_bit 4 c)"
  have "c = ?h XOR ?l" by (rule bit_eqI) (auto simp: bit_simps)
  then have "(crc_bit ^^ 4) c = (crc_bit ^^ 4) ?h XOR (crc_bit ^^ 4) ?l"
    by (metis crc_bit_pow_xor)
  moreover have "(crc_bit ^^ 4) ?h = drop_bit 4 ?h"
    by (rule crc_bit_shift) (simp add: bit_simps)
  moreover have "drop_bit 4 ?h = drop_bit 4 c"
    by (rule bit_eqI) (auto simp: bit_simps dest: bit_imp_le_length)
  moreover have "(crc_bit ^^ 4) ?l = crc32_nibble ! unat ?l"
  proof -
    have "unat ?l < 16" using take_bit_nat_less_exp [of 4 "unat c"] by (simp add: unsigned_take_bit_eq)
    then have "unat ?l \<in> set [0..<16]" by simp
    with crc32_nibble_entries have "crc32_nibble ! unat ?l = (crc_bit ^^ 4) (of_nat (unat ?l))" by blast
    then show ?thesis by simp
  qed
  moreover have "c AND 0x0F = ?l" by (simp add: take_bit_eq_mask mask_eq_exp_minus_1)
  ultimately show ?thesis by (simp add: crc32_half_def)
qed

lemma crc32_byte_bits: "crc32_byte = crc_byte_spec"
proof (intro ext)
  fix c b
  have "(crc_bit ^^ 8) x = (crc_bit ^^ 4) ((crc_bit ^^ 4) x)" for x
    by (simp add: funpow_add [symmetric, THEN fun_cong, unfolded o_def])
  then show "crc32_byte c b = crc_byte_spec c b"
    by (simp add: crc32_byte_def crc_byte_spec_def crc32_half_bits)
qed

lemma crc32_update_append: "crc32_update (crc32_update c a) b = crc32_update c (a @ b)"
  by (simp add: crc32_update_def)

text \<open>C37. The nibble-table routine computes the bit-serial CRC-32 (inverted in and out, least
  significant bit first, polynomial 0xEDB88320) for every starting value and every input, and
  feeding it a stream in pieces gives the value of the whole stream.\<close>

theorem crc32_update_correct:
  "crc32_update c (a @ b) = crc32_update (crc32_update c a) b \<and>
   crc32_update c a =
     NOT (foldl (\<lambda>crc byte. (crc_bit ^^ 8) (crc XOR ucast byte)) (NOT c) a)"
  by (simp add: crc32_update_append crc32_byte_bits [unfolded crc_byte_spec_def [abs_def]]
      crc32_update_def)

text \<open>The check value of CRC-32/ISO-HDLC, over the digits 1 to 9.\<close>

lemma crc32_check_value:
  "crc32_update 0 (str ''123456789'') = 0xCBF43926"
  by (simp add: str_def crc32_update_def crc32_byte_def crc32_half_def crc32_nibble_def drop_bit_eq_div)

end
