(* ===== verification/CliTokens.thy ===== *)
theory CliTokens
  imports Prelude
begin

text \<open>
  The tokenizer of \<open>shell/core/cli_parse.c\<close> (\<open>next_token\<close>, \<open>cli_tokenize\<close>). It works
  in place on the line buffer, through a read and a write cursor; a byte read or written
  outside the buffer is \<open>None\<close>. Beside it stands a specification on lists without memory;
  \<open>next_token_step\<close> is the refinement of one token that every caller's proof uses.
\<close>

section \<open>Data\<close>

abbreviation SQ :: u8 where "SQ \<equiv> 39"
abbreviation DQ :: u8 where "DQ \<equiv> 34"
abbreviation BSL :: u8 where "BSL \<equiv> 92"
abbreviation SEMI :: u8 where "SEMI \<equiv> 59"
abbreviation AMP :: u8 where "AMP \<equiv> 38"

datatype cli_parse_status =
    CLI_PARSE_OK
  | CLI_PARSE_EMPTY
  | CLI_PARSE_NOT_FOUND
  | CLI_PARSE_NO_HANDLER
  | CLI_PARSE_WRONG_ARGS
  | CLI_PARSE_TOO_MANY_TOKENS
  | CLI_PARSE_NESTING_TOO_DEEP
  | CLI_PARSE_UNTERMINATED_QUOTE

definition is_space :: "u8 \<Rightarrow> bool" where
  "is_space c \<longleftrightarrow> c = 32 \<or> c = 9"

lemma is_space_quote [simp]: "\<not> is_space SQ" "\<not> is_space DQ" "\<not> is_space BSL" "\<not> is_space 0"
  by (simp_all add: is_space_def)

section \<open>The tokenizer\<close>

text \<open>
  \<open>next_token\<close>: \<open>rd\<close> and \<open>wr\<close> are the two cursors into the one buffer. The loop
  leaves with the buffer and the cursors before the final \<open>*wr++ = 0\<close>, or with the
  unterminated-quote error and the buffer as it then stands.
\<close>

datatype tok_exit = TokEnd "u8 list" nat nat | TokErr "u8 list"

function skip_spaces :: "u8 list \<Rightarrow> nat \<Rightarrow> nat option" where
  "skip_spaces b rd =
     (if rd < length b then if is_space (b ! rd) then skip_spaces b (Suc rd) else Some rd
      else None)"
  by pat_completeness auto
termination
  by (relation "measure (\<lambda>(b, rd). length b - rd)") auto

function tok_loop :: "u8 list \<Rightarrow> nat \<Rightarrow> nat \<Rightarrow> u8 \<Rightarrow> tok_exit option" where
  "tok_loop b rd wr quote =
     (if rd < length b then
        let c = b ! rd in
        if quote = 0 then
          if c = 0 then Some (TokEnd b rd wr)
          else if is_space c then Some (TokEnd b (rd + 1) wr)
          else if c = DQ \<or> c = SQ then tok_loop b (rd + 1) wr c
          else if c = BSL then
            (case ld b (rd + 1) of
               None \<Rightarrow> None
             | Some c' \<Rightarrow>
                 if c' = 0
                 then map_option (\<lambda>b'. TokEnd b' (rd + 1) (wr + 1)) (st b wr BSL)
                 else if wr < length b then tok_loop (b[wr := c']) (rd + 2) (wr + 1) quote
                 else None)
          else if wr < length b then tok_loop (b[wr := c]) (rd + 1) (wr + 1) quote
          else None
        else if quote = DQ then
          if c = 0 then Some (TokErr b)
          else if c = DQ then tok_loop b (rd + 1) wr 0
          else if c = BSL then
            (case ld b (rd + 1) of
               None \<Rightarrow> None
             | Some c' \<Rightarrow>
                 if c' = 0 then Some (TokErr b)
                 else if wr < length b then tok_loop (b[wr := c']) (rd + 2) (wr + 1) quote
                 else None)
          else if wr < length b then tok_loop (b[wr := c]) (rd + 1) (wr + 1) quote
          else None
        else
          if c = 0 then Some (TokErr b)
          else if c = SQ then tok_loop b (rd + 1) wr 0
          else if wr < length b then tok_loop (b[wr := c]) (rd + 1) (wr + 1) quote
          else None
      else None)"
  by pat_completeness auto
termination
  by (relation "measure (\<lambda>(b, rd, wr, q). length b - rd)") auto

declare skip_spaces.simps [simp del] tok_loop.simps [simp del]

text \<open>
  The three outcomes of \<open>next_token\<close>: 0 (end of line), 1 (a token at offset \<open>tok\<close>)
  and the negative status of an unterminated quote.
\<close>

datatype next_tok =
    NT_END "u8 list" nat nat
  | NT_TOK "u8 list" nat nat nat
  | NT_ERR "u8 list"

definition next_token :: "u8 list \<Rightarrow> nat \<Rightarrow> nat \<Rightarrow> next_tok option" where
  "next_token b rd0 wr0 =
     (case skip_spaces b rd0 of
        None \<Rightarrow> None
      | Some rd \<Rightarrow>
          if b ! rd = 0 then Some (NT_END b rd wr0)
          else (case tok_loop b rd wr0 0 of
                  None \<Rightarrow> None
                | Some (TokErr b') \<Rightarrow> Some (NT_ERR b')
                | Some (TokEnd b' rd' wr') \<Rightarrow>
                    map_option (\<lambda>b''. NT_TOK b'' rd' (wr' + 1) wr0) (st b' wr' 0)))"

text \<open>
  \<open>cli_tokenize\<close>: the token offsets stored so far are \<open>argv\<close>; the result is the
  buffer with the offsets, or with the status that stopped the scan.
\<close>

function tokenize_loop ::
  "u8 list \<Rightarrow> nat \<Rightarrow> nat \<Rightarrow> nat list \<Rightarrow> nat \<Rightarrow>
   (u8 list \<times> (cli_parse_status + nat list)) option" where
  "tokenize_loop b rd wr argv max_argc =
     (case next_token b rd wr of
        None \<Rightarrow> None
      | Some (NT_END b' _ _) \<Rightarrow> Some (b', Inr argv)
      | Some (NT_ERR b') \<Rightarrow> Some (b', Inl CLI_PARSE_UNTERMINATED_QUOTE)
      | Some (NT_TOK b' rd' wr' tok) \<Rightarrow>
          if length argv \<ge> max_argc then Some (b', Inl CLI_PARSE_TOO_MANY_TOKENS)
          else tokenize_loop b' rd' wr' (argv @ [tok]) max_argc)"
  by pat_completeness auto
termination
  by (relation "measure (\<lambda>(b, rd, wr, argv, m). m - length argv)") auto

declare tokenize_loop.simps [simp del]

definition cli_tokenize ::
  "u8 list \<Rightarrow> nat \<Rightarrow> (u8 list \<times> (cli_parse_status + nat list)) option" where
  "cli_tokenize line max_argc = tokenize_loop line 0 0 [] max_argc"

subsection \<open>Specification on lists\<close>

text \<open>
  One token of a NUL-free string, and the text after it; \<open>None\<close> is an unterminated quote.
\<close>

fun tok_spec :: "u8 \<Rightarrow> u8 list \<Rightarrow> (u8 list \<times> u8 list) option" where
  "tok_spec q [] = (if q = 0 then Some ([], []) else None)"
| "tok_spec q [c] =
     (if q = 0 then
        if is_space c then Some ([], [])
        else if c = DQ \<or> c = SQ then None
        else Some ([c], [])
      else if q = DQ \<and> c = DQ \<or> q \<noteq> DQ \<and> c = SQ then Some ([], [])
      else None)"
| "tok_spec q (c # d # s) =
     (if q = 0 then
        if is_space c then Some ([], d # s)
        else if c = DQ \<or> c = SQ then tok_spec c (d # s)
        else if c = BSL then map_option (\<lambda>(t, r). (d # t, r)) (tok_spec 0 s)
        else map_option (\<lambda>(t, r). (c # t, r)) (tok_spec 0 (d # s))
      else if q = DQ then
        if c = DQ then tok_spec 0 (d # s)
        else if c = BSL then map_option (\<lambda>(t, r). (d # t, r)) (tok_spec q s)
        else map_option (\<lambda>(t, r). (c # t, r)) (tok_spec q (d # s))
      else if c = SQ then tok_spec 0 (d # s)
      else map_option (\<lambda>(t, r). (c # t, r)) (tok_spec q (d # s)))"

text \<open>What the scanner finds next in a string: nothing more, a token and the rest, or a fault.\<close>

datatype tok_view = TS_END | TS_TOK "u8 list" "u8 list" | TS_ERR

definition next_spec :: "u8 list \<Rightarrow> tok_view" where
  "next_spec s =
     (let s' = dropWhile is_space s in
      if s' = [] then TS_END
      else case tok_spec 0 s' of None \<Rightarrow> TS_ERR | Some (t, r) \<Rightarrow> TS_TOK t r)"

text \<open>At most \<open>n\<close> tokens of a string, or the status of the first failure.\<close>

fun tokens_spec :: "nat \<Rightarrow> u8 list \<Rightarrow> cli_parse_status + u8 list list" where
  "tokens_spec n s =
     (case next_spec s of
        TS_END \<Rightarrow> Inr []
      | TS_ERR \<Rightarrow> Inl CLI_PARSE_UNTERMINATED_QUOTE
      | TS_TOK t r \<Rightarrow>
          (case n of
             0 \<Rightarrow> Inl CLI_PARSE_TOO_MANY_TOKENS
           | Suc m \<Rightarrow> (case tokens_spec m r of
                        Inl e \<Rightarrow> Inl e
                      | Inr ts \<Rightarrow> Inr (t # ts))))"

declare tokens_spec.simps [simp del]

subsection \<open>The buffer scanner refines the specification\<close>

lemma skip_spaces_spec:
  assumes "drop rd b = s @ 0 # post"
  shows "\<exists>rd'. skip_spaces b rd = Some rd' \<and> rd \<le> rd' \<and>
           drop rd' b = dropWhile is_space s @ 0 # post \<and>
           (s = [] \<longrightarrow> rd' = rd)"
  using assms
proof (induction s arbitrary: rd)
  case Nil
  then show ?case
    by (auto dest!: drop_ConsD simp: skip_spaces.simps [of b rd] is_space_def)
next
  case (Cons c s)
  then have c: "rd < length b" "b ! rd = c" "drop (Suc rd) b = s @ 0 # post"
    by (auto dest: drop_ConsD)
  show ?case
  proof (cases "is_space c")
    case True
    with Cons.IH [OF c(3)] c show ?thesis
      by (auto simp: skip_spaces.simps [of b rd])
  next
    case False
    with c Cons.prems show ?thesis
      by (auto simp: skip_spaces.simps [of b rd])
  qed
qed

text \<open>
  What the loop leaves behind: the token has been appended to the written part, and the
  unread tail is untouched. The write cursor reaches the read cursor only at the end.
\<close>

definition ends :: "'a list \<Rightarrow> 'a list \<Rightarrow> bool" where
  "ends b post \<longleftrightarrow> (\<exists>n. drop n b = post)"

lemma endsI: "drop n b = s @ x # post \<Longrightarrow> ends b post"
  unfolding ends_def by (metis append_Cons append_Nil append_eq_conv_conj append.assoc drop_drop)

definition tok_exit_ok ::
  "u8 list \<Rightarrow> nat \<Rightarrow> u8 list \<Rightarrow> (u8 list \<times> u8 list) option \<Rightarrow> tok_exit option \<Rightarrow> bool" where
  "tok_exit_ok b wr post spec out =
     (case spec of
        None \<Rightarrow> (\<exists>b'. out = Some (TokErr b') \<and> length b' = length b \<and> ends b' post)
      | Some (t, r) \<Rightarrow>
          (\<exists>b' rd' wr'. out = Some (TokEnd b' rd' wr') \<and> length b' = length b \<and>
             wr' = wr + length t \<and> take wr' b' = take wr b @ t \<and>
             drop rd' b' = r @ 0 # post \<and> wr' \<le> rd' \<and> (wr' = rd' \<longrightarrow> r = [])))"

lemma tok_exit_ok_push:
  assumes "tok_exit_ok (b[wr := c]) (Suc wr) post spec out" and "wr < length b"
  shows "tok_exit_ok b wr post (map_option (\<lambda>(t, r). (c # t, r)) spec) out"
  using assms by (auto simp: tok_exit_ok_def take_Suc_update split: option.splits)

lemma tok_loop_refines:
  assumes "drop rd b = s @ 0 # post" and "0 \<notin> set s" and "wr \<le> rd"
  shows "tok_exit_ok b wr post (tok_spec q s) (tok_loop b rd wr q)"
  using assms
proof (induction q s arbitrary: b rd wr rule: tok_spec.induct)
  case (1 q)
  then show ?case
    using endsI [of rd b "[]" 0 post]
    by (auto dest!: drop_ConsD simp: tok_loop.simps [of b rd] tok_exit_ok_def Let_def)
next
  case (2 q c)
  then have c: "rd < length b" "b ! rd = c" "drop (Suc rd) b = [0] @ post" "c \<noteq> 0"
    by (auto dest: drop_ConsD)
  then have e: "Suc rd < length b" "b ! Suc rd = 0"
    by (auto dest: drop_ConsD)
  have en: "ends b post" "ends (b[wr := x]) post" for x
    using endsI [of rd b "[c]" 0 post] 2 endsI [of "Suc rd" "b[wr := x]" "[]" 0 post] c(3)
    by simp_all
  have step: "tok_loop b' (Suc rd) w q' = (if q' = 0 then Some (TokEnd b' (Suc rd) w)
      else Some (TokErr b'))" if "length b' = length b" "b' ! Suc rd = 0" for b' w q'
    using that e by (simp add: tok_loop.simps [of b' "Suc rd"] Let_def)
  show ?case
    using 2 c e
    by (auto simp: tok_loop.simps [of b rd] step tok_exit_ok_def Let_def ld_def st_def
        take_Suc_update is_space_def en)
next
  case (3 q c d s)
  then have c: "rd < length b" "b ! rd = c" "drop (Suc rd) b = d # s @ 0 # post" "c \<noteq> 0" "d \<noteq> 0"
    by (auto dest: drop_ConsD)
  then have d: "Suc rd < length b" "b ! Suc rd = d" "drop (Suc (Suc rd)) b = s @ 0 # post"
    by (auto dest: drop_ConsD)
  have wr: "wr < length b" using 3 c by simp
  have push1: "drop (Suc rd) (b[wr := x]) = d # s @ 0 # post"
    and push2: "drop (Suc (Suc rd)) (b[wr := x]) = s @ 0 # post" for x
    using 3 c(3) d(3) by (auto simp: drop_update_cancel)
  note unfold = tok_loop.simps [of b rd wr] c d wr Let_def
  consider (space) "q = 0" "is_space c" | (opn) "q = 0" "\<not> is_space c" "c = DQ \<or> c = SQ"
    | (esc) "q = 0 \<or> q = DQ" "c = BSL" | (closeD) "q = DQ" "c = DQ"
    | (closeS) "q \<noteq> 0" "q \<noteq> DQ" "c = SQ"
    | (plain) "(q = 0 \<and> \<not> is_space c \<and> c \<noteq> DQ \<and> c \<noteq> SQ \<and> c \<noteq> BSL) \<or>
        (q = DQ \<and> c \<noteq> DQ \<and> c \<noteq> BSL) \<or> (q \<noteq> 0 \<and> q \<noteq> DQ \<and> c \<noteq> SQ)"
    by blast
  then show ?case
  proof cases
    case space
    with 3 c show ?thesis by (simp add: unfold tok_exit_ok_def)
  next
    case opn
    then have "tok_exit_ok b wr post (tok_spec c (d # s)) (tok_loop b (Suc rd) wr c)"
      using 3 c by (intro "3.IH") auto
    with opn show ?thesis by (auto simp: unfold)
  next
    case esc
    then have "tok_exit_ok (b[wr := d]) (Suc wr) post (tok_spec q s)
        (tok_loop (b[wr := d]) (Suc (Suc rd)) (Suc wr) q)"
      using 3 push2 "3.IH"(2) [of "Suc (Suc rd)" "b[wr := d]" "Suc wr"]
        "3.IH"(5) [of "Suc (Suc rd)" "b[wr := d]" "Suc wr"]
      by (auto simp: is_space_def)
    from tok_exit_ok_push [OF this wr] esc show ?thesis
      by (auto simp: unfold ld_def is_space_def)
  next
    case closeD
    then have "tok_exit_ok b wr post (tok_spec 0 (d # s)) (tok_loop b (Suc rd) wr 0)"
      using 3 c by (intro "3.IH") auto
    with closeD show ?thesis by (simp add: unfold)
  next
    case closeS
    then have "tok_exit_ok b wr post (tok_spec 0 (d # s)) (tok_loop b (Suc rd) wr 0)"
      using 3 c by (intro "3.IH") auto
    with closeS show ?thesis by (simp add: unfold)
  next
    case plain
    then have "tok_exit_ok (b[wr := c]) (Suc wr) post (tok_spec q (d # s))
        (tok_loop (b[wr := c]) (Suc rd) (Suc wr) q)"
      using 3 push1 "3.IH"(3) [of "Suc rd" "b[wr := c]" "Suc wr"]
        "3.IH"(6) [of "Suc rd" "b[wr := c]" "Suc wr"]
        "3.IH"(8) [of "Suc rd" "b[wr := c]" "Suc wr"]
      by auto
    from tok_exit_ok_push [OF this wr] plain show ?thesis
      by (auto simp: unfold)
  qed
qed

lemma tok_spec_set: "tok_spec q s = Some (t, r) \<Longrightarrow> set t \<subseteq> set s \<and> set r \<subseteq> set s"
proof (induction q s arbitrary: t r rule: tok_spec.induct)
  case (3 q c d s)
  then show ?case
    by (auto split: if_splits)
qed (auto split: if_splits)

text \<open>
  The state of a scan: \<open>s\<close> is the unread text, the written part holds the tokens so far,
  each terminated below the write cursor.
\<close>

definition scan_inv ::
  "u8 list \<Rightarrow> nat \<Rightarrow> nat \<Rightarrow> nat list \<Rightarrow> u8 list \<Rightarrow> u8 list \<Rightarrow> bool" where
  "scan_inv b rd wr argv s post \<longleftrightarrow>
     drop rd b = s @ 0 # post \<and> 0 \<notin> set s \<and> (wr \<le> rd \<or> s = []) \<and>
     (\<forall>off\<in>set argv. 0 \<in> set (drop off (take wr b)))"

lemma scan_inv_start: "0 \<notin> set s \<Longrightarrow> scan_inv (s @ 0 # post) 0 0 [] s post"
  by (simp add: scan_inv_def)

lemma scan_inv_rest: "scan_inv b rd wr argv s post \<Longrightarrow> cstr b rd = s"
  by (auto simp: scan_inv_def intro: cstr_drop)

text \<open>One token: the workhorse of every proof about the scanner's callers.\<close>

lemma next_token_step:
  assumes inv: "scan_inv b rd wr argv s post"
  shows "case next_spec s of
      TS_END \<Rightarrow> \<exists>rd'. next_token b rd wr = Some (NT_END b rd' wr) \<and> scan_inv b rd' wr argv [] post
    | TS_ERR \<Rightarrow> \<exists>b'. next_token b rd wr = Some (NT_ERR b') \<and> length b' = length b \<and> ends b' post
    | TS_TOK t r \<Rightarrow> \<exists>b' rd' wr' tok. next_token b rd wr = Some (NT_TOK b' rd' wr' tok) \<and>
        length b' = length b \<and> scan_inv b' rd' wr' (argv @ [tok]) r post \<and>
        map (cstr b') argv = map (cstr b) argv \<and> cstr b' tok = t"
proof -
  let ?s = "dropWhile is_space s"
  from inv have b: "drop rd b = s @ 0 # post" and s0: "0 \<notin> set s"
    and wr: "wr \<le> rd \<or> s = []" and old: "\<forall>off\<in>set argv. 0 \<in> set (drop off (take wr b))"
    by (auto simp: scan_inv_def)
  obtain rd1 where sk: "skip_spaces b rd = Some rd1" "rd \<le> rd1" "drop rd1 b = ?s @ 0 # post"
    using skip_spaces_spec [OF b] by blast
  have s0': "0 \<notin> set ?s" using s0 by (meson set_dropWhileD)
  show ?thesis
  proof (cases "?s = []")
    case True
    with sk have "b ! rd1 = 0" by (auto dest: drop_ConsD)
    with True sk inv show ?thesis
      by (auto simp: next_spec_def next_token_def scan_inv_def)
  next
    case False
    then have "s \<noteq> []" by auto
    with wr sk have wr1: "wr \<le> rd1" by simp
    from False sk(3) have hd: "b ! rd1 \<noteq> 0"
      using s0' by (cases ?s) (auto dest: drop_ConsD)
    note ref = tok_loop_refines [OF sk(3) s0' wr1, of 0]
    show ?thesis
    proof (cases "tok_spec 0 ?s")
      case None
      with False ref sk(1) hd show ?thesis
        by (auto simp: next_spec_def next_token_def tok_exit_ok_def)
    next
      case (Some tr)
      obtain t r where tr: "tr = (t, r)" by (cases tr)
      with Some ref obtain b1 rd2 where b1: "tok_loop b rd1 wr 0 = Some (TokEnd b1 rd2 (wr + length t))"
        "length b1 = length b" "take (wr + length t) b1 = take wr b @ t"
        "drop rd2 b1 = r @ 0 # post" "wr + length t \<le> rd2" "wr + length t = rd2 \<longrightarrow> r = []"
        by (auto simp: tok_exit_ok_def)
      let ?w = "wr + length t"
      let ?b = "b1[?w := 0]"
      have rd2: "rd2 < length b1" using b1(4) by (cases r) (auto dest: drop_ConsD)
      with b1(5) have w: "?w < length b1" by simp
      have tk: "take (Suc ?w) ?b = take wr b @ t @ [0]"
        using w b1(3) by (simp add: take_Suc_update)
      have dr: "drop rd2 ?b = r @ 0 # post"
      proof (cases "?w = rd2")
        case True
        with b1(4,6) have "b1 ! ?w = 0" by (auto dest: drop_ConsD)
        with b1(4) show ?thesis by (metis list_update_id)
      next
        case False
        with b1(4,5) show ?thesis by simp
      qed
      have t0: "0 \<notin> set t" "0 \<notin> set r"
        using tok_spec_set Some tr s0' by blast+
      have wrl: "wr \<le> length b" using w b1(2) by simp
      have cs: "cstr ?b wr = t"
        using tk t0 wrl by (subst cstr_take [of wr "Suc ?w"]) (auto simp: takeWhile_nul [of t "[]", simplified])
      have keep: "map (cstr ?b) argv = map (cstr b) argv"
      proof (rule map_cong [OF refl])
        fix off assume "off \<in> set argv"
        moreover have "take wr ?b = take wr (take (Suc ?w) ?b)" by (simp add: min_def)
        then have "take wr ?b = take wr b" unfolding tk using wrl by simp
        ultimately show "cstr ?b off = cstr b off"
          using old by (intro cstr_prefix_cong) auto
      qed
      have "0 \<in> set (drop off (take (Suc ?w) ?b))" if "off \<in> set (argv @ [wr])" for off
        using that old wrl unfolding tk by (auto simp: drop_append)
      with dr t0 b1(5,6) have "scan_inv ?b rd2 (Suc ?w) (argv @ [wr]) r post"
        unfolding scan_inv_def by (cases "?w = rd2") auto
      with False Some tr sk(1) hd b1(1,2) w cs keep show ?thesis
        by (auto simp: next_spec_def next_token_def st_def)
    qed
  qed
qed

lemma tokenize_loop_refines:
  assumes "scan_inv b rd wr argv s post" and "length argv \<le> m"
  shows "\<exists>b' res. tokenize_loop b rd wr argv m = Some (b', res) \<and> length b' = length b \<and>
    map_sum id (map (cstr b')) res =
      map_sum id (\<lambda>ts. map (cstr b) argv @ ts) (tokens_spec (m - length argv) s)"
  using assms
proof (induction "m - length argv" arbitrary: b rd wr argv s)
  case 0
  then have z: "m - length argv = 0" "length argv \<ge> m" by auto
  from next_token_step [OF 0(2)] show ?case
    unfolding z
    by (auto simp: tokenize_loop.simps [of b rd wr argv m] tokens_spec.simps [of 0 s] z
        split: tok_view.splits)
next
  case (Suc n)
  then have z: "m - length argv = Suc n" "\<not> length argv \<ge> m" by auto
  show ?case
  proof (cases "next_spec s")
    case (TS_TOK t r)
    with next_token_step [OF Suc(3)] obtain b1 rd1 wr1 tok where
      nt: "next_token b rd wr = Some (NT_TOK b1 rd1 wr1 tok)" "length b1 = length b"
      "scan_inv b1 rd1 wr1 (argv @ [tok]) r post"
      "map (cstr b1) argv = map (cstr b) argv" "cstr b1 tok = t"
      by auto
    have n: "n = m - length (argv @ [tok])" "length (argv @ [tok]) \<le> m" using z by auto
    obtain b' res where IH: "tokenize_loop b1 rd1 wr1 (argv @ [tok]) m = Some (b', res)"
      "length b' = length b1" "map_sum id (map (cstr b')) res =
        map_sum id (\<lambda>ts. map (cstr b1) (argv @ [tok]) @ ts) (tokens_spec n r)"
      using Suc(1) [OF n(1) nt(3) n(2)] unfolding n(1) [symmetric] by blast
    moreover have "tokenize_loop b rd wr argv m = tokenize_loop b1 rd1 wr1 (argv @ [tok]) m"
      using nt(1) z by (simp add: tokenize_loop.simps [of b rd wr argv m])
    moreover have "tokens_spec (m - length argv) s = map_sum id (Cons t) (tokens_spec n r)"
      unfolding z by (simp add: tokens_spec.simps [of "Suc n" s] TS_TOK split: sum.split)
    ultimately show ?thesis
      using nt by (cases "tokens_spec n r") auto
  qed (use next_token_step [OF Suc(3)] z in
      \<open>auto simp: tokenize_loop.simps [of b rd wr argv m] tokens_spec.simps [of "Suc n" s]\<close>)
qed

text \<open>C31. \<open>cli_tokenize\<close> on a NUL-terminated line never reads or writes outside the buffer, and
  the argument strings it leaves behind its pointers are the tokens of the line (quotes and
  escapes removed), or its status is that of the specification: an unterminated quote, or more
  tokens than fit.\<close>

theorem cli_tokenize_refines:
  assumes "0 \<notin> set s"
  shows "\<exists>b' res. cli_tokenize (s @ 0 # post) m = Some (b', res) \<and>
    map_sum id (map (cstr b')) res = tokens_spec m s"
  using tokenize_loop_refines [OF scan_inv_start [OF assms], of m post]
  by (cases "tokens_spec m s") (auto simp: cli_tokenize_def)

lemma cli_tokenize_refines_witness:
  "\<exists>b' res. cli_tokenize ([97, 32, DQ, 98, 32, DQ, 99] @ [0]) 4 = Some (b', res) \<and>
    map_sum id (map (cstr b')) res = Inr [[97], [98, 32, 99]]"
proof -
  have "tokens_spec 4 [97, 32, DQ, 98, 32, DQ, 99] = Inr [[97], [98, 32, 99]]" by code_simp
  with cli_tokenize_refines [of "[97, 32, DQ, 98, 32, DQ, 99]" "[]" 4] show ?thesis by simp
qed

end
