(* ===== verification/CliSegments.thy ===== *)
theory CliSegments
  imports CliTokens
begin

text \<open>
  \<open>cli_next_segment\<close> and \<open>cli_segment_is_background\<close> of \<open>shell/core/cli_parse.c\<close>: the
  splitting of a line at top-level \<open>;\<close> and the detection of a trailing \<open>&\<close>. Both carry
  a copy of the tokenizer's quote and escape machine; the lemmas of the last section show that
  the copies agree with it.
\<close>

section \<open>Splitting at top-level semicolons\<close>

text \<open>
  The scan from \<open>p\<close>: \<open>Some (Some q)\<close> is a separator at \<open>q\<close>, \<open>Some None\<close> the end
  of the line, \<open>None\<close> a read outside the buffer.
\<close>

function seg_loop :: "u8 list \<Rightarrow> nat \<Rightarrow> u8 \<Rightarrow> nat option option" where
  "seg_loop b p quote =
     (if p < length b then
        let c = b ! p in
        if c = 0 then Some None
        else if quote = 0 then
          if c = SEMI then Some (Some p)
          else if c = DQ \<or> c = SQ then seg_loop b (p + 1) c
          else if c = BSL then
            (case ld b (p + 1) of
               None \<Rightarrow> None
             | Some c' \<Rightarrow> if c' = 0 then Some None else seg_loop b (p + 2) quote)
          else seg_loop b (p + 1) quote
        else if quote = DQ then
          if c = DQ then seg_loop b (p + 1) 0
          else if c = BSL then
            (case ld b (p + 1) of
               None \<Rightarrow> None
             | Some c' \<Rightarrow> if c' = 0 then Some None else seg_loop b (p + 2) quote)
          else seg_loop b (p + 1) quote
        else if c = SQ then seg_loop b (p + 1) 0
        else seg_loop b (p + 1) quote
      else None)"
  by pat_completeness auto
termination
  by (relation "measure (\<lambda>(b, p, q). length b - p)") auto

declare seg_loop.simps [simp del]

text \<open>
  \<open>cli_next_segment\<close>: the start of the segment, the buffer with the separator
  overwritten, and the new cursor; the inner \<open>None\<close> is the NULL returned once the cursor is
  exhausted.
\<close>

definition cli_next_segment ::
  "u8 list \<Rightarrow> nat option \<Rightarrow> (nat \<times> u8 list \<times> nat option) option option" where
  "cli_next_segment b cursor =
     (case cursor of
        None \<Rightarrow> Some None
      | Some p \<Rightarrow>
          (case seg_loop b p 0 of
             None \<Rightarrow> None
           | Some None \<Rightarrow> Some (Some (p, b, None))
           | Some (Some q) \<Rightarrow> map_option (\<lambda>b'. Some (p, b', Some (q + 1))) (st b q 0)))"

subsection \<open>Specification\<close>

text \<open>The first segment of a string, and the text behind its separator if there is one.\<close>

fun split_spec :: "u8 \<Rightarrow> u8 list \<Rightarrow> u8 list \<times> u8 list option" where
  "split_spec q [] = ([], None)"
| "split_spec q [c] =
     (if q = 0 \<and> c = SEMI then ([], Some []) else ([c], None))"
| "split_spec q (c # d # s) =
     (if q = 0 then
        if c = SEMI then ([], Some (d # s))
        else if c = DQ \<or> c = SQ then apfst (Cons c) (split_spec c (d # s))
        else if c = BSL then apfst (\<lambda>x. c # d # x) (split_spec 0 s)
        else apfst (Cons c) (split_spec 0 (d # s))
      else if q = DQ then
        if c = DQ then apfst (Cons c) (split_spec 0 (d # s))
        else if c = BSL then apfst (\<lambda>x. c # d # x) (split_spec q s)
        else apfst (Cons c) (split_spec q (d # s))
      else if c = SQ then apfst (Cons c) (split_spec 0 (d # s))
      else apfst (Cons c) (split_spec q (d # s)))"

lemma apfst_eq_iff: "apfst f x = (a, r) \<longleftrightarrow> (\<exists>y. x = (y, r) \<and> a = f y)"
  by (cases x) auto

definition unsplit :: "u8 list \<times> u8 list option \<Rightarrow> u8 list" where
  "unsplit x = fst x @ (case snd x of None \<Rightarrow> [] | Some r \<Rightarrow> SEMI # r)"

lemma unsplit_apfst: "unsplit (apfst (Cons c) x) = c # unsplit x"
  "unsplit (apfst (\<lambda>x. c # d # x) x) = c # d # unsplit x"
  "unsplit (xs, Some r) = xs @ SEMI # r" "unsplit (xs, None) = xs"
  by (simp_all add: unsplit_def)

lemma split_spec_join: "unsplit (split_spec q s) = s"
  by (induction q s rule: split_spec.induct)
    (auto simp: unsplit_apfst)

lemma seg_loop_refines:
  assumes "drop p b = s @ 0 # post" and "0 \<notin> set s"
  shows "seg_loop b p q =
    Some (case split_spec q s of (seg, None) \<Rightarrow> None | (seg, Some r) \<Rightarrow> Some (p + length seg))"
  using assms
proof (induction q s arbitrary: p rule: split_spec.induct)
  case (1 q)
  then show ?case by (auto dest!: drop_ConsD simp: seg_loop.simps [of b p])
next
  case (2 q c)
  then have c: "p < length b" "b ! p = c" "drop (Suc p) b = [0] @ post" "c \<noteq> 0"
    by (auto dest: drop_ConsD)
  then have e: "Suc p < length b" "b ! Suc p = 0"
    by (auto dest: drop_ConsD)
  have "seg_loop b (Suc p) q' = Some None" for q'
    using e by (simp add: seg_loop.simps [of b "Suc p"])
  with c e show ?case
    by (simp add: seg_loop.simps [of b p] ld_def)
next
  case (3 q c d s)
  then have c: "p < length b" "b ! p = c" "drop (Suc p) b = d # s @ 0 # post" "c \<noteq> 0" "d \<noteq> 0"
    by (auto dest: drop_ConsD)
  then have d: "Suc p < length b" "b ! Suc p = d" "drop (Suc (Suc p)) b = s @ 0 # post"
    by (auto dest: drop_ConsD)
  have sh: "(case apfst f x of (seg, None) \<Rightarrow> None | (seg, Some r) \<Rightarrow> Some (p + length seg)) =
    (case x of (seg, None) \<Rightarrow> None | (seg, Some r) \<Rightarrow> Some (p + length (f seg)))"
    for f :: "u8 list \<Rightarrow> u8 list" and x :: "u8 list \<times> u8 list option"
    by (cases x) (auto split: option.splits)
  show ?case
    using 3 c d by (auto simp: seg_loop.simps [of b p] sh ld_def split: option.splits prod.splits)
qed

lemma cli_next_segment_refines:
  assumes "drop p b = s @ 0 # post" and "0 \<notin> set s"
  shows "case split_spec 0 s of
      (seg, None) \<Rightarrow> cli_next_segment b (Some p) = Some (Some (p, b, None)) \<and> cstr b p = seg
    | (seg, Some r) \<Rightarrow> \<exists>b'. cli_next_segment b (Some p) =
          Some (Some (p, b', Some (Suc (p + length seg)))) \<and>
        cstr b' p = seg \<and> drop (Suc (p + length seg)) b' = r @ 0 # post \<and>
        take p b' = take p b"
proof -
  obtain seg ro where sp: "split_spec 0 s = (seg, ro)" by (cases "split_spec 0 s")
  with split_spec_join [of 0 s] have s: "s = seg @ (case ro of None \<Rightarrow> [] | Some r \<Rightarrow> SEMI # r)"
    by (simp add: unsplit_def)
  note loop = seg_loop_refines [OF assms, of 0, unfolded sp]
  show ?thesis
  proof (cases ro)
    case None
    with s sp loop assms show ?thesis
      by (auto simp: cli_next_segment_def intro: cstr_drop)
  next
    case (Some r)
    let ?q = "p + length seg"
    have b: "drop p b = seg @ SEMI # r @ 0 # post" using assms s Some by simp
    then have bq: "drop ?q b = SEMI # r @ 0 # post"
      by (metis add.commute append_eq_conv_conj drop_drop)
    then have q: "?q < length b" "drop (Suc ?q) b = r @ 0 # post" by (auto dest: drop_ConsD)
    have "drop p (b[?q := 0]) = seg @ 0 # r @ 0 # post"
      using b q(1) by (simp add: drop_update_swap list_update_append)
    moreover have "0 \<notin> set seg" using s assms(2) by auto
    ultimately have "cstr (b[?q := 0]) p = seg" by (intro cstr_drop)
    with sp Some loop q show ?thesis
      by (simp add: cli_next_segment_def st_def)
  qed
qed

text \<open>All the segments of a line, and the loop that the dispatcher runs over the cursor.\<close>

function segments :: "u8 list \<Rightarrow> u8 list list" where
  "segments s =
     (case split_spec 0 s of
        (seg, None) \<Rightarrow> [seg]
      | (seg, Some r) \<Rightarrow> seg # segments r)"
  by pat_completeness auto

lemma split_spec_shorter: "split_spec q s = (seg, Some r) \<Longrightarrow> length r < length s"
  using split_spec_join [of q s] by (auto simp: unsplit_def)

termination segments
  by (relation "measure length") (simp_all, metis split_spec_shorter)

declare segments.simps [simp del]

fun split_line :: "nat \<Rightarrow> u8 list \<Rightarrow> nat option \<Rightarrow> u8 list list option" where
  "split_line 0 b cursor = None"
| "split_line (Suc n) b cursor =
     (case cli_next_segment b cursor of
        None \<Rightarrow> None
      | Some None \<Rightarrow> Some []
      | Some (Some (p, b', cursor')) \<Rightarrow> map_option (Cons (cstr b' p)) (split_line n b' cursor'))"

lemma split_line_refines:
  assumes "drop p b = s @ 0 # post" and "0 \<notin> set s" and "length s + 2 \<le> n"
  shows "split_line n b (Some p) = Some (segments s)"
  using assms
proof (induction s arbitrary: p b n rule: segments.induct)
  case (1 s)
  from "1.prems" obtain m where n: "n = Suc (Suc m)" by (metis add_2_eq_Suc' less_eqE add_Suc_shift add_Suc_right add.commute add_Suc)
  note step = cli_next_segment_refines [OF "1.prems"(1,2)]
  obtain seg ro where sp: "split_spec 0 s = (seg, ro)" by (cases "split_spec 0 s")
  show ?case
  proof (cases ro)
    case None
    with step sp show ?thesis
      by (simp add: n segments.simps [of s] cli_next_segment_def [of b None]
          cli_next_segment_def [of _ None])
  next
    case (Some r)
    with step sp obtain b' where b': "cli_next_segment b (Some p) =
        Some (Some (p, b', Some (Suc (p + length seg))))" "cstr b' p = seg"
        "drop (Suc (p + length seg)) b' = r @ 0 # post" by auto
    have "0 \<notin> set r" "length r + 2 \<le> Suc m"
      using split_spec_join [of 0 s] sp Some "1.prems"(2,3) n by (auto simp: unsplit_def)
    then have "split_line (Suc m) b' (Some (Suc (p + length seg))) = Some (segments r)"
      using "1.IH" [OF sp [symmetric] Some] b'(3) sp Some by blast
    with b' sp Some show ?thesis by (simp add: n segments.simps [of s])
  qed
qed

lemma segments_join: "concat (map (\<lambda>seg. SEMI # seg) (segments s)) = SEMI # s"
proof (induction s rule: segments.induct)
  case (1 s)
  obtain seg ro where sp: "split_spec 0 s = (seg, ro)" by (cases "split_spec 0 s")
  with split_spec_join [of 0 s] "1.IH" [OF sp [symmetric]] show ?case
    by (cases ro) (auto simp: segments.simps [of s] unsplit_def)
qed

section \<open>Lockstep with the tokenizer\<close>

text \<open>The quote machine alone: after this text, is it outside quotes with no escape pending?\<close>

fun top_level :: "u8 \<Rightarrow> u8 list \<Rightarrow> bool" where
  "top_level q [] \<longleftrightarrow> q = 0"
| "top_level q [c] \<longleftrightarrow>
     (if q = 0 then c \<noteq> DQ \<and> c \<noteq> SQ \<and> c \<noteq> BSL else q = DQ \<and> c = DQ \<or> q \<noteq> DQ \<and> c = SQ)"
| "top_level q (c # d # s) \<longleftrightarrow>
     (if q = 0 then
        if c = DQ \<or> c = SQ then top_level c (d # s)
        else if c = BSL then top_level 0 s
        else top_level 0 (d # s)
      else if q = DQ then
        if c = DQ then top_level 0 (d # s)
        else if c = BSL then top_level q s
        else top_level q (d # s)
      else if c = SQ then top_level 0 (d # s)
      else top_level q (d # s))"

lemma top_level_Cons:
  "c \<noteq> BSL \<Longrightarrow> top_level 0 (c # y) \<longleftrightarrow>
     (if c = DQ \<or> c = SQ then top_level c y else top_level 0 y)"
  "c \<noteq> BSL \<Longrightarrow> top_level DQ (c # y) \<longleftrightarrow>
     (if c = DQ then top_level 0 y else top_level DQ y)"
  "q \<noteq> 0 \<Longrightarrow> q \<noteq> DQ \<Longrightarrow> top_level q (c # y) \<longleftrightarrow>
     (if c = SQ then top_level 0 y else top_level q y)"
  by (cases y; simp)+

lemma split_spec_closed: "split_spec q s = (seg, Some r) \<Longrightarrow> top_level q seg"
proof (induction q s arbitrary: seg r rule: split_spec.induct)
  case (3 q c d s)
  then show ?case
    by (auto split: if_splits simp: apfst_eq_iff top_level_Cons)
qed (auto split: if_splits)

lemma tok_spec_closed:
  "top_level q s \<Longrightarrow> \<exists>t r. tok_spec q s = Some (t, r) \<and> top_level 0 r"
proof (induction q s rule: tok_spec.induct)
  case (3 q c d s)
  then show ?case
    by (auto split: if_splits)
qed (auto split: if_splits)

lemma top_level_dropWhile: "top_level 0 s \<Longrightarrow> top_level 0 (dropWhile is_space s)"
proof (induction s)
  case (Cons c s)
  then show ?case
    by (cases "is_space c") (auto simp: top_level_Cons(1) is_space_def)
qed simp

lemma next_spec_closed:
  assumes "top_level 0 s"
  shows "next_spec s = TS_END \<or> (\<exists>t r. next_spec s = TS_TOK t r \<and> top_level 0 r)"
  using tok_spec_closed [OF top_level_dropWhile [OF assms]]
  by (auto simp: next_spec_def Let_def)

lemma tokens_spec_closed: "top_level 0 s \<Longrightarrow> tokens_spec n s \<noteq> Inl CLI_PARSE_UNTERMINATED_QUOTE"
proof (induction n arbitrary: s)
  case 0
  with next_spec_closed [of s] show ?case by (auto simp: tokens_spec.simps [of 0 s])
next
  case (Suc n)
  with next_spec_closed [of s] show ?case
    by (fastforce simp: tokens_spec.simps [of "Suc n" s] split: sum.splits)
qed

lemma segments_closed:
  "i + 1 < length (segments s) \<Longrightarrow> top_level 0 (segments s ! i)"
proof (induction s arbitrary: i rule: segments.induct)
  case (1 s)
  obtain seg ro where sp: "split_spec 0 s = (seg, ro)" by (cases "split_spec 0 s")
  with "1.prems" "1.IH" [OF sp [symmetric]] split_spec_closed [of 0 s seg] show ?case
    by (cases ro; cases i) (auto simp: segments.simps [of s])
qed

section \<open>The background ampersand\<close>

text \<open>
  The scan of \<open>cli_segment_is_background\<close> over the segment at \<open>off\<close>: the index of the
  candidate \<open>&\<close> (or none), whether it followed another, and the previous-significant flag.
\<close>

function bg_loop ::
  "u8 list \<Rightarrow> nat \<Rightarrow> u8 \<Rightarrow> nat option \<Rightarrow> bool \<Rightarrow> bool \<Rightarrow> (nat option \<times> bool) option" where
  "bg_loop b i quote amp amp_after_amp prev_sig_amp =
     (if i < length b then
        let c = b ! i in
        if c = 0 then Some (amp, amp_after_amp)
        else if quote = 0 then
          if c = 32 \<or> c = 9 then bg_loop b (i + 1) quote amp amp_after_amp prev_sig_amp
          else if c = BSL then
            (case ld b (i + 1) of
               None \<Rightarrow> None
             | Some c' \<Rightarrow>
                 if c' = 0 then Some (amp, amp_after_amp)
                 else bg_loop b (i + 2) quote None amp_after_amp False)
          else if c = DQ \<or> c = SQ then bg_loop b (i + 1) c None amp_after_amp False
          else if c = AMP then bg_loop b (i + 1) quote (Some i) prev_sig_amp True
          else bg_loop b (i + 1) quote None amp_after_amp False
        else if quote = DQ then
          if c = BSL then
            (case ld b (i + 1) of
               None \<Rightarrow> None
             | Some c' \<Rightarrow>
                 bg_loop b (if c' \<noteq> 0 then i + 2 else i + 1) quote None amp_after_amp False)
          else if c = DQ then bg_loop b (i + 1) 0 None amp_after_amp False
          else bg_loop b (i + 1) quote None amp_after_amp False
        else if c = SQ then bg_loop b (i + 1) 0 None amp_after_amp False
        else bg_loop b (i + 1) quote None amp_after_amp False
      else None)"
  by pat_completeness auto
termination
  by (relation "measure (\<lambda>(b, i, q, a, aa, p). length b - i)") auto

declare bg_loop.simps [simp del]

text \<open>The whitespace before the \<open>&\<close> is overwritten, downwards, to the start of the segment.\<close>

fun bg_strip :: "u8 list \<Rightarrow> nat \<Rightarrow> nat \<Rightarrow> u8 list" where
  "bg_strip b off 0 = b"
| "bg_strip b off (Suc k) =
     (if b ! (off + k) = 32 \<or> b ! (off + k) = 9 then bg_strip (b[off + k := 0]) off k else b)"

definition cli_segment_is_background :: "u8 list \<Rightarrow> nat \<Rightarrow> (u8 list \<times> bool) option" where
  "cli_segment_is_background b off =
     (case bg_loop b off 0 None False False of
        None \<Rightarrow> None
      | Some (amp, amp_after_amp) \<Rightarrow>
          (case amp of
             None \<Rightarrow> Some (b, False)
           | Some a \<Rightarrow>
               if amp_after_amp then Some (b, False)
               else Some (bg_strip (b[a := 0]) off (a - off), True)))"

subsection \<open>What the detector decides\<close>

text \<open>
  What may follow the operator: whitespace, and (a quirk of the scan) a last lone backslash,
  at which the loop stops without withdrawing the candidate.
\<close>

definition bg_tail :: "u8 list \<Rightarrow> bool" where
  "bg_tail r \<longleftrightarrow> (\<forall>c\<in>set r. is_space c) \<or> (\<exists>w. r = w @ [BSL] \<and> (\<forall>c\<in>set w. is_space c))"

lemma bg_tail_simps [simp]: "bg_tail []" "bg_tail [BSL]"
  "is_space c \<Longrightarrow> bg_tail (c # r) = bg_tail r"
  by (auto simp: bg_tail_def Cons_eq_append_conv)

definition bg_cand ::
  "nat \<Rightarrow> u8 \<Rightarrow> u8 list \<Rightarrow> nat option \<Rightarrow> nat option \<Rightarrow> bool" where
  "bg_cand i q s amp ra \<longleftrightarrow>
     (\<forall>a. ra = Some a \<longrightarrow> (amp = Some a \<and> q = 0 \<and> bg_tail s) \<or>
       (\<exists>pre rest. s = pre @ AMP # rest \<and> a = i + length pre \<and> top_level q pre \<and> bg_tail rest))"

lemma bg_cand_skip:
  assumes "bg_cand (i + length cs) q' s None ra"
    and "\<And>pre. top_level q' pre \<Longrightarrow> top_level q (cs @ pre)"
  shows "bg_cand i q (cs @ s) amp ra"
  unfolding bg_cand_def
proof (intro allI impI disjI2)
  fix a assume "ra = Some a"
  with assms(1) obtain pre rest where "s = pre @ AMP # rest" "a = i + length cs + length pre"
    "top_level q' pre" "bg_tail rest"
    by (auto simp: bg_cand_def)
  with assms(2) [of pre] show "\<exists>pre rest. cs @ s = pre @ AMP # rest \<and> a = i + length pre \<and>
      top_level q pre \<and> bg_tail rest"
    by (intro exI [of _ "cs @ pre"] exI [of _ rest]) auto
qed

lemma bg_cand_amp:
  assumes "bg_cand (Suc i) 0 s (Some i) ra"
  shows "bg_cand i 0 (AMP # s) amp ra"
  unfolding bg_cand_def
proof (intro allI impI disjI2)
  fix a assume "ra = Some a"
  with assms consider "a = i" "bg_tail s"
    | pre rest where "s = pre @ AMP # rest" "a = Suc i + length pre" "top_level 0 pre" "bg_tail rest"
    unfolding bg_cand_def by blast
  then show "\<exists>pre rest. AMP # s = pre @ AMP # rest \<and> a = i + length pre \<and>
      top_level 0 pre \<and> bg_tail rest"
  proof cases
    case 1
    then show ?thesis by (intro exI [of _ "[]"] exI [of _ s]) auto
  next
    case 2
    then show ?thesis
      by (intro exI [of _ "AMP # pre"] exI [of _ rest]) (auto simp: top_level_Cons)
  qed
qed

lemma bg_cand_space:
  assumes "bg_cand (Suc i) 0 s amp ra" and "is_space c"
  shows "bg_cand i 0 (c # s) amp ra"
  unfolding bg_cand_def
proof (intro allI impI)
  fix a assume a: "ra = Some a"
  show "amp = Some a \<and> 0 = (0::u8) \<and> bg_tail (c # s) \<or>
    (\<exists>pre rest. c # s = pre @ AMP # rest \<and> a = i + length pre \<and> top_level 0 pre \<and> bg_tail rest)"
  proof (cases "amp = Some a \<and> bg_tail s")
    case False
    with assms(1) a have "bg_cand (i + length [c]) 0 s None ra" by (auto simp: bg_cand_def)
    then have "bg_cand i 0 ([c] @ s) None ra"
      by (rule bg_cand_skip) (use assms(2) in \<open>auto simp: is_space_def top_level_Cons\<close>)
    with a show ?thesis by (auto simp: bg_cand_def)
  qed (use assms(2) in auto)
qed

lemma bg_loop_spec:
  assumes "drop i b = s @ 0 # post" and "0 \<notin> set s" and "q \<noteq> 0 \<longrightarrow> amp = None"
  shows "\<exists>ra raa. bg_loop b i q amp aaa psa = Some (ra, raa) \<and> bg_cand i q s amp ra"
  using assms
proof (induction q s arbitrary: i amp aaa psa rule: top_level.induct)
  case (1 q)
  then have "i < length b" "b ! i = 0" by (auto dest: drop_ConsD)
  with "1.prems" show ?case
    by (auto simp: bg_loop.simps [of b i] bg_cand_def)
next
  case (2 q c)
  then have c: "i < length b" "b ! i = c" "drop (Suc i) b = [0] @ post" "c \<noteq> 0"
    by (auto dest: drop_ConsD)
  then have e: "Suc i < length b" "b ! Suc i = 0"
    by (auto dest: drop_ConsD)
  have last: "bg_loop b (Suc i) q' am aa ps = Some (am, aa)" for q' am aa ps
    using e by (simp add: bg_loop.simps [of b "Suc i"])
  have "bg_cand i q [c] (Some i) (Some i)" if "c = AMP" "q = 0"
    using that by (auto simp: bg_cand_def intro: exI [of _ "[]"])
  moreover have "bg_cand i q [c] amp amp" if "c = BSL \<or> is_space c" "q = 0"
    using that by (auto simp: bg_cand_def)
  ultimately show ?case
    using 2 c e by (auto simp: bg_loop.simps [of b i] last ld_def is_space_def bg_cand_def)
next
  case (3 q c d s)
  then have c: "i < length b" "b ! i = c" "drop (Suc i) b = d # s @ 0 # post" "c \<noteq> 0" "d \<noteq> 0"
    by (auto dest: drop_ConsD)
  then have d: "Suc i < length b" "b ! Suc i = d" "drop (Suc (Suc i)) b = s @ 0 # post"
    by (auto dest: drop_ConsD)
  have one: "bg_cand i q (c # d # s) amp ra"
    if "bg_cand (Suc i) q' (d # s) None ra" "\<And>pre. top_level q' pre \<Longrightarrow> top_level q (c # pre)"
    for q' ra using bg_cand_skip [of i "[c]" q' "d # s" ra q amp] that by simp
  have two: "bg_cand i q (c # d # s) amp ra"
    if "bg_cand (Suc (Suc i)) q s None ra" "c = BSL" "q = 0 \<or> q = DQ" for ra
    using bg_cand_skip [of i "[c, d]" q s ra q amp] that by auto
  have lift: ?case
    if "\<exists>ra raa. bg_loop b j q' am aa ps = Some (ra, raa) \<and> P ra"
      "bg_loop b i q amp aaa psa = bg_loop b j q' am aa ps"
      "\<And>ra. P ra \<Longrightarrow> bg_cand i q (c # d # s) amp ra" for j q' am aa ps P
    using that by auto
  note unfold = bg_loop.simps [of b i] c d ld_def Let_def
  consider (space) "q = 0" "is_space c" | (opn) "q = 0" "c = DQ \<or> c = SQ"
    | (esc) "q = 0 \<or> q = DQ" "c = BSL" | (amp) "q = 0" "c = AMP"
    | (closeD) "q = DQ" "c = DQ" | (closeS) "q \<noteq> 0" "q \<noteq> DQ" "c = SQ"
    | (plain) "(q = 0 \<and> \<not> is_space c \<and> c \<noteq> DQ \<and> c \<noteq> SQ \<and> c \<noteq> BSL \<and> c \<noteq> AMP) \<or>
        (q = DQ \<and> c \<noteq> DQ \<and> c \<noteq> BSL) \<or> (q \<noteq> 0 \<and> q \<noteq> DQ \<and> c \<noteq> SQ)"
    by blast
  then show ?case
  proof cases
    case space
    have "\<exists>ra raa. bg_loop b (Suc i) 0 amp aaa psa = Some (ra, raa) \<and>
        bg_cand (Suc i) 0 (d # s) amp ra"
      by (rule "3.IH"(3)) (use 3 c space in \<open>auto simp: is_space_def\<close>)
    then obtain ra raa where
      "bg_loop b (Suc i) 0 amp aaa psa = Some (ra, raa)" "bg_cand (Suc i) 0 (d # s) amp ra"
      by blast
    moreover have "bg_loop b i q amp aaa psa = bg_loop b (Suc i) 0 amp aaa psa"
      using space c by (auto simp: unfold is_space_def)
    moreover have "bg_cand i q (c # d # s) amp ra"
      using bg_cand_space [OF calculation(2) space(2)] space(1) by simp
    ultimately show ?thesis by auto
  next
    case opn
    have next': "bg_cand (Suc i) c (d # s) None ra \<Longrightarrow> bg_cand i q (c # d # s) amp ra" for ra
      by (rule one [of c]) (use opn in \<open>auto simp: top_level_Cons\<close>)
    show ?thesis
      by (rule lift [OF "3.IH"(1) [of "Suc i" None aaa False] _ next'])
        (use 3 c opn in \<open>auto simp: unfold\<close>)
  next
    case esc
    have next': "bg_cand (Suc (Suc i)) q s None ra \<Longrightarrow> bg_cand i q (c # d # s) amp ra" for ra
      by (rule two) (use esc in auto)
    show ?thesis
    proof (cases "q = 0")
      case True
      show ?thesis
        by (rule lift [OF "3.IH"(2) [of "Suc (Suc i)" None aaa False]])
          (use 3 c d esc True next' in \<open>auto simp: unfold\<close>)
    next
      case False
      show ?thesis
        by (rule lift [OF "3.IH"(5) [of "Suc (Suc i)" None aaa False]])
          (use 3 c d esc False next' in \<open>auto simp: unfold\<close>)
    qed
  next
    case amp
    show ?thesis
      by (rule lift [OF "3.IH"(3) [of "Suc i" "Some i" psa True]])
        (use 3 c amp in \<open>auto simp: unfold intro: bg_cand_amp\<close>)
  next
    case closeD
    have next': "bg_cand (Suc i) 0 (d # s) None ra \<Longrightarrow> bg_cand i q (c # d # s) amp ra" for ra
      by (rule one [of "0"]) (use closeD in \<open>auto simp: is_space_def top_level_Cons\<close>)
    show ?thesis
      by (rule lift [OF "3.IH"(4) [of "Suc i" None aaa False] _ next'])
        (use 3 c closeD in \<open>auto simp: unfold\<close>)
  next
    case closeS
    have next': "bg_cand (Suc i) 0 (d # s) None ra \<Longrightarrow> bg_cand i q (c # d # s) amp ra" for ra
      by (rule one [of "0"]) (use closeS in \<open>auto simp: is_space_def top_level_Cons\<close>)
    show ?thesis
      by (rule lift [OF "3.IH"(7) [of "Suc i" None aaa False] _ next'])
        (use 3 c closeS in \<open>auto simp: unfold\<close>)
  next
    case plain
    note prems = "3.prems" and local_ih3 = "3.IH"(3) and local_ih6 = "3.IH"(6) and local_ih8 = "3.IH"(8)
    from plain consider "q = 0" "\<not> is_space c" "c \<noteq> DQ" "c \<noteq> SQ" "c \<noteq> BSL" "c \<noteq> AMP"
      | "q = DQ" "c \<noteq> DQ" "c \<noteq> BSL" | "q \<noteq> 0" "q \<noteq> DQ" "c \<noteq> SQ" by blast
    then show ?thesis
    proof cases
      case 1
      have next': "bg_cand (Suc i) 0 (d # s) None ra \<Longrightarrow> bg_cand i q (c # d # s) amp ra" for ra
        by (rule one [of "0"]) (use 1 in \<open>auto simp: is_space_def top_level_Cons\<close>)
      show ?thesis
        by (rule lift [OF local_ih3 [of "Suc i" None aaa False] _ next'])
          (use prems c 1 in \<open>auto simp: unfold is_space_def\<close>)
    next
      case 2
      have next': "bg_cand (Suc i) DQ (d # s) None ra \<Longrightarrow> bg_cand i q (c # d # s) amp ra" for ra
        by (rule one [of "DQ"]) (use 2 in \<open>auto simp: is_space_def top_level_Cons\<close>)
      show ?thesis
        by (rule lift [OF local_ih6 [of "Suc i" None aaa False] _ next'])
          (use prems c 2 in \<open>auto simp: unfold is_space_def\<close>)
    next
      case 3
      have next': "bg_cand (Suc i) q (d # s) None ra \<Longrightarrow> bg_cand i q (c # d # s) amp ra" for ra
        by (rule one [of "q"]) (use 3 in \<open>auto simp: is_space_def top_level_Cons\<close>)
      show ?thesis
        by (rule lift [OF local_ih8 [of "Suc i" None aaa False] _ next'])
          (use prems c 3 in \<open>auto simp: unfold is_space_def\<close>)
    qed
  qed
qed

lemma bg_strip_spec:
  assumes "drop off b = body @ ws @ 0 # post" and "\<forall>c\<in>set ws. is_space c"
    and "body \<noteq> [] \<longrightarrow> \<not> is_space (last body)"
  shows "drop off (bg_strip b off (length body + length ws)) = body @ replicate (length ws + 1) 0 @ post"
  using assms
proof (induction ws arbitrary: b post rule: rev_induct)
  case Nil
  then have "bg_strip b off (length body) = b"
  proof (cases body rule: rev_cases)
    case (snoc xs x)
    have "off \<le> length b" using Nil.prems(1) by (cases "off \<le> length b") auto
    then have "b ! (off + length xs) = drop off b ! length xs" by simp
    with snoc Nil.prems show ?thesis by (auto simp: nth_append is_space_def)
  qed simp
  with Nil.prems show ?case by simp
next
  case (snoc c ws)
  let ?k = "length body + length ws"
  have off: "off \<le> length b" using snoc.prems(1) by (cases "off \<le> length b") auto
  have "b ! (off + ?k) = drop off b ! ?k" using off by simp
  also have "\<dots> = c" using snoc.prems(1) by (simp add: nth_append)
  finally have c: "b ! (off + ?k) = c" .
  have "drop off (b[off + ?k := 0]) = (drop off b)[?k := 0]"
    by (simp add: drop_update_swap)
  also have "\<dots> = body @ ws @ 0 # 0 # post"
    using snoc.prems(1) by (simp add: list_update_append)
  finally have "drop off (b[off + ?k := 0]) = body @ ws @ 0 # (0 # post)" by simp
  from snoc.IH [OF this] snoc.prems c show ?case by (auto simp: is_space_def replicate_app_Cons_same)
qed

text \<open>A text splits into a body and the whitespace at its end.\<close>

lemma split_trailing_space:
  "\<exists>body ws. s = body @ ws \<and> (\<forall>c\<in>set ws. is_space c) \<and> (body \<noteq> [] \<longrightarrow> \<not> is_space (last body))"
proof (induction s rule: rev_induct)
  case (snoc c s)
  then obtain body ws where s: "s = body @ ws" "\<forall>c\<in>set ws. is_space c"
    "body \<noteq> [] \<longrightarrow> \<not> is_space (last body)" by blast
  show ?case
  proof (cases "is_space c")
    case True
    with s show ?thesis by (intro exI [of _ body] exI [of _ "ws @ [c]"]) auto
  next
    case False
    then show ?thesis by (intro exI [of _ "s @ [c]"] exI [of _ "[]"]) auto
  qed
qed simp

section \<open>Completeness\<close>

text \<open>No segment has a separator at the top level: the split is the finest one.\<close>

lemma split_spec_finest:
  "split_spec q s = (a @ SEMI # b, r) \<Longrightarrow> \<not> top_level q a"
proof (induction q s arbitrary: a b r rule: split_spec.induct)
  case (2 q c)
  then show ?case by (cases a) (auto split: if_splits)
next
  case (3 q c d s)
  show ?case
  proof (cases a)
    case Nil
    with 3 show ?thesis by (auto split: if_splits simp: apfst_eq_iff)
  next
    case (Cons x a')
    show ?thesis
    proof (cases "(q = 0 \<or> q = DQ) \<and> c = BSL")
      case True
      with "3.prems" Cons obtain y where y: "split_spec q s = (y, r)" "a' @ SEMI # b = d # y" "x = c"
        by (auto split: if_splits simp: apfst_eq_iff)
      show ?thesis
      proof (cases a')
        case Nil
        with True Cons y show ?thesis by auto
      next
        case (Cons z a2)
        with y(2) have "split_spec q s = (a2 @ SEMI # b, r)" using y(1) by simp
        with True "3.IH"(2,5) \<open>a = x # a'\<close> Cons y(3) show ?thesis by auto
      qed
    next
      case False
      with "3.prems" Cons "3.IH" show ?thesis
        by (auto split: if_splits simp: apfst_eq_iff top_level_Cons)
    qed
  qed
qed simp

lemma segments_finest: "seg \<in> set (segments s) \<Longrightarrow> seg = a @ SEMI # b \<Longrightarrow> \<not> top_level 0 a"
proof (induction s rule: segments.induct)
  case (1 s)
  obtain g ro where sp: "split_spec 0 s = (g, ro)" by (cases "split_spec 0 s")
  with 1 split_spec_finest [of 0 s a b] show ?case
    by (cases ro) (auto simp: segments.simps [of s])
qed

text \<open>C32. Running \<open>cli_next_segment\<close> over a line visits its segments in order without leaving
  the buffer: joined with semicolons they are the line, every separator lies outside quotes and
  escapes (each segment but the last ends at the top level), and no separator at the top level
  is left inside a segment.\<close>

theorem cli_next_segment_splits:
  assumes "0 \<notin> set s"
  shows "split_line (length s + 2) (s @ 0 # post) (Some 0) = Some (segments s) \<and>
    concat (map (Cons SEMI) (segments s)) = SEMI # s \<and>
    (\<forall>i. i + 1 < length (segments s) \<longrightarrow> top_level 0 (segments s ! i)) \<and>
    (\<forall>seg a b. seg \<in> set (segments s) \<longrightarrow> seg = a @ SEMI # b \<longrightarrow> \<not> top_level 0 a)"
proof (intro conjI)
  show "split_line (length s + 2) (s @ 0 # post) (Some 0) = Some (segments s)"
    by (rule split_line_refines [of 0]) (simp_all add: assms)
qed (use segments_join [of s] segments_closed [of _ s] segments_finest [of _ s] in blast)+

lemma cli_next_segment_splits_witness:
  "concat (map (Cons SEMI) (segments [97, SEMI, DQ, SEMI, DQ, SEMI])) =
     [SEMI, 97, SEMI, DQ, SEMI, DQ, SEMI]"
  using cli_next_segment_splits [of "[97, SEMI, DQ, SEMI, DQ, SEMI]" "[]"] by simp

text \<open>The last significant character of a text is an ampersand outside quotes and escapes.\<close>

definition after_amp :: "u8 list \<Rightarrow> bool" where
  "after_amp pre \<longleftrightarrow> (\<exists>p ws. pre = p @ AMP # ws \<and> (\<forall>c\<in>set ws. is_space c) \<and> top_level 0 p)"

text \<open>The flag of the scan behind a text that it entered in quote state \<open>q\<close> with the flag \<open>psa\<close>.\<close>

definition amp_flag :: "u8 \<Rightarrow> bool \<Rightarrow> u8 list \<Rightarrow> bool" where
  "amp_flag q psa pre \<longleftrightarrow>
     (\<exists>p ws. pre = p @ AMP # ws \<and> (\<forall>c\<in>set ws. is_space c) \<and> top_level q p) \<or>
     (psa \<and> q = 0 \<and> (\<forall>c\<in>set pre. is_space c))"

lemma amp_flag_skip:
  assumes "\<And>p. top_level q (cs @ p) \<longleftrightarrow> top_level q' p" "\<not> (q = 0 \<and> (\<forall>c\<in>set cs. is_space c))"
    and "\<And>p x. p @ AMP # x = cs @ s \<Longrightarrow> top_level q p \<Longrightarrow> length cs \<le> length p"
  shows "amp_flag q psa (cs @ s) \<longleftrightarrow> amp_flag q' False s"
proof -
  have "(\<exists>p ws. cs @ s = p @ AMP # ws \<and> (\<forall>c\<in>set ws. is_space c) \<and> top_level q p) \<longleftrightarrow>
    (\<exists>p ws. s = p @ AMP # ws \<and> (\<forall>c\<in>set ws. is_space c) \<and> top_level q' p)" (is "?l \<longleftrightarrow> ?r")
  proof
    assume ?l
    then obtain p ws where p: "p @ AMP # ws = cs @ s" "\<forall>c\<in>set ws. is_space c" "top_level q p" by metis
    then obtain u where "p = cs @ u" "s = u @ AMP # ws" using assms(3) [OF p(1,3)]
      by (auto simp: append_eq_append_conv2)
    then show ?r using p assms(1) by auto
  next
    assume ?r
    then show ?l using assms(1) by (metis append.assoc)
  qed
  then show ?thesis using assms(2) by (auto simp: amp_flag_def)
qed

lemma amp_flag_one:
  assumes "\<And>p. top_level q (c # p) \<longleftrightarrow> top_level q' p" "\<not> (q = 0 \<and> is_space c)" "c \<noteq> AMP \<or> q \<noteq> 0"
  shows "amp_flag q psa (c # s) \<longleftrightarrow> amp_flag q' False s"
proof -
  have "length [c] \<le> length p" if "p @ AMP # x = [c] @ s" "top_level q p" for p x
    using that assms(3) by (cases p) auto
  then show ?thesis using amp_flag_skip [of q "[c]" q' s psa] assms(1,2) by simp
qed

lemma amp_flag_esc:
  assumes "q = 0 \<or> q = DQ" "c = BSL"
  shows "amp_flag q psa (c # d # s) \<longleftrightarrow> amp_flag q False s"
proof -
  have "length [c, d] \<le> length p" if e: "p @ AMP # x = [c, d] @ s" "top_level q p" for p x
  proof (cases p)
    case Nil
    then show ?thesis using e assms(2) by simp
  next
    case (Cons u p')
    then show ?thesis using e assms by (cases p') auto
  qed
  then show ?thesis using amp_flag_skip [of q "[c, d]" q s psa] assms by auto
qed

lemma amp_flag_space:
  assumes "is_space c"
  shows "amp_flag 0 psa (c # s) \<longleftrightarrow> amp_flag 0 psa s"
proof -
  have t: "top_level 0 (c # p) \<longleftrightarrow> top_level 0 p" for p
    using assms by (auto simp: is_space_def top_level_Cons)
  have "(\<exists>p ws. c # s = p @ AMP # ws \<and> (\<forall>c\<in>set ws. is_space c) \<and> top_level 0 p) \<longleftrightarrow>
    (\<exists>p ws. s = p @ AMP # ws \<and> (\<forall>c\<in>set ws. is_space c) \<and> top_level 0 p)" (is "?l \<longleftrightarrow> ?r")
  proof
    assume ?l
    then obtain p ws where p: "c # s = p @ AMP # ws" "\<forall>c\<in>set ws. is_space c" "top_level 0 p" by blast
    moreover have "c \<noteq> AMP" using assms by (auto simp: is_space_def)
    ultimately show ?r using t by (cases p) auto
  next
    assume ?r
    then show ?l using t by (metis append_Cons)
  qed
  then show ?thesis using assms by (auto simp: amp_flag_def)
qed

lemma amp_flag_amp: "amp_flag 0 psa (AMP # s) \<longleftrightarrow> amp_flag 0 True s"
proof -
  have "(\<exists>p ws. AMP # s = p @ AMP # ws \<and> (\<forall>c\<in>set ws. is_space c) \<and> top_level 0 p) \<longleftrightarrow>
    (\<forall>c\<in>set s. is_space c) \<or> (\<exists>p ws. s = p @ AMP # ws \<and> (\<forall>c\<in>set ws. is_space c) \<and> top_level 0 p)" (is "?l \<longleftrightarrow> ?r")
  proof
    assume ?l
    then obtain p ws where p: "AMP # s = p @ AMP # ws" "\<forall>c\<in>set ws. is_space c" "top_level 0 p" by blast
    then show ?r by (cases p) (auto simp: top_level_Cons)
  next
    assume ?r
    then show ?l
    proof
      assume "\<forall>c\<in>set s. is_space c"
      then show ?l by (intro exI [of _ "[]"] exI [of _ s]) simp
    next
      assume "\<exists>p ws. s = p @ AMP # ws \<and> (\<forall>c\<in>set ws. is_space c) \<and> top_level 0 p"
      then obtain p ws where "s = p @ AMP # ws" "\<forall>c\<in>set ws. is_space c" "top_level 0 p" by blast
      then show ?l by (intro exI [of _ "AMP # p"] exI [of _ ws]) (simp add: top_level_Cons)
    qed
  qed
  moreover have "\<not> is_space AMP" by (simp add: is_space_def)
  ultimately show ?thesis by (auto simp: amp_flag_def)
qed

lemma amp_flag_Nil: "amp_flag q psa [] \<longleftrightarrow> psa \<and> q = 0"
  by (simp add: amp_flag_def)

text \<open>The scan over a text that ends outside quotes leaves the flag of the text.\<close>

lemma bg_loop_prefix:
  assumes "drop i b = pre @ AMP # post" "0 \<notin> set pre" "top_level q pre" "q \<noteq> 0 \<longrightarrow> \<not> psa"
  shows "\<exists>amp' aaa'. bg_loop b i q amp aaa psa = bg_loop b (i + length pre) 0 amp' aaa' (amp_flag q psa pre)"
  using assms
proof (induction q pre arbitrary: i amp aaa psa rule: top_level.induct)
  case (1 q)
  then have "q = 0" by simp
  then show ?case by (intro exI [of _ amp] exI [of _ aaa]) (simp add: amp_flag_def)
next
  case (2 q c)
  then have c: "i < length b" "b ! i = c" "c \<noteq> 0" by (auto dest: drop_ConsD)
  note unfold = bg_loop.simps [of b i] c Let_def
  consider (space) "q = 0" "is_space c" | (amp) "q = 0" "c = AMP"
    | (plain) "q = 0" "\<not> is_space c" "c \<noteq> AMP" "c \<noteq> BSL" "c \<noteq> DQ" "c \<noteq> SQ"
    | (close) "q = DQ \<and> c = DQ \<or> q \<noteq> 0 \<and> q \<noteq> DQ \<and> c = SQ"
    using "2.prems"(3) by (auto split: if_splits)
  then show ?case
  proof cases
    case space
    then show ?thesis
      by (intro exI [of _ amp] exI [of _ aaa]) (auto simp: unfold amp_flag_space amp_flag_Nil is_space_def)
  next
    case amp
    then show ?thesis
      by (intro exI [of _ "Some i"] exI [of _ psa]) (auto simp: unfold amp_flag_amp amp_flag_Nil)
  next
    case plain
    have "amp_flag 0 psa [c] = amp_flag 0 False []"
      by (rule amp_flag_one) (use plain in \<open>auto simp: top_level_Cons\<close>)
    with plain show ?thesis
      by (intro exI [of _ None] exI [of _ aaa]) (auto simp: unfold amp_flag_Nil is_space_def)
  next
    case close
    have "amp_flag q psa [c] = amp_flag 0 False []"
      by (rule amp_flag_one) (use close in \<open>auto simp: top_level_Cons\<close>)
    with close show ?thesis
      by (intro exI [of _ None] exI [of _ aaa]) (auto simp: unfold amp_flag_Nil)
  qed
next
  case (3 q c d s)
  then have c: "i < length b" "b ! i = c" "drop (Suc i) b = (d # s) @ AMP # post" "c \<noteq> 0" "d \<noteq> 0"
    by (auto dest: drop_ConsD)
  then have d: "Suc i < length b" "b ! Suc i = d" "drop (Suc (Suc i)) b = s @ AMP # post" "0 \<notin> set s"
    using "3.prems"(2) by (auto dest: drop_ConsD)
  note unfold = bg_loop.simps [of b i] c(1,2,4,5) d(1,2) ld_def Let_def
  have lift: ?case
    if "\<exists>am' aa'. bg_loop b j q' am aa ps = bg_loop b (j + length r) 0 am' aa' (amp_flag q' ps r)"
      "bg_loop b i q amp aaa psa = bg_loop b j q' am aa ps" "j + length r = i + length (c # d # s)"
      "amp_flag q psa (c # d # s) = amp_flag q' ps r" for j q' am aa ps r
    using that by simp
  have z: "0 \<notin> set (d # s)" using "3.prems"(2) by simp
  consider (space) "q = 0" "is_space c" | (amp) "q = 0" "c = AMP"
    | (esc) "q = 0 \<or> q = DQ" "c = BSL" | (opn) "q = 0" "c = DQ \<or> c = SQ"
    | (plain) "q = 0" "\<not> is_space c" "c \<noteq> AMP" "c \<noteq> BSL" "c \<noteq> DQ" "c \<noteq> SQ"
    | (close) "q = DQ \<and> c = DQ \<or> q \<noteq> 0 \<and> q \<noteq> DQ \<and> c = SQ"
    | (inD) "q = DQ" "c \<noteq> DQ" "c \<noteq> BSL" | (inS) "q \<noteq> 0" "q \<noteq> DQ" "c \<noteq> SQ"
    by blast
  then show ?case
  proof cases
    case space
    then have "top_level 0 (d # s)" using "3.prems"(3) by (auto simp: is_space_def)
    with space show ?thesis
      by (intro lift [OF "3.IH"(3) [of "Suc i" psa amp aaa]])
        (use c z in \<open>auto simp: unfold amp_flag_space is_space_def\<close>)
  next
    case amp
    then have "top_level 0 (d # s)" using "3.prems"(3) by auto
    with amp show ?thesis
      by (intro lift [OF "3.IH"(3) [of "Suc i" True "Some i" psa]])
        (use c z in \<open>auto simp: unfold amp_flag_amp\<close>)
  next
    case esc
    then have "top_level q s" using "3.prems"(3) by auto
    with esc show ?thesis
      by (cases "q = 0"; intro lift [OF "3.IH"(2) [of "Suc (Suc i)" False None aaa]] lift [OF "3.IH"(5) [of "Suc (Suc i)" False None aaa]])
        (use d in \<open>auto simp: unfold amp_flag_esc\<close>)
  next
    case opn
    have "amp_flag 0 psa (c # d # s) = amp_flag c False (d # s)"
      by (rule amp_flag_one) (use opn in \<open>auto simp: top_level_Cons is_space_def\<close>)
    with opn show ?thesis
      by (intro lift [OF "3.IH"(1) [of "Suc i" False None aaa]])
        (use c z "3.prems"(3) in \<open>auto simp: unfold\<close>)
  next
    case plain
    have "amp_flag 0 psa (c # d # s) = amp_flag 0 False (d # s)"
      by (rule amp_flag_one) (use plain in \<open>auto simp: top_level_Cons\<close>)
    with plain show ?thesis
      by (intro lift [OF "3.IH"(3) [of "Suc i" False None aaa]])
        (use c z "3.prems"(3) in \<open>auto simp: unfold is_space_def\<close>)
  next
    case close
    have f: "amp_flag q psa (c # d # s) = amp_flag 0 False (d # s)"
      by (rule amp_flag_one) (use close in \<open>auto simp: top_level_Cons\<close>)
    show ?thesis
    proof (cases "q = DQ")
      case True
      with f close show ?thesis
        by (intro lift [OF "3.IH"(4) [of "Suc i" False None aaa]])
          (use c z "3.prems"(3) in \<open>auto simp: unfold\<close>)
    next
      case False
      with f close show ?thesis
        by (intro lift [OF "3.IH"(7) [of "Suc i" False None aaa]])
          (use c z "3.prems"(3) in \<open>auto simp: unfold\<close>)
    qed
  next
    case inD
    have "amp_flag DQ psa (c # d # s) = amp_flag DQ False (d # s)"
      by (rule amp_flag_one) (use inD in \<open>auto simp: top_level_Cons\<close>)
    with inD show ?thesis
      by (intro lift [OF "3.IH"(6) [of "Suc i" False None aaa]])
        (use c z "3.prems"(3) in \<open>auto simp: unfold\<close>)
  next
    case inS
    have "amp_flag q psa (c # d # s) = amp_flag q False (d # s)"
      by (rule amp_flag_one) (use inS in \<open>auto simp: top_level_Cons\<close>)
    with inS show ?thesis
      by (intro lift [OF "3.IH"(8) [of "Suc i" False None aaa]])
        (use c z "3.prems"(3) in \<open>auto simp: unfold\<close>)
  qed
qed

lemma bg_loop_tail:
  assumes "drop i b = rest @ 0 # post" "bg_tail rest" "0 \<notin> set rest"
  shows "bg_loop b i 0 amp aaa psa = Some (amp, aaa)"
  using assms
proof (induction rest arbitrary: i)
  case Nil
  then show ?case by (auto simp: bg_loop.simps [of b i] dest: drop_ConsD)
next
  case (Cons c rest)
  then have c: "i < length b" "b ! i = c" "c \<noteq> 0" "drop (Suc i) b = rest @ 0 # post" by (auto dest: drop_ConsD)
  show ?case
  proof (cases "is_space c")
    case True
    with Cons c show ?thesis by (auto simp: bg_loop.simps [of b i] is_space_def)
  next
    case False
    then have "c = BSL" "rest = []" using Cons.prems(2) by (auto simp: bg_tail_def Cons_eq_append_conv)
    moreover from this c(4) have "Suc i < length b" "b ! Suc i = 0" by (auto dest: drop_ConsD)
    ultimately show ?thesis using c by (simp add: bg_loop.simps [of b i] ld_def)
  qed
qed

text \<open>The candidate at the end of a text is the operator unless another one stands right before it.\<close>

lemma bg_loop_at:
  assumes "drop off b = pre @ AMP # rest @ 0 # post" "0 \<notin> set pre" "0 \<notin> set rest" "top_level 0 pre" "bg_tail rest"
  shows "bg_loop b off 0 None False False = Some (Some (off + length pre), after_amp pre)"
proof -
  have d: "drop (off + length pre) b = AMP # rest @ 0 # post"
    using assms(1) by (metis add.commute append_eq_conv_conj drop_drop)
  then have a: "off + length pre < length b" "b ! (off + length pre) = AMP"
    "drop (Suc (off + length pre)) b = rest @ 0 # post" by (auto dest: drop_ConsD)
  obtain am aa where "bg_loop b off 0 None False False = bg_loop b (off + length pre) 0 am aa (amp_flag 0 False pre)"
    using bg_loop_prefix [OF assms(1,2,4), of False None False] by auto
  then show ?thesis
    using a bg_loop_tail [OF a(3) assms(5,3)]
    by (simp add: bg_loop.simps [of b "off + length pre"] amp_flag_def after_amp_def)
qed

lemma background_found:
  assumes s: "s = pre @ AMP # rest" "0 \<notin> set s" and pre: "top_level 0 pre" "bg_tail rest" "\<not> after_amp pre"
  obtains body ws where "cli_segment_is_background (s @ 0 # post) 0 =
      Some (body @ replicate (length ws + 1) 0 @ rest @ 0 # post, True)"
    "pre = body @ ws" "\<forall>c\<in>set ws. is_space c" "body \<noteq> [] \<longrightarrow> \<not> is_space (last body)"
    "cstr (body @ replicate (length ws + 1) 0 @ rest @ 0 # post) 0 = body"
proof -
  let ?b = "s @ 0 # post"
  obtain body ws where bw: "pre = body @ ws" "\<forall>c\<in>set ws. is_space c" "body \<noteq> [] \<longrightarrow> \<not> is_space (last body)"
    using split_trailing_space by blast
  have loop: "bg_loop ?b 0 0 None False False = Some (Some (length pre), False)"
    using bg_loop_at [of 0 ?b pre rest post] s pre by simp
  have "drop 0 (?b[length pre := 0]) = body @ ws @ 0 # (rest @ 0 # post)"
    by (simp add: s(1) bw list_update_append)
  from bg_strip_spec [OF this bw(2,3)]
  have b': "bg_strip (?b[length pre := 0]) 0 (length pre) = body @ replicate (length ws + 1) 0 @ rest @ 0 # post"
    by (simp add: bw)
  have z: "0 \<notin> set body" using s bw(1) by simp
  have c: "cstr (body @ replicate (length ws + 1) 0 @ rest @ 0 # post) 0 = body"
    using cstr_drop [of 0 _ body "replicate (length ws) 0 @ rest @ 0 # post"] z by simp
  have "cli_segment_is_background ?b 0 = Some (bg_strip (?b[length pre := 0]) 0 (length pre), True)"
    using loop by (simp add: cli_segment_is_background_def)
  then show thesis using that bw c unfolding b' by blast
qed

text \<open>C33. \<open>cli_segment_is_background\<close> never leaves the buffer, and it says yes of exactly the segments
  with an ampersand outside quotes and escapes that only whitespace follows and that does not
  itself follow, whitespace apart, another such ampersand (\<open>&&\<close>). (The scan also lets one last lone
  backslash follow, \<open>bg_tail\<close>; the comment above the code does not, see \<open>background_before_backslash\<close>.)
  If it says no, the buffer is untouched; if it says yes, the ampersand and the whitespace before
  it are NULs, nothing else changed, and what remains is the text without its trailing whitespace.\<close>

theorem cli_segment_is_background_correct:
  assumes "0 \<notin> set s"
  shows "\<exists>b' r. cli_segment_is_background (s @ 0 # post) 0 = Some (b', r) \<and>
    (r \<longleftrightarrow> (\<exists>pre rest. s = pre @ AMP # rest \<and> top_level 0 pre \<and> bg_tail rest \<and> \<not> after_amp pre)) \<and>
    (\<not> r \<longrightarrow> b' = s @ 0 # post) \<and>
    (r \<longrightarrow> (\<exists>body ws rest. s = body @ ws @ AMP # rest \<and> (\<forall>c\<in>set ws. is_space c) \<and>
        (body \<noteq> [] \<longrightarrow> \<not> is_space (last body)) \<and> top_level 0 (body @ ws) \<and> bg_tail rest \<and>
        b' = body @ replicate (length ws + 1) 0 @ rest @ 0 # post \<and> cstr b' 0 = body))"
proof -
  let ?b = "s @ 0 # post"
  obtain ra raa where loop: "bg_loop ?b 0 0 None False False = Some (ra, raa)" and cand: "bg_cand 0 0 s None ra"
    using bg_loop_spec [of 0 ?b s post 0 None False False] assms by auto
  have at: "ra = Some (length pre) \<and> raa = after_amp pre"
    if "s = pre @ AMP # rest" "top_level 0 pre" "bg_tail rest" for pre rest
    using bg_loop_at [of 0 ?b pre rest post] that assms loop by auto
  show ?thesis
  proof (cases "ra = None \<or> raa")
    case True
    then have "cli_segment_is_background ?b 0 = Some (?b, False)"
      using loop by (auto simp: cli_segment_is_background_def split: option.splits)
    moreover have "\<not> (\<exists>pre rest. s = pre @ AMP # rest \<and> top_level 0 pre \<and> bg_tail rest \<and> \<not> after_amp pre)"
      using at True by auto
    ultimately show ?thesis by blast
  next
    case False
    then obtain pre rest where p: "s = pre @ AMP # rest" "top_level 0 pre" "bg_tail rest"
      using cand by (auto simp: bg_cand_def)
    then have n: "\<not> after_amp pre" using at False by simp
    obtain body ws where f: "cli_segment_is_background ?b 0 = Some (body @ replicate (length ws + 1) 0 @ rest @ 0 # post, True)"
      "pre = body @ ws" "\<forall>c\<in>set ws. is_space c" "body \<noteq> [] \<longrightarrow> \<not> is_space (last body)"
      "cstr (body @ replicate (length ws + 1) 0 @ rest @ 0 # post) 0 = body"
      by (rule background_found [OF p(1) assms p(2,3) n])
    have "s = body @ ws @ AMP # rest" "top_level 0 (body @ ws)" using p f(2) by simp_all
    with p n f show ?thesis by (intro exI conjI; (rule f(1))?) blast+
  qed
qed

lemma cli_segment_is_background_correct_witness:
  "\<exists>b'. cli_segment_is_background [97, 32, AMP, 32, 0] 0 = Some (b', True) \<and> cstr b' 0 = [97]"
proof -
  have "cli_segment_is_background [97, 32, AMP, 32, 0] 0 = Some ([97, 0, 0, 32, 0], True)"
    by code_simp
  with cli_segment_is_background_correct [of "[97, 32, AMP, 32]" "[]"] show ?thesis
    by (simp add: cstr_def)
qed

text \<open>
  Two corners the detector gets wrong. An escaped space before the operator is stripped like
  any other, so the argument \<open>a \<close> loses its space and gains a lone backslash; and a last lone
  backslash behind the operator leaves it in force, although it is not the last
  non-whitespace character of the segment.
\<close>

lemma background_strips_escaped_space:
  "cli_segment_is_background [97, BSL, 32, AMP, 0] 0 = Some ([97, BSL, 0, 0, 0], True)"
  by code_simp

lemma background_before_backslash:
  "cli_segment_is_background [97, AMP, 32, BSL, 0] 0 = Some ([97, 0, 32, BSL, 0], True)"
  by code_simp

end
