(* ===== verification/CliParse.thy ===== *)
theory CliParse
  imports CliTokens
begin

text \<open>
  \<open>cli_parse\<close> of \<open>shell/core/cli_parse.c\<close>: the descent of the static command tree, the RAW
  tail, the argument count. The parser runs on the line buffer through \<open>next_token\<close>;
  \<open>cli_parse_spec\<close> is the same parser on strings, and \<open>cli_parse_refines\<close> relates them.
\<close>

section \<open>The command tree and the parser\<close>

text \<open>
  \<open>struct cli_cmd\<close>. A subcommand array ends at its sentinel (a NULL name), the root array
  at the linker symbol, so both are lists here; an entry without a name can occur in either.
  The handler is any type: the parser never calls it.
\<close>

datatype 'h cmd = Cmd
  (cmd_name: "u8 list option")
  (cmd_help: "u8 list option")
  (cmd_usage: "u8 list option")
  (cmd_subcmds: "'h cmd list option")
  (cmd_handler: "'h option")
  (cmd_mandatory: nat)
  (cmd_optional: nat)

definition CLI_MAX_ARGC :: nat where "CLI_MAX_ARGC = 20"
definition CLI_ARGV_CAP :: nat where "CLI_ARGV_CAP = CLI_MAX_ARGC + 2"
definition CLI_MAX_SUBCMD_DEPTH :: nat where "CLI_MAX_SUBCMD_DEPTH = 8"
definition CLI_ARG_RAW :: nat where "CLI_ARG_RAW = 255"

fun match_root :: "'h cmd list \<Rightarrow> u8 list \<Rightarrow> 'h cmd option" where
  "match_root [] nm = None"
| "match_root (c # cs) nm = (if cmd_name c = Some nm then Some c else match_root cs nm)"

fun match_sub :: "'h cmd list \<Rightarrow> u8 list \<Rightarrow> 'h cmd option" where
  "match_sub [] nm = None"
| "match_sub (c # cs) nm =
     (case cmd_name c of
        None \<Rightarrow> None
      | Some n \<Rightarrow> if n = nm then Some c else match_sub cs nm)"

text \<open>\<open>struct cli_parse_result\<close>; \<open>pr_argv\<close> is the index into the caller's array.\<close>

record 'h parse_result =
  pr_cmd :: "'h cmd option"
  pr_argv :: "nat option"
  pr_argc :: nat
  pr_level :: nat

definition no_result :: "'h parse_result" where
  "no_result = \<lparr>pr_cmd = None, pr_argv = None, pr_argc = 0, pr_level = 0\<rparr>"

text \<open>
  A stage of the parser either stops with a status or goes on; in both cases with the buffer
  and the token offsets stored in \<open>argv\<close> so far.
\<close>

datatype 'a stage =
    Stop (st_buf: "u8 list") (st_argv: "nat list") cli_parse_status
  | Go (st_buf: "u8 list") nat nat (st_argv: "nat list") 'a

text \<open>The descent of the static tree, while the current node has subcommands.\<close>

function parse_descend ::
  "'h cmd \<Rightarrow> nat \<Rightarrow> u8 list \<Rightarrow> nat \<Rightarrow> nat \<Rightarrow> nat list \<Rightarrow> ('h cmd \<times> nat) stage option" where
  "parse_descend cmd level b rd wr argv =
     (case cmd_subcmds cmd of
        None \<Rightarrow> Some (Go b rd wr argv (cmd, level))
      | Some subs \<Rightarrow>
          (case next_token b rd wr of
             None \<Rightarrow> None
           | Some (NT_END b' rd' wr') \<Rightarrow> Some (Go b' rd' wr' argv (cmd, level))
           | Some (NT_ERR b') \<Rightarrow> Some (Stop b' argv CLI_PARSE_UNTERMINATED_QUOTE)
           | Some (NT_TOK b' rd' wr' tok) \<Rightarrow>
               if length argv \<ge> CLI_MAX_ARGC then Some (Stop b' argv CLI_PARSE_TOO_MANY_TOKENS)
               else
                 (case match_sub subs (cstr b' tok) of
                    Some sub \<Rightarrow>
                      if level - 1 \<ge> CLI_MAX_SUBCMD_DEPTH
                      then Some (Stop b' (argv @ [tok]) CLI_PARSE_NESTING_TOO_DEEP)
                      else parse_descend sub (level + 1) b' rd' wr' (argv @ [tok])
                  | None \<Rightarrow> Some (Go b' rd' wr' (argv @ [tok]) (cmd, level)))))"
  by pat_completeness auto
termination
  by (relation "measure (\<lambda>(c, l, b, rd, wr, argv). CLI_MAX_ARGC - length argv)") auto

text \<open>The mandatory tokens of a RAW command, then its verbatim tail.\<close>

fun parse_raw_need ::
  "nat \<Rightarrow> u8 list \<Rightarrow> nat \<Rightarrow> nat \<Rightarrow> nat list \<Rightarrow> unit stage option" where
  "parse_raw_need 0 b rd wr argv = Some (Go b rd wr argv ())"
| "parse_raw_need (Suc need) b rd wr argv =
     (case next_token b rd wr of
        None \<Rightarrow> None
      | Some (NT_END b' rd' wr') \<Rightarrow> Some (Go b' rd' wr' argv ())
      | Some (NT_ERR b') \<Rightarrow> Some (Stop b' argv CLI_PARSE_UNTERMINATED_QUOTE)
      | Some (NT_TOK b' rd' wr' tok) \<Rightarrow>
          if length argv \<ge> CLI_MAX_ARGC then Some (Stop b' argv CLI_PARSE_TOO_MANY_TOKENS)
          else parse_raw_need need b' rd' wr' (argv @ [tok]))"

definition parse_raw_tail ::
  "nat \<Rightarrow> nat \<Rightarrow> nat \<Rightarrow> u8 list \<Rightarrow> nat \<Rightarrow> nat \<Rightarrow> nat list \<Rightarrow> unit stage option" where
  "parse_raw_tail argv_cap handler_base mandatory b rd wr argv =
     (if length argv - handler_base \<ge> mandatory then
        (case skip_spaces b rd of
           None \<Rightarrow> None
         | Some rd' \<Rightarrow>
             if b ! rd' \<noteq> 0 then
               if length argv \<ge> argv_cap - 1 then Some (Stop b argv CLI_PARSE_TOO_MANY_TOKENS)
               else Some (Go b rd' wr (argv @ [rd']) ())
             else Some (Go b rd' wr argv ()))
      else Some (Go b rd wr argv ()))"

text \<open>Every remaining token is an argument.\<close>

function parse_args ::
  "u8 list \<Rightarrow> nat \<Rightarrow> nat \<Rightarrow> nat list \<Rightarrow> unit stage option" where
  "parse_args b rd wr argv =
     (case next_token b rd wr of
        None \<Rightarrow> None
      | Some (NT_END b' rd' wr') \<Rightarrow> Some (Go b' rd' wr' argv ())
      | Some (NT_ERR b') \<Rightarrow> Some (Stop b' argv CLI_PARSE_UNTERMINATED_QUOTE)
      | Some (NT_TOK b' rd' wr' tok) \<Rightarrow>
          if length argv \<ge> CLI_MAX_ARGC then Some (Stop b' argv CLI_PARSE_TOO_MANY_TOKENS)
          else parse_args b' rd' wr' (argv @ [tok]))"
  by pat_completeness auto
termination
  by (relation "measure (\<lambda>(b, rd, wr, argv). CLI_MAX_ARGC - length argv)") auto

declare parse_descend.simps [simp del] parse_args.simps [simp del]

definition is_raw :: "'h cmd \<Rightarrow> bool" where
  "is_raw cmd \<longleftrightarrow> cmd_optional cmd = CLI_ARG_RAW \<and> cmd_subcmds cmd = None"

text \<open>The status of a completed argument list.\<close>

definition args_status :: "'h cmd \<Rightarrow> nat \<Rightarrow> cli_parse_status" where
  "args_status cmd argc =
     (if argc < cmd_mandatory cmd then CLI_PARSE_WRONG_ARGS
      else if \<not> is_raw cmd \<and> argc > cmd_mandatory cmd + cmd_optional cmd then CLI_PARSE_WRONG_ARGS
      else CLI_PARSE_OK)"

type_synonym 'h parse_outcome =
  "u8 list \<times> nat list \<times> cli_parse_status \<times> 'h parse_result"

text \<open>The arguments of the resolved command: RAW or normal.\<close>

definition parse_rest ::
  "'h cmd \<Rightarrow> nat \<Rightarrow> nat \<Rightarrow> u8 list \<Rightarrow> nat \<Rightarrow> nat \<Rightarrow> nat list \<Rightarrow> unit stage option" where
  "parse_rest cmd argv_cap base b rd wr argv =
     (if is_raw cmd
      then (case parse_raw_need (cmd_mandatory cmd - 1) b rd wr argv of
              None \<Rightarrow> None
            | Some (Stop b' argv' s) \<Rightarrow> Some (Stop b' argv' s)
            | Some (Go b' rd' wr' argv' u) \<Rightarrow>
                parse_raw_tail argv_cap base (cmd_mandatory cmd) b' rd' wr' argv')
      else parse_args b rd wr argv)"

definition result_of :: "'h cmd \<Rightarrow> nat \<Rightarrow> nat list \<Rightarrow> 'h parse_result" where
  "result_of cmd level argv =
     \<lparr>pr_cmd = Some cmd, pr_argv = Some (level - 1), pr_argc = length argv - (level - 1),
      pr_level = level\<rparr>"

text \<open>Everything after the descent: the handler test, the arguments, the count check.\<close>

definition parse_finish ::
  "nat \<Rightarrow> 'h cmd \<Rightarrow> nat \<Rightarrow> u8 list \<Rightarrow> nat \<Rightarrow> nat \<Rightarrow> nat list \<Rightarrow> 'h parse_outcome option" where
  "parse_finish argv_cap cmd level b rd wr argv =
     (if cmd_handler cmd = None
      then Some (b, argv, CLI_PARSE_NO_HANDLER, result_of cmd level argv)
      else (case parse_rest cmd argv_cap (level - 1) b rd wr argv of
              None \<Rightarrow> None
            | Some (Stop b' argv' s) \<Rightarrow> Some (b', argv', s, no_result)
            | Some (Go b' rd' wr' argv' u) \<Rightarrow>
                Some (b', argv', args_status cmd (length argv' - (level - 1)),
                  result_of cmd level argv')))"

text \<open>
  \<open>cli_parse\<close>: the buffer as it stands afterwards, the token offsets stored in the
  caller's array, the status and the result. The array also gets its NULL terminator behind
  the last offset wherever a result is delivered.
\<close>

definition cli_parse :: "'h cmd list \<Rightarrow> u8 list \<Rightarrow> nat \<Rightarrow> 'h parse_outcome option" where
  "cli_parse roots line argv_cap =
     (case next_token line 0 0 of
        None \<Rightarrow> None
      | Some (NT_END b rd wr) \<Rightarrow> Some (b, [], CLI_PARSE_EMPTY, no_result)
      | Some (NT_ERR b) \<Rightarrow> Some (b, [], CLI_PARSE_UNTERMINATED_QUOTE, no_result)
      | Some (NT_TOK b rd wr tok) \<Rightarrow>
          (case match_root roots (cstr b tok) of
             None \<Rightarrow>
               Some (b, [tok], CLI_PARSE_NOT_FOUND, no_result\<lparr>pr_argv := Some 0, pr_argc := 1\<rparr>)
           | Some cmd0 \<Rightarrow>
               (case parse_descend cmd0 1 b rd wr [tok] of
                  None \<Rightarrow> None
                | Some (Stop b' argv s) \<Rightarrow> Some (b', argv, s, no_result)
                | Some (Go b' rd' wr' argv cl) \<Rightarrow>
                    parse_finish argv_cap (fst cl) (snd cl) b' rd' wr' argv)))"

section \<open>The parser on strings\<close>

text \<open>
  The same control flow over the text of the line, with arguments that are strings and not
  pointers. A stage carries the unread text and the argument strings.
\<close>

datatype 'a sstage = SStop cli_parse_status | SGo "u8 list" "u8 list list" 'a

fun descend_spec ::
  "nat \<Rightarrow> 'h cmd \<Rightarrow> nat \<Rightarrow> u8 list \<Rightarrow> u8 list list \<Rightarrow> ('h cmd \<times> nat) sstage" where
  "descend_spec k cmd level s args =
     (case cmd_subcmds cmd of
        None \<Rightarrow> SGo s args (cmd, level)
      | Some subs \<Rightarrow>
          (case next_spec s of
             TS_END \<Rightarrow> SGo [] args (cmd, level)
           | TS_ERR \<Rightarrow> SStop CLI_PARSE_UNTERMINATED_QUOTE
           | TS_TOK t r \<Rightarrow>
               (case k of
                  0 \<Rightarrow> SStop CLI_PARSE_TOO_MANY_TOKENS
                | Suc k' \<Rightarrow>
                    (case match_sub subs t of
                       Some sub \<Rightarrow>
                         if level - 1 \<ge> CLI_MAX_SUBCMD_DEPTH then SStop CLI_PARSE_NESTING_TOO_DEEP
                         else descend_spec k' sub (level + 1) r (args @ [t])
                     | None \<Rightarrow> SGo r (args @ [t]) (cmd, level)))))"

fun raw_need_spec ::
  "nat \<Rightarrow> u8 list \<Rightarrow> u8 list list \<Rightarrow> unit sstage" where
  "raw_need_spec 0 s args = SGo s args ()"
| "raw_need_spec (Suc need) s args =
     (case next_spec s of
        TS_END \<Rightarrow> SGo [] args ()
      | TS_ERR \<Rightarrow> SStop CLI_PARSE_UNTERMINATED_QUOTE
      | TS_TOK t r \<Rightarrow>
          if length args \<ge> CLI_MAX_ARGC then SStop CLI_PARSE_TOO_MANY_TOKENS
          else raw_need_spec need r (args @ [t]))"

definition raw_tail_spec ::
  "nat \<Rightarrow> nat \<Rightarrow> nat \<Rightarrow> u8 list \<Rightarrow> u8 list list \<Rightarrow> unit sstage" where
  "raw_tail_spec cap base mandatory s args =
     (if length args - base \<ge> mandatory \<and> dropWhile is_space s \<noteq> []
      then if length args \<ge> cap - 1 then SStop CLI_PARSE_TOO_MANY_TOKENS
           else SGo [] (args @ [dropWhile is_space s]) ()
      else SGo s args ())"

fun args_spec :: "nat \<Rightarrow> u8 list \<Rightarrow> u8 list list \<Rightarrow> unit sstage" where
  "args_spec k s args =
     (case next_spec s of
        TS_END \<Rightarrow> SGo [] args ()
      | TS_ERR \<Rightarrow> SStop CLI_PARSE_UNTERMINATED_QUOTE
      | TS_TOK t r \<Rightarrow>
          (case k of
             0 \<Rightarrow> SStop CLI_PARSE_TOO_MANY_TOKENS
           | Suc k' \<Rightarrow> args_spec k' r (args @ [t])))"

declare descend_spec.simps [simp del] args_spec.simps [simp del]

definition rest_spec ::
  "'h cmd \<Rightarrow> nat \<Rightarrow> nat \<Rightarrow> u8 list \<Rightarrow> u8 list list \<Rightarrow> unit sstage" where
  "rest_spec cmd cap base s args =
     (if is_raw cmd
      then (case raw_need_spec (cmd_mandatory cmd - 1) s args of
              SStop e \<Rightarrow> SStop e
            | SGo s' args' u \<Rightarrow> raw_tail_spec cap base (cmd_mandatory cmd) s' args')
      else args_spec (CLI_MAX_ARGC - length args) s args)"

type_synonym 'h spec_outcome =
  "cli_parse_status \<times> ('h cmd \<times> nat) option \<times> u8 list list"

text \<open>Status, the resolved node with its level, and all the argument strings, path included.\<close>

definition cli_parse_spec :: "'h cmd list \<Rightarrow> u8 list \<Rightarrow> nat \<Rightarrow> 'h spec_outcome" where
  "cli_parse_spec roots s cap =
     (case next_spec s of
        TS_END \<Rightarrow> (CLI_PARSE_EMPTY, None, [])
      | TS_ERR \<Rightarrow> (CLI_PARSE_UNTERMINATED_QUOTE, None, [])
      | TS_TOK t r \<Rightarrow>
          (case match_root roots t of
             None \<Rightarrow> (CLI_PARSE_NOT_FOUND, None, [t])
           | Some cmd0 \<Rightarrow>
               (case descend_spec (CLI_MAX_ARGC - 1) cmd0 1 r [t] of
                  SStop e \<Rightarrow> (e, None, [])
                | SGo s1 args (cmd, level) \<Rightarrow>
                    if cmd_handler cmd = None then (CLI_PARSE_NO_HANDLER, Some (cmd, level), args)
                    else
                      (case rest_spec cmd cap (level - 1) s1 args of
                         SStop e \<Rightarrow> (e, None, [])
                       | SGo s2 args' u \<Rightarrow>
                           (args_status cmd (length args' - (level - 1)),
                            Some (cmd, level), args')))))"

section \<open>The parser on the buffer refines it\<close>

text \<open>
  \<open>stage_ref\<close>: the stage did not fault, and it agrees with the stage on strings; a stage
  that goes on leaves the scan where the specification left it.
\<close>

definition stage_ref ::
  "nat \<Rightarrow> u8 list \<Rightarrow> 'a stage option \<Rightarrow> 'a sstage \<Rightarrow> bool" where
  "stage_ref len post out spec =
     (case spec of
        SStop e \<Rightarrow> (\<exists>b argv. out = Some (Stop b argv e) \<and> length b = len \<and> ends b post)
      | SGo s args x \<Rightarrow>
          (\<exists>b rd wr argv. out = Some (Go b rd wr argv x) \<and> length b = len \<and>
             map (cstr b) argv = args \<and> scan_inv b rd wr argv s post))"

lemma scan_inv_ends: "scan_inv b rd wr argv s post \<Longrightarrow> ends b post"
  using endsI [of rd b s 0 post] by (simp add: scan_inv_def)

lemma ends_same_length:
  "length b = length (s @ 0 # post) \<Longrightarrow> ends b post \<Longrightarrow> drop (Suc (length s)) b = post"
proof -
  assume len: "length b = length (s @ 0 # post)" and "ends b post"
  then obtain n where n: "drop n b = post" by (auto simp: ends_def)
  then have "length b - n = length post" by auto
  with len have "n = Suc (length s) \<or> post = []" by (cases post) auto
  with n len show ?thesis by auto
qed

lemma scan_inv_cases:
  assumes "scan_inv b rd wr argv s post"
  obtains (fin) rd' where "next_spec s = TS_END" "next_token b rd wr = Some (NT_END b rd' wr)"
      "scan_inv b rd' wr argv [] post"
  | (err) b' where "next_spec s = TS_ERR" "next_token b rd wr = Some (NT_ERR b')"
      "length b' = length b" "ends b' post"
  | (tok) t r b' rd' wr' tok where "next_spec s = TS_TOK t r"
      "next_token b rd wr = Some (NT_TOK b' rd' wr' tok)" "length b' = length b"
      "scan_inv b' rd' wr' (argv @ [tok]) r post"
      "map (cstr b') (argv @ [tok]) = map (cstr b) argv @ [t]" "cstr b' tok = t"
  using next_token_step [OF assms] by (cases "next_spec s") auto

lemma stage_ref_simps [simp]:
  "length b = len \<Longrightarrow> ends b post \<Longrightarrow> stage_ref len post (Some (Stop b argv e)) (SStop e)"
  "length b = len \<Longrightarrow> scan_inv b rd wr argv s post \<Longrightarrow> map (cstr b) argv = args \<Longrightarrow>
    stage_ref len post (Some (Go b rd wr argv x)) (SGo s args x)"
  by (auto simp: stage_ref_def)

lemma parse_descend_refines:
  assumes "scan_inv b rd wr argv s post" and "length argv \<le> CLI_MAX_ARGC"
  shows "stage_ref (length b) post (parse_descend cmd level b rd wr argv)
    (descend_spec (CLI_MAX_ARGC - length argv) cmd level s (map (cstr b) argv))"
  using assms
proof (induction "CLI_MAX_ARGC - length argv" arbitrary: cmd level b rd wr argv s)
  case 0
  then have k: "CLI_MAX_ARGC - length argv = 0" "length argv \<ge> CLI_MAX_ARGC" by auto
  show ?case
    by (rule scan_inv_cases [OF 0(2)])
      (use 0(2) k in \<open>auto dest: scan_inv_ends simp: stage_ref_def parse_descend.simps [of cmd level b] k
        descend_spec.simps [of 0 cmd] split: option.split\<close>)
next
  case (Suc n)
  then have k: "\<not> length argv \<ge> CLI_MAX_ARGC" by auto
  show ?case
  proof (rule scan_inv_cases [OF Suc(3)])
    fix t r b' rd' wr' tok
    assume nt: "next_spec s = TS_TOK t r" "next_token b rd wr = Some (NT_TOK b' rd' wr' tok)"
      "length b' = length b" "scan_inv b' rd' wr' (argv @ [tok]) r post"
      "map (cstr b') (argv @ [tok]) = map (cstr b) argv @ [t]" "cstr b' tok = t"
    have n: "n = CLI_MAX_ARGC - length (argv @ [tok])" "length (argv @ [tok]) \<le> CLI_MAX_ARGC"
      using Suc(2) k by auto
    note IH = Suc(1) [OF n(1) nt(4) n(2), folded n(1), unfolded nt(3,5)]
    show ?thesis
      unfolding Suc(2) [symmetric] parse_descend.simps [of cmd level b]
        descend_spec.simps [of "Suc n" cmd] nt(1,2)
      using IH nt k Suc(3) scan_inv_ends [OF nt(4)] by (simp split: option.split)
  qed (use Suc(3) k in \<open>auto simp: parse_descend.simps [of cmd level b] Suc(2) [symmetric]
        descend_spec.simps [of "Suc n" cmd] split: option.split\<close>)
qed

lemma parse_args_refines:
  assumes "scan_inv b rd wr argv s post" and "length argv \<le> CLI_MAX_ARGC"
  shows "stage_ref (length b) post (parse_args b rd wr argv)
    (args_spec (CLI_MAX_ARGC - length argv) s (map (cstr b) argv))"
  using assms
proof (induction "CLI_MAX_ARGC - length argv" arbitrary: b rd wr argv s)
  case 0
  then have k: "CLI_MAX_ARGC - length argv = 0" "length argv \<ge> CLI_MAX_ARGC" by auto
  show ?case
    by (rule scan_inv_cases [OF 0(2)])
      (use 0(2) k in \<open>auto dest: scan_inv_ends simp: stage_ref_def parse_args.simps [of b] k args_spec.simps [of 0]\<close>)
next
  case (Suc n)
  then have k: "\<not> length argv \<ge> CLI_MAX_ARGC" by auto
  show ?case
  proof (rule scan_inv_cases [OF Suc(3)])
    fix t r b' rd' wr' tok
    assume nt: "next_spec s = TS_TOK t r" "next_token b rd wr = Some (NT_TOK b' rd' wr' tok)"
      "length b' = length b" "scan_inv b' rd' wr' (argv @ [tok]) r post"
      "map (cstr b') (argv @ [tok]) = map (cstr b) argv @ [t]" "cstr b' tok = t"
    have n: "n = CLI_MAX_ARGC - length (argv @ [tok])" "length (argv @ [tok]) \<le> CLI_MAX_ARGC"
      using Suc(2) k by auto
    note IH = Suc(1) [OF n(1) nt(4) n(2), folded n(1), unfolded nt(3,5)]
    show ?thesis
      unfolding Suc(2) [symmetric] parse_args.simps [of b] args_spec.simps [of "Suc n"] nt(1,2)
      using IH k by simp
  qed (use Suc(3) k in \<open>auto simp: parse_args.simps [of b] Suc(2) [symmetric]
        args_spec.simps [of "Suc n"]\<close>)
qed

lemma parse_raw_need_refines:
  assumes "scan_inv b rd wr argv s post"
  shows "stage_ref (length b) post (parse_raw_need need b rd wr argv)
    (raw_need_spec need s (map (cstr b) argv))"
  using assms
proof (induction need arbitrary: b rd wr argv s)
  case (Suc need)
  show ?case
  proof (rule scan_inv_cases [OF Suc.prems])
    fix t r b' rd' wr' tok
    assume nt: "next_spec s = TS_TOK t r" "next_token b rd wr = Some (NT_TOK b' rd' wr' tok)"
      "length b' = length b" "scan_inv b' rd' wr' (argv @ [tok]) r post"
      "map (cstr b') (argv @ [tok]) = map (cstr b) argv @ [t]" "cstr b' tok = t"
    from Suc.IH [OF nt(4), unfolded nt(3,5)] nt scan_inv_ends [OF nt(4)] show ?thesis by simp
  qed (use Suc.prems in auto)
qed simp

text \<open>The RAW tail is a pointer into the unread text, so only its string is related.\<close>

lemma parse_raw_tail_refines:
  assumes inv: "scan_inv b rd wr argv s post"
  shows "case raw_tail_spec cap base m s (map (cstr b) argv) of
      SStop e \<Rightarrow> parse_raw_tail cap base m b rd wr argv = Some (Stop b argv e)
    | SGo s' args u \<Rightarrow> \<exists>rd' argv'. parse_raw_tail cap base m b rd wr argv =
        Some (Go b rd' wr argv' ()) \<and> map (cstr b) argv' = args"
proof -
  have b: "drop rd b = s @ 0 # post" and s0: "0 \<notin> set s" using inv by (auto simp: scan_inv_def)
  obtain rd' where sk: "skip_spaces b rd = Some rd'" "drop rd' b = dropWhile is_space s @ 0 # post"
    using skip_spaces_spec [OF b] by blast
  have s0': "0 \<notin> set (dropWhile is_space s)" using s0 by (meson set_dropWhileD)
  have hd: "b ! rd' = 0 \<longleftrightarrow> dropWhile is_space s = []"
    using sk(2) s0' by (cases "dropWhile is_space s") (auto dest: drop_ConsD)
  have "cstr b rd' = dropWhile is_space s" using sk(2) s0' by (rule cstr_drop)
  with sk(1) hd show ?thesis
    by (auto simp: parse_raw_tail_def raw_tail_spec_def)
qed

lemma parse_rest_refines:
  assumes inv: "scan_inv b rd wr argv s post" and len: "length argv \<le> CLI_MAX_ARGC"
  shows "case rest_spec cmd cap base s (map (cstr b) argv) of
      SStop e \<Rightarrow> \<exists>b' argv'. parse_rest cmd cap base b rd wr argv = Some (Stop b' argv' e) \<and>
        length b' = length b \<and> ends b' post
    | SGo s' args u \<Rightarrow> \<exists>b' rd' wr' argv'. parse_rest cmd cap base b rd wr argv =
        Some (Go b' rd' wr' argv' ()) \<and> map (cstr b') argv' = args \<and>
        length b' = length b \<and> ends b' post"
proof (cases "is_raw cmd")
  case False
  then show ?thesis
    using parse_args_refines [OF inv len]
    by (auto simp: rest_spec_def parse_rest_def stage_ref_def split: sstage.splits dest: scan_inv_ends)
next
  case True
  let ?need = "raw_need_spec (cmd_mandatory cmd - 1) s (map (cstr b) argv)"
  have need: "stage_ref (length b) post (parse_raw_need (cmd_mandatory cmd - 1) b rd wr argv) ?need"
    by (rule parse_raw_need_refines [OF inv])
  show ?thesis
  proof (cases ?need)
    case (SStop e)
    with need True show ?thesis
      by (auto simp: rest_spec_def parse_rest_def stage_ref_def)
  next
    case (SGo s' args u)
    with need obtain b' rd' wr' argv' where
      go: "parse_raw_need (cmd_mandatory cmd - 1) b rd wr argv = Some (Go b' rd' wr' argv' u)"
      "map (cstr b') argv' = args" "scan_inv b' rd' wr' argv' s' post" "length b' = length b"
      by (auto simp: stage_ref_def)
    with SGo True scan_inv_ends [OF go(3)] show ?thesis
      using parse_raw_tail_refines [OF go(3), of cap base "cmd_mandatory cmd"]
      by (auto simp: rest_spec_def parse_rest_def split: sstage.splits)
  qed
qed

text \<open>What a caller of \<open>cli_parse\<close> sees: the status, the result and the argument strings.\<close>

definition outcome_ref ::
  "nat \<Rightarrow> u8 list \<Rightarrow> 'h parse_outcome option \<Rightarrow> 'h spec_outcome \<Rightarrow> bool" where
  "outcome_ref len post out spec \<longleftrightarrow>
     (\<exists>b argv res. out = Some (b, argv, fst spec, res) \<and> length b = len \<and> ends b post \<and>
        (case fst (snd spec) of
           None \<Rightarrow> res \<in> {no_result, no_result\<lparr>pr_argv := Some 0, pr_argc := 1\<rparr>} \<and>
             (snd (snd spec) \<noteq> [] \<longrightarrow> map (cstr b) argv = snd (snd spec))
         | Some (c, l) \<Rightarrow> res = result_of c l argv \<and> map (cstr b) argv = snd (snd spec)))"

lemma outcome_ref_simps [simp]:
  "length b = len \<Longrightarrow> ends b post \<Longrightarrow> outcome_ref len post (Some (b, argv, e, no_result)) (e, None, [])"
  "length b = len \<Longrightarrow> ends b post \<Longrightarrow> map (cstr b) argv = args \<Longrightarrow>
    outcome_ref len post (Some (b, argv, e, result_of c l argv)) (e, Some (c, l), args)"
  by (auto simp: outcome_ref_def no_result_def)

lemma parse_finish_refines:
  assumes "scan_inv b rd wr argv s post" "length argv \<le> CLI_MAX_ARGC" "map (cstr b) argv = args"
  shows "outcome_ref (length b) post (parse_finish cap cmd level b rd wr argv)
    (if cmd_handler cmd = None then (CLI_PARSE_NO_HANDLER, Some (cmd, level), args)
     else (case rest_spec cmd cap (level - 1) s args of
             SStop e \<Rightarrow> (e, None, [])
           | SGo s2 args' u \<Rightarrow>
               (args_status cmd (length args' - (level - 1)), Some (cmd, level), args')))"
  using parse_rest_refines [OF assms(1,2), of cmd cap "level - 1"] assms(3) scan_inv_ends [OF assms(1)]
  by (auto simp: parse_finish_def split: sstage.splits)

lemma parse_descend_length:
  assumes "parse_descend cmd level b rd wr argv = Some (Go b' rd' wr' argv' cl)"
    and "length argv \<le> CLI_MAX_ARGC"
  shows "length argv' \<le> CLI_MAX_ARGC"
  using assms
  by (induction cmd level b rd wr argv rule: parse_descend.induct)
    (subst (asm) (2) parse_descend.simps,
      auto split: option.splits next_tok.splits if_splits simp: CLI_MAX_ARGC_def)

lemma cli_parse_outcome:
  assumes "0 \<notin> set s"
  shows "outcome_ref (length (s @ 0 # post)) post (cli_parse roots (s @ 0 # post) cap)
    (cli_parse_spec roots s cap)"
proof (rule scan_inv_cases [OF scan_inv_start [OF assms, of post]])
  fix t r b rd wr tok
  assume nt: "next_spec s = TS_TOK t r"
    "next_token (s @ 0 # post) 0 0 = Some (NT_TOK b rd wr tok)"
    "scan_inv b rd wr ([] @ [tok]) r post" "cstr b tok = t"
    and len_b: "length b = length (s @ 0 # post)"
  show ?thesis
  proof (cases "match_root roots t")
    case None
    with nt show ?thesis
      using len_b scan_inv_ends [OF nt(3)]
      by (auto simp: cli_parse_def cli_parse_spec_def outcome_ref_def no_result_def)
  next
    case (Some c0)
    have len: "length [tok] \<le> CLI_MAX_ARGC" by (simp add: CLI_MAX_ARGC_def)
    have desc: "stage_ref (length (s @ 0 # post)) post (parse_descend c0 1 b rd wr [tok])
      (descend_spec (CLI_MAX_ARGC - 1) c0 1 r [t])"
      using parse_descend_refines [OF nt(3) [simplified] len, of c0 1] nt(4) len_b by simp
    show ?thesis
    proof (cases "descend_spec (CLI_MAX_ARGC - 1) c0 1 r [t]")
      case (SStop e)
      with desc nt Some show ?thesis
        by (auto simp: cli_parse_def cli_parse_spec_def stage_ref_def)
    next
      case (SGo s1 args cl)
      with desc obtain b' rd' wr' argv where
        go: "parse_descend c0 1 b rd wr [tok] = Some (Go b' rd' wr' argv cl)"
        "map (cstr b') argv = args" "scan_inv b' rd' wr' argv s1 post"
        "length b' = length (s @ 0 # post)"
        by (auto simp: stage_ref_def)
      have "length argv \<le> CLI_MAX_ARGC" by (rule parse_descend_length [OF go(1) len])
      note fin = parse_finish_refines [OF go(3) this go(2), of cap, unfolded go(4)]
      obtain c l where cl: "cl = (c, l)" by (cases cl)
      from fin [of c l] go(1) SGo nt Some show ?thesis
        by (simp add: cli_parse_def cli_parse_spec_def cl)
    qed
  qed
qed (auto simp: cli_parse_def cli_parse_spec_def dest: scan_inv_ends)

section \<open>What an accepted line means\<close>

text \<open>The node that a path of names leads to.\<close>

fun walk_sub :: "'h cmd \<Rightarrow> u8 list list \<Rightarrow> 'h cmd option" where
  "walk_sub c [] = Some c"
| "walk_sub c (t # ts) =
     Option.bind (cmd_subcmds c) (\<lambda>subs. Option.bind (match_sub subs t) (\<lambda>c'. walk_sub c' ts))"

definition resolve :: "'h cmd list \<Rightarrow> u8 list list \<Rightarrow> 'h cmd option" where
  "resolve roots path =
     (case path of [] \<Rightarrow> None | t # ts \<Rightarrow> Option.bind (match_root roots t) (\<lambda>c. walk_sub c ts))"

lemma walk_sub_snoc:
  "walk_sub c (ts @ [t]) =
     Option.bind (walk_sub c ts) (\<lambda>c1. Option.bind (cmd_subcmds c1) (\<lambda>subs. match_sub subs t))"
  by (induction ts arbitrary: c) (auto split: bind_splits)

lemma resolve_snoc:
  "resolve roots (ts @ [t]) = (if ts = [] then match_root roots t else
     Option.bind (resolve roots ts) (\<lambda>c1. Option.bind (cmd_subcmds c1) (\<lambda>subs. match_sub subs t)))"
  by (cases ts) (auto simp: resolve_def walk_sub_snoc split: bind_splits)

lemma match_name: "match_root cs t = Some c \<Longrightarrow> cmd_name c = Some t"
  "match_sub cs t = Some c \<Longrightarrow> cmd_name c = Some t"
  by (induction cs) (auto split: if_splits option.splits)

text \<open>
  The node the descent stopped at is the deepest one that the tokens name: the token behind
  it, if there is one, is no subcommand of it.
\<close>

definition deepest :: "'h cmd \<Rightarrow> nat \<Rightarrow> u8 list list \<Rightarrow> bool" where
  "deepest c level args \<longleftrightarrow>
     (\<forall>subs. cmd_subcmds c = Some subs \<longrightarrow> level < length args \<longrightarrow>
        match_sub subs (args ! level) = None)"

lemma descend_spec_sound:
  assumes "descend_spec k c level s args = SGo s' args' (c', level')"
    and "resolve roots args = Some c" and "level = length args" and "args \<noteq> []"
  shows "resolve roots (take level' args') = Some c' \<and> deepest c' level' args' \<and>
    0 < level' \<and> level' \<le> length args' \<and> length args' \<le> length args + k \<and>
    (cmd_subcmds c' \<noteq> None \<longrightarrow> s' = [] \<or> level' < length args') \<and>
    (level \<le> CLI_MAX_SUBCMD_DEPTH + 1 \<longrightarrow> level' \<le> CLI_MAX_SUBCMD_DEPTH + 1)"
  using assms
proof (induction k c level s args rule: descend_spec.induct)
  case (1 k c level s args)
  show ?case
  proof (cases "cmd_subcmds c")
    case None
    with 1 show ?thesis by (auto simp: descend_spec.simps [of k c] deepest_def)
  next
    case (Some subs)
    show ?thesis
    proof (cases "next_spec s")
      case TS_END
      with 1 Some show ?thesis by (auto simp: descend_spec.simps [of k c] deepest_def)
    next
      case (TS_TOK t r)
      with "1.prems"(1) Some obtain k' where k: "k = Suc k'"
        by (cases k) (auto simp: descend_spec.simps [of 0 c])
      show ?thesis
      proof (cases "match_sub subs t")
        case None
        with "1.prems" Some TS_TOK k show ?thesis
          by (auto simp: descend_spec.simps [of "Suc k'" c] deepest_def)
      next
        case (Some sub)
        with "1.prems"(1) TS_TOK k \<open>cmd_subcmds c = Some subs\<close>
        have lv: "\<not> level - 1 \<ge> CLI_MAX_SUBCMD_DEPTH"
          and step: "descend_spec k' sub (level + 1) r (args @ [t]) = SGo s' args' (c', level')"
          by (auto simp: descend_spec.simps [of "Suc k'" c] split: if_splits)
        have "resolve roots (args @ [t]) = Some sub"
          using "1.prems"(2,4) Some \<open>cmd_subcmds c = Some subs\<close> by (simp add: resolve_snoc)
        from "1.IH" [OF \<open>cmd_subcmds c = Some subs\<close> TS_TOK k Some lv step this]
        show ?thesis using "1.prems" lv k by auto
      qed
    qed (use "1.prems" Some in \<open>simp add: descend_spec.simps [of k c]\<close>)
  qed
qed

lemma args_spec_ext:
  "args_spec k s args = SGo s' args' u \<Longrightarrow>
     (\<exists>ext. args' = args @ ext \<and> length ext \<le> k \<and> (s = [] \<longrightarrow> ext = []))"
proof (induction k s args rule: args_spec.induct)
  case (1 k s args)
  then show ?case
    by (cases "next_spec s"; cases k)
      (fastforce simp: args_spec.simps [of _ s] next_spec_def)+
qed

lemma raw_need_spec_ext:
  "raw_need_spec n s args = SGo s' args' u \<Longrightarrow> length args \<le> CLI_MAX_ARGC \<Longrightarrow>
     (\<exists>ext. args' = args @ ext \<and> length args' \<le> CLI_MAX_ARGC)"
  by (induction n s args rule: raw_need_spec.induct)
    (fastforce split: tok_view.splits if_splits)+

lemma rest_spec_ext:
  assumes "rest_spec cmd cap base s args = SGo s' args' u" and "length args \<le> CLI_MAX_ARGC"
  shows "\<exists>ext. args' = args @ ext \<and> (\<not> is_raw cmd \<longrightarrow> s = [] \<longrightarrow> ext = []) \<and>
    length args' \<le> CLI_MAX_ARGC + (if is_raw cmd then 1 else 0)"
proof (cases "is_raw cmd")
  case True
  with assms(1) obtain s1 a1 where r: "raw_need_spec (cmd_mandatory cmd - 1) s args = SGo s1 a1 ()"
    "raw_tail_spec cap base (cmd_mandatory cmd) s1 a1 = SGo s' args' u"
    by (auto simp: rest_spec_def split: sstage.splits)
  from raw_need_spec_ext [OF r(1) assms(2)] r(2) True show ?thesis
    by (auto simp: raw_tail_spec_def split: if_splits)
next
  case False
  with assms args_spec_ext show ?thesis by (fastforce simp: rest_spec_def)
qed

lemma descend_spec_no_OK: "descend_spec k c level s args \<noteq> SStop CLI_PARSE_OK"
  by (induction k c level s args rule: descend_spec.induct)
    (subst descend_spec.simps, auto split: option.splits tok_view.splits nat.splits)

lemma args_spec_no_OK: "args_spec k s args \<noteq> SStop CLI_PARSE_OK"
  by (induction k s args rule: args_spec.induct)
    (subst args_spec.simps, auto split: tok_view.splits nat.splits)

lemma raw_need_spec_no_OK: "raw_need_spec n s args \<noteq> SStop CLI_PARSE_OK"
  by (induction n s args rule: raw_need_spec.induct) (auto split: tok_view.splits)

lemma rest_spec_no_OK: "rest_spec cmd cap base s args \<noteq> SStop CLI_PARSE_OK"
  using args_spec_no_OK raw_need_spec_no_OK
  by (auto simp: rest_spec_def raw_tail_spec_def split: sstage.splits)

text \<open>The contract of an accepted line, on strings.\<close>

definition accepted :: "'h cmd list \<Rightarrow> 'h cmd \<Rightarrow> nat \<Rightarrow> u8 list list \<Rightarrow> bool" where
  "accepted roots c level args \<longleftrightarrow>
     cmd_handler c \<noteq> None \<and> 0 < level \<and> level \<le> length args \<and>
     level \<le> CLI_MAX_SUBCMD_DEPTH + 1 \<and>
     resolve roots (take level args) = Some c \<and> deepest c level args \<and>
     cmd_mandatory c \<le> length args - (level - 1) \<and>
     (\<not> is_raw c \<longrightarrow> length args - (level - 1) \<le> cmd_mandatory c + cmd_optional c) \<and>
     length args + 1 \<le> CLI_ARGV_CAP"

lemma cli_parse_spec_sound:
  assumes "cli_parse_spec roots s cap = (CLI_PARSE_OK, node, args)"
  shows "\<exists>c level. node = Some (c, level) \<and> accepted roots c level args"
proof -
  from assms obtain t r c0 where t: "next_spec s = TS_TOK t r" "match_root roots t = Some c0"
    by (auto simp: cli_parse_spec_def split: tok_view.splits option.splits)
  note no_err = descend_spec_no_OK [of "CLI_MAX_ARGC - 1" c0 1 r "[t]"]
  from assms t no_err obtain s1 args1 c level where
    d: "descend_spec (CLI_MAX_ARGC - 1) c0 1 r [t] = SGo s1 args1 (c, level)"
    by (cases "descend_spec (CLI_MAX_ARGC - 1) c0 1 r [t]") (auto simp: cli_parse_spec_def)
  have res: "resolve roots [t] = Some c0" using t by (simp add: resolve_def)
  note desc = descend_spec_sound [OF d res]
  from assms t d have h: "cmd_handler c \<noteq> None"
    by (auto simp: cli_parse_spec_def split: if_splits)
  from assms t d h rest_spec_no_OK [of c cap "level - 1" s1 args1] obtain s2 u where
    rs: "rest_spec c cap (level - 1) s1 args1 = SGo s2 args u" "node = Some (c, level)"
    "args_status c (length args - (level - 1)) = CLI_PARSE_OK"
    by (cases "rest_spec c cap (level - 1) s1 args1") (auto simp: cli_parse_spec_def)
  have len1: "length args1 \<le> CLI_MAX_ARGC" using desc by (simp add: CLI_MAX_ARGC_def)
  obtain ext where ext: "args = args1 @ ext" "\<not> is_raw c \<longrightarrow> s1 = [] \<longrightarrow> ext = []"
    "length args \<le> CLI_MAX_ARGC + (if is_raw c then 1 else 0)"
    using rest_spec_ext [OF rs(1) len1] by blast
  have "deepest c level args"
    using desc ext unfolding deepest_def is_raw_def by (auto simp: nth_append)
  moreover have "resolve roots (take level args) = Some c"
    using desc ext by simp
  ultimately show ?thesis
    using desc ext rs h
    by (auto simp: accepted_def args_status_def CLI_ARGV_CAP_def split: if_splits)
qed

lemma cli_parse_effect:
  assumes "0 \<notin> set s"
  obtains b argv res where "cli_parse roots (s @ 0 # post) cap =
      Some (b, argv, fst (cli_parse_spec roots s cap), res)"
    and "length b = length (s @ 0 # post)" and "drop (Suc (length s)) b = post"
    and "case cli_parse_spec roots s cap of
       (_, Some (c, l), args) \<Rightarrow> res = result_of c l argv \<and> map (cstr b) argv = args
     | (_, None, args) \<Rightarrow> res \<in> {no_result, no_result\<lparr>pr_argv := Some 0, pr_argc := 1\<rparr>} \<and>
         (args \<noteq> [] \<longrightarrow> map (cstr b) argv = args)"
proof (cases "cli_parse_spec roots s cap")
  case (fields e node args)
  with cli_parse_outcome [OF assms, of post roots cap] ends_same_length [of _ s post] that show ?thesis
    by (cases node) (auto simp: outcome_ref_def)
qed

text \<open>C29. Parsing a NUL-terminated line never faults, and its outcome is that of the parser on
  strings: the same status, the same resolved node and level, and arguments that are the same
  strings, in the buffer it rewrites in place; nothing behind the line's terminator changes.\<close>

theorem cli_parse_refines:
  assumes "0 \<notin> set s"
  shows "\<exists>b argv res. cli_parse roots (s @ 0 # post) cap =
      Some (b, argv, fst (cli_parse_spec roots s cap), res) \<and>
    length b = length (s @ 0 # post) \<and> drop (Suc (length s)) b = post \<and>
    (case cli_parse_spec roots s cap of
       (_, Some (c, l), args) \<Rightarrow> res = result_of c l argv \<and> map (cstr b) argv = args
     | (_, None, args) \<Rightarrow> res \<in> {no_result, no_result\<lparr>pr_argv := Some 0, pr_argc := 1\<rparr>} \<and>
         (args \<noteq> [] \<longrightarrow> map (cstr b) argv = args))"
  by (rule cli_parse_effect [OF assms, of roots post cap]) (intro exI conjI)

text \<open>C30. A line is accepted only for a command that can run it: the resolved node has a handler
  and is the deepest one the leading tokens name, at most nine levels down; the number of
  arguments is between the node's mandatory count and, except for a RAW command, its maximum;
  and the argument vector with its NULL terminator fits the caller's array.\<close>

theorem cli_parse_ok:
  assumes "0 \<notin> set s" and "cli_parse roots (s @ 0 # post) cap = Some (b, argv, CLI_PARSE_OK, res)"
  shows "\<exists>c level. res = result_of c level argv \<and> accepted roots c level (map (cstr b) argv)"
proof -
  obtain e node args where sp: "cli_parse_spec roots s cap = (e, node, args)"
    by (cases "cli_parse_spec roots s cap") auto
  with cli_parse_outcome [OF assms(1), of post roots cap] assms(2) have e: "e = CLI_PARSE_OK"
    by (auto simp: outcome_ref_def)
  from cli_parse_spec_sound [OF sp [unfolded e]] obtain c level where
    "node = Some (c, level)" "accepted roots c level args" by blast
  with cli_parse_outcome [OF assms(1), of post roots cap] assms(2) sp show ?thesis
    by (auto simp: outcome_ref_def)
qed

text \<open>A small tree: \<open>p\<close> with a RAW subcommand \<open>r\<close>.\<close>

definition sample_tree :: "nat cmd list" where
  "sample_tree = [Cmd (Some [112]) None None
     (Some [Cmd (Some [114]) None None None (Some 1) 1 255, Cmd None None None None None 0 0])
     None 0 0]"

lemma cli_parse_refines_witness:
  "\<exists>b argv res. cli_parse sample_tree ([112, 32, 114, 32, 97, 32, 98] @ [0]) CLI_ARGV_CAP =
      Some (b, argv, CLI_PARSE_OK, res) \<and> map (cstr b) argv = [[112], [114], [97, 32, 98]]"
proof -
  have "\<exists>c. cli_parse_spec sample_tree [112, 32, 114, 32, 97, 32, 98] CLI_ARGV_CAP =
      (CLI_PARSE_OK, Some (c, 2), [[112], [114], [97, 32, 98]])"
    by (intro exI) code_simp
  then show ?thesis
    using cli_parse_refines [of "[112, 32, 114, 32, 97, 32, 98]" sample_tree "[]" CLI_ARGV_CAP]
    by fastforce
qed

lemma cli_parse_ok_witness:
  "\<exists>b argv res c level. cli_parse sample_tree ([112, 32, 114] @ [0]) CLI_ARGV_CAP =
      Some (b, argv, CLI_PARSE_OK, res) \<and> accepted sample_tree c level (map (cstr b) argv)"
proof -
  have "\<exists>b argv res. cli_parse sample_tree ([112, 32, 114] @ [0]) CLI_ARGV_CAP =
      Some (b, argv, CLI_PARSE_OK, res)"
    by (intro exI) code_simp
  moreover have "0 \<notin> set [112, 32, 114 :: u8]" by simp
  ultimately show ?thesis using cli_parse_ok by blast
qed

end
