(* ===== verification/CliRegistry.thy ===== *)
theory CliRegistry
  imports Prelude
begin

text \<open>
  The thread-to-instance registry: the decisions of \<open>shell/core/cli_registry.c\<close> and the
  look-up \<open>cli_current_instance\<close> of \<open>shell/core/cli_core.c\<close>. The table is the list of its
  slots and a pointer is its address (\<open>None\<close> is NULL); every operation runs inside one
  critical section, so it is one step on the table. What the readers of the table rely on is
  the locale \<open>thread_routes\<close>.
\<close>

section \<open>The table and its operations\<close>

type_synonym ptr = nat

record reg_entry =
  re_thread :: "ptr option"
  re_sh :: "ptr option"

datatype cli_reg_status =
    CLI_REG_OK
  | CLI_REG_ERR_ARG
  | CLI_REG_ERR_DUP_THREAD
  | CLI_REG_ERR_DUP_INSTANCE
  | CLI_REG_ERR_FULL

definition CLI_THREAD_MAP_MAX :: nat where "CLI_THREAD_MAP_MAX = 6"

text \<open>The one pass: first free slot (the table's length when none was seen), both flags.\<close>

fun reg_scan ::
  "reg_entry list \<Rightarrow> nat \<Rightarrow> nat \<Rightarrow> ptr \<Rightarrow> ptr \<Rightarrow> nat \<times> bool \<times> bool \<Rightarrow> nat \<times> bool \<times> bool" where
  "reg_scan [] i len t sh acc = acc"
| "reg_scan (e # es) i len t sh (free_slot, dup_thread, dup_instance) =
     (if re_sh e = None
      then reg_scan es (i + 1) len t sh
             (if free_slot = len then i else free_slot, dup_thread, dup_instance)
      else reg_scan es (i + 1) len t sh
             (free_slot, dup_thread \<or> re_thread e = Some t, dup_instance \<or> re_sh e = Some sh))"

definition cli_reg_add ::
  "reg_entry list \<Rightarrow> ptr option \<Rightarrow> ptr option \<Rightarrow> reg_entry list \<times> cli_reg_status" where
  "cli_reg_add m t sh =
     (case (t, sh) of
        (Some t, Some sh) \<Rightarrow>
          (case reg_scan m 0 (length m) t sh (length m, False, False) of
             (free_slot, dup_thread, dup_instance) \<Rightarrow>
               if dup_thread then (m, CLI_REG_ERR_DUP_THREAD)
               else if dup_instance then (m, CLI_REG_ERR_DUP_INSTANCE)
               else if free_slot = length m then (m, CLI_REG_ERR_FULL)
               else (m[free_slot := \<lparr>re_thread = Some t, re_sh = Some sh\<rparr>], CLI_REG_OK))
      | _ \<Rightarrow> (m, CLI_REG_ERR_ARG))"

definition cli_reg_strerror :: "cli_reg_status \<Rightarrow> u8 list" where
  "cli_reg_strerror s =
     str (case s of
        CLI_REG_OK \<Rightarrow> ''registered''
      | CLI_REG_ERR_ARG \<Rightarrow> ''invalid argument''
      | CLI_REG_ERR_DUP_THREAD \<Rightarrow> ''that thread is already registered''
      | CLI_REG_ERR_DUP_INSTANCE \<Rightarrow> ''that shell is already registered''
      | CLI_REG_ERR_FULL \<Rightarrow> ''the thread registry is full'')"

fun reg_clear :: "reg_entry list \<Rightarrow> ptr \<Rightarrow> reg_entry list \<times> nat" where
  "reg_clear [] t = ([], 0)"
| "reg_clear (e # es) t =
     (let (es', n) = reg_clear es t in
      if re_thread e \<noteq> Some t then (e # es', n)
      else (\<lparr>re_thread = None, re_sh = None\<rparr> # es', n + 1))"

definition cli_reg_remove :: "reg_entry list \<Rightarrow> ptr option \<Rightarrow> reg_entry list \<times> nat" where
  "cli_reg_remove m t = (case t of None \<Rightarrow> (m, 0) | Some t \<Rightarrow> reg_clear m t)"

text \<open>The scan of \<open>cli_current_instance\<close>; the guard on interrupt context is its caller's.\<close>

fun reg_lookup :: "reg_entry list \<Rightarrow> ptr \<Rightarrow> ptr option" where
  "reg_lookup [] t = None"
| "reg_lookup (e # es) t =
     (if re_thread e = Some t \<and> re_sh e \<noteq> None then re_sh e else reg_lookup es t)"

text \<open>\<open>ipsr\<close> is the exception number and \<open>self\<close> what \<open>tx_thread_identify\<close> returned.\<close>

definition cli_current_instance :: "reg_entry list \<Rightarrow> u32 \<Rightarrow> ptr option \<Rightarrow> ptr option" where
  "cli_current_instance m ipsr self =
     (if ipsr \<noteq> 0 then None
      else case self of None \<Rightarrow> None | Some t \<Rightarrow> reg_lookup m t)"

text \<open>The fields of an instance that the console scan reads, and a row of its answer.\<close>

record console_src =
  cs_fg :: "ptr option"
  cs_prompt :: "u8 list"
  cs_rx_dropped :: u32
  cs_tx_dropped :: u32

record console_stat =
  ct_prompt :: "u8 list"
  ct_rx_dropped :: u32
  ct_tx_dropped :: u32

definition CLI_PROMPT_BUFFER_SIZE :: nat where "CLI_PROMPT_BUFFER_SIZE = 20"

definition console_row :: "console_src \<Rightarrow> console_stat" where
  "console_row s =
     \<lparr>ct_prompt = (take CLI_PROMPT_BUFFER_SIZE (cs_prompt s))[CLI_PROMPT_BUFFER_SIZE - 1 := 0],
      ct_rx_dropped = cs_rx_dropped s, ct_tx_dropped = cs_tx_dropped s\<rparr>"

fun console_scan ::
  "(ptr \<Rightarrow> console_src) \<Rightarrow> reg_entry list \<Rightarrow> nat \<Rightarrow> console_stat list \<Rightarrow> nat \<Rightarrow>
   console_stat list \<times> nat" where
  "console_scan inst [] cap out seen = (out, seen)"
| "console_scan inst (e # es) cap out seen =
     (case re_sh e of
        None \<Rightarrow> console_scan inst es cap out seen
      | Some sh \<Rightarrow>
          if cs_fg (inst sh) \<noteq> None then console_scan inst es cap out seen
          else if length out \<ge> cap then console_scan inst es cap out (seen + 1)
          else console_scan inst es cap (out @ [console_row (inst sh)]) (seen + 1))"

text \<open>\<open>cli_console_collect\<close>: the rows written and the number of consoles found.\<close>

definition cli_console_collect ::
  "(ptr \<Rightarrow> console_src) \<Rightarrow> reg_entry list \<Rightarrow> nat \<Rightarrow> console_stat list \<times> nat" where
  "cli_console_collect inst m cap = console_scan inst m cap [] 0"

section \<open>The decision of a registration\<close>

definition occupied :: "reg_entry list \<Rightarrow> reg_entry list" where
  "occupied m = filter (\<lambda>e. re_sh e \<noteq> None) m"

lemma occupied_simps [simp]: "occupied [] = []"
  "occupied (e # es) = (if re_sh e = None then occupied es else e # occupied es)"
  by (auto simp: occupied_def)

text \<open>The first free slot, the table's length if there is none.\<close>

fun first_free :: "reg_entry list \<Rightarrow> nat" where
  "first_free [] = 0"
| "first_free (e # es) = (if re_sh e = None then 0 else Suc (first_free es))"

lemma first_free_le: "first_free m \<le> length m"
  by (induction m) auto

lemma first_free_free: "first_free m < length m \<Longrightarrow> re_sh (m ! first_free m) = None"
  by (induction m) (auto split: if_splits)

lemma first_free_full: "first_free m = length m \<longleftrightarrow> (\<forall>e\<in>set m. re_sh e \<noteq> None)"
  by (induction m) auto

lemma reg_scan_spec:
  "i + length es = len \<Longrightarrow>
   reg_scan es i len t sh (fs, a, b) =
     (if fs = len then i + first_free es else fs,
      a \<or> Some t \<in> re_thread ` set (occupied es), b \<or> Some sh \<in> re_sh ` set (occupied es))"
  by (induction es arbitrary: i fs a b) auto

text \<open>The status as a function of the whole table, independent of the order of its entries.\<close>

definition reg_decision :: "reg_entry list \<Rightarrow> ptr option \<Rightarrow> ptr option \<Rightarrow> cli_reg_status" where
  "reg_decision m t sh =
     (if t = None \<or> sh = None then CLI_REG_ERR_ARG
      else if t \<in> re_thread ` set (occupied m) then CLI_REG_ERR_DUP_THREAD
      else if sh \<in> re_sh ` set (occupied m) then CLI_REG_ERR_DUP_INSTANCE
      else if \<forall>e\<in>set m. re_sh e \<noteq> None then CLI_REG_ERR_FULL
      else CLI_REG_OK)"

lemma cli_reg_add_eq:
  "cli_reg_add m t sh =
     (let s = reg_decision m t sh in
      (if s = CLI_REG_OK then m[first_free m := \<lparr>re_thread = t, re_sh = sh\<rparr>] else m, s))"
proof (cases "t = None \<or> sh = None")
  case True
  then show ?thesis by (auto simp: cli_reg_add_def reg_decision_def split: option.split)
next
  case False
  then obtain t' sh' where [simp]: "t = Some t'" "sh = Some sh'" by auto
  show ?thesis
    using first_free_full [of m]
    by (auto simp: cli_reg_add_def reg_decision_def reg_scan_spec Let_def)
qed

text \<open>Permuting the table does not change the decision.\<close>

lemma reg_decision_perm:
  assumes "set m = set m'"
  shows "reg_decision m t sh = reg_decision m' t sh"
proof -
  have "set (occupied m) = set (occupied m')" using assms by (simp add: occupied_def)
  with assms show ?thesis by (simp only: reg_decision_def)
qed

section \<open>The invariant\<close>

text \<open>Among the occupied slots no thread and no instance occurs twice, and none is NULL.\<close>

definition reg_ok :: "reg_entry list \<Rightarrow> bool" where
  "reg_ok m \<longleftrightarrow> distinct (map re_thread (occupied m)) \<and> distinct (map re_sh (occupied m)) \<and>
     None \<notin> re_thread ` set (occupied m)"

lemma occupied_update:
  assumes "first_free m < length m" and "re_sh e \<noteq> None"
  shows "\<exists>xs ys. occupied m = xs @ ys \<and> occupied (m[first_free m := e]) = xs @ e # ys"
  using assms
proof (induction m)
  case (Cons a m)
  show ?case
  proof (cases "re_sh a = None")
    case True
    with Cons.prems show ?thesis
      by (intro exI [of _ "[]"] exI [of _ "occupied m"]) simp
  next
    case False
    with Cons obtain xs ys where "occupied m = xs @ ys"
      "occupied (m[first_free m := e]) = xs @ e # ys" by auto
    with False show ?thesis by (intro exI [of _ "a # xs"] exI [of _ ys]) simp
  qed
qed simp

lemma first_free_less: "reg_decision m t sh = CLI_REG_OK \<Longrightarrow> first_free m < length m"
  using first_free_le [of m] first_free_full [of m]
  by (auto simp: reg_decision_def split: if_splits)

lemma reg_add_ok: "reg_ok m \<Longrightarrow> reg_ok (fst (cli_reg_add m t sh))"
proof (cases "reg_decision m t sh = CLI_REG_OK")
  case True
  assume ok: "reg_ok m"
  from True have tsh: "t \<noteq> None" "sh \<noteq> None" "t \<notin> re_thread ` set (occupied m)"
    "sh \<notin> re_sh ` set (occupied m)" by (auto simp: reg_decision_def split: if_splits)
  let ?e = "\<lparr>re_thread = t, re_sh = sh\<rparr>"
  obtain xs ys where "occupied m = xs @ ys" "occupied (m[first_free m := ?e]) = xs @ ?e # ys"
    using occupied_update [OF first_free_less [OF True], of ?e] tsh by auto
  with ok tsh True show ?thesis by (auto simp: cli_reg_add_eq reg_ok_def Let_def)
qed (simp add: cli_reg_add_eq Let_def)

lemma reg_clear_occupied:
  "occupied (fst (reg_clear m t)) = filter (\<lambda>e. re_thread e \<noteq> Some t) (occupied m)"
  by (induction m) (auto simp: case_prod_beta Let_def)

lemma reg_remove_ok: "reg_ok m \<Longrightarrow> reg_ok (fst (cli_reg_remove m t))"
  by (auto simp: cli_reg_remove_def reg_ok_def reg_clear_occupied distinct_map_filter
      split: option.split)

section \<open>Routing\<close>

text \<open>
  What a reader needs: adding a fresh thread routes it and nobody else, removing a thread
  unroutes it and nobody else, and a refused registration changes no route.
\<close>

locale thread_routes =
  fixes add :: "'m \<Rightarrow> 't option \<Rightarrow> 'i option \<Rightarrow> 'm \<times> cli_reg_status"
    and remove :: "'m \<Rightarrow> 't option \<Rightarrow> 'm \<times> nat"
    and route :: "'m \<Rightarrow> 't \<Rightarrow> 'i option"
    and inv :: "'m \<Rightarrow> bool"
  assumes add_inv: "inv m \<Longrightarrow> inv (fst (add m to so))"
    and remove_inv: "inv m \<Longrightarrow> inv (fst (remove m to))"
    and add_accepted: "inv m \<Longrightarrow> snd (add m (Some t) (Some sh)) = CLI_REG_OK \<Longrightarrow>
      route (fst (add m (Some t) (Some sh))) = (route m)(t \<mapsto> sh)"
    and add_refused: "snd (add m to so) \<noteq> CLI_REG_OK \<Longrightarrow> fst (add m to so) = m"
    and add_null: "to = None \<or> so = None \<Longrightarrow> snd (add m to so) \<noteq> CLI_REG_OK"
    and add_twice: "inv m \<Longrightarrow> route m t \<noteq> None \<Longrightarrow> snd (add m (Some t) so) \<noteq> CLI_REG_OK"
    and remove_route: "inv m \<Longrightarrow> route (fst (remove m (Some t))) = (route m)(t := None)"
    and remove_null: "fst (remove m None) = m"

datatype ('t, 'i) reg_op = Reg_add "'t option" "'i option" | Reg_remove "'t option"

fun reg_step ::
  "('m \<Rightarrow> 't option \<Rightarrow> 'i option \<Rightarrow> 'm \<times> cli_reg_status) \<Rightarrow> ('m \<Rightarrow> 't option \<Rightarrow> 'm \<times> nat) \<Rightarrow>
   'm \<Rightarrow> ('t, 'i) reg_op \<Rightarrow> 'm" where
  "reg_step add remove m (Reg_add t sh) = fst (add m t sh)"
| "reg_step add remove m (Reg_remove t) = fst (remove m t)"

context thread_routes
begin

lemma step_inv: "inv m \<Longrightarrow> inv (reg_step add remove m op)"
  by (cases op) (simp_all add: add_inv remove_inv)

lemma step_keeps:
  assumes "inv m" and "route m t = Some sh" and "op \<noteq> Reg_remove (Some t)"
  shows "route (reg_step add remove m op) t = Some sh"
proof (cases op)
  case (Reg_add t' sh')
  show ?thesis
  proof (cases "snd (add m t' sh') = CLI_REG_OK")
    case True
    with add_null [of t' sh' m] obtain t1 sh1 where [simp]: "t' = Some t1" "sh' = Some sh1"
      by (cases t'; cases sh') auto
    have "t1 \<noteq> t" using add_twice [OF assms(1), of t sh'] assms(2) True by auto
    with True add_accepted [OF assms(1), of t1 sh1] Reg_add assms(2) show ?thesis by simp
  next
    case False
    with add_refused [OF False] Reg_add assms(2) show ?thesis by simp
  qed
next
  case (Reg_remove t')
  with assms remove_route [OF assms(1)] remove_null [of m] show ?thesis by (cases t') auto
qed

lemma run_keeps:
  assumes "inv m" and "route m t = Some sh" and "Reg_remove (Some t) \<notin> set ops"
  shows "route (foldl (reg_step add remove) m ops) t = Some sh"
  using assms
proof (induction ops arbitrary: m)
  case (Cons op ops)
  then have "op \<noteq> Reg_remove (Some t)" by auto
  with Cons show ?case by (simp add: step_inv step_keeps)
qed simp

end

lemma reg_lookup_occupied:
  "reg_lookup m t = Option.bind (find (\<lambda>e. re_thread e = Some t) (occupied m)) re_sh"
  by (induction m) auto

lemma find_update_other:
  "\<not> P e \<Longrightarrow> find P (xs @ e # ys) = find P (xs @ ys)"
  by (induction xs) auto

lemma find_update_new:
  "P e \<Longrightarrow> \<forall>x\<in>set xs. \<not> P x \<Longrightarrow> find P (xs @ e # ys) = Some e"
  by (induction xs) auto

lemma reg_route_add:
  assumes "snd (cli_reg_add m (Some t) (Some sh)) = CLI_REG_OK"
  shows "reg_lookup (fst (cli_reg_add m (Some t) (Some sh))) = (reg_lookup m)(t \<mapsto> sh)"
proof -
  from assms have ok: "reg_decision m (Some t) (Some sh) = CLI_REG_OK"
    by (simp add: cli_reg_add_eq Let_def)
  then have nt: "Some t \<notin> re_thread ` set (occupied m)"
    by (auto simp: reg_decision_def split: if_splits)
  let ?e = "\<lparr>re_thread = Some t, re_sh = Some sh\<rparr>"
  obtain xs ys where o: "occupied m = xs @ ys" "occupied (m[first_free m := ?e]) = xs @ ?e # ys"
    using occupied_update [OF first_free_less [OF ok], of ?e] by auto
  have "\<forall>x\<in>set xs. re_thread x \<noteq> Some t" using nt o by force
  with ok o show ?thesis
    by (auto simp: fun_eq_iff cli_reg_add_eq Let_def reg_lookup_occupied find_update_other
        find_update_new)
qed

lemma find_filter_other:
  "(\<And>x. P x \<Longrightarrow> Q x) \<Longrightarrow> find P (filter Q xs) = find P xs"
  by (induction xs) auto

lemma reg_route_remove:
  "reg_lookup (fst (cli_reg_remove m (Some t))) = (reg_lookup m)(t := None)"
proof
  fix u
  show "reg_lookup (fst (cli_reg_remove m (Some t))) u = ((reg_lookup m)(t := None)) u"
  proof (cases "u = t")
    case True
    have "find (\<lambda>e. re_thread e = Some t) (filter (\<lambda>e. re_thread e \<noteq> Some t) (occupied m)) = None"
      by (simp add: find_None_iff)
    with True show ?thesis
      by (simp add: cli_reg_remove_def reg_lookup_occupied reg_clear_occupied)
  next
    case False
    then have "find (\<lambda>e. re_thread e = Some u) (filter (\<lambda>e. re_thread e \<noteq> Some t) (occupied m)) =
        find (\<lambda>e. re_thread e = Some u) (occupied m)"
      by (intro find_filter_other) auto
    with False show ?thesis
      by (simp add: cli_reg_remove_def reg_lookup_occupied reg_clear_occupied)
  qed
qed

lemma reg_add_twice:
  assumes "reg_lookup m t \<noteq> None"
  shows "snd (cli_reg_add m (Some t) sh) \<noteq> CLI_REG_OK"
proof -
  from assms obtain e where "e \<in> set (occupied m)" "re_thread e = Some t"
    by (auto simp: reg_lookup_occupied find_Some_iff bind_eq_Some_conv in_set_conv_nth)
  then have "Some t \<in> re_thread ` set (occupied m)" by force
  then show ?thesis by (simp add: cli_reg_add_eq Let_def reg_decision_def)
qed

interpretation reg: thread_routes cli_reg_add cli_reg_remove reg_lookup reg_ok
proof unfold_locales
  show "snd (cli_reg_add m t sh) \<noteq> CLI_REG_OK \<Longrightarrow> fst (cli_reg_add m t sh) = m" for m t sh
    by (auto simp: cli_reg_add_eq Let_def)
  show "t = None \<or> sh = None \<Longrightarrow> snd (cli_reg_add m t sh) \<noteq> CLI_REG_OK" for m t sh
    by (auto simp: cli_reg_add_eq Let_def reg_decision_def)
  show "fst (cli_reg_remove m None) = m" for m
    by (simp add: cli_reg_remove_def)
qed (simp_all add: reg_add_ok reg_remove_ok reg_route_add reg_route_remove reg_add_twice)

text \<open>The outcome of a registration is decided from the whole table and not from the order
  of its slots, in the order bad argument, duplicate thread, duplicate instance, full, added; a
  refusal leaves the table as it was, and either way no thread and no instance is in two
  occupied slots.\<close>

theorem cli_reg_add_decision:
  assumes "reg_ok m" and "cli_reg_add m t sh = (m', s)"
  shows "s = (if t = None \<or> sh = None then CLI_REG_ERR_ARG
        else if \<exists>e\<in>set m. re_sh e \<noteq> None \<and> re_thread e = t then CLI_REG_ERR_DUP_THREAD
        else if \<exists>e\<in>set m. re_sh e = sh then CLI_REG_ERR_DUP_INSTANCE
        else if \<forall>e\<in>set m. re_sh e \<noteq> None then CLI_REG_ERR_FULL
        else CLI_REG_OK) \<and>
    (s \<noteq> CLI_REG_OK \<longrightarrow> m' = m) \<and> reg_ok m' \<and> length m' = length m"
proof (intro conjI)
  have "t \<in> re_thread ` set (occupied m) \<longleftrightarrow> (\<exists>e\<in>set m. re_sh e \<noteq> None \<and> re_thread e = t)"
    by (auto simp: occupied_def)
  moreover have "sh \<in> re_sh ` set (occupied m) \<longleftrightarrow> (\<exists>e\<in>set m. re_sh e = sh)" if "sh \<noteq> None"
    using that by (force simp: occupied_def)
  moreover have "s = reg_decision m t sh" using assms(2) by (simp add: cli_reg_add_eq Let_def)
  ultimately show "s = (if t = None \<or> sh = None then CLI_REG_ERR_ARG
        else if \<exists>e\<in>set m. re_sh e \<noteq> None \<and> re_thread e = t then CLI_REG_ERR_DUP_THREAD
        else if \<exists>e\<in>set m. re_sh e = sh then CLI_REG_ERR_DUP_INSTANCE
        else if \<forall>e\<in>set m. re_sh e \<noteq> None then CLI_REG_ERR_FULL
        else CLI_REG_OK)"
    by (simp only: reg_decision_def) auto
  show "s \<noteq> CLI_REG_OK \<longrightarrow> m' = m" "length m' = length m"
    using assms(2) by (auto simp: cli_reg_add_eq Let_def)
  show "reg_ok m'" using reg_add_ok [OF assms(1), of t sh] assms(2) by simp
qed

lemma cli_reg_add_decision_witness:
  "snd (cli_reg_add [\<lparr>re_thread = Some 1, re_sh = Some 2\<rparr>, \<lparr>re_thread = None, re_sh = None\<rparr>]
      (Some 1) (Some 4)) = CLI_REG_ERR_DUP_THREAD"
  using cli_reg_add_decision [of "[\<lparr>re_thread = Some 1, re_sh = Some 2\<rparr>,
    \<lparr>re_thread = None, re_sh = None\<rparr>]" "Some 1" "Some 4"
    "fst (cli_reg_add [\<lparr>re_thread = Some 1, re_sh = Some 2\<rparr>,
      \<lparr>re_thread = None, re_sh = None\<rparr>] (Some 1) (Some 4))"
    "snd (cli_reg_add [\<lparr>re_thread = Some 1, re_sh = Some 2\<rparr>,
      \<lparr>re_thread = None, re_sh = None\<rparr>] (Some 1) (Some 4))"]
  by (simp add: reg_ok_def)

text \<open>C36. Output is routed to the right terminal: once a thread is registered for an instance,
  \<open>cli_current_instance\<close> answers that instance on that thread (and NULL in interrupt context)
  after any sequence of registrations and removals by others, accepted or refused, until the
  thread itself is removed.\<close>

theorem cli_current_instance_routes:
  assumes "reg_ok m" and "snd (cli_reg_add m (Some t) (Some sh)) = CLI_REG_OK"
    and "Reg_remove (Some t) \<notin> set ops"
  shows "cli_current_instance
      (foldl (reg_step cli_reg_add cli_reg_remove) (fst (cli_reg_add m (Some t) (Some sh))) ops)
      ipsr (Some t) = (if ipsr = 0 then Some sh else None)"
  using reg.run_keeps [OF reg.add_inv [OF assms(1)] _ assms(3), of "Some t" "Some sh" sh]
    reg.add_accepted [OF assms(1,2)]
  by (simp add: cli_current_instance_def)

lemma cli_current_instance_routes_witness:
  "cli_current_instance
    (foldl (reg_step cli_reg_add cli_reg_remove)
      (fst (cli_reg_add (replicate 6 \<lparr>re_thread = None, re_sh = None\<rparr>) (Some 7) (Some 8)))
      [Reg_add (Some 7) (Some 9), Reg_remove (Some 3), Reg_add (Some 5) (Some 6)])
    0 (Some 7) = Some 8"
  using cli_current_instance_routes [of "replicate 6 \<lparr>re_thread = None, re_sh = None\<rparr>" 7 8
    "[Reg_add (Some 7) (Some 9), Reg_remove (Some 3), Reg_add (Some 5) (Some 6)]" 0]
  by (simp add: reg_ok_def cli_reg_add_def numeral_eq_Suc)

section \<open>The console listing\<close>

definition consoles :: "(ptr \<Rightarrow> console_src) \<Rightarrow> reg_entry list \<Rightarrow> console_stat list" where
  "consoles inst m =
     map console_row (filter (\<lambda>s. cs_fg s = None) (map (inst \<circ> the \<circ> re_sh) (occupied m)))"

lemma console_scan_spec:
  "length out \<le> cap \<Longrightarrow> console_scan inst m cap out seen =
    (out @ take (cap - length out) (consoles inst m), seen + length (consoles inst m))"
proof (induction inst m cap out seen rule: console_scan.induct)
  case (2 inst e es cap out seen)
  then show ?case
    by (cases "re_sh e") (auto simp: consoles_def take_Cons' split: if_splits)
qed (simp add: consoles_def)

text \<open>The console listing reports one row per registered interactive instance in table order
  (background workers are left out), as many as fit, and the number found is the number there
  are, so a caller can tell a truncated answer.\<close>

theorem cli_console_collect_rows:
  "cli_console_collect inst m cap =
    (take cap (map console_row (filter (\<lambda>s. cs_fg s = None)
       (map (\<lambda>e. inst (the (re_sh e))) (filter (\<lambda>e. re_sh e \<noteq> None) m)))),
     length (filter (\<lambda>e. re_sh e \<noteq> None \<and> cs_fg (inst (the (re_sh e))) = None) m))"
proof -
  have "length (filter (\<lambda>s. cs_fg s = None)
       (map (\<lambda>e. inst (the (re_sh e))) (filter (\<lambda>e. re_sh e \<noteq> None) m))) =
    length (filter (\<lambda>e. re_sh e \<noteq> None \<and> cs_fg (inst (the (re_sh e))) = None) m)"
    by (induction m) auto
  then show ?thesis
    by (simp add: cli_console_collect_def console_scan_spec consoles_def occupied_def o_def)
qed

end
