(* ===== verification/CliInstance.thy ===== *)
theory CliInstance
  imports CliSegments CliParse CliRegistry
begin

text \<open>
  The state of one shell instance (\<open>struct cli_instance\<close>, \<open>shell/include/cli_instance.h\<close>)
  and its staged output path (\<open>shell/core/cli_printf.c\<close>). The output path only works on the
  sub-record \<open>txs\<close>; everything behind the transport and the mutex (the backend, ThreadX, the
  other threads) is the type of worlds \<open>'w\<close> and is reached through the functions of
  \<open>env\<close>.
\<close>

section \<open>The instance\<close>

definition CLI_CMD_BUFFER_SIZE :: nat where "CLI_CMD_BUFFER_SIZE = 256"
definition CLI_HISTORY_BUFFER_SIZE :: nat where "CLI_HISTORY_BUFFER_SIZE = 512"
definition CLI_PRINTF_BUFFER_SIZE :: nat where "CLI_PRINTF_BUFFER_SIZE = 32"
definition CLI_TERM_WIDTH :: nat where "CLI_TERM_WIDTH = 80"
definition CLI_DISPATCH_ERR :: int where "CLI_DISPATCH_ERR = -1"
definition CLI_DISPATCH_CANCELLED :: int where "CLI_DISPATCH_CANCELLED = -2"

datatype cli_rx_state = CLI_RX_NORMAL | CLI_RX_ESC | CLI_RX_CSI | CLI_RX_SS3

text \<open>What the output path and a running command touch.\<close>

record 'w txs =
  out_buf :: "u8 list"
  out_len :: nat
  tx_failed :: bool
  dispatching :: bool
  cancel_req :: bool
  tx_dropped :: u32
  world :: 'w

record 'w cli_instance =
  line :: "u8 list"
  len :: nat
  cur :: nat
  overwrite :: bool
  hist :: "u8 list"
  hist_used :: nat
  hist_nav_on :: bool
  hist_nav :: nat
  rx :: cli_rx_state
  prev_cr :: bool
  esc_p0 :: u16
  esc_p1 :: u16
  esc_np :: nat
  esc_bad :: bool
  bs_swap :: bool
  term_width :: nat
  old_rows :: nat
  draw_row :: nat
  probing_cpr :: bool
  tab_list_armed :: bool
  render_dirty :: bool
  prompt :: "u8 list"
  last_result :: int
  tx :: "'w txs"

text \<open>
  The environment of an instance: the TX mutex (\<open>tx_mutex_get\<close>, and the release with the
  transport's flush hook), the blocking send of \<open>cli_core.c\<close> (whether everything was sent) and
  a non-blocking read of the transport.
\<close>

record 'w env =
  e_lock :: "'w \<Rightarrow> bool \<times> 'w"
  e_unlock :: "'w \<Rightarrow> 'w"
  e_send :: "u8 list \<Rightarrow> 'w txs \<Rightarrow> bool \<times> 'w txs"
  e_read :: "nat \<Rightarrow> 'w \<Rightarrow> u8 list \<times> 'w"

section \<open>Staged output\<close>

definition cli_lock :: "'w env \<Rightarrow> 'w txs \<Rightarrow> bool \<times> 'w txs" where
  "cli_lock E t = (let (ok, w) = e_lock E (world t) in (ok, t\<lparr>world := w\<rparr>))"

definition cli_unlock :: "'w env \<Rightarrow> 'w txs \<Rightarrow> 'w txs" where
  "cli_unlock E t = t\<lparr>world := e_unlock E (world t)\<rparr>"

definition cli_out_flush :: "'w env \<Rightarrow> 'w txs \<Rightarrow> 'w txs" where
  "cli_out_flush E t =
     (if out_len t = 0 then t
      else (let t1 = (if \<not> tx_failed t
                      then (let (ok, t') = e_send E (take (out_len t) (out_buf t)) t in
                            if ok then t' else t'\<lparr>tx_failed := True\<rparr>)
                      else t)
            in t1\<lparr>out_len := 0\<rparr>))"

definition cli_out_discard :: "'w txs \<Rightarrow> 'w txs" where
  "cli_out_discard t = t\<lparr>out_len := 0\<rparr>"

definition cli_out_putc :: "'w env \<Rightarrow> 'w txs \<Rightarrow> u8 \<Rightarrow> 'w txs option" where
  "cli_out_putc E t c =
     (if tx_failed t then Some t
      else map_option (\<lambda>b. let t' = t\<lparr>out_buf := b, out_len := out_len t + 1\<rparr> in
                           if out_len t' \<ge> CLI_PRINTF_BUFFER_SIZE then cli_out_flush E t' else t')
             (st (out_buf t) (out_len t) c))"

fun cli_out_bytes :: "'w env \<Rightarrow> 'w txs \<Rightarrow> u8 list \<Rightarrow> 'w txs option" where
  "cli_out_bytes E t [] = Some t"
| "cli_out_bytes E t (c # cs) = Option.bind (cli_out_putc E t c) (\<lambda>t'. cli_out_bytes E t' cs)"

text \<open>
  The output bracket of an interactive instance (\<open>cli_out_begin\<close> with \<open>fg == NULL\<close>), and of
  a background worker, which also breaks the line of its foreground \<open>f\<close>.
\<close>

definition cli_out_begin :: "'w env \<Rightarrow> 'w txs \<Rightarrow> bool \<times> 'w txs" where
  "cli_out_begin E t =
     (case cli_lock E t of
        (ok, t') \<Rightarrow> if ok then (True, t') else (False, t'\<lparr>tx_failed := True\<rparr>))"

definition cli_out_begin_job ::
  "'w env \<Rightarrow> 'w txs \<Rightarrow> 'w cli_instance \<Rightarrow> bool \<times> 'w txs \<times> 'w cli_instance" where
  "cli_out_begin_job E t f =
     (case cli_lock E t of
        (ok, t') \<Rightarrow>
          if \<not> ok then (False, t'\<lparr>tx_failed := True\<rparr>, f)
          else if \<not> render_dirty f
          then (True, snd (e_send E [13, 10] t'),
                f\<lparr>old_rows := 0, draw_row := 0, render_dirty := True\<rparr>)
          else (True, t', f))"

definition cli_out_end :: "'w env \<Rightarrow> 'w txs \<Rightarrow> 'w txs" where
  "cli_out_end E t = cli_unlock E t"

text \<open>
  \<open>cli_write\<close>, and \<open>vemit\<close> with its colour and the bytes the formatter produced; the result
  is 0 or -1.
\<close>

definition cli_write :: "'w env \<Rightarrow> 'w txs \<Rightarrow> u8 list \<Rightarrow> (int \<times> 'w txs) option" where
  "cli_write E t bs =
     (case cli_out_begin E t of
        (ok, t1) \<Rightarrow>
          if \<not> ok then Some (-1, t1)
          else map_option (\<lambda>t2. let t3 = cli_out_flush E t2 in
                                (if tx_failed t3 then -1 else 0, cli_out_end E t3))
                 (cli_out_bytes E t1 bs))"

definition VT100_RED :: "u8 list" where "VT100_RED = 27 # str ''[31m''"
definition VT100_YELLOW :: "u8 list" where "VT100_YELLOW = 27 # str ''[33m''"
definition VT100_GREEN :: "u8 list" where "VT100_GREEN = 27 # str ''[32m''"
definition VT100_RESET :: "u8 list" where "VT100_RESET = 27 # str ''[0m''"

definition vemit ::
  "'w env \<Rightarrow> 'w txs \<Rightarrow> u8 list \<Rightarrow> u8 list \<Rightarrow> (int \<times> 'w txs) option" where
  "vemit E t color bs =
     cli_write E t (color @ bs @ (if color \<noteq> [] then VT100_RESET else []))"

definition cli_print :: "'w env \<Rightarrow> 'w txs \<Rightarrow> u8 list \<Rightarrow> (int \<times> 'w txs) option" where
  "cli_print E t bs = vemit E t [] bs"

definition cli_error :: "'w env \<Rightarrow> 'w txs \<Rightarrow> u8 list \<Rightarrow> (int \<times> 'w txs) option" where
  "cli_error E t bs = vemit E t VT100_RED bs"

definition cli_warn :: "'w env \<Rightarrow> 'w txs \<Rightarrow> u8 list \<Rightarrow> (int \<times> 'w txs) option" where
  "cli_warn E t bs = vemit E t VT100_YELLOW bs"

definition cli_info :: "'w env \<Rightarrow> 'w txs \<Rightarrow> u8 list \<Rightarrow> (int \<times> 'w txs) option" where
  "cli_info E t bs = vemit E t VT100_GREEN bs"

section \<open>The output path never faults\<close>

text \<open>
  The invariant of the staging buffer, and what the environment's send must keep of it: it
  neither shrinks the buffer nor fills it.
\<close>

definition txs_ok :: "'w txs \<Rightarrow> bool" where
  "txs_ok t \<longleftrightarrow> length (out_buf t) = CLI_PRINTF_BUFFER_SIZE \<and> out_len t < CLI_PRINTF_BUFFER_SIZE"

definition env_ok :: "'w env \<Rightarrow> bool" where
  "env_ok E \<longleftrightarrow> (\<forall>bs t. out_buf (snd (e_send E bs t)) = out_buf t)"

text \<open>
  An output call that ends leaves the staging buffer legal and empty, and its result says
  whether output was dropped.
\<close>

lemma e_send_fields:
  "env_ok E \<Longrightarrow> out_buf (snd (e_send E bs t)) = out_buf t"
  by (simp add: env_ok_def)

lemma cli_out_flush_ok:
  assumes "env_ok E" and "length (out_buf t) = CLI_PRINTF_BUFFER_SIZE"
  shows "txs_ok (cli_out_flush E t) \<and> out_len (cli_out_flush E t) = 0"
  using assms
  by (auto simp: cli_out_flush_def txs_ok_def CLI_PRINTF_BUFFER_SIZE_def Let_def e_send_fields
      split: prod.split dest: e_send_fields [of E "take (out_len t) (out_buf t)" t])

lemma cli_out_putc_ok:
  assumes "env_ok E" and "txs_ok t"
  shows "\<exists>t'. cli_out_putc E t c = Some t' \<and> txs_ok t'"
  using assms cli_out_flush_ok [OF assms(1)]
  by (auto simp: cli_out_putc_def txs_ok_def st_def Let_def)

lemma cli_out_bytes_ok:
  assumes "env_ok E" and "txs_ok t"
  shows "\<exists>t'. cli_out_bytes E t bs = Some t' \<and> txs_ok t'"
  using assms(2)
proof (induction bs arbitrary: t)
  case (Cons c bs)
  obtain t1 where "cli_out_putc E t c = Some t1" "txs_ok t1"
    using cli_out_putc_ok [OF assms(1) Cons.prems] by blast
  with Cons.IH [of t1] show ?case by simp
qed simp

lemma txs_ok_lock [simp]: "txs_ok (snd (cli_lock E t)) = txs_ok t" "txs_ok (cli_unlock E t) = txs_ok t"
  by (simp_all add: cli_lock_def cli_unlock_def txs_ok_def case_prod_beta)

lemma cli_write_ok:
  assumes "env_ok E" and "txs_ok t"
  shows "\<exists>r t'. cli_write E t bs = Some (r, t') \<and> txs_ok t' \<and> (r = -1 \<longleftrightarrow> tx_failed t') \<and>
    (r = 0 \<or> r = -1)"
proof (cases "cli_lock E t")
  case (Pair ok t1)
  have t1: "txs_ok t1" using txs_ok_lock(1) [of E t] assms(2) Pair by simp
  obtain t2 where t2: "cli_out_bytes E t1 bs = Some t2" "txs_ok t2"
    using cli_out_bytes_ok [OF assms(1) t1] by blast
  have "txs_ok (cli_out_flush E t2)"
    using cli_out_flush_ok [OF assms(1)] t2(2) by (simp add: txs_ok_def)
  with t1 t2 Pair show ?thesis
    by (auto simp: cli_write_def cli_out_begin_def cli_out_end_def cli_unlock_def Let_def txs_ok_def)
qed

end
