(* ===== verification/CliRender.thy ===== *)
theory CliRender
  imports CliInstance
begin

text \<open>
  The repaint half of \<open>shell/core/cli_edit.c\<close>: the escape-sequence builder, the full refresh
  and the cursor-only move. Each runs on the staged output path and then records where the
  render ended.
\<close>

section \<open>Escape sequences\<close>

text \<open>The digit loop of \<open>e_csi_n\<close>: at most three digits, least significant first.\<close>

fun csi_digits :: "nat \<Rightarrow> nat \<Rightarrow> u8 list" where
  "csi_digits 0 n = []"
| "csi_digits (Suc k) n = (if n = 0 then [] else of_nat (48 + n mod 10) # csi_digits k (n div 10))"

definition csi_n :: "nat \<Rightarrow> u8 \<Rightarrow> u8 list" where
  "csi_n n final = [27, 91] @ (if n = 0 then [48] else rev (csi_digits 3 n)) @ [final]"

definition e_csi_n :: "'w env \<Rightarrow> 'w txs \<Rightarrow> nat \<Rightarrow> u8 \<Rightarrow> 'w txs option" where
  "e_csi_n E t n final = cli_out_bytes E t (csi_n n final)"

definition CLR_LINE :: "u8 list" where "CLR_LINE = 27 # str ''[2K''"
definition CLR_SCREEN :: "u8 list" where "CLR_SCREEN = 27 # str ''[2J'' @ 27 # str ''[H''"
definition CPR_PROBE :: "u8 list" where "CPR_PROBE = 27 # str ''[999C'' @ 27 # str ''[6n''"

definition edit_cols :: "'w cli_instance \<Rightarrow> nat" where
  "edit_cols s = (if term_width s \<noteq> 0 then term_width s else CLI_TERM_WIDTH)"

section \<open>Refresh and reposition\<close>

text \<open>The bytes of a refresh: erase the old render, paint prompt and line, move the cursor.\<close>

definition refresh_erase :: "nat \<Rightarrow> nat \<Rightarrow> u8 list" where
  "refresh_erase orows drow =
     (if orows > 0
      then (let down = unat (of_nat (orows - 1) - of_nat drow :: u32) in
            (if down \<noteq> 0 then csi_n down 66 else []) @
            concat (replicate (orows - 1) (13 # CLR_LINE @ csi_n 1 65)) @ 13 # CLR_LINE)
      else [13])"

definition refresh_bytes ::
  "nat \<Rightarrow> nat \<Rightarrow> nat \<Rightarrow> u8 list \<Rightarrow> u8 list \<Rightarrow> nat \<Rightarrow> u8 list" where
  "refresh_bytes cols orows drow prm ln cu =
     (let plen = length prm; pend = plen + length ln; pcur = plen + cu;
          end_row = pend div cols; tgt_row = pcur div cols; tgt_col = pcur mod cols in
      refresh_erase orows drow @ prm @ ln @
      (if pend > 0 \<and> pend mod cols = 0 then [13, 10] else []) @
      (if end_row > tgt_row then csi_n (end_row - tgt_row) 65 else []) @
      13 # (if tgt_col \<noteq> 0 then csi_n tgt_col 67 else []))"

definition cli_edit_refresh :: "'w env \<Rightarrow> 'w cli_instance \<Rightarrow> 'w cli_instance option" where
  "cli_edit_refresh E s =
     (let cols = edit_cols s; plen = length (prompt s) in
      case cli_lock E (tx s) of
        (ok, t) \<Rightarrow>
          if \<not> ok then Some (s\<lparr>tx := t\<lparr>tx_failed := True\<rparr>\<rparr>)
          else map_option
                 (\<lambda>t'. s\<lparr>old_rows := ((plen + len s) div cols + 1) mod 256,
                         draw_row := ((plen + cur s) div cols) mod 256,
                         tx := cli_unlock E (cli_out_flush E t')\<rparr>)
                 (cli_out_bytes E t
                   (refresh_bytes cols (old_rows s) (draw_row s) (prompt s)
                     (take (len s) (line s)) (cur s))))"

definition cli_edit_redraw :: "'w env \<Rightarrow> 'w cli_instance \<Rightarrow> 'w cli_instance option" where
  "cli_edit_redraw E s = cli_edit_refresh E s"

definition reposition_bytes :: "nat \<Rightarrow> nat \<Rightarrow> nat \<Rightarrow> u8 list" where
  "reposition_bytes cols cur_row pcur =
     (let tgt_row = pcur div cols; tgt_col = pcur mod cols in
      (if cur_row > tgt_row then csi_n (cur_row - tgt_row) 65
       else if tgt_row > cur_row then csi_n (tgt_row - cur_row) 66 else []) @
      13 # (if tgt_col \<noteq> 0 then csi_n tgt_col 67 else []))"

definition edit_reposition :: "'w env \<Rightarrow> 'w cli_instance \<Rightarrow> 'w cli_instance option" where
  "edit_reposition E s =
     (let cols = edit_cols s; pcur = length (prompt s) + cur s in
      case cli_lock E (tx s) of
        (ok, t) \<Rightarrow>
          if \<not> ok then Some (s\<lparr>tx := t\<lparr>tx_failed := True\<rparr>\<rparr>)
          else map_option
                 (\<lambda>t'. s\<lparr>draw_row := (pcur div cols) mod 256,
                         tx := cli_unlock E (cli_out_flush E t')\<rparr>)
                 (cli_out_bytes E t (reposition_bytes cols (draw_row s) pcur)))"

definition cli_prompt :: "'w env \<Rightarrow> 'w cli_instance \<Rightarrow> 'w cli_instance option" where
  "cli_prompt E s = map_option (\<lambda>(r, t). s\<lparr>tx := t\<rparr>) (cli_write E (tx s) (prompt s))"

text \<open>\<open>cli_write\<close> from the editor: the result is ignored, the output state is kept.\<close>

definition edit_write :: "'w env \<Rightarrow> 'w cli_instance \<Rightarrow> u8 list \<Rightarrow> 'w cli_instance option" where
  "edit_write E s bs = map_option (\<lambda>(r, t). s\<lparr>tx := t\<rparr>) (cli_write E (tx s) bs)"

section \<open>The invariant of the editor\<close>

text \<open>
  The line is NUL-terminated inside its buffer and the cursor is in it; the prompt fits its
  buffer; a probed width is at least 20.
\<close>

definition line_ok :: "'w cli_instance \<Rightarrow> bool" where
  "line_ok s \<longleftrightarrow> length (line s) = CLI_CMD_BUFFER_SIZE \<and> len s < CLI_CMD_BUFFER_SIZE \<and>
     cur s \<le> len s \<and> line s ! len s = 0 \<and> 0 \<notin> set (take (len s) (line s))"

definition render_ok :: "'w cli_instance \<Rightarrow> bool" where
  "render_ok s \<longleftrightarrow> length (prompt s) < CLI_PROMPT_BUFFER_SIZE \<and>
     (term_width s = 0 \<or> 20 \<le> term_width s)"

definition line_text :: "'w cli_instance \<Rightarrow> u8 list" where
  "line_text s = take (len s) (line s)"

lemma edit_cols_ge: "render_ok s \<Longrightarrow> 20 \<le> edit_cols s"
  by (auto simp: render_ok_def edit_cols_def CLI_TERM_WIDTH_def)

text \<open>Every repaint succeeds and changes only the render bookkeeping and the output state.\<close>

lemma cli_edit_refresh_ok:
  assumes "env_ok E" "txs_ok (tx s)"
  shows "\<exists>r d t. cli_edit_refresh E s = Some (s\<lparr>old_rows := r, draw_row := d, tx := t\<rparr>) \<and> txs_ok t"
proof (cases "cli_lock E (tx s)")
  case (Pair ok t)
  have t: "txs_ok t" using assms(2) txs_ok_lock(1) [of E "tx s"] Pair by simp
  show ?thesis
  proof (cases ok)
    case False
    with Pair t show ?thesis
      by (intro exI [of _ "old_rows s"] exI [of _ "draw_row s"] exI [of _ "t\<lparr>tx_failed := True\<rparr>"])
        (simp add: cli_edit_refresh_def txs_ok_def)
  next
    case True
    obtain t' where t': "cli_out_bytes E t (refresh_bytes (edit_cols s) (old_rows s) (draw_row s)
        (prompt s) (take (len s) (line s)) (cur s)) = Some t'" "txs_ok t'"
      using cli_out_bytes_ok [OF assms(1) t] by blast
    have "txs_ok (cli_unlock E (cli_out_flush E t'))"
      using cli_out_flush_ok [OF assms(1)] t'(2) by (simp add: txs_ok_def [of t'])
    with True Pair t'(1) show ?thesis
      by (intro exI [of _ "((length (prompt s) + len s) div edit_cols s + 1) mod 256"]
          exI [of _ "((length (prompt s) + cur s) div edit_cols s) mod 256"]
          exI [of _ "cli_unlock E (cli_out_flush E t')"])
        (simp add: cli_edit_refresh_def Let_def)
  qed
qed

lemma edit_reposition_ok:
  assumes "env_ok E" "txs_ok (tx s)"
  shows "\<exists>d t. edit_reposition E s = Some (s\<lparr>draw_row := d, tx := t\<rparr>) \<and> txs_ok t"
proof (cases "cli_lock E (tx s)")
  case (Pair ok t)
  have t: "txs_ok t" using assms(2) txs_ok_lock(1) [of E "tx s"] Pair by simp
  show ?thesis
  proof (cases ok)
    case False
    with Pair t show ?thesis
      by (intro exI [of _ "draw_row s"] exI [of _ "t\<lparr>tx_failed := True\<rparr>"])
        (simp add: edit_reposition_def txs_ok_def)
  next
    case True
    obtain t' where t': "cli_out_bytes E t (reposition_bytes (edit_cols s) (draw_row s)
        (length (prompt s) + cur s)) = Some t'" "txs_ok t'"
      using cli_out_bytes_ok [OF assms(1) t] by blast
    have "txs_ok (cli_unlock E (cli_out_flush E t'))"
      using cli_out_flush_ok [OF assms(1)] t'(2) by (simp add: txs_ok_def [of t'])
    with True Pair t'(1) show ?thesis
      by (intro exI [of _ "((length (prompt s) + cur s) div edit_cols s) mod 256"]
          exI [of _ "cli_unlock E (cli_out_flush E t')"])
        (simp add: edit_reposition_def Let_def)
  qed
qed

lemma edit_write_ok:
  assumes "env_ok E" "txs_ok (tx s)"
  shows "\<exists>t. edit_write E s bs = Some (s\<lparr>tx := t\<rparr>) \<and> txs_ok t"
  using cli_write_ok [OF assms, of bs] by (auto simp: edit_write_def)

lemma cli_prompt_ok:
  assumes "env_ok E" "txs_ok (tx s)"
  shows "\<exists>t. cli_prompt E s = Some (s\<lparr>tx := t\<rparr>) \<and> txs_ok t"
  using cli_write_ok [OF assms, of "prompt s"] by (auto simp: cli_prompt_def)

section \<open>The line as the text around the cursor\<close>

text \<open>
  \<open>editable s b a\<close>: the line buffer holds \<open>b\<close>, the cursor, \<open>a\<close> and the terminator. The
  effect of every edit operation is stated as its effect on the pair.
\<close>

definition editable :: "'w cli_instance \<Rightarrow> u8 list \<Rightarrow> u8 list \<Rightarrow> bool" where
  "editable s b a \<longleftrightarrow>
     (\<exists>rest. line s = b @ a @ 0 # rest) \<and> length (line s) = CLI_CMD_BUFFER_SIZE \<and>
     len s = length b + length a \<and> cur s = length b \<and> 0 \<notin> set b \<and> 0 \<notin> set a \<and> txs_ok (tx s)"

lemma editable_line_ok: "editable s b a \<Longrightarrow> line_ok s \<and> line_text s = b @ a \<and> txs_ok (tx s)"
  by (auto simp: editable_def line_ok_def line_text_def nth_append)

lemma line_ok_editable:
  assumes "line_ok s" "txs_ok (tx s)"
  shows "editable s (take (cur s) (line_text s)) (drop (cur s) (line_text s))"
proof -
  have "line s = line_text s @ drop (len s) (line s)" by (simp add: line_text_def)
  moreover have "drop (len s) (line s) = 0 # drop (Suc (len s)) (line s)"
    using assms(1) by (simp add: line_ok_def Cons_nth_drop_Suc [symmetric])
  ultimately have l: "line s = line_text s @ 0 # drop (Suc (len s)) (line s)" by simp
  have "0 \<notin> set (line_text s)" using assms(1) by (simp add: line_ok_def line_text_def)
  then have "0 \<notin> set (take n (line_text s))" "0 \<notin> set (drop n (line_text s))" for n
    by (blast dest: in_set_takeD in_set_dropD)+
  moreover have "length (line_text s) = len s" "cur s \<le> len s"
    using assms(1) by (auto simp: line_ok_def line_text_def)
  moreover have "\<exists>rest. line s = take (cur s) (line_text s) @ drop (cur s) (line_text s) @ 0 # rest"
    by (intro exI [of _ "drop (Suc (len s)) (line s)"])
      (subst l, simp only: append.assoc [symmetric] append_take_drop_id)
  ultimately show ?thesis
    using assms by (simp add: editable_def line_ok_def)
qed

lemma editable_frame:
  "editable s b a \<Longrightarrow> line s' = line s \<Longrightarrow> len s' = len s \<Longrightarrow> cur s' = cur s \<Longrightarrow> txs_ok (tx s') \<Longrightarrow>
    editable s' b a"
  by (simp add: editable_def)

lemma refresh_editable:
  assumes "env_ok E" "editable s b a"
  shows "\<exists>s'. cli_edit_refresh E s = Some s' \<and> editable s' b a"
  using cli_edit_refresh_ok [OF assms(1), of s] assms(2) editable_line_ok [OF assms(2)]
  by (auto simp: editable_def)

lemma reposition_editable:
  assumes "env_ok E" "editable s b a"
  shows "\<exists>s'. edit_reposition E s = Some s' \<and> editable s' b a"
  using edit_reposition_ok [OF assms(1), of s] assms(2) editable_line_ok [OF assms(2)]
  by (auto simp: editable_def)

lemma write_editable:
  assumes "env_ok E" "editable s b a"
  shows "\<exists>s'. edit_write E s bs = Some s' \<and> editable s' b a"
  using edit_write_ok [OF assms(1), of s bs] assms(2) editable_line_ok [OF assms(2)]
  by (auto simp: editable_def)

section \<open>A concrete environment\<close>

text \<open>An environment that accepts everything, and an instance as it is initialised.\<close>

definition plain_env :: "unit env" where
  "plain_env = \<lparr>e_lock = (\<lambda>w. (True, w)), e_unlock = (\<lambda>w. w), e_send = (\<lambda>bs t. (True, t)),
     e_read = (\<lambda>n w. ([], w))\<rparr>"

definition fresh_txs :: "unit txs" where
  "fresh_txs = \<lparr>out_buf = replicate CLI_PRINTF_BUFFER_SIZE 0, out_len = 0, tx_failed = False,
     dispatching = False, cancel_req = False, tx_dropped = 0, world = ()\<rparr>"

definition fresh_instance :: "unit cli_instance" where
  "fresh_instance = \<lparr>line = replicate CLI_CMD_BUFFER_SIZE 0, len = 0, cur = 0, overwrite = False,
     hist = replicate CLI_HISTORY_BUFFER_SIZE 0, hist_used = 0, hist_nav_on = False, hist_nav = 0,
     rx = CLI_RX_NORMAL, prev_cr = False, esc_p0 = 0, esc_p1 = 0, esc_np = 0, esc_bad = False,
     bs_swap = False, term_width = CLI_TERM_WIDTH, old_rows = 0, draw_row = 0,
     probing_cpr = False, tab_list_armed = False, render_dirty = False, prompt = str ''$ '',
     last_result = 0, tx = fresh_txs\<rparr>"

lemma plain_env_ok: "env_ok plain_env"
  by (simp add: env_ok_def plain_env_def)

end
