(* ===== verification/CliComplete.thy ===== *)
theory CliComplete
  imports CliRender "HOL-Library.Sublist"
begin

text \<open>
  Tab completion, \<open>shell/core/cli_complete.c\<close>: the read-only walk of the command path before
  the word, the scan of the candidates, the insertion and the candidate list.
\<close>

section \<open>The operations\<close>

definition is_blank :: "u8 \<Rightarrow> bool" where
  "is_blank c \<longleftrightarrow> c = 32 \<or> c = 9"

definition bel :: "'w env \<Rightarrow> 'w cli_instance \<Rightarrow> 'w cli_instance option" where
  "bel E s = edit_write E s [7]"

fun word_back :: "u8 list \<Rightarrow> nat \<Rightarrow> nat" where
  "word_back ln 0 = 0"
| "word_back ln (Suc i) = (if \<not> is_blank (ln ! i) then word_back ln i else Suc i)"

definition complete_word_start :: "'w cli_instance \<Rightarrow> nat" where
  "complete_word_start s = word_back (line s) (cur s)"

function ro_span :: "(u8 \<Rightarrow> bool) \<Rightarrow> u8 list \<Rightarrow> nat \<Rightarrow> nat \<Rightarrow> nat" where
  "ro_span p ln i limit = (if i < limit \<and> p (ln ! i) then ro_span p ln (i + 1) limit else i)"
  by pat_completeness auto
termination
  by (relation "measure (\<lambda>(p, ln, i, limit). limit - i)") auto

declare ro_span.simps [simp del]

text \<open>The token's begin and length, and the new position; \<open>None\<close> at the end.\<close>

definition next_ro_token :: "u8 list \<Rightarrow> nat \<Rightarrow> nat \<Rightarrow> (nat \<times> nat \<times> nat) option" where
  "next_ro_token ln pos limit =
     (let i = ro_span is_blank ln pos limit in
      if i \<ge> limit then None
      else let j = ro_span (\<lambda>c. \<not> is_blank c) ln i limit in Some (i, j - i, j))"

definition ro_match_root :: "'h cmd list \<Rightarrow> u8 list \<Rightarrow> 'h cmd option" where
  "ro_match_root roots nm = match_root roots nm"

definition ro_match_sub :: "'h cmd list \<Rightarrow> u8 list \<Rightarrow> 'h cmd option" where
  "ro_match_sub subs nm = match_sub subs nm"

datatype 'h cmd_set = Root_set "'h cmd list" | Sub_set "'h cmd list"

text \<open>The iterator \<open>set_next\<close>: the next entry with a name, and where the iteration stands.\<close>

fun set_next :: "bool \<Rightarrow> 'h cmd list \<Rightarrow> ('h cmd \<times> 'h cmd list) option" where
  "set_next is_root [] = None"
| "set_next is_root (c # cs) =
     (if cmd_name c = None then if is_root then set_next is_root cs else None else Some (c, cs))"

lemma set_next_shorter: "set_next r cs = Some (c, cs') \<Longrightarrow> length cs' < length cs"
  by (induction cs) (auto split: if_splits)

fun set_base :: "'h cmd_set \<Rightarrow> 'h cmd list" where
  "set_base (Root_set cs) = cs"
| "set_base (Sub_set cs) = cs"

fun set_is_root :: "'h cmd_set \<Rightarrow> bool" where
  "set_is_root (Root_set cs) = True"
| "set_is_root (Sub_set cs) = False"

lemma ro_span_bounds: "i \<le> ro_span p ln i limit"
  "i \<le> limit \<Longrightarrow> ro_span p ln i limit \<le> limit"
  "ro_span p ln i limit < limit \<Longrightarrow> \<not> p (ln ! ro_span p ln i limit)"
  "i < limit \<Longrightarrow> p (ln ! i) \<Longrightarrow> i < ro_span p ln i limit"
proof (induction p ln i limit rule: ro_span.induct)
  case (1 p ln i limit)
  {
    case 1
    then show ?case using "1.IH"(1) by (auto simp: ro_span.simps [of p ln i])
  next
    case 2
    then show ?case using "1.IH"(2) by (simp add: ro_span.simps [of p ln i])
  next
    case 3
    then show ?case using "1.IH"(3) by (simp add: ro_span.simps [of p ln i] split: if_splits)
  next
    case 4
    then show ?case using "1.IH"(1) by (simp add: ro_span.simps [of p ln i])
  }
qed

lemma next_ro_token_advances:
  "next_ro_token ln pos limit = Some (tb, tn, pos') \<Longrightarrow> pos < pos' \<and> pos' \<le> limit \<and> pos \<le> tb \<and> tb + tn = pos'"
  using ro_span_bounds(1) [of pos is_blank ln limit]
    ro_span_bounds(3) [of is_blank ln pos limit]
    ro_span_bounds(4) [of "ro_span is_blank ln pos limit" limit "\<lambda>c. \<not> is_blank c" ln]
    ro_span_bounds(2) [of "ro_span is_blank ln pos limit" limit "\<lambda>c. \<not> is_blank c" ln]
  by (auto simp: next_ro_token_def Let_def split: if_splits)

function resolve_walk ::
  "'h cmd list \<Rightarrow> u8 list \<Rightarrow> nat \<Rightarrow> nat \<Rightarrow> 'h cmd option \<Rightarrow> 'h cmd_set option" where
  "resolve_walk roots ln pos ws cmd =
     (case next_ro_token ln pos ws of
        None \<Rightarrow>
          Some (case cmd of None \<Rightarrow> Root_set roots | Some c \<Rightarrow> Sub_set (the (cmd_subcmds c)))
      | Some (tb, tn, pos') \<Rightarrow>
          (let nm = take tn (drop tb ln);
               m = (case cmd of None \<Rightarrow> ro_match_root roots nm
                    | Some c \<Rightarrow> ro_match_sub (the (cmd_subcmds c)) nm) in
           case m of
             None \<Rightarrow> None
           | Some m' \<Rightarrow> if cmd_subcmds m' = None then None else resolve_walk roots ln pos' ws m))"
  by pat_completeness auto
termination
  by (relation "measure (\<lambda>(r, ln, pos, ws, c). ws - pos)")
    (auto dest!: next_ro_token_advances)

declare resolve_walk.simps [simp del]

definition resolve_set :: "'h cmd list \<Rightarrow> 'w cli_instance \<Rightarrow> nat \<Rightarrow> 'h cmd_set option" where
  "resolve_set roots s ws = resolve_walk roots (line s) 0 ws None"

definition name_of :: "'h cmd \<Rightarrow> u8 list" where
  "name_of c = the (cmd_name c)"

text \<open>\<open>strncmp (name, prefix, plen) == 0\<close> for a prefix of \<open>plen\<close> bytes without NUL.\<close>

definition has_prefix :: "'h cmd \<Rightarrow> u8 list \<Rightarrow> bool" where
  "has_prefix c pre \<longleftrightarrow> take (length pre) (name_of c) = pre"

text \<open>The inner loop: how far the tails agree, at most \<open>lcp\<close>.\<close>

fun agree :: "u8 list \<Rightarrow> u8 list \<Rightarrow> nat \<Rightarrow> nat" where
  "agree xs ys 0 = 0"
| "agree [] ys (Suc n) = 0"
| "agree (x # xs) ys (Suc n) =
     (case ys of [] \<Rightarrow> 0 | y # ys' \<Rightarrow> if x = y then Suc (agree xs ys' n) else 0)"

function scan_loop ::
  "bool \<Rightarrow> 'h cmd list \<Rightarrow> u8 list \<Rightarrow> nat \<Rightarrow> 'h cmd option \<Rightarrow> nat \<Rightarrow> nat \<times> 'h cmd option \<times> nat" where
  "scan_loop r it pre count first lcp =
     (case set_next r it of
        None \<Rightarrow> (count, first, lcp)
      | Some (c, it') \<Rightarrow>
          if \<not> has_prefix c pre then scan_loop r it' pre count first lcp
          else if count = 0
          then scan_loop r it' pre 1 (Some c) (length (name_of c) - length pre)
          else scan_loop r it' pre (count + 1) first
                 (agree (drop (length pre) (name_of c)) (drop (length pre) (name_of (the first))) lcp))"
  by pat_completeness auto
termination
  by (relation "measure (\<lambda>(r, it, p, c, f, l). length it)") (auto dest!: set_next_shorter)

declare scan_loop.simps [simp del]

definition scan_candidates :: "'h cmd_set \<Rightarrow> u8 list \<Rightarrow> nat \<times> 'h cmd option \<times> nat" where
  "scan_candidates cs pre = scan_loop (set_is_root cs) (set_base cs) pre 0 None 0"

text \<open>Whether the bytes went in, and the instance.\<close>

definition insert_at_cursor ::
  "'w env \<Rightarrow> 'w cli_instance \<Rightarrow> u8 list \<Rightarrow> (bool \<times> 'w cli_instance) option" where
  "insert_at_cursor E s src =
     (let n = length src in
      if n = 0 then Some (True, s)
      else if len s + n > CLI_CMD_BUFFER_SIZE - 1
      then map_option (\<lambda>s'. (False, s')) (bel E s)
      else Option.bind (mov (line s) (cur s + n) (cur s) (len s - cur s)) (\<lambda>b1.
           Option.bind (cpy b1 (cur s) src) (\<lambda>b2.
           Option.bind (st b2 (len s + n) 0) (\<lambda>b3.
             Some (True, s\<lparr>line := b3, len := len s + n, cur := cur s + n\<rparr>)))))"

text \<open>The candidate list: the widest name, then the names in columns.\<close>

function list_names :: "bool \<Rightarrow> 'h cmd list \<Rightarrow> u8 list \<Rightarrow> u8 list list" where
  "list_names r it pre =
     (case set_next r it of
        None \<Rightarrow> []
      | Some (c, it') \<Rightarrow>
          if has_prefix c pre then name_of c # list_names r it' pre else list_names r it' pre)"
  by pat_completeness auto
termination
  by (relation "measure (\<lambda>(r, it, p). length it)") (auto dest!: set_next_shorter)

declare list_names.simps [simp del]

fun list_bytes :: "nat \<Rightarrow> nat \<Rightarrow> nat \<Rightarrow> u8 list list \<Rightarrow> u8 list" where
  "list_bytes colw per_row n [] = (if n mod per_row \<noteq> 0 then [13, 10] else [])"
| "list_bytes colw per_row n (nm # nms) =
     nm @ (if (n + 1) mod per_row = 0 then [13, 10] else replicate (colw - length nm) 32) @
     list_bytes colw per_row (n + 1) nms"

definition show_list ::
  "'w env \<Rightarrow> 'w cli_instance \<Rightarrow> 'h cmd_set \<Rightarrow> u8 list \<Rightarrow> 'w cli_instance option" where
  "show_list E s cs pre =
     (let cols = edit_cols s;
          names = list_names (set_is_root cs) (set_base cs) pre;
          longest = foldl max 0 (map length names) in
      if longest = 0 then Some s
      else let colw = min (longest + 2) cols;
               per_row = (if cols div colw = 0 then 1 else cols div colw);
               down = unat (of_nat (old_rows s - 1) - of_nat (draw_row s) :: u32) in
        case cli_lock E (tx s) of
          (ok, t) \<Rightarrow>
            if \<not> ok then Some (s\<lparr>tx := t\<lparr>tx_failed := True\<rparr>\<rparr>)
            else Option.bind
              (cli_out_bytes E t
                 ((if old_rows s > 0 \<and> down \<noteq> 0 then csi_n down 66 else []) @ [13, 10] @
                  list_bytes colw per_row 0 names))
              (\<lambda>t'. cli_edit_redraw E
                 (s\<lparr>old_rows := 0, draw_row := 0, tx := cli_unlock E (cli_out_flush E t')\<rparr>)))"

definition tab_many ::
  "'w env \<Rightarrow> 'w cli_instance \<Rightarrow> 'h cmd_set \<Rightarrow> u8 list \<Rightarrow> 'h cmd \<Rightarrow> nat \<Rightarrow> 'w cli_instance option" where
  "tab_many E s cs pre first lcp =
     Option.bind
       (if lcp > 0 then insert_at_cursor E s (take lcp (drop (length pre) (name_of first)))
        else Some (False, s))
       (\<lambda>(extended, s1).
          if extended then map_option (\<lambda>s2. s2\<lparr>tab_list_armed := True\<rparr>) (cli_edit_redraw E s1)
          else if tab_list_armed s1 then show_list E s1 cs pre
          else (let s2 = s1\<lparr>tab_list_armed := True\<rparr> in
                if lcp = 0 then bel E s2 else Some s2))"

definition tab_one ::
  "'w env \<Rightarrow> 'w cli_instance \<Rightarrow> u8 list \<Rightarrow> 'h cmd \<Rightarrow> 'w cli_instance option" where
  "tab_one E s pre first =
     Option.bind (insert_at_cursor E s (drop (length pre) (name_of first))) (\<lambda>(ok, s1).
     Option.bind (if ok \<and> cur s1 = len s1 then map_option snd (insert_at_cursor E s1 [32]) else Some s1)
       (cli_edit_redraw E))"

definition cli_tab_complete ::
  "'w env \<Rightarrow> 'h cmd list \<Rightarrow> 'w cli_instance \<Rightarrow> 'w cli_instance option" where
  "cli_tab_complete E roots s =
     (let ws = complete_word_start s;
          pre = take (cur s - ws) (drop ws (line s)) in
      case resolve_set roots s ws of
        None \<Rightarrow> bel E (s\<lparr>tab_list_armed := False\<rparr>)
      | Some cs \<Rightarrow>
          (case scan_candidates cs pre of
             (count, first, lcp) \<Rightarrow>
               if count = 0 then bel E (s\<lparr>tab_list_armed := False\<rparr>)
               else if count = 1 then tab_one E (s\<lparr>tab_list_armed := False\<rparr>) pre (the first)
               else tab_many E s cs pre (the first) lcp))"

section \<open>What the operations do to the line\<close>

lemma insert_at_cursor_ok:
  assumes "env_ok E" "editable s b a" "0 \<notin> set src"
  shows "\<exists>ok s'. insert_at_cursor E s src = Some (ok, s') \<and>
    (ok \<longleftrightarrow> src = [] \<or> length b + length a + length src < CLI_CMD_BUFFER_SIZE) \<and>
    editable s' (if ok then b @ src else b) a \<and> tab_list_armed s' = tab_list_armed s"
proof (cases "src = []")
  case True
  with assms(2) show ?thesis
    by (intro exI [of _ True] exI [of _ s]) (simp add: insert_at_cursor_def)
next
  case ne: False
  show ?thesis
  proof (cases "len s + length src > CLI_CMD_BUFFER_SIZE - 1")
    case True
    obtain t where "edit_write E s [7] = Some (s\<lparr>tx := t\<rparr>)" "txs_ok t"
      using edit_write_ok [OF assms(1), of s "[7]"] editable_line_ok [OF assms(2)] by blast
    with True ne assms(2) show ?thesis
      by (auto simp: insert_at_cursor_def Let_def bel_def editable_def)
  next
    case False
    from assms(2) obtain rest where l: "line s = b @ a @ 0 # rest" "cur s = length b"
      "len s = length b + length a" "length (line s) = CLI_CMD_BUFFER_SIZE"
      by (auto simp: editable_def)
    let ?n = "length src"
    have fit: "length b + length a + ?n < CLI_CMD_BUFFER_SIZE" using False l(3) ne by (simp add: CLI_CMD_BUFFER_SIZE_def)
    have r: "length rest = CLI_CMD_BUFFER_SIZE - (length b + length a + 1)" using l(1,4) by auto
    have m: "mov (line s) (cur s + ?n) (cur s) (len s - cur s) =
        Some (take (length b + ?n) (line s) @ a @ drop (length b + ?n + length a) (line s))"
      using fit l by (subst mov_in) auto
    let ?b1 = "take (length b + ?n) (line s) @ a @ drop (length b + ?n + length a) (line s)"
    have lb1: "length ?b1 = CLI_CMD_BUFFER_SIZE" using fit l(4) by simp
    have "cpy ?b1 (cur s) src = Some (take (length b) ?b1 @ src @ drop (length b + ?n) ?b1)"
      using lb1 fit l(2) by (subst cpy_in) auto
    moreover have "take (length b) ?b1 = b" using l(1) fit l(4) by simp
    moreover have "drop (length b + ?n) ?b1 = a @ drop (length b + ?n + length a) (line s)"
      using fit l(4) by simp
    ultimately have c: "cpy ?b1 (cur s) src =
        Some (b @ src @ a @ drop (length b + ?n + length a) (line s))" by simp
    let ?b2 = "b @ src @ a @ drop (length b + ?n + length a) (line s)"
    have "st ?b2 (len s + ?n) 0 = Some (?b2[len s + ?n := 0])"
      using fit l(3,4) by (subst st_in) auto
    moreover have "?b2[len s + ?n := 0] = b @ src @ a @ 0 # drop (length b + ?n + length a + 1) (line s)"
      using fit l(3,4) by (simp add: list_update_append drop_update_swap Cons_nth_drop_Suc [symmetric])
    ultimately have s: "st ?b2 (len s + ?n) 0 =
        Some (b @ src @ a @ 0 # drop (length b + ?n + length a + 1) (line s))" by simp
    from False ne m c s l show ?thesis
      using assms(2,3) fit by (auto simp: insert_at_cursor_def Let_def editable_def)
  qed
qed

section \<open>The candidates\<close>

text \<open>The entries that the iteration visits; the scans as recursions over that list.\<close>

fun entries :: "bool \<Rightarrow> 'h cmd list \<Rightarrow> 'h cmd list" where
  "entries r [] = []"
| "entries r (c # cs) = (if cmd_name c = None then if r then entries r cs else [] else c # entries r cs)"

definition candidates :: "'h cmd_set \<Rightarrow> u8 list \<Rightarrow> 'h cmd list" where
  "candidates cs pre = filter (\<lambda>c. has_prefix c pre) (entries (set_is_root cs) (set_base cs))"

fun scan_list ::
  "u8 list \<Rightarrow> nat \<Rightarrow> 'h cmd option \<Rightarrow> nat \<Rightarrow> 'h cmd list \<Rightarrow> nat \<times> 'h cmd option \<times> nat" where
  "scan_list pre n f l [] = (n, f, l)"
| "scan_list pre n f l (c # cs) =
     (if n = 0 then scan_list pre 1 (Some c) (length (name_of c) - length pre) cs
      else scan_list pre (n + 1) f
             (agree (drop (length pre) (name_of c)) (drop (length pre) (name_of (the f))) l) cs)"

lemma entries_next:
  "entries r it = (case set_next r it of None \<Rightarrow> [] | Some (c, it') \<Rightarrow> c # entries r it')"
  by (induction it) auto

lemma scan_loop_list:
  "scan_loop r it pre n f l = scan_list pre n f l (filter (\<lambda>c. has_prefix c pre) (entries r it))"
proof (induction r it pre n f l rule: scan_loop.induct)
  case (1 r it pre n f l)
  show ?case
  proof (cases "set_next r it")
    case None
    then show ?thesis by (simp add: scan_loop.simps [of r it] entries_next [of r it])
  next
    case (Some p)
    obtain c it' where p: "p = (c, it')" by (cases p)
    with Some have nx: "set_next r it = Some (c, it')" by simp
    note IH = "1.IH" [OF nx refl]
    show ?thesis
      unfolding scan_loop.simps [of r it] entries_next [of r it] nx
      using IH by (simp split: if_splits)
  qed
qed

lemma list_names_list:
  "list_names r it pre = map name_of (filter (\<lambda>c. has_prefix c pre) (entries r it))"
proof (induction r it pre rule: list_names.induct)
  case (1 r it pre)
  show ?case
  proof (cases "set_next r it")
    case None
    then show ?thesis by (simp add: list_names.simps [of r it] entries_next [of r it])
  next
    case (Some p)
    obtain c it' where p: "p = (c, it')" by (cases p)
    with Some have nx: "set_next r it = Some (c, it')" by simp
    show ?thesis
      unfolding list_names.simps [of r it] entries_next [of r it] nx
      using "1.IH"(1) [OF nx refl] "1.IH"(2) [OF nx refl] by (simp split: if_splits)
  qed
qed

lemma agree_spec:
  "agree xs ys n \<le> n \<and> agree xs ys n \<le> length xs \<and> agree xs ys n \<le> length ys \<and>
    take (agree xs ys n) xs = take (agree xs ys n) ys \<and>
    (\<forall>k. k \<le> n \<longrightarrow> k \<le> length xs \<longrightarrow> take k xs = take k ys \<longrightarrow> k \<le> length ys \<longrightarrow> k \<le> agree xs ys n)"
proof (induction xs ys n rule: agree.induct)
  case (3 x xs ys n)
  show ?case
  proof (cases ys)
    case (Cons y ys')
    with 3 show ?thesis by (auto simp: take_Cons split: nat.split)
  qed simp
qed auto

text \<open>
  What the scan has found in the names \<open>seen\<close>: the first one, and the length of the tail that
  all of them share, which is the longest such.
\<close>

definition cand_inv :: "u8 list \<Rightarrow> 'h cmd list \<Rightarrow> nat \<Rightarrow> 'h cmd option \<Rightarrow> nat \<Rightarrow> bool" where
  "cand_inv pre seen n f l \<longleftrightarrow>
     n = length seen \<and> f = (case seen of [] \<Rightarrow> None | c # cs \<Rightarrow> Some c) \<and>
     (\<forall>c\<in>set seen. length pre + l \<le> length (name_of c) \<and>
        take (length pre + l) (name_of c) = take (length pre + l) (name_of (the f))) \<and>
     (seen \<noteq> [] \<longrightarrow> (\<forall>k. (\<forall>c\<in>set seen. length pre + k \<le> length (name_of c) \<and>
        take (length pre + k) (name_of c) = take (length pre + k) (name_of (the f))) \<longrightarrow> k \<le> l))"

lemma has_prefix_length: "has_prefix c pre \<Longrightarrow> length pre \<le> length (name_of c)"
  by (metis has_prefix_def length_take min.cobounded1)

lemma take_prefix:
  assumes "has_prefix c pre"
  shows "take (length pre + k) (name_of c) = pre @ take k (drop (length pre) (name_of c))"
  using assms by (simp add: has_prefix_def take_add)

lemma cand_inv_step:
  assumes inv: "cand_inv pre seen n f l" and "seen \<noteq> []" and "\<forall>x\<in>set (seen @ [c]). has_prefix x pre"
  shows "cand_inv pre (seen @ [c]) (n + 1) f
    (agree (drop (length pre) (name_of c)) (drop (length pre) (name_of (the f))) l)"
proof -
  let ?p = "length pre" and ?xs = "drop (length pre) (name_of c)" and ?ys = "drop (length pre) (name_of (the f))"
  let ?l = "agree ?xs ?ys l"
  obtain d ds where d: "seen = d # ds" using assms(2) by (cases seen) auto
  with inv have f: "f = Some d" by (simp add: cand_inv_def)
  have pre: "has_prefix c pre" "has_prefix d pre" using assms(3) d by auto
  note ag = agree_spec [of ?xs ?ys l]
  have tk: "take (?p + k) (name_of c) = take (?p + k) (name_of d) \<longleftrightarrow> take k ?xs = take k ?ys" for k
    using take_prefix [OF pre(1)] take_prefix [OF pre(2)] f by simp
  have le: "?p + ?l \<le> length (name_of c)" "?l \<le> l"
    using ag has_prefix_length [OF pre(1)] by auto
  have old: "?p + ?l \<le> length (name_of x) \<and> take (?p + ?l) (name_of x) = take (?p + ?l) (name_of d)"
    if "x \<in> set seen" for x
  proof -
    have *: "?p + l \<le> length (name_of x)" "take (?p + l) (name_of x) = take (?p + l) (name_of d)"
      using inv that f by (auto simp: cand_inv_def)
    have "take (?p + ?l) (take (?p + l) (name_of x)) = take (?p + ?l) (take (?p + l) (name_of d))"
      using *(2) by simp
    with le(2) *(1) show ?thesis by (simp add: min_def)
  qed
  have max: "k \<le> ?l" if k: "\<forall>x\<in>set (seen @ [c]). ?p + k \<le> length (name_of x) \<and>
      take (?p + k) (name_of x) = take (?p + k) (name_of d)" for k
  proof -
    have "k \<le> l" using inv k f assms(2) unfolding cand_inv_def by auto
    moreover have "take k ?xs = take k ?ys" using k tk by simp
    moreover have "k \<le> length ?xs" "k \<le> length ?ys" using k d f by auto
    ultimately show ?thesis using ag by blast
  qed
  have "take (?p + ?l) (name_of c) = take (?p + ?l) (name_of d)" using ag tk by blast
  then have all: "\<forall>x\<in>set (seen @ [c]). ?p + ?l \<le> length (name_of x) \<and>
      take (?p + ?l) (name_of x) = take (?p + ?l) (name_of (the f))"
    using old le(1) f by (simp only: set_append ball_Un list.set) simp
  show ?thesis
    unfolding cand_inv_def
  proof (intro conjI impI allI)
    show "n + 1 = length (seen @ [c])" using inv by (simp add: cand_inv_def)
    show "f = (case seen @ [c] of [] \<Rightarrow> None | c # cs \<Rightarrow> Some c)" using f d by simp
    show "\<forall>x\<in>set (seen @ [c]). ?p + ?l \<le> length (name_of x) \<and>
      take (?p + ?l) (name_of x) = take (?p + ?l) (name_of (the f))" by (rule all)
    fix k assume "\<forall>x\<in>set (seen @ [c]). ?p + k \<le> length (name_of x) \<and>
      take (?p + k) (name_of x) = take (?p + k) (name_of (the f))"
    then show "k \<le> ?l" using max [of k] unfolding f option.sel by blast
  qed
qed

lemma scan_list_inv:
  assumes "cand_inv pre seen n f l" and "\<forall>x\<in>set (seen @ cs). has_prefix x pre"
    and "scan_list pre n f l cs = (n', f', l')"
  shows "cand_inv pre (seen @ cs) n' f' l'"
  using assms
proof (induction cs arbitrary: seen n f l)
  case (Cons c cs)
  show ?case
  proof (cases "seen = []")
    case True
    then have "n = 0" using Cons.prems(1) by (simp add: cand_inv_def)
    moreover have "cand_inv pre [c] 1 (Some c) (length (name_of c) - length pre)"
      using has_prefix_length [of c pre] Cons.prems(2) by (auto simp: cand_inv_def)
    ultimately show ?thesis
      using Cons.IH [of "[c]" 1 "Some c"] Cons.prems True by simp
  next
    case False
    then have "n \<noteq> 0" using Cons.prems(1) by (simp add: cand_inv_def)
    moreover have "cand_inv pre (seen @ [c]) (n + 1) f
        (agree (drop (length pre) (name_of c)) (drop (length pre) (name_of (the f))) l)"
      using cand_inv_step [OF Cons.prems(1) False] Cons.prems(2) by simp
    ultimately show ?thesis
      using Cons.IH [of "seen @ [c]" "n + 1" f] Cons.prems by simp
  qed
qed simp

lemma scan_candidates_inv:
  assumes "scan_candidates cs pre = (n, f, l)"
  shows "cand_inv pre (candidates cs pre) n f l"
proof -
  have "scan_list pre 0 None 0 (candidates cs pre) = (n, f, l)"
    using assms by (simp add: scan_candidates_def scan_loop_list candidates_def)
  moreover have "cand_inv pre [] 0 None 0" by (simp add: cand_inv_def)
  ultimately have "cand_inv pre ([] @ candidates cs pre) n f l"
    by (intro scan_list_inv) (auto simp: candidates_def)
  then show ?thesis by simp
qed

text \<open>Every name of the tree is a C string.\<close>

fun cmd_ok :: "'h cmd \<Rightarrow> bool" where
  "cmd_ok (Cmd nm hlp usg subs hnd man opt) \<longleftrightarrow>
     (case nm of None \<Rightarrow> True | Some n \<Rightarrow> 0 \<notin> set n) \<and>
     (case subs of None \<Rightarrow> True | Some cs \<Rightarrow> (\<forall>c\<in>set cs. cmd_ok c))"

lemma cmd_ok_subs: "cmd_ok c \<Longrightarrow> cmd_subcmds c = Some cs \<Longrightarrow> x \<in> set cs \<Longrightarrow> cmd_ok x"
  by (cases c) auto

lemma cmd_ok_name: "cmd_ok c \<Longrightarrow> cmd_name c \<noteq> None \<Longrightarrow> 0 \<notin> set (name_of c)"
  by (cases c) (auto simp: name_of_def)

lemma match_in: "match_root cs nm = Some c \<Longrightarrow> c \<in> set cs" "match_sub cs nm = Some c \<Longrightarrow> c \<in> set cs"
  by (induction cs) (auto split: if_splits option.splits)

lemma resolve_walk_ok:
  assumes "resolve_walk roots ln pos ws cmd = Some cs" "\<forall>c\<in>set roots. cmd_ok c"
    and "\<forall>c. cmd = Some c \<longrightarrow> cmd_ok c \<and> cmd_subcmds c \<noteq> None" and "x \<in> set (set_base cs)"
  shows "cmd_ok x"
  using assms
proof (induction roots ln pos ws cmd rule: resolve_walk.induct)
  case (1 roots ln pos ws cmd)
  show ?case
  proof (cases "next_ro_token ln pos ws")
    case None
    with "1.prems" show ?thesis
      by (auto simp: resolve_walk.simps [of roots ln pos] intro: cmd_ok_subs split: option.splits)
  next
    case (Some p)
    obtain tb tn pos' where p: "next_ro_token ln pos ws = Some (tb, tn, pos')"
      using Some by (cases p) auto
    let ?nm = "take tn (drop tb ln)"
    let ?m = "case cmd of None \<Rightarrow> ro_match_root roots ?nm
      | Some c \<Rightarrow> ro_match_sub (the (cmd_subcmds c)) ?nm"
    from "1.prems"(1) p obtain m' where m: "?m = Some m'" "cmd_subcmds m' \<noteq> None"
      "resolve_walk roots ln pos' ws ?m = Some cs"
      by (auto simp: resolve_walk.simps [of roots ln pos] Let_def split: option.splits if_splits)
    have "cmd_ok m'"
      using m(1) "1.prems"(2,3)
      by (cases cmd) (auto simp: ro_match_root_def ro_match_sub_def dest: match_in(1)
          intro: cmd_ok_subs [OF _ _ match_in(2)])
    with "1.IH" [OF p refl refl refl refl m(1,2,3) "1.prems"(2)] m(1,2) "1.prems"(4)
    show ?thesis by simp
  qed
qed

lemma entries_in: "c \<in> set (entries r cs) \<Longrightarrow> c \<in> set cs \<and> cmd_name c \<noteq> None"
  by (induction cs) (auto split: if_splits)

lemma candidates_names:
  assumes "resolve_set roots s ws = Some cs" "\<forall>c\<in>set roots. cmd_ok c" "c \<in> set (candidates cs pre)"
  shows "0 \<notin> set (name_of c)" "has_prefix c pre"
proof -
  have c: "c \<in> set (entries (set_is_root cs) (set_base cs))" and "has_prefix c pre"
    using assms(3) by (auto simp: candidates_def)
  then show "has_prefix c pre" by simp
  have "c \<in> set (set_base cs)" and nm: "cmd_name c \<noteq> None" using entries_in [OF c] by auto
  then have "cmd_ok c" using resolve_walk_ok [OF assms(1) [unfolded resolve_set_def] assms(2)] by simp
  then show "0 \<notin> set (name_of c)" using nm by (rule cmd_ok_name)
qed

lemma editable_armed: "editable (s\<lparr>tab_list_armed := x\<rparr>) b a = editable s b a"
  by (simp add: editable_def)

lemma bel_ok:
  assumes "env_ok E" "editable s b a"
  shows "\<exists>s'. bel E s = Some s' \<and> editable s' b a"
  using write_editable [OF assms] by (simp add: bel_def)

lemma redraw_ok:
  assumes "env_ok E" "editable s b a"
  shows "\<exists>s'. cli_edit_redraw E s = Some s' \<and> editable s' b a"
  using refresh_editable [OF assms] by (simp add: cli_edit_redraw_def)

lemma show_list_ok:
  assumes "env_ok E" "editable s b a"
  shows "\<exists>s'. show_list E s cs pre = Some s' \<and> editable s' b a"
proof (cases "foldl max 0 (map length (list_names (set_is_root cs) (set_base cs) pre)) = 0")
  case True
  with assms(2) show ?thesis by (simp add: show_list_def Let_def)
next
  case ne: False
  obtain ok t where l: "cli_lock E (tx s) = (ok, t)" by (cases "cli_lock E (tx s)")
  have t: "txs_ok t" using txs_ok_lock(1) [of E "tx s"] l assms(2) by (simp add: editable_def)
  show ?thesis
  proof (cases ok)
    case False
    with l ne assms(2) t show ?thesis
      by (auto simp: show_list_def Let_def editable_def txs_ok_def)
  next
    case True
    let ?bs = "(let cols = edit_cols s;
          names = list_names (set_is_root cs) (set_base cs) pre;
          longest = foldl max 0 (map length names);
          colw = min (longest + 2) cols;
               per_row = (if cols div colw = 0 then 1 else cols div colw);
               down = unat (of_nat (old_rows s - 1) - of_nat (draw_row s) :: u32) in
        (if old_rows s > 0 \<and> down \<noteq> 0 then csi_n down 66 else []) @ [13, 10] @
                  list_bytes colw per_row 0 names)"
    obtain t' where t': "cli_out_bytes E t ?bs = Some t'" "txs_ok t'"
      using cli_out_bytes_ok [OF assms(1) t] by blast
    have "txs_ok (cli_unlock E (cli_out_flush E t'))"
      using cli_out_flush_ok [OF assms(1)] t'(2) by (simp add: txs_ok_def [of t'])
    then have "editable (s\<lparr>old_rows := 0, draw_row := 0, tx := cli_unlock E (cli_out_flush E t')\<rparr>) b a"
      using assms(2) by (simp add: editable_def)
    from redraw_ok [OF assms(1) this] show ?thesis
      using True l ne t'(1) by (simp add: show_list_def Let_def)
  qed
qed

section \<open>What Tab inserts\<close>

text \<open>The word before the cursor, the candidates for it and what may be inserted.\<close>

definition tab_prefix :: "'w cli_instance \<Rightarrow> u8 list" where
  "tab_prefix s = take (cur s - complete_word_start s) (drop (complete_word_start s) (line s))"

definition tab_names :: "'h cmd list \<Rightarrow> 'w cli_instance \<Rightarrow> u8 list list" where
  "tab_names roots s =
     (case resolve_set roots s (complete_word_start s) of
        None \<Rightarrow> []
      | Some cs \<Rightarrow> map name_of (candidates cs (tab_prefix s)))"

definition tab_ext :: "u8 list \<Rightarrow> u8 list list \<Rightarrow> u8 list \<Rightarrow> bool" where
  "tab_ext pre names ext \<longleftrightarrow>
     (names = [] \<longrightarrow> ext = []) \<and>
     (\<forall>nm. names = [nm] \<longrightarrow> prefix (pre @ ext) (nm @ [32])) \<and>
     (2 \<le> length names \<longrightarrow> (\<forall>nm\<in>set names. prefix (pre @ ext) nm))"

text \<open>With room for it, Tab inserts everything the candidates determine.\<close>

definition tab_full :: "u8 list \<Rightarrow> u8 list list \<Rightarrow> u8 list \<Rightarrow> u8 list \<Rightarrow> bool" where
  "tab_full pre names a ext \<longleftrightarrow>
     (\<forall>nm. names = [nm] \<longrightarrow> pre @ ext = nm @ (if a = [] then [32] else [])) \<and>
     (2 \<le> length names \<longrightarrow>
        (\<forall>x. (\<forall>nm\<in>set names. prefix (pre @ x) nm) \<longrightarrow> length x \<le> length ext))"

lemma has_prefix_split: "has_prefix c pre \<Longrightarrow> name_of c = pre @ drop (length pre) (name_of c)"
  by (metis append_take_drop_id has_prefix_def)

lemma tab_one_ok:
  assumes "env_ok E" "editable s b a" "has_prefix c pre" "0 \<notin> set (name_of c)"
  shows "\<exists>s' ext. tab_one E s pre c = Some s' \<and> editable s' (b @ ext) a \<and> tab_ext pre [name_of c] ext \<and>
    (length b + length a + length (name_of c) + 1 < CLI_CMD_BUFFER_SIZE \<longrightarrow>
       tab_full pre [name_of c] a ext)"
proof -
  let ?rest = "drop (length pre) (name_of c)"
  have nm: "name_of c = pre @ ?rest" by (rule has_prefix_split [OF assms(3)])
  have "0 \<notin> set ?rest" using assms(4) by (meson in_set_dropD)
  then obtain ok s1 where i1: "insert_at_cursor E s ?rest = Some (ok, s1)"
    "ok \<longleftrightarrow> ?rest = [] \<or> length b + length a + length ?rest < CLI_CMD_BUFFER_SIZE"
    "editable s1 (if ok then b @ ?rest else b) a"
    using insert_at_cursor_ok [OF assms(1,2)] by blast
  show ?thesis
  proof (cases "ok \<and> cur s1 = len s1")
    case False
    obtain s2 where s2: "cli_edit_redraw E s1 = Some s2" "editable s2 (if ok then b @ ?rest else b) a"
      using redraw_ok [OF assms(1) i1(3)] by blast
    have "tab_one E s pre c = Some s2" using i1(1) False s2(1) by (auto simp: tab_one_def)
    moreover have "ok \<Longrightarrow> a \<noteq> []" using False i1(3) by (auto simp: editable_def)
    moreover have "prefix pre (name_of c @ [32])" "prefix (pre @ ?rest) (name_of c @ [32])"
      using nm by (metis append.assoc prefixI)+
    ultimately show ?thesis
      using s2(2) i1(2) nm
      by (intro exI [of _ s2] exI [of _ "if ok then ?rest else []"])
        (auto simp: tab_ext_def tab_full_def)
  next
    case True
    then have a: "a = []" and ed: "editable s1 (b @ ?rest) a" using i1(3) by (auto simp: editable_def)
    obtain ok2 s2 where i2: "insert_at_cursor E s1 [32] = Some (ok2, s2)"
      "ok2 \<longleftrightarrow> length (b @ ?rest) + length a + 1 < CLI_CMD_BUFFER_SIZE"
      "editable s2 (if ok2 then (b @ ?rest) @ [32] else b @ ?rest) a"
      using insert_at_cursor_ok [OF assms(1) ed, of "[32]"] by auto
    obtain s3 where s3: "cli_edit_redraw E s2 = Some s3"
      "editable s3 (if ok2 then (b @ ?rest) @ [32] else b @ ?rest) a"
      using redraw_ok [OF assms(1) i2(3)] by blast
    have "tab_one E s pre c = Some s3" using i1(1) i2(1) True s3(1) by (simp add: tab_one_def)
    moreover have "prefix (pre @ ?rest) (name_of c @ [32])" "prefix (pre @ ?rest @ [32]) (name_of c @ [32])"
      using nm by (metis append.assoc prefixI, metis append.assoc prefix_order.refl)
    moreover have "length ?rest \<le> length (name_of c)" by simp
    ultimately show ?thesis
      using s3(2) i2(2) nm a
      by (intro exI [of _ s3] exI [of _ "if ok2 then ?rest @ [32] else ?rest"])
        (auto simp: tab_ext_def tab_full_def)
  qed
qed

lemma tab_many_ok:
  assumes "env_ok E" "editable s b a" and two: "2 \<le> length (candidates cs pre)"
    and inv: "cand_inv pre (candidates cs pre) n (Some f) l"
    and ok: "\<forall>c\<in>set (candidates cs pre). 0 \<notin> set (name_of c) \<and> has_prefix c pre"
  shows "\<exists>s' ext. tab_many E s cs pre f l = Some s' \<and> editable s' (b @ ext) a \<and>
    tab_ext pre (map name_of (candidates cs pre)) ext \<and>
    ((\<forall>nm\<in>set (map name_of (candidates cs pre)). length b + length a + length nm + 1 < CLI_CMD_BUFFER_SIZE)
       \<longrightarrow> tab_full pre (map name_of (candidates cs pre)) a ext)"
proof -
  let ?cands = "candidates cs pre"
  let ?ext = "take l (drop (length pre) (name_of f))"
  have f: "f \<in> set ?cands" using inv two by (cases ?cands) (auto simp: cand_inv_def)
  then have fp: "has_prefix f pre" "0 \<notin> set (name_of f)" using ok by auto
  have lf: "length pre + l \<le> length (name_of f)" using inv f by (auto simp: cand_inv_def)
  then have lext: "length ?ext = l" by simp
  have all: "prefix (pre @ ?ext) (name_of c)" if "c \<in> set ?cands" for c
  proof -
    have "take (length pre + l) (name_of c) = take (length pre + l) (name_of f)"
      using inv that by (simp add: cand_inv_def)
    also have "\<dots> = pre @ ?ext" by (rule take_prefix [OF fp(1)])
    finally show ?thesis by (metis take_is_prefix)
  qed
  have max: "length x \<le> l" if x: "\<forall>c\<in>set ?cands. prefix (pre @ x) (name_of c)" for x
  proof -
    have "length pre + length x \<le> length (name_of c) \<and>
        take (length pre + length x) (name_of c) = pre @ x" if "c \<in> set ?cands" for c
      using x that by (auto simp: prefix_def)
    then have "\<forall>c\<in>set ?cands. length pre + length x \<le> length (name_of c) \<and>
        take (length pre + length x) (name_of c) = take (length pre + length x) (name_of f)"
      using f by simp
    moreover have "?cands \<noteq> []" using two by auto
    ultimately show ?thesis using inv by (simp add: cand_inv_def)
  qed
  have "prefix pre (name_of c)" if "c \<in> set ?cands" for c
    using ok that has_prefix_split by (metis prefixI)
  then have ext: "tab_ext pre (map name_of ?cands) ?ext" "tab_ext pre (map name_of ?cands) []"
    using all two by (auto simp: tab_ext_def)
  have full: "tab_full pre (map name_of ?cands) a ?ext"
    using max two lext by (auto simp: tab_full_def)
  have "0 \<notin> set ?ext" using fp(2) by (meson in_set_dropD in_set_takeD)
  then obtain r s1 where i: "insert_at_cursor E s ?ext = Some (r, s1)"
    "r \<longleftrightarrow> ?ext = [] \<or> length b + length a + length ?ext < CLI_CMD_BUFFER_SIZE"
    "editable s1 (if r then b @ ?ext else b) a"
    using insert_at_cursor_ok [OF assms(1,2)] by blast
  have room: "r" if "\<forall>nm\<in>set (map name_of ?cands). length b + length a + length nm + 1 < CLI_CMD_BUFFER_SIZE"
    using that f lf i(2) lext by fastforce
  consider (ins) "l > 0" "r" | (noins) "l > 0" "\<not> r" | (zero) "l = 0" by auto
  then show ?thesis
  proof cases
    case ins
    obtain s2 where "cli_edit_redraw E s1 = Some s2" "editable s2 (b @ ?ext) a"
      using redraw_ok [OF assms(1) i(3)] ins by auto
    then have "tab_many E s cs pre f l = Some (s2\<lparr>tab_list_armed := True\<rparr>)"
      "editable (s2\<lparr>tab_list_armed := True\<rparr>) (b @ ?ext) a"
      using ins i(1) by (simp_all add: tab_many_def editable_armed)
    with ext full show ?thesis by blast
  next
    case noins
    have ed: "editable s1 b a" "editable (s1\<lparr>tab_list_armed := True\<rparr>) b a"
      using i(3) noins by (simp_all add: editable_armed)
    obtain s2 where s2: "show_list E s1 cs pre = Some s2" "editable s2 b a"
      using show_list_ok [OF assms(1) ed(1)] by blast
    have "\<exists>s'. tab_many E s cs pre f l = Some s' \<and> editable s' b a"
      using noins i(1) s2 ed by (auto simp: tab_many_def Let_def)
    with ext(2) room noins show ?thesis by fastforce
  next
    case zero
    have ed: "editable (s\<lparr>tab_list_armed := True\<rparr>) b a" using assms(2) by (simp add: editable_armed)
    obtain s2 where s2: "show_list E s cs pre = Some s2" "editable s2 b a"
      using show_list_ok [OF assms(1,2)] by blast
    obtain s3 where s3: "bel E (s\<lparr>tab_list_armed := True\<rparr>) = Some s3" "editable s3 b a"
      using bel_ok [OF assms(1) ed] by blast
    obtain s' where s': "tab_many E s cs pre f l = Some s'" "editable s' b a"
      using zero s2 s3 by (cases "tab_list_armed s") (simp_all add: tab_many_def Let_def)
    have "tab_full pre (map name_of ?cands) a []" using full zero by simp
    with s' ext(2) show ?thesis by (intro exI [of _ s'] exI [of _ "[]"]) simp
  qed
qed

lemma cli_tab_complete_effect:
  assumes "env_ok E" "editable s b a" "\<forall>c\<in>set roots. cmd_ok c"
  shows "\<exists>s' ext. cli_tab_complete E roots s = Some s' \<and> editable s' (b @ ext) a \<and>
    tab_ext (tab_prefix s) (tab_names roots s) ext \<and>
    ((\<forall>nm\<in>set (tab_names roots s). length b + length a + length nm + 1 < CLI_CMD_BUFFER_SIZE) \<longrightarrow>
       tab_full (tab_prefix s) (tab_names roots s) a ext)"
proof -
  let ?s = "s\<lparr>tab_list_armed := False\<rparr>"
  have ed: "editable ?s b a" using assms(2) by (simp add: editable_armed)
  obtain s0 where s0: "bel E ?s = Some s0" "editable s0 b a" using bel_ok [OF assms(1) ed] by blast
  have none: ?thesis if "tab_names roots s = []" "cli_tab_complete E roots s = Some s0"
    using that s0(2) by (intro exI [of _ s0] exI [of _ "[]"]) (simp add: tab_ext_def tab_full_def)
  show ?thesis
  proof (cases "resolve_set roots s (complete_word_start s)")
    case None
    with s0 show ?thesis by (intro none) (simp_all add: tab_names_def cli_tab_complete_def Let_def)
  next
    case (Some cs)
    let ?pre = "tab_prefix s" and ?cands = "candidates cs (tab_prefix s)"
    obtain n f l where sc: "scan_candidates cs ?pre = (n, f, l)" by (cases "scan_candidates cs ?pre") auto
    note inv = scan_candidates_inv [OF sc]
    then have n: "n = length ?cands" by (simp add: cand_inv_def)
    have names: "tab_names roots s = map name_of ?cands" using Some by (simp add: tab_names_def)
    have tab: "cli_tab_complete E roots s =
        (if n = 0 then bel E ?s else if n = 1 then tab_one E ?s ?pre (the f)
         else tab_many E s cs ?pre (the f) l)"
      using Some sc by (simp add: cli_tab_complete_def Let_def tab_prefix_def)
    have ok: "\<forall>c\<in>set ?cands. 0 \<notin> set (name_of c) \<and> has_prefix c ?pre"
      using candidates_names [OF Some assms(3)] by blast
    consider (zero) "?cands = []" | (one) c where "?cands = [c]" | (many) "2 \<le> length ?cands"
      by (cases ?cands; cases "tl ?cands") auto
    then show ?thesis
    proof cases
      case zero
      with n tab s0 names show ?thesis by (intro none) simp_all
    next
      case (one c)
      then have f: "f = Some c" using inv by (simp add: cand_inv_def)
      have "tab_names roots s = [name_of c]" using names one by simp
      moreover have "cli_tab_complete E roots s = tab_one E ?s ?pre c" using tab n one f by simp
      ultimately show ?thesis
        using tab_one_ok [OF assms(1) ed, of c ?pre] ok one by simp
    next
      case many
      then obtain c where f: "f = Some c" using inv by (cases ?cands) (auto simp: cand_inv_def)
      have "cli_tab_complete E roots s = tab_many E s cs ?pre c l" using tab n many f by auto
      then show ?thesis
        using tab_many_ok [OF assms(1,2) many inv [unfolded f] ok] names by simp
    qed
  qed
qed

text \<open>C28. Tab changes the line only by inserting at the cursor: the bytes it inserts continue
  every command name that the word before the cursor could be (and a space only behind a single
  candidate), nothing when there is none. If the line has room, a single candidate is completed
  to its end, and of several the longest common continuation is inserted.\<close>

theorem cli_tab_complete_inserts:
  assumes "env_ok E" "editable s b a" "\<forall>c\<in>set roots. cmd_ok c"
  shows "\<exists>s' ext. cli_tab_complete E roots s = Some s' \<and> editable s' (b @ ext) a \<and>
    tab_ext (tab_prefix s) (tab_names roots s) ext \<and>
    ((\<forall>nm\<in>set (tab_names roots s). length b + length a + length nm + 1 < CLI_CMD_BUFFER_SIZE) \<longrightarrow>
       tab_full (tab_prefix s) (tab_names roots s) a ext)"
  by (rule cli_tab_complete_effect [OF assms])

lemma cli_tab_complete_inserts_witness:
  "\<exists>s' ext. cli_tab_complete plain_env sample_tree (fresh_instance\<lparr>line := 112 # tl (line fresh_instance), len := 1, cur := 1\<rparr>) = Some s' \<and>
    editable s' ([112] @ ext) []"
proof -
  let ?s = "fresh_instance\<lparr>line := 112 # tl (line fresh_instance), len := 1, cur := 1\<rparr>"
  have "replicate 256 (0 :: u8) = 0 # 0 # replicate 254 0"
    using replicate_add [of 2 254 "0 :: u8"] by (simp add: numeral_2_eq_2)
  then have "editable ?s [112] []"
    by (simp add: editable_def fresh_instance_def fresh_txs_def txs_ok_def CLI_CMD_BUFFER_SIZE_def
        CLI_PRINTF_BUFFER_SIZE_def)
  moreover have "\<forall>c\<in>set sample_tree. cmd_ok c" by (simp add: sample_tree_def)
  ultimately show ?thesis using cli_tab_complete_inserts [OF plain_env_ok, of ?s "[112]" "[]" sample_tree] by blast
qed

end
