(* ===== verification/CliHistory.thy ===== *)
theory CliHistory
  imports CliRender
begin

text \<open>
  \<open>shell/core/cli_history.c\<close>: the command history, a fixed byte array in which NUL-terminated
  entries are packed oldest to newest. The abstract history is a list of lines with a position
  in it; \<open>hist_rep\<close> is the representation, and each operation is shown to act on the list.
  A loop of the source that a damaged array could keep from ending is a
  \<open>partial_function\<close>, so \<open>None\<close> stands for a fault or for no return.
\<close>

section \<open>The operations\<close>

function hist_scan :: "u8 list \<Rightarrow> nat \<Rightarrow> nat \<Rightarrow> nat option" where
  "hist_scan h used i =
     (if i < used then
        (case ld h i of
           None \<Rightarrow> None
         | Some c \<Rightarrow> if c \<noteq> 0 then hist_scan h used (i + 1) else Some i)
      else Some i)"
  by pat_completeness auto
termination
  by (relation "measure (\<lambda>(h, used, i). used - i)") auto

declare hist_scan.simps [simp del]

definition hist_next_off :: "u8 list \<Rightarrow> nat \<Rightarrow> nat \<Rightarrow> nat option" where
  "hist_next_off h used off =
     map_option (\<lambda>i. if i < used then i + 1 else used) (hist_scan h used off)"

text \<open>The loop that both searches run: the last entry whose successor is not before \<open>limit\<close>.\<close>

partial_function (option) hist_walk :: "u8 list \<Rightarrow> nat \<Rightarrow> nat \<Rightarrow> nat \<Rightarrow> nat option" where
  "hist_walk h used limit start =
     Option.bind (hist_next_off h used start)
       (\<lambda>next. if next < limit then hist_walk h used limit next else Some start)"

declare hist_walk.simps [code]

definition hist_newest_off :: "u8 list \<Rightarrow> nat \<Rightarrow> nat option" where
  "hist_newest_off h used = hist_walk h used used 0"

definition hist_prev_off :: "u8 list \<Rightarrow> nat \<Rightarrow> nat \<Rightarrow> nat option" where
  "hist_prev_off h used off = hist_walk h used off 0"

definition hist_load :: "'w cli_instance \<Rightarrow> nat \<Rightarrow> 'w cli_instance option" where
  "hist_load s off =
     (let e = cstr (hist s) off in
      map_option (\<lambda>b. s\<lparr>line := b, len := length e, cur := length e\<rparr>) (cpy (line s) 0 (e @ [0])))"

definition cli_history_prev :: "'w env \<Rightarrow> 'w cli_instance \<Rightarrow> 'w cli_instance option" where
  "cli_history_prev E s =
     (if hist_used s = 0 then Some s
      else if hist_nav_on s \<and> hist_nav s = 0 then Some s
      else Option.bind
             (if \<not> hist_nav_on s then hist_newest_off (hist s) (hist_used s)
              else hist_prev_off (hist s) (hist_used s) (hist_nav s))
             (\<lambda>target. Option.bind (hist_load (s\<lparr>hist_nav := target, hist_nav_on := True\<rparr>) target)
                        (cli_edit_redraw E)))"

definition cli_history_next :: "'w env \<Rightarrow> 'w cli_instance \<Rightarrow> 'w cli_instance option" where
  "cli_history_next E s =
     (if \<not> hist_nav_on s then Some s
      else Option.bind (hist_next_off (hist s) (hist_used s) (hist_nav s)) (\<lambda>next.
             if next < hist_used s
             then Option.bind (hist_load (s\<lparr>hist_nav := next\<rparr>) next) (cli_edit_redraw E)
             else Option.bind (st (line s) 0 0) (\<lambda>b.
                    cli_edit_redraw E (s\<lparr>hist_nav_on := False, len := 0, cur := 0, line := b\<rparr>))))"

partial_function (option) hist_evict :: "nat \<Rightarrow> u8 list \<Rightarrow> nat \<Rightarrow> (u8 list \<times> nat) option" where
  "hist_evict l h used =
     (if used + l + 1 > CLI_HISTORY_BUFFER_SIZE
      then Option.bind (hist_next_off h used 0) (\<lambda>first.
             Option.bind (mov h 0 first (used - first)) (\<lambda>h'. hist_evict l h' (used - first)))
      else Some (h, used))"

declare hist_evict.simps [code]

definition cli_history_add :: "'w cli_instance \<Rightarrow> u8 list \<Rightarrow> 'w cli_instance option" where
  "cli_history_add s ln =
     (let l = length ln in
      if l = 0 \<or> l \<ge> CLI_CMD_BUFFER_SIZE \<or> l + 1 > CLI_HISTORY_BUFFER_SIZE then Some s
      else Option.bind
             (if hist_used s > 0
              then map_option (\<lambda>off. cstr (hist s) off = ln) (hist_newest_off (hist s) (hist_used s))
              else Some False)
             (\<lambda>dup. if dup then Some s
                    else Option.bind (hist_evict l (hist s) (hist_used s)) (\<lambda>(h, used).
                           map_option (\<lambda>h'. s\<lparr>hist := h', hist_used := used + l + 1\<rparr>)
                             (cpy h used (ln @ [0])))))"

section \<open>The list of lines behind the array\<close>

definition pack :: "u8 list list \<Rightarrow> u8 list" where
  "pack es = concat (map (\<lambda>e. e @ [0]) es)"

definition entry_off :: "u8 list list \<Rightarrow> nat \<Rightarrow> nat" where
  "entry_off es i = length (pack (take i es))"

definition hist_rep :: "u8 list \<Rightarrow> nat \<Rightarrow> u8 list list \<Rightarrow> bool" where
  "hist_rep h used es \<longleftrightarrow>
     length h = CLI_HISTORY_BUFFER_SIZE \<and> used = length (pack es) \<and>
     (\<exists>rest. h = pack es @ rest) \<and>
     (\<forall>e\<in>set es. 0 \<notin> set e \<and> e \<noteq> [] \<and> length e < CLI_CMD_BUFFER_SIZE)"

lemma pack_simps [simp]: "pack [] = []" "pack (e # es) = e @ 0 # pack es"
  "pack (es @ fs) = pack es @ pack fs"
  by (simp_all add: pack_def)

lemma pack_split: "i < length es \<Longrightarrow> pack es = pack (take i es) @ es ! i @ 0 # pack (drop (Suc i) es)"
  by (metis pack_simps(2,3) append_take_drop_id Cons_nth_drop_Suc)

lemma entry_off_simps [simp]: "entry_off es 0 = 0" "entry_off es (length es) = length (pack es)"
  "i < length es \<Longrightarrow> entry_off es (Suc i) = entry_off es i + length (es ! i) + 1"
  by (simp_all add: entry_off_def take_Suc_conv_app_nth)

lemma entry_off_less: "i < j \<Longrightarrow> j \<le> length es \<Longrightarrow> entry_off es i < entry_off es j"
proof (induction j)
  case (Suc j)
  then show ?case by (cases "i = j") auto
qed simp

lemma hist_rep_drop:
  assumes "hist_rep h used es" and "i < length es"
  shows "\<exists>post. drop (entry_off es i) h = es ! i @ 0 # post"
proof -
  from assms obtain rest where "h = pack (take i es) @ es ! i @ 0 # pack (drop (Suc i) es) @ rest"
    using pack_split [OF assms(2)] by (auto simp: hist_rep_def)
  then show ?thesis by (simp add: entry_off_def)
qed

lemma hist_scan_entry:
  assumes "drop i h = e @ 0 # post" and "0 \<notin> set e" and "i + length e < used"
  shows "hist_scan h used i = Some (i + length e)"
  using assms
proof (induction e arbitrary: i)
  case Nil
  then show ?case by (auto simp: hist_scan.simps [of h used i] ld_def dest: drop_ConsD)
next
  case (Cons c e)
  then have "i < length h" "h ! i = c" "drop (Suc i) h = e @ 0 # post" by (auto dest: drop_ConsD)
  with Cons.IH [of "Suc i"] Cons.prems show ?case
    by (simp add: hist_scan.simps [of h used i] ld_def)
qed

lemma hist_next_off_entry:
  assumes "hist_rep h used es" and "i < length es"
  shows "hist_next_off h used (entry_off es i) = Some (entry_off es (Suc i))"
proof -
  obtain post where d: "drop (entry_off es i) h = es ! i @ 0 # post"
    using hist_rep_drop [OF assms] by blast
  have "entry_off es (Suc i) \<le> entry_off es (length es)"
    using entry_off_less [of "Suc i" "length es" es] assms(2) by (cases "Suc i = length es") auto
  then have "entry_off es i + length (es ! i) < used"
    using assms by (simp add: hist_rep_def)
  moreover have "0 \<notin> set (es ! i)" using assms by (simp add: hist_rep_def)
  ultimately show ?thesis
    using hist_scan_entry [OF d] assms(2) by (simp add: hist_next_off_def)
qed

lemma cstr_entry:
  assumes "hist_rep h used es" and "i < length es"
  shows "cstr h (entry_off es i) = es ! i"
  using hist_rep_drop [OF assms] assms by (auto simp: hist_rep_def intro: cstr_drop)

lemma hist_walk_entry:
  assumes "hist_rep h used es" and "i \<le> j" and "j < length es"
  shows "hist_walk h used (entry_off es (Suc j)) (entry_off es i) = Some (entry_off es j)"
  using assms(2)
proof (induction "j - i" arbitrary: i)
  case 0
  then have "i = j" by simp
  with assms show ?case
    by (simp add: hist_walk.simps [of h used _ "entry_off es j"] hist_next_off_entry)
next
  case (Suc n)
  then have i: "n = j - Suc i" "Suc i \<le> j" "i < length es" using assms(3) by auto
  have "entry_off es (Suc i) < entry_off es (Suc j)"
    using entry_off_less [of "Suc i" "Suc j" es] i assms(3) by simp
  with Suc(1) [OF i(1,2)] hist_next_off_entry [OF assms(1) i(3)] show ?case
    by (simp only: hist_walk.simps [of h used _ "entry_off es i"] bind.simps if_True)
qed

lemma hist_newest_entry:
  assumes "hist_rep h used es" and "es \<noteq> []"
  shows "hist_newest_off h used = Some (entry_off es (length es - 1))"
proof -
  obtain n where n: "length es = Suc n" using assms(2) by (cases es) auto
  have "used = entry_off es (Suc n)" using assms(1) by (simp add: hist_rep_def n [symmetric])
  then show ?thesis
    using hist_walk_entry [OF assms(1), of 0 n] n by (simp add: hist_newest_off_def)
qed

lemma hist_prev_entry:
  assumes "hist_rep h used es" and "Suc i < length es"
  shows "hist_prev_off h used (entry_off es (Suc i)) = Some (entry_off es i)"
  using hist_walk_entry [OF assms(1), of 0 i] assms(2) by (simp add: hist_prev_off_def)

subsection \<open>The operations on the list\<close>

text \<open>The oldest lines are dropped until the new one fits.\<close>

fun evict_spec :: "nat \<Rightarrow> u8 list list \<Rightarrow> u8 list list" where
  "evict_spec l [] = []"
| "evict_spec l (e # es) =
     (if length (pack (e # es)) + l + 1 > CLI_HISTORY_BUFFER_SIZE then evict_spec l es else e # es)"

definition add_spec :: "u8 list list \<Rightarrow> u8 list \<Rightarrow> u8 list list" where
  "add_spec es ln =
     (if ln = [] \<or> length ln \<ge> CLI_CMD_BUFFER_SIZE \<or> es \<noteq> [] \<and> last es = ln then es
      else evict_spec (length ln) es @ [ln])"

text \<open>The position in the history, and the line it shows.\<close>

definition prev_spec :: "u8 list list \<Rightarrow> nat option \<Rightarrow> nat option" where
  "prev_spec es k =
     (if es = [] then k
      else case k of None \<Rightarrow> Some (length es - 1) | Some i \<Rightarrow> Some (i - 1))"

definition next_pos :: "u8 list list \<Rightarrow> nat \<Rightarrow> nat option" where
  "next_pos es i = (if Suc i < length es then Some (Suc i) else None)"

definition nav_rep :: "'w cli_instance \<Rightarrow> u8 list list \<Rightarrow> nat option \<Rightarrow> bool" where
  "nav_rep s es k \<longleftrightarrow>
     (case k of
        None \<Rightarrow> \<not> hist_nav_on s
      | Some i \<Rightarrow> hist_nav_on s \<and> i < length es \<and> hist_nav s = entry_off es i)"

lemma evict_spec_suffix: "\<exists>pre. es = pre @ evict_spec l es"
proof (induction es)
  case (Cons e es)
  then obtain pre where "es = pre @ evict_spec l es" by blast
  then show ?case by (auto intro: exI [of _ "e # pre"] exI [of _ "[]"])
qed simp

lemma evict_spec_fits:
  "l + 1 \<le> CLI_HISTORY_BUFFER_SIZE \<Longrightarrow>
    length (pack (evict_spec l es)) + l + 1 \<le> CLI_HISTORY_BUFFER_SIZE"
  by (induction es) auto

lemma hist_rep_tl:
  assumes "hist_rep h used (e # es)" and "first = length e + 1"
  shows "\<exists>h'. mov h 0 first (used - first) = Some h' \<and> hist_rep h' (used - first) es"
proof -
  from assms obtain rest where h: "h = e @ 0 # pack es @ rest" "used = length (pack (e # es))"
    "length h = CLI_HISTORY_BUFFER_SIZE" by (auto simp: hist_rep_def)
  have u: "used - first = length (pack es)" using h assms(2) by simp
  have "mov h 0 first (used - first) = Some (pack es @ drop (length (pack es)) h)"
    unfolding u assms(2) using h by (subst mov_in) auto
  moreover have "length (pack es @ drop (length (pack es)) h) = CLI_HISTORY_BUFFER_SIZE"
    using h by simp
  ultimately show ?thesis
    unfolding hist_rep_def u using assms(1) by (auto simp: hist_rep_def)
qed

lemma hist_evict_refines:
  assumes "hist_rep h used es" and "l + 1 \<le> CLI_HISTORY_BUFFER_SIZE"
  shows "\<exists>h' used'. hist_evict l h used = Some (h', used') \<and> hist_rep h' used' (evict_spec l es)"
  using assms(1)
proof (induction es arbitrary: h used)
  case Nil
  then have "used = 0" by (simp add: hist_rep_def)
  with Nil assms(2) show ?case by (simp add: hist_evict.simps [of l h])
next
  case (Cons e es)
  have used: "used = length (pack (e # es))" using Cons.prems by (simp add: hist_rep_def)
  show ?case
  proof (cases "used + l + 1 > CLI_HISTORY_BUFFER_SIZE")
    case False
    then have "hist_evict l h used = Some (h, used)" by (simp add: hist_evict.simps [of l h])
    moreover have "evict_spec l (e # es) = e # es" using False used by simp
    ultimately show ?thesis using Cons.prems by metis
  next
    case True
    have "hist_next_off h used 0 = Some (length e + 1)"
      using hist_next_off_entry [OF Cons.prems, of 0] by (simp add: entry_off_def)
    moreover obtain h1 where h1: "mov h 0 (length e + 1) (used - (length e + 1)) = Some h1"
      "hist_rep h1 (used - (length e + 1)) es" using hist_rep_tl [OF Cons.prems refl] by blast
    ultimately have "hist_evict l h used = hist_evict l h1 (used - (length e + 1))"
      using True by (simp add: hist_evict.simps [of l h])
    moreover have "evict_spec l (e # es) = evict_spec l es" using True used by simp
    ultimately show ?thesis using Cons.IH [OF h1(2)] by metis
  qed
qed

lemma hist_append:
  assumes "hist_rep h used es" and "ln \<noteq> []" "0 \<notin> set ln" "length ln < CLI_CMD_BUFFER_SIZE"
    and "used + length ln + 1 \<le> CLI_HISTORY_BUFFER_SIZE"
  shows "\<exists>h'. cpy h used (ln @ [0]) = Some h' \<and> hist_rep h' (used + length ln + 1) (es @ [ln])"
proof -
  from assms(1) obtain rest where h: "h = pack es @ rest" "used = length (pack es)"
    "length h = CLI_HISTORY_BUFFER_SIZE" by (auto simp: hist_rep_def)
  have "cpy h used (ln @ [0]) = Some (take used h @ (ln @ [0]) @ drop (used + length (ln @ [0])) h)"
    using assms(5) h(3) by (intro cpy_in) simp
  with h assms show ?thesis by (auto simp: hist_rep_def)
qed

lemma cli_history_add_refines:
  assumes "hist_rep (hist s) (hist_used s) es" and "0 \<notin> set ln"
  shows "\<exists>h used. cli_history_add s ln = Some (s\<lparr>hist := h, hist_used := used\<rparr>) \<and>
    hist_rep h used (add_spec es ln)"
proof (cases "ln = [] \<or> length ln \<ge> CLI_CMD_BUFFER_SIZE \<or> es \<noteq> [] \<and> last es = ln")
  case True
  have "cli_history_add s ln = Some s"
  proof (cases "ln = [] \<or> length ln \<ge> CLI_CMD_BUFFER_SIZE")
    case False
    with True have es: "es \<noteq> []" "last es = ln" by auto
    have "hist_used s > 0" using assms(1) es by (cases es) (auto simp: hist_rep_def)
    moreover have "cstr (hist s) (entry_off es (length es - 1)) = ln"
      using cstr_entry [OF assms(1), of "length es - 1"] es by (simp add: last_conv_nth)
    ultimately show ?thesis
      using hist_newest_entry [OF assms(1) es(1)] by (simp add: cli_history_add_def Let_def)
  qed (auto simp: cli_history_add_def)
  with True assms(1) show ?thesis
    by (intro exI [of _ "hist s"] exI [of _ "hist_used s"]) (simp add: add_spec_def)
next
  case False
  then have ln: "ln \<noteq> []" "length ln < CLI_CMD_BUFFER_SIZE"
    "length ln + 1 \<le> CLI_HISTORY_BUFFER_SIZE" "es \<noteq> [] \<longrightarrow> last es \<noteq> ln"
    by (auto simp: CLI_CMD_BUFFER_SIZE_def CLI_HISTORY_BUFFER_SIZE_def)
  have dup: "(if hist_used s > 0
      then map_option (\<lambda>off. cstr (hist s) off = ln) (hist_newest_off (hist s) (hist_used s))
      else Some False) = Some False"
  proof (cases "es = []")
    case True
    then show ?thesis using assms(1) by (simp add: hist_rep_def)
  next
    case False
    with ln cstr_entry [OF assms(1), of "length es - 1"] hist_newest_entry [OF assms(1) False]
    show ?thesis by (simp add: last_conv_nth)
  qed
  obtain h used where e: "hist_evict (length ln) (hist s) (hist_used s) = Some (h, used)"
    "hist_rep h used (evict_spec (length ln) es)"
    using hist_evict_refines [OF assms(1) ln(3)] by blast
  have "used + length ln + 1 \<le> CLI_HISTORY_BUFFER_SIZE"
    using evict_spec_fits [OF ln(3), of es] e(2) by (simp add: hist_rep_def)
  from hist_append [OF e(2) ln(1) assms(2) ln(2) this] obtain h' where
    "cpy h used (ln @ [0]) = Some h'"
    "hist_rep h' (used + length ln + 1) (evict_spec (length ln) es @ [ln])" by blast
  with dup e(1) ln False show ?thesis
    by (intro exI [of _ h'] exI [of _ "used + length ln + 1"])
      (auto simp add: cli_history_add_def Let_def add_spec_def)
qed

section \<open>Recall\<close>

text \<open>
  \<open>shows s k t\<close>: the instance has a legal line buffer showing \<open>t\<close> with the cursor at its
  end.
\<close>

definition shows_line :: "'w cli_instance \<Rightarrow> u8 list \<Rightarrow> bool" where
  "shows_line s t \<longleftrightarrow> line_ok s \<and> line_text s = t \<and> cur s = len s"

lemma hist_load_entry:
  assumes "hist_rep (hist s) (hist_used s) es" "i < length es" "length (line s) = CLI_CMD_BUFFER_SIZE"
  shows "\<exists>b. hist_load s (entry_off es i) =
      Some (s\<lparr>line := b, len := length (es ! i), cur := length (es ! i)\<rparr>) \<and>
    shows_line (s\<lparr>line := b, len := length (es ! i), cur := length (es ! i)\<rparr>) (es ! i)"
proof -
  have e: "cstr (hist s) (entry_off es i) = es ! i" by (rule cstr_entry [OF assms(1,2)])
  have l: "length (es ! i) < CLI_CMD_BUFFER_SIZE" "0 \<notin> set (es ! i)"
    using assms(1,2) by (auto simp: hist_rep_def)
  then have "cpy (line s) 0 (es ! i @ [0]) = Some ((es ! i @ [0]) @ drop (Suc (length (es ! i))) (line s))"
    using assms(3) by (subst cpy_in) auto
  with e l assms(3) show ?thesis
    by (intro exI [of _ "es ! i @ 0 # drop (Suc (length (es ! i))) (line s)"])
      (simp add: hist_load_def Let_def shows_line_def line_ok_def line_text_def nth_append)
qed

text \<open>What a repaint leaves alone.\<close>

definition same_line :: "'w cli_instance \<Rightarrow> 'w cli_instance \<Rightarrow> bool" where
  "same_line s s' \<longleftrightarrow> line s' = line s \<and> len s' = len s \<and> cur s' = cur s \<and> hist s' = hist s \<and>
     hist_used s' = hist_used s \<and> hist_nav_on s' = hist_nav_on s \<and> hist_nav s' = hist_nav s"

lemma redraw_same:
  assumes "env_ok E" "txs_ok (tx s)"
  shows "\<exists>s'. cli_edit_redraw E s = Some s' \<and> same_line s s' \<and> txs_ok (tx s')"
  using cli_edit_refresh_ok [OF assms] by (auto simp: cli_edit_redraw_def same_line_def)

lemma same_line_shows: "same_line s s' \<Longrightarrow> shows_line s' t = shows_line s t"
  by (simp add: same_line_def shows_line_def line_ok_def line_text_def)

text \<open>The abstract state: the lines, the position, and the text shown.\<close>

definition hist_abs ::
  "'w cli_instance \<Rightarrow> u8 list list \<Rightarrow> nat option \<Rightarrow> u8 list \<Rightarrow> bool" where
  "hist_abs s es k t \<longleftrightarrow>
     hist_rep (hist s) (hist_used s) es \<and> nav_rep s es k \<and> line_ok s \<and> line_text s = t \<and>
     txs_ok (tx s)"

lemma cli_history_prev_refines:
  assumes "env_ok E" "hist_abs s es k t"
  shows "\<exists>s'. cli_history_prev E s = Some s' \<and>
    hist_abs s' es (prev_spec es k)
      (if prev_spec es k = k then t else es ! the (prev_spec es k))"
proof -
  have rep: "hist_rep (hist s) (hist_used s) es" and nav: "nav_rep s es k" and ok: "line_ok s"
    and tx: "txs_ok (tx s)" using assms(2) by (auto simp: hist_abs_def)
  have empty: "hist_used s = 0 \<longleftrightarrow> es = []"
    using rep by (cases es) (auto simp: hist_rep_def)
  have go: ?thesis
    if i: "i < length es" and tgt: "prev_spec es k = Some i" and ne: "k \<noteq> Some i" "es \<noteq> []"
      "\<not> (hist_nav_on s \<and> hist_nav s = 0)"
      and off: "(if \<not> hist_nav_on s then hist_newest_off (hist s) (hist_used s)
        else hist_prev_off (hist s) (hist_used s) (hist_nav s)) = Some (entry_off es i)" for i
  proof -
    let ?s = "s\<lparr>hist_nav := entry_off es i, hist_nav_on := True\<rparr>"
    obtain b where b: "hist_load ?s (entry_off es i) =
        Some (?s\<lparr>line := b, len := length (es ! i), cur := length (es ! i)\<rparr>)"
      "shows_line (?s\<lparr>line := b, len := length (es ! i), cur := length (es ! i)\<rparr>) (es ! i)"
      using hist_load_entry [of ?s es i] rep i ok by (auto simp: line_ok_def)
    let ?s1 = "?s\<lparr>line := b, len := length (es ! i), cur := length (es ! i)\<rparr>"
    obtain s2 where s2: "cli_edit_redraw E ?s1 = Some s2" "same_line ?s1 s2" "txs_ok (tx s2)"
      using redraw_same [OF assms(1), of ?s1] tx by auto
    have "shows_line s2 (es ! i)" using same_line_shows [OF s2(2)] b(2) by simp
    moreover have "hist_rep (hist s2) (hist_used s2) es \<and> nav_rep s2 es (Some i)"
      using s2(2) rep i by (simp add: same_line_def nav_rep_def)
    ultimately have "hist_abs s2 es (Some i) (es ! i)"
      using s2(3) by (simp add: hist_abs_def shows_line_def)
    moreover have "cli_history_prev E s = Some s2"
      using empty ne off b(1) s2(1)
      by (simp only: cli_history_prev_def if_False bind.simps)
    ultimately show ?thesis using tgt ne(1) by auto
  qed
  show ?thesis
  proof (cases "es = []")
    case True
    with empty assms(2) show ?thesis by (simp add: cli_history_prev_def prev_spec_def)
  next
    case False
    show ?thesis
    proof (cases k)
      case None
      with False nav show ?thesis
        by (intro go [of "length es - 1"]) (auto simp: prev_spec_def nav_rep_def hist_newest_entry [OF rep])
    next
      case (Some j)
      show ?thesis
      proof (cases j)
        case 0
        with Some nav assms(2) empty False show ?thesis
          by (auto simp: cli_history_prev_def prev_spec_def nav_rep_def)
      next
        case (Suc i)
        with Some nav have n: "hist_nav_on s" "Suc i < length es" "hist_nav s = entry_off es (Suc i)"
          by (auto simp: nav_rep_def)
        moreover have "entry_off es (Suc i) \<noteq> 0" using n(2) by simp
        ultimately show ?thesis
          using Some Suc False by (intro go [of i]) (simp_all add: prev_spec_def hist_prev_entry [OF rep, of i, simplified])
      qed
    qed
  qed
qed

lemma cli_history_next_refines:
  assumes "env_ok E" "hist_abs s es k t"
  shows "\<exists>s'. cli_history_next E s = Some s' \<and>
    hist_abs s' es (Option.bind k (next_pos es))
      (case k of None \<Rightarrow> t
       | Some i \<Rightarrow> (case next_pos es i of None \<Rightarrow> [] | Some j \<Rightarrow> es ! j))"
proof (cases k)
  case None
  with assms(2) show ?thesis by (auto simp: cli_history_next_def hist_abs_def nav_rep_def)
next
  case (Some i)
  have rep: "hist_rep (hist s) (hist_used s) es" and ok: "line_ok s"
    and tx: "txs_ok (tx s)" and nav: "hist_nav_on s" "i < length es" "hist_nav s = entry_off es i"
    using assms(2) Some by (auto simp: hist_abs_def nav_rep_def)
  have nxt: "hist_next_off (hist s) (hist_used s) (hist_nav s) = Some (entry_off es (Suc i))"
    using hist_next_off_entry [OF rep nav(2)] nav(3) by simp
  have used: "hist_used s = entry_off es (length es)" using rep by (simp add: hist_rep_def)
  show ?thesis
  proof (cases "Suc i < length es")
    case True
    let ?s = "s\<lparr>hist_nav := entry_off es (Suc i)\<rparr>"
    obtain b where b: "hist_load ?s (entry_off es (Suc i)) =
        Some (?s\<lparr>line := b, len := length (es ! Suc i), cur := length (es ! Suc i)\<rparr>)"
      "shows_line (?s\<lparr>line := b, len := length (es ! Suc i), cur := length (es ! Suc i)\<rparr>) (es ! Suc i)"
      using hist_load_entry [of ?s es "Suc i"] rep True ok by (auto simp: line_ok_def)
    let ?s1 = "?s\<lparr>line := b, len := length (es ! Suc i), cur := length (es ! Suc i)\<rparr>"
    obtain s2 where s2: "cli_edit_redraw E ?s1 = Some s2" "same_line ?s1 s2" "txs_ok (tx s2)"
      using redraw_same [OF assms(1), of ?s1] tx by auto
    have "shows_line s2 (es ! Suc i)" using same_line_shows [OF s2(2)] b(2) by simp
    then have "hist_abs s2 es (Some (Suc i)) (es ! Suc i)"
      using s2(2,3) rep True nav(1) by (simp add: hist_abs_def shows_line_def same_line_def nav_rep_def)
    moreover have "entry_off es (Suc i) < hist_used s"
      unfolding used using entry_off_less [of "Suc i" "length es" es] True by simp
    then have "cli_history_next E s = Some s2"
      using nav(1) nxt b(1) s2(1) by (simp only: cli_history_next_def bind.simps if_True simp_thms if_False)
    ultimately show ?thesis using Some True by (simp add: next_pos_def)
  next
    case False
    then have "Suc i = length es" using nav(2) by simp
    then have "\<not> entry_off es (Suc i) < hist_used s" using used by simp
    moreover have "st (line s) 0 0 = Some ((line s)[0 := 0])"
      using ok by (auto simp: line_ok_def CLI_CMD_BUFFER_SIZE_def st_def)
    moreover let ?s1 = "s\<lparr>hist_nav_on := False, len := 0, cur := 0, line := (line s)[0 := 0]\<rparr>"
    obtain s2 where s2: "cli_edit_redraw E ?s1 = Some s2" "same_line ?s1 s2" "txs_ok (tx s2)"
      using redraw_same [OF assms(1), of ?s1] tx by auto
    ultimately have "cli_history_next E s = Some s2"
      using nav(1) nxt by (simp only: cli_history_next_def bind.simps if_True simp_thms if_False)
    moreover have "hist_abs s2 es None []"
      using s2(2,3) rep ok by (auto simp: hist_abs_def same_line_def nav_rep_def line_ok_def line_text_def
          CLI_CMD_BUFFER_SIZE_def)
    ultimately show ?thesis using Some False by (simp add: next_pos_def)
  qed
qed

section \<open>Any sequence of submissions and recalls\<close>

datatype hist_op = H_submit "u8 list" | H_prev | H_next

text \<open>
  A submission is the part of \<open>cli_dispatch_line\<close> that concerns the history: the line is
  added, the navigation is left and the line buffer is emptied.
\<close>

definition hist_submit :: "'w cli_instance \<Rightarrow> u8 list \<Rightarrow> 'w cli_instance option" where
  "hist_submit s ln =
     Option.bind (if ln \<noteq> [] then cli_history_add s ln else Some s) (\<lambda>s1.
     Option.bind (st (line s1) 0 0) (\<lambda>b.
       Some (s1\<lparr>len := 0, cur := 0, line := b, hist_nav_on := False, hist_nav := 0\<rparr>)))"

fun hist_step :: "'w env \<Rightarrow> 'w cli_instance \<Rightarrow> hist_op \<Rightarrow> 'w cli_instance option" where
  "hist_step E s (H_submit ln) = hist_submit s ln"
| "hist_step E s H_prev = cli_history_prev E s"
| "hist_step E s H_next = cli_history_next E s"

fun hist_run :: "'w env \<Rightarrow> 'w cli_instance \<Rightarrow> hist_op list \<Rightarrow> 'w cli_instance option" where
  "hist_run E s [] = Some s"
| "hist_run E s (op # ops) = Option.bind (hist_step E s op) (\<lambda>s'. hist_run E s' ops)"

text \<open>The same on a list of lines, a position in it and the text shown.\<close>

type_synonym hist_view = "u8 list list \<times> nat option \<times> u8 list"

fun view_step :: "hist_view \<Rightarrow> hist_op \<Rightarrow> hist_view" where
  "view_step (es, k, t) (H_submit ln) = (add_spec es ln, None, [])"
| "view_step (es, k, t) H_prev =
     (es, prev_spec es k, if prev_spec es k = k then t else es ! the (prev_spec es k))"
| "view_step (es, k, t) H_next =
     (es, Option.bind k (next_pos es),
      case k of None \<Rightarrow> t
      | Some i \<Rightarrow> (case next_pos es i of None \<Rightarrow> [] | Some j \<Rightarrow> es ! j))"

definition view_of :: "'w cli_instance \<Rightarrow> hist_view \<Rightarrow> bool" where
  "view_of s v = (case v of (es, k, t) \<Rightarrow> hist_abs s es k t)"

lemma hist_submit_refines:
  assumes "hist_abs s es k t" and "0 \<notin> set ln"
  shows "\<exists>s'. hist_submit s ln = Some s' \<and> hist_abs s' (add_spec es ln) None []"
proof -
  have rep: "hist_rep (hist s) (hist_used s) es" using assms(1) by (simp add: hist_abs_def)
  obtain h used where a: "cli_history_add s ln = Some (s\<lparr>hist := h, hist_used := used\<rparr>)"
    "hist_rep h used (add_spec es ln)" using cli_history_add_refines [OF rep assms(2)] by blast
  have "(if ln \<noteq> [] then cli_history_add s ln else Some s) = Some (s\<lparr>hist := h, hist_used := used\<rparr>)"
    using a(1) by (cases "ln = []") (simp_all add: cli_history_add_def [of s "[]"])
  moreover have "st (line s) 0 0 = Some ((line s)[0 := 0])"
    using assms(1) by (auto simp: hist_abs_def line_ok_def CLI_CMD_BUFFER_SIZE_def st_def)
  ultimately show ?thesis
    using a(2) assms(1)
    by (auto simp: hist_submit_def hist_abs_def nav_rep_def line_ok_def line_text_def
        CLI_CMD_BUFFER_SIZE_def)
qed

lemma hist_step_refines:
  assumes "env_ok E" "view_of s v" "\<forall>ln. op = H_submit ln \<longrightarrow> 0 \<notin> set ln"
  shows "\<exists>s'. hist_step E s op = Some s' \<and> view_of s' (view_step v op)"
proof (cases v)
  case (fields es k t)
  with assms(2) have a: "hist_abs s es k t" by (simp add: view_of_def)
  show ?thesis
    using hist_submit_refines [OF a] cli_history_prev_refines [OF assms(1) a]
      cli_history_next_refines [OF assms(1) a] assms(3) fields
    by (cases op) (auto simp: view_of_def)
qed

text \<open>The history an instance is initialised with.\<close>

definition hist_init :: "'w cli_instance \<Rightarrow> bool" where
  "hist_init s \<longleftrightarrow> length (hist s) = CLI_HISTORY_BUFFER_SIZE \<and> hist_used s = 0 \<and>
     \<not> hist_nav_on s \<and> length (line s) = CLI_CMD_BUFFER_SIZE \<and> len s = 0 \<and> cur s = 0 \<and>
     line s ! 0 = 0 \<and> txs_ok (tx s)"

lemma hist_init_view: "hist_init s \<Longrightarrow> view_of s ([], None, [])"
  by (auto simp: hist_init_def view_of_def hist_abs_def hist_rep_def nav_rep_def line_ok_def
      line_text_def CLI_CMD_BUFFER_SIZE_def)

lemma hist_run_refines:
  assumes "env_ok E" "view_of s v" "\<forall>ln. H_submit ln \<in> set ops \<longrightarrow> 0 \<notin> set ln"
  shows "\<exists>s'. hist_run E s ops = Some s' \<and> view_of s' (foldl view_step v ops)"
  using assms(2,3)
proof (induction ops arbitrary: s v)
  case (Cons op ops)
  obtain s1 where "hist_step E s op = Some s1" "view_of s1 (view_step v op)"
    using hist_step_refines [OF assms(1) Cons.prems(1), of op] Cons.prems(2) by auto
  with Cons.IH [of s1 "view_step v op"] Cons.prems(2) show ?case by auto
qed simp

text \<open>C34. The packed 512-byte history is a list of lines: from an initialised instance, any
  sequence of submissions and of up and down recalls returns without leaving a buffer, and the
  line shown is the one that the same sequence shows on a plain list (consecutive duplicates and
  lines that do not fit dropped, the oldest lines evicted first).\<close>

theorem cli_history_refines_list:
  assumes "env_ok E" "hist_init s" "\<forall>ln. H_submit ln \<in> set ops \<longrightarrow> 0 \<notin> set ln"
  shows "\<exists>s'. hist_run E s ops = Some s' \<and>
    line_text s' = snd (snd (foldl view_step ([], None, []) ops)) \<and> line_ok s'"
  using hist_run_refines [OF assms(1) hist_init_view [OF assms(2)] assms(3)]
  by (cases "foldl view_step ([], None, []) ops") (auto simp: view_of_def hist_abs_def)

lemma fresh_hist_init: "hist_init fresh_instance"
  by (simp add: hist_init_def fresh_instance_def fresh_txs_def txs_ok_def CLI_CMD_BUFFER_SIZE_def
      CLI_HISTORY_BUFFER_SIZE_def CLI_PRINTF_BUFFER_SIZE_def)

lemma cli_history_refines_list_witness:
  "\<exists>s'. hist_run plain_env fresh_instance
      [H_submit [97], H_submit [98], H_submit [98], H_prev, H_prev, H_prev, H_next] = Some s' \<and>
    line_text s' = [98]"
  using cli_history_refines_list [OF plain_env_ok fresh_hist_init,
      of "[H_submit [97], H_submit [98], H_submit [98], H_prev, H_prev, H_prev, H_next]"]
  by (auto simp: add_spec_def prev_spec_def next_pos_def CLI_CMD_BUFFER_SIZE_def
      CLI_HISTORY_BUFFER_SIZE_def)

end
