(* ===== verification/CliSession.thy ===== *)
theory CliSession
  imports CliHistory
begin

text \<open>
  The line pipeline of \<open>shell/core/cli_session.c\<close>: the session reset, the cooperative cancel,
  the dispatch of one segment and of a whole line. The detailed dispatcher works on the line
  buffer, in place; \<open>run_segs\<close> is what it does in terms of the text of the line, and
  \<open>cli_dispatch_line_refines\<close> relates them.
\<close>

section \<open>The host of an instance\<close>

text \<open>
  What a dispatch needs of the rest of the program: the environment of the output path, the
  root commands (the linker section \<open>cli_cmds\<close>), the effect of a command handler on the
  output state of its instance (an argument vector, a result), and the two calls into the job
  pool.
\<close>

record ('h, 'w) host =
  h_env :: "'w env"
  h_roots :: "'h cmd list"
  h_run :: "'h \<Rightarrow> u8 list list \<Rightarrow> 'w txs \<Rightarrow> int \<times> 'w txs"
  h_reap :: "'w txs \<Rightarrow> 'w txs"
  h_launch :: "u8 list \<Rightarrow> 'w txs \<Rightarrow> 'w txs"

definition host_ok :: "('h, 'w) host \<Rightarrow> bool" where
  "host_ok H \<longleftrightarrow> env_ok (h_env H) \<and>
     (\<forall>t. txs_ok t \<longrightarrow> txs_ok (h_reap H t) \<and> (\<forall>g. txs_ok (h_launch H g t)) \<and>
        (\<forall>h args. txs_ok (snd (h_run H h args t))))"

section \<open>Reset and cancel\<close>

definition cli_session_reset_state :: "'w cli_instance \<Rightarrow> 'w cli_instance option" where
  "cli_session_reset_state s =
     map_option
       (\<lambda>b. s\<lparr>len := 0, cur := 0, line := b, overwrite := False, rx := CLI_RX_NORMAL,
             prev_cr := False, esc_np := 0, esc_bad := False, esc_p0 := 0, esc_p1 := 0,
             hist_used := 0, hist_nav_on := False, hist_nav := 0, term_width := CLI_TERM_WIDTH,
             old_rows := 0, draw_row := 0, probing_cpr := False, tab_list_armed := False,
             render_dirty := False,
             tx := (tx s)\<lparr>out_len := 0, tx_failed := False, dispatching := False,
                          cancel_req := False\<rparr>\<rparr>)
       (st (line s) 0 0)"

definition CLI_RX_DRAIN_CHUNK :: nat where "CLI_RX_DRAIN_CHUNK = 32"

text \<open>
  The drain loop of \<open>cli_cancel_poll\<close>; it returns once the transport has nothing more, which
  only the environment can promise.
\<close>

partial_function (option) cancel_drain :: "'w env \<Rightarrow> 'w txs \<Rightarrow> 'w txs option" where
  "cancel_drain E t =
     (case e_read E CLI_RX_DRAIN_CHUNK (world t) of
        (bs, w) \<Rightarrow>
          if bs = [] then Some (t\<lparr>world := w\<rparr>)
          else cancel_drain E (t\<lparr>world := w, cancel_req := cancel_req t \<or> 3 \<in> set bs\<rparr>))"

declare cancel_drain.simps [code]

definition cli_cancel_poll :: "'w env \<Rightarrow> bool \<Rightarrow> 'w txs \<Rightarrow> (bool \<times> 'w txs) option" where
  "cli_cancel_poll E is_job t =
     (if is_job then Some (cancel_req t, t)
      else map_option (\<lambda>t'. (cancel_req t', t')) (cancel_drain E t))"

definition cli_cancel_requested :: "'w env \<Rightarrow> bool \<Rightarrow> 'w txs \<Rightarrow> (bool \<times> 'w txs) option" where
  "cli_cancel_requested E is_job t = cli_cancel_poll E is_job t"

text \<open>The byte-wise drain that follows a cancelled line.\<close>

partial_function (option) rx_drain :: "'w env \<Rightarrow> 'w \<Rightarrow> 'w option" where
  "rx_drain E w = (case e_read E 1 w of (bs, w') \<Rightarrow> if bs = [] then Some w' else rx_drain E w')"

declare rx_drain.simps [code]

section \<open>One segment\<close>

text \<open>
  The usage line's path: \<open>snprintf\<close> appends into what is left of the buffer, truncating, and
  returns the untruncated length.
\<close>

fun usage_path :: "bool \<Rightarrow> nat \<Rightarrow> u8 list list \<Rightarrow> u8 list" where
  "usage_path first n [] = []"
| "usage_path first n (w # ws) =
     (if n < CLI_CMD_BUFFER_SIZE
      then (let piece = (if first then w else 32 # w) in
            take (CLI_CMD_BUFFER_SIZE - 1 - n) piece @ usage_path False (n + length piece) ws)
      else [])"

definition say_error :: "('h, 'w) host \<Rightarrow> u8 list \<Rightarrow> 'w cli_instance \<Rightarrow> 'w cli_instance option" where
  "say_error H msg s =
     map_option (\<lambda>(r, t). s\<lparr>tx := t, last_result := CLI_DISPATCH_ERR\<rparr>)
       (cli_error (h_env H) (tx s) msg)"

definition usage_line :: "'h cmd \<Rightarrow> u8 list \<Rightarrow> u8 list option" where
  "usage_line c path =
     (case cmd_usage c of
        Some u \<Rightarrow> Some (str ''usage: '' @ path @ [32] @ u @ [13, 10])
      | None \<Rightarrow> map_option (\<lambda>h. str ''usage: '' @ path @ str ''  ('' @ h @ [41, 13, 10]) (cmd_help c))"

definition say_usage ::
  "('h, 'w) host \<Rightarrow> 'h cmd \<Rightarrow> u8 list list \<Rightarrow> 'w cli_instance \<Rightarrow> 'w cli_instance option" where
  "say_usage H c path s =
     (case usage_line c (usage_path True 0 path) of
        None \<Rightarrow> Some s
      | Some l \<Rightarrow> map_option (\<lambda>(r, t). s\<lparr>tx := t\<rparr>) (cli_print (h_env H) (tx s) l))"

text \<open>The call of the handler; a worker keeps a cancel that came before it ran.\<close>

definition run_handler ::
  "('h, 'w) host \<Rightarrow> bool \<Rightarrow> 'h \<Rightarrow> u8 list list \<Rightarrow> 'w cli_instance \<Rightarrow> 'w cli_instance" where
  "run_handler H is_job h args s =
     (let t0 = (tx s)\<lparr>cancel_req := (if is_job then cancel_req (tx s) else False),
                      dispatching := True\<rparr>;
          (ret, t1) = h_run H h args t0;
          t2 = t1\<lparr>dispatching := False\<rparr>
      in s\<lparr>tx := t2, last_result := (if ret = 0 \<and> tx_failed t2 then CLI_DISPATCH_ERR else ret)\<rparr>)"

text \<open>
  The switch over the parse status, on the argument strings: \<open>argv\<close> from the root's name on,
  \<open>base\<close> the index of \<open>pr.argv\<close>, \<open>level\<close> the command level.
\<close>

definition segment_switch ::
  "('h, 'w) host \<Rightarrow> bool \<Rightarrow> cli_parse_status \<Rightarrow> 'h cmd option \<Rightarrow> nat \<Rightarrow> nat \<Rightarrow> u8 list list \<Rightarrow>
    'w cli_instance \<Rightarrow> 'w cli_instance option" where
  "segment_switch H is_job status c base level argv s =
     (case status of
        CLI_PARSE_OK \<Rightarrow>
          Option.bind (Option.bind c cmd_handler) (\<lambda>h. Some (run_handler H is_job h (drop base argv) s))
      | CLI_PARSE_EMPTY \<Rightarrow> Some s
      | CLI_PARSE_NOT_FOUND \<Rightarrow>
          Option.bind (ld argv base) (\<lambda>a. say_error H (a @ str '': command not found'' @ [13, 10]) s)
      | CLI_PARSE_NO_HANDLER \<Rightarrow>
          Option.bind (ld argv base)
            (\<lambda>a. say_error H (a @ str '': missing or unknown subcommand'' @ [13, 10]) s)
      | CLI_PARSE_WRONG_ARGS \<Rightarrow>
          Option.bind (ld argv base) (\<lambda>a.
          Option.bind (say_error H (a @ str '': invalid number of arguments'' @ [13, 10]) s) (\<lambda>s1.
          (case c of None \<Rightarrow> Some s1 | Some c' \<Rightarrow> say_usage H c' (take level argv) s1)))
      | CLI_PARSE_TOO_MANY_TOKENS \<Rightarrow> say_error H (str ''too many arguments'' @ [13, 10]) s
      | CLI_PARSE_NESTING_TOO_DEEP \<Rightarrow> say_error H (str ''command nesting too deep'' @ [13, 10]) s
      | CLI_PARSE_UNTERMINATED_QUOTE \<Rightarrow> say_error H (str ''unterminated quote'' @ [13, 10]) s)"

definition cli_dispatch_segment ::
  "('h, 'w) host \<Rightarrow> bool \<Rightarrow> 'w cli_instance \<Rightarrow> nat \<Rightarrow> 'w cli_instance option" where
  "cli_dispatch_segment H is_job s seg =
     (let s0 = s\<lparr>tx := (tx s)\<lparr>tx_failed := False\<rparr>\<rparr> in
      case cli_parse (h_roots H) (drop seg (line s)) CLI_ARGV_CAP of
        None \<Rightarrow> None
      | Some (b, argv, status, pr) \<Rightarrow>
          segment_switch H is_job status (pr_cmd pr)
            (case pr_argv pr of None \<Rightarrow> 0 | Some i \<Rightarrow> i) (pr_level pr) (map (cstr b) argv)
            (s0\<lparr>line := take seg (line s) @ b\<rparr>))"

section \<open>A line\<close>

text \<open>The loop over the segments, from the position of the cursor.\<close>

partial_function (option) dispatch_loop ::
  "('h, 'w) host \<Rightarrow> 'w cli_instance \<Rightarrow> nat option \<Rightarrow> 'w cli_instance option" where
  "dispatch_loop H s cursor =
     (case cli_next_segment (line s) cursor of
        None \<Rightarrow> None
      | Some None \<Rightarrow> Some s
      | Some (Some (seg, b, cursor')) \<Rightarrow>
          (case cli_segment_is_background b seg of
             None \<Rightarrow> None
           | Some (b', bg) \<Rightarrow>
               if bg then dispatch_loop H (s\<lparr>line := b', tx := h_launch H (cstr b' seg) (tx s)\<rparr>) cursor'
               else Option.bind (cli_dispatch_segment H False (s\<lparr>line := b'\<rparr>) seg) (\<lambda>s'.
                    if cancel_req (tx s') then Some s' else dispatch_loop H s' cursor')))"

declare dispatch_loop.simps [code]

text \<open>The feedback on a cancelled line.\<close>

definition cancel_feedback :: "('h, 'w) host \<Rightarrow> 'w cli_instance \<Rightarrow> 'w cli_instance option" where
  "cancel_feedback H s =
     (if cancel_req (tx s)
      then (let t0 = cli_out_discard ((tx s)\<lparr>cancel_req := False, tx_failed := False\<rparr>) in
            Option.bind (rx_drain (h_env H) (world t0)) (\<lambda>w.
            map_option (\<lambda>(r, t). s\<lparr>tx := t, last_result := CLI_DISPATCH_CANCELLED\<rparr>)
              (cli_write (h_env H) (t0\<lparr>world := w\<rparr>) [94, 67, 13, 10])))
      else Some s)"

text \<open>The return to the prompt.\<close>

definition back_to_prompt :: "('h, 'w) host \<Rightarrow> 'w cli_instance \<Rightarrow> 'w cli_instance option" where
  "back_to_prompt H s =
     Option.bind (st (line s) 0 0) (\<lambda>b.
     cli_prompt (h_env H)
       (s\<lparr>len := 0, cur := 0, line := b, rx := CLI_RX_NORMAL, hist_nav_on := False, hist_nav := 0,
          old_rows := (length (prompt s) div edit_cols s + 1) mod 256, draw_row := 0\<rparr>))"

definition cli_dispatch_line :: "('h, 'w) host \<Rightarrow> 'w cli_instance \<Rightarrow> 'w cli_instance option" where
  "cli_dispatch_line H s =
     Option.bind (cli_write (h_env H) ((tx s)\<lparr>tx_failed := False\<rparr>) [13, 10]) (\<lambda>(r, t1).
     Option.bind (st (line s) (len s) 0) (\<lambda>b.
     let s1 = s\<lparr>line := b, tx := h_reap H t1\<rparr> in
     Option.bind (if len s1 > 0 then cli_history_add s1 (cstr (line s1) 0) else Some s1) (\<lambda>s2.
     Option.bind (dispatch_loop H s2 (Some 0)) (\<lambda>s3.
     Option.bind (cancel_feedback H s3) (\<lambda>s4. back_to_prompt H s4)))))"

section \<open>The background test is local to its segment\<close>

lemma bg_loop_local:
  assumes "0 \<notin> set t" and "i \<le> length t"
  shows "bg_loop (pre @ t @ 0 # post) (length pre + i) q (map_option ((+) (length pre)) amp) aaa psa =
    map_option (apfst (map_option ((+) (length pre)))) (bg_loop (t @ [0]) i q amp aaa psa)"
  using assms(2)
proof (induction "length t - i" arbitrary: i q amp aaa psa rule: less_induct)
  case less
  let ?k = "length pre"
  show ?case
  proof (cases "i = length t")
    case True
    then show ?thesis
      by (simp add: bg_loop.simps [of "t @ [0]"] bg_loop.simps [of "pre @ t @ 0 # post"])
  next
    case False
    with less.prems have i: "i < length t" by simp
    have c: "(pre @ t @ 0 # post) ! (?k + i) = t ! i" "(t @ [0]) ! i = t ! i"
      using i by (simp_all add: nth_append)
    have c0: "t ! i \<noteq> 0" using i assms(1) by (metis nth_mem)
    have d: "ld (pre @ t @ 0 # post) (?k + i + 1) = ld (t @ [0]) (i + 1)"
      using i by (auto simp: ld_def nth_append)
    have IH1: "bg_loop (pre @ t @ 0 # post) (?k + i + 1) q' (map_option ((+) ?k) amp') aaa' psa' =
        map_option (apfst (map_option ((+) ?k))) (bg_loop (t @ [0]) (i + 1) q' amp' aaa' psa')"
      for q' amp' aaa' psa'
      using less.hyps [of "i + 1" q' amp' aaa' psa'] i by (simp add: add.assoc)
    have IH2: "bg_loop (pre @ t @ 0 # post) (?k + i + 2) q' (map_option ((+) ?k) amp') aaa' psa' =
        map_option (apfst (map_option ((+) ?k))) (bg_loop (t @ [0]) (i + 2) q' amp' aaa' psa')"
      if "ld (t @ [0]) (i + 1) = Some c'" "c' \<noteq> 0" for q' amp' aaa' psa' c'
    proof -
      have "i + 2 \<le> length t" using that i by (cases "i + 1 < length t") (auto simp: ld_def nth_append split: if_splits)
      with less.hyps [of "i + 2" q' amp' aaa' psa'] i show ?thesis by (simp add: add.assoc)
    qed
    have l: "?k + i < length (pre @ t @ 0 # post)" "i < length (t @ [0])" using i by simp_all
    note IHn = IH1 [where amp' = None, simplified] IH1 [where amp' = "Some i", simplified]
      IH2 [where amp' = None, simplified]
    show ?thesis
      unfolding bg_loop.simps [of "t @ [0]" i] bg_loop.simps [of "pre @ t @ 0 # post" "?k + i"]
        Let_def c d if_P [OF l(1)] if_P [OF l(2)] if_not_P [OF c0]
      by (auto simp: IH1 [unfolded Suc_eq_plus1 [symmetric]] IHn split: option.split)
  qed
qed

lemma bg_strip_local:
  "k \<le> length t \<Longrightarrow> bg_strip (pre @ t @ post) (length pre) k = pre @ bg_strip t 0 k @ post"
  by (induction k arbitrary: t) (auto simp: nth_append list_update_append)

lemma bg_strip_length [simp]: "length (bg_strip b off k) = length b"
  by (induction b off k rule: bg_strip.induct) simp_all

lemma seg_bg_local:
  assumes "0 \<notin> set t"
  obtains u r where "length u = length t"
    and "cli_segment_is_background (t @ [0]) 0 = Some (u @ [0], r)"
    and "cli_segment_is_background (pre @ t @ 0 # post) (length pre) = Some (pre @ u @ 0 # post, r)"
    and "\<not> r \<longrightarrow> u = t"
proof -
  obtain ra raa where loop: "bg_loop (t @ [0]) 0 0 None False False = Some (ra, raa)"
    and cand: "bg_cand 0 0 t None ra"
    using bg_loop_spec [of 0 "t @ [0]" t "[]" 0 None False False] assms by auto
  have loc: "bg_loop (pre @ t @ 0 # post) (length pre) 0 None False False =
      Some (map_option ((+) (length pre)) ra, raa)"
    using bg_loop_local [OF assms, of 0 pre post 0 None] loop by simp
  show ?thesis
  proof (cases "ra = None \<or> raa")
    case True
    with loop loc that [of t False] show ?thesis
      by (cases ra) (auto simp: cli_segment_is_background_def)
  next
    case False
    then obtain a where a: "ra = Some a" "\<not> raa" by auto
    with cand have lt: "a < length t" by (auto simp: bg_cand_def)
    have "(t @ [0])[a := 0] = [] @ t[a := 0] @ [0]"
      "(pre @ t @ 0 # post)[length pre + a := 0] = pre @ t[a := 0] @ 0 # post"
      using lt by (simp_all add: list_update_append)
    moreover have "bg_strip (t[a := 0] @ [0]) 0 a = bg_strip (t[a := 0]) 0 a @ [0]"
      using bg_strip_local [of a "t[a := 0]" "[]" "[0]"] lt by simp
    moreover have "bg_strip (pre @ t[a := 0] @ 0 # post) (length pre) a =
        pre @ bg_strip (t[a := 0]) 0 a @ 0 # post"
      by (rule bg_strip_local) (use lt in simp)
    ultimately show ?thesis
      using that [of "bg_strip (t[a := 0]) 0 a" True] loop loc a
      by (simp add: cli_segment_is_background_def)
  qed
qed

text \<open>The string-level background test: the text left of the operator, and the verdict.\<close>

definition bg_str :: "u8 list \<Rightarrow> u8 list \<times> bool" where
  "bg_str g =
     (case cli_segment_is_background (g @ [0]) 0 of
        None \<Rightarrow> (g, False)
      | Some (b, r) \<Rightarrow> (cstr b 0, r))"

lemma cstr_local: "cstr (pre @ u @ 0 # post) (length pre) = cstr (u @ [0]) 0"
  by (induction u) (auto simp: cstr_def)

lemma dispatch_background:
  assumes "0 \<notin> set t"
  obtains u where "length u = length t" and "\<not> snd (bg_str t) \<longrightarrow> u = t"
    and "cli_segment_is_background (pre @ t @ 0 # post) (length pre) =
      Some (pre @ u @ 0 # post, snd (bg_str t))"
    and "cstr (pre @ u @ 0 # post) (length pre) = fst (bg_str t)"
proof -
  from seg_bg_local [OF assms, of pre post] obtain u r where u: "length u = length t"
    "cli_segment_is_background (t @ [0]) 0 = Some (u @ [0], r)"
    "cli_segment_is_background (pre @ t @ 0 # post) (length pre) = Some (pre @ u @ 0 # post, r)"
    "\<not> r \<longrightarrow> u = t" by blast
  then show ?thesis
    by (intro that [of u]) (simp_all add: bg_str_def cstr_local [of pre u post])
qed

section \<open>The line on its text\<close>

text \<open>One segment, and the segments of a line, as the texts they are.\<close>

definition seg_spec ::
  "('h, 'w) host \<Rightarrow> bool \<Rightarrow> 'w cli_instance \<Rightarrow> u8 list \<Rightarrow> 'w cli_instance option" where
  "seg_spec H is_job s g =
     (case cli_parse_spec (h_roots H) g CLI_ARGV_CAP of
        (status, node, argv) \<Rightarrow>
          segment_switch H is_job status (map_option fst node)
            (case node of None \<Rightarrow> 0 | Some (c, level) \<Rightarrow> level - 1)
            (case node of None \<Rightarrow> 0 | Some (c, level) \<Rightarrow> level) argv
            (s\<lparr>tx := (tx s)\<lparr>tx_failed := False\<rparr>\<rparr>))"

fun run_segs :: "('h, 'w) host \<Rightarrow> u8 list list \<Rightarrow> 'w cli_instance \<Rightarrow> 'w cli_instance option" where
  "run_segs H [] s = Some s"
| "run_segs H (g # gs) s =
     (case bg_str g of
        (g', bg) \<Rightarrow>
          if bg then run_segs H gs (s\<lparr>tx := h_launch H g' (tx s)\<rparr>)
          else Option.bind (seg_spec H False s g) (\<lambda>s'.
               if cancel_req (tx s') then Some s' else run_segs H gs s'))"

text \<open>Neither looks at the line buffer or writes it.\<close>

lemma line_commute:
  "tx_update f (line_update g s) = line_update g (tx_update f s)"
  "last_result_update h (line_update g s) = line_update g (last_result_update h s)"
  by simp_all

lemma say_line:
  "say_error H msg (s\<lparr>line := b\<rparr>) = map_option (line_update (\<lambda>_. b)) (say_error H msg s)"
  "say_usage H c path (s\<lparr>line := b\<rparr>) = map_option (line_update (\<lambda>_. b)) (say_usage H c path s)"
  by (auto simp: say_error_def say_usage_def line_commute option.map_comp comp_def case_prod_unfold split: option.split)

lemma run_handler_line: "run_handler H j h args (s\<lparr>line := b\<rparr>) = (run_handler H j h args s)\<lparr>line := b\<rparr>"
  by (auto simp: run_handler_def Let_def case_prod_beta line_commute)

lemma segment_switch_line:
  "segment_switch H j status c base level argv (s\<lparr>line := b\<rparr>) =
    map_option (line_update (\<lambda>_. b)) (segment_switch H j status c base level argv s)"
  by (cases status)
    (auto simp: segment_switch_def say_line run_handler_line split: option.split bind_split)

lemma run_segs_line:
  "run_segs H gs (s\<lparr>line := b\<rparr>) = map_option (line_update (\<lambda>_. b)) (run_segs H gs s)"
proof (induction gs arbitrary: s)
  case (Cons g gs)
  have "seg_spec H False (s\<lparr>line := b\<rparr>) g = map_option (line_update (\<lambda>_. b)) (seg_spec H False s g)"
    using segment_switch_line [where s = "s\<lparr>tx := (tx s)\<lparr>tx_failed := False\<rparr>\<rparr>" and b = b]
    by (simp add: seg_spec_def case_prod_beta line_commute)
  then show ?case
    using Cons.IH by (auto simp: line_commute case_prod_beta option.map_comp comp_def split: bind_split)
qed simp

section \<open>The dispatcher refines it\<close>

definition stop_status :: "cli_parse_status \<Rightarrow> bool" where
  "stop_status e \<longleftrightarrow> e \<in> {CLI_PARSE_UNTERMINATED_QUOTE, CLI_PARSE_TOO_MANY_TOKENS,
      CLI_PARSE_NESTING_TOO_DEEP}"

lemma descend_spec_stop:
  "descend_spec k c level s args = SStop e \<Longrightarrow> stop_status e"
  by (induction k c level s args rule: descend_spec.induct)
    (subst (asm) (2) descend_spec.simps, auto simp: stop_status_def split: option.splits tok_view.splits
      nat.splits if_splits)

lemma args_spec_stop: "args_spec k s args = SStop e \<Longrightarrow> stop_status e"
  by (induction k s args rule: args_spec.induct)
    (subst (asm) (2) args_spec.simps, auto simp: stop_status_def split: tok_view.splits nat.splits)

lemma raw_need_spec_stop: "raw_need_spec n s args = SStop e \<Longrightarrow> stop_status e"
  by (induction n s args rule: raw_need_spec.induct)
    (auto simp: stop_status_def split: tok_view.splits if_splits)

lemma rest_spec_stop: "rest_spec cmd cap base s args = SStop e \<Longrightarrow> stop_status e"
  using args_spec_stop raw_need_spec_stop
  by (auto simp: rest_spec_def raw_tail_spec_def stop_status_def split: sstage.splits if_splits)

lemma cli_parse_spec_unresolved:
  assumes "cli_parse_spec roots g cap = (status, None, args)"
  shows "status = CLI_PARSE_NOT_FOUND \<and> args \<noteq> [] \<or> status = CLI_PARSE_EMPTY \<or> stop_status status"
proof (cases "next_spec g")
  case (TS_TOK t r)
  show ?thesis
  proof (cases "match_root roots t")
    case (Some c0)
    show ?thesis
    proof (cases "descend_spec (CLI_MAX_ARGC - 1) c0 1 r [t]")
      case (SStop e)
      with descend_spec_stop [OF SStop] TS_TOK Some assms show ?thesis
        by (auto simp: cli_parse_spec_def)
    next
      case (SGo s1 a1 cl)
      with TS_TOK Some assms have "\<exists>cap base. rest_spec (fst cl) cap base s1 a1 = SStop status"
        by (auto simp: cli_parse_spec_def split: sstage.splits prod.splits if_splits)
      with rest_spec_stop show ?thesis by blast
    qed
  qed (use TS_TOK assms in \<open>auto simp: cli_parse_spec_def\<close>)
qed (use assms in \<open>auto simp: cli_parse_spec_def stop_status_def\<close>)

lemma cli_dispatch_segment_refines:
  assumes l: "line s = pre @ g @ 0 # post" and g: "0 \<notin> set g"
  shows "\<exists>u. length u = Suc (length g) \<and> cli_dispatch_segment H is_job s (length pre) =
    map_option (line_update (\<lambda>_. pre @ u @ post)) (seg_spec H is_job s g)"
proof -
  obtain b argv res where p: "cli_parse (h_roots H) (g @ 0 # post) CLI_ARGV_CAP =
      Some (b, argv, fst (cli_parse_spec (h_roots H) g CLI_ARGV_CAP), res)"
    and len: "length b = length (g @ 0 # post)" and tl: "drop (Suc (length g)) b = post"
    and node: "case cli_parse_spec (h_roots H) g CLI_ARGV_CAP of
       (_, Some (c, l), args) \<Rightarrow> res = result_of c l argv \<and> map (cstr b) argv = args
     | (_, None, args) \<Rightarrow> res \<in> {no_result, no_result\<lparr>pr_argv := Some 0, pr_argc := 1\<rparr>} \<and>
         (args \<noteq> [] \<longrightarrow> map (cstr b) argv = args)"
    by (rule cli_parse_effect [OF g, of "h_roots H" post CLI_ARGV_CAP]) (rule that)
  let ?u = "take (Suc (length g)) b"
  have b: "b = ?u @ post" using tl append_take_drop_id [of "Suc (length g)" b] by simp
  obtain status nd args where sp: "cli_parse_spec (h_roots H) g CLI_ARGV_CAP = (status, nd, args)"
    by (cases "cli_parse_spec (h_roots H) g CLI_ARGV_CAP")
  let ?s0 = "s\<lparr>tx := (tx s)\<lparr>tx_failed := False\<rparr>\<rparr>"
  have "cli_dispatch_segment H is_job s (length pre) =
    segment_switch H is_job status (pr_cmd res) (case pr_argv res of None \<Rightarrow> 0 | Some i \<Rightarrow> i)
      (pr_level res) (map (cstr b) argv) (?s0\<lparr>line := pre @ b\<rparr>)"
    using p l sp by (simp add: cli_dispatch_segment_def)
  also have "\<dots> = map_option (line_update (\<lambda>_. pre @ b)) (segment_switch H is_job status
      (pr_cmd res) (case pr_argv res of None \<Rightarrow> 0 | Some i \<Rightarrow> i) (pr_level res) (map (cstr b) argv) ?s0)"
    by (rule segment_switch_line)
  also have "segment_switch H is_job status (pr_cmd res) (case pr_argv res of None \<Rightarrow> 0 | Some i \<Rightarrow> i)
      (pr_level res) (map (cstr b) argv) ?s0 = seg_spec H is_job s g"
  proof (cases nd)
    case None
    then show ?thesis
      using cli_parse_spec_unresolved [of "h_roots H" g CLI_ARGV_CAP status args] sp node
      by (auto simp: stop_status_def seg_spec_def segment_switch_def no_result_def)
  next
    case (Some n)
    obtain c l where "n = (c, l)" by (cases n)
    with Some sp node show ?thesis by (auto simp: seg_spec_def result_of_def)
  qed
  finally show ?thesis
    using len b by (intro exI [of _ ?u]) simp
qed

lemma next_segment_exact:
  assumes "0 \<notin> set t"
  shows "cli_next_segment (pre @ t @ 0 # post) (Some (length pre)) =
    (case split_spec 0 t of
       (g, None) \<Rightarrow> Some (Some (length pre, pre @ t @ 0 # post, None))
     | (g, Some r) \<Rightarrow>
         Some (Some (length pre, pre @ g @ 0 # r @ 0 # post, Some (Suc (length pre + length g)))))"
proof -
  obtain g ro where sp: "split_spec 0 t = (g, ro)" by (cases "split_spec 0 t")
  with split_spec_join [of 0 t] have t: "t = g @ (case ro of None \<Rightarrow> [] | Some r \<Rightarrow> SEMI # r)"
    by (simp add: unsplit_def)
  have "seg_loop (pre @ t @ 0 # post) (length pre) 0 =
      Some (case split_spec 0 t of (seg, None) \<Rightarrow> None | (seg, Some r) \<Rightarrow> Some (length pre + length seg))"
    by (rule seg_loop_refines) (use assms in simp_all)
  with sp t show ?thesis
    by (cases ro) (auto simp: cli_next_segment_def st_def list_update_append)
qed

lemma line_id: "line s = b \<Longrightarrow> s\<lparr>line := b\<rparr> = s"
  by simp

lemma run_segs_relined:
  "map_option (line_update (\<lambda>_. b')) (run_segs H gs (s\<lparr>line := b\<rparr>)) =
    map_option (line_update (\<lambda>_. b')) (run_segs H gs s)"
  by (simp add: run_segs_line option.map_comp comp_def)

lemma dispatch_loop_end: "dispatch_loop H s None = Some s"
  by (simp add: dispatch_loop.simps [of H s None] cli_next_segment_def)

text \<open>One round of the loop, given what the rest of the loop does.\<close>

lemma dispatch_round:
  assumes g: "0 \<notin> set g" and nx: "cli_next_segment (line s) (Some (length pre)) =
      Some (Some (length pre, pre @ g @ 0 # post, cur'))"
    and len: "length (line s) = length (pre @ g @ 0 # post)"
    and rest: "\<And>s' u. line s' = pre @ u @ post \<Longrightarrow> length u = Suc (length g) \<Longrightarrow>
      \<exists>b. length b = length (line s') \<and>
        dispatch_loop H s' cur' = map_option (line_update (\<lambda>_. b)) (run_segs H gs s')"
  shows "\<exists>b. length b = length (line s) \<and>
    dispatch_loop H s (Some (length pre)) =
      map_option (line_update (\<lambda>_. b)) (run_segs H (g # gs) s)"
proof -
  obtain u where u: "length u = length g" "\<not> snd (bg_str g) \<longrightarrow> u = g"
    "cli_segment_is_background (pre @ g @ 0 # post) (length pre) =
      Some (pre @ u @ 0 # post, snd (bg_str g))"
    "cstr (pre @ u @ 0 # post) (length pre) = fst (bg_str g)"
    using dispatch_background [OF g] by blast
  note step = dispatch_loop.simps [of H s "Some (length pre)"]
  show ?thesis
  proof (cases "snd (bg_str g)")
    case True
    let ?s' = "s\<lparr>line := pre @ u @ 0 # post, tx := h_launch H (fst (bg_str g)) (tx s)\<rparr>"
    obtain b where b: "length b = length (line ?s')"
      "dispatch_loop H ?s' cur' = map_option (line_update (\<lambda>_. b)) (run_segs H gs ?s')"
      using rest [of ?s' "u @ [0]"] u(1) by auto
    have "?s' = (s\<lparr>tx := h_launch H (fst (bg_str g)) (tx s)\<rparr>)\<lparr>line := pre @ u @ 0 # post\<rparr>"
      by (simp add: line_commute)
    with b True u nx len show ?thesis
      by (intro exI [of _ b]) (simp add: step case_prod_beta run_segs_relined line_commute)
  next
    case False
    obtain v where v: "length v = Suc (length g)"
      "cli_dispatch_segment H False (s\<lparr>line := pre @ g @ 0 # post\<rparr>) (length pre) =
        map_option (line_update (\<lambda>_. pre @ v @ post))
          (seg_spec H False (s\<lparr>line := pre @ g @ 0 # post\<rparr>) g)"
      using cli_dispatch_segment_refines [of "s\<lparr>line := pre @ g @ 0 # post\<rparr>" pre g post H False] g
      by auto
    have sp: "seg_spec H False (s\<lparr>line := pre @ g @ 0 # post\<rparr>) g =
        map_option (line_update (\<lambda>_. pre @ g @ 0 # post)) (seg_spec H False s g)"
      using segment_switch_line [where s = "s\<lparr>tx := (tx s)\<lparr>tx_failed := False\<rparr>\<rparr>"
          and b = "pre @ g @ 0 # post"]
      by (simp add: seg_spec_def case_prod_beta line_commute)
    have ug: "u = g" using u(2) False by simp
    have loop: "dispatch_loop H s (Some (length pre)) =
      Option.bind (map_option (line_update (\<lambda>_. pre @ v @ post)) (seg_spec H False s g)) (\<lambda>s'.
        if cancel_req (tx s') then Some s' else dispatch_loop H s' cur')"
      using nx u(3) False v(2) unfolding ug
      by (simp add: step sp option.map_comp comp_def)
    show ?thesis
    proof (cases "seg_spec H False s g")
      case None
      with loop False show ?thesis
        by (intro exI [of _ "line s"]) (simp add: case_prod_beta)
    next
      case (Some X)
      obtain b where b: "length b = length (pre @ v @ post)"
        "dispatch_loop H (X\<lparr>line := pre @ v @ post\<rparr>) cur' =
          map_option (line_update (\<lambda>_. b)) (run_segs H gs (X\<lparr>line := pre @ v @ post\<rparr>))"
        using rest [of "X\<lparr>line := pre @ v @ post\<rparr>" v] v(1) by auto
      show ?thesis
      proof (cases "cancel_req (tx X)")
        case True
        with loop Some False v(1) len show ?thesis
          by (intro exI [of _ "pre @ v @ post"]) (simp add: case_prod_beta)
      next
        case cont: False
        with loop Some False v(1) len b show ?thesis
          by (intro exI [of _ b]) (simp add: case_prod_beta run_segs_relined)
      qed
    qed
  qed
qed

lemma dispatch_loop_refines:
  fixes s :: "'w cli_instance"
  assumes "line s = pre @ t @ 0 # post" and "0 \<notin> set t"
  shows "\<exists>b. length b = length (line s) \<and> dispatch_loop H s (Some (length pre)) =
    map_option (line_update (\<lambda>_. b)) (run_segs H (segments t) s)"
  using assms
proof (induction t arbitrary: s pre rule: segments.induct)
  case (1 t)
  obtain g ro where sp: "split_spec 0 t = (g, ro)" by (cases "split_spec 0 t")
  with split_spec_join [of 0 t] have t: "t = g @ (case ro of None \<Rightarrow> [] | Some r \<Rightarrow> SEMI # r)"
    by (simp add: unsplit_def)
  have nx: "cli_next_segment (line s) (Some (length pre)) =
      Some (Some (length pre, pre @ g @ 0 # (case ro of None \<Rightarrow> post | Some r \<Rightarrow> r @ 0 # post),
        map_option (\<lambda>_. Suc (length pre + length g)) ro))"
    using next_segment_exact [OF 1(3), of pre post] 1(2) sp t by (simp split: option.split)
  have g: "0 \<notin> set g" using 1(3) t by auto
  show ?case
  proof (cases ro)
    case None
    with sp have seg: "segments t = [g]" by (simp add: segments.simps [of t])
    show ?thesis unfolding seg
      by (rule dispatch_round [OF g, of _ _ post None])
        (use nx None 1(2) t in \<open>auto simp: dispatch_loop_end intro!: exI [of _ "pre @ _ @ post"]\<close>)
  next
    case (Some r)
    with sp have seg: "segments t = g # segments r" by (simp add: segments.simps [of t])
    have r0: "0 \<notin> set r" using 1(3) t Some by auto
    show ?thesis unfolding seg
    proof (rule dispatch_round [OF g, of _ _ "r @ 0 # post" "Some (Suc (length pre + length g))"])
      fix s' :: "'w cli_instance" and u assume u: "line s' = pre @ u @ r @ 0 # post" "length u = Suc (length g)"
      show "\<exists>b. length b = length (line s') \<and>
          dispatch_loop H s' (Some (Suc (length pre + length g))) =
            map_option (line_update (\<lambda>_. b)) (run_segs H (segments r) s')"
        using "1.IH" [of g "Some r" r s' "pre @ u"] sp Some u r0 by simp
    qed (use nx Some 1(2) t in auto)
  qed
qed

section \<open>Every line is handled and leads back to the prompt\<close>

text \<open>The states a dispatch can leave behind: only the output state and the last result differ.\<close>

definition runs_to :: "'w cli_instance \<Rightarrow> 'w cli_instance option \<Rightarrow> bool" where
  "runs_to s out \<longleftrightarrow> (\<exists>t r. out = Some (s\<lparr>tx := t, last_result := r\<rparr>) \<and> txs_ok t)"

lemma runs_to_self: "txs_ok t \<Longrightarrow> runs_to s (Some (s\<lparr>tx := t\<rparr>))"
  unfolding runs_to_def by (intro exI [of _ t] exI [of _ "last_result s"]) simp

lemma runs_to_frame:
  "runs_to (s\<lparr>tx := t\<rparr>) out \<Longrightarrow> runs_to s out"
  "runs_to (s\<lparr>tx := t, last_result := r\<rparr>) out \<Longrightarrow> runs_to s out"
  by (auto simp: runs_to_def)

lemma say_runs:
  assumes "host_ok H" "txs_ok (tx s)"
  shows "runs_to s (say_error H msg s)" "runs_to s (say_usage H c path s)"
proof -
  have E: "env_ok (h_env H)" using assms(1) by (simp add: host_ok_def)
  obtain r t where "cli_error (h_env H) (tx s) msg = Some (r, t)" "txs_ok t"
    using cli_write_ok [OF E assms(2)] unfolding cli_error_def vemit_def by blast
  then show "runs_to s (say_error H msg s)"
    by (auto simp: say_error_def runs_to_def)
  show "runs_to s (say_usage H c path s)"
  proof (cases "usage_line c (usage_path True 0 path)")
    case None
    with assms(2) show ?thesis using runs_to_self [of "tx s" s] by (simp add: say_usage_def)
  next
    case (Some l)
    obtain r t where "cli_write (h_env H) (tx s) l = Some (r, t)" "txs_ok t"
      using cli_write_ok [OF E assms(2)] by blast
    with Some runs_to_self [of t s] show ?thesis
      by (simp add: say_usage_def cli_print_def vemit_def)
  qed
qed

lemma runs_to_bind:
  assumes "runs_to s out" and "\<And>s'. txs_ok (tx s') \<Longrightarrow> runs_to s' (f s')"
  shows "runs_to s (Option.bind out f)"
proof -
  obtain t r where o: "out = Some (s\<lparr>tx := t, last_result := r\<rparr>)" "txs_ok t"
    using assms(1) by (auto simp: runs_to_def)
  with assms(2) [of "s\<lparr>tx := t, last_result := r\<rparr>"] show ?thesis
    by (auto intro: runs_to_frame)
qed

lemma run_handler_runs:
  assumes "host_ok H" "txs_ok (tx s)"
  shows "runs_to s (Some (run_handler H j h args s))"
proof -
  let ?t0 = "(tx s)\<lparr>cancel_req := (if j then cancel_req (tx s) else False), dispatching := True\<rparr>"
  have "txs_ok (snd (h_run H h args ?t0))"
    using assms by (simp add: host_ok_def txs_ok_def)
  then show ?thesis
    by (auto simp: run_handler_def runs_to_def Let_def case_prod_beta txs_ok_def)
qed

lemma cli_parse_spec_resolved:
  assumes "cli_parse_spec roots g cap = (status, Some (c, l), args)"
  shows "l - 1 < length args \<and> (status = CLI_PARSE_OK \<longrightarrow> cmd_handler c \<noteq> None)"
proof -
  from assms obtain t r c0 where t: "next_spec g = TS_TOK t r" "match_root roots t = Some c0"
    by (auto simp: cli_parse_spec_def split: tok_view.splits option.splits)
  from assms t obtain s1 args1 where
    d: "descend_spec (CLI_MAX_ARGC - 1) c0 1 r [t] = SGo s1 args1 (c, l)"
    by (cases "descend_spec (CLI_MAX_ARGC - 1) c0 1 r [t]")
      (auto simp: cli_parse_spec_def split: if_splits sstage.splits)
  have res: "resolve roots [t] = Some c0" using t by (simp add: resolve_def)
  from descend_spec_sound [OF d res] have l: "0 < l" "l \<le> length args1" "length args1 \<le> CLI_MAX_ARGC"
    by (auto simp: CLI_MAX_ARGC_def)
  show ?thesis
  proof (cases "cmd_handler c = None")
    case True
    with assms t d l show ?thesis by (auto simp: cli_parse_spec_def)
  next
    case False
    with assms t d obtain s2 u where rs: "rest_spec c cap (l - 1) s1 args1 = SGo s2 args u"
      by (auto simp: cli_parse_spec_def split: sstage.splits)
    from rest_spec_ext [OF rs l(3)] obtain ext where "args = args1 @ ext" by blast
    with l False show ?thesis by auto
  qed
qed

lemma seg_spec_runs:
  assumes "host_ok H" "txs_ok (tx s)"
  shows "runs_to s (seg_spec H j s g)"
proof -
  obtain status node args where sp: "cli_parse_spec (h_roots H) g CLI_ARGV_CAP = (status, node, args)"
    by (cases "cli_parse_spec (h_roots H) g CLI_ARGV_CAP")
  let ?s = "s\<lparr>tx := (tx s)\<lparr>tx_failed := False\<rparr>\<rparr>"
  have ok: "txs_ok (tx ?s)" using assms(2) by (simp add: txs_ok_def)
  have id: "runs_to ?s (Some ?s)" using runs_to_self [of "tx ?s" ?s] ok by simp
  have "runs_to ?s (seg_spec H j s g)"
  proof (cases node)
    case None
    from cli_parse_spec_unresolved [OF sp [unfolded None]] sp None show ?thesis
      using say_runs [OF assms(1) ok] id
      by (auto simp: seg_spec_def segment_switch_def stop_status_def ld_def)
  next
    case (Some n)
    obtain c l where n: "n = (c, l)" by (cases n)
    from cli_parse_spec_resolved [OF sp [unfolded Some n]]
    have l: "l - 1 < length args" "status = CLI_PARSE_OK \<longrightarrow> cmd_handler c \<noteq> None" by auto
    have wrong: "runs_to ?s (Option.bind (say_error H m ?s) (say_usage H c path))" for m path
      by (rule runs_to_bind [OF say_runs(1) [OF assms(1) ok]]) (rule say_runs(2) [OF assms(1)])
    show ?thesis
      using l sp Some n wrong say_runs [OF assms(1) ok] id run_handler_runs [OF assms(1) ok]
      by (cases status) (auto simp: seg_spec_def segment_switch_def ld_def)
  qed
  then show ?thesis by (rule runs_to_frame)
qed

lemma run_segs_runs:
  assumes "host_ok H" "txs_ok (tx s)"
  shows "runs_to s (run_segs H gs s)"
  using assms(2)
proof (induction gs arbitrary: s)
  case Nil
  then show ?case using runs_to_self [of "tx s" s] by simp
next
  case (Cons g gs)
  have id: "txs_ok (tx s') \<Longrightarrow> runs_to s' (Some s')" for s' :: "'b cli_instance"
    using runs_to_self [of "tx s'" s'] by simp
  show ?case
  proof (cases "snd (bg_str g)")
    case True
    have "txs_ok (h_launch H (fst (bg_str g)) (tx s))"
      using assms(1) Cons.prems by (simp add: host_ok_def)
    with Cons.IH [of "s\<lparr>tx := h_launch H (fst (bg_str g)) (tx s)\<rparr>"] True show ?thesis
      by (auto simp: case_prod_beta intro: runs_to_frame)
  next
    case False
    have "runs_to s (Option.bind (seg_spec H False s g)
        (\<lambda>s'. if cancel_req (tx s') then Some s' else run_segs H gs s'))"
      by (rule runs_to_bind [OF seg_spec_runs [OF assms(1) Cons.prems]]) (use Cons.IH id in auto)
    with False show ?thesis by (simp add: case_prod_beta)
  qed
qed

text \<open>What the drains need of the transport: every read that delivers something uses it up.\<close>

definition drains :: "'w env \<Rightarrow> bool" where
  "drains E \<longleftrightarrow> (\<exists>m :: 'w \<Rightarrow> nat. \<forall>n w. fst (e_read E n w) \<noteq> [] \<longrightarrow> m (snd (e_read E n w)) < m w)"

lemma rx_drain_total:
  assumes "drains E"
  shows "\<exists>w'. rx_drain E w = Some w'"
proof -
  obtain m :: "'a \<Rightarrow> nat" where m: "\<And>n w. fst (e_read E n w) \<noteq> [] \<Longrightarrow> m (snd (e_read E n w)) < m w"
    using assms by (auto simp: drains_def)
  show ?thesis
  proof (induction w rule: measure_induct_rule [of m])
    case (less w)
    then show ?case using m [of 1 w]
      by (subst rx_drain.simps) (auto simp: case_prod_beta)
  qed
qed

lemma cancel_drain_total:
  assumes "drains E"
  shows "\<exists>t'. cancel_drain E t = Some t' \<and> (cancel_req t \<longrightarrow> cancel_req t')"
proof -
  obtain m :: "'a \<Rightarrow> nat" where m: "\<And>n w. fst (e_read E n w) \<noteq> [] \<Longrightarrow> m (snd (e_read E n w)) < m w"
    using assms by (auto simp: drains_def)
  show ?thesis
  proof (induction t rule: measure_induct_rule [of "\<lambda>t. m (world t)"])
    case (less t)
    let ?r = "e_read E CLI_RX_DRAIN_CHUNK (world t)"
    let ?t = "t\<lparr>world := snd ?r, cancel_req := cancel_req t \<or> 3 \<in> set (fst ?r)\<rparr>"
    show ?case
    proof (cases "fst ?r = []")
      case False
      from less.IH [of ?t] m [OF False] obtain t' where
        "cancel_drain E ?t = Some t'" "cancel_req ?t \<longrightarrow> cancel_req t'" by auto
      with False show ?thesis
        by (subst cancel_drain.simps) (auto simp: case_prod_beta)
    qed (subst cancel_drain.simps, simp add: case_prod_beta)
  qed
qed

lemma cancel_feedback_runs:
  assumes "host_ok H" "drains (h_env H)" "txs_ok (tx s)"
  shows "\<exists>t. cancel_feedback H s = Some (s\<lparr>tx := t, last_result :=
    (if cancel_req (tx s) then CLI_DISPATCH_CANCELLED else last_result s)\<rparr>) \<and> txs_ok t"
proof (cases "cancel_req (tx s)")
  case True
  let ?t0 = "cli_out_discard ((tx s)\<lparr>cancel_req := False, tx_failed := False\<rparr>)"
  obtain w where w: "rx_drain (h_env H) (world ?t0) = Some w"
    using rx_drain_total [OF assms(2)] by blast
  have "txs_ok (?t0\<lparr>world := w\<rparr>)" using assms(3) by (simp add: txs_ok_def cli_out_discard_def)
  then obtain r t where
    "cli_write (h_env H) (?t0\<lparr>world := w\<rparr>) [94, 67, 13, 10] = Some (r, t)" "txs_ok t"
    using cli_write_ok assms(1) unfolding host_ok_def by blast
  with w True show ?thesis by (intro exI [of _ t]) (simp add: cancel_feedback_def Let_def)
next
  case False
  with assms(3) show ?thesis
    by (intro exI [of _ "tx s"]) (simp add: cancel_feedback_def)
qed

lemma back_to_prompt_runs:
  assumes "host_ok H" "txs_ok (tx s)" "length (line s) = CLI_CMD_BUFFER_SIZE"
  shows "\<exists>s'. back_to_prompt H s = Some s' \<and> editable s' [] [] \<and> rx s' = CLI_RX_NORMAL \<and>
    \<not> hist_nav_on s' \<and> hist s' = hist s \<and> hist_used s' = hist_used s \<and>
    last_result s' = last_result s \<and> prompt s' = prompt s \<and> draw_row s' = 0 \<and>
    prev_cr s' = prev_cr s \<and> bs_swap s' = bs_swap s \<and> overwrite s' = overwrite s"
proof -
  let ?s = "s\<lparr>len := 0, cur := 0, line := (line s)[0 := 0], rx := CLI_RX_NORMAL,
    hist_nav_on := False, hist_nav := 0,
    old_rows := (length (prompt s) div edit_cols s + 1) mod 256, draw_row := 0\<rparr>"
  obtain t where t: "cli_prompt (h_env H) ?s = Some (?s\<lparr>tx := t\<rparr>)" "txs_ok t"
    using cli_prompt_ok [of "h_env H" ?s] assms(1,2) by (auto simp: host_ok_def)
  obtain c cs where "line s = c # cs" using assms(3) by (cases "line s") (auto simp: CLI_CMD_BUFFER_SIZE_def)
  with t assms(3) show ?thesis
    by (intro exI [of _ "?s\<lparr>tx := t\<rparr>"])
      (simp add: back_to_prompt_def st_def CLI_CMD_BUFFER_SIZE_def editable_def)
qed

lemma cli_dispatch_line_effect:
  assumes "host_ok H" and "drains (h_env H)" and "line_ok s" and "txs_ok (tx s)"
    and "hist_rep (hist s) (hist_used s) es"
  shows "\<exists>r t h u s2 s'.
    cli_write (h_env H) ((tx s)\<lparr>tx_failed := False\<rparr>) [13, 10] = Some (r, t) \<and>
    run_segs H (segments (line_text s)) (s\<lparr>tx := h_reap H t, hist := h, hist_used := u\<rparr>) = Some s2 \<and>
    hist_rep h u (add_spec es (line_text s)) \<and>
    cli_dispatch_line H s = Some s' \<and>
    editable s' [] [] \<and> rx s' = CLI_RX_NORMAL \<and> \<not> hist_nav_on s' \<and> prompt s' = prompt s \<and>
    hist s' = h \<and> hist_used s' = u \<and>
    last_result s' = (if cancel_req (tx s2) then CLI_DISPATCH_CANCELLED else last_result s2) \<and>
    prev_cr s' = prev_cr s \<and> bs_swap s' = bs_swap s \<and> overwrite s' = overwrite s"
proof -
  let ?t = "line_text s"
  have E: "env_ok (h_env H)" using assms(1) by (simp add: host_ok_def)
  have "txs_ok ((tx s)\<lparr>tx_failed := False\<rparr>)" using assms(4) by (simp add: txs_ok_def)
  from cli_write_ok [OF E this, of "[13, 10]"] obtain r t where
    t: "cli_write (h_env H) ((tx s)\<lparr>tx_failed := False\<rparr>) [13, 10] = Some (r, t)" "txs_ok t" by blast
  have rt: "txs_ok (h_reap H t)" using assms(1) t(2) by (simp add: host_ok_def)
  have t0: "0 \<notin> set ?t" using assms(3) by (simp add: line_ok_def line_text_def)
  obtain post where l: "line s = ?t @ 0 # post"
    and len: "len s = length ?t" "length (line s) = CLI_CMD_BUFFER_SIZE"
    using line_ok_editable [OF assms(3,4)]
    by (auto simp: editable_def append_assoc [symmetric] simp del: append_assoc)
  have nul: "st (line s) (len s) 0 = Some (line s)"
    using l len by (auto simp: st_def list_update_append)
  have cs: "cstr (line s) 0 = ?t" using cstr_drop [of 0 "line s" ?t post] l t0 by simp
  let ?s1 = "s\<lparr>tx := h_reap H t\<rparr>"
  obtain h u where a: "cli_history_add ?s1 ?t = Some (?s1\<lparr>hist := h, hist_used := u\<rparr>)"
    "hist_rep h u (add_spec es ?t)"
    using cli_history_add_refines [of ?s1 es ?t] assms(5) t0 by auto
  let ?s2 = "s\<lparr>tx := h_reap H t, hist := h, hist_used := u\<rparr>"
  have add: "(if len ?s1 > 0 then cli_history_add ?s1 (cstr (line ?s1) 0) else Some ?s1) = Some ?s2"
    using a(1) cs len(1) by (cases "?t = []") (simp_all add: cli_history_add_def)
  obtain t2 r2 where run: "run_segs H (segments ?t) ?s2 = Some (?s2\<lparr>tx := t2, last_result := r2\<rparr>)"
    "txs_ok t2"
    using run_segs_runs [of H ?s2 "segments ?t"] assms(1) rt by (auto simp: runs_to_def)
  obtain b where b: "length b = length (line ?s2)" "dispatch_loop H ?s2 (Some 0) =
      map_option (line_update (\<lambda>_. b)) (run_segs H (segments ?t) ?s2)"
    using dispatch_loop_refines [of ?s2 "[]" ?t post H] l t0 by auto
  from b run obtain s3 where s3: "dispatch_loop H ?s2 (Some 0) = Some s3" "tx s3 = t2"
    "last_result s3 = r2" "hist s3 = h" "hist_used s3 = u" "prompt s3 = prompt s"
    "prev_cr s3 = prev_cr s" "bs_swap s3 = bs_swap s" "overwrite s3 = overwrite s"
    "length (line s3) = CLI_CMD_BUFFER_SIZE"
    using len(2) by auto
  obtain s4 where s4: "cancel_feedback H s3 = Some s4" "txs_ok (tx s4)" "hist s4 = h" "hist_used s4 = u"
    "prompt s4 = prompt s"
    "prev_cr s4 = prev_cr s" "bs_swap s4 = bs_swap s" "overwrite s4 = overwrite s"
    "length (line s4) = CLI_CMD_BUFFER_SIZE"
    "last_result s4 = (if cancel_req t2 then CLI_DISPATCH_CANCELLED else r2)"
    using cancel_feedback_runs [OF assms(1,2), of s3] run(2) s3 by auto
  obtain s' where s': "back_to_prompt H s4 = Some s'" "editable s' [] []" "rx s' = CLI_RX_NORMAL"
    "\<not> hist_nav_on s'" "hist s' = h" "hist_used s' = u"
    "last_result s' = (if cancel_req t2 then CLI_DISPATCH_CANCELLED else r2)" "prompt s' = prompt s"
    "prev_cr s' = prev_cr s" "bs_swap s' = bs_swap s" "overwrite s' = overwrite s"
    using back_to_prompt_runs [OF assms(1) s4(2,9)] s4 by auto
  have "cli_dispatch_line H s = Some s'"
    using t(1) nul add s3(1) s4(1) s'(1) by (simp add: cli_dispatch_line_def)
  with t run a(2) s'(2-) show ?thesis
    by (intro exI [of _ r] exI [of _ t] exI [of _ h] exI [of _ u]
        exI [of _ "?s2\<lparr>tx := t2, last_result := r2\<rparr>"] exI [of _ s']) simp
qed

text \<open>C27. A submitted line is executed as its text says, and the shell is back at an empty prompt
  whatever the line was and whatever its commands did: the dispatcher, which rewrites the line
  buffer in place, neither faults nor loops, runs exactly the segments of the line in order
  (\<open>run_segs\<close>: each one launched as a job, run through its handler or refused with a message,
  up to the first one that ends cancelled), puts the line into the history, and reports the
  cancelled status for a cancelled line and the last command's otherwise.\<close>

theorem cli_dispatch_line_refines:
  assumes "host_ok H" and "drains (h_env H)" and "line_ok s" and "txs_ok (tx s)"
    and "hist_rep (hist s) (hist_used s) es"
  shows "\<exists>r t h u s2 s'.
    cli_write (h_env H) ((tx s)\<lparr>tx_failed := False\<rparr>) [13, 10] = Some (r, t) \<and>
    run_segs H (segments (line_text s)) (s\<lparr>tx := h_reap H t, hist := h, hist_used := u\<rparr>) = Some s2 \<and>
    hist_rep h u (add_spec es (line_text s)) \<and>
    cli_dispatch_line H s = Some s' \<and>
    editable s' [] [] \<and> rx s' = CLI_RX_NORMAL \<and> \<not> hist_nav_on s' \<and> prompt s' = prompt s \<and>
    hist s' = h \<and> hist_used s' = u \<and>
    last_result s' = (if cancel_req (tx s2) then CLI_DISPATCH_CANCELLED else last_result s2)"
  using cli_dispatch_line_effect [OF assms] by blast

text \<open>
  A host with one command \<open>hi\<close> that keeps its result, and a line with three segments, of which
  the first has a bad name.
\<close>

definition sample_host :: "(int, unit) host" where
  "sample_host = \<lparr>h_env = plain_env,
     h_roots = [Cmd (Some (str ''hi'')) None None None (Some 7) 1 0],
     h_run = (\<lambda>h args t. (h, t)), h_reap = (\<lambda>t. t), h_launch = (\<lambda>g t. t)\<rparr>"

definition sample_line :: "unit cli_instance" where
  "sample_line = fresh_instance\<lparr>line := str ''ho;hi&;hi'' @ replicate 247 0, len := 9, cur := 9\<rparr>"

lemma sample_host_ok: "host_ok sample_host" "drains (h_env sample_host)"
  using plain_env_ok by (auto simp: host_ok_def sample_host_def drains_def)
    (simp add: plain_env_def)

lemma cli_dispatch_line_refines_witness:
  "\<exists>s'. cli_dispatch_line sample_host sample_line = Some s' \<and> editable s' [] [] \<and>
    hist_rep (hist s') (hist_used s') [str ''ho;hi&;hi'']"
proof -
  have lt: "add_spec [] (line_text sample_line) = [str ''ho;hi&;hi'']"
    by code_simp
  have ok: "line_ok sample_line" "txs_ok (tx sample_line)"
    by code_simp+
  moreover have "hist_rep (hist sample_line) (hist_used sample_line) []"
    by (simp add: hist_rep_def sample_line_def fresh_instance_def)
  ultimately have "\<exists>s'. cli_dispatch_line sample_host sample_line = Some s' \<and> editable s' [] [] \<and>
      hist_rep (hist s') (hist_used s') (add_spec [] (line_text sample_line))"
    using cli_dispatch_line_refines [OF sample_host_ok, of sample_line "[]"] by auto
  then show ?thesis unfolding lt .
qed

end
