(* ===== verification/CliEdit.thy ===== *)
theory CliEdit
  imports CliComplete CliSession
begin

text \<open>
  The key handling of \<open>shell/core/cli_edit.c\<close>: the edit operations, the escape-sequence
  parser and the byte input state machine. Every operation is a partial function on the
  instance; that it is total, and what it does, is stated on the text around the cursor
  (\<open>editable s b a\<close>).
\<close>

section \<open>Edit operations\<close>

definition pend :: "'w cli_instance \<Rightarrow> nat" where
  "pend s = length (prompt s) + len s"

definition fast_append :: "'w env \<Rightarrow> 'w cli_instance \<Rightarrow> u8 \<Rightarrow> (bool \<times> 'w cli_instance) option" where
  "fast_append E s c =
     (if cur s \<noteq> len s \<or> (pend s + 1) mod edit_cols s = 0 then Some (False, s)
      else Option.bind (st (line s) (len s) c) (\<lambda>b.
           Option.bind (st b (len s + 1) 0) (\<lambda>b'.
           map_option (Pair True)
             (edit_write E (s\<lparr>line := b', len := len s + 1, cur := len s + 1\<rparr>) [c]))))"

definition fast_backspace :: "'w env \<Rightarrow> 'w cli_instance \<Rightarrow> (bool \<times> 'w cli_instance) option" where
  "fast_backspace E s =
     (if cur s \<noteq> len s \<or> len s = 0 \<or> pend s mod edit_cols s = 0 then Some (False, s)
      else Option.bind (st (line s) (len s - 1) 0) (\<lambda>b.
           map_option (Pair True)
             (edit_write E (s\<lparr>line := b, len := len s - 1, cur := len s - 1\<rparr>) [8, 32, 8])))"

definition op_insert :: "'w env \<Rightarrow> 'w cli_instance \<Rightarrow> u8 \<Rightarrow> 'w cli_instance option" where
  "op_insert E s c =
     (if overwrite s \<and> cur s < len s
      then Option.bind (st (line s) (cur s) c) (\<lambda>b.
           cli_edit_refresh E (s\<lparr>line := b, cur := cur s + 1\<rparr>))
      else if len s \<ge> CLI_CMD_BUFFER_SIZE - 1 then edit_write E s [7]
      else if cur s = len s
      then Option.bind (fast_append E s c) (\<lambda>(done, s1).
           if done then Some s1
           else Option.bind (st (line s1) (len s1) c) (\<lambda>b.
                Option.bind (st b (len s1 + 1) 0) (\<lambda>b'.
                cli_edit_refresh E (s1\<lparr>line := b', len := len s1 + 1, cur := len s1 + 1\<rparr>))))
      else Option.bind (mov (line s) (cur s + 1) (cur s) (len s - cur s)) (\<lambda>b.
           Option.bind (st b (cur s) c) (\<lambda>b'.
           Option.bind (st b' (len s + 1) 0) (\<lambda>b''.
           cli_edit_refresh E (s\<lparr>line := b'', len := len s + 1, cur := cur s + 1\<rparr>)))))"

text \<open>
  The common shape of the deletions: the text from \<open>src\<close> on moves down to \<open>dst\<close>, the line is
  terminated at its new length \<open>n\<close>, the cursor set and the line repainted.
\<close>

definition cut ::
  "'w env \<Rightarrow> 'w cli_instance \<Rightarrow> nat \<Rightarrow> nat \<Rightarrow> nat \<Rightarrow> nat \<Rightarrow> 'w cli_instance option" where
  "cut E s dst src n c =
     Option.bind (mov (line s) dst src (len s - src)) (\<lambda>b.
     Option.bind (st b n 0) (\<lambda>b'. cli_edit_refresh E (s\<lparr>line := b', len := n, cur := c\<rparr>)))"

definition op_backspace :: "'w env \<Rightarrow> 'w cli_instance \<Rightarrow> 'w cli_instance option" where
  "op_backspace E s =
     (if cur s = 0 then Some s
      else Option.bind (fast_backspace E s) (\<lambda>(done, s1).
           if done then Some s1 else cut E s1 (cur s1 - 1) (cur s1) (len s1 - 1) (cur s1 - 1)))"

definition op_delete_fwd :: "'w env \<Rightarrow> 'w cli_instance \<Rightarrow> 'w cli_instance option" where
  "op_delete_fwd E s =
     (if cur s \<ge> len s then Some s else cut E s (cur s) (cur s + 1) (len s - 1) (cur s))"

definition op_kill_eol :: "'w env \<Rightarrow> 'w cli_instance \<Rightarrow> 'w cli_instance option" where
  "op_kill_eol E s =
     (if cur s \<ge> len s then Some s
      else Option.bind (st (line s) (cur s) 0) (\<lambda>b. cli_edit_refresh E (s\<lparr>len := cur s, line := b\<rparr>)))"

definition op_kill_bol :: "'w env \<Rightarrow> 'w cli_instance \<Rightarrow> 'w cli_instance option" where
  "op_kill_bol E s = (if cur s = 0 then Some s else cut E s 0 (cur s) (len s - cur s) 0)"

fun back_over :: "(u8 \<Rightarrow> bool) \<Rightarrow> u8 list \<Rightarrow> nat \<Rightarrow> nat" where
  "back_over p ln 0 = 0"
| "back_over p ln (Suc i) = (if p (ln ! i) then back_over p ln i else Suc i)"

definition word_start :: "'w cli_instance \<Rightarrow> nat \<Rightarrow> nat" where
  "word_start s i = back_over (\<lambda>c. c \<noteq> 32) (line s) (back_over (\<lambda>c. c = 32) (line s) i)"

definition word_end :: "'w cli_instance \<Rightarrow> nat \<Rightarrow> nat" where
  "word_end s i = ro_span (\<lambda>c. c \<noteq> 32) (line s) (ro_span (\<lambda>c. c = 32) (line s) i (len s)) (len s)"

definition op_del_word :: "'w env \<Rightarrow> 'w cli_instance \<Rightarrow> 'w cli_instance option" where
  "op_del_word E s =
     (if cur s = 0 then Some s
      else let i = word_start s (cur s) in cut E s i (cur s) (len s - (cur s - i)) i)"

definition move_to :: "'w env \<Rightarrow> 'w cli_instance \<Rightarrow> nat \<Rightarrow> 'w cli_instance option" where
  "move_to E s i = edit_reposition E (s\<lparr>cur := i\<rparr>)"

definition op_left :: "'w env \<Rightarrow> 'w cli_instance \<Rightarrow> 'w cli_instance option" where
  "op_left E s = (if cur s > 0 then move_to E s (cur s - 1) else Some s)"

definition op_right :: "'w env \<Rightarrow> 'w cli_instance \<Rightarrow> 'w cli_instance option" where
  "op_right E s = (if cur s < len s then move_to E s (cur s + 1) else Some s)"

definition op_home :: "'w env \<Rightarrow> 'w cli_instance \<Rightarrow> 'w cli_instance option" where
  "op_home E s = (if cur s > 0 then move_to E s 0 else Some s)"

definition op_end :: "'w env \<Rightarrow> 'w cli_instance \<Rightarrow> 'w cli_instance option" where
  "op_end E s = (if cur s < len s then move_to E s (len s) else Some s)"

definition op_word_left :: "'w env \<Rightarrow> 'w cli_instance \<Rightarrow> 'w cli_instance option" where
  "op_word_left E s =
     (let i = word_start s (cur s) in if i \<noteq> cur s then move_to E s i else Some s)"

definition op_word_right :: "'w env \<Rightarrow> 'w cli_instance \<Rightarrow> 'w cli_instance option" where
  "op_word_right E s =
     (let i = word_end s (cur s) in if i \<noteq> cur s then move_to E s i else Some s)"

text \<open>A control sequence written under the lock, outside a repaint.\<close>

definition put_seq :: "'w env \<Rightarrow> 'w cli_instance \<Rightarrow> u8 list \<Rightarrow> 'w cli_instance option" where
  "put_seq E s bs =
     (case cli_lock E (tx s) of
        (ok, t) \<Rightarrow>
          if ok then map_option (\<lambda>t'. s\<lparr>tx := cli_unlock E (cli_out_flush E t')\<rparr>) (cli_out_bytes E t bs)
          else Some (s\<lparr>tx := t\<lparr>tx_failed := True\<rparr>\<rparr>))"

definition op_clear_screen :: "'w env \<Rightarrow> 'w cli_instance \<Rightarrow> 'w cli_instance option" where
  "op_clear_screen E s =
     Option.bind (put_seq E s CLR_SCREEN) (\<lambda>s1. cli_edit_refresh E (s1\<lparr>old_rows := 0, draw_row := 0\<rparr>))"

section \<open>Escape sequences\<close>

definition cpr_reply :: "'w env \<Rightarrow> 'w cli_instance \<Rightarrow> 'w cli_instance option" where
  "cpr_reply E s =
     (if probing_cpr s \<and> \<not> esc_bad s \<and> esc_np s = 2 \<and> esc_p1 s \<ge> 20 \<and> esc_p1 s \<le> 255
      then (let w = unat (esc_p1 s); s1 = s\<lparr>probing_cpr := False\<rparr> in
            if w \<noteq> term_width s1 then cli_edit_refresh E (s1\<lparr>term_width := w\<rparr>) else Some s1)
      else Some s)"

definition tilde_final :: "'w env \<Rightarrow> 'w cli_instance \<Rightarrow> 'w cli_instance option" where
  "tilde_final E s =
     (let n = (if esc_np s \<ge> 1 then esc_p0 s else 0) in
      if n = 1 \<or> n = 7 then op_home E s
      else if n = 4 \<or> n = 8 then op_end E s
      else if n = 2 then Some (s\<lparr>overwrite := \<not> overwrite s\<rparr>)
      else if n = 3 then op_delete_fwd E s
      else Some s)"

definition ss3_final :: "'w env \<Rightarrow> 'w cli_instance \<Rightarrow> u8 \<Rightarrow> 'w cli_instance option" where
  "ss3_final E s f =
     (if f = 65 then cli_history_prev E s
      else if f = 66 then cli_history_next E s
      else if f = 67 then op_right E s
      else if f = 68 then op_left E s
      else if f = 72 then op_home E s
      else if f = 70 then op_end E s
      else Some s)"

definition csi_final :: "'w env \<Rightarrow> 'w cli_instance \<Rightarrow> u8 \<Rightarrow> 'w cli_instance option" where
  "csi_final E s f =
     (if f = 65 then cli_history_prev E s
      else if f = 66 then cli_history_next E s
      else if f = 67 then op_right E s
      else if f = 68 then op_left E s
      else if f = 72 then op_home E s
      else if f = 70 then op_end E s
      else if f = 126 then tilde_final E s
      else if f = 82 then cpr_reply E s
      else Some s)"

section \<open>The byte input state machine\<close>

definition edit_submit :: "('h, 'w) host \<Rightarrow> 'w cli_instance \<Rightarrow> 'w cli_instance option" where
  "edit_submit H s =
     Option.bind (if cur s \<noteq> len s then move_to (h_env H) s (len s) else Some s)
       (cli_dispatch_line H)"

definition input_ctrl_c :: "'w env \<Rightarrow> 'w cli_instance \<Rightarrow> 'w cli_instance option" where
  "input_ctrl_c E s =
     Option.bind
       (edit_write E (s\<lparr>rx := CLI_RX_NORMAL, prev_cr := False, tx := (tx s)\<lparr>tx_failed := False\<rparr>\<rparr>)
         [94, 67, 13, 10]) (\<lambda>s1.
     Option.bind (st (line s1) 0 0) (\<lambda>b.
     cli_prompt E (s1\<lparr>len := 0, cur := 0, line := b, hist_nav_on := False,
       old_rows := (length (prompt s1) div edit_cols s1 + 1) mod 256, draw_row := 0\<rparr>)))"

definition input_esc :: "'w env \<Rightarrow> 'w cli_instance \<Rightarrow> u8 \<Rightarrow> 'w cli_instance option" where
  "input_esc E s c =
     (if c = 91
      then Some (s\<lparr>rx := CLI_RX_CSI, esc_np := 0, esc_bad := False, esc_p0 := 0, esc_p1 := 0\<rparr>)
      else if c = 79 then Some (s\<lparr>rx := CLI_RX_SS3\<rparr>)
      else (let s1 = s\<lparr>rx := CLI_RX_NORMAL\<rparr> in
            if c = 98 then op_word_left E s1
            else if c = 102 then op_word_right E s1
            else Some s1))"

definition csi_digit :: "'w cli_instance \<Rightarrow> u8 \<Rightarrow> 'w cli_instance" where
  "csi_digit s c =
     (let np = (if esc_np s = 0 then 1 else esc_np s); d = ucast c - 48 in
      if np = 1 then s\<lparr>esc_np := np, esc_p0 := esc_p0 s * 10 + d\<rparr>
      else s\<lparr>esc_np := np, esc_p1 := esc_p1 s * 10 + d\<rparr>)"

definition input_csi :: "'w env \<Rightarrow> 'w cli_instance \<Rightarrow> u8 \<Rightarrow> 'w cli_instance option" where
  "input_csi E s c =
     (if 48 \<le> c \<and> c \<le> 57 then Some (csi_digit s c)
      else if c = 59
      then Some (if esc_np s < 2 then s\<lparr>esc_np := esc_np s + 1\<rparr> else s\<lparr>esc_bad := True\<rparr>)
      else (let s1 = s\<lparr>rx := CLI_RX_NORMAL\<rparr> in
            if 64 \<le> c \<and> c \<le> 126 then csi_final E s1 c else Some s1))"

definition input_ss3 :: "'w env \<Rightarrow> 'w cli_instance \<Rightarrow> u8 \<Rightarrow> 'w cli_instance option" where
  "input_ss3 E s c =
     (let s1 = s\<lparr>rx := CLI_RX_NORMAL\<rparr> in
      if 64 \<le> c \<and> c \<le> 126 then ss3_final E s1 c else Some s1)"

definition input_key :: "('h, 'w) host \<Rightarrow> 'w cli_instance \<Rightarrow> u8 \<Rightarrow> 'w cli_instance option" where
  "input_key H s c =
     (let E = h_env H in
      if c = 27 then Some (s\<lparr>rx := CLI_RX_ESC\<rparr>)
      else if c = 1 then op_home E s
      else if c = 2 then op_left E s
      else if c = 4 then op_delete_fwd E s
      else if c = 5 then op_end E s
      else if c = 6 then op_right E s
      else if c = 11 then op_kill_eol E s
      else if c = 12 then op_clear_screen E s
      else if c = 14 then cli_history_next E s
      else if c = 16 then cli_history_prev E s
      else if c = 21 then op_kill_bol E s
      else if c = 23 then op_del_word E s
      else if c = 9 then cli_tab_complete E (h_roots H) s
      else if c = 8 then op_backspace E s
      else if c = 127 then (if bs_swap s then op_delete_fwd E s else op_backspace E s)
      else if 32 \<le> c \<and> c \<le> 126 then op_insert E s c
      else Some s)"

definition input_normal :: "('h, 'w) host \<Rightarrow> 'w cli_instance \<Rightarrow> u8 \<Rightarrow> 'w cli_instance option" where
  "input_normal H s c =
     (if c = 13 then map_option (prev_cr_update (\<lambda>_. True)) (edit_submit H s)
      else if c = 10
      then (if prev_cr s then Some (s\<lparr>prev_cr := False\<rparr>) else edit_submit H s)
      else input_key H (s\<lparr>prev_cr := False\<rparr>) c)"

definition cli_input_byte :: "('h, 'w) host \<Rightarrow> 'w cli_instance \<Rightarrow> u8 \<Rightarrow> 'w cli_instance option" where
  "cli_input_byte H s c =
     Option.bind (if render_dirty s then cli_edit_refresh (h_env H) (s\<lparr>render_dirty := False\<rparr>) else Some s)
       (\<lambda>s0.
         if c AND 128 \<noteq> 0 then Some s0
         else
           (let s1 = (if c \<noteq> 9 then s0\<lparr>tab_list_armed := False\<rparr> else s0) in
            if c = 3 then input_ctrl_c (h_env H) s1
            else
              (case rx s1 of
                 CLI_RX_ESC \<Rightarrow> input_esc (h_env H) s1 c
               | CLI_RX_CSI \<Rightarrow> input_csi (h_env H) s1 c
               | CLI_RX_SS3 \<Rightarrow> input_ss3 (h_env H) s1 c
               | CLI_RX_NORMAL \<Rightarrow> input_normal H s1 c)))"

section \<open>Session start\<close>

definition cli_edit_session_start :: "'w env \<Rightarrow> 'w cli_instance \<Rightarrow> 'w cli_instance option" where
  "cli_edit_session_start E s =
     Option.bind (put_seq E (s\<lparr>probing_cpr := True\<rparr>) CPR_PROBE) (\<lambda>s1.
     cli_edit_refresh E (s1\<lparr>old_rows := 0, draw_row := 0, cur := 0\<rparr>))"

definition cli_set_backspace_mode :: "'w cli_instance \<Rightarrow> int \<Rightarrow> 'w cli_instance" where
  "cli_set_backspace_mode s mode = s\<lparr>bs_swap := (mode \<noteq> 0)\<rparr>"

section \<open>What the operations do to the text\<close>

text \<open>What an edit leaves alone: everything but the line, the render bookkeeping and the output.\<close>

definition frame :: "'w cli_instance \<Rightarrow> 'w cli_instance \<Rightarrow> bool" where
  "frame s s' \<longleftrightarrow> hist s' = hist s \<and> hist_used s' = hist_used s \<and> hist_nav_on s' = hist_nav_on s \<and>
     hist_nav s' = hist_nav s \<and> prompt s' = prompt s \<and> rx s' = rx s \<and> prev_cr s' = prev_cr s \<and>
     bs_swap s' = bs_swap s \<and> overwrite s' = overwrite s \<and> esc_np s' = esc_np s \<and>
     esc_p0 s' = esc_p0 s"

definition edits :: "'w cli_instance \<Rightarrow> 'w cli_instance option \<Rightarrow> u8 list \<Rightarrow> u8 list \<Rightarrow> bool" where
  "edits s out b a \<longleftrightarrow> (\<exists>s'. out = Some s' \<and> frame s s' \<and> editable s' b a)"

lemma frame_refl [simp]: "frame s s" by (simp add: frame_def)

lemma frame_trans: "frame s s' \<Longrightarrow> frame s' s'' \<Longrightarrow> frame s s''" by (simp add: frame_def)

lemma edits_self: "editable s b a \<Longrightarrow> edits s (Some s) b a"
  by (simp add: edits_def)

text \<open>Bringing the instance to a new text and painting it.\<close>

lemma refresh_edits:
  assumes "env_ok E" "editable s1 b a" "frame s s1"
  shows "edits s (cli_edit_refresh E s1) b a"
  using cli_edit_refresh_ok [OF assms(1), of s1] assms(2,3) editable_line_ok [OF assms(2)]
  by (auto simp: editable_def edits_def frame_def)

lemma reposition_edits:
  assumes "env_ok E" "editable s1 b a" "frame s s1"
  shows "edits s (edit_reposition E s1) b a"
  using edit_reposition_ok [OF assms(1), of s1] assms(2,3) editable_line_ok [OF assms(2)]
  by (auto simp: editable_def edits_def frame_def)

lemma write_edits:
  assumes "env_ok E" "editable s1 b a" "frame s s1"
  shows "edits s (edit_write E s1 bs) b a"
  using edit_write_ok [OF assms(1), of s1 bs] assms(2,3) editable_line_ok [OF assms(2)]
  by (auto simp: editable_def edits_def frame_def)

lemma editableE:
  assumes "editable s b a"
  obtains rest where "line s = b @ a @ 0 # rest" "length b + length a + length rest = 255"
    "len s = length b + length a" "cur s = length b" "0 \<notin> set b" "0 \<notin> set a" "txs_ok (tx s)"
  using assms by (auto simp: editable_def CLI_CMD_BUFFER_SIZE_def)

lemma editable_move:
  assumes "editable s b a" "b @ a = b' @ a'" "n = length b'"
  shows "editable (s\<lparr>cur := n\<rparr>) b' a'"
proof -
  obtain rest where r: "line s = b @ a @ 0 # rest" using assms(1) by (rule editableE)
  have "b @ a @ 0 # rest = b' @ a' @ 0 # rest" "length b + length a = length b' + length a'"
    "set b \<union> set a = set b' \<union> set a'"
    using assms(2) by (simp_all flip: append_assoc length_append set_append)
  with assms(1,3) r show ?thesis by (auto simp: editable_def)
qed

lemma move_edits:
  assumes "env_ok E" "editable s b a" "b @ a = b' @ a'" "n = length b'"
  shows "edits s (move_to E s n) b' a'"
  unfolding move_to_def
  by (rule reposition_edits [OF assms(1) editable_move [OF assms(2-4)]]) (simp add: frame_def)

text \<open>The text behind the cursor replaces a stretch \<open>x\<close> before it.\<close>

lemma cut_edits:
  assumes "env_ok E" "editable s (b @ x) (y @ a)"
    and "dst = length b" "src = length (b @ x @ y)" "n = length (b @ a)" "c = length b"
  shows "edits s (cut E s dst src n c) b a"
proof -
  obtain rest where r: "line s = (b @ x) @ (y @ a) @ 0 # rest"
    "length (b @ x) + length (y @ a) + length rest = 255" "len s = length (b @ x) + length (y @ a)"
    "0 \<notin> set (b @ x)" "0 \<notin> set (y @ a)" "txs_ok (tx s)"
    using assms(2) by (rule editableE)
  have "len s - src = length a" using r(3) assms(4) by simp
  then have m: "mov (line s) dst src (len s - src) =
      Some (b @ a @ drop (length (b @ a)) (line s))"
    using r assms by (subst mov_in) (auto simp: drop_append)
  let ?tl = "drop (length (b @ a)) (line s)"
  have tl: "length ?tl = length x + length y + Suc (length rest)" using r(1) by simp
  then obtain t ts where t: "?tl = t # ts" by (cases ?tl) auto
  let ?b = "b @ a @ 0 # ts"
  have st: "st (b @ a @ ?tl) n 0 = Some ?b"
    unfolding t using assms(5) by (simp add: st_def list_update_append)
  have "length ts = length x + length y + length rest" using tl unfolding t by simp
  with r have "editable (s\<lparr>line := ?b, len := n, cur := c\<rparr>) b a"
    using assms(5,6) by (auto simp: editable_def CLI_CMD_BUFFER_SIZE_def)
  from refresh_edits [OF assms(1) this, of s] m st show ?thesis
    by (simp add: cut_def frame_def)
qed

lemma op_left_edits:
  assumes "env_ok E" "editable s b a"
  shows "edits s (op_left E s) (butlast b) (drop (length b - 1) b @ a)"
proof (cases b rule: rev_cases)
  case Nil
  with assms edits_self [OF assms(2)] show ?thesis by (auto simp: op_left_def editable_def)
next
  case (snoc b0 x)
  have "cur s = length b" using assms(2) by (simp add: editable_def)
  with snoc assms show ?thesis
    by (auto simp: op_left_def intro!: move_edits)
qed

lemma op_right_edits:
  assumes "env_ok E" "editable s b a"
  shows "edits s (op_right E s) (b @ take 1 a) (drop 1 a)"
proof (cases a)
  case Nil
  with assms edits_self [OF assms(2)] show ?thesis by (auto simp: op_right_def editable_def)
next
  case (Cons x a0)
  have "cur s = length b" "len s = length b + length a" using assms(2) by (simp_all add: editable_def)
  with Cons assms show ?thesis
    by (auto simp: op_right_def intro!: move_edits)
qed

lemma op_home_edits:
  assumes "env_ok E" "editable s b a"
  shows "edits s (op_home E s) [] (b @ a)"
proof -
  have "cur s = length b" using assms(2) by (simp add: editable_def)
  with assms edits_self [OF assms(2)] show ?thesis
    by (auto simp: op_home_def intro!: move_edits)
qed

lemma op_end_edits:
  assumes "env_ok E" "editable s b a"
  shows "edits s (op_end E s) (b @ a) []"
proof -
  have "cur s = length b" "len s = length b + length a" using assms(2) by (simp_all add: editable_def)
  with assms edits_self [OF assms(2)] show ?thesis
    by (auto simp: op_end_def intro!: move_edits)
qed

lemma op_kill_bol_edits:
  assumes "env_ok E" "editable s b a"
  shows "edits s (op_kill_bol E s) [] a"
proof -
  have "cur s = length b" "len s = length b + length a" using assms(2) by (simp_all add: editable_def)
  with assms edits_self [OF assms(2)] cut_edits [OF assms(1), of s "[]" b "[]" a] show ?thesis
    by (auto simp: op_kill_bol_def)
qed

lemma op_kill_eol_edits:
  assumes "env_ok E" "editable s b a"
  shows "edits s (op_kill_eol E s) b []"
proof (cases a)
  case Nil
  with assms edits_self [OF assms(2)] show ?thesis by (auto simp: op_kill_eol_def editable_def)
next
  case (Cons x a0)
  obtain rest where r: "line s = b @ a @ 0 # rest" "length b + length a + length rest = 255"
    "len s = length b + length a" "cur s = length b" "0 \<notin> set b" "txs_ok (tx s)"
    using assms(2) by (rule editableE)
  then have "st (line s) (cur s) 0 = Some (b @ 0 # a0 @ 0 # rest)"
    using Cons by (simp add: st_def list_update_append)
  moreover have "editable (s\<lparr>len := cur s, line := b @ 0 # a0 @ 0 # rest\<rparr>) b []"
    using r Cons by (simp add: editable_def CLI_CMD_BUFFER_SIZE_def)
  ultimately show ?thesis
    using refresh_edits [OF assms(1), of "s\<lparr>len := cur s, line := b @ 0 # a0 @ 0 # rest\<rparr>" b "[]" s] r Cons
    by (simp add: op_kill_eol_def frame_def)
qed

lemma op_delete_fwd_edits:
  assumes "env_ok E" "editable s b a"
  shows "edits s (op_delete_fwd E s) b (drop 1 a)"
proof (cases a)
  case Nil
  with assms edits_self [OF assms(2)] show ?thesis by (auto simp: op_delete_fwd_def editable_def)
next
  case (Cons x a0)
  have "cur s = length b" "len s = length b + length a" using assms(2) by (simp_all add: editable_def)
  with assms Cons cut_edits [OF assms(1), of s b "[]" "[x]" a0] show ?thesis
    by (simp add: op_delete_fwd_def)
qed

text \<open>Backspace, with its fast path, and insertion with its own.\<close>

lemma fast_backspace_edits:
  assumes "env_ok E" "editable s b a" "b \<noteq> []"
  shows "fast_backspace E s = Some (False, s) \<or>
    (\<exists>s'. fast_backspace E s = Some (True, s') \<and> frame s s' \<and> editable s' (butlast b) a)"
proof (cases "cur s \<noteq> len s \<or> len s = 0 \<or> pend s mod edit_cols s = 0")
  case True
  then show ?thesis by (simp add: fast_backspace_def)
next
  case False
  obtain rest where r: "line s = b @ a @ 0 # rest" "length b + length a + length rest = 255"
    "len s = length b + length a" "cur s = length b" "0 \<notin> set b" "txs_ok (tx s)"
    using assms(2) by (rule editableE)
  obtain b0 x where b: "b = b0 @ [x]" using assms(3) by (cases b rule: rev_cases) auto
  have a: "a = []" using r False by simp
  let ?s = "s\<lparr>line := b0 @ 0 # 0 # rest, len := len s - 1, cur := len s - 1\<rparr>"
  have "st (line s) (len s - 1) 0 = Some (b0 @ 0 # 0 # rest)"
    using r a b by (simp add: st_def list_update_append)
  moreover have "editable ?s b0 []" using r a b by (simp add: editable_def CLI_CMD_BUFFER_SIZE_def)
  ultimately show ?thesis
    using write_edits [OF assms(1), of ?s b0 "[]" s "[8, 32, 8]"] False a b
    by (auto simp: fast_backspace_def edits_def frame_def)
qed

lemma op_backspace_edits:
  assumes "env_ok E" "editable s b a"
  shows "edits s (op_backspace E s) (butlast b) a"
proof (cases "b = []")
  case True
  with assms edits_self [OF assms(2)] show ?thesis by (simp add: op_backspace_def editable_def)
next
  case False
  have c: "cur s = length b" "len s = length b + length a" using assms(2) by (simp_all add: editable_def)
  obtain b0 x where b: "b = b0 @ [x]" using False by (cases b rule: rev_cases) auto
  have "edits s (cut E s (cur s - 1) (cur s) (len s - 1) (cur s - 1)) b0 a"
    by (rule cut_edits [OF assms(1), of s b0 "[x]" "[]" a]) (use assms(2) b c in simp_all)
  with fast_backspace_edits [OF assms False] False c b show ?thesis
    by (auto simp: op_backspace_def edits_def)
qed

text \<open>Appending one byte at the end of the line, without the repaint.\<close>

lemma append_step:
  assumes "editable s b []" "length b < 255" "c \<noteq> 0"
  shows "\<exists>l l'. st (line s) (len s) c = Some l \<and> st l (len s + 1) 0 = Some l' \<and>
    editable (s\<lparr>line := l', len := len s + 1, cur := len s + 1\<rparr>) (b @ [c]) []"
proof -
  obtain rest where r: "line s = b @ [] @ 0 # rest" "length b + length ([] :: u8 list) + length rest = 255"
    "len s = length b + length ([] :: u8 list)" "cur s = length b" "0 \<notin> set b" "txs_ok (tx s)"
    using assms(1) by (rule editableE)
  then obtain t ts where rest: "rest = t # ts" using assms(2) by (cases rest) auto
  have "st (line s) (len s) c = Some (b @ c # t # ts)" "st (b @ c # t # ts) (len s + 1) 0 = Some (b @ c # 0 # ts)"
    using r rest by (simp_all add: st_def list_update_append nth_append)
  moreover have "editable (s\<lparr>line := b @ c # 0 # ts, len := len s + 1, cur := len s + 1\<rparr>) (b @ [c]) []"
    using r rest assms(3) by (simp add: editable_def CLI_CMD_BUFFER_SIZE_def)
  ultimately show ?thesis by blast
qed

lemma append_edits:
  assumes "env_ok E" "editable s b []" "length b < 255" "c \<noteq> 0" "\<not> (overwrite s \<and> cur s < len s)"
  shows "edits s (op_insert E s c) (b @ [c]) []"
proof -
  obtain l l' where l: "st (line s) (len s) c = Some l" "st l (len s + 1) 0 = Some l'"
    and ed: "editable (s\<lparr>line := l', len := len s + 1, cur := len s + 1\<rparr>) (b @ [c]) []"
    using append_step [OF assms(2-4)] by blast
  let ?s = "s\<lparr>line := l', len := len s + 1, cur := len s + 1\<rparr>"
  have fr: "frame s ?s" by (simp add: frame_def)
  have c: "cur s = len s" "len s < CLI_CMD_BUFFER_SIZE - 1"
    using assms(2,3) by (auto simp: editable_def CLI_CMD_BUFFER_SIZE_def)
  show ?thesis
  proof (cases "(pend s + 1) mod edit_cols s = 0")
    case True
    then have "op_insert E s c = cli_edit_refresh E ?s"
      using c l by (simp add: op_insert_def fast_append_def)
    with refresh_edits [OF assms(1) ed fr] show ?thesis by simp
  next
    case False
    then have "op_insert E s c = edit_write E ?s [c]"
      using c l by (cases "edit_write E ?s [c]") (simp_all add: op_insert_def fast_append_def)
    with write_edits [OF assms(1) ed fr] show ?thesis by simp
  qed
qed

definition ins_zip :: "bool \<Rightarrow> u8 \<Rightarrow> u8 list \<Rightarrow> u8 list \<Rightarrow> u8 list \<times> u8 list" where
  "ins_zip ovr c b a =
     (if ovr \<and> a \<noteq> [] then (b @ [c], drop 1 a)
      else if length b + length a \<ge> CLI_CMD_BUFFER_SIZE - 1 then (b, a)
      else (b @ [c], a))"

lemma op_insert_edits:
  assumes "env_ok E" "editable s b a" "c \<noteq> 0"
  shows "edits s (op_insert E s c) (fst (ins_zip (overwrite s) c b a)) (snd (ins_zip (overwrite s) c b a))"
proof -
  obtain rest where r: "line s = b @ a @ 0 # rest" "length b + length a + length rest = 255"
    "len s = length b + length a" "cur s = length b" "0 \<notin> set b" "0 \<notin> set a" "txs_ok (tx s)"
    using assms(2) by (rule editableE)
  consider (over) x a0 where "overwrite s" "a = x # a0"
    | (full) "\<not> (overwrite s \<and> a \<noteq> [])" "length b + length a \<ge> 255"
    | (app) "a = []" "length b < 255"
    | (mid) "\<not> (overwrite s \<and> a \<noteq> [])" "a \<noteq> []" "length b + length a < 255"
    by (cases a; cases "overwrite s"; cases "length b + length a < 255") auto
  then show ?thesis
  proof cases
    case over
    let ?s = "s\<lparr>line := b @ c # a0 @ 0 # rest, cur := cur s + 1\<rparr>"
    have "st (line s) (cur s) c = Some (b @ c # a0 @ 0 # rest)"
      using r over by (simp add: st_def list_update_append)
    moreover have "editable ?s (b @ [c]) a0"
      using r over assms(3) by (auto simp: editable_def CLI_CMD_BUFFER_SIZE_def)
    ultimately show ?thesis
      using refresh_edits [OF assms(1), of ?s "b @ [c]" a0 s] over r
      by (simp add: op_insert_def ins_zip_def frame_def)
  next
    case full
    with r have "op_insert E s c = edit_write E s [7]"
      by (auto simp: op_insert_def CLI_CMD_BUFFER_SIZE_def)
    with write_edits [OF assms(1,2), of s "[7]"] full show ?thesis
      by (auto simp: ins_zip_def CLI_CMD_BUFFER_SIZE_def)
  next
    case app
    with append_edits [OF assms(1), of s b c] assms r show ?thesis
      by (auto simp: ins_zip_def CLI_CMD_BUFFER_SIZE_def)
  next
    case mid
    then obtain t ts where rest: "rest = t # ts" using r(2) by (cases rest) auto
    have "mov (line s) (cur s + 1) (cur s) (len s - cur s) = Some (take (Suc (length b)) (line s) @ a @ t # ts)"
      using r rest by (subst mov_in) auto
    moreover have "st (take (Suc (length b)) (line s) @ a @ t # ts) (cur s) c = Some (b @ c # a @ t # ts)"
      using r rest mid by (cases a) (auto simp: st_def list_update_append)
    moreover have "st (b @ c # a @ t # ts) (len s + 1) 0 = Some (b @ c # a @ 0 # ts)"
      using r by (simp add: st_def list_update_append)
    moreover have "editable (s\<lparr>line := b @ c # a @ 0 # ts, len := len s + 1, cur := cur s + 1\<rparr>) (b @ [c]) a"
      using r rest assms(3) by (simp add: editable_def CLI_CMD_BUFFER_SIZE_def)
    ultimately show ?thesis
      using refresh_edits [OF assms(1), of "s\<lparr>line := b @ c # a @ 0 # ts, len := len s + 1, cur := cur s + 1\<rparr>"
          "b @ [c]" a s] mid r
      by (auto simp: op_insert_def ins_zip_def frame_def CLI_CMD_BUFFER_SIZE_def)
  qed
qed

text \<open>Words: what is left of the text before the cursor once its last word is gone.\<close>

definition trim :: "(u8 \<Rightarrow> bool) \<Rightarrow> u8 list \<Rightarrow> u8 list" where
  "trim p b = rev (dropWhile p (rev b))"

definition word_cut :: "u8 list \<Rightarrow> u8 list" where
  "word_cut b = trim (\<lambda>c. c \<noteq> 32) (trim (\<lambda>c. c = 32) b)"

definition word_len :: "u8 list \<Rightarrow> nat" where
  "word_len a = length (takeWhile (\<lambda>c. c = 32) a) +
     length (takeWhile (\<lambda>c. c \<noteq> 32) (dropWhile (\<lambda>c. c = 32) a))"

lemma trim_prefix: "\<exists>x. b = trim p b @ x"
  by (metis append_Nil2 rev_append rev_rev_ident takeWhile_dropWhile_id trim_def)

lemma word_cut_prefix: "\<exists>x. b = word_cut b @ x"
proof -
  obtain x y where "b = trim (\<lambda>c. c = 32) b @ x" "trim (\<lambda>c. c = 32) b = word_cut b @ y"
    using trim_prefix unfolding word_cut_def by metis
  then show ?thesis by (metis append.assoc)
qed

lemma back_over_trim: "back_over p (b @ r) (length b) = length (trim p b)"
proof (induction b arbitrary: r rule: rev_induct)
  case (snoc x b)
  then show ?case using snoc [of "x # r"] by (simp add: trim_def nth_append)
qed (simp add: trim_def)

lemma word_start_cut: "line s = b @ r \<Longrightarrow> word_start s (length b) = length (word_cut b)"
proof -
  assume l: "line s = b @ r"
  obtain x where "b = trim (\<lambda>c. c = 32) b @ x" using trim_prefix by blast
  then have "b @ r = trim (\<lambda>c. c = 32) b @ x @ r" by (metis append.assoc)
  then have "back_over (\<lambda>c. c \<noteq> 32) (b @ r) (length (trim (\<lambda>c. c = 32) b)) =
      length (trim (\<lambda>c. c \<noteq> 32) (trim (\<lambda>c. c = 32) b))"
    by (metis back_over_trim)
  then show ?thesis
    unfolding word_start_def word_cut_def by (simp add: l back_over_trim [of _ b r])
qed

lemma ro_span_takeWhile:
  "ro_span p (b @ a @ r) (length b) (length b + length a) = length b + length (takeWhile p a)"
proof (induction a arbitrary: b)
  case Nil
  then show ?case by (simp add: ro_span.simps)
next
  case (Cons x a)
  from Cons.IH [of "b @ [x]"] show ?case
    by (simp add: ro_span.simps [of p "b @ x # a @ r" "length b"] nth_append)
qed

lemma word_end_len:
  assumes "line s = b @ a @ r" "len s = length b + length a"
  shows "word_end s (length b) = length b + word_len a"
proof -
  let ?w = "takeWhile (\<lambda>c. c = 32) a" and ?d = "dropWhile (\<lambda>c. c = 32) a"
  have a: "a = ?w @ ?d" by simp
  have i: "ro_span (\<lambda>c. c = 32) (line s) (length b) (len s) = length (b @ ?w)"
    using assms by (simp add: ro_span_takeWhile)
  have "line s = (b @ ?w) @ ?d @ r" "len s = length (b @ ?w) + length ?d"
    using assms a by (metis append.assoc, metis add.assoc length_append)
  then show ?thesis
    unfolding word_end_def i by (simp only: ro_span_takeWhile) (simp add: word_len_def)
qed

lemma word_len_le: "word_len a \<le> length a"
proof -
  let ?d = "dropWhile (\<lambda>c. c = 32) a"
  have "length a = length (takeWhile (\<lambda>c. c = 32) a) + length ?d"
    by (metis length_append takeWhile_dropWhile_id)
  then show ?thesis using length_takeWhile_le [of "\<lambda>c. c \<noteq> 32" ?d] by (simp add: word_len_def)
qed

lemma op_del_word_edits:
  assumes "env_ok E" "editable s b a"
  shows "edits s (op_del_word E s) (word_cut b) a"
proof (cases "b = []")
  case True
  with assms edits_self [OF assms(2)] show ?thesis
    by (simp add: op_del_word_def editable_def word_cut_def trim_def)
next
  case False
  obtain rest where r: "line s = b @ a @ 0 # rest" "len s = length b + length a" "cur s = length b"
    using assms(2) by (rule editableE)
  obtain x where x: "b = word_cut b @ x" using word_cut_prefix by blast
  have "length b = length (word_cut b) + length x" using x by (metis length_append)
  then have "edits s (cut E s (length (word_cut b)) (cur s) (len s - (cur s - length (word_cut b)))
      (length (word_cut b))) (word_cut b) a"
    using assms(2) x r by (intro cut_edits [OF assms(1), of s "word_cut b" x "[]" a]) auto
  with False r word_start_cut [OF r(1)] show ?thesis by (simp add: op_del_word_def Let_def)
qed

lemma op_word_left_edits:
  assumes "env_ok E" "editable s b a"
  shows "edits s (op_word_left E s) (word_cut b) (drop (length (word_cut b)) b @ a)"
proof -
  obtain rest where r: "line s = b @ a @ 0 # rest" "cur s = length b"
    using assms(2) by (rule editableE)
  obtain x where x: "b = word_cut b @ x" using word_cut_prefix by blast
  then have d: "drop (length (word_cut b)) b = x" by (metis append_eq_conv_conj)
  show ?thesis
  proof (cases "length (word_cut b) = length b")
    case True
    then have "x = []" "word_cut b = b" using x by (metis append_Nil2 append_eq_append_conv append_self_conv)+
    with True r edits_self [OF assms(2)] d show ?thesis
      by (simp add: op_word_left_def word_start_cut [OF r(1)])
  next
    case False
    with r d x move_edits [OF assms, of "word_cut b" "x @ a" "length (word_cut b)"] show ?thesis
      by (simp add: op_word_left_def word_start_cut [OF r(1)] flip: append_assoc)
  qed
qed

lemma op_word_right_edits:
  assumes "env_ok E" "editable s b a"
  shows "edits s (op_word_right E s) (b @ take (word_len a) a) (drop (word_len a) a)"
proof -
  obtain rest where r: "line s = b @ a @ 0 # rest" "cur s = length b" "len s = length b + length a"
    using assms(2) by (rule editableE)
  show ?thesis
  proof (cases "word_len a = 0")
    case True
    with r edits_self [OF assms(2)] show ?thesis
      by (simp add: op_word_right_def word_end_len [OF r(1,3)])
  next
    case False
    with r word_len_le [of a]
      move_edits [OF assms, of "b @ take (word_len a) a" "drop (word_len a) a" "length b + word_len a"]
    show ?thesis by (simp add: op_word_right_def word_end_len [OF r(1,3)])
  qed
qed

lemma put_seq_ok:
  assumes "env_ok E" "txs_ok (tx s)"
  shows "\<exists>t. put_seq E s bs = Some (s\<lparr>tx := t\<rparr>) \<and> txs_ok t"
proof (cases "cli_lock E (tx s)")
  case (Pair ok t)
  have t: "txs_ok t" using assms(2) txs_ok_lock(1) [of E "tx s"] Pair by simp
  obtain t' where t': "cli_out_bytes E t bs = Some t'" "txs_ok t'"
    using cli_out_bytes_ok [OF assms(1) t] by blast
  have "txs_ok (cli_unlock E (cli_out_flush E t'))"
    using cli_out_flush_ok [OF assms(1)] t'(2) by (simp add: txs_ok_def [of t'])
  with Pair t t' show ?thesis
    by (cases ok) (auto simp: put_seq_def txs_ok_def)
qed

lemma op_clear_screen_edits:
  assumes "env_ok E" "editable s b a"
  shows "edits s (op_clear_screen E s) b a"
proof -
  obtain t where t: "put_seq E s CLR_SCREEN = Some (s\<lparr>tx := t\<rparr>)" "txs_ok t"
    using put_seq_ok [OF assms(1), of s] assms(2) by (auto simp: editable_def)
  have "editable (s\<lparr>tx := t, old_rows := 0, draw_row := 0\<rparr>) b a"
    using assms(2) t(2) by (simp add: editable_def)
  from refresh_edits [OF assms(1) this, of s] t(1) show ?thesis
    by (simp add: op_clear_screen_def frame_def)
qed

section \<open>The abstract editor\<close>

text \<open>
  The text around the cursor, the submitted lines with the position of the recall, the state
  of the escape parser and the modes. \<open>ed_step\<close> is what one byte does; \<open>ext\<close> is what a Tab
  inserts.
\<close>

datatype ed_rx = R_norm | R_esc | R_csi nat u16 | R_ss3

record ed_view =
  v_b :: "u8 list"
  v_a :: "u8 list"
  v_hist :: "u8 list list"
  v_nav :: "nat option"
  v_rx :: ed_rx
  v_ovr :: bool
  v_swap :: bool
  v_cr :: bool

definition set_text :: "ed_view \<Rightarrow> u8 list \<times> u8 list \<Rightarrow> ed_view" where
  "set_text v ba = v\<lparr>v_b := fst ba, v_a := snd ba\<rparr>"

definition ed_up :: "ed_view \<Rightarrow> ed_view" where
  "ed_up v =
     (let k = prev_spec (v_hist v) (v_nav v) in
      if k = v_nav v then v else set_text (v\<lparr>v_nav := k\<rparr>) (v_hist v ! the k, []))"

definition ed_down :: "ed_view \<Rightarrow> ed_view" where
  "ed_down v =
     (case v_nav v of
        None \<Rightarrow> v
      | Some i \<Rightarrow>
          (case next_pos (v_hist v) i of
             None \<Rightarrow> set_text (v\<lparr>v_nav := None\<rparr>) ([], [])
           | Some j \<Rightarrow> set_text (v\<lparr>v_nav := Some j\<rparr>) (v_hist v ! j, [])))"

definition ed_left :: "ed_view \<Rightarrow> ed_view" where
  "ed_left v = set_text v (butlast (v_b v), drop (length (v_b v) - 1) (v_b v) @ v_a v)"
definition ed_right :: "ed_view \<Rightarrow> ed_view" where
  "ed_right v = set_text v (v_b v @ take 1 (v_a v), drop 1 (v_a v))"
definition ed_home :: "ed_view \<Rightarrow> ed_view" where
  "ed_home v = set_text v ([], v_b v @ v_a v)"
definition ed_end :: "ed_view \<Rightarrow> ed_view" where
  "ed_end v = set_text v (v_b v @ v_a v, [])"
definition ed_del :: "ed_view \<Rightarrow> ed_view" where
  "ed_del v = set_text v (v_b v, drop 1 (v_a v))"
definition ed_bs :: "ed_view \<Rightarrow> ed_view" where
  "ed_bs v = set_text v (butlast (v_b v), v_a v)"

text \<open>The line is submitted as it stands, and a fresh one begins.\<close>

definition ed_submit :: "ed_view \<Rightarrow> ed_view" where
  "ed_submit v = v\<lparr>v_b := [], v_a := [], v_hist := add_spec (v_hist v) (v_b v @ v_a v),
     v_nav := None, v_rx := R_norm\<rparr>"

definition ed_ctrl_c :: "ed_view \<Rightarrow> ed_view" where
  "ed_ctrl_c v = v\<lparr>v_b := [], v_a := [], v_nav := None, v_rx := R_norm, v_cr := False\<rparr>"

definition ed_final :: "u8 \<Rightarrow> ed_view \<Rightarrow> ed_view" where
  "ed_final f v =
     (if f = 65 then ed_up v else if f = 66 then ed_down v else if f = 67 then ed_right v
      else if f = 68 then ed_left v else if f = 72 then ed_home v else if f = 70 then ed_end v
      else v)"

definition ed_tilde :: "u16 \<Rightarrow> ed_view \<Rightarrow> ed_view" where
  "ed_tilde n v =
     (if n = 1 \<or> n = 7 then ed_home v else if n = 4 \<or> n = 8 then ed_end v
      else if n = 2 then v\<lparr>v_ovr := \<not> v_ovr v\<rparr> else if n = 3 then ed_del v else v)"

definition ed_key :: "u8 list \<Rightarrow> u8 \<Rightarrow> ed_view \<Rightarrow> ed_view" where
  "ed_key ext c v =
     (if c = 27 then v\<lparr>v_rx := R_esc\<rparr>
      else if c = 1 then ed_home v
      else if c = 2 then ed_left v
      else if c = 4 then ed_del v
      else if c = 5 then ed_end v
      else if c = 6 then ed_right v
      else if c = 11 then set_text v (v_b v, [])
      else if c = 12 then v
      else if c = 14 then ed_down v
      else if c = 16 then ed_up v
      else if c = 21 then set_text v ([], v_a v)
      else if c = 23 then set_text v (word_cut (v_b v), v_a v)
      else if c = 9 then set_text v (v_b v @ ext, v_a v)
      else if c = 8 then ed_bs v
      else if c = 127 then (if v_swap v then ed_del v else ed_bs v)
      else if 32 \<le> c \<and> c \<le> 126 then set_text v (ins_zip (v_ovr v) c (v_b v) (v_a v))
      else v)"

definition ed_esc :: "u8 \<Rightarrow> ed_view \<Rightarrow> ed_view" where
  "ed_esc c v =
     (if c = 91 then v\<lparr>v_rx := R_csi 0 0\<rparr>
      else if c = 79 then v\<lparr>v_rx := R_ss3\<rparr>
      else
        (let v1 = v\<lparr>v_rx := R_norm\<rparr> in
         if c = 98 then set_text v1 (word_cut (v_b v), drop (length (word_cut (v_b v))) (v_b v) @ v_a v)
         else if c = 102
         then set_text v1 (v_b v @ take (word_len (v_a v)) (v_a v), drop (word_len (v_a v)) (v_a v))
         else v1))"

definition ed_csi :: "nat \<Rightarrow> u16 \<Rightarrow> u8 \<Rightarrow> ed_view \<Rightarrow> ed_view" where
  "ed_csi n p c v =
     (if 48 \<le> c \<and> c \<le> 57
      then v\<lparr>v_rx := (if n \<le> 1 then R_csi 1 (p * 10 + (ucast c - 48)) else R_csi n p)\<rparr>
      else if c = 59 then v\<lparr>v_rx := R_csi (if n < 2 then n + 1 else n) p\<rparr>
      else
        (let v1 = v\<lparr>v_rx := R_norm\<rparr> in
         if c = 126 then ed_tilde (if n \<ge> 1 then p else 0) v1 else ed_final c v1))"

definition ed_step :: "u8 list \<Rightarrow> ed_view \<Rightarrow> u8 \<Rightarrow> ed_view" where
  "ed_step ext v c =
     (if c AND 128 \<noteq> 0 then v
      else if c = 3 then ed_ctrl_c v
      else
        (case v_rx v of
           R_esc \<Rightarrow> ed_esc c v
         | R_csi n p \<Rightarrow> ed_csi n p c v
         | R_ss3 \<Rightarrow> ed_final c (v\<lparr>v_rx := R_norm\<rparr>)
         | R_norm \<Rightarrow>
             if c = 13 then (ed_submit v)\<lparr>v_cr := True\<rparr>
             else if c = 10 then (if v_cr v then v\<lparr>v_cr := False\<rparr> else ed_submit v)
             else ed_key ext c (v\<lparr>v_cr := False\<rparr>)))"

section \<open>The editor refines it\<close>

definition rx_rep :: "'w cli_instance \<Rightarrow> ed_rx \<Rightarrow> bool" where
  "rx_rep s r \<longleftrightarrow>
     (case r of
        R_norm \<Rightarrow> rx s = CLI_RX_NORMAL
      | R_esc \<Rightarrow> rx s = CLI_RX_ESC
      | R_ss3 \<Rightarrow> rx s = CLI_RX_SS3
      | R_csi n p \<Rightarrow> rx s = CLI_RX_CSI \<and> esc_np s = n \<and> esc_p0 s = p \<and> n \<le> 2)"

definition ed_rep :: "'w cli_instance \<Rightarrow> ed_view \<Rightarrow> bool" where
  "ed_rep s v \<longleftrightarrow> editable s (v_b v) (v_a v) \<and> hist_rep (hist s) (hist_used s) (v_hist v) \<and>
     nav_rep s (v_hist v) (v_nav v) \<and> rx_rep s (v_rx v) \<and> overwrite s = v_ovr v \<and>
     bs_swap s = v_swap v \<and> prev_cr s = v_cr v"

definition refines :: "'w cli_instance option \<Rightarrow> ed_view \<Rightarrow> bool" where
  "refines out v \<longleftrightarrow> (\<exists>s'. out = Some s' \<and> ed_rep s' v)"

lemma refines_Some [simp]: "refines (Some s) v = ed_rep s v"
  by (simp add: refines_def)

lemma frame_rep:
  "frame s s' \<Longrightarrow> ed_rep s v \<Longrightarrow> editable s' b a \<Longrightarrow> ed_rep s' (v\<lparr>v_b := b, v_a := a\<rparr>)"
  by (auto simp: frame_def ed_rep_def nav_rep_def rx_rep_def split: option.splits ed_rx.splits)

lemma edits_refines:
  "edits s out b a \<Longrightarrow> ed_rep s v \<Longrightarrow> refines out (set_text v (b, a))"
  by (auto simp: edits_def refines_def set_text_def intro: frame_rep)

lemma set_text_same [simp]: "set_text v (v_b v, v_a v) = v"
  by (simp add: set_text_def)

lemma ed_rep_editable: "ed_rep s v \<Longrightarrow> editable s (v_b v) (v_a v)"
  by (simp add: ed_rep_def)

lemma text_ops_refine:
  assumes "env_ok E" "ed_rep s v"
  shows "refines (op_left E s) (ed_left v)" "refines (op_right E s) (ed_right v)"
    "refines (op_home E s) (ed_home v)" "refines (op_end E s) (ed_end v)"
    "refines (op_delete_fwd E s) (ed_del v)" "refines (op_backspace E s) (ed_bs v)"
    "refines (op_kill_eol E s) (set_text v (v_b v, []))"
    "refines (op_kill_bol E s) (set_text v ([], v_a v))"
    "refines (op_del_word E s) (set_text v (word_cut (v_b v), v_a v))"
    "refines (op_word_left E s)
       (set_text v (word_cut (v_b v), drop (length (word_cut (v_b v))) (v_b v) @ v_a v))"
    "refines (op_word_right E s)
       (set_text v (v_b v @ take (word_len (v_a v)) (v_a v), drop (word_len (v_a v)) (v_a v)))"
    "refines (op_clear_screen E s) v"
    "c \<noteq> 0 \<Longrightarrow> refines (op_insert E s c) (set_text v (ins_zip (v_ovr v) c (v_b v) (v_a v)))"
proof -
  note ed = ed_rep_editable [OF assms(2)] and ref = edits_refines [OF _ assms(2)]
  show "refines (op_left E s) (ed_left v)" "refines (op_right E s) (ed_right v)"
    "refines (op_home E s) (ed_home v)" "refines (op_end E s) (ed_end v)"
    "refines (op_delete_fwd E s) (ed_del v)" "refines (op_backspace E s) (ed_bs v)"
    unfolding ed_left_def ed_right_def ed_home_def ed_end_def ed_del_def ed_bs_def
    by (rule ref, rule op_left_edits op_right_edits op_home_edits op_end_edits op_delete_fwd_edits
        op_backspace_edits, rule assms(1), rule ed)+
  show "refines (op_kill_eol E s) (set_text v (v_b v, []))"
    "refines (op_kill_bol E s) (set_text v ([], v_a v))"
    "refines (op_del_word E s) (set_text v (word_cut (v_b v), v_a v))"
    "refines (op_word_left E s)
       (set_text v (word_cut (v_b v), drop (length (word_cut (v_b v))) (v_b v) @ v_a v))"
    "refines (op_word_right E s)
       (set_text v (v_b v @ take (word_len (v_a v)) (v_a v), drop (word_len (v_a v)) (v_a v)))"
    by (rule ref, rule op_kill_eol_edits op_kill_bol_edits op_del_word_edits op_word_left_edits
        op_word_right_edits, rule assms(1), rule ed)+
  show "refines (op_clear_screen E s) v"
    using ref [OF op_clear_screen_edits [OF assms(1) ed]] by simp
  show "refines (op_insert E s c) (set_text v (ins_zip (v_ovr v) c (v_b v) (v_a v)))" if "c \<noteq> 0"
    using ref [OF op_insert_edits [OF assms(1) ed that]] assms(2) by (simp add: ed_rep_def)
qed

text \<open>The recall keeps the modes and leaves the cursor at the end of the line it loads.\<close>

definition modes :: "'w cli_instance \<Rightarrow> 'w cli_instance \<Rightarrow> bool" where
  "modes s s' \<longleftrightarrow> rx s' = rx s \<and> prev_cr s' = prev_cr s \<and> bs_swap s' = bs_swap s \<and>
     overwrite s' = overwrite s \<and> esc_np s' = esc_np s \<and> esc_p0 s' = esc_p0 s"

lemma refresh_shape:
  "cli_edit_refresh E s = Some s' \<Longrightarrow> \<exists>r d t. s' = s\<lparr>old_rows := r, draw_row := d, tx := t\<rparr>"
proof -
  assume a: "cli_edit_refresh E s = Some s'"
  obtain ok t where l: "cli_lock E (tx s) = (ok, t)" by (cases "cli_lock E (tx s)")
  show ?thesis
  proof (cases ok)
    case True
    with a l show ?thesis by (auto simp: cli_edit_refresh_def Let_def)
  next
    case False
    with a l show ?thesis
      by (intro exI [of _ "old_rows s"] exI [of _ "draw_row s"] exI [of _ "t\<lparr>tx_failed := True\<rparr>"])
        (auto simp: cli_edit_refresh_def Let_def)
  qed
qed

lemma hist_load_shape:
  "hist_load s off = Some s' \<Longrightarrow> \<exists>b n. s' = s\<lparr>line := b, len := n, cur := n\<rparr>"
  by (auto simp: hist_load_def Let_def)

lemma history_keeps:
  "cli_history_prev E s = Some s' \<Longrightarrow> modes s s' \<and> (s' = s \<or> cur s' = len s')"
  "cli_history_next E s = Some s' \<Longrightarrow> modes s s' \<and> (s' = s \<or> cur s' = len s')"
  by (auto simp: cli_history_prev_def cli_history_next_def cli_edit_redraw_def modes_def bind_eq_Some_conv
      split: if_splits dest!: refresh_shape hist_load_shape)

lemma hist_abs_editable:
  "hist_abs s es k t \<Longrightarrow> cur s = len s \<Longrightarrow> editable s t []"
  using line_ok_editable [of s] by (auto simp: hist_abs_def line_ok_def line_text_def)

lemma ed_rep_abs: "ed_rep s v \<Longrightarrow> hist_abs s (v_hist v) (v_nav v) (v_b v @ v_a v)"
  using editable_line_ok [of s "v_b v" "v_a v"] by (simp add: ed_rep_def hist_abs_def)

lemma loaded_rep:
  assumes "ed_rep s v" "modes s s'" "hist_abs s' (v_hist v) k t" "cur s' = len s'"
  shows "ed_rep s' (set_text (v\<lparr>v_nav := k\<rparr>) (t, []))"
  using assms hist_abs_editable [OF assms(3,4)]
  by (auto simp: ed_rep_def modes_def set_text_def hist_abs_def rx_rep_def split: ed_rx.splits)

lemma nav_rep_unique: "nav_rep s es k \<Longrightarrow> nav_rep s es k' \<Longrightarrow> k = k'"
proof (cases k; cases k')
  fix i j assume a: "nav_rep s es k" "nav_rep s es k'" "k = Some i" "k' = Some j"
  then have "entry_off es i = entry_off es j" "i < length es" "j < length es"
    by (auto simp: nav_rep_def)
  then have "i = j" using entry_off_less [of i j es] entry_off_less [of j i es] by (cases i j rule: linorder_cases) auto
  with a show ?thesis by simp
qed (auto simp: nav_rep_def)

lemma cli_history_prev_ed:
  assumes "env_ok E" "ed_rep s v"
  shows "refines (cli_history_prev E s) (ed_up v)"
proof -
  let ?k = "prev_spec (v_hist v) (v_nav v)"
  obtain s' where s': "cli_history_prev E s = Some s'"
    "hist_abs s' (v_hist v) ?k
      (if ?k = v_nav v then v_b v @ v_a v else v_hist v ! the ?k)"
    using cli_history_prev_refines [OF assms(1) ed_rep_abs [OF assms(2)]] by blast
  note keep = history_keeps(1) [OF s'(1)]
  show ?thesis
  proof (cases "?k = v_nav v")
    case True
    have "s' = s"
    proof (cases "v_hist v = []")
      case True
      then have "hist_used s = 0" using assms(2) by (simp add: ed_rep_def hist_rep_def)
      with s'(1) show ?thesis by (simp add: cli_history_prev_def)
    next
      case False
      with \<open>?k = v_nav v\<close> have "v_nav v = Some 0"
        by (cases "v_nav v") (auto simp: prev_spec_def split: nat.splits)
      then have "hist_nav_on s" "hist_nav s = 0" using assms(2) by (auto simp: ed_rep_def nav_rep_def)
      with s'(1) show ?thesis by (simp add: cli_history_prev_def split: if_splits)
    qed
    with True s'(1) assms(2) show ?thesis by (simp add: ed_up_def Let_def)
  next
    case False
    have "s' \<noteq> s"
      using nav_rep_unique [of s "v_hist v" "v_nav v" ?k] assms(2) s'(2) False
      by (auto simp: ed_rep_def hist_abs_def)
    with keep loaded_rep [OF assms(2), of s' ?k "v_hist v ! the ?k"] s' False show ?thesis
      by (simp add: ed_up_def Let_def)
  qed
qed

lemma cli_history_next_ed:
  assumes "env_ok E" "ed_rep s v"
  shows "refines (cli_history_next E s) (ed_down v)"
proof (cases "v_nav v")
  case None
  with assms(2) show ?thesis
    by (simp add: ed_down_def cli_history_next_def ed_rep_def nav_rep_def)
next
  case (Some i)
  let ?k = "next_pos (v_hist v) i"
  obtain s' where s': "cli_history_next E s = Some s'"
    "hist_abs s' (v_hist v) ?k (case ?k of None \<Rightarrow> [] | Some j \<Rightarrow> v_hist v ! j)"
    using cli_history_next_refines [OF assms(1) ed_rep_abs [OF assms(2)]] Some by auto
  have "?k \<noteq> Some i" by (simp add: next_pos_def)
  then have "s' \<noteq> s"
    using nav_rep_unique [of s "v_hist v" "v_nav v" ?k] assms(2) s'(2) Some
    by (auto simp: ed_rep_def hist_abs_def)
  with history_keeps(2) [OF s'(1)] loaded_rep [OF assms(2), of s' ?k] s' Some show ?thesis
    by (cases ?k) (auto simp: ed_down_def)
qed

text \<open>Tab keeps the history and the modes.\<close>

lemma edit_write_frame: "edit_write E s bs = Some s' \<Longrightarrow> frame s s'"
  by (auto simp: edit_write_def frame_def)

lemma refresh_frame: "cli_edit_refresh E s = Some s' \<Longrightarrow> frame s s'"
  by (auto simp: frame_def dest: refresh_shape)

lemma insert_at_cursor_frame: "insert_at_cursor E s src = Some (ok, s') \<Longrightarrow> frame s s'"
  by (auto simp: insert_at_cursor_def Let_def bel_def bind_eq_Some_conv frame_def
      split: if_splits dest!: edit_write_frame)

lemma show_list_frame: "show_list E s cs pre = Some s' \<Longrightarrow> frame s s'"
  by (auto simp: show_list_def Let_def cli_edit_redraw_def bind_eq_Some_conv frame_def
      split: if_splits prod.splits dest!: refresh_frame)

lemma frame_armed [simp]: "frame s (t\<lparr>tab_list_armed := x\<rparr>) = frame s t"
  "frame (s\<lparr>tab_list_armed := x\<rparr>) t = frame s t"
  by (simp_all add: frame_def)

lemma tab_one_frame: "tab_one E s pre c = Some s' \<Longrightarrow> frame s s'"
  by (fastforce simp: tab_one_def cli_edit_redraw_def bind_eq_Some_conv split: if_splits prod.splits
      dest: refresh_frame insert_at_cursor_frame intro: frame_trans)

lemma tab_many_frame:
  assumes "tab_many E s cs pre c l = Some s'"
  shows "frame s s'"
proof -
  from assms obtain x s1 where i: "(if l > 0 then insert_at_cursor E s (take l (drop (length pre) (name_of c)))
      else Some (False, s)) = Some (x, s1)"
    and r: "(if x then map_option (\<lambda>s2. s2\<lparr>tab_list_armed := True\<rparr>) (cli_edit_redraw E s1)
       else if tab_list_armed s1 then show_list E s1 cs pre
       else let s2 = s1\<lparr>tab_list_armed := True\<rparr> in if l = 0 then bel E s2 else Some s2) = Some s'"
    by (auto simp: tab_many_def bind_eq_Some_conv)
  have "frame s s1" using i by (auto split: if_splits dest: insert_at_cursor_frame)
  moreover have "frame s1 s'"
    using r by (auto simp: Let_def cli_edit_redraw_def bel_def split: if_splits
        dest!: refresh_frame show_list_frame edit_write_frame)
  ultimately show ?thesis by (rule frame_trans)
qed

lemma tab_frame: "cli_tab_complete E roots s = Some s' \<Longrightarrow> frame s s'"
  by (auto simp: cli_tab_complete_def Let_def bel_def split: option.splits prod.splits if_splits
      dest!: edit_write_frame tab_one_frame tab_many_frame)

lemma cli_tab_complete_ed:
  assumes "env_ok E" "ed_rep s v" "\<forall>c\<in>set roots. cmd_ok c"
  shows "\<exists>ext. refines (cli_tab_complete E roots s) (set_text v (v_b v @ ext, v_a v)) \<and>
    tab_ext (tab_prefix s) (tab_names roots s) ext"
proof -
  obtain s' ext where t: "cli_tab_complete E roots s = Some s'" "editable s' (v_b v @ ext) (v_a v)"
    "tab_ext (tab_prefix s) (tab_names roots s) ext"
    using cli_tab_complete_effect [OF assms(1) ed_rep_editable [OF assms(2)] assms(3)] by blast
  have "refines (cli_tab_complete E roots s) (set_text v (v_b v @ ext, v_a v))"
    by (rule edits_refines [OF _ assms(2)]) (use t tab_frame in \<open>auto simp: edits_def\<close>)
  with t(3) show ?thesis by blast
qed

lemma edit_submit_ed:
  assumes "host_ok H" "drains (h_env H)" "ed_rep s v"
  shows "refines (edit_submit H s) (ed_submit v)"
proof -
  have E: "env_ok (h_env H)" using assms(1) by (simp add: host_ok_def)
  have "edits s (op_end (h_env H) s) (v_b v @ v_a v) []"
    by (rule op_end_edits [OF E ed_rep_editable [OF assms(3)]])
  moreover have "cur s \<le> len s" using assms(3) by (simp add: ed_rep_def editable_def)
  then have "op_end (h_env H) s = (if cur s \<noteq> len s then move_to (h_env H) s (len s) else Some s)"
    by (auto simp: op_end_def)
  ultimately obtain s1 where s1: "edit_submit H s = cli_dispatch_line H s1" "frame s s1"
    "editable s1 (v_b v @ v_a v) []"
    by (auto simp: edits_def edit_submit_def)
  have l: "line_ok s1" "line_text s1 = v_b v @ v_a v" "txs_ok (tx s1)"
    using editable_line_ok [OF s1(3)] by simp_all
  have h: "hist_rep (hist s1) (hist_used s1) (v_hist v)"
    using assms(3) s1(2) by (simp add: ed_rep_def frame_def)
  from cli_dispatch_line_effect [OF assms(1,2) l(1,3) h] obtain s' where
    "cli_dispatch_line H s1 = Some s'" "editable s' [] []" "rx s' = CLI_RX_NORMAL" "\<not> hist_nav_on s'"
    "hist_rep (hist s') (hist_used s') (add_spec (v_hist v) (v_b v @ v_a v))"
    "prev_cr s' = prev_cr s1 \<and> bs_swap s' = bs_swap s1 \<and> overwrite s' = overwrite s1"
    unfolding l(2) by blast
  with s1(1,2) assms(3) show ?thesis
    by (simp add: ed_submit_def ed_rep_def frame_def nav_rep_def rx_rep_def)
qed

lemma input_ctrl_c_ed:
  assumes "env_ok E" "ed_rep s v"
  shows "refines (input_ctrl_c E s) (ed_ctrl_c v)"
proof -
  let ?s = "s\<lparr>rx := CLI_RX_NORMAL, prev_cr := False, tx := (tx s)\<lparr>tx_failed := False\<rparr>\<rparr>"
  have ed: "editable s (v_b v) (v_a v)" by (rule ed_rep_editable [OF assms(2)])
  have "txs_ok (tx ?s)" using ed by (simp add: editable_def txs_ok_def)
  from edit_write_ok [OF assms(1) this] obtain t1 where
    t1: "edit_write E ?s [94, 67, 13, 10] = Some (?s\<lparr>tx := t1\<rparr>)" "txs_ok t1" by blast
  obtain c cs where l: "line s = c # cs" "length cs = 255"
    using ed by (cases "line s") (auto simp: editable_def CLI_CMD_BUFFER_SIZE_def)
  let ?s2 = "?s\<lparr>tx := t1, len := 0, cur := 0, line := 0 # cs, hist_nav_on := False,
    old_rows := (length (prompt s) div edit_cols s + 1) mod 256, draw_row := 0\<rparr>"
  obtain s3 t2 where s3: "cli_prompt E ?s2 = Some s3" "s3 = ?s2\<lparr>tx := t2\<rparr>" "txs_ok t2"
    using cli_prompt_ok [OF assms(1), of ?s2] t1(2) by auto
  have "input_ctrl_c E s = Some s3"
    using t1(1) s3(1) l
    by (cases "term_width s = 0") (simp_all add: input_ctrl_c_def st_def edit_cols_def)
  moreover have "ed_rep s3 (ed_ctrl_c v)"
    using s3(3) l assms(2) unfolding s3(2)
    by (simp add: ed_rep_def ed_ctrl_c_def editable_def nav_rep_def rx_rep_def CLI_CMD_BUFFER_SIZE_def)
  ultimately show ?thesis by (simp add: refines_def)
qed

text \<open>The escape parser.\<close>

lemma rx_update_rep:
  "ed_rep s v \<Longrightarrow> ed_rep (s\<lparr>rx := CLI_RX_NORMAL\<rparr>) (v\<lparr>v_rx := R_norm\<rparr>)"
  by (simp add: ed_rep_def editable_def nav_rep_def rx_rep_def split: option.splits)

lemma ss3_final_ed:
  assumes "env_ok E" "ed_rep s v"
  shows "refines (ss3_final E s f) (ed_final f v)"
  using text_ops_refine [OF assms] cli_history_prev_ed [OF assms] cli_history_next_ed [OF assms] assms(2)
  by (simp add: ss3_final_def ed_final_def)

lemma cpr_reply_ed:
  assumes "env_ok E" "ed_rep s v"
  shows "refines (cpr_reply E s) v"
proof -
  have same: "ed_rep (s\<lparr>probing_cpr := False\<rparr>) v"
    "ed_rep (s\<lparr>probing_cpr := False, term_width := w\<rparr>) v" for w
    using assms(2) by (simp_all add: ed_rep_def editable_def nav_rep_def rx_rep_def
        split: option.splits ed_rx.splits)
  have "refines (cli_edit_refresh E (s\<lparr>probing_cpr := False, term_width := w\<rparr>)) v" for w
    using edits_refines [OF refresh_edits [OF assms(1) ed_rep_editable [OF same(2)] frame_refl] same(2)]
    by simp
  with same assms(2) show ?thesis by (simp add: cpr_reply_def Let_def)
qed

lemma tilde_final_ed:
  assumes "env_ok E" "ed_rep s v" and "n = (if esc_np s \<ge> 1 then esc_p0 s else 0)"
  shows "refines (tilde_final E s) (ed_tilde n v)"
proof -
  have "ed_rep (s\<lparr>overwrite := \<not> overwrite s\<rparr>) (v\<lparr>v_ovr := \<not> v_ovr v\<rparr>)"
    using assms(2) by (simp add: ed_rep_def editable_def nav_rep_def rx_rep_def
        split: option.splits ed_rx.splits)
  with text_ops_refine [OF assms(1,2)] assms(2) show ?thesis
    unfolding tilde_final_def Let_def assms(3) [symmetric] by (simp add: ed_tilde_def)
qed

lemma csi_final_ed:
  assumes "env_ok E" "ed_rep s v" and "n = (if esc_np s \<ge> 1 then esc_p0 s else 0)"
  shows "refines (csi_final E s f) (if f = 126 then ed_tilde n v else ed_final f v)"
  using text_ops_refine [OF assms(1,2)] cli_history_prev_ed [OF assms(1,2)] assms(2)
    cli_history_next_ed [OF assms(1,2)] tilde_final_ed [OF assms] cpr_reply_ed [OF assms(1,2)]
  by (simp add: csi_final_def ed_final_def)

lemma input_csi_ed:
  assumes "env_ok E" "ed_rep s v" "v_rx v = R_csi n p"
  shows "refines (input_csi E s c) (ed_csi n p c v)"
proof -
  have rxr: "rx s = CLI_RX_CSI" "esc_np s = n" "esc_p0 s = p" "n \<le> 2"
    using assms(2,3) by (simp_all add: ed_rep_def rx_rep_def)
  consider (digit) "48 \<le> c \<and> c \<le> 57" | (semi) "c = 59" | (fin) "\<not> (48 \<le> c \<and> c \<le> 57)" "c \<noteq> 59" by blast
  then show ?thesis
  proof cases
    case digit
    then show ?thesis
      using assms(2) rxr
      by (auto simp: input_csi_def ed_csi_def csi_digit_def Let_def ed_rep_def editable_def nav_rep_def
          rx_rep_def split: option.splits)
  next
    case semi
    then show ?thesis
      using assms(2) rxr
      by (auto simp: input_csi_def ed_csi_def ed_rep_def editable_def nav_rep_def rx_rep_def
          split: option.splits)
  next
    case fin
    let ?s = "s\<lparr>rx := CLI_RX_NORMAL\<rparr>" and ?v = "v\<lparr>v_rx := R_norm\<rparr>"
    have rep: "ed_rep ?s ?v" by (rule rx_update_rep [OF assms(2)])
    have "refines (csi_final E ?s c) (if c = 126 then ed_tilde (if n \<ge> 1 then p else 0) ?v else ed_final c ?v)"
      by (rule csi_final_ed [OF assms(1) rep]) (simp add: rxr)
    moreover have "ed_final c ?v = ?v" "c \<noteq> 126" if "\<not> (64 \<le> c \<and> c \<le> 126)"
      using that by (auto simp: ed_final_def)
    ultimately show ?thesis
      using fin rep by (auto simp: input_csi_def ed_csi_def Let_def)
  qed
qed

lemma input_ss3_ed:
  assumes "env_ok E" "ed_rep s v"
  shows "refines (input_ss3 E s c) (ed_final c (v\<lparr>v_rx := R_norm\<rparr>))"
proof -
  have "ed_final c w = w" if "\<not> (64 \<le> c \<and> c \<le> 126)" for w
    using that by (auto simp: ed_final_def)
  with ss3_final_ed [OF assms(1) rx_update_rep [OF assms(2)]] rx_update_rep [OF assms(2)] show ?thesis
    by (auto simp: input_ss3_def Let_def)
qed

lemma input_esc_ed:
  assumes "env_ok E" "ed_rep s v"
  shows "refines (input_esc E s c) (ed_esc c v)"
proof -
  note rep = rx_update_rep [OF assms(2)]
  have "ed_rep (s\<lparr>rx := CLI_RX_CSI, esc_np := 0, esc_bad := False, esc_p0 := 0, esc_p1 := 0\<rparr>)
      (v\<lparr>v_rx := R_csi 0 0\<rparr>)" "ed_rep (s\<lparr>rx := CLI_RX_SS3\<rparr>) (v\<lparr>v_rx := R_ss3\<rparr>)"
    using assms(2) by (simp_all add: ed_rep_def editable_def nav_rep_def rx_rep_def split: option.splits)
  with text_ops_refine(10,11) [OF assms(1) rep] rep show ?thesis
    by (simp add: input_esc_def ed_esc_def Let_def)
qed

lemma input_key_ed:
  assumes "host_ok H" "\<forall>c\<in>set (h_roots H). cmd_ok c" "ed_rep s v" "v_rx v = R_norm"
  shows "\<exists>ext. refines (input_key H s c) (ed_key ext c v) \<and>
    (c = 9 \<longrightarrow> tab_ext (tab_prefix s) (tab_names (h_roots H) s) ext)"
proof -
  have E: "env_ok (h_env H)" using assms(1) by (simp add: host_ok_def)
  obtain ext where ext: "refines (cli_tab_complete (h_env H) (h_roots H) s) (set_text v (v_b v @ ext, v_a v))"
    "tab_ext (tab_prefix s) (tab_names (h_roots H) s) ext"
    using cli_tab_complete_ed [OF E assms(3,2)] by blast
  have esc: "ed_rep (s\<lparr>rx := CLI_RX_ESC\<rparr>) (v\<lparr>v_rx := R_esc\<rparr>)"
    using assms(3) by (simp add: ed_rep_def editable_def nav_rep_def rx_rep_def split: option.splits)
  have "bs_swap s = v_swap v" using assms(3) by (simp add: ed_rep_def)
  moreover have "c \<noteq> 0" if "32 \<le> c" using that by auto
  ultimately have "refines (input_key H s c) (ed_key ext c v)"
    using text_ops_refine [OF E assms(3)] cli_history_prev_ed [OF E assms(3)] assms(3)
      cli_history_next_ed [OF E assms(3)] ext(1) esc
    by (simp add: input_key_def ed_key_def Let_def)
  with ext(2) show ?thesis by blast
qed

lemma cr_rep: "ed_rep s v \<Longrightarrow> ed_rep (s\<lparr>prev_cr := x\<rparr>) (v\<lparr>v_cr := x\<rparr>)"
  by (simp add: ed_rep_def editable_def nav_rep_def rx_rep_def split: option.splits ed_rx.splits)

lemma cr_refines: "refines out v \<Longrightarrow> refines (map_option (prev_cr_update (\<lambda>_. x)) out) (v\<lparr>v_cr := x\<rparr>)"
  by (auto simp: refines_def intro: cr_rep)

lemma tab_view_cong:
  assumes "line s' = line s" "cur s' = cur s" "len s' = len s"
  shows "tab_prefix s' = tab_prefix s" "tab_names roots s' = tab_names roots s"
  using assms by (simp_all add: tab_prefix_def tab_names_def complete_word_start_def resolve_set_def
      split: option.split)

lemma input_normal_ed:
  assumes "host_ok H" "drains (h_env H)" "\<forall>c\<in>set (h_roots H). cmd_ok c" "ed_rep s v" "v_rx v = R_norm"
  shows "\<exists>ext. refines (input_normal H s c)
      (if c = 13 then (ed_submit v)\<lparr>v_cr := True\<rparr>
       else if c = 10 then (if v_cr v then v\<lparr>v_cr := False\<rparr> else ed_submit v)
       else ed_key ext c (v\<lparr>v_cr := False\<rparr>)) \<and>
    (c = 9 \<longrightarrow> tab_ext (tab_prefix s) (tab_names (h_roots H) s) ext)"
proof -
  have "prev_cr s = v_cr v" using assms(4) by (simp add: ed_rep_def)
  moreover obtain ext where "refines (input_key H (s\<lparr>prev_cr := False\<rparr>) c) (ed_key ext c (v\<lparr>v_cr := False\<rparr>))"
    "c = 9 \<longrightarrow> tab_ext (tab_prefix s) (tab_names (h_roots H) s) ext"
    using input_key_ed [OF assms(1,3) cr_rep [OF assms(4)], of False c]
      tab_view_cong(1) [of "s\<lparr>prev_cr := False\<rparr>" s] tab_view_cong(2) [of "s\<lparr>prev_cr := False\<rparr>" s "h_roots H"] assms(5) by auto
  ultimately show ?thesis
    using edit_submit_ed [OF assms(1,2,4)] cr_rep [OF assms(4), of False]
      cr_refines [OF edit_submit_ed [OF assms(1,2,4)], of True]
    by (intro exI [of _ ext]) (simp add: input_normal_def)
qed

lemma input_wake_ed:
  assumes "env_ok E" "ed_rep s v"
  shows "\<exists>s0. (if render_dirty s then cli_edit_refresh E (s\<lparr>render_dirty := False\<rparr>) else Some s) = Some s0 \<and>
    ed_rep s0 v \<and> line s0 = line s \<and> cur s0 = cur s \<and> len s0 = len s"
proof (cases "render_dirty s")
  case True
  have rep: "ed_rep (s\<lparr>render_dirty := False\<rparr>) v"
    using assms(2) by (simp add: ed_rep_def editable_def nav_rep_def rx_rep_def split: option.splits ed_rx.splits)
  obtain s0 where s0: "cli_edit_refresh E (s\<lparr>render_dirty := False\<rparr>) = Some s0" "ed_rep s0 v"
    using edits_refines [OF refresh_edits [OF assms(1) ed_rep_editable [OF rep] frame_refl] rep]
    by (auto simp: refines_def)
  with refresh_shape [OF s0(1)] True show ?thesis by auto
next
  case False
  with assms(2) show ?thesis by auto
qed

lemma armed_rep: "ed_rep (s\<lparr>tab_list_armed := x\<rparr>) v = ed_rep s v"
  by (simp add: ed_rep_def editable_def nav_rep_def rx_rep_def split: option.splits ed_rx.splits)

lemma cli_input_byte_ed:
  assumes "host_ok H" "drains (h_env H)" "\<forall>c\<in>set (h_roots H). cmd_ok c" "ed_rep s v"
  shows "\<exists>s' ext. cli_input_byte H s c = Some s' \<and> ed_rep s' (ed_step ext v c) \<and>
    (c = 9 \<and> v_rx v = R_norm \<longrightarrow> tab_ext (tab_prefix s) (tab_names (h_roots H) s) ext)"
proof -
  have E: "env_ok (h_env H)" using assms(1) by (simp add: host_ok_def)
  obtain s0 where s0: "(if render_dirty s then cli_edit_refresh (h_env H) (s\<lparr>render_dirty := False\<rparr>)
      else Some s) = Some s0" "ed_rep s0 v" "line s0 = line s" "cur s0 = cur s" "len s0 = len s"
    using input_wake_ed [OF E assms(4)] by blast
  define s1 where "s1 = (if c \<noteq> 9 then s0\<lparr>tab_list_armed := False\<rparr> else s0)"
  have rep: "ed_rep s1 v" using s0(2) by (simp add: s1_def armed_rep)
  have tv: "tab_prefix s1 = tab_prefix s" "tab_names (h_roots H) s1 = tab_names (h_roots H) s"
    using tab_view_cong(1) [of s1 s] tab_view_cong(2) [of s1 s "h_roots H"] s0 by (auto simp: s1_def split: if_splits)
  have rxr: "rx_rep s1 (v_rx v)" using rep by (simp add: ed_rep_def)
  have byte: "cli_input_byte H s c =
      (if c AND 128 \<noteq> 0 then Some s0
       else if c = 3 then input_ctrl_c (h_env H) s1
       else (case rx s1 of CLI_RX_ESC \<Rightarrow> input_esc (h_env H) s1 c | CLI_RX_CSI \<Rightarrow> input_csi (h_env H) s1 c
         | CLI_RX_SS3 \<Rightarrow> input_ss3 (h_env H) s1 c | CLI_RX_NORMAL \<Rightarrow> input_normal H s1 c))"
    by (simp only: cli_input_byte_def s0(1) bind.simps Let_def s1_def)
  have "\<exists>ext. refines (cli_input_byte H s c) (ed_step ext v c) \<and>
    (c = 9 \<and> v_rx v = R_norm \<longrightarrow> tab_ext (tab_prefix s) (tab_names (h_roots H) s) ext)"
  proof (cases "c AND 128 \<noteq> 0 \<or> c = 3")
    case True
    with byte s0(2) input_ctrl_c_ed [OF E rep] show ?thesis
      by (intro exI [of _ "[]"]) (auto simp: ed_step_def)
  next
    case False
    then have n: "\<not> c AND 128 \<noteq> 0" "c \<noteq> 3" by auto
    show ?thesis
    proof (cases "v_rx v")
      case R_norm
      obtain ext where "refines (input_normal H s1 c)
          (if c = 13 then (ed_submit v)\<lparr>v_cr := True\<rparr>
           else if c = 10 then (if v_cr v then v\<lparr>v_cr := False\<rparr> else ed_submit v)
           else ed_key ext c (v\<lparr>v_cr := False\<rparr>))"
        "c = 9 \<longrightarrow> tab_ext (tab_prefix s) (tab_names (h_roots H) s) ext"
        using input_normal_ed [OF assms(1-3) rep R_norm, of c] tv by auto
      with n R_norm rxr show ?thesis
        by (intro exI [of _ ext]) (simp add: byte ed_step_def rx_rep_def)
    next
      case R_esc
      with n rxr input_esc_ed [OF E rep, of c] show ?thesis by (simp add: byte ed_step_def rx_rep_def)
    next
      case (R_csi m p)
      with n rxr input_csi_ed [OF E rep R_csi, of c] show ?thesis by (simp add: byte ed_step_def rx_rep_def)
    next
      case R_ss3
      with n rxr input_ss3_ed [OF E rep, of c] show ?thesis by (simp add: byte ed_step_def rx_rep_def)
    qed
  qed
  then show ?thesis by (auto simp: refines_def)
qed

section \<open>Any input\<close>

text \<open>A run of the state machine over a byte string, and of the abstract editor over the same bytes.\<close>

fun input_bytes :: "('h, 'w) host \<Rightarrow> 'w cli_instance \<Rightarrow> u8 list \<Rightarrow> 'w cli_instance option" where
  "input_bytes H s [] = Some s"
| "input_bytes H s (c # cs) = Option.bind (cli_input_byte H s c) (\<lambda>s'. input_bytes H s' cs)"

inductive ed_run :: "ed_view \<Rightarrow> u8 list \<Rightarrow> ed_view \<Rightarrow> bool" where
  ed_run_Nil: "ed_run v [] v"
| ed_run_Cons: "ed_run (ed_step ext v c) cs v' \<Longrightarrow> (c \<noteq> 9 \<Longrightarrow> ext = []) \<Longrightarrow> ed_run v (c # cs) v'"

lemma ed_step_ext: "c \<noteq> 9 \<Longrightarrow> ed_step ext v c = ed_step [] v c"
  by (simp add: ed_step_def ed_key_def split: ed_rx.split)

lemma input_bytes_ed:
  assumes "host_ok H" "drains (h_env H)" "\<forall>c\<in>set (h_roots H). cmd_ok c" "ed_rep s v"
  shows "\<exists>s' v'. input_bytes H s cs = Some s' \<and> ed_run v cs v' \<and> ed_rep s' v'"
  using assms(4)
proof (induction cs arbitrary: s v)
  case Nil
  then show ?case by (auto intro: ed_run_Nil)
next
  case (Cons c cs)
  obtain s1 ext where s1: "cli_input_byte H s c = Some s1" "ed_rep s1 (ed_step ext v c)"
    using cli_input_byte_ed [OF assms(1-3) Cons.prems, of c] by blast
  let ?ext = "if c = 9 then ext else []"
  have "ed_step ext v c = ed_step ?ext v c" using ed_step_ext [of c ext v] by simp
  with Cons.IH [OF s1(2)] obtain s' v' where
    "input_bytes H s1 cs = Some s'" "ed_run (ed_step ?ext v c) cs v'" "ed_rep s' v'" by metis
  with s1(1) show ?case by (auto intro!: ed_run_Cons [of ?ext])
qed

text \<open>C26. The byte input state machine is the abstract line editor: whatever bytes arrive, none of
  them makes it fault or hang, and the text around the cursor, the list of submitted lines with
  the position of the recall, the escape parser and the modes after them are those of
  \<open>ed_step\<close>, byte by byte; the line buffer stays terminated and in bounds throughout.\<close>

theorem cli_input_byte_refines:
  assumes "host_ok H" "drains (h_env H)" "\<forall>c\<in>set (h_roots H). cmd_ok c" "ed_rep s v"
  shows "\<exists>s' v'. input_bytes H s cs = Some s' \<and> ed_run v cs v' \<and> ed_rep s' v' \<and> line_ok s' \<and>
    line_text s' = v_b v' @ v_a v'"
proof -
  obtain s' v' where "input_bytes H s cs = Some s'" "ed_run v cs v'" "ed_rep s' v'"
    using input_bytes_ed [OF assms] by blast
  with editable_line_ok [OF ed_rep_editable] show ?thesis by blast
qed

definition fresh_view :: ed_view where
  "fresh_view = \<lparr>v_b = [], v_a = [], v_hist = [], v_nav = None, v_rx = R_norm, v_ovr = False,
     v_swap = False, v_cr = False\<rparr>"

lemma fresh_rep: "ed_rep fresh_instance fresh_view"
proof -
  have "line_ok fresh_instance" "txs_ok (tx fresh_instance)" "\<not> hist_nav_on fresh_instance"
    "line_text fresh_instance = []" by code_simp+
  then have "editable fresh_instance [] []" "\<not> hist_nav_on fresh_instance"
    using line_ok_editable [of fresh_instance] by auto
  moreover have "hist_rep (hist fresh_instance) (hist_used fresh_instance) []"
    by (simp add: hist_rep_def fresh_instance_def)
  ultimately show ?thesis
    by (simp add: ed_rep_def fresh_view_def nav_rep_def rx_rep_def fresh_instance_def)
qed

text \<open>\<open>x\<close>, Ctrl+A, \<open>y\<close>: the line reads \<open>yx\<close>.\<close>

lemma ed_run_cases: "ed_run v (c # cs) v' \<Longrightarrow> c \<noteq> 9 \<Longrightarrow> ed_run (ed_step [] v c) cs v'"
  "ed_run v [] v' \<Longrightarrow> v' = v"
  by (auto elim: ed_run.cases)

lemma cli_input_byte_refines_witness:
  "\<exists>s'. input_bytes sample_host fresh_instance [120, 1, 121] = Some s' \<and> line_text s' = [121, 120]"
proof -
  have roots: "\<forall>c\<in>set (h_roots sample_host). cmd_ok c"
    by (simp add: sample_host_def str_def)
  obtain s' v' where r: "input_bytes sample_host fresh_instance [120, 1, 121] = Some s'"
    "ed_run fresh_view [120, 1, 121] v'" "line_text s' = v_b v' @ v_a v'"
    using cli_input_byte_refines [OF sample_host_ok roots fresh_rep] by blast
  have "v' = ed_step [] (ed_step [] (ed_step [] fresh_view 120) 1) 121"
    using ed_run_cases(1) [OF ed_run_cases(1) [OF ed_run_cases(1) [OF r(2)]]] ed_run_cases(2) by simp
  moreover have "v_b \<dots> @ v_a \<dots> = [121, 120]" by code_simp
  ultimately show ?thesis using r by auto
qed

end
