(* ===== verification/BlobState.thy ===== *)
theory BlobState
  imports Crc32
begin

text \<open>
  The blob store's pure part, \<open>svc/blob/blob_state.c\<close>: the header codec, the choice of a slot to
  write and of one to read, and the bookkeeping of one transfer. A header is the byte list of
  its two pages; a name is the bytes of a C string.
\<close>

section \<open>Names and numbers\<close>

definition BLOB_HDR_PAGE :: nat where "BLOB_HDR_PAGE = 256"
definition BLOB_MAGIC_SIZE :: nat where "BLOB_MAGIC_SIZE = 8"
definition BLOB_NAME_MAX :: nat where "BLOB_NAME_MAX = 64"
definition BLOB_BODY_OFF_BODYCRC :: nat where "BLOB_BODY_OFF_BODYCRC = 84"
definition BLOB_BODY_SIZE :: nat where "BLOB_BODY_SIZE = 88"
definition BLOB_HDR_SPAN :: nat where "BLOB_HDR_SPAN = 512"
definition BLOB_FMT_VER :: u32 where "BLOB_FMT_VER = 1"

lemmas blob_sizes = BLOB_HDR_PAGE_def BLOB_MAGIC_SIZE_def BLOB_NAME_MAX_def
  BLOB_BODY_OFF_BODYCRC_def BLOB_BODY_SIZE_def BLOB_HDR_SPAN_def BLOB_FMT_VER_def

definition magic_bytes :: "u8 list" where "magic_bytes = str ''BLOBSTOR''"

definition get32 :: "u8 list \<Rightarrow> nat \<Rightarrow> u32" where
  "get32 p off =
     ucast (p ! off) OR push_bit 8 (ucast (p ! (off + 1))) OR push_bit 16 (ucast (p ! (off + 2))) OR
     push_bit 24 (ucast (p ! (off + 3)))"

definition put32 :: "u32 \<Rightarrow> u8 list" where
  "put32 v = [ucast (v AND 0xFF), ucast (drop_bit 8 v AND 0xFF), ucast (drop_bit 16 v AND 0xFF),
     ucast (drop_bit 24 v AND 0xFF)]"

definition all_erased :: "u8 list \<Rightarrow> bool" where
  "all_erased p \<longleftrightarrow> list_all (\<lambda>c. c = 0xFF) p"

datatype blob_name_verdict =
  BLOB_NAME_OK | BLOB_NAME_EMPTY | BLOB_NAME_LONG | BLOB_NAME_CHAR | BLOB_NAME_DASH

definition name_char :: "u8 \<Rightarrow> bool" where
  "name_char c \<longleftrightarrow> \<not> (c < 0x21 \<or> c > 0x7E)"

fun name_loop :: "u8 list \<Rightarrow> nat \<Rightarrow> blob_name_verdict \<times> nat" where
  "name_loop [] n = (BLOB_NAME_OK, n)"
| "name_loop (c # cs) n =
     (if \<not> name_char c then (BLOB_NAME_CHAR, n)
      else if n + 1 > BLOB_NAME_MAX then (BLOB_NAME_LONG, n + 1)
      else name_loop cs (n + 1))"

definition blob_name_check :: "u8 list option \<Rightarrow> blob_name_verdict \<times> nat" where
  "blob_name_check name =
     (case name of
        None \<Rightarrow> (BLOB_NAME_EMPTY, 0)
      | Some [] \<Rightarrow> (BLOB_NAME_EMPTY, 0)
      | Some (c # cs) \<Rightarrow> if c = 45 then (BLOB_NAME_DASH, 0) else name_loop (c # cs) 0)"

section \<open>The header codec\<close>

datatype blob_slot_state = BLOB_EMPTY | BLOB_VALID | BLOB_INCOMPLETE | BLOB_INVALID

datatype blob_hdr_reject =
    BLOB_REJECT_NONE | BLOB_REJECT_SHORT | BLOB_REJECT_MAGIC | BLOB_REJECT_BODY_TAIL
  | BLOB_REJECT_VER | BLOB_REJECT_BASE | BLOB_REJECT_LENGTH | BLOB_REJECT_NAME | BLOB_REJECT_BODY_CRC

record blob_info =
  bi_state :: blob_slot_state
  bi_name :: "u8 list"
  bi_length :: u32
  bi_crc32 :: u32

definition zero_info :: blob_info where
  "zero_info = \<lparr>bi_state = BLOB_EMPTY, bi_name = [], bi_length = 0, bi_crc32 = 0\<rparr>"

text \<open>The body page in field order; the fields are delivered when nothing stopped it.\<close>

definition body_decode :: "u8 list \<Rightarrow> u32 \<Rightarrow> u32 \<Rightarrow> blob_hdr_reject \<times> blob_info" where
  "body_decode body slot_base payload_max =
     (if get32 body 0 \<noteq> BLOB_FMT_VER then (BLOB_REJECT_VER, zero_info)
      else if get32 body 4 \<noteq> slot_base then (BLOB_REJECT_BASE, zero_info)
      else let len = get32 body 8 in
        if len = 0 \<or> len > payload_max then (BLOB_REJECT_LENGTH, zero_info)
        else let nlen = get32 body 16 in
          if nlen = 0 \<or> unat nlen > BLOB_NAME_MAX then (BLOB_REJECT_NAME, zero_info)
          else let nm = take (unat nlen) (drop 20 body) in
            if \<not> list_all name_char nm then (BLOB_REJECT_NAME, zero_info)
            else if crc32_update 0 (take BLOB_BODY_OFF_BODYCRC body) \<noteq> get32 body BLOB_BODY_OFF_BODYCRC
            then (BLOB_REJECT_BODY_CRC, zero_info)
            else (BLOB_REJECT_NONE,
                  zero_info\<lparr>bi_name := nm, bi_length := len, bi_crc32 := get32 body 12\<rparr>))"

definition blob_hdr_decode ::
  "u8 list option \<Rightarrow> u32 \<Rightarrow> u32 \<Rightarrow> blob_slot_state \<times> blob_info \<times> blob_hdr_reject" where
  "blob_hdr_decode hdr slot_base payload_max =
     (let bad = (\<lambda>r. (BLOB_INVALID, zero_info\<lparr>bi_state := BLOB_INVALID\<rparr>, r)) in
      case hdr of
        None \<Rightarrow> bad BLOB_REJECT_SHORT
      | Some h \<Rightarrow>
          if length h < BLOB_HDR_SPAN then bad BLOB_REJECT_SHORT
          else
            (let page0 = take BLOB_HDR_PAGE h; body = take BLOB_HDR_PAGE (drop BLOB_HDR_PAGE h);
                 magic_erased = all_erased page0;
                 magic_present = (take BLOB_MAGIC_SIZE page0 = magic_bytes \<and>
                                  all_erased (drop BLOB_MAGIC_SIZE page0)) in
             if \<not> magic_erased \<and> \<not> magic_present then bad BLOB_REJECT_MAGIC
             else if \<not> all_erased (drop BLOB_BODY_SIZE body) then bad BLOB_REJECT_BODY_TAIL
             else (case body_decode body slot_base payload_max of
                 (r, info) \<Rightarrow>
                   if r = BLOB_REJECT_NONE
                   then (let state = (if magic_present then BLOB_VALID else BLOB_INCOMPLETE) in
                         (state, info\<lparr>bi_state := state\<rparr>, BLOB_REJECT_NONE))
                   else if magic_erased \<and> all_erased body
                   then (BLOB_EMPTY, zero_info\<lparr>bi_state := BLOB_EMPTY\<rparr>, BLOB_REJECT_NONE)
                   else bad r)))"

text \<open>The body page: the zeroed body with its fields, then erased bytes; and the magic page.\<close>

definition body_fields :: "u32 \<Rightarrow> blob_info \<Rightarrow> u8 list" where
  "body_fields slot_base info =
     put32 BLOB_FMT_VER @ put32 slot_base @ put32 (bi_length info) @ put32 (bi_crc32 info) @
     put32 (of_nat (length (bi_name info))) @ bi_name info @
     replicate (BLOB_NAME_MAX - length (bi_name info)) 0"

definition blob_hdr_encode_body ::
  "u8 list option \<Rightarrow> u32 \<Rightarrow> u32 \<Rightarrow> blob_info option \<Rightarrow> blob_hdr_reject \<times> u8 list" where
  "blob_hdr_encode_body page slot_base payload_max info =
     (case (page, info) of
        (Some p, Some i) \<Rightarrow>
          if length p < BLOB_HDR_PAGE then (BLOB_REJECT_SHORT, p)
          else if fst (blob_name_check (Some (bi_name i))) \<noteq> BLOB_NAME_OK then (BLOB_REJECT_NAME, p)
          else if bi_length i = 0 \<or> bi_length i > payload_max then (BLOB_REJECT_LENGTH, p)
          else (let f = body_fields slot_base i in
                (BLOB_REJECT_NONE, f @ put32 (crc32_update 0 f) @
                   replicate (BLOB_HDR_PAGE - BLOB_BODY_SIZE) 0xFF @ drop BLOB_HDR_PAGE p))
      | _ \<Rightarrow> (BLOB_REJECT_SHORT, []))"

definition blob_hdr_encode_magic :: "u8 list option \<Rightarrow> blob_hdr_reject \<times> u8 list" where
  "blob_hdr_encode_magic page =
     (case page of
        None \<Rightarrow> (BLOB_REJECT_SHORT, [])
      | Some p \<Rightarrow>
          if length p < BLOB_HDR_PAGE then (BLOB_REJECT_SHORT, p)
          else (BLOB_REJECT_NONE, magic_bytes @ replicate (BLOB_HDR_PAGE - BLOB_MAGIC_SIZE) 0xFF @
                  drop BLOB_HDR_PAGE p))"

section \<open>Choosing a slot\<close>

record slot_view =
  sv_state :: blob_slot_state
  sv_match :: bool

datatype blob_choice =
    BLOB_CHOICE_REUSE | BLOB_CHOICE_FRESH | BLOB_CHOICE_NEED_SLOT | BLOB_CHOICE_DUPLICATE
  | BLOB_CHOICE_OCCUPIED | BLOB_CHOICE_BAD_MAP | BLOB_CHOICE_REFUSE

text \<open>The scan both look-ups begin with: the matches and the last of them, or a contradiction.\<close>

fun match_scan :: "nat \<Rightarrow> nat \<Rightarrow> nat \<Rightarrow> slot_view list \<Rightarrow> (nat \<times> nat) option" where
  "match_scan i matches at [] = Some (matches, at)"
| "match_scan i matches at (v # vs) =
     (if \<not> sv_match v then match_scan (i + 1) matches at vs
      else if sv_state v \<noteq> BLOB_VALID then None
      else match_scan (i + 1) (matches + 1) i vs)"

definition blob_choose_target ::
  "slot_view list option \<Rightarrow> int \<Rightarrow> blob_choice \<times> nat option" where
  "blob_choose_target views want =
     (case views of
        None \<Rightarrow> (BLOB_CHOICE_REFUSE, None)
      | Some v \<Rightarrow>
          if v = [] then (BLOB_CHOICE_BAD_MAP, None)
          else (case match_scan 0 0 0 v of
              None \<Rightarrow> (BLOB_CHOICE_REFUSE, None)
            | Some (matches, at) \<Rightarrow>
                if matches > 1 then (BLOB_CHOICE_DUPLICATE, None)
                else if want < 0
                then (if matches = 1 then (BLOB_CHOICE_REUSE, Some at) else (BLOB_CHOICE_NEED_SLOT, None))
                else if nat want \<ge> length v then (BLOB_CHOICE_REFUSE, None)
                else if matches = 1
                then (if at \<noteq> nat want then (BLOB_CHOICE_DUPLICATE, None) else (BLOB_CHOICE_REUSE, Some at))
                else if sv_state (v ! nat want) = BLOB_EMPTY \<or> sv_state (v ! nat want) = BLOB_INCOMPLETE
                then (BLOB_CHOICE_FRESH, Some (nat want))
                else (BLOB_CHOICE_OCCUPIED, None)))"

datatype blob_lookup = BLOB_LOOKUP_FOUND | BLOB_LOOKUP_NONE | BLOB_LOOKUP_DUPLICATE | BLOB_LOOKUP_REFUSE

definition blob_resolve_name :: "slot_view list option \<Rightarrow> blob_lookup \<times> nat option" where
  "blob_resolve_name views =
     (case views of
        None \<Rightarrow> (BLOB_LOOKUP_REFUSE, None)
      | Some v \<Rightarrow>
          if v = [] then (BLOB_LOOKUP_REFUSE, None)
          else (case match_scan 0 0 0 v of
              None \<Rightarrow> (BLOB_LOOKUP_REFUSE, None)
            | Some (matches, at) \<Rightarrow>
                if matches > 1 then (BLOB_LOOKUP_DUPLICATE, None)
                else if matches = 0 then (BLOB_LOOKUP_NONE, None)
                else (BLOB_LOOKUP_FOUND, Some at)))"

section \<open>One transfer\<close>

datatype blob_phase =
  BLOB_PHASE_IDLE | BLOB_PHASE_ARMED | BLOB_PHASE_RECV | BLOB_PHASE_DONE | BLOB_PHASE_BROKEN

record blob_write =
  bw_phase :: blob_phase
  bw_slot :: nat
  bw_capacity :: u32
  bw_declared :: u32
  bw_received :: u32
  bw_crc :: u32

datatype blob_wr_verdict =
    BLOB_WR_OK | BLOB_WR_TOO_SMALL | BLOB_WR_EMPTY_FILE | BLOB_WR_OVERRUN | BLOB_WR_SHORT
  | BLOB_WR_PHASE | BLOB_WR_BROKEN

definition blob_write_reset :: "blob_write \<Rightarrow> blob_write" where
  "blob_write_reset w = \<lparr>bw_phase = BLOB_PHASE_IDLE, bw_slot = 0, bw_capacity = 0, bw_declared = 0,
     bw_received = 0, bw_crc = 0\<rparr>"

definition blob_write_arm :: "blob_write \<Rightarrow> nat \<Rightarrow> u32 \<Rightarrow> blob_write" where
  "blob_write_arm w slot capacity =
     \<lparr>bw_phase = BLOB_PHASE_ARMED, bw_slot = slot, bw_capacity = capacity, bw_declared = 0,
      bw_received = 0, bw_crc = 0\<rparr>"

definition blob_write_begin :: "blob_write \<Rightarrow> u32 \<Rightarrow> blob_wr_verdict \<times> blob_write" where
  "blob_write_begin w declared =
     (if bw_phase w = BLOB_PHASE_BROKEN then (BLOB_WR_BROKEN, w)
      else if bw_phase w \<noteq> BLOB_PHASE_ARMED then (BLOB_WR_PHASE, w)
      else if declared = 0 then (BLOB_WR_EMPTY_FILE, w\<lparr>bw_phase := BLOB_PHASE_BROKEN\<rparr>)
      else if declared > bw_capacity w then (BLOB_WR_TOO_SMALL, w\<lparr>bw_phase := BLOB_PHASE_BROKEN\<rparr>)
      else (BLOB_WR_OK, w\<lparr>bw_declared := declared, bw_phase := BLOB_PHASE_RECV\<rparr>))"

text \<open>\<open>buf\<close> is \<open>None\<close> for a NULL pointer with a length.\<close>

definition blob_write_data ::
  "blob_write \<Rightarrow> u8 list option \<Rightarrow> u32 \<Rightarrow> blob_wr_verdict \<times> blob_write" where
  "blob_write_data w buf len =
     (if bw_phase w = BLOB_PHASE_BROKEN then (BLOB_WR_BROKEN, w)
      else if bw_phase w \<noteq> BLOB_PHASE_RECV then (BLOB_WR_PHASE, w)
      else if len = 0 then (BLOB_WR_OK, w)
      else (case buf of
          None \<Rightarrow> (BLOB_WR_PHASE, w\<lparr>bw_phase := BLOB_PHASE_BROKEN\<rparr>)
        | Some bs \<Rightarrow>
            if len > bw_declared w - bw_received w
            then (BLOB_WR_OVERRUN, w\<lparr>bw_phase := BLOB_PHASE_BROKEN\<rparr>)
            else (BLOB_WR_OK, w\<lparr>bw_crc := crc32_update (bw_crc w) (take (unat len) bs),
                                 bw_received := bw_received w + len\<rparr>)))"

definition blob_write_close :: "blob_write \<Rightarrow> blob_wr_verdict \<times> blob_write" where
  "blob_write_close w =
     (if bw_phase w = BLOB_PHASE_BROKEN then (BLOB_WR_BROKEN, w)
      else if bw_phase w \<noteq> BLOB_PHASE_RECV then (BLOB_WR_PHASE, w)
      else if bw_received w \<noteq> bw_declared w then (BLOB_WR_SHORT, w\<lparr>bw_phase := BLOB_PHASE_BROKEN\<rparr>)
      else (BLOB_WR_OK, w\<lparr>bw_phase := BLOB_PHASE_DONE\<rparr>))"

definition blob_write_break :: "blob_write \<Rightarrow> blob_write" where
  "blob_write_break w = w\<lparr>bw_phase := BLOB_PHASE_BROKEN\<rparr>"

definition blob_write_commit_check :: "blob_write \<Rightarrow> blob_wr_verdict" where
  "blob_write_commit_check w =
     (if bw_phase w = BLOB_PHASE_BROKEN then BLOB_WR_BROKEN
      else if bw_phase w \<noteq> BLOB_PHASE_DONE then BLOB_WR_PHASE
      else BLOB_WR_OK)"

section \<open>The sentences the console prints\<close>

definition blob_name_verdict_name :: "blob_name_verdict \<Rightarrow> u8 list" where
  "blob_name_verdict_name v =
     (case v of
        BLOB_NAME_OK \<Rightarrow> str ''ok''
      | BLOB_NAME_EMPTY \<Rightarrow> str ''name is empty''
      | BLOB_NAME_LONG \<Rightarrow> str ''name is too long''
      | BLOB_NAME_CHAR \<Rightarrow> str ''name has a space or a character that is not printable ASCII''
      | BLOB_NAME_DASH \<Rightarrow> str ''name starts with '' @ [39, 45, 39])"

definition blob_slot_state_name :: "blob_slot_state \<Rightarrow> u8 list" where
  "blob_slot_state_name v =
     (case v of
        BLOB_EMPTY \<Rightarrow> str ''empty''
      | BLOB_VALID \<Rightarrow> str ''valid''
      | BLOB_INCOMPLETE \<Rightarrow> str ''incomplete''
      | BLOB_INVALID \<Rightarrow> str ''invalid'')"

definition blob_hdr_reject_name :: "blob_hdr_reject \<Rightarrow> u8 list" where
  "blob_hdr_reject_name v =
     (case v of
        BLOB_REJECT_NONE \<Rightarrow> str ''ok''
      | BLOB_REJECT_SHORT \<Rightarrow> str ''header buffer is too small''
      | BLOB_REJECT_MAGIC \<Rightarrow> str ''magic page is neither erased nor a header''
      | BLOB_REJECT_BODY_TAIL \<Rightarrow> str ''body page holds bytes after the header''
      | BLOB_REJECT_VER \<Rightarrow> str ''format version is not this one''
      | BLOB_REJECT_BASE \<Rightarrow> str ''header names a different slot''
      | BLOB_REJECT_LENGTH \<Rightarrow> str ''payload length does not fit the slot''
      | BLOB_REJECT_NAME \<Rightarrow> str ''stored name breaks the name rules''
      | BLOB_REJECT_BODY_CRC \<Rightarrow> str ''body checksum does not match'')"

definition blob_choice_name :: "blob_choice \<Rightarrow> u8 list" where
  "blob_choice_name v =
     (case v of
        BLOB_CHOICE_REUSE \<Rightarrow> str ''reuse''
      | BLOB_CHOICE_FRESH \<Rightarrow> str ''fresh''
      | BLOB_CHOICE_NEED_SLOT \<Rightarrow> str ''a new name needs a slot''
      | BLOB_CHOICE_DUPLICATE \<Rightarrow> str ''that name is in another slot''
      | BLOB_CHOICE_OCCUPIED \<Rightarrow> str ''that slot holds something else''
      | BLOB_CHOICE_BAD_MAP \<Rightarrow> str ''no slot table''
      | BLOB_CHOICE_REFUSE \<Rightarrow> str ''no such slot'')"

definition blob_lookup_name :: "blob_lookup \<Rightarrow> u8 list" where
  "blob_lookup_name v =
     (case v of
        BLOB_LOOKUP_FOUND \<Rightarrow> str ''found''
      | BLOB_LOOKUP_NONE \<Rightarrow> str ''no slot holds that name''
      | BLOB_LOOKUP_DUPLICATE \<Rightarrow> str ''more than one slot holds that name''
      | BLOB_LOOKUP_REFUSE \<Rightarrow> str ''the slot scan does not hold together'')"

definition blob_wr_verdict_name :: "blob_wr_verdict \<Rightarrow> u8 list" where
  "blob_wr_verdict_name v =
     (case v of
        BLOB_WR_OK \<Rightarrow> str ''ok''
      | BLOB_WR_TOO_SMALL \<Rightarrow> str ''the file does not fit the slot''
      | BLOB_WR_EMPTY_FILE \<Rightarrow> str ''the sender declared an empty file''
      | BLOB_WR_OVERRUN \<Rightarrow> str ''more arrived than was declared''
      | BLOB_WR_SHORT \<Rightarrow> str ''fewer arrived than was declared''
      | BLOB_WR_PHASE \<Rightarrow> str ''not at this point in a transfer''
      | BLOB_WR_BROKEN \<Rightarrow> str ''the transfer already failed'')"

section \<open>Fields of a body page\<close>

lemma length_put32 [simp]: "length (put32 v) = 4"
  by (simp add: put32_def)

lemma low_byte: "(0xFF :: u32) = mask 8"
  by (simp add: mask_eq_exp_minus_1)

lemma word_of_bytes:
  fixes v :: u32
  shows "ucast (ucast (v AND 0xFF) :: u8) OR push_bit 8 (ucast (ucast (drop_bit 8 v AND 0xFF) :: u8)) OR
    push_bit 16 (ucast (ucast (drop_bit 16 v AND 0xFF) :: u8)) OR
    push_bit 24 (ucast (ucast (drop_bit 24 v AND 0xFF) :: u8)) = v" (is "?l = v")
proof (rule bit_word_eqI)
  fix n assume "n < LENGTH(32)"
  then consider "n < 8" | "8 \<le> n" "n < 16" | "16 \<le> n" "n < 24" | "24 \<le> n" "n < 32" by fastforce
  then show "bit ?l n = bit v n"
    unfolding low_byte by cases (auto simp: bit_simps)
qed

lemma bytes_of_word:
  fixes w x y z :: u8
  defines "v \<equiv> ucast w OR push_bit 8 (ucast x) OR push_bit 16 (ucast y) OR push_bit 24 (ucast z) :: u32"
  shows "ucast (v AND 0xFF) = w" "ucast (drop_bit 8 v AND 0xFF) = x"
    "ucast (drop_bit 16 v AND 0xFF) = y" "ucast (drop_bit 24 v AND 0xFF) = z"
  unfolding v_def low_byte
  by (rule bit_eqI, simp add: bit_simps del: drop_bit_or, auto dest: bit_imp_le_length)+

lemma get32_at: "length pre = n \<Longrightarrow> get32 (pre @ put32 v @ r) n = v"
  unfolding get32_def put32_def by (simp add: nth_append word_of_bytes)

lemma put32_surj: "length b = 4 \<Longrightarrow> \<exists>v. b = put32 v"
proof -
  assume "length b = 4"
  then obtain w x y z where b: "b = [w, x, y, z]"
    by (auto simp: numeral_eq_Suc length_Suc_conv)
  have "put32 (get32 b 0) = b"
    unfolding b put32_def get32_def by (simp add: bytes_of_word del: drop_bit_or)
  then show ?thesis by (intro exI [of _ "get32 b 0"]) simp
qed

lemma put32_inj [simp]: "put32 a = put32 b \<longleftrightarrow> a = b"
  using get32_at [of "[]" 0] by (metis append_Nil list.size(3))

text \<open>Every page has the shape of a body: five numbers, the name area, the checksum, the tail.\<close>

definition body_shape :: "u32 \<Rightarrow> u32 \<Rightarrow> u32 \<Rightarrow> u32 \<Rightarrow> u32 \<Rightarrow> u8 list \<Rightarrow> u8 list" where
  "body_shape ver base len crc nlen area =
     put32 ver @ put32 base @ put32 len @ put32 crc @ put32 nlen @ area"

lemma split4:
  assumes "4 \<le> length xs"
  shows "\<exists>v r. xs = put32 v @ r \<and> length r = length xs - 4"
proof -
  obtain v where v: "take 4 xs = put32 v" using put32_surj [of "take 4 xs"] assms by auto
  have "xs = put32 v @ drop 4 xs" by (simp add: v [symmetric])
  then show ?thesis by (intro exI [of _ v] exI [of _ "drop 4 xs"]) simp
qed

lemma page_shape:
  assumes "length b = 256"
  shows "\<exists>ver base len crc nlen area bc tail. b = body_shape ver base len crc nlen area @ put32 bc @ tail \<and>
    length area = 64 \<and> length tail = 168"
proof -
  obtain v1 r1 where 1: "b = put32 v1 @ r1" "length r1 = 252" using split4 [of b] assms by auto
  obtain v2 r2 where 2: "r1 = put32 v2 @ r2" "length r2 = 248" using split4 [of r1] 1 by auto
  obtain v3 r3 where 3: "r2 = put32 v3 @ r3" "length r3 = 244" using split4 [of r2] 2 by auto
  obtain v4 r4 where 4: "r3 = put32 v4 @ r4" "length r4 = 240" using split4 [of r3] 3 by auto
  obtain v5 r5 where 5: "r4 = put32 v5 @ r5" "length r5 = 236" using split4 [of r4] 4 by auto
  obtain v6 r6 where 6: "drop 64 r5 = put32 v6 @ r6" "length r6 = 168"
    using split4 [of "drop 64 r5"] 5 by auto
  have "b = body_shape v1 v2 v3 v4 v5 (take 64 r5) @ put32 v6 @ r6"
    using 1 2 3 4 5 6 append_take_drop_id [of 64 r5] by (simp add: body_shape_def)
  with 5 6 show ?thesis by force
qed

lemma length_body_shape [simp]: "length (body_shape ver base len crc nlen area) = 20 + length area"
  by (simp add: body_shape_def)

lemma body_decode_fields:
  assumes "get32 b 0 = ver" "get32 b 4 = base" "get32 b 8 = len" "get32 b 12 = crc" "get32 b 16 = nlen"
    and "get32 b 84 = bc" "take 84 b = s" "take 64 (drop 20 b) = area"
  shows "body_decode b slot pm =
    (if ver \<noteq> BLOB_FMT_VER then (BLOB_REJECT_VER, zero_info)
     else if base \<noteq> slot then (BLOB_REJECT_BASE, zero_info)
     else if len = 0 \<or> len > pm then (BLOB_REJECT_LENGTH, zero_info)
     else if nlen = 0 \<or> unat nlen > 64 \<or> \<not> list_all name_char (take (unat nlen) area)
     then (BLOB_REJECT_NAME, zero_info)
     else if crc32_update 0 s \<noteq> bc then (BLOB_REJECT_BODY_CRC, zero_info)
     else (BLOB_REJECT_NONE, zero_info\<lparr>bi_name := take (unat nlen) area, bi_length := len, bi_crc32 := crc\<rparr>))"
proof -
  have "take (unat nlen) area = take (unat nlen) (drop 20 b)" if "unat nlen \<le> 64"
    using that by (simp add: assms(8) [symmetric] take_take min_def)
  then show ?thesis
    unfolding body_decode_def Let_def blob_sizes assms(1-7)
    by (cases "unat nlen \<le> 64") simp_all
qed

lemma body_decode_shape:
  assumes "length area = 64" and "s = body_shape ver base len crc nlen area"
  shows "body_decode (s @ put32 bc @ tail) slot pm =
    (if ver \<noteq> BLOB_FMT_VER then (BLOB_REJECT_VER, zero_info)
     else if base \<noteq> slot then (BLOB_REJECT_BASE, zero_info)
     else if len = 0 \<or> len > pm then (BLOB_REJECT_LENGTH, zero_info)
     else if nlen = 0 \<or> unat nlen > 64 \<or> \<not> list_all name_char (take (unat nlen) area)
     then (BLOB_REJECT_NAME, zero_info)
     else if crc32_update 0 s \<noteq> bc then (BLOB_REJECT_BODY_CRC, zero_info)
     else (BLOB_REJECT_NONE, zero_info\<lparr>bi_name := take (unat nlen) area, bi_length := len, bi_crc32 := crc\<rparr>))"
proof (rule body_decode_fields)
  let ?b = "s @ put32 bc @ tail"
  show "get32 ?b 0 = ver" "get32 ?b 4 = base" "get32 ?b 8 = len" "get32 ?b 12 = crc" "get32 ?b 16 = nlen"
    using get32_at [of "[]" 0 ver] get32_at [of "put32 ver" 4 base]
      get32_at [of "put32 ver @ put32 base" 8 len]
      get32_at [of "put32 ver @ put32 base @ put32 len" 12 crc]
      get32_at [of "put32 ver @ put32 base @ put32 len @ put32 crc" 16 nlen]
    by (simp_all add: body_shape_def assms(2))
  show "get32 ?b 84 = bc" using get32_at [of s 84 bc tail] assms by simp
  show "take 84 ?b = s" using assms by simp
  show "take 64 (drop 20 ?b) = area" using assms by (simp add: body_shape_def)
qed

section \<open>What the decoder accepts\<close>

definition erased_page :: "u8 list" where "erased_page = replicate 256 0xFF"
definition magic_page :: "u8 list" where "magic_page = magic_bytes @ replicate 248 0xFF"

definition body_page :: "u32 \<Rightarrow> blob_info \<Rightarrow> u8 list \<Rightarrow> u8 list" where
  "body_page base info pad =
     (let s = body_shape BLOB_FMT_VER base (bi_length info) (bi_crc32 info)
                (of_nat (length (bi_name info))) (bi_name info @ pad) in
      s @ put32 (crc32_update 0 s) @ replicate 168 0xFF)"

definition info_ok :: "u32 \<Rightarrow> blob_info \<Rightarrow> bool" where
  "info_ok pm info \<longleftrightarrow> bi_length info \<noteq> 0 \<and> bi_length info \<le> pm \<and> bi_name info \<noteq> [] \<and>
     length (bi_name info) \<le> 64 \<and> list_all name_char (bi_name info)"

lemma length_pages [simp]: "length erased_page = 256" "length magic_page = 256"
  by (simp_all add: erased_page_def magic_page_def magic_bytes_def str_def)

lemma all_erased_replicate: "all_erased p \<longleftrightarrow> p = replicate (length p) 0xFF"
  by (induction p) (auto simp: all_erased_def)

lemma length_body_page: "length (bi_name info @ pad) = 64 \<Longrightarrow> length (body_page base info pad) = 256"
  by (simp add: body_page_def Let_def)

lemma unat_name_length: "n \<le> 64 \<Longrightarrow> unat (of_nat n :: u32) = n"
  by (simp add: unat_of_nat)

lemma body_decode_page:
  assumes "length (bi_name info @ pad) = 64" "info_ok pm info"
  shows "body_decode (body_page base info pad) base pm =
    (BLOB_REJECT_NONE, zero_info\<lparr>bi_name := bi_name info, bi_length := bi_length info, bi_crc32 := bi_crc32 info\<rparr>)"
proof -
  have n: "unat (of_nat (length (bi_name info)) :: u32) = length (bi_name info)"
    using assms(2) by (intro unat_name_length) (simp add: info_ok_def)
  then have "of_nat (length (bi_name info)) \<noteq> (0 :: u32)"
    using assms(2) by (metis info_ok_def length_0_conv unsigned_0)
  with n show ?thesis
    using assms unfolding body_page_def Let_def
    by (subst body_decode_shape [OF assms(1) refl]) (auto simp: info_ok_def not_less)
qed

lemma body_decode_none:
  assumes b: "length b = 256" "all_erased (drop 88 b)"
    and d: "body_decode b base pm = (BLOB_REJECT_NONE, info)"
  shows "info_ok pm info \<and> bi_state info = BLOB_EMPTY \<and>
    (\<exists>pad. length (bi_name info @ pad) = 64 \<and> b = body_page base info pad)"
proof -
  obtain ver bs len crc nlen area bc tail where
    s: "b = body_shape ver bs len crc nlen area @ put32 bc @ tail" "length area = 64" "length tail = 168"
    using page_shape [OF b(1)] by blast
  note D = d [unfolded s(1) body_decode_shape [OF s(2) refl]]
  from D have ok: "ver = BLOB_FMT_VER" "bs = base" "len \<noteq> 0" "len \<le> pm" "nlen \<noteq> 0" "unat nlen \<le> 64"
    "list_all name_char (take (unat nlen) area)"
    "bc = crc32_update 0 (body_shape ver bs len crc nlen area)"
    "info = zero_info\<lparr>bi_name := take (unat nlen) area, bi_length := len, bi_crc32 := crc\<rparr>"
    by (auto split: if_splits)
  have "tail = replicate 168 0xFF"
    using b(2) s by (simp add: all_erased_replicate)
  moreover have "of_nat (length (bi_name info)) = nlen"
    using ok(6,9) s(2) by (simp add: min_def)
  moreover have "bi_name info @ drop (unat nlen) area = area" using ok(9) by simp
  ultimately have "b = body_page base info (drop (unat nlen) area)"
    unfolding s(1) body_page_def Let_def using ok by simp
  moreover have "info_ok pm info" using ok s(2) by (auto simp: info_ok_def unat_eq_zero)
  moreover have "bi_state info = BLOB_EMPTY" using ok(9) by (simp add: zero_info_def)
  moreover have "length (bi_name info @ drop (unat nlen) area) = 64" using ok(9) s(2) by simp
  ultimately show ?thesis by blast
qed

lemma blob_name_check_ok:
  "fst (blob_name_check (Some nm)) = BLOB_NAME_OK \<longleftrightarrow>
    nm \<noteq> [] \<and> hd nm \<noteq> 45 \<and> length nm \<le> 64 \<and> list_all name_char nm"
proof -
  have loop: "n \<le> 64 \<Longrightarrow> fst (name_loop cs n) = BLOB_NAME_OK \<longleftrightarrow> n + length cs \<le> 64 \<and> list_all name_char cs"
    for cs n by (induction cs arbitrary: n) (auto simp: blob_sizes)
  show ?thesis using loop [of 0 nm] by (auto simp: blob_name_check_def split: list.splits)
qed

lemma magic_page_iff:
  assumes "length q = 256"
  shows "take 8 q = magic_bytes \<and> all_erased (drop 8 q) \<longleftrightarrow> q = magic_page"
proof -
  have m: "length magic_bytes = 8" by (simp add: magic_bytes_def str_def)
  have "q = take 8 q @ drop 8 q" by simp
  moreover have "all_erased (drop 8 q) \<longleftrightarrow> drop 8 q = replicate 248 0xFF"
    using assms by (simp add: all_erased_replicate)
  ultimately show ?thesis
    unfolding magic_page_def by (metis m append_eq_conv_conj)
qed

lemma erased_page_iff: "length q = 256 \<Longrightarrow> all_erased q \<longleftrightarrow> q = erased_page"
  by (simp add: all_erased_replicate erased_page_def)

lemma magic_not_erased: "magic_page \<noteq> erased_page"
proof
  assume "magic_page = erased_page"
  then have "hd magic_page = hd erased_page" by simp
  then show False by (simp add: magic_page_def erased_page_def magic_bytes_def str_def)
qed

text \<open>The decoder in terms of the two pages.\<close>

lemma decode_pages:
  assumes "length a = 256" "length b = 256"
  shows "blob_hdr_decode (Some (a @ b @ r)) base pm =
    (if a \<noteq> erased_page \<and> a \<noteq> magic_page
     then (BLOB_INVALID, zero_info\<lparr>bi_state := BLOB_INVALID\<rparr>, BLOB_REJECT_MAGIC)
     else if \<not> all_erased (drop 88 b)
     then (BLOB_INVALID, zero_info\<lparr>bi_state := BLOB_INVALID\<rparr>, BLOB_REJECT_BODY_TAIL)
     else if fst (body_decode b base pm) = BLOB_REJECT_NONE
     then (let s = (if a = magic_page then BLOB_VALID else BLOB_INCOMPLETE) in
           (s, snd (body_decode b base pm)\<lparr>bi_state := s\<rparr>, BLOB_REJECT_NONE))
     else if a = erased_page \<and> b = erased_page then (BLOB_EMPTY, zero_info, BLOB_REJECT_NONE)
     else (BLOB_INVALID, zero_info\<lparr>bi_state := BLOB_INVALID\<rparr>, fst (body_decode b base pm)))"
proof -
  have p: "take 256 (a @ b @ r) = a" "take 256 (drop 256 (a @ b @ r)) = b" using assms by simp_all
  have z: "zero_info\<lparr>bi_state := BLOB_EMPTY\<rparr> = zero_info" by (simp add: zero_info_def)
  have l: "\<not> length (a @ b @ r) < 512" using assms by simp
  have e: "all_erased a \<longleftrightarrow> a = erased_page" "all_erased b \<longleftrightarrow> b = erased_page"
    "take 8 a = magic_bytes \<and> all_erased (drop 8 a) \<longleftrightarrow> a = magic_page"
    by (simp_all only: erased_page_iff magic_page_iff assms)
  show ?thesis
    unfolding blob_hdr_decode_def Let_def option.case blob_sizes p if_not_P [OF l] e z case_prod_beta
    by (simp split del: if_split cong: if_cong)
qed

lemma body_page_not_erased:
  "length (bi_name info @ pad) = 64 \<Longrightarrow> info_ok pm info \<Longrightarrow> body_page base info pad \<noteq> erased_page"
proof
  assume "body_page base info pad = erased_page"
  then have "get32 (body_page base info pad) 0 = get32 erased_page 0" by simp
  moreover have "get32 erased_page 0 = 0xFFFFFFFF" by (simp add: erased_page_def get32_def)
  moreover have "get32 (body_page base info pad) 0 = 1"
    using get32_at [of "[]" 0 1] by (simp add: body_page_def Let_def body_shape_def blob_sizes)
  ultimately show False by simp
qed

definition header_pages :: "blob_slot_state \<Rightarrow> u32 \<Rightarrow> blob_info \<Rightarrow> u8 list \<Rightarrow> u8 list" where
  "header_pages s base info pad =
     (if s = BLOB_VALID then magic_page else erased_page) @ body_page base info pad"

lemma header_pages_decode:
  assumes "length (bi_name info @ pad) = 64" "info_ok pm info" "s = BLOB_VALID \<or> s = BLOB_INCOMPLETE"
    and "bi_state info = s"
  shows "blob_hdr_decode (Some (header_pages s base info pad @ r)) base pm = (s, info, BLOB_REJECT_NONE)"
proof -
  let ?a = "if s = BLOB_VALID then magic_page else erased_page"
  have "all_erased (drop 88 (body_page base info pad))"
    using assms(1) by (simp add: body_page_def Let_def all_erased_replicate)
  moreover have "?a = erased_page \<or> ?a = magic_page" by simp
  moreover have "zero_info\<lparr>bi_name := bi_name info, bi_length := bi_length info, bi_crc32 := bi_crc32 info,
      bi_state := s\<rparr> = info"
    using assms(4) by (simp add: zero_info_def)
  ultimately show ?thesis
    unfolding header_pages_def append_assoc
    using assms magic_not_erased
    by (subst decode_pages) (auto simp: length_body_page body_decode_page Let_def)
qed

text \<open>The decoder on a header given as its two pages.\<close>

lemma decode_stored:
  assumes len: "length a = 256" "length b = 256" and s: "s = BLOB_VALID \<or> s = BLOB_INCOMPLETE"
    and d: "blob_hdr_decode (Some (a @ b @ r)) base pm = (s, info, why)"
  shows "bi_state info = s \<and> info_ok pm info \<and>
    (\<exists>pad. length (bi_name info @ pad) = 64 \<and> a @ b = header_pages s base info pad)"
proof -
  note D = decode_pages [OF len, of r base pm]
  have e: "all_erased (drop 88 b)" using d s unfolding D by (auto split: if_splits)
  have k: "fst (body_decode b base pm) = BLOB_REJECT_NONE" "info = snd (body_decode b base pm)\<lparr>bi_state := s\<rparr>"
    "s = BLOB_VALID \<longleftrightarrow> a = magic_page" "a = magic_page \<or> a = erased_page"
    using d s unfolding D by (auto simp: Let_def split: if_splits)
  then obtain i where i: "body_decode b base pm = (BLOB_REJECT_NONE, i)"
    "info = i\<lparr>bi_state := s\<rparr>" "s = BLOB_VALID \<longleftrightarrow> a = magic_page" "a = magic_page \<or> a = erased_page"
    by (metis prod.collapse)
  note B = body_decode_none [OF len(2) e i(1)]
  moreover have "body_page base i pad = body_page base info pad" for pad
    by (simp add: i(2) body_page_def)
  moreover have "info_ok pm info = info_ok pm i" "bi_name info = bi_name i" by (simp_all add: i(2) info_ok_def)
  ultimately show ?thesis
    using i s unfolding header_pages_def by auto
qed

lemma decode_empty:
  assumes len: "length a = 256" "length b = 256"
  shows "fst (blob_hdr_decode (Some (a @ b @ r)) base pm) = BLOB_EMPTY \<longleftrightarrow> a @ b = erased_page @ erased_page"
proof -
  have "fst (body_decode erased_page base pm) \<noteq> BLOB_REJECT_NONE"
    using body_decode_none [of erased_page base pm] body_page_not_erased
    by (metis erased_page_iff all_erased_def length_pages(1) list_all_append append_take_drop_id prod.collapse)
  moreover have "all_erased (drop 88 erased_page)" by (simp add: erased_page_def all_erased_replicate)
  ultimately show ?thesis
    using len unfolding decode_pages [OF len, of r base pm]
    by (auto simp: Let_def split: if_splits)
qed

lemma header_split:
  assumes "512 \<le> length h"
  obtains a b r where "h = a @ b @ r" "length a = 256" "length b = 256" "take 512 h = a @ b"
proof -
  have h: "h = take 256 h @ take 256 (drop 256 h) @ drop 512 h"
    using append_take_drop_id [of 256 h] append_take_drop_id [of 256 "drop 256 h"] by simp
  have "length (take 256 h) = 256" "length (take 256 (drop 256 h)) = 256" using assms by simp_all
  then show thesis using that [OF h] by (metis append.assoc append_eq_conv_conj length_append numeral_plus_numeral h semiring_norm(6) add_One_commute num_double numeral_Bit0)
qed

text \<open>C20. What the header decoder says of a slot, for any bytes read from it. VALID is said of
  exactly the images that hold the magic page and a body page for this slot with a legal length and
  name, erased tail and matching checksum, INCOMPLETE of exactly those with an erased page in
  place of the magic, both with the stored fields, and EMPTY of exactly two erased pages. So a
  foreign byte anywhere in the header, another slot's base or a torn body is never VALID.\<close>

theorem blob_hdr_decode_iff:
  "((\<exists>why. blob_hdr_decode (Some h) base pm = (BLOB_VALID, info, why)) \<longleftrightarrow>
     bi_state info = BLOB_VALID \<and> info_ok pm info \<and>
     (\<exists>pad. length (bi_name info @ pad) = 64 \<and> take 512 h = header_pages BLOB_VALID base info pad)) \<and>
   ((\<exists>why. blob_hdr_decode (Some h) base pm = (BLOB_INCOMPLETE, info, why)) \<longleftrightarrow>
     bi_state info = BLOB_INCOMPLETE \<and> info_ok pm info \<and>
     (\<exists>pad. length (bi_name info @ pad) = 64 \<and> take 512 h = header_pages BLOB_INCOMPLETE base info pad)) \<and>
   (fst (blob_hdr_decode (Some h) base pm) = BLOB_EMPTY \<longleftrightarrow> take 512 h = erased_page @ erased_page)"
proof (cases "512 \<le> length h")
  case False
  then have l: "length (take 512 h) < 512" by simp
  have "take 512 h \<noteq> header_pages s base info pad" if "length (bi_name info @ pad) = 64" for s pad
    using l length_body_page [OF that, of base] by (auto simp: header_pages_def)
  moreover have "take 512 h \<noteq> erased_page @ erased_page" using l by auto
  ultimately show ?thesis
    using False by (auto simp: blob_hdr_decode_def Let_def blob_sizes)
next
  case True
  then obtain a b r where h: "h = a @ b @ r" and len: "length a = 256" "length b = 256" and t: "take 512 h = a @ b"
    by (rule header_split)
  have "blob_hdr_decode (Some h) base pm = (s, info, BLOB_REJECT_NONE)"
    if "s = BLOB_VALID \<or> s = BLOB_INCOMPLETE" "bi_state info = s" "info_ok pm info"
      "length (bi_name info @ pad) = 64" "take 512 h = header_pages s base info pad" for s pad
  proof -
    have "h = header_pages s base info pad @ r" using that(5) h t by (metis append_assoc)
    with header_pages_decode [OF that(4,3,1,2)] show ?thesis by simp
  qed
  with decode_stored [OF len, where r = r and base = base and pm = pm] decode_empty [OF len, of r base pm] show ?thesis
    unfolding t unfolding h by blast
qed

definition sample_info :: blob_info where
  "sample_info = \<lparr>bi_state = BLOB_EMPTY, bi_name = str ''model'', bi_length = 1000, bi_crc32 = 0x1234\<rparr>"

lemma encode_body_page:
  assumes "blob_hdr_encode_body (Some p) base pm (Some i) = (BLOB_REJECT_NONE, q)"
  shows "info_ok pm i \<and> hd (bi_name i) \<noteq> 45 \<and> (\<exists>r. length (bi_name i @ replicate (64 - length (bi_name i)) 0) = 64 \<and>
    q = body_page base i (replicate (64 - length (bi_name i)) 0) @ r)"
proof -
  have n: "bi_name i \<noteq> []" "hd (bi_name i) \<noteq> 45" "length (bi_name i) \<le> 64" "list_all name_char (bi_name i)"
    and l: "bi_length i \<noteq> 0" "bi_length i \<le> pm"
    and q: "q = body_fields base i @ put32 (crc32_update 0 (body_fields base i)) @ replicate 168 0xFF @ drop 256 p"
    using assms by (auto simp: blob_hdr_encode_body_def blob_name_check_ok Let_def blob_sizes split: if_splits)
  have "body_fields base i = body_shape BLOB_FMT_VER base (bi_length i) (bi_crc32 i) (of_nat (length (bi_name i)))
      (bi_name i @ replicate (64 - length (bi_name i)) 0)"
    by (simp add: body_fields_def body_shape_def blob_sizes)
  then have "q = body_page base i (replicate (64 - length (bi_name i)) 0) @ drop 256 p"
    by (simp add: q body_page_def Let_def)
  with n l show ?thesis by (auto simp: info_ok_def)
qed

lemma encode_magic_page:
  "blob_hdr_encode_magic (Some m) = (BLOB_REJECT_NONE, mq) \<Longrightarrow> take 256 mq = magic_page"
  by (auto simp: blob_hdr_encode_magic_def magic_page_def magic_bytes_def str_def blob_sizes split: if_splits)

text \<open>C21. What the encoder lays out the decoder reads back: with the magic page in place the slot
  is VALID and has the stored name, length and checksum; before the magic is programmed it is
  INCOMPLETE with the same fields; and read under any other slot's base the header is refused
  for its base.\<close>

theorem blob_hdr_roundtrip:
  assumes "blob_hdr_encode_body (Some p) base pm (Some i) = (BLOB_REJECT_NONE, q)"
    and "blob_hdr_encode_magic (Some m) = (BLOB_REJECT_NONE, mq)"
  shows "blob_hdr_decode (Some (take 256 mq @ q)) base pm =
      (BLOB_VALID, i\<lparr>bi_state := BLOB_VALID\<rparr>, BLOB_REJECT_NONE) \<and>
    blob_hdr_decode (Some (erased_page @ q)) base pm =
      (BLOB_INCOMPLETE, i\<lparr>bi_state := BLOB_INCOMPLETE\<rparr>, BLOB_REJECT_NONE) \<and>
    (\<forall>b. b \<noteq> base \<longrightarrow> fst (blob_hdr_decode (Some (take 256 mq @ q)) b pm) = BLOB_INVALID \<and>
       snd (snd (blob_hdr_decode (Some (take 256 mq @ q)) b pm)) = BLOB_REJECT_BASE)"
proof -
  define pad :: "u8 list" where "pad = replicate (64 - length (bi_name i)) 0"
  obtain r where e: "info_ok pm i" "length (bi_name i @ pad) = 64" "q = body_page base i pad @ r"
    using encode_body_page [OF assms(1)] unfolding pad_def by blast
  note mp = encode_magic_page [OF assms(2)]
  have dec: "blob_hdr_decode (Some (header_pages s base i pad @ r)) base pm = (s, i\<lparr>bi_state := s\<rparr>, BLOB_REJECT_NONE)"
    if "s = BLOB_VALID \<or> s = BLOB_INCOMPLETE" for s
    using header_pages_decode [of "i\<lparr>bi_state := s\<rparr>" pad pm s base r] e(1,2) that
    by (simp add: header_pages_def body_page_def info_ok_def)
  have other: "fst (body_decode (body_page base i pad) b pm) = BLOB_REJECT_BASE" if "b \<noteq> base" for b
    using that unfolding body_page_def Let_def by (subst body_decode_shape [OF e(2) refl]) simp
  have "all_erased (drop 88 (body_page base i pad))"
    using e(2) by (simp add: body_page_def Let_def all_erased_replicate)
  then have "fst (blob_hdr_decode (Some (magic_page @ q)) b pm) = BLOB_INVALID \<and>
       snd (snd (blob_hdr_decode (Some (magic_page @ q)) b pm)) = BLOB_REJECT_BASE" if "b \<noteq> base" for b
    unfolding e(3) decode_pages [OF length_pages(2) length_body_page [OF e(2)]]
    using other [OF that] magic_not_erased by simp
  with dec [of BLOB_VALID] dec [of BLOB_INCOMPLETE] show ?thesis
    unfolding mp e(3) header_pages_def by simp
qed

lemma blob_hdr_roundtrip_witness:
  "blob_hdr_decode (Some (take 256 (snd (blob_hdr_encode_magic (Some (replicate 256 0)))) @
      snd (blob_hdr_encode_body (Some (replicate 256 0)) 0x200000 0x1000 (Some sample_info)))) 0x200000 0x1000 =
    (BLOB_VALID, sample_info\<lparr>bi_state := BLOB_VALID\<rparr>, BLOB_REJECT_NONE)"
proof -
  have "fst (blob_name_check (Some (bi_name sample_info))) = BLOB_NAME_OK" by code_simp
  then have "fst (blob_hdr_encode_body (Some (replicate 256 0)) 0x200000 0x1000 (Some sample_info)) = BLOB_REJECT_NONE"
    "fst (blob_hdr_encode_magic (Some (replicate 256 0))) = BLOB_REJECT_NONE"
    by (simp_all add: blob_hdr_encode_body_def blob_hdr_encode_magic_def Let_def sample_info_def blob_sizes)
  then show ?thesis
    by (intro blob_hdr_roundtrip [THEN conjunct1]) (simp_all add: prod_eq_iff)
qed

section \<open>The scan over the slots\<close>

lemma match_scan_some:
  "match_scan i m at vs = Some (k, p) \<Longrightarrow> (\<forall>v\<in>set vs. sv_match v \<longrightarrow> sv_state v = BLOB_VALID) \<and>
    k = m + length (filter sv_match vs) \<and>
    (if filter sv_match vs = [] then p = at else \<exists>j<length vs. p = i + j \<and> sv_match (vs ! j))"
proof (induction i m at vs arbitrary: k p rule: match_scan.induct)
  case (2 i m at v vs)
  show ?case
  proof (cases "sv_match v")
    case True
    with 2 have *: "k = m + 1 + length (filter sv_match vs)" "sv_state v = BLOB_VALID"
      "\<forall>v\<in>set vs. sv_match v \<longrightarrow> sv_state v = BLOB_VALID"
      "if filter sv_match vs = [] then p = i else \<exists>j<length vs. p = i + 1 + j \<and> sv_match (vs ! j)"
      by (auto split: if_splits)
    have "\<exists>j<length (v # vs). p = i + j \<and> sv_match ((v # vs) ! j)"
    proof (cases "filter sv_match vs = []")
      case False
      then obtain j where "j < length vs" "p = i + 1 + j" "sv_match (vs ! j)" using *(4) by auto
      then show ?thesis by (intro exI [of _ "Suc j"]) simp
    qed (use * True in auto)
    with * True show ?thesis by simp
  next
    case False
    with 2 have *: "k = m + length (filter sv_match vs)" "\<forall>v\<in>set vs. sv_match v \<longrightarrow> sv_state v = BLOB_VALID"
      "if filter sv_match vs = [] then p = at else \<exists>j<length vs. p = i + 1 + j \<and> sv_match (vs ! j)"
      by auto
    show ?thesis
    proof (cases "filter sv_match vs = []")
      case ne: False
      then obtain j where "j < length vs" "p = i + 1 + j" "sv_match (vs ! j)" using *(3) by auto
      then have "\<exists>j<length (v # vs). p = i + j \<and> sv_match ((v # vs) ! j)"
        by (intro exI [of _ "Suc j"]) simp
      with * False ne show ?thesis by simp
    qed (use * False in simp)
  qed
qed simp

lemma match_scan_none:
  "match_scan i m at vs = None \<longleftrightarrow> (\<exists>v\<in>set vs. sv_match v \<and> sv_state v \<noteq> BLOB_VALID)"
  by (induction i m at vs rule: match_scan.induct) auto

lemma one_match:
  assumes "length (filter P xs) = 1" "i < length xs" "j < length xs" "P (xs ! i)" "P (xs ! j)"
  shows "i = j"
proof -
  have "card {i. i < length xs \<and> P (xs ! i)} = 1" using assms(1) by (simp add: length_filter_conv_card)
  then obtain a where a: "{i. i < length xs \<and> P (xs ! i)} = {a}" by (rule card_1_singletonE)
  have "i \<in> {a}" "j \<in> {a}" using assms(2-) unfolding a [symmetric] by simp_all
  then show ?thesis by simp
qed

lemma match_scan_one:
  assumes "match_scan 0 0 0 vs = Some (1, p)"
  shows "p < length vs" "sv_match (vs ! p)" "sv_state (vs ! p) = BLOB_VALID"
    "j < length vs \<Longrightarrow> sv_match (vs ! j) \<Longrightarrow> j = p"
proof -
  note m = match_scan_some [OF assms]
  then have 1: "length (filter sv_match vs) = 1" by simp
  then have "filter sv_match vs \<noteq> []" by auto
  with m show p: "p < length vs" "sv_match (vs ! p)" by auto
  with m show "sv_state (vs ! p) = BLOB_VALID" by simp
  show "j < length vs \<Longrightarrow> sv_match (vs ! j) \<Longrightarrow> j = p" using one_match [OF 1] p by blast
qed

lemma match_scan_zero: "match_scan 0 0 0 vs = Some (0, p) \<Longrightarrow> \<forall>v\<in>set vs. \<not> sv_match v"
  using match_scan_some [of 0 0 0 vs 0 p] by (auto simp: filter_empty_conv)

lemma match_scan_unique:
  assumes "p < length vs" "sv_match (vs ! p)" "sv_state (vs ! p) = BLOB_VALID"
    "\<And>j. j < length vs \<Longrightarrow> sv_match (vs ! j) \<Longrightarrow> j = p"
  shows "match_scan 0 0 0 vs = Some (1, p)"
proof -
  have "\<forall>v\<in>set vs. sv_match v \<longrightarrow> sv_state v = BLOB_VALID"
    using assms(3,4) by (metis in_set_conv_nth)
  then have "match_scan 0 0 0 vs \<noteq> None" unfolding match_scan_none by blast
  then obtain k q where s: "match_scan 0 0 0 vs = Some (k, q)" by (metis option.exhaust prod.exhaust)
  note m = match_scan_some [OF s]
  have "{i. i < length vs \<and> sv_match (vs ! i)} = {p}"
    using assms(1,2,4) by blast
  then have l: "length (filter sv_match vs) = 1" by (simp add: length_filter_conv_card)
  then have "filter sv_match vs \<noteq> []" by auto
  then obtain j where "j < length vs" "q = 0 + j" "sv_match (vs ! j)" using m by (auto split: if_splits)
  with assms(4) have "q = p" by (metis add_0)
  with s m l show ?thesis by simp
qed

lemma match_scan_cong:
  "list_all2 (\<lambda>a b. sv_match a = sv_match b \<and> (sv_match a \<longrightarrow> sv_state a = sv_state b)) vs ws \<Longrightarrow>
    match_scan i m at vs = match_scan i m at ws"
  by (induction vs ws arbitrary: i m at rule: list_all2_induct) auto

text \<open>The store as the writer sees it for one name: every slot's state and, when VALID, its name.\<close>

definition view_of :: "u8 list \<Rightarrow> blob_slot_state \<times> u8 list \<Rightarrow> slot_view" where
  "view_of nm s = \<lparr>sv_state = fst s, sv_match = (fst s = BLOB_VALID \<and> snd s = nm)\<rparr>"

lemma view_of_simps [simp]:
  "sv_state (view_of nm s) = fst s" "sv_match (view_of nm s) \<longleftrightarrow> s = (BLOB_VALID, nm)"
  by (auto simp: view_of_def prod_eq_iff)

lemma resolve_unique:
  assumes "p < length store" "store ! p = (BLOB_VALID, nm)"
    "\<And>j. j < length store \<Longrightarrow> store ! j = (BLOB_VALID, nm) \<Longrightarrow> j = p"
  shows "blob_resolve_name (Some (map (view_of nm) store)) = (BLOB_LOOKUP_FOUND, Some p)"
proof -
  have "match_scan 0 0 0 (map (view_of nm) store) = Some (1, p)"
    using assms(1,2) by (intro match_scan_unique) (simp_all add: assms(3))
  then show ?thesis using assms(1) by (auto simp: blob_resolve_name_def)
qed

lemma resolve_other:
  assumes "t < length store" "store ! t \<noteq> (BLOB_VALID, nm')" "nm' \<noteq> nm"
  shows "blob_resolve_name (Some (map (view_of nm') (store[t := (BLOB_VALID, nm)]))) =
    blob_resolve_name (Some (map (view_of nm') store))"
proof -
  have "match_scan 0 0 0 (map (view_of nm') (store[t := (BLOB_VALID, nm)])) =
      match_scan 0 0 0 (map (view_of nm') store)"
    using assms by (intro match_scan_cong) (auto simp: list_all2_conv_all_nth nth_list_update)
  then show ?thesis by (simp add: blob_resolve_name_def)
qed

lemma choose_target_cases:
  assumes "blob_choose_target (Some v) want = (c, Some t)"
  shows "t < length v \<and> (0 \<le> want \<longrightarrow> want = int t) \<and>
    (c = BLOB_CHOICE_REUSE \<and> match_scan 0 0 0 v = Some (1, t) \<or>
     c = BLOB_CHOICE_FRESH \<and> (\<exists>p. match_scan 0 0 0 v = Some (0, p)) \<and>
       (sv_state (v ! t) = BLOB_EMPTY \<or> sv_state (v ! t) = BLOB_INCOMPLETE))"
proof -
  obtain k p where s: "match_scan 0 0 0 v = Some (k, p)" and "v \<noteq> []"
    using assms unfolding blob_choose_target_def by (auto split: if_splits option.splits)
  moreover have "k = 0 \<or> k = 1 \<or> 1 < k" by linarith
  ultimately show ?thesis
    using assms match_scan_one(1) [of v t] unfolding blob_choose_target_def
    by (auto split: if_splits)
qed

text \<open>C22. A write only ever goes to the one slot that already holds the name, or, when no slot
  holds it, to the named slot if that one is EMPTY or INCOMPLETE; never over another blob or over
  bytes the store cannot read. After the write the name resolves to that slot and every other
  name resolves as before, so no sequence of writes gives two slots the same name.\<close>

theorem blob_choose_target_safe:
  assumes "blob_choose_target (Some (map (view_of nm) store)) want = (c, Some t)"
  shows "t < length store \<and> (0 \<le> want \<longrightarrow> want = int t) \<and>
    (c = BLOB_CHOICE_REUSE \<and> store ! t = (BLOB_VALID, nm) \<or>
     c = BLOB_CHOICE_FRESH \<and> (fst (store ! t) = BLOB_EMPTY \<or> fst (store ! t) = BLOB_INCOMPLETE)) \<and>
    (\<forall>j < length store. j \<noteq> t \<longrightarrow> store ! j \<noteq> (BLOB_VALID, nm)) \<and>
    blob_resolve_name (Some (map (view_of nm) (store[t := (BLOB_VALID, nm)]))) = (BLOB_LOOKUP_FOUND, Some t) \<and>
    (\<forall>nm'. nm' \<noteq> nm \<longrightarrow>
       blob_resolve_name (Some (map (view_of nm') (store[t := (BLOB_VALID, nm)]))) =
       blob_resolve_name (Some (map (view_of nm') store)))"
proof -
  let ?v = "map (view_of nm) store"
  note C = choose_target_cases [OF assms]
  then have t: "t < length store" by simp
  have u: "j = t" if "j < length store" "store ! j = (BLOB_VALID, nm)" for j
    using C match_scan_one(4) [of ?v t j] match_scan_zero [of ?v] that by fastforce
  have s: "c = BLOB_CHOICE_REUSE \<and> store ! t = (BLOB_VALID, nm) \<or>
     c = BLOB_CHOICE_FRESH \<and> (fst (store ! t) = BLOB_EMPTY \<or> fst (store ! t) = BLOB_INCOMPLETE)"
    using C t match_scan_one(2) [of ?v t] by auto
  have "blob_resolve_name (Some (map (view_of nm) (store[t := (BLOB_VALID, nm)]))) = (BLOB_LOOKUP_FOUND, Some t)"
  proof (rule resolve_unique)
    fix j assume "j < length (store[t := (BLOB_VALID, nm)])" "store[t := (BLOB_VALID, nm)] ! j = (BLOB_VALID, nm)"
    then show "j = t" using u [of j] by (cases "t = j") simp_all
  qed (use t in simp_all)
  moreover have "store ! t \<noteq> (BLOB_VALID, nm')" if "nm' \<noteq> nm" for nm' using s that by auto
  ultimately show ?thesis using C t u s resolve_other [OF t] by blast
qed

definition sample_store :: "(blob_slot_state \<times> u8 list) list" where
  "sample_store = [(BLOB_VALID, [97]), (BLOB_EMPTY, []), (BLOB_INVALID, [])]"

lemma blob_choose_target_safe_witness:
  "blob_resolve_name (Some (map (view_of [98]) (sample_store[1 := (BLOB_VALID, [98])]))) =
    (BLOB_LOOKUP_FOUND, Some 1)"
proof -
  have "blob_choose_target (Some (map (view_of [98]) sample_store)) 1 = (BLOB_CHOICE_FRESH, Some 1)"
    by code_simp
  then show ?thesis using blob_choose_target_safe by blast
qed

section \<open>A transfer\<close>

text \<open>Any sequence of the calls of one transfer, with the bytes each accepted call took.\<close>

datatype wr_op = W_begin u32 | W_data "u8 list option" u32 | W_close | W_break

definition wr_exec :: "wr_op \<Rightarrow> blob_write \<Rightarrow> blob_wr_verdict \<times> blob_write" where
  "wr_exec op w = (case op of
       W_begin n \<Rightarrow> blob_write_begin w n | W_data b n \<Rightarrow> blob_write_data w b n
     | W_close \<Rightarrow> blob_write_close w | W_break \<Rightarrow> (BLOB_WR_OK, blob_write_break w))"

definition wr_bytes :: "wr_op \<Rightarrow> blob_write \<Rightarrow> u8 list" where
  "wr_bytes op w = (case op of
       W_data (Some b) n \<Rightarrow> if fst (wr_exec op w) = BLOB_WR_OK then take (unat n) b else []
     | _ \<Rightarrow> [])"

fun wr_run :: "wr_op list \<Rightarrow> blob_write \<Rightarrow> blob_write" where
  "wr_run [] w = w"
| "wr_run (op # ops) w = wr_run ops (snd (wr_exec op w))"

fun wr_accepted :: "wr_op list \<Rightarrow> blob_write \<Rightarrow> u8 list" where
  "wr_accepted [] w = []"
| "wr_accepted (op # ops) w = wr_bytes op w @ wr_accepted ops (snd (wr_exec op w))"

text \<open>A buffer holds at least the bytes the call announces.\<close>

definition wr_call :: "wr_op \<Rightarrow> bool" where
  "wr_call op = (case op of W_data (Some b) n \<Rightarrow> unat n \<le> length b | _ \<Rightarrow> True)"

text \<open>The invariant, over the bytes accepted so far.\<close>

definition wr_inv :: "u32 \<Rightarrow> u8 list \<Rightarrow> blob_write \<Rightarrow> bool" where
  "wr_inv cap bs w \<longleftrightarrow> bw_capacity w = cap \<and> unat (bw_received w) = length bs \<and> bw_crc w = crc32_update 0 bs \<and>
     bw_received w \<le> bw_declared w \<and> bw_declared w \<le> cap \<and>
     (bw_phase w = BLOB_PHASE_ARMED \<longrightarrow> bs = [] \<and> bw_declared w = 0) \<and>
     (bw_phase w = BLOB_PHASE_RECV \<longrightarrow> bw_declared w \<noteq> 0) \<and>
     (bw_phase w = BLOB_PHASE_DONE \<longrightarrow> bw_declared w \<noteq> 0 \<and> bw_received w = bw_declared w)"

lemma wr_inv_arm: "wr_inv cap [] (blob_write_arm w slot cap)"
  by (simp add: wr_inv_def blob_write_arm_def crc32_update_def)

lemma wr_inv_data:
  assumes "wr_inv cap bs w" "bw_phase w = BLOB_PHASE_RECV" "n \<le> bw_declared w - bw_received w" "unat n \<le> length b"
  shows "wr_inv cap (bs @ take (unat n) b)
    (w\<lparr>bw_crc := crc32_update (bw_crc w) (take (unat n) b), bw_received := bw_received w + n\<rparr>)"
proof -
  have d: "unat (bw_declared w - bw_received w) = unat (bw_declared w) - unat (bw_received w)"
    using assms(1) by (simp add: wr_inv_def unat_sub)
  have le: "unat (bw_received w) + unat n \<le> unat (bw_declared w)"
  proof -
    have "length bs \<le> unat (bw_declared w)" "unat (bw_received w) = length bs"
      using assms(1) by (simp_all add: wr_inv_def word_le_nat_alt)
    with assms(3) d show ?thesis by (simp add: word_le_nat_alt)
  qed
  then have "unat (bw_received w + n) = unat (bw_received w) + unat n"
    using u32_bound [of "bw_declared w"] by (subst unat_add_lem [THEN iffD1]) auto
  with assms le show ?thesis
    by (simp add: wr_inv_def crc32_update_append word_le_nat_alt)
qed

lemma wr_inv_break: "wr_inv cap bs w \<Longrightarrow> wr_inv cap bs (w\<lparr>bw_phase := BLOB_PHASE_BROKEN\<rparr>)"
  by (simp add: wr_inv_def)

lemma wr_inv_step:
  assumes "wr_inv cap bs w" "wr_call op"
  shows "wr_inv cap (bs @ wr_bytes op w) (snd (wr_exec op w))"
proof (cases op)
  case (W_begin n)
  have "wr_inv cap bs (w\<lparr>bw_declared := n, bw_phase := BLOB_PHASE_RECV\<rparr>)"
    if "bw_phase w = BLOB_PHASE_ARMED" "n \<noteq> 0" "\<not> bw_capacity w < n"
    using assms(1) that by (auto simp: wr_inv_def)
  with W_begin show ?thesis
    using assms(1) wr_inv_break [OF assms(1)]
    by (simp add: wr_bytes_def wr_exec_def blob_write_begin_def)
next
  case (W_data b n)
  show ?thesis
  proof (cases b)
    case None
    with W_data show ?thesis using assms(1) wr_inv_break [OF assms(1)]
      by (simp add: wr_bytes_def wr_exec_def blob_write_data_def)
  next
    case (Some c)
    have "unat n \<le> length c" using assms(2) W_data Some by (simp add: wr_call_def)
    with W_data Some show ?thesis
      using assms(1) wr_inv_break [OF assms(1)] wr_inv_data [OF assms(1)]
      by (simp add: wr_bytes_def wr_exec_def blob_write_data_def not_less)
  qed
next
  case W_close
  have "wr_inv cap bs (w\<lparr>bw_phase := BLOB_PHASE_DONE\<rparr>)"
    if "bw_phase w = BLOB_PHASE_RECV" "bw_received w = bw_declared w"
    using assms(1) that by (auto simp: wr_inv_def)
  with W_close show ?thesis
    using assms(1) wr_inv_break [OF assms(1)]
    by (simp add: wr_bytes_def wr_exec_def blob_write_close_def)
next
  case W_break
  then show ?thesis using wr_inv_break [OF assms(1)]
    by (simp add: wr_bytes_def wr_exec_def blob_write_break_def)
qed

lemma wr_inv_run:
  "wr_inv cap bs w \<Longrightarrow> list_all wr_call ops \<Longrightarrow> wr_inv cap (bs @ wr_accepted ops w) (wr_run ops w)"
proof (induction ops arbitrary: bs w)
  case (Cons op ops)
  then have "wr_inv cap ((bs @ wr_bytes op w) @ wr_accepted ops (snd (wr_exec op w))) (wr_run (op # ops) w)"
    using wr_inv_step [of cap bs w op] by (simp del: append_assoc)
  then show ?case by simp
qed simp

lemma wr_broken_step:
  "bw_phase w = BLOB_PHASE_BROKEN \<Longrightarrow> bw_phase (snd (wr_exec op w)) = BLOB_PHASE_BROKEN \<and> wr_bytes op w = []"
  by (auto simp: wr_exec_def wr_bytes_def blob_write_begin_def blob_write_data_def blob_write_close_def
      blob_write_break_def split: wr_op.splits option.splits)

lemma wr_broken_run: "bw_phase w = BLOB_PHASE_BROKEN \<Longrightarrow> bw_phase (wr_run ops w) = BLOB_PHASE_BROKEN"
  by (induction ops arbitrary: w) (simp_all add: wr_broken_step)

text \<open>C23. Over any sequence of calls on an armed transfer: never more is accepted than the sender
  declared nor than the slot holds, the checksum is that of exactly the accepted bytes, a transfer
  that broke stays broken whatever follows, and the header may be written only when as many bytes
  arrived as were declared, and at least one.\<close>

theorem blob_write_invariant:
  assumes "list_all wr_call ops"
    and "w = wr_run ops (blob_write_arm w0 slot cap)" and "bs = wr_accepted ops (blob_write_arm w0 slot cap)"
  shows "unat (bw_received w) = length bs \<and> length bs \<le> unat (bw_declared w) \<and> bw_declared w \<le> cap \<and>
    bw_crc w = crc32_update 0 bs \<and>
    (blob_write_commit_check w = BLOB_WR_OK \<longrightarrow> length bs = unat (bw_declared w) \<and> bs \<noteq> []) \<and>
    (bw_phase w = BLOB_PHASE_BROKEN \<longrightarrow> (\<forall>more. blob_write_commit_check (wr_run more w) = BLOB_WR_BROKEN))"
proof -
  have "wr_inv cap bs w"
    using wr_inv_run [OF wr_inv_arm assms(1), of cap w0 slot] by (simp add: assms(2,3))
  then show ?thesis
    using wr_broken_run [of w]
    by (auto simp: wr_inv_def blob_write_commit_check_def word_le_nat_alt unat_eq_zero split: if_splits)
qed

lemma blob_write_invariant_witness:
  "blob_write_commit_check (wr_run [W_begin 3, W_data (Some [1, 2]) 2, W_data (Some [3]) 1, W_close]
     (blob_write_arm (blob_write_arm undefined 0 0) 1 8)) = BLOB_WR_OK \<and>
   length (wr_accepted [W_begin 3, W_data (Some [1, 2]) 2, W_data (Some [3]) 1, W_close]
     (blob_write_arm (blob_write_arm undefined 0 0) 1 8)) = 3"
proof -
  let ?ops = "[W_begin 3, W_data (Some [1, 2]) 2, W_data (Some [3]) 1, W_close]"
  let ?w = "wr_run ?ops (blob_write_arm (blob_write_arm undefined 0 0) 1 8)"
  have "list_all wr_call ?ops" by code_simp
  moreover have "blob_write_commit_check ?w = BLOB_WR_OK" "unat (bw_declared ?w) = 3"
    by (simp_all add: wr_exec_def blob_write_arm_def blob_write_begin_def blob_write_data_def
        blob_write_close_def blob_write_commit_check_def)
  ultimately show ?thesis
    using blob_write_invariant [of ?ops ?w "blob_write_arm undefined 0 0" 1 8, OF _ refl refl] by simp
qed

end
