(* ===== verification/BlobMap.thy ===== *)
theory BlobMap
  imports Prelude
begin

text \<open>
  The asset slot table, \<open>svc/blob/blob_map.c\<close>: the check a board's table has to pass, the
  look-ups and the arithmetic over one slot. All quantities are 32-bit words and the code works
  with subtractions only, so the specification is stated on natural numbers: \<open>table_ok\<close>.
\<close>

section \<open>The code\<close>

record blob_slot =
  sl_base :: u32
  sl_size :: u32

datatype blob_map_verdict =
    BLOB_MAP_OK | BLOB_MAP_NO_SLOTS | BLOB_MAP_BAD_INTERVAL | BLOB_MAP_UNALIGNED
  | BLOB_MAP_TOO_SMALL | BLOB_MAP_OUTSIDE | BLOB_MAP_ORDER | BLOB_MAP_OVERLAP

definition BLOB_MAX_SLOTS :: nat where "BLOB_MAX_SLOTS = 32"

definition blob_map_verdict_names_slot :: "blob_map_verdict \<Rightarrow> bool" where
  "blob_map_verdict_names_slot v =
     (case v of
        BLOB_MAP_UNALIGNED \<Rightarrow> True | BLOB_MAP_TOO_SMALL \<Rightarrow> True | BLOB_MAP_OUTSIDE \<Rightarrow> True
      | BLOB_MAP_ORDER \<Rightarrow> True | BLOB_MAP_OVERLAP \<Rightarrow> True | _ \<Rightarrow> False)"

definition blob_map_verdict_name :: "blob_map_verdict \<Rightarrow> u8 list" where
  "blob_map_verdict_name v =
     (case v of
        BLOB_MAP_OK \<Rightarrow> str ''ok''
      | BLOB_MAP_NO_SLOTS \<Rightarrow> str ''no slots''
      | BLOB_MAP_BAD_INTERVAL \<Rightarrow> str ''the writable interval is not usable''
      | BLOB_MAP_UNALIGNED \<Rightarrow> str ''slot is not whole erase units''
      | BLOB_MAP_TOO_SMALL \<Rightarrow> str ''slot has no payload''
      | BLOB_MAP_OUTSIDE \<Rightarrow> str ''slot is outside the writable interval''
      | BLOB_MAP_ORDER \<Rightarrow> str ''slots are not in ascending order''
      | BLOB_MAP_OVERLAP \<Rightarrow> str ''slots overlap'')"

text \<open>The first loop: one slot by itself.\<close>

definition slot_verdict :: "u32 \<Rightarrow> u32 \<Rightarrow> u32 \<Rightarrow> blob_slot \<Rightarrow> blob_map_verdict" where
  "slot_verdict lo hi unt s =
     (let base = sl_base s; size = sl_size s in
      if base mod unt \<noteq> 0 \<or> size mod unt \<noteq> 0 then BLOB_MAP_UNALIGNED
      else if size < 2 * unt then BLOB_MAP_TOO_SMALL
      else if base < lo \<or> base \<ge> hi then BLOB_MAP_OUTSIDE
      else if size > hi - base then BLOB_MAP_OUTSIDE
      else BLOB_MAP_OK)"

fun check_slots :: "u32 \<Rightarrow> u32 \<Rightarrow> u32 \<Rightarrow> nat \<Rightarrow> blob_slot list \<Rightarrow> (blob_map_verdict \<times> nat) option" where
  "check_slots lo hi unt i [] = None"
| "check_slots lo hi unt i (s # ss) =
     (if slot_verdict lo hi unt s \<noteq> BLOB_MAP_OK then Some (slot_verdict lo hi unt s, i)
      else check_slots lo hi unt (i + 1) ss)"

text \<open>The second loop: all pairs, by subtraction only.\<close>

definition slots_overlap :: "blob_slot \<Rightarrow> blob_slot \<Rightarrow> bool" where
  "slots_overlap s t =
     (let a = sl_base s; an = sl_size s; b = sl_base t; bn = sl_size t in
      if a < b then b - a < an else a - b < bn)"

fun overlap_with :: "blob_slot \<Rightarrow> nat \<Rightarrow> blob_slot list \<Rightarrow> nat option" where
  "overlap_with s j [] = None"
| "overlap_with s j (t # ts) = (if slots_overlap s t then Some j else overlap_with s (j + 1) ts)"

fun check_overlap :: "nat \<Rightarrow> blob_slot list \<Rightarrow> nat option" where
  "check_overlap i [] = None"
| "check_overlap i (s # ss) =
     (case overlap_with s (i + 1) ss of Some j \<Rightarrow> Some j | None \<Rightarrow> check_overlap (i + 1) ss)"

text \<open>The third loop: strictly ascending bases.\<close>

fun check_order :: "nat \<Rightarrow> blob_slot list \<Rightarrow> nat option" where
  "check_order i (s # t # ss) =
     (if sl_base t \<le> sl_base s then Some (i + 1) else check_order (i + 1) (t # ss))"
| "check_order i _ = None"

text \<open>The verdict and the index stored through \<open>bad\<close>.\<close>

definition blob_map_check ::
  "u32 \<Rightarrow> u32 \<Rightarrow> u32 \<Rightarrow> blob_slot list option \<Rightarrow> blob_map_verdict \<times> nat" where
  "blob_map_check lo hi unt slots =
     (if unt = 0 \<or> unt AND (unt - 1) \<noteq> 0 then (BLOB_MAP_BAD_INTERVAL, 0)
      else if lo \<ge> hi \<or> lo mod unt \<noteq> 0 \<or> hi mod unt \<noteq> 0 then (BLOB_MAP_BAD_INTERVAL, 0)
      else (case slots of
          None \<Rightarrow> (BLOB_MAP_NO_SLOTS, 0)
        | Some ss \<Rightarrow>
            if ss = [] then (BLOB_MAP_NO_SLOTS, 0)
            else (case check_slots lo hi unt 0 ss of
                Some vb \<Rightarrow> vb
              | None \<Rightarrow>
                  (case check_overlap 0 ss of
                     Some j \<Rightarrow> (BLOB_MAP_OVERLAP, j)
                   | None \<Rightarrow>
                       (case check_order 0 ss of
                          Some i \<Rightarrow> (BLOB_MAP_ORDER, i)
                        | None \<Rightarrow> (BLOB_MAP_OK, 0))))))"

text \<open>The board's table is a parameter; the index found is its first match.\<close>

definition blob_map_slot :: "blob_slot list \<Rightarrow> nat \<Rightarrow> blob_slot option" where
  "blob_map_slot table i = (if i \<ge> length table then None else Some (table ! i))"

fun index_from :: "u32 \<Rightarrow> nat \<Rightarrow> blob_slot list \<Rightarrow> int" where
  "index_from base i [] = -1"
| "index_from base i (s # ss) = (if sl_base s = base then int i else index_from base (i + 1) ss)"

definition blob_map_index_of :: "blob_slot list \<Rightarrow> u32 \<Rightarrow> int" where
  "blob_map_index_of table base = index_from base 0 table"

definition blob_map_payload_addr :: "blob_slot \<Rightarrow> u32 \<Rightarrow> u32" where
  "blob_map_payload_addr s unt = sl_base s + unt"

definition blob_map_payload_max :: "blob_slot \<Rightarrow> u32 \<Rightarrow> u32" where
  "blob_map_payload_max s unt = (if sl_size s \<le> unt then 0 else sl_size s - unt)"

fun uncarved_loop :: "u32 \<Rightarrow> u32 \<Rightarrow> blob_slot list \<Rightarrow> u32" where
  "uncarved_loop span carved [] = span - carved"
| "uncarved_loop span carved (s # ss) =
     (if sl_size s > span - carved then 0 else uncarved_loop span (carved + sl_size s) ss)"

definition blob_map_uncarved :: "u32 \<Rightarrow> u32 \<Rightarrow> blob_slot list option \<Rightarrow> u32" where
  "blob_map_uncarved lo hi slots =
     (if lo \<ge> hi then 0
      else (case slots of None \<Rightarrow> 0 | Some ss \<Rightarrow> uncarved_loop (hi - lo) 0 ss))"

section \<open>What a table has to satisfy\<close>

abbreviation s_lo :: "blob_slot \<Rightarrow> nat" where "s_lo s \<equiv> unat (sl_base s)"
abbreviation s_hi :: "blob_slot \<Rightarrow> nat" where "s_hi s \<equiv> unat (sl_base s) + unat (sl_size s)"

definition slot_ok :: "nat \<Rightarrow> nat \<Rightarrow> nat \<Rightarrow> blob_slot \<Rightarrow> bool" where
  "slot_ok lo hi u s \<longleftrightarrow> u dvd s_lo s \<and> u dvd unat (sl_size s) \<and> 2 * u \<le> unat (sl_size s) \<and>
     lo \<le> s_lo s \<and> s_hi s \<le> hi"

text \<open>Ascending slots that do not meet are one after the other.\<close>

definition table_ok :: "nat \<Rightarrow> nat \<Rightarrow> nat \<Rightarrow> blob_slot list \<Rightarrow> bool" where
  "table_ok lo hi u ss \<longleftrightarrow> lo < hi \<and> u dvd lo \<and> u dvd hi \<and> ss \<noteq> [] \<and>
     (\<forall>s\<in>set ss. slot_ok lo hi u s) \<and> sorted_wrt (\<lambda>s t. s_hi s \<le> s_lo t) ss"

lemma word_dvd_mod: "(x :: u32) mod u = 0 \<longleftrightarrow> unat u dvd unat x"
  by (metis mod_eq_0_iff_dvd unat_eq_zero unat_mod_distrib)

lemma slot_verdict_ok:
  assumes "unat u < 2 ^ 31" "lo < hi"
  shows "slot_verdict lo hi u s = BLOB_MAP_OK \<longleftrightarrow> unat u dvd s_lo s \<and> unat u dvd unat (sl_size s) \<and>
    2 * unat u \<le> unat (sl_size s) \<and> unat lo \<le> s_lo s \<and> s_lo s < unat hi \<and> s_hi s \<le> unat hi"
proof -
  have two: "unat (2 * u) = 2 * unat u"
    using assms(1) by (subst unat_mult_lem [THEN iffD1]) auto
  have sub: "unat (hi - sl_base s) = unat hi - s_lo s" if "sl_base s < hi"
    using that by (simp add: unat_sub order.strict_implies_order)
  show ?thesis
    unfolding slot_verdict_def Let_def word_dvd_mod word_less_nat_alt word_le_nat_alt two
    using sub by (auto simp: word_less_nat_alt not_less)
qed

lemma and_pred_power: "0 < n \<Longrightarrow> n AND (n - 1) = 0 \<longleftrightarrow> (\<exists>k. n = 2 ^ k)" for n :: nat
proof (induction n rule: less_induct)
  case (less n)
  show ?case
  proof (cases "even n")
    case True
    then obtain m where m: "n = 2 * m" by blast
    with less.prems have pos: "0 < m" "m < n" by auto
    have "n - 1 = 1 + 2 * (m - 1)" using m pos by simp
    then have "n AND (n - 1) = 2 * (m AND (m - 1))"
      unfolding m by (subst and_rec) simp
    moreover have "(\<exists>k. n = 2 ^ k) \<longleftrightarrow> (\<exists>k. m = 2 ^ k)"
    proof
      assume "\<exists>k. n = 2 ^ k"
      then obtain k where k: "2 * m = 2 ^ k" using m by auto
      then have "k \<noteq> 0" by (cases k) auto
      then obtain j where "k = Suc j" by (cases k) auto
      with k show "\<exists>k. m = 2 ^ k" by auto
    next
      assume "\<exists>k. m = 2 ^ k"
      then obtain k where "m = 2 ^ k" by blast
      then have "n = 2 ^ Suc k" using m by simp
      then show "\<exists>k. n = 2 ^ k" by blast
    qed
    ultimately show ?thesis using less.IH [OF pos(2,1)] by simp
  next
    case False
    then obtain m where m: "n = 1 + 2 * m" by (auto elim!: oddE)
    have "(1 + 2 * m) AND (2 * m) = 2 * m" by (subst and_rec) simp
    then have "n AND (n - 1) = 2 * m" unfolding m by simp
    moreover have "(\<exists>k. n = 2 ^ k) \<longleftrightarrow> m = 0"
    proof
      assume "\<exists>k. n = 2 ^ k"
      then obtain k where "n = 2 ^ k" by blast
      with False show "m = 0" using m by (cases k) auto
    qed (auto simp: m intro: exI [of _ 0])
    ultimately show ?thesis by simp
  qed
qed

lemma unit_power: "u \<noteq> 0 \<Longrightarrow> u AND (u - 1) = 0 \<longleftrightarrow> (\<exists>k. unat u = 2 ^ k)" for u :: u32
proof -
  assume u: "u \<noteq> 0"
  have "unat (u AND (u - 1)) = unat u AND (unat u - 1)"
    using u by (simp add: unsigned_and_eq unat_minus_one)
  moreover have "u AND (u - 1) = 0 \<longleftrightarrow> unat (u AND (u - 1)) = 0" by (simp only: unat_eq_zero)
  moreover have "0 < unat u" using u by (simp add: unat_gt_0)
  ultimately show ?thesis using and_pred_power [of "unat u"] by simp
qed

lemma check_slots_none:
  "check_slots lo hi u i ss = None \<longleftrightarrow> (\<forall>s\<in>set ss. slot_verdict lo hi u s = BLOB_MAP_OK)"
  by (induction ss arbitrary: i) auto

lemma check_slots_some:
  "check_slots lo hi u i ss = Some (v, j) \<Longrightarrow> v \<noteq> BLOB_MAP_OK \<and> i \<le> j \<and> j < i + length ss \<and>
     slot_verdict lo hi u (ss ! (j - i)) = v"
  by (induction ss arbitrary: i) (fastforce split: if_splits simp: nth_Cons')+

lemma overlap_with_none: "overlap_with s j ts = None \<longleftrightarrow> (\<forall>t\<in>set ts. \<not> slots_overlap s t)"
  by (induction ts arbitrary: j) auto

lemma check_overlap_none: "check_overlap i ss = None \<longleftrightarrow> sorted_wrt (\<lambda>s t. \<not> slots_overlap s t) ss"
proof (induction ss arbitrary: i)
  case (Cons s ss)
  then show ?case
    using overlap_with_none [of s "Suc i" ss] by (cases "overlap_with s (Suc i) ss") auto
qed simp

lemma check_order_none: "check_order i ss = None \<longleftrightarrow> sorted_wrt (\<lambda>s t. s_lo s < s_lo t) ss"
proof (induction i ss rule: check_order.induct)
  case (1 i s t ss)
  have "sorted_wrt (\<lambda>s t. s_lo s < s_lo t) (s # t # ss) \<longleftrightarrow>
      s_lo s < s_lo t \<and> sorted_wrt (\<lambda>s t. s_lo s < s_lo t) (t # ss)"
    by fastforce
  with 1 show ?case by (auto simp: word_le_nat_alt)
qed auto

lemma slots_overlap_iff:
  "slots_overlap s t \<longleftrightarrow> (if s_lo s < s_lo t then s_lo t < s_hi s else s_lo s < s_hi t)"
  by (auto simp: slots_overlap_def Let_def word_less_nat_alt unat_sub word_le_nat_alt
      not_less order.strict_implies_order)

lemma table_order:
  assumes "\<forall>s\<in>set ss. 0 < unat (sl_size s)"
  shows "sorted_wrt (\<lambda>s t. \<not> slots_overlap s t) ss \<and> sorted_wrt (\<lambda>s t. s_lo s < s_lo t) ss \<longleftrightarrow>
    sorted_wrt (\<lambda>s t. s_hi s \<le> s_lo t) ss"
  using assms
proof (induction ss)
  case (Cons s ss)
  have "(\<not> slots_overlap s t \<and> s_lo s < s_lo t) \<longleftrightarrow> s_hi s \<le> s_lo t" for t
    using Cons.prems by (auto simp: slots_overlap_iff)
  with Cons show ?case by auto
qed simp

text \<open>C24. The table check accepts a table exactly when, as numbers, the erase unit is a power of
  two, the interval is a non-empty range of whole units, every slot is at least two whole units
  inside it, and each slot ends before the next one begins. No sum in it can wrap, although the
  code computes on 32-bit words throughout. (The unit has to be below 2^31 for that: the bound
  \<open>2u * unit\<close> is zero at 2^31, see \<open>map_check_wraps\<close>.)\<close>

theorem blob_map_check_iff:
  assumes "unat u < 2 ^ 31"
  shows "fst (blob_map_check lo hi u (Some ss)) = BLOB_MAP_OK \<longleftrightarrow>
    (\<exists>k. unat u = 2 ^ k) \<and> table_ok (unat lo) (unat hi) (unat u) ss"
proof (cases "u \<noteq> 0 \<and> u AND (u - 1) = 0 \<and> lo < hi \<and> lo mod u = 0 \<and> hi mod u = 0 \<and> ss \<noteq> []")
  case False
  moreover have "(\<exists>k. unat u = 2 ^ k) \<longrightarrow> u \<noteq> 0" by (metis power_not_zero unsigned_0 zero_neq_numeral)
  ultimately show ?thesis
    using unit_power [of u] unfolding table_ok_def word_less_nat_alt word_dvd_mod blob_map_check_def
    by (auto simp: word_less_nat_alt word_le_nat_alt not_le)
next
  case True
  then have u: "\<exists>k. unat u = 2 ^ k" using unit_power by blast
  have sl: "slot_verdict lo hi u s = BLOB_MAP_OK \<longleftrightarrow> slot_ok (unat lo) (unat hi) (unat u) s" for s
  proof -
    have "0 < unat u" using True by (simp add: unat_gt_0)
    then show ?thesis
      using slot_verdict_ok [OF assms, of lo hi s] True by (auto simp: slot_ok_def)
  qed
  show ?thesis
  proof (cases "\<forall>s\<in>set ss. slot_ok (unat lo) (unat hi) (unat u) s")
    case False
    then obtain v j where v: "check_slots lo hi u 0 ss = Some (v, j)"
      using check_slots_none [of lo hi u 0 ss] sl by (cases "check_slots lo hi u 0 ss") auto
    with check_slots_some [OF v] False True show ?thesis
      by (auto simp: blob_map_check_def table_ok_def)
  next
    case ok: True
    then have n: "check_slots lo hi u 0 ss = None" using check_slots_none sl by blast
    have "0 < unat u" using True by (simp add: unat_gt_0)
    with ok have "\<forall>s\<in>set ss. 0 < unat (sl_size s)" by (auto simp: slot_ok_def)
    note ord = table_order [OF this]
    have "fst (blob_map_check lo hi u (Some ss)) = BLOB_MAP_OK \<longleftrightarrow>
        check_overlap 0 ss = None \<and> check_order 0 ss = None"
      using True n by (auto simp: blob_map_check_def split: option.splits)
    also have "\<dots> \<longleftrightarrow> sorted_wrt (\<lambda>s t. s_hi s \<le> s_lo t) ss"
      using ord by (simp add: check_overlap_none check_order_none)
    finally show ?thesis
      using True ok u by (simp add: table_ok_def word_less_nat_alt word_dvd_mod)
  qed
qed

definition sample_slots :: "blob_slot list" where
  "sample_slots = [\<lparr>sl_base = 0x200000, sl_size = 0x2000\<rparr>, \<lparr>sl_base = 0x202000, sl_size = 0x4000\<rparr>]"

lemma sample_table_ok: "table_ok 0x200000 0x300000 0x1000 sample_slots"
  by (simp add: table_ok_def sample_slots_def slot_ok_def)

lemma blob_map_check_iff_witness:
  "fst (blob_map_check 0x200000 0x300000 0x1000 (Some sample_slots)) = BLOB_MAP_OK"
proof -
  have "\<exists>k. unat (0x1000 :: u32) = 2 ^ k" by (rule exI [of _ 12]) simp
  then show ?thesis
    using blob_map_check_iff [of "0x1000" "0x200000" "0x300000" sample_slots] sample_table_ok by simp
qed

text \<open>With the largest power of two as the unit, a slot of no bytes passes.\<close>

lemma map_check_wraps:
  "fst (blob_map_check 0 0x80000000 0x80000000 (Some [\<lparr>sl_base = 0, sl_size = 0\<rparr>])) = BLOB_MAP_OK"
  by code_simp

section \<open>The arithmetic on a checked table\<close>

lemma table_sum:
  assumes "sorted_wrt (\<lambda>s t. s_hi s \<le> s_lo t) ss" "\<forall>s\<in>set ss. lo \<le> s_lo s \<and> s_hi s \<le> hi" "lo \<le> hi"
  shows "lo + sum_list (map (\<lambda>s. unat (sl_size s)) ss) \<le> hi"
  using assms
proof (induction ss arbitrary: lo)
  case (Cons s ss)
  have "s_hi s + sum_list (map (\<lambda>s. unat (sl_size s)) ss) \<le> hi"
    using Cons.prems by (intro Cons.IH) auto
  with Cons.prems show ?case by auto
qed simp

lemma uncarved_loop_sum:
  "unat carved + sum_list (map (\<lambda>s. unat (sl_size s)) ss) \<le> unat span \<Longrightarrow>
    unat (uncarved_loop span carved ss) =
      unat span - (unat carved + sum_list (map (\<lambda>s. unat (sl_size s)) ss))"
proof (induction ss arbitrary: carved)
  case Nil
  then show ?case by (simp add: unat_sub word_le_nat_alt)
next
  case (Cons s ss)
  have sub: "unat (span - carved) = unat span - unat carved"
    using Cons.prems by (simp add: unat_sub word_le_nat_alt)
  have "unat carved + unat (sl_size s) < 2 ^ 32"
    using Cons.prems u32_bound [of span] by simp
  then have add: "unat (carved + sl_size s) = unat carved + unat (sl_size s)"
    by (subst unat_add_lem [THEN iffD1]) auto
  have "\<not> sl_size s > span - carved"
    using Cons.prems sub by (simp add: word_less_nat_alt)
  moreover have "unat (carved + sl_size s) + sum_list (map (\<lambda>s. unat (sl_size s)) ss) \<le> unat span"
    using Cons.prems add by simp
  ultimately show ?case using Cons.IH [of "carved + sl_size s"] add by (simp add: add.assoc)
qed

lemma index_from_first:
  "j < length ts \<Longrightarrow> sl_base (ts ! j) = base \<Longrightarrow> \<forall>k<j. sl_base (ts ! k) \<noteq> base \<Longrightarrow>
    index_from base n ts = int (n + j)"
proof (induction ts arbitrary: n j)
  case (Cons t ts)
  show ?case
  proof (cases j)
    case (Suc m)
    have "\<forall>k<m. sl_base (ts ! k) \<noteq> base" "sl_base t \<noteq> base"
      using Cons.prems(3) Suc by (metis Suc_less_eq nth_Cons_Suc, metis nth_Cons_0 zero_less_Suc)
    with Cons.IH [of m "n + 1"] Cons.prems Suc show ?thesis by simp
  qed (use Cons.prems in simp)
qed simp

text \<open>C25. On a table that passed the check, nothing the writer computes from it wraps: the payload
  of a slot is the slot without its first unit and is not empty, a base is resolved back to the
  slot it came from, and the uncarved remainder is the interval less the slots' sizes.\<close>

theorem blob_map_arithmetic:
  assumes "table_ok (unat lo) (unat hi) (unat u) ss" and "0 < unat u" and "i < length ss"
  shows "unat (blob_map_payload_addr (ss ! i) u) = s_lo (ss ! i) + unat u \<and>
    unat (blob_map_payload_max (ss ! i) u) = unat (sl_size (ss ! i)) - unat u \<and>
    0 < unat (blob_map_payload_max (ss ! i) u) \<and>
    blob_map_index_of ss (sl_base (ss ! i)) = int i \<and>
    unat (blob_map_uncarved lo hi (Some ss)) + sum_list (map (\<lambda>s. unat (sl_size s)) ss) = unat hi - unat lo"
proof -
  let ?s = "ss ! i"
  have ok: "slot_ok (unat lo) (unat hi) (unat u) ?s" using assms(1,3) by (simp add: table_ok_def)
  have "s_lo ?s + unat u < 2 ^ 32" using ok u32_bound [of hi] by (simp add: slot_ok_def)
  then have addr: "unat (blob_map_payload_addr ?s u) = s_lo ?s + unat u"
    unfolding blob_map_payload_addr_def by (subst unat_add_lem [THEN iffD1]) auto
  have size: "unat u < unat (sl_size ?s)" using ok assms(2) by (simp add: slot_ok_def)
  then have max: "unat (blob_map_payload_max ?s u) = unat (sl_size ?s) - unat u"
    by (simp add: blob_map_payload_max_def unat_sub word_le_nat_alt)
  have lt: "s_lo (ss ! j) < s_lo ?s" if "j < i" for j
  proof -
    have "s_hi (ss ! j) \<le> s_lo ?s"
      using assms(1,3) that by (simp add: table_ok_def sorted_wrt_iff_nth_less)
    moreover have "slot_ok (unat lo) (unat hi) (unat u) (ss ! j)"
      using assms(1,3) that by (simp add: table_ok_def)
    ultimately show ?thesis using assms(2) by (simp add: slot_ok_def)
  qed
  have "blob_map_index_of ss (sl_base ?s) = int i"
    unfolding blob_map_index_of_def
    using index_from_first [of i ss "sl_base ?s" 0] lt assms(3) by fastforce
  moreover have "unat lo < unat hi" "lo < hi" using assms(1) by (simp_all add: table_ok_def word_less_nat_alt)
  then have span: "unat (hi - lo) = unat hi - unat lo"
    by (simp add: unat_sub order.strict_implies_order)
  have sum: "unat lo + sum_list (map (\<lambda>s. unat (sl_size s)) ss) \<le> unat hi"
    using assms(1) by (intro table_sum) (auto simp: table_ok_def slot_ok_def)
  with span have "unat (blob_map_uncarved lo hi (Some ss)) =
      unat hi - unat lo - sum_list (map (\<lambda>s. unat (sl_size s)) ss)"
    using \<open>lo < hi\<close> uncarved_loop_sum [of 0 ss "hi - lo"] by (simp add: blob_map_uncarved_def)
  ultimately show ?thesis using addr max size sum by simp
qed

lemma blob_map_arithmetic_witness:
  "unat (blob_map_payload_addr (sample_slots ! 1) 0x1000) = 0x203000 \<and>
    blob_map_index_of sample_slots 0x202000 = 1"
  using blob_map_arithmetic [of "0x200000" "0x300000" "0x1000" sample_slots 1] sample_table_ok
  by (simp add: sample_slots_def)

end
