(* ===== verification/BlobWrite.thy ===== *)
theory BlobWrite
  imports BlobState BlobMap
begin

text \<open>
  One \<open>blob write\<close>, \<open>svc/blob/blob_write.c\<close>. The vtable of board operations is code outside this
  file, so each operation is a function of the log of the calls made so far: any behaviour of the
  board, the sender and the operator is one such environment. The receive operation is the list
  of sink calls the protocol makes, and its result. Every call is logged with its reply, and
  the last section states what a legal log is.
\<close>

section \<open>The operations and the state of a run own state\<close>

datatype blob_write_result =
    BLOB_WRITE_STORED | BLOB_WRITE_BUSY | BLOB_WRITE_NO_CONSOLE | BLOB_WRITE_CANCELLED
  | BLOB_WRITE_ERASE_FAILED | BLOB_WRITE_XFER_FAILED | BLOB_WRITE_PROG_FAILED
  | BLOB_WRITE_VERIFY_FAILED | BLOB_WRITE_NO_SLOT | BLOB_WRITE_REFUSED

definition blob_write_result_name :: "blob_write_result \<Rightarrow> u8 list" where
  "blob_write_result_name r =
     (case r of
        BLOB_WRITE_STORED \<Rightarrow> str ''stored''
      | BLOB_WRITE_BUSY \<Rightarrow> str ''the NOR is somebody else'' @ [39] @ str ''s just now''
      | BLOB_WRITE_NO_CONSOLE \<Rightarrow> str ''the console could not be claimed''
      | BLOB_WRITE_CANCELLED \<Rightarrow> str ''cancelled during the erase''
      | BLOB_WRITE_ERASE_FAILED \<Rightarrow> str ''the erase did not finish''
      | BLOB_WRITE_XFER_FAILED \<Rightarrow> str ''the transfer did not complete''
      | BLOB_WRITE_PROG_FAILED \<Rightarrow> str ''a program did not take''
      | BLOB_WRITE_VERIFY_FAILED \<Rightarrow> str ''the read-back does not match''
      | BLOB_WRITE_NO_SLOT \<Rightarrow> str ''no slot to write into''
      | BLOB_WRITE_REFUSED \<Rightarrow> str ''refused'')"

datatype event =
    E_console_ready int
  | E_slot_count nat
  | E_reserve int u32
  | E_unreserve u32
  | E_stat nat int blob_info
  | E_geometry nat int u32 u32 u32
  | E_announce nat u32 u32
  | E_erase u32 u32 u32 int bool
  | E_program u32 u32 "u8 list" int
  | E_claim int
  | E_release
  | E_receive
  | E_note "u8 list" u32
  | E_read_back u32 "u8 list" int

datatype sink_call = SC_begin "u8 list" u32 | SC_write "u8 list option" u32

record blob_env =
  r_console_ready :: "event list \<Rightarrow> int"
  r_slot_count :: "event list \<Rightarrow> nat"
  r_reserve :: "event list \<Rightarrow> int \<times> u32"
  r_stat :: "event list \<Rightarrow> nat \<Rightarrow> int \<times> blob_info"
  r_geometry :: "event list \<Rightarrow> nat \<Rightarrow> int \<times> u32 \<times> u32 \<times> u32"
  r_announces :: bool
  r_erase :: "event list \<Rightarrow> int \<times> u32 \<times> bool"
  r_program :: "event list \<Rightarrow> u32 \<Rightarrow> u8 list \<Rightarrow> int"
  r_claim :: "event list \<Rightarrow> int"
  r_receive :: "event list \<Rightarrow> sink_call list \<times> int"
  r_notes :: bool
  r_read_back :: "event list \<Rightarrow> u32 \<Rightarrow> nat \<Rightarrow> int \<times> u8 list"

record blob_report =
  rp_slot :: nat
  rp_slot_chosen :: bool
  rp_choice :: blob_choice
  rp_erased :: u32
  rp_received :: u32
  rp_declared :: u32
  rp_crc :: u32
  rp_verified :: u32
  rp_transactions :: u32
  rp_vendor_rc :: int
  rp_magic_failed :: bool

definition zero_report :: blob_report where
  "zero_report = \<lparr>rp_slot = 0, rp_slot_chosen = False, rp_choice = BLOB_CHOICE_REUSE, rp_erased = 0,
     rp_received = 0, rp_declared = 0, rp_crc = 0, rp_verified = 0, rp_transactions = 0,
     rp_vendor_rc = 0, rp_magic_failed = False\<rparr>"

text \<open>\<open>struct wr\<close>, with the report it points to and the log of the calls it made.\<close>

record wr =
  w_log :: "event list"
  w_rep :: blob_report
  w_bk :: blob_write
  w_stage :: "u8 list"
  w_token :: u32
  w_payload_addr :: u32
  w_staged :: nat
  w_programmed :: u32
  w_broken :: bool
  w_prog_failed :: bool

definition logged :: "event \<Rightarrow> wr \<Rightarrow> wr" where
  "logged e w = w\<lparr>w_log := w_log w @ [e]\<rparr>"

definition count_transaction :: "wr \<Rightarrow> wr" where
  "count_transaction w = w\<lparr>w_rep := (w_rep w)\<lparr>rp_transactions := rp_transactions (w_rep w) + 1\<rparr>\<rparr>"

text \<open>One call of the program operation on the first \<open>n\<close> bytes of the staging buffer.\<close>

definition call_program :: "blob_env \<Rightarrow> u32 \<Rightarrow> nat \<Rightarrow> wr \<Rightarrow> (int \<times> wr) option" where
  "call_program env addr n w =
     (if n > length (w_stage w) then None
      else let d = take n (w_stage w); rc = r_program env (w_log w) addr d in
        Some (rc, logged (E_program (w_token w) addr d rc) (count_transaction w)))"

section \<open>The code\<close>

definition flush :: "blob_env \<Rightarrow> wr \<Rightarrow> (bool \<times> wr) option" where
  "flush env w =
     (if w_staged w = 0 then Some (True, w)
      else do {
        (rc, w) \<leftarrow> call_program env (w_payload_addr w + w_programmed w) (w_staged w) w;
        let w = w\<lparr>w_rep := (w_rep w)\<lparr>rp_vendor_rc := rc\<rparr>\<rparr>;
        if rc \<noteq> 0
        then Some (False, w\<lparr>w_broken := True, w_prog_failed := True, w_bk := blob_write_break (w_bk w)\<rparr>)
        else Some (True, w\<lparr>w_programmed := w_programmed w + of_nat (w_staged w), w_staged := 0\<rparr>)
      })"

definition sink_begin :: "blob_env \<Rightarrow> u8 list \<Rightarrow> u32 \<Rightarrow> wr \<Rightarrow> bool \<times> wr" where
  "sink_begin env name bytes w =
     (let w = (if r_notes env then logged (E_note name bytes) w else w);
          w = w\<lparr>w_rep := (w_rep w)\<lparr>rp_declared := bytes\<rparr>\<rparr>;
          (v, bk) = blob_write_begin (w_bk w) bytes in
      if v \<noteq> BLOB_WR_OK then (False, w\<lparr>w_bk := bk, w_broken := True\<rparr>)
      else (True, w\<lparr>w_bk := bk\<rparr>))"

text \<open>The copy loop, on the bytes still to be staged. It need not end when the buffer is full, so
  it is defined as a partial function; its result is an option for that and for the copies.\<close>

partial_function (option) sink_copy :: "blob_env \<Rightarrow> u8 list \<Rightarrow> wr \<Rightarrow> (bool \<times> wr) option" where
  "sink_copy env rest w =
     (if rest = [] then Some (True, w)
      else let n = min (length rest) (length (w_stage w) - w_staged w) in
        Option.bind (cpy (w_stage w) (w_staged w) (take n rest)) (\<lambda>stage.
          let w = w\<lparr>w_stage := stage, w_staged := w_staged w + n\<rparr> in
          if w_staged w = length (w_stage w)
          then Option.bind (flush env w) (\<lambda>r.
                 if \<not> fst r then Some (False, snd r) else sink_copy env (drop n rest) (snd r))
          else sink_copy env (drop n rest) w))"

declare sink_copy.simps [code]

definition sink_write :: "blob_env \<Rightarrow> u8 list option \<Rightarrow> u32 \<Rightarrow> wr \<Rightarrow> (bool \<times> wr) option" where
  "sink_write env data len w =
     (if w_broken w then Some (False, w)
      else let (v, bk) = blob_write_data (w_bk w) data len; w = w\<lparr>w_bk := bk\<rparr> in
        if v \<noteq> BLOB_WR_OK then Some (False, w\<lparr>w_broken := True\<rparr>)
        else (case data of
            None \<Rightarrow> if len = 0 then Some (True, w) else None
          | Some d \<Rightarrow> if unat len > length d then None else sink_copy env (take (unat len) d) w))"

definition sink_call :: "blob_env \<Rightarrow> sink_call \<Rightarrow> wr \<Rightarrow> (bool \<times> wr) option" where
  "sink_call env c w =
     (case c of SC_begin name bytes \<Rightarrow> Some (sink_begin env name bytes w)
      | SC_write data len \<Rightarrow> sink_write env data len w)"

fun sink_calls :: "blob_env \<Rightarrow> sink_call list \<Rightarrow> wr \<Rightarrow> wr option" where
  "sink_calls env [] w = Some w"
| "sink_calls env (c # cs) w = do { (ok, w) \<leftarrow> sink_call env c w; sink_calls env cs w }"

definition write_body :: "blob_env \<Rightarrow> u8 list \<Rightarrow> u32 \<Rightarrow> wr \<Rightarrow> (bool \<times> wr) option" where
  "write_body env name base w =
     (if length name > BLOB_NAME_MAX then Some (False, w)
      else let info = zero_info\<lparr>bi_name := name, bi_length := bw_received (w_bk w), bi_crc32 := bw_crc (w_bk w)\<rparr>;
               (r, page) = blob_hdr_encode_body (Some (w_stage w)) base (bw_capacity (w_bk w)) (Some info);
               w = w\<lparr>w_stage := page\<rparr> in
        if r \<noteq> BLOB_REJECT_NONE then Some (False, w)
        else do {
          (rc, w) \<leftarrow> call_program env (base + of_nat BLOB_HDR_PAGE) BLOB_BODY_SIZE w;
          Some (rc = 0, w)
        })"

definition write_magic :: "blob_env \<Rightarrow> u32 \<Rightarrow> wr \<Rightarrow> (bool \<times> wr) option" where
  "write_magic env base w =
     (let (r, page) = blob_hdr_encode_magic (Some (w_stage w)); w = w\<lparr>w_stage := page\<rparr> in
      if r \<noteq> BLOB_REJECT_NONE then Some (False, w)
      else do {
        (rc, w) \<leftarrow> call_program env base BLOB_MAGIC_SIZE w;
        Some (rc = 0, w)
      })"

text \<open>The read-back overwrites the staging buffer with the bytes it delivers.\<close>

definition call_read_back :: "blob_env \<Rightarrow> u32 \<Rightarrow> nat \<Rightarrow> wr \<Rightarrow> int \<times> wr" where
  "call_read_back env addr n w =
     (let (rc, bs) = r_read_back env (w_log w) addr n;
          d = take n bs; stage = d @ drop (length d) (w_stage w) in
      (rc, logged (E_read_back addr (take n stage) rc) (w\<lparr>w_stage := stage\<rparr>)))"

partial_function (option) verify_loop :: "blob_env \<Rightarrow> nat \<Rightarrow> u32 \<Rightarrow> wr \<Rightarrow> (u32 option \<times> wr) option" where
  "verify_loop env off crc w =
     (if \<not> off < unat (bw_received (w_bk w)) then Some (Some crc, w)
      else let n = min (unat (bw_received (w_bk w)) - off) (length (w_stage w));
               r = call_read_back env (w_payload_addr w + of_nat off) n w in
        if fst r \<noteq> 0 then Some (None, snd r)
        else verify_loop env (off + n) (crc32_update crc (take n (w_stage (snd r)))) (snd r))"

declare verify_loop.simps [code]

definition verify_payload :: "blob_env \<Rightarrow> wr \<Rightarrow> (bool \<times> wr) option" where
  "verify_payload env w = do {
     (crc, w) \<leftarrow> verify_loop env 0 0 w;
     case crc of
       None \<Rightarrow> Some (False, w)
     | Some c \<Rightarrow> Some (c = bw_crc (w_bk w), w\<lparr>w_rep := (w_rep w)\<lparr>rp_verified := c\<rparr>\<rparr>)
   }"

text \<open>The run. A part that took nothing yet ends with its result; what follows the reservation
  ends in the one exit with its result and whether the console is claimed.\<close>

fun stat_slots :: "blob_env \<Rightarrow> u8 list \<Rightarrow> nat list \<Rightarrow> wr \<Rightarrow> slot_view list option \<times> wr" where
  "stat_slots env name [] w = (Some [], w)"
| "stat_slots env name (i # is) w =
     (let (rc, info) = r_stat env (w_log w) i; w = logged (E_stat i rc info) w in
      if rc \<noteq> 0 then (None, w)
      else let v = \<lparr>sv_state = bi_state info, sv_match = (bi_state info = BLOB_VALID \<and> bi_name info = name)\<rparr>;
               (vs, w) = stat_slots env name is w in
        (map_option (\<lambda>vs. v # vs) vs, w))"

definition run_commit :: "blob_env \<Rightarrow> u8 list \<Rightarrow> u32 \<Rightarrow> wr \<Rightarrow> (blob_write_result \<times> wr) option" where
  "run_commit env name base w =
     (if blob_write_commit_check (w_bk w) \<noteq> BLOB_WR_OK then Some (BLOB_WRITE_PROG_FAILED, w)
      else do {
        (ok, w) \<leftarrow> write_body env name base w;
        if \<not> ok then Some (BLOB_WRITE_PROG_FAILED, w)
        else do {
          (ok, w) \<leftarrow> verify_payload env w;
          if \<not> ok then Some (BLOB_WRITE_VERIFY_FAILED, w)
          else do {
            (ok, w) \<leftarrow> write_magic env base w;
            if ok then Some (BLOB_WRITE_STORED, w)
            else Some (BLOB_WRITE_PROG_FAILED, w\<lparr>w_rep := (w_rep w)\<lparr>rp_magic_failed := True\<rparr>\<rparr>)
          }
        }
      })"

definition report_received :: "wr \<Rightarrow> wr" where
  "report_received w =
     w\<lparr>w_rep := (w_rep w)\<lparr>rp_received := bw_received (w_bk w), rp_crc := bw_crc (w_bk w)\<rparr>\<rparr>"

definition run_receive :: "blob_env \<Rightarrow> u8 list \<Rightarrow> u32 \<Rightarrow> wr \<Rightarrow> (blob_write_result \<times> bool \<times> wr) option" where
  "run_receive env name base w =
     (let (calls, rc) = r_receive env (w_log w) in
      do {
        w \<leftarrow> sink_calls env calls (logged E_receive w);
        let w = report_received w;
        if rc \<noteq> 0 \<or> w_broken w
        then Some (if w_prog_failed w then BLOB_WRITE_PROG_FAILED else BLOB_WRITE_XFER_FAILED, True, w)
        else let (v, bk) = blob_write_close (w_bk w); w = w\<lparr>w_bk := bk\<rparr> in
          if v \<noteq> BLOB_WR_OK then Some (BLOB_WRITE_XFER_FAILED, True, w)
          else do {
            (ok, w) \<leftarrow> flush env w;
            if \<not> ok then Some (BLOB_WRITE_PROG_FAILED, True, w)
            else do {
              (res, w) \<leftarrow> run_commit env name base (logged E_release (report_received w));
              Some (res, False, w)
            }
          }
      })"

definition run_erase ::
  "blob_env \<Rightarrow> u8 list \<Rightarrow> nat \<Rightarrow> u32 \<Rightarrow> u32 \<Rightarrow> u32 \<Rightarrow> wr \<Rightarrow> (blob_write_result \<times> bool \<times> wr) option" where
  "run_erase env name target base payload_addr payload_max w =
     (let w = w\<lparr>w_payload_addr := payload_addr, w_bk := blob_write_arm (w_bk w) target payload_max\<rparr>;
          len = (payload_addr - base) + payload_max;
          w = (if r_announces env then logged (E_announce target base len) w else w);
          w = count_transaction w;
          (rc, erased, cancelled) = r_erase env (w_log w);
          w = logged (E_erase (w_token w) base len rc cancelled) w;
          w = w\<lparr>w_rep := (w_rep w)\<lparr>rp_erased := erased, rp_vendor_rc := rc\<rparr>\<rparr> in
      if cancelled then Some (BLOB_WRITE_CANCELLED, False, w)
      else if rc \<noteq> 0 then Some (BLOB_WRITE_ERASE_FAILED, False, w)
      else let rc = r_claim env (w_log w); w = logged (E_claim rc) w in
        if rc \<noteq> 0 then Some (BLOB_WRITE_NO_CONSOLE, False, w)
        else run_receive env name base w)"

definition run_reserved :: "blob_env \<Rightarrow> u8 list \<Rightarrow> int \<Rightarrow> nat \<Rightarrow> wr \<Rightarrow> (blob_write_result \<times> bool \<times> wr) option" where
  "run_reserved env name want count w =
     (case stat_slots env name [0..<count] w of
        (None, w) \<Rightarrow> Some (BLOB_WRITE_REFUSED, False, w)
      | (Some views, w) \<Rightarrow>
          (let (choice, target) = blob_choose_target (Some views) want;
               w = w\<lparr>w_rep := (w_rep w)\<lparr>rp_choice := choice\<rparr>\<rparr> in
           case target of
             None \<Rightarrow> Some (BLOB_WRITE_NO_SLOT, False, w)
           | Some target \<Rightarrow>
               (let w = w\<lparr>w_rep := (w_rep w)\<lparr>rp_slot := target, rp_slot_chosen := True\<rparr>\<rparr>;
                    (rc, base, payload_addr, payload_max) = r_geometry env (w_log w) target;
                    w = logged (E_geometry target rc base payload_addr payload_max) w in
                if rc \<noteq> 0 then Some (BLOB_WRITE_REFUSED, False, w)
                else run_erase env name target base payload_addr payload_max w)))"

definition start_wr :: "u8 list \<Rightarrow> wr" where
  "start_wr stage = \<lparr>w_log = [], w_rep = zero_report,
     w_bk = \<lparr>bw_phase = BLOB_PHASE_IDLE, bw_slot = 0, bw_capacity = 0, bw_declared = 0, bw_received = 0, bw_crc = 0\<rparr>,
     w_stage = stage, w_token = 0, w_payload_addr = 0, w_staged = 0, w_programmed = 0,
     w_broken = False, w_prog_failed = False\<rparr>"

text \<open>The one exit.\<close>

definition run_out :: "bool \<Rightarrow> wr \<Rightarrow> wr" where
  "run_out claimed w =
     (let w = (if claimed then logged E_release w else w);
          w = logged (E_unreserve (w_token w)) w in
      w\<lparr>w_bk := blob_write_reset (w_bk w)\<rparr>)"

text \<open>The staging buffer is a list; \<open>None\<close> is a NULL pointer, as for the name.\<close>

definition blob_write_run ::
  "blob_env \<Rightarrow> u8 list option \<Rightarrow> u8 list option \<Rightarrow> int \<Rightarrow> (blob_write_result \<times> blob_report \<times> event list) option" where
  "blob_write_run env stage name want =
     (case (stage, name) of
        (Some stage, Some name) \<Rightarrow>
          if length stage < BLOB_HDR_PAGE \<or> length stage mod BLOB_HDR_PAGE \<noteq> 0
          then Some (BLOB_WRITE_REFUSED, zero_report, [])
          else
            (let w = start_wr stage; rc = r_console_ready env (w_log w);
                 w = logged (E_console_ready rc) w in
             if rc \<noteq> 0 then Some (BLOB_WRITE_NO_CONSOLE, w_rep w, w_log w)
             else let count = r_slot_count env (w_log w); w = logged (E_slot_count count) w in
               if count = 0 \<or> count > BLOB_MAX_SLOTS
               then Some (BLOB_WRITE_NO_SLOT, (w_rep w)\<lparr>rp_choice := BLOB_CHOICE_BAD_MAP\<rparr>, w_log w)
               else let (rc, token) = r_reserve env (w_log w); w = logged (E_reserve rc token) w in
                 if rc \<noteq> 0 \<or> token = 0 then Some (BLOB_WRITE_BUSY, w_rep w, w_log w)
                 else do {
                   (res, claimed, w) \<leftarrow> run_reserved env name want count (w\<lparr>w_token := token\<rparr>);
                   let w = run_out claimed w;
                   Some (res, w_rep w, w_log w)
                 })
      | _ \<Rightarrow> Some (BLOB_WRITE_REFUSED, zero_report, []))"

section \<open>What a legal session is\<close>

text \<open>
  The abstract specification is an automaton over the log: what was taken and not given back,
  whether the erase succeeded, the payload bytes programmed and the ones read back.
\<close>

record sess =
  s_held :: "u32 option"
  s_views :: "slot_view list"
  s_geom :: bool
  s_base :: u32
  s_pa :: u32
  s_pm :: u32
  s_erased :: bool
  s_console :: bool
  s_data :: "u8 list"
  s_failed :: bool
  s_body :: bool
  s_back :: "u8 list"
  s_sealed :: bool
  s_stored :: bool

definition sess_start :: sess where
  "sess_start = \<lparr>s_held = None, s_views = [], s_geom = False, s_base = 0, s_pa = 0, s_pm = 0,
     s_erased = False, s_console = False, s_data = [], s_failed = False, s_body = False, s_back = [],
     s_sealed = False, s_stored = False\<rparr>"

definition body_of :: "u8 list \<Rightarrow> sess \<Rightarrow> u8 list" where
  "body_of name s = take BLOB_BODY_SIZE (body_page (s_base s)
     (zero_info\<lparr>bi_name := name, bi_length := of_nat (length (s_data s)), bi_crc32 := crc32_update 0 (s_data s)\<rparr>)
     (replicate (BLOB_NAME_MAX - length name) 0))"

definition program_step :: "u8 list \<Rightarrow> u32 \<Rightarrow> u8 list \<Rightarrow> int \<Rightarrow> sess \<Rightarrow> sess option" where
  "program_step name addr d rc s =
     (let s' = s\<lparr>s_failed := (rc \<noteq> 0)\<rparr> in
      if s_failed s \<or> \<not> s_erased s \<or> s_sealed s then None
      else if s_console s
      then (if addr = s_pa s + of_nat (length (s_data s)) \<and> length (s_data s) + length d \<le> unat (s_pm s)
            then Some (s'\<lparr>s_data := s_data s @ (if rc = 0 then d else [])\<rparr>) else None)
      else if \<not> s_body s
      then (if addr = s_base s + of_nat BLOB_HDR_PAGE \<and> d = body_of name s
            then Some (s'\<lparr>s_body := True\<rparr>) else None)
      else if addr = s_base s \<and> d = magic_bytes \<and> length (s_back s) = length (s_data s) \<and>
              crc32_update 0 (s_back s) = crc32_update 0 (s_data s)
      then Some (s'\<lparr>s_sealed := True, s_stored := (rc = 0)\<rparr>)
      else None)"

definition sess_step :: "u8 list \<Rightarrow> int \<Rightarrow> event \<Rightarrow> sess \<Rightarrow> sess option" where
  "sess_step name want e s =
     (let idle = (s_held s = None); guard = (\<lambda>b s'. if b then Some s' else None) in
      case e of
        E_console_ready rc \<Rightarrow> guard idle s
      | E_slot_count n \<Rightarrow> guard idle s
      | E_reserve rc token \<Rightarrow>
          guard (idle \<and> \<not> s_geom s) (if rc = 0 \<and> token \<noteq> 0 then s\<lparr>s_held := Some token\<rparr> else s)
      | E_unreserve token \<Rightarrow> guard (s_held s = Some token \<and> \<not> s_console s) (s\<lparr>s_held := None\<rparr>)
      | E_stat i rc info \<Rightarrow>
          guard (\<not> idle \<and> \<not> s_geom s \<and> i = length (s_views s))
            (s\<lparr>s_views := s_views s @ [\<lparr>sv_state = bi_state info,
                 sv_match = (bi_state info = BLOB_VALID \<and> bi_name info = name)\<rparr>]\<rparr>)
      | E_geometry i rc base pa pm \<Rightarrow>
          guard (\<not> idle \<and> \<not> s_geom s \<and> snd (blob_choose_target (Some (s_views s)) want) = Some i)
            (s\<lparr>s_geom := (rc = 0), s_base := base, s_pa := pa, s_pm := pm\<rparr>)
      | E_announce i base n \<Rightarrow> guard (\<not> idle \<and> s_geom s \<and> \<not> s_erased s \<and> base = s_base s) s
      | E_erase token base n rc cancelled \<Rightarrow>
          guard (s_held s = Some token \<and> s_geom s \<and> \<not> s_erased s \<and> base = s_base s \<and>
                 n = (s_pa s - s_base s) + s_pm s)
            (s\<lparr>s_erased := (rc = 0 \<and> \<not> cancelled)\<rparr>)
      | E_claim rc \<Rightarrow> guard (\<not> idle \<and> s_erased s \<and> \<not> s_console s \<and> \<not> s_body s) (s\<lparr>s_console := (rc = 0)\<rparr>)
      | E_release \<Rightarrow> guard (s_console s) (s\<lparr>s_console := False\<rparr>)
      | E_receive \<Rightarrow> guard (s_console s) s
      | E_note sender n \<Rightarrow> guard (s_console s) s
      | E_program token addr d rc \<Rightarrow> if s_held s = Some token then program_step name addr d rc s else None
      | E_read_back addr d rc \<Rightarrow>
          guard (\<not> idle \<and> s_body s \<and> \<not> s_failed s \<and> \<not> s_console s \<and> addr = s_pa s + of_nat (length (s_back s)))
            (if rc = 0 then s\<lparr>s_back := s_back s @ d\<rparr> else s))"

definition session :: "u8 list \<Rightarrow> int \<Rightarrow> event list \<Rightarrow> sess option" where
  "session name want log = foldl (\<lambda>s e. Option.bind s (sess_step name want e)) (Some sess_start) log"

section \<open>The run is a legal session\<close>

lemma session_snoc: "session name want (log @ [e]) = Option.bind (session name want log) (sess_step name want e)"
  by (simp add: session_def)

lemma session_snoc2: "session name want (log @ [d, e]) =
    Option.bind (Option.bind (session name want log) (sess_step name want d)) (sess_step name want e)"
  by (simp add: session_def)

lemma logged_simps [simp]:
  "w_log (logged e w) = w_log w @ [e]" "w_rep (logged e w) = w_rep w" "w_bk (logged e w) = w_bk w"
  "w_stage (logged e w) = w_stage w" "w_token (logged e w) = w_token w" "w_staged (logged e w) = w_staged w"
  "w_payload_addr (logged e w) = w_payload_addr w" "w_programmed (logged e w) = w_programmed w"
  "w_broken (logged e w) = w_broken w" "w_prog_failed (logged e w) = w_prog_failed w"
  "w_log (count_transaction w) = w_log w" "w_bk (count_transaction w) = w_bk w"
  "w_stage (count_transaction w) = w_stage w" "w_token (count_transaction w) = w_token w"
  "w_staged (count_transaction w) = w_staged w" "w_payload_addr (count_transaction w) = w_payload_addr w"
  "w_programmed (count_transaction w) = w_programmed w" "w_broken (count_transaction w) = w_broken w"
  "w_prog_failed (count_transaction w) = w_prog_failed w"
  by (simp_all add: logged_def count_transaction_def)

text \<open>While the payload arrives: the log is legal and programmed what was accepted.\<close>

definition rx_core :: "u8 list \<Rightarrow> int \<Rightarrow> u32 \<Rightarrow> u8 list \<Rightarrow> wr \<Rightarrow> sess \<Rightarrow> bool" where
  "rx_core name want base acc w s \<longleftrightarrow>
     session name want (w_log w) = Some s \<and> s_held s = Some (w_token w) \<and> s_geom s \<and> s_erased s \<and>
     s_console s \<and> \<not> s_body s \<and> \<not> s_sealed s \<and> \<not> s_stored s \<and> s_back s = [] \<and> s_base s = base \<and>
     s_pa s = w_payload_addr w \<and> w_programmed w = of_nat (length (s_data s)) \<and>
     wr_inv (s_pm s) acc (w_bk w)"

definition rx_quiet :: "u8 list \<Rightarrow> wr \<Rightarrow> sess \<Rightarrow> bool" where
  "rx_quiet acc w s \<longleftrightarrow> \<not> w_broken w \<and> \<not> s_failed s \<and> w_staged w < length (w_stage w) \<and>
     acc = s_data s @ take (w_staged w) (w_stage w)"

lemma wr_inv_capacity: "wr_inv cap acc bk \<Longrightarrow> length acc \<le> unat cap \<and> bw_capacity bk = cap"
  by (auto simp: wr_inv_def word_le_nat_alt)

lemma flush_sim:
  assumes core: "rx_core name want base acc w s" and "\<not> w_broken w" "\<not> s_failed s"
    and acc: "acc = s_data s @ take (w_staged w) (w_stage w) @ rest" and "w_staged w \<le> length (w_stage w)"
  shows "\<exists>ok w' s'. flush env w = Some (ok, w') \<and> rx_core name want base acc w' s' \<and> w_stage w' = w_stage w \<and>
    w_token w' = w_token w \<and>
    (if ok then w_staged w' = 0 \<and> \<not> w_broken w' \<and> \<not> s_failed s' \<and> acc = s_data s' @ rest \<and> w_bk w' = w_bk w
     else w_broken w')"
proof (cases "w_staged w = 0")
  case True
  then show ?thesis using assms by (intro exI [of _ True] exI [of _ w] exI [of _ s]) (simp add: flush_def)
next
  case False
  let ?d = "take (w_staged w) (w_stage w)"
  let ?addr = "w_payload_addr w + w_programmed w"
  define rc where "rc = r_program env (w_log w) ?addr ?d"
  let ?s = "s\<lparr>s_failed := (rc \<noteq> 0), s_data := s_data s @ (if rc = 0 then ?d else [])\<rparr>"
  have "length (s_data s) + length ?d \<le> unat (s_pm s)"
    using core acc wr_inv_capacity [of "s_pm s" acc "w_bk w"] by (simp add: rx_core_def)
  then have s: "session name want (w_log w @ [E_program (w_token w) ?addr ?d rc]) = Some ?s"
    using core assms(3) by (simp add: rx_core_def session_snoc sess_step_def program_step_def Let_def)
  have wi: "wr_inv (s_pm s) acc (w_bk w)" using core by (simp add: rx_core_def)
  have "\<exists>ok w'. (flush env w = Some (ok, w')) \<and>
      (ok \<longleftrightarrow> rc = 0) \<and>
      (w_log w' = w_log w @ [E_program (w_token w) ?addr ?d rc]) \<and>
      (w_stage w' = w_stage w) \<and>
      (w_token w' = w_token w) \<and>
      (w_payload_addr w' = w_payload_addr w) \<and>
      (w_programmed w' = (if rc = 0 then w_programmed w + of_nat (w_staged w) else w_programmed w)) \<and>
      (w_staged w' = (if rc = 0 then 0 else w_staged w)) \<and>
      (w_broken w' \<longleftrightarrow> rc \<noteq> 0) \<and>
      (w_bk w' = (if rc = 0 then w_bk w else blob_write_break (w_bk w)))"
    using False assms(2,5)
    by (cases "rc = 0"; simp add: flush_def call_program_def rc_def [symmetric] Let_def; blast)
  then obtain ok w' where f: "flush env w = Some (ok, w')" "ok \<longleftrightarrow> rc = 0"
    "w_log w' = w_log w @ [E_program (w_token w) ?addr ?d rc]" "w_stage w' = w_stage w" "w_token w' = w_token w"
    "w_payload_addr w' = w_payload_addr w"
    "w_programmed w' = (if rc = 0 then w_programmed w + of_nat (w_staged w) else w_programmed w)"
    "w_staged w' = (if rc = 0 then 0 else w_staged w)" "w_broken w' \<longleftrightarrow> rc \<noteq> 0"
    "w_bk w' = (if rc = 0 then w_bk w else blob_write_break (w_bk w))" by blast
  have "rx_core name want base acc w' ?s"
    using core s f assms(5) wr_inv_break [OF wi]
    by (auto simp: rx_core_def blob_write_break_def min_def)
  with f assms(2,3) acc show ?thesis
    by (intro exI [of _ ok] exI [of _ w'] exI [of _ ?s]) simp
qed

lemma rx_core_cong:
  "rx_core name want base acc w s \<Longrightarrow> w_log w' = w_log w \<Longrightarrow> w_token w' = w_token w \<Longrightarrow>
    w_payload_addr w' = w_payload_addr w \<Longrightarrow> w_programmed w' = w_programmed w \<Longrightarrow> w_bk w' = w_bk w \<Longrightarrow>
    rx_core name want base acc w' s"
  by (simp add: rx_core_def)

lemma sink_copy_sim:
  assumes "rx_core name want base acc w s" "\<not> w_broken w" "\<not> s_failed s"
    and "acc = s_data s @ take (w_staged w) (w_stage w) @ rest" "w_staged w < length (w_stage w)"
  shows "\<exists>ok w' s'. sink_copy env rest w = Some (ok, w') \<and> rx_core name want base acc w' s' \<and>
    length (w_stage w') = length (w_stage w) \<and> w_token w' = w_token w \<and>
    (if ok then rx_quiet acc w' s' else w_broken w')"
  using assms
proof (induction "length rest" arbitrary: rest w s rule: less_induct)
  case less
  show ?case
  proof (cases "rest = []")
    case True
    then show ?thesis
      using less.prems by (subst sink_copy.simps) (auto simp: rx_quiet_def)
  next
    case False
    define n where "n = min (length rest) (length (w_stage w) - w_staged w)"
    define w1 where "w1 = w\<lparr>w_stage := take (w_staged w) (w_stage w) @ take n rest @ drop (w_staged w + n) (w_stage w),
        w_staged := w_staged w + n\<rparr>"
    have n: "0 < n" "n \<le> length rest" "w_staged w + n \<le> length (w_stage w)"
      using False less.prems(5) by (auto simp: n_def)
    have w1: "length (w_stage w1) = length (w_stage w)" "w_staged w1 = w_staged w + n"
      "take (w_staged w1) (w_stage w1) = take (w_staged w) (w_stage w) @ take n rest"
      "w_token w1 = w_token w" "\<not> w_broken w1"
      using n less.prems(2) by (simp_all add: w1_def)
    have c1: "rx_core name want base acc w1 s"
      using less.prems(1) by (rule rx_core_cong) (simp_all add: w1_def)
    have a1: "acc = s_data s @ take (w_staged w1) (w_stage w1) @ drop n rest"
      using less.prems(4) by (simp add: w1(3))
    have shorter: "length (drop n rest) < length rest" using n(1) False by simp
    have unf: "sink_copy env rest w =
        (if w_staged w1 = length (w_stage w1)
         then Option.bind (flush env w1) (\<lambda>r. if \<not> fst r then Some (False, snd r) else sink_copy env (drop n rest) (snd r))
         else sink_copy env (drop n rest) w1)"
      using False n by (subst sink_copy.simps) (simp add: n_def [symmetric] w1_def cpy_def min_absorb2 Let_def)
    show ?thesis
    proof (cases "w_staged w1 = length (w_stage w1)")
      case full: True
      obtain ok w2 s2 where f: "flush env w1 = Some (ok, w2)" "rx_core name want base acc w2 s2"
        "w_stage w2 = w_stage w1" "w_token w2 = w_token w1"
        "if ok then w_staged w2 = 0 \<and> \<not> w_broken w2 \<and> \<not> s_failed s2 \<and> acc = s_data s2 @ drop n rest \<and> w_bk w2 = w_bk w1
         else w_broken w2"
        using flush_sim [OF c1 w1(5) less.prems(3) a1, of env] full by auto
      show ?thesis
      proof (cases ok)
        case True
        have 5: "w_staged w2 < length (w_stage w2)" using f(3,5) True w1(1) less.prems(5) by auto
        have q: "\<not> w_broken w2" "\<not> s_failed s2" "acc = s_data s2 @ take (w_staged w2) (w_stage w2) @ drop n rest"
          using f(5) True by simp_all
        have "sink_copy env rest w = sink_copy env (drop n rest) w2"
          unfolding unf using full f(1) True by simp
        moreover have "length (w_stage w2) = length (w_stage w)" "w_token w2 = w_token w"
          using f(3,4) w1(1,4) by simp_all
        ultimately show ?thesis using less.hyps [OF shorter f(2) q 5] by simp
      next
        case False
        then have "sink_copy env rest w = Some (False, w2)" unfolding unf using full f(1) by simp
        with f w1 False show ?thesis by (intro exI [of _ False] exI [of _ w2] exI [of _ s2]) simp
      qed
    next
      case False
      then have "w_staged w1 < length (w_stage w1)" using n(3) w1(1,2) by simp
      with less.hyps [OF shorter c1 w1(5) less.prems(3) a1] w1 False show ?thesis
        unfolding unf by simp
    qed
  qed
qed

definition call_ok :: "sink_call \<Rightarrow> bool" where
  "call_ok c = (case c of SC_write (Some d) n \<Rightarrow> unat n \<le> length d | _ \<Rightarrow> True)"

definition rx_ok :: "u8 list \<Rightarrow> int \<Rightarrow> u32 \<Rightarrow> nat \<Rightarrow> u32 \<Rightarrow> wr \<Rightarrow> bool" where
  "rx_ok name want base n token w \<longleftrightarrow> w_token w = token \<and> length (w_stage w) = n \<and>
     (\<exists>acc s. rx_core name want base acc w s \<and> (\<not> w_broken w \<longrightarrow> rx_quiet acc w s))"

lemma rx_core_bk:
  assumes "rx_core name want base acc w s" "wr_inv (s_pm s) acc' bk"
  shows "rx_core name want base acc' (w\<lparr>w_bk := bk\<rparr>) s"
  using assms by (simp add: rx_core_def)

lemma sink_begin_sim:
  assumes "rx_ok name want base n token w"
  shows "rx_ok name want base n token (snd (sink_begin env sender bytes w))"
proof -
  obtain acc s where c: "rx_core name want base acc w s" "\<not> w_broken w \<Longrightarrow> rx_quiet acc w s"
    and t: "w_token w = token" "length (w_stage w) = n"
    using assms by (auto simp: rx_ok_def)
  let ?w = "if r_notes env then logged (E_note sender bytes) w else w"
  let ?bk = "snd (blob_write_begin (w_bk w) bytes)"
  have c1: "rx_core name want base acc ?w s"
    using c(1) by (auto simp: rx_core_def session_snoc sess_step_def)
  have "wr_inv (s_pm s) (acc @ wr_bytes (W_begin bytes) (w_bk w)) (snd (wr_exec (W_begin bytes) (w_bk w)))"
    using c(1) by (intro wr_inv_step) (simp_all add: rx_core_def wr_call_def)
  then have c2: "rx_core name want base acc (?w\<lparr>w_bk := ?bk\<rparr>) s"
    using rx_core_bk [OF c1] by (simp add: wr_bytes_def wr_exec_def)
  obtain w' where w': "snd (sink_begin env sender bytes w) = w'" "w_log w' = w_log ?w" "w_bk w' = ?bk"
    "w_token w' = w_token w" "w_stage w' = w_stage w" "w_staged w' = w_staged w"
    "w_programmed w' = w_programmed w" "w_payload_addr w' = w_payload_addr w" "w_broken w \<longrightarrow> w_broken w'"
    by (simp add: sink_begin_def Let_def case_prod_beta)
  have "rx_core name want base acc w' s"
    using c2 by (rule rx_core_cong) (simp_all add: w')
  moreover have "\<not> w_broken w' \<longrightarrow> rx_quiet acc w' s"
    using c(2) w' by (auto simp: rx_quiet_def)
  ultimately show ?thesis using t w' by (auto simp: rx_ok_def)
qed

lemma sink_write_sim:
  assumes "rx_ok name want base n token w" "call_ok (SC_write data len)"
  shows "\<exists>ok w'. sink_write env data len w = Some (ok, w') \<and> rx_ok name want base n token w'"
proof (cases "w_broken w")
  case True
  then show ?thesis using assms(1) by (auto simp: sink_write_def)
next
  case False
  obtain acc s where c: "rx_core name want base acc w s" "rx_quiet acc w s"
    and t: "w_token w = token" "length (w_stage w) = n"
    using assms(1) False by (auto simp: rx_ok_def)
  obtain v bk where b: "blob_write_data (w_bk w) data len = (v, bk)" by fastforce
  have i: "wr_inv (s_pm s) (acc @ wr_bytes (W_data data len) (w_bk w)) bk"
    using wr_inv_step [of "s_pm s" acc "w_bk w" "W_data data len"] c(1) assms(2) b
    by (auto simp: rx_core_def wr_call_def call_ok_def wr_exec_def)
  let ?w = "w\<lparr>w_bk := bk\<rparr>"
  have core: "rx_core name want base (acc @ wr_bytes (W_data data len) (w_bk w)) ?w s"
    using rx_core_bk [OF c(1) i] .
  show ?thesis
  proof (cases "v = BLOB_WR_OK")
    case bad: False
    have "rx_core name want base (acc @ wr_bytes (W_data data len) (w_bk w)) (?w\<lparr>w_broken := True\<rparr>) s"
      using core by (rule rx_core_cong) simp_all
    then have "rx_ok name want base n token (?w\<lparr>w_broken := True\<rparr>)" using t by (auto simp: rx_ok_def)
    with False bad b show ?thesis by (auto simp: sink_write_def)
  next
    case ok: True
    show ?thesis
    proof (cases data)
      case None
      have "len = 0"
        using b ok None by (auto simp: blob_write_data_def split: if_splits)
      moreover have "rx_ok name want base n token ?w"
        using core c t None by (auto simp: rx_ok_def rx_quiet_def wr_bytes_def)
      ultimately show ?thesis using False ok b None by (auto simp: sink_write_def)
    next
      case (Some d)
      have len: "unat len \<le> length d" using assms(2) Some by (simp add: call_ok_def)
      have bytes: "wr_bytes (W_data data len) (w_bk w) = take (unat len) d"
        using b ok Some by (simp add: wr_bytes_def wr_exec_def)
      have q: "\<not> w_broken ?w" "\<not> s_failed s" "w_staged ?w < length (w_stage ?w)"
        "acc @ take (unat len) d = s_data s @ take (w_staged ?w) (w_stage ?w) @ take (unat len) d"
        using c(2) by (simp_all add: rx_quiet_def)
      obtain r w' s' where f: "sink_copy env (take (unat len) d) ?w = Some (r, w')"
        "rx_core name want base (acc @ take (unat len) d) w' s'"
        "length (w_stage w') = length (w_stage ?w)" "w_token w' = w_token ?w"
        "if r then rx_quiet (acc @ take (unat len) d) w' s' else w_broken w'"
        using sink_copy_sim [OF core [unfolded bytes] q(1,2,4,3), of env] by blast
      then have "rx_ok name want base n token w'"
        using t by (cases r) (auto simp: rx_ok_def)
      with f(1) False ok b Some len show ?thesis by (simp add: sink_write_def)
    qed
  qed
qed

lemma sink_calls_sim:
  "rx_ok name want base n token w \<Longrightarrow> list_all call_ok cs \<Longrightarrow>
    \<exists>w'. sink_calls env cs w = Some w' \<and> rx_ok name want base n token w'"
proof (induction cs arbitrary: w)
  case (Cons c cs)
  have "\<exists>ok w'. sink_call env c w = Some (ok, w') \<and> rx_ok name want base n token w'"
  proof (cases c)
    case (SC_begin sender bytes)
    then show ?thesis
      using sink_begin_sim [OF Cons.prems(1), of env sender bytes]
      by (cases "sink_begin env sender bytes w") (simp add: sink_call_def)
  next
    case (SC_write data len)
    then show ?thesis using sink_write_sim [OF Cons.prems(1), of data len env] Cons.prems(2)
      by (simp add: sink_call_def)
  qed
  then obtain ok w' where "sink_call env c w = Some (ok, w')" "rx_ok name want base n token w'" by blast
  with Cons.IH [of w'] Cons.prems(2) show ?case by simp
qed simp

text \<open>After the batch: the header pages and the read-back.\<close>

definition fin_core :: "u8 list \<Rightarrow> int \<Rightarrow> u32 \<Rightarrow> wr \<Rightarrow> sess \<Rightarrow> bool" where
  "fin_core name want base w s \<longleftrightarrow>
     session name want (w_log w) = Some s \<and> s_held s = Some (w_token w) \<and> s_erased s \<and> \<not> s_console s \<and>
     \<not> s_sealed s \<and> \<not> s_stored s \<and> s_base s = base \<and> s_pa s = w_payload_addr w \<and>
     unat (bw_received (w_bk w)) = length (s_data s) \<and> bw_crc (w_bk w) = crc32_update 0 (s_data s)"

text \<open>The result of the tail of a run: a legal log that has given the console back.\<close>

definition fin_post :: "u8 list \<Rightarrow> int \<Rightarrow> u32 \<Rightarrow> blob_write_result \<Rightarrow> bool \<Rightarrow> wr \<Rightarrow> bool" where
  "fin_post name want token res claimed w \<longleftrightarrow> w_token w = token \<and>
     (\<exists>s. session name want (w_log w) = Some s \<and> s_held s = Some token \<and> s_console s = claimed \<and>
       (res = BLOB_WRITE_STORED \<longleftrightarrow> s_stored s))"

lemma write_body_sim:
  assumes "fin_core name want base w s" "\<not> s_failed s" "\<not> s_body s" "s_back s = []"
    "256 \<le> length (w_stage w)"
  shows "\<exists>ok w' s'. write_body env name base w = Some (ok, w') \<and> fin_core name want base w' s' \<and>
    length (w_stage w') = length (w_stage w) \<and> w_token w' = w_token w \<and> s_back s' = [] \<and>
    (ok \<longrightarrow> s_body s' \<and> \<not> s_failed s')"
proof (cases "length name \<le> BLOB_NAME_MAX")
  case False
  then show ?thesis using assms by (auto simp: write_body_def)
next
  case True
  define info where "info = zero_info\<lparr>bi_name := name, bi_length := bw_received (w_bk w), bi_crc32 := bw_crc (w_bk w)\<rparr>"
  obtain r page where e: "blob_hdr_encode_body (Some (w_stage w)) base (bw_capacity (w_bk w)) (Some info) = (r, page)"
    by fastforce
  have len: "length page = length (w_stage w)"
    using e assms(5) by (auto simp: blob_hdr_encode_body_def blob_name_check_ok Let_def body_fields_def blob_sizes
        split: if_splits)
  have core: "fin_core name want base (w\<lparr>w_stage := page\<rparr>) s" using assms(1) by (simp add: fin_core_def)
  show ?thesis
  proof (cases "r = BLOB_REJECT_NONE")
    case False
    with True e core assms len show ?thesis
      by (intro exI [of _ False] exI [of _ "w\<lparr>w_stage := page\<rparr>"] exI [of _ s])
        (simp add: write_body_def info_def [symmetric])
  next
    case ok: True
    obtain q where q: "page = body_page base info (replicate (64 - length name) 0) @ q"
      "length (name @ replicate (64 - length name) 0) = 64"
      using encode_body_page [of "w_stage w" base "bw_capacity (w_bk w)" info page] e ok by (auto simp: info_def)
    have "of_nat (length (s_data s)) = bw_received (w_bk w)"
    proof -
      have "of_nat (unat (bw_received (w_bk w))) = bw_received (w_bk w)" by simp
      then show ?thesis using assms(1) unfolding fin_core_def by metis
    qed
    then have b: "take 88 page = body_of name s"
      using q length_body_page [of info "replicate (64 - length name) 0" base] assms(1)
      by (simp add: body_of_def info_def fin_core_def blob_sizes)
    define rc where "rc = r_program env (w_log w) (base + 256) (take 88 page)"
    let ?w = "logged (E_program (w_token w) (base + 256) (take 88 page) rc) (count_transaction (w\<lparr>w_stage := page\<rparr>))"
    let ?s = "s\<lparr>s_failed := (rc \<noteq> 0), s_body := True\<rparr>"
    have "\<not> 88 > length page" using len assms(5) by simp
    then have w: "write_body env name base w = Some (rc = 0, ?w)"
      using True e ok
      by (simp add: write_body_def info_def [symmetric] call_program_def blob_sizes rc_def Let_def)
    have "fin_core name want base ?w ?s"
      using assms(1-4) b
      by (simp add: fin_core_def session_snoc sess_step_def program_step_def Let_def blob_sizes count_transaction_def)
    with w len assms(4) show ?thesis
      by (intro exI [of _ "rc = 0"] exI [of _ ?w] exI [of _ ?s]) simp
  qed
qed

lemma verify_loop_sim:
  assumes "fin_core name want base w s" "\<not> s_failed s" "s_body s" "off = length (s_back s)"
    "crc = crc32_update 0 (s_back s)" "off \<le> length (s_data s)" "0 < length (w_stage w)"
  shows "\<exists>c w' s'. verify_loop env off crc w = Some (c, w') \<and> fin_core name want base w' s' \<and>
    length (w_stage w') = length (w_stage w) \<and> w_token w' = w_token w \<and> w_bk w' = w_bk w \<and>
    s_body s' \<and> \<not> s_failed s' \<and>
    (c \<noteq> None \<longrightarrow> length (s_back s') = length (s_data s') \<and> c = Some (crc32_update 0 (s_back s')))"
  using assms
proof (induction "length (s_data s) - off" arbitrary: off crc w s rule: less_induct)
  case less
  have rec: "unat (bw_received (w_bk w)) = length (s_data s)" using less.prems(1) by (simp add: fin_core_def)
  show ?case
  proof (cases "off < length (s_data s)")
    case False
    with less.prems rec show ?thesis
      by (subst verify_loop.simps)
        (intro exI [of _ "Some crc"] exI [of _ w] exI [of _ s], simp)
  next
    case True
    define n where "n = min (length (s_data s) - off) (length (w_stage w))"
    define addr where "addr = w_payload_addr w + of_nat off"
    obtain rc w1 where r: "call_read_back env addr n w = (rc, w1)" by fastforce
    have n: "0 < n" "n \<le> length (w_stage w)" "off + n \<le> length (s_data s)"
      using True less.prems(7) by (auto simp: n_def)
    have w1: "w_log w1 = w_log w @ [E_read_back addr (take n (w_stage w1)) rc]" "w_token w1 = w_token w"
      "w_bk w1 = w_bk w" "w_payload_addr w1 = w_payload_addr w" "length (w_stage w1) = length (w_stage w)"
      using r n(2) by (auto simp: call_read_back_def Let_def case_prod_beta min_def)
    let ?s = "if rc = 0 then s\<lparr>s_back := s_back s @ take n (w_stage w1)\<rparr> else s"
    have core: "fin_core name want base w1 ?s"
      using less.prems(1-4) w1
      by (auto simp: fin_core_def session_snoc sess_step_def addr_def)
    have unf: "verify_loop env off crc w =
        (if rc \<noteq> 0 then Some (None, w1)
         else verify_loop env (off + n) (crc32_update crc (take n (w_stage w1))) w1)"
      using True rec by (subst verify_loop.simps) (simp add: n_def [symmetric] addr_def [symmetric] r Let_def)
    show ?thesis
    proof (cases "rc = 0")
      case False
      with core w1 less.prems unf show ?thesis
        by (intro exI [of _ None] exI [of _ w1] exI [of _ s]) simp
    next
      case ok: True
      let ?s1 = "s\<lparr>s_back := s_back s @ take n (w_stage w1)\<rparr>"
      have 1: "length (s_data ?s1) - (off + n) < length (s_data s) - off" using n True by simp
      have 2: "fin_core name want base w1 ?s1" using core ok by simp
      have 3: "off + n = length (s_back ?s1)" using less.prems(4) n w1(5) by simp
      have 4: "crc32_update crc (take n (w_stage w1)) = crc32_update 0 (s_back ?s1)"
        using less.prems(5) by (simp add: crc32_update_append)
      show ?thesis
        using less.hyps [OF 1 2 _ _ 3 4] less.prems(2,3,7) n(3) w1 ok unfolding unf by simp
    qed
  qed
qed

lemma verify_payload_sim:
  assumes "fin_core name want base w s" "\<not> s_failed s" "s_body s" "s_back s = []" "0 < length (w_stage w)"
  shows "\<exists>ok w' s'. verify_payload env w = Some (ok, w') \<and> fin_core name want base w' s' \<and>
    length (w_stage w') = length (w_stage w) \<and> w_token w' = w_token w \<and> s_body s' \<and> \<not> s_failed s' \<and>
    (ok \<longrightarrow> length (s_back s') = length (s_data s') \<and> crc32_update 0 (s_back s') = crc32_update 0 (s_data s'))"
proof -
  obtain c w' s' where v: "verify_loop env 0 0 w = Some (c, w')" "fin_core name want base w' s'"
    "length (w_stage w') = length (w_stage w)" "w_token w' = w_token w" "s_body s'" "\<not> s_failed s'"
    "c \<noteq> None \<longrightarrow> length (s_back s') = length (s_data s') \<and> c = Some (crc32_update 0 (s_back s'))"
    using verify_loop_sim [OF assms(1-3), of 0 0 env] assms(4,5) by (auto simp: crc32_update_def)
  show ?thesis
  proof (cases c)
    case None
    with v show ?thesis
      by (intro exI [of _ False] exI [of _ w'] exI [of _ s']) (simp add: verify_payload_def)
  next
    case (Some d)
    let ?w = "w'\<lparr>w_rep := (w_rep w')\<lparr>rp_verified := d\<rparr>\<rparr>"
    have "fin_core name want base ?w s'" using v(2) by (simp add: fin_core_def)
    with v Some show ?thesis
      by (intro exI [of _ "d = bw_crc (w_bk w')"] exI [of _ ?w] exI [of _ s'])
        (simp add: verify_payload_def fin_core_def)
  qed
qed

lemma write_magic_sim:
  assumes "fin_core name want base w s" "\<not> s_failed s" "s_body s" "256 \<le> length (w_stage w)"
    and "length (s_back s) = length (s_data s)" "crc32_update 0 (s_back s) = crc32_update 0 (s_data s)"
  shows "\<exists>ok w' s'. write_magic env base w = Some (ok, w') \<and> w_token w' = w_token w \<and>
    session name want (w_log w') = Some s' \<and> s_held s' = Some (w_token w) \<and> \<not> s_console s' \<and> s_stored s' = ok"
proof -
  define page where "page = magic_bytes @ replicate 248 0xFF @ drop 256 (w_stage w)"
  have m: "length magic_bytes = 8" by (simp add: magic_bytes_def str_def)
  have e: "blob_hdr_encode_magic (Some (w_stage w)) = (BLOB_REJECT_NONE, page)"
    using assms(4) by (simp add: blob_hdr_encode_magic_def page_def blob_sizes)
  have p: "take 8 page = magic_bytes" "\<not> 8 > length page" by (simp_all add: page_def m)
  define rc where "rc = r_program env (w_log w) base magic_bytes"
  let ?w = "logged (E_program (w_token w) base magic_bytes rc) (count_transaction (w\<lparr>w_stage := page\<rparr>))"
  have w: "write_magic env base w = Some (rc = 0, ?w)"
    using p by (simp add: write_magic_def e call_program_def blob_sizes rc_def Let_def)
  have "session name want (w_log ?w) = Some (s\<lparr>s_failed := (rc \<noteq> 0), s_sealed := True, s_stored := (rc = 0)\<rparr>)"
    using assms by (simp add: fin_core_def session_snoc sess_step_def program_step_def Let_def count_transaction_def)
  with w assms(1) show ?thesis
    by (intro exI [of _ "rc = 0"] exI [of _ ?w] exI)
      (auto simp: fin_core_def count_transaction_def)
qed

lemma run_commit_sim:
  assumes "fin_core name want base w s" "\<not> s_failed s" "\<not> s_body s" "s_back s = []" "256 \<le> length (w_stage w)"
  shows "\<exists>res w'. run_commit env name base w = Some (res, w') \<and> fin_post name want (w_token w) res False w'"
proof (cases "blob_write_commit_check (w_bk w) = BLOB_WR_OK")
  case False
  with assms show ?thesis by (auto simp: run_commit_def fin_post_def fin_core_def)
next
  case True
  have post: "fin_post name want (w_token w) res False w'"
    if "fin_core name want base w' s'" "w_token w' = w_token w" "res \<noteq> BLOB_WRITE_STORED" for res w' s'
    using that by (auto simp: fin_post_def fin_core_def)
  obtain ok1 w1 s1 where b: "write_body env name base w = Some (ok1, w1)" "fin_core name want base w1 s1"
    "length (w_stage w1) = length (w_stage w)" "w_token w1 = w_token w" "s_back s1 = []"
    "ok1 \<longrightarrow> s_body s1 \<and> \<not> s_failed s1"
    using write_body_sim [OF assms, of env] by blast
  show ?thesis
  proof (cases ok1)
    case no: False
    show ?thesis
      using True b(1) no post [OF b(2,4), of BLOB_WRITE_PROG_FAILED] by (simp add: run_commit_def)
  next
    case ok1: True
    have "0 < length (w_stage w1)" using b(3) assms(5) by linarith
    then obtain ok2 w2 s2 where v: "verify_payload env w1 = Some (ok2, w2)" "fin_core name want base w2 s2"
      "length (w_stage w2) = length (w_stage w1)" "w_token w2 = w_token w1" "s_body s2" "\<not> s_failed s2"
      "ok2 \<longrightarrow> length (s_back s2) = length (s_data s2) \<and> crc32_update 0 (s_back s2) = crc32_update 0 (s_data s2)"
      using verify_payload_sim [OF b(2) _ _ b(5), of env] b(6) ok1 by blast
    have t2: "w_token w2 = w_token w" using b(4) v(4) by simp
    show ?thesis
    proof (cases ok2)
      case no: False
      show ?thesis
        using True b(1) ok1 v(1) no post [OF v(2) t2, of BLOB_WRITE_VERIFY_FAILED] by (simp add: run_commit_def)
    next
      case ok2: True
      have "256 \<le> length (w_stage w2)" using assms(5) b(3) v(3) by simp
      then obtain ok3 w3 s3 where m: "write_magic env base w2 = Some (ok3, w3)" "w_token w3 = w_token w2"
        "session name want (w_log w3) = Some s3" "s_held s3 = Some (w_token w2)" "\<not> s_console s3" "s_stored s3 = ok3"
        using write_magic_sim [OF v(2,6,5), of env] v(7) ok2 by blast
      define w4 where "w4 = w3\<lparr>w_rep := (w_rep w3)\<lparr>rp_magic_failed := True\<rparr>\<rparr>"
      have w4: "w_token w4 = w_token w2" "w_log w4 = w_log w3" using m(2) by (simp_all add: w4_def)
      have "run_commit env name base w = Some (if ok3 then (BLOB_WRITE_STORED, w3) else (BLOB_WRITE_PROG_FAILED, w4))"
        using True b(1) ok1 v(1) ok2 m(1) by (simp add: run_commit_def w4_def)
      moreover have "fin_post name want (w_token w) BLOB_WRITE_STORED False w3" if ok3
        using that m t2 by (auto simp: fin_post_def)
      moreover have "fin_post name want (w_token w) BLOB_WRITE_PROG_FAILED False w4" if "\<not> ok3"
        using that m t2 w4 by (auto simp: fin_post_def)
      ultimately show ?thesis by (cases ok3) simp_all
    qed
  qed
qed

lemma run_receive_sim:
  assumes "rx_ok name want base (length (w_stage w)) (w_token w) w" "\<not> w_broken w" "256 \<le> length (w_stage w)"
    and "list_all call_ok (fst (r_receive env (w_log w)))"
  shows "\<exists>res c w'. run_receive env name base w = Some (res, c, w') \<and> fin_post name want (w_token w) res c w'"
proof -
  let ?n = "length (w_stage w)"
  obtain calls rc where r: "r_receive env (w_log w) = (calls, rc)" by fastforce
  have "rx_ok name want base ?n (w_token w) (logged E_receive w)"
    using assms(1) by (auto simp: rx_ok_def rx_core_def rx_quiet_def session_snoc sess_step_def)
  then obtain w1 where w1: "sink_calls env calls (logged E_receive w) = Some w1" "rx_ok name want base ?n (w_token w) w1"
    using sink_calls_sim assms(4) r by (metis fst_conv)
  define w2 where "w2 = report_received w1"
  have w2: "w_log w2 = w_log w1" "w_bk w2 = w_bk w1" "w_stage w2 = w_stage w1" "w_staged w2 = w_staged w1"
    "w_token w2 = w_token w1" "w_payload_addr w2 = w_payload_addr w1" "w_programmed w2 = w_programmed w1"
    "w_broken w2 = w_broken w1"
    by (simp_all add: w2_def report_received_def)
  obtain acc s where c: "rx_core name want base acc w1 s" "\<not> w_broken w1 \<longrightarrow> rx_quiet acc w1 s"
    and t: "w_token w1 = w_token w" "length (w_stage w1) = ?n"
    using w1(2) by (auto simp: rx_ok_def)
  have core: "rx_core name want base acc w2 s" using c(1) by (rule rx_core_cong) (simp_all add: w2)
  have post: "fin_post name want (w_token w) res True w'"
    if "rx_core name want base acc w' s'" "w_token w' = w_token w" "res \<noteq> BLOB_WRITE_STORED" for res w' s'
    using that by (auto simp: fin_post_def rx_core_def)
  show ?thesis
  proof (cases "rc \<noteq> 0 \<or> w_broken w2")
    case True
    let ?res = "if w_prog_failed w2 then BLOB_WRITE_PROG_FAILED else BLOB_WRITE_XFER_FAILED"
    have "run_receive env name base w = Some (?res, True, w2)"
      unfolding run_receive_def r using w1(1) True by (simp add: w2_def [symmetric] Let_def)
    moreover have "fin_post name want (w_token w) ?res True w2"
      using post [OF core, of ?res] w2(5) t(1) by simp
    ultimately show ?thesis by blast
  next
    case False
    obtain v bk where cl: "blob_write_close (w_bk w2) = (v, bk)" by fastforce
    have "wr_inv (s_pm s) (acc @ wr_bytes W_close (w_bk w2)) (snd (wr_exec W_close (w_bk w2)))"
      using core by (intro wr_inv_step) (simp_all add: rx_core_def wr_call_def)
    then have inv: "wr_inv (s_pm s) acc bk" by (simp add: wr_bytes_def wr_exec_def cl)
    define w3 where "w3 = w2\<lparr>w_bk := bk\<rparr>"
    have core3: "rx_core name want base acc w3 s" unfolding w3_def using rx_core_bk [OF core inv] .
    have unf: "run_receive env name base w =
        (if v \<noteq> BLOB_WR_OK then Some (BLOB_WRITE_XFER_FAILED, True, w3)
         else do { (ok, w) \<leftarrow> flush env w3;
            if \<not> ok then Some (BLOB_WRITE_PROG_FAILED, True, w)
            else do { (res, w) \<leftarrow> run_commit env name base (logged E_release (report_received w));
              Some (res, False, w) } })"
      unfolding run_receive_def r using w1(1) False cl by (simp add: w2_def [symmetric] w3_def Let_def)
    have t3: "w_token w3 = w_token w" by (simp add: w3_def w2 t)
    show ?thesis
    proof (cases "v = BLOB_WR_OK")
      case bad: False
      then show ?thesis unfolding unf using post [OF core3 t3, of BLOB_WRITE_XFER_FAILED] by auto
    next
      case ok: True
      have q: "\<not> w_broken w3" "\<not> s_failed s" "acc = s_data s @ take (w_staged w3) (w_stage w3) @ []"
        "w_staged w3 \<le> length (w_stage w3)"
        using c(2) False by (auto simp: rx_quiet_def w2 w3_def)
      obtain ok4 w4 s4 where f: "flush env w3 = Some (ok4, w4)" "rx_core name want base acc w4 s4"
        "w_stage w4 = w_stage w3" "w_token w4 = w_token w3"
        "if ok4 then w_staged w4 = 0 \<and> \<not> w_broken w4 \<and> \<not> s_failed s4 \<and> acc = s_data s4 @ [] \<and> w_bk w4 = w_bk w3
         else w_broken w4"
        using flush_sim [OF core3 q, of env] by blast
      show ?thesis
      proof (cases ok4)
        case no: False
        have "w_token w4 = w_token w" using f(4) t3 by simp
        then show ?thesis unfolding unf using ok f(1) no post [OF f(2), of BLOB_WRITE_PROG_FAILED] by auto
      next
        case ok4: True
        define w5 where "w5 = logged E_release (report_received w4)"
        have "wr_inv (s_pm s4) acc (w_bk w4)" using f(2) by (simp add: rx_core_def)
        then have fin: "fin_core name want base w5 (s4\<lparr>s_console := False\<rparr>)"
          using f(2,5) ok4
          by (simp add: fin_core_def rx_core_def w5_def report_received_def session_snoc sess_step_def wr_inv_def)
        have "\<not> s_body s4" "s_back s4 = []" using f(2) by (simp_all add: rx_core_def)
        moreover have "length (w_stage w5) = ?n" "w_token w5 = w_token w"
          using f(3,4) t t3 by (simp_all add: w5_def report_received_def w3_def w2)
        ultimately obtain res w6 where "run_commit env name base w5 = Some (res, w6)"
          "fin_post name want (w_token w) res False w6"
          using run_commit_sim [OF fin, of env] f(5) ok4 assms(3) by auto
        then show ?thesis unfolding unf using ok f(1) ok4 by (auto simp: w5_def [symmetric])
      qed
    qed
  qed
qed

text \<open>Before the transfer: the scan, the choice, the erase.\<close>

definition pre_core :: "u8 list \<Rightarrow> int \<Rightarrow> wr \<Rightarrow> sess \<Rightarrow> bool" where
  "pre_core name want w s \<longleftrightarrow> session name want (w_log w) = Some s \<and> s_held s = Some (w_token w) \<and>
     \<not> s_geom s \<and> \<not> s_erased s \<and> \<not> s_console s \<and> s_data s = [] \<and> \<not> s_failed s \<and> \<not> s_body s \<and>
     s_back s = [] \<and> \<not> s_sealed s \<and> \<not> s_stored s"

definition wr_fresh :: "wr \<Rightarrow> bool" where
  "wr_fresh w \<longleftrightarrow> w_staged w = 0 \<and> w_programmed w = 0 \<and> \<not> w_broken w \<and> 256 \<le> length (w_stage w)"

lemma stat_slots_sim:
  assumes "pre_core name want w s" "is = [length (s_views s)..<length (s_views s) + length is]"
  shows "\<exists>vs w' s'. stat_slots env name is w = (vs, w') \<and> pre_core name want w' s' \<and>
    w_token w' = w_token w \<and> (wr_fresh w \<longrightarrow> wr_fresh w') \<and>
    (case vs of None \<Rightarrow> True | Some v \<Rightarrow> s_views s' = s_views s @ v)"
  using assms
proof (induction "is" arbitrary: w s)
  case Nil
  then show ?case by auto
next
  case (Cons i "is")
  have i: "i = length (s_views s)" and tail: "is = [Suc (length (s_views s))..<Suc (length (s_views s)) + length is]"
    using Cons.prems(2) by (simp_all add: upt_rec)
  obtain rc info where r: "r_stat env (w_log w) i = (rc, info)" by fastforce
  let ?w = "logged (E_stat i rc info) w"
  let ?v = "\<lparr>sv_state = bi_state info, sv_match = (bi_state info = BLOB_VALID \<and> bi_name info = name)\<rparr>"
  let ?s = "s\<lparr>s_views := s_views s @ [?v]\<rparr>"
  have core: "pre_core name want ?w ?s"
    using Cons.prems(1) i by (simp add: pre_core_def session_snoc sess_step_def)
  show ?case
  proof (cases "rc = 0")
    case False
    with core r show ?thesis
      by (intro exI [of _ None] exI [of _ ?w] exI [of _ ?s]) (simp add: wr_fresh_def)
  next
    case True
    have "is = [length (s_views ?s)..<length (s_views ?s) + length is]" using tail by simp
    from Cons.IH [OF core this] obtain vs w' s' where ih: "stat_slots env name is ?w = (vs, w')" "pre_core name want w' s'"
      "w_token w' = w_token ?w" "wr_fresh ?w \<longrightarrow> wr_fresh w'"
      "case vs of None \<Rightarrow> True | Some v \<Rightarrow> s_views s' = s_views ?s @ v"
      by blast
    with True r show ?thesis
      by (intro exI [of _ "map_option (\<lambda>vs. ?v # vs) vs"] exI [of _ w'] exI [of _ s'])
        (auto simp: wr_fresh_def split: option.splits)
  qed
qed

definition env_ok :: "blob_env \<Rightarrow> bool" where
  "env_ok env \<longleftrightarrow> (\<forall>log. list_all call_ok (fst (r_receive env log)))"

lemma run_erase_sim:
  assumes "session name want (w_log w) = Some s" "s_held s = Some (w_token w)" "s_geom s"
    "\<not> s_erased s" "\<not> s_console s" "s_data s = []" "\<not> s_failed s" "\<not> s_body s" "s_back s = []"
    "\<not> s_sealed s" "\<not> s_stored s" "s_base s = base" "s_pa s = pa" "s_pm s = pm" "wr_fresh w" "env_ok env"
  shows "\<exists>res c w'. run_erase env name target base pa pm w = Some (res, c, w') \<and>
    fin_post name want (w_token w) res c w'"
proof -
  let ?len = "(pa - base) + pm"
  define w1 where "w1 = w\<lparr>w_payload_addr := pa, w_bk := blob_write_arm (w_bk w) target pm\<rparr>"
  define w2 where "w2 = count_transaction (if r_announces env then logged (E_announce target base ?len) w1 else w1)"
  obtain rc erased cancelled where r: "r_erase env (w_log w2) = (rc, erased, cancelled)" by (metis prod_cases3)
  define w3 where "w3 = logged (E_erase (w_token w2) base ?len rc cancelled) w2"
  define w4 where "w4 = w3\<lparr>w_rep := (w_rep w3)\<lparr>rp_erased := erased, rp_vendor_rc := rc\<rparr>\<rparr>"
  have w4: "w_log w4 = w_log w2 @ [E_erase (w_token w) base ?len rc cancelled]" "w_token w4 = w_token w"
    "w_bk w4 = blob_write_arm (w_bk w) target pm" "w_payload_addr w4 = pa" "w_stage w4 = w_stage w"
    "w_staged w4 = 0" "w_programmed w4 = 0" "\<not> w_broken w4"
    using assms(15) by (simp_all add: w4_def w3_def w2_def w1_def wr_fresh_def)
  let ?s = "s\<lparr>s_erased := (rc = 0 \<and> \<not> cancelled)\<rparr>"
  have "session name want (w_log w2) = Some s"
    using assms(1-4,12) by (simp add: w2_def w1_def session_snoc sess_step_def)
  then have s4: "session name want (w_log w4) = Some ?s"
    using assms by (simp add: w4(1) session_snoc sess_step_def)
  define rc2 where "rc2 = r_claim env (w_log w4)"
  define w5 where "w5 = logged (E_claim rc2) w4"
  have unf: "run_erase env name target base pa pm w =
      (if cancelled then Some (BLOB_WRITE_CANCELLED, False, w4)
       else if rc \<noteq> 0 then Some (BLOB_WRITE_ERASE_FAILED, False, w4)
       else if rc2 \<noteq> 0 then Some (BLOB_WRITE_NO_CONSOLE, False, w5)
       else run_receive env name base w5)"
    unfolding run_erase_def Let_def w1_def [symmetric] w2_def [symmetric] r prod.case w3_def [symmetric]
      w4_def [symmetric] rc2_def [symmetric] w5_def [symmetric] ..
  show ?thesis
  proof (cases "cancelled \<or> rc \<noteq> 0")
    case True
    have "fin_post name want (w_token w) res False w4" if "res \<noteq> BLOB_WRITE_STORED" for res
      using s4 w4(2) assms that by (auto simp: fin_post_def)
    with True show ?thesis unfolding unf by (cases cancelled) auto
  next
    case False
    let ?s5 = "?s\<lparr>s_console := (rc2 = 0)\<rparr>"
    have s5: "session name want (w_log w5) = Some ?s5"
      using s4 False assms by (simp add: w5_def session_snoc sess_step_def)
    show ?thesis
    proof (cases "rc2 = 0")
      case no: False
      have "fin_post name want (w_token w) BLOB_WRITE_NO_CONSOLE False w5"
        using s5 w4(2) assms no by (auto simp: fin_post_def w5_def)
      with no False show ?thesis unfolding unf by auto
    next
      case True
      have core: "rx_core name want base [] w5 ?s5"
        using s5 w4 assms False True wr_inv_arm [of pm "w_bk w" target]
        by (simp add: rx_core_def w5_def)
      have "rx_ok name want base (length (w_stage w5)) (w_token w5) w5"
      proof -
        have "rx_quiet [] w5 ?s5"
          using assms(6,7,15) w4 by (auto simp: rx_quiet_def w5_def wr_fresh_def)
        with core show ?thesis unfolding rx_ok_def by blast
      qed
      then obtain res c w' where "run_receive env name base w5 = Some (res, c, w')"
        "fin_post name want (w_token w5) res c w'"
        using run_receive_sim [of name want base w5 env] w4 assms(15,16)
        by (auto simp: w5_def wr_fresh_def env_ok_def)
      with False True show ?thesis unfolding unf by (auto simp: w5_def w4)
    qed
  qed
qed

lemma run_reserved_sim:
  assumes "pre_core name want w s" "s_views s = []" "wr_fresh w" "env_ok env"
  shows "\<exists>res c w'. run_reserved env name want n w = Some (res, c, w') \<and>
    fin_post name want (w_token w) res c w'"
proof -
  obtain vs w1 s1 where v: "stat_slots env name [0..<n] w = (vs, w1)" "pre_core name want w1 s1"
    "w_token w1 = w_token w" "wr_fresh w1" "case vs of None \<Rightarrow> True | Some v \<Rightarrow> s_views s1 = v"
    using stat_slots_sim [OF assms(1), of "[0..<n]" env] assms(2,3) by (auto split: option.splits)
  have post: "fin_post name want (w_token w) res False w'"
    if "pre_core name want w' s'" "w_token w' = w_token w" "res \<noteq> BLOB_WRITE_STORED" for res w' s'
    using that by (auto simp: fin_post_def pre_core_def)
  show ?thesis
  proof (cases vs)
    case None
    then show ?thesis using v(1) post [OF v(2,3), of BLOB_WRITE_REFUSED] by (auto simp: run_reserved_def)
  next
    case (Some views)
    then have sv: "s_views s1 = views" using v(5) by simp
    obtain choice tgt where ch: "blob_choose_target (Some views) want = (choice, tgt)" by fastforce
    define w2 where "w2 = w1\<lparr>w_rep := (w_rep w1)\<lparr>rp_choice := choice\<rparr>\<rparr>"
    show ?thesis
    proof (cases tgt)
      case None
      have "pre_core name want w2 s1" "w_token w2 = w_token w" using v(2,3) by (simp_all add: w2_def pre_core_def)
      from post [OF this, of BLOB_WRITE_NO_SLOT] show ?thesis
        using v(1) Some ch None by (auto simp: run_reserved_def w2_def)
    next
      case (Some t)
      define w3 where "w3 = w2\<lparr>w_rep := (w_rep w2)\<lparr>rp_slot := t, rp_slot_chosen := True\<rparr>\<rparr>"
      obtain rc base pa pm where g: "r_geometry env (w_log w3) t = (rc, base, pa, pm)" by (metis prod_cases4)
      define w4 where "w4 = logged (E_geometry t rc base pa pm) w3"
      have unf: "run_reserved env name want n w =
          (if rc \<noteq> 0 then Some (BLOB_WRITE_REFUSED, False, w4) else run_erase env name t base pa pm w4)"
        unfolding run_reserved_def v(1) \<open>vs = Some views\<close> prod.case option.case ch Let_def w2_def [symmetric]
          Some w3_def [symmetric] g w4_def [symmetric] ..
      have w4: "w_token w4 = w_token w" "wr_fresh w4" "w_log w4 = w_log w1 @ [E_geometry t rc base pa pm]"
        using v(3,4) by (simp_all add: w4_def w3_def w2_def wr_fresh_def)
      let ?s = "s1\<lparr>s_geom := (rc = 0), s_base := base, s_pa := pa, s_pm := pm\<rparr>"
      have s4: "session name want (w_log w4) = Some ?s"
        using v(2) sv ch Some by (simp add: w4(3) session_snoc sess_step_def pre_core_def)
      show ?thesis
      proof (cases "rc = 0")
        case False
        have "fin_post name want (w_token w) BLOB_WRITE_REFUSED False w4"
          using s4 w4(1) v(2,3) by (auto simp: fin_post_def pre_core_def)
        with False show ?thesis unfolding unf by auto
      next
        case True
        have "\<exists>res c w'. run_erase env name t base pa pm w4 = Some (res, c, w') \<and> fin_post name want (w_token w4) res c w'"
          by (rule run_erase_sim [OF s4]) (use True v(2,3) w4 assms(4) in \<open>simp_all add: pre_core_def\<close>)
        with True w4(1) show ?thesis unfolding unf by simp
      qed
    qed
  qed
qed

lemma write_refused:
  assumes "\<not> (\<exists>b nm. stage = Some b \<and> name = Some nm \<and> 256 \<le> length b \<and> length b mod 256 = 0)"
  shows "blob_write_run env stage name want = Some (BLOB_WRITE_REFUSED, zero_report, [])"
proof (cases stage)
  case (Some b)
  show ?thesis
  proof (cases name)
    case nm: (Some nm)
    with assms Some have "length b < BLOB_HDR_PAGE \<or> length b mod BLOB_HDR_PAGE \<noteq> 0"
      by (auto simp: blob_sizes)
    then show ?thesis unfolding blob_write_run_def Some nm prod.case option.case by (rule if_P)
  qed (simp add: blob_write_run_def Some)
qed (simp add: blob_write_run_def)

lemma write_front:
  assumes b: "256 \<le> length b" "length b mod 256 = 0"
    and c: "r_console_ready env (w_log (start_wr b)) = rc0" "w1 = logged (E_console_ready rc0) (start_wr b)"
    and n: "r_slot_count env (w_log w1) = n" "w2 = logged (E_slot_count n) w1"
    and r: "r_reserve env (w_log w2) = (rc, token)" "w3 = logged (E_reserve rc token) w2"
  shows "blob_write_run env (Some b) (Some nm) want =
    (if rc0 \<noteq> 0 then Some (BLOB_WRITE_NO_CONSOLE, w_rep w1, w_log w1)
     else if n = 0 \<or> n > BLOB_MAX_SLOTS
     then Some (BLOB_WRITE_NO_SLOT, (w_rep w2)\<lparr>rp_choice := BLOB_CHOICE_BAD_MAP\<rparr>, w_log w2)
     else if rc \<noteq> 0 \<or> token = 0 then Some (BLOB_WRITE_BUSY, w_rep w3, w_log w3)
     else do { (res, claimed, w) \<leftarrow> run_reserved env nm want n (w3\<lparr>w_token := token\<rparr>);
          let w = run_out claimed w; Some (res, w_rep w, w_log w) })" (is ?eq)
    and "session nm want (w_log w1) = Some sess_start" "session nm want (w_log w2) = Some sess_start"
    and "session nm want (w_log w3) = Some (if rc = 0 \<and> token \<noteq> 0 then sess_start\<lparr>s_held := Some token\<rparr> else sess_start)"
    and "wr_fresh (w3\<lparr>w_token := token\<rparr>)"
proof -
  have "\<not> (length b < BLOB_HDR_PAGE \<or> length b mod BLOB_HDR_PAGE \<noteq> 0)" using b by (simp add: blob_sizes)
  then show ?eq
    unfolding blob_write_run_def prod.case option.case Let_def c(1) c(2) [symmetric] n(1) n(2) [symmetric] r(1) r(2) [symmetric] if_not_P
    by (simp only: if_False prod.case)
qed (use b(1) in \<open>simp_all add: c n r wr_fresh_def start_wr_def session_def sess_step_def sess_start_def\<close>)

text \<open>The calls after the reservation, and its return.\<close>

lemma write_reserved:
  assumes env: "env_ok env" and fresh: "wr_fresh (w\<lparr>w_token := token\<rparr>)" and n: "n \<noteq> 0" "n \<le> BLOB_MAX_SLOTS"
    and t: "token \<noteq> 0" "session nm want (w_log w) = Some (sess_start\<lparr>s_held := Some token\<rparr>)"
  shows "\<exists>res c w' s. run_reserved env nm want n (w\<lparr>w_token := token\<rparr>) = Some (res, c, w') \<and>
    session nm want (w_log (run_out c w')) = Some s \<and> s_held s = None \<and> \<not> s_console s \<and>
    (res = BLOB_WRITE_STORED \<longleftrightarrow> s_stored s)"
proof -
  let ?w = "w\<lparr>w_token := token\<rparr>"
  have "pre_core nm want ?w (sess_start\<lparr>s_held := Some token\<rparr>)"
    using t by (simp add: pre_core_def sess_start_def)
  then obtain res c w' where r: "run_reserved env nm want n ?w = Some (res, c, w')" "fin_post nm want token res c w'"
    using run_reserved_sim [of nm want ?w "sess_start\<lparr>s_held := Some token\<rparr>" env n] env fresh n
    by (auto simp: sess_start_def)
  obtain s where s: "session nm want (w_log w') = Some s" "s_held s = Some token" "s_console s = c"
    "res = BLOB_WRITE_STORED \<longleftrightarrow> s_stored s" "w_token w' = token"
    using r(2) by (auto simp: fin_post_def)
  have "session nm want (w_log (run_out c w')) = Some (s\<lparr>s_console := False, s_held := None\<rparr>)"
    using s by (cases c) (auto simp: run_out_def session_snoc session_snoc2 sess_step_def Let_def)
  with r(1) s(4) show ?thesis by auto
qed

text \<open>C19. Whatever the board, the sender and the operator do, one write ends, never leaves its
  staging buffer, and makes a legal sequence of calls: the slot is chosen from headers read under
  the reservation; only that slot is erased, and nothing is programmed unless the erase succeeded;
  the payload goes down in order inside the slot; after a failed program there is no other; the
  magic is programmed last, only over the header of this payload and only after a read-back with
  the checksum of what arrived. At the end the reservation and the console are given back, each
  once if it was taken, and the result is \<open>STORED\<close> exactly when the magic program succeeded.\<close>

theorem blob_write_run_legal:
  assumes "\<forall>log. list_all call_ok (fst (r_receive env log))"
  shows "\<exists>res rep log s. blob_write_run env stage name want = Some (res, rep, log) \<and>
    session (case name of Some nm \<Rightarrow> nm | None \<Rightarrow> []) want log = Some s \<and> s_held s = None \<and> \<not> s_console s \<and>
    (res = BLOB_WRITE_STORED \<longleftrightarrow> s_stored s)"
proof (cases "\<exists>b nm. stage = Some b \<and> name = Some nm \<and> 256 \<le> length b \<and> length b mod 256 = 0")
  case False
  have "session nm want [] = Some sess_start" for nm by (simp add: session_def)
  with write_refused [OF False, of env want] show ?thesis by (simp add: sess_start_def)
next
  case True
  then obtain b nm where bn: "stage = Some b \<and> name = Some nm \<and> 256 \<le> length b \<and> length b mod 256 = 0"
    by (elim exE)
  then have b: "stage = Some b" "name = Some nm" "256 \<le> length b" "length b mod 256 = 0" by simp_all
  obtain rc0 w1 where c: "r_console_ready env (w_log (start_wr b)) = rc0" "w1 = logged (E_console_ready rc0) (start_wr b)"
    by blast
  obtain n w2 where n: "r_slot_count env (w_log w1) = n" "w2 = logged (E_slot_count n) w1" by blast
  obtain rc token w3 where r: "r_reserve env (w_log w2) = (rc, token)" "w3 = logged (E_reserve rc token) w2"
    by (metis prod.collapse)
  note front = write_front [OF b(3,4) c n r]
  show ?thesis
  proof (cases "rc0 \<noteq> 0 \<or> n = 0 \<or> n > BLOB_MAX_SLOTS \<or> rc \<noteq> 0 \<or> token = 0")
    case True
    then have "\<exists>res rep log. blob_write_run env stage name want = Some (res, rep, log) \<and>
        session nm want log = Some sess_start \<and> res \<noteq> BLOB_WRITE_STORED"
      unfolding b front(1) using front(2-4) by auto
    with b(2) show ?thesis by (auto simp: sess_start_def)
  next
    case False
    moreover have "env_ok env" using assms by (simp add: env_ok_def)
    ultimately obtain res c w' s where w: "run_reserved env nm want n (w3\<lparr>w_token := token\<rparr>) = Some (res, c, w')"
      "session nm want (w_log (run_out c w')) = Some s" "s_held s = None" "\<not> s_console s" "res = BLOB_WRITE_STORED \<longleftrightarrow> s_stored s"
      using write_reserved [where env = env and w = w3 and token = token and n = n and nm = nm and want = want] front(4,5) by auto
    then have "blob_write_run env stage name want = Some (res, w_rep (run_out c w'), w_log (run_out c w'))"
      using False unfolding b front(1) by (simp add: Let_def)
    with w b(2) show ?thesis by auto
  qed
qed

definition sample_env :: blob_env where
  "sample_env = \<lparr>r_console_ready = (\<lambda>_. 0), r_slot_count = (\<lambda>_. 2), r_reserve = (\<lambda>_. (0, 7)),
     r_stat = (\<lambda>_ _. (0, zero_info)), r_geometry = (\<lambda>_ _. (0, 0x200000, 0x201000, 0x1000)),
     r_announces = True, r_erase = (\<lambda>_. (0, 0x2000, False)), r_program = (\<lambda>_ _ _. 0),
     r_claim = (\<lambda>_. 0),
     r_receive = (\<lambda>_. ([SC_begin [120] 3, SC_write (Some [1, 2]) 2, SC_write (Some [3]) 1], 0)),
     r_notes = True, r_read_back = (\<lambda>_ _ n. (0, take n [1, 2, 3]))\<rparr>"

lemma blob_write_run_legal_witness:
  "\<exists>res rep log s. blob_write_run sample_env (Some (replicate 256 0)) (Some [109]) 1 = Some (res, rep, log) \<and>
     session [109] 1 log = Some s \<and> s_held s = None \<and> \<not> s_console s \<and>
     (res = BLOB_WRITE_STORED \<longleftrightarrow> s_stored s)"
proof -
  have "\<forall>log. list_all call_ok (fst (r_receive sample_env log))"
    by (simp add: sample_env_def call_ok_def)
  from blob_write_run_legal [OF this, of "Some (replicate 256 0)" "Some [109]" 1] show ?thesis by simp
qed

end
