(* ===== verification/Ymodem.thy ===== *)
theory Ymodem
  imports Prelude
begin

text \<open>
  The YMODEM batch sender and receiver, \<open>svc/ymodem.c\<close>. Transport, source and sink are code of the
  callers: each is a function of the log of the calls made so far, so that a theorem speaks of
  every peer, every line and every sink. A byte read is an \<open>int\<close> as in the code (\<open>-1\<close> timeout,
  \<open>-2\<close> abort). A loop that a jabbering peer can keep alive for ever is a partial function.
\<close>

section \<open>Transport, source, sink\<close>

datatype ym_event =
    Y_getc nat int
  | Y_put "u8 list" bool
  | Y_begin "u8 list" u32 bool
  | Y_write "u8 list" bool
  | Y_read nat int "u8 list"

record ym_env =
  g_getc :: "ym_event list \<Rightarrow> nat \<Rightarrow> int"
  g_put :: "ym_event list \<Rightarrow> u8 list \<Rightarrow> bool"
  g_begin :: "ym_event list \<Rightarrow> u8 list \<Rightarrow> u32 \<Rightarrow> bool"
  g_write :: "ym_event list \<Rightarrow> u8 list \<Rightarrow> bool"
  g_read :: "ym_event list \<Rightarrow> nat \<Rightarrow> int \<times> u8 list"

datatype ym_result =
  YM_OK | YM_ERR_CANCEL | YM_ERR_TIMEOUT | YM_ERR_SOURCE | YM_ERR_IO | YM_ERR_SINK | YM_ERR_PROTO

record ym_recv_diag =
  d_blocks :: u32
  d_bad_crc :: u32
  d_bad_seq :: u32
  d_short_read :: u32
  d_timeouts :: u32
  d_first_kind :: int
  d_first_seq :: int
  d_first_nseq :: int
  d_first_got :: u32
  d_first_want :: u32
  d_first_crc_want :: u16
  d_first_crc_got :: u16

text \<open>The static buffers, the diagnostics and the log.\<close>

record ym =
  y_log :: "ym_event list"
  y_block :: "u8 list"
  y_rdata :: "u8 list"
  y_diag :: ym_recv_diag

definition YM_SOH :: u8 where "YM_SOH = 0x01"
definition YM_STX :: u8 where "YM_STX = 0x02"
definition YM_EOT :: u8 where "YM_EOT = 0x04"
definition YM_ACK :: u8 where "YM_ACK = 0x06"
definition YM_NAK :: u8 where "YM_NAK = 0x15"
definition YM_CAN :: u8 where "YM_CAN = 0x18"
definition YM_CRC_C :: u8 where "YM_CRC_C = 0x43"
definition YM_CPMEOF :: u8 where "YM_CPMEOF = 0x1A"
definition YM_BS :: u8 where "YM_BS = 0x08"

lemmas ym_bytes = YM_SOH_def YM_STX_def YM_EOT_def YM_ACK_def YM_NAK_def YM_CAN_def YM_CRC_C_def
  YM_CPMEOF_def YM_BS_def

definition YM_DATA_MAX :: nat where "YM_DATA_MAX = 1024"
definition YM_BLOCK0_LEN :: nat where "YM_BLOCK0_LEN = 128"
definition YM_HDR :: nat where "YM_HDR = 3"
definition YM_HANDSHAKE_TIMEOUT_MS :: nat where "YM_HANDSHAKE_TIMEOUT_MS = 3000"
definition YM_ACK_TIMEOUT_MS :: nat where "YM_ACK_TIMEOUT_MS = 1000"
definition YM_EOT_TIMEOUT_MS :: nat where "YM_EOT_TIMEOUT_MS = 2000"
definition YM_HANDSHAKE_RETRIES :: nat where "YM_HANDSHAKE_RETRIES = 40"
definition YM_BLOCK_RETRIES :: nat where "YM_BLOCK_RETRIES = 10"
definition YM_RECV_DISCARD_MAX :: nat where "YM_RECV_DISCARD_MAX = 8192"

lemmas ym_consts = YM_DATA_MAX_def YM_BLOCK0_LEN_def YM_HDR_def YM_HANDSHAKE_RETRIES_def YM_BLOCK_RETRIES_def

definition is_byte :: "int \<Rightarrow> u8 \<Rightarrow> bool" where
  "is_byte b c \<longleftrightarrow> b = uint c"

definition ym_log :: "ym_event \<Rightarrow> ym \<Rightarrow> ym" where
  "ym_log e y = y\<lparr>y_log := y_log y @ [e]\<rparr>"

definition getc :: "ym_env \<Rightarrow> nat \<Rightarrow> ym \<Rightarrow> int \<times> ym" where
  "getc env t y = (let b = g_getc env (y_log y) t in (b, ym_log (Y_getc t b) y))"

definition put :: "ym_env \<Rightarrow> u8 list \<Rightarrow> ym \<Rightarrow> bool \<times> ym" where
  "put env bs y = (let ok = g_put env (y_log y) bs in (ok, ym_log (Y_put bs ok) y))"

section \<open>Shared routines\<close>

definition crc16_bit :: "u16 \<Rightarrow> u16" where
  "crc16_bit crc = (if crc AND 0x8000 \<noteq> 0 then push_bit 1 crc XOR 0x1021 else push_bit 1 crc)"

definition crc16_byte :: "u16 \<Rightarrow> u8 \<Rightarrow> u16" where
  "crc16_byte crc b = (crc16_bit ^^ 8) (crc XOR push_bit 8 (ucast b))"

definition ymodem_crc16 :: "u8 list \<Rightarrow> u16" where
  "ymodem_crc16 p = foldl crc16_byte 0 p"

fun dec_digits :: "nat \<Rightarrow> u8 list" where
  "dec_digits v = (if v < 10 then [48 + of_nat v] else dec_digits (v div 10) @ [48 + of_nat (v mod 10)])"

declare dec_digits.simps [simp del]

definition u32_to_dec :: "u32 \<Rightarrow> u8 list" where
  "u32_to_dec v = dec_digits (unat v)"

definition send_cancel :: "ym_env \<Rightarrow> ym \<Rightarrow> ym" where
  "send_cancel env y = snd (put env (replicate 5 YM_CAN @ replicate 8 YM_BS) y)"

definition is_double_can :: "ym_env \<Rightarrow> ym \<Rightarrow> bool \<times> ym" where
  "is_double_can env y = (let (b, y) = getc env YM_ACK_TIMEOUT_MS y in (is_byte b YM_CAN, y))"

text \<open>The tests that follow a read in every wait loop: a cancel, after the second \<open>CAN\<close>.\<close>

definition peer_cancel :: "ym_env \<Rightarrow> int \<Rightarrow> ym \<Rightarrow> bool \<times> ym" where
  "peer_cancel env b y =
     (if b = -2 then (True, y)
      else if is_byte b YM_CAN then is_double_can env y
      else (False, y))"

section \<open>The receiver\<close>

definition diag_first :: "int \<Rightarrow> int \<Rightarrow> int \<Rightarrow> nat \<Rightarrow> nat \<Rightarrow> u16 \<Rightarrow> u16 \<Rightarrow> ym_recv_diag \<Rightarrow> ym_recv_diag" where
  "diag_first kind seq nseq got want cw cg d =
     (if d_first_kind d \<ge> 0 then d
      else d\<lparr>d_first_kind := kind, d_first_seq := seq, d_first_nseq := nseq, d_first_got := of_nat got,
             d_first_want := of_nat want, d_first_crc_want := cw, d_first_crc_got := cg\<rparr>)"

definition diag :: "(ym_recv_diag \<Rightarrow> ym_recv_diag) \<Rightarrow> ym \<Rightarrow> ym" where
  "diag f y = y\<lparr>y_diag := f (y_diag y)\<rparr>"

fun drain_loop :: "ym_env \<Rightarrow> nat \<Rightarrow> ym \<Rightarrow> ym" where
  "drain_loop env 0 y = y"
| "drain_loop env (Suc n) y = (let (b, y) = getc env 0 y in if b < 0 then y else drain_loop env n y)"

definition recv_drain :: "ym_env \<Rightarrow> ym \<Rightarrow> ym" where
  "recv_drain env y = drain_loop env YM_RECV_DISCARD_MAX y"

datatype hdr = H_block u8 | H_eot | H_timeout | H_abort | H_cancel

fun hdr_loop :: "ym_env \<Rightarrow> nat \<Rightarrow> nat \<Rightarrow> ym \<Rightarrow> hdr \<times> ym" where
  "hdr_loop env t 0 y = (H_timeout, y)"
| "hdr_loop env t (Suc n) y =
     (let (b, y) = getc env t y in
      if is_byte b YM_SOH then (H_block YM_SOH, y)
      else if is_byte b YM_STX then (H_block YM_STX, y)
      else if is_byte b YM_EOT then (H_eot, y)
      else if b = -1 then (H_timeout, diag (\<lambda>d. d\<lparr>d_timeouts := d_timeouts d + 1\<rparr>) y)
      else if b = -2 then (H_abort, y)
      else if is_byte b YM_CAN
      then (let (can, y) = is_double_can env y in if can then (H_cancel, y) else hdr_loop env t n y)
      else hdr_loop env t n y)"

definition wait_hdr :: "ym_env \<Rightarrow> nat \<Rightarrow> ym \<Rightarrow> hdr \<times> ym" where
  "wait_hdr env t y = hdr_loop env t YM_RECV_DISCARD_MAX y"

datatype body = B_ok u8 nat | B_bad | B_abort

definition short_read :: "u8 \<Rightarrow> int \<Rightarrow> int \<Rightarrow> nat \<Rightarrow> nat \<Rightarrow> ym \<Rightarrow> ym" where
  "short_read kind seq nseq got want y =
     diag (\<lambda>d. diag_first (uint kind) seq nseq got want 0 0 (d\<lparr>d_short_read := d_short_read d + 1\<rparr>)) y"

text \<open>The data bytes, into the block buffer from index \<open>i\<close>; \<open>m\<close> are left to read.\<close>

fun body_loop :: "ym_env \<Rightarrow> u8 \<Rightarrow> u8 \<Rightarrow> int \<Rightarrow> nat \<Rightarrow> nat \<Rightarrow> nat \<Rightarrow> ym \<Rightarrow> (body option \<times> ym) option" where
  "body_loop env kind seq nseq n i 0 y = Some (None, y)"
| "body_loop env kind seq nseq n i (Suc m) y =
     (let (b, y) = getc env YM_ACK_TIMEOUT_MS y in
      if b = -2 then Some (Some B_abort, y)
      else if b < 0 then Some (Some B_bad, short_read kind (uint seq) nseq i n y)
      else Option.bind (st (y_rdata y) i (word_of_int b))
             (\<lambda>r. body_loop env kind seq nseq n (i + 1) m (y\<lparr>y_rdata := r\<rparr>)))"

fun crc_loop :: "ym_env \<Rightarrow> u8 \<Rightarrow> u8 \<Rightarrow> int \<Rightarrow> nat \<Rightarrow> nat \<Rightarrow> nat \<Rightarrow> u16 \<Rightarrow> ym \<Rightarrow> (body + u16) \<times> ym" where
  "crc_loop env kind seq nseq n i 0 crc y = (Inr crc, y)"
| "crc_loop env kind seq nseq n i (Suc m) crc y =
     (let (b, y) = getc env YM_ACK_TIMEOUT_MS y in
      if b = -2 then (Inl B_abort, y)
      else if b < 0 then (Inl B_bad, short_read kind (uint seq) nseq (n + i) n y)
      else crc_loop env kind seq nseq n (i + 1) m (push_bit 8 crc OR ucast (word_of_int b :: u8)) y)"

definition read_tail :: "ym_env \<Rightarrow> u8 \<Rightarrow> u8 \<Rightarrow> int \<Rightarrow> nat \<Rightarrow> ym \<Rightarrow> (body \<times> ym) option" where
  "read_tail env kind seq nseq n y = do {
     (stop, y) \<leftarrow> body_loop env kind seq nseq n 0 n y;
     case stop of
       Some b \<Rightarrow> Some (b, y)
     | None \<Rightarrow>
         (case crc_loop env kind seq nseq n 0 2 0 y of
            (Inl b, y) \<Rightarrow> Some (b, y)
          | (Inr crc, y) \<Rightarrow>
              if n > length (y_rdata y) then None
              else let got = ymodem_crc16 (take n (y_rdata y)) in
                if got \<noteq> crc
                then Some (B_bad, diag (\<lambda>d. diag_first (uint kind) (uint seq) nseq n n crc got
                            (d\<lparr>d_bad_crc := d_bad_crc d + 1\<rparr>)) y)
                else Some (B_ok seq n, diag (\<lambda>d. d\<lparr>d_blocks := d_blocks d + 1\<rparr>) y))
   }"

definition read_body :: "ym_env \<Rightarrow> u8 \<Rightarrow> ym \<Rightarrow> (body \<times> ym) option" where
  "read_body env kind y =
     (let n = (if kind = YM_STX then YM_DATA_MAX else YM_BLOCK0_LEN);
          (b, y) = getc env YM_ACK_TIMEOUT_MS y in
      if b = -2 then Some (B_abort, y)
      else if b < 0 then Some (B_bad, short_read kind (-1) (-1) 0 n y)
      else let seq = word_of_int b :: u8; (nseq, y) = getc env YM_ACK_TIMEOUT_MS y in
        if nseq = -2 then Some (B_abort, y)
        else if nseq < 0 then Some (B_bad, short_read kind (uint seq) (-1) 0 n y)
        else if (word_of_int nseq :: u8) \<noteq> NOT seq
        then Some (B_bad, diag (\<lambda>d. diag_first (uint kind) (uint seq) nseq 0 n 0 0
                     (d\<lparr>d_bad_seq := d_bad_seq d + 1\<rparr>)) y)
        else read_tail env kind seq nseq n y)"

text \<open>Block 0: the name up to its NUL, cut to the buffer, and the decimal size after it.\<close>

fun b0_name :: "nat \<Rightarrow> u8 list \<Rightarrow> u8 list \<Rightarrow> u8 list \<times> u8 list option" where
  "b0_name cap name [] = (name, None)"
| "b0_name cap name (c # cs) =
     (if c = 0 then (name, Some cs)
      else b0_name cap (if length name + 1 < cap then name @ [c] else name) cs)"

fun b0_size :: "u32 \<Rightarrow> bool \<Rightarrow> u8 list \<Rightarrow> (u32 \<times> bool) option" where
  "b0_size v have_size [] = Some (v, have_size)"
| "b0_size v have_size (c # cs) =
     (if c < 48 \<or> c > 57 then Some (v, have_size)
      else let d = ucast (c - 48) :: u32 in
        if v > (0xFFFFFFFF - d) div 10 then None else b0_size (v * 10 + d) True cs)"

definition parse_block0 :: "nat \<Rightarrow> u8 list \<Rightarrow> (u8 list \<times> u32 \<times> bool) option" where
  "parse_block0 cap rdata =
     (case b0_name cap [] (take YM_BLOCK0_LEN rdata) of
        (name, None) \<Rightarrow> None
      | (name, Some rest) \<Rightarrow>
          (case b0_size 0 False rest of None \<Rightarrow> None | Some (v, h) \<Rightarrow> Some (name, v, h)))"

text \<open>Each phase of the batch: the error that ends it, or none.\<close>

partial_function (option) recv_start :: "ym_env \<Rightarrow> nat \<Rightarrow> ym \<Rightarrow> (ym_result option \<times> ym) option" where
  "recv_start env attempts y =
     (let r = put env [YM_CRC_C] y in
      if \<not> fst r then Some (Some YM_ERR_IO, snd r)
      else let h = wait_hdr env YM_HANDSHAKE_TIMEOUT_MS (snd r) in
        (case fst h of
           H_abort \<Rightarrow> Some (Some YM_ERR_CANCEL, snd h)
         | H_cancel \<Rightarrow> Some (Some YM_ERR_CANCEL, snd h)
         | H_timeout \<Rightarrow>
             if attempts + 1 > YM_HANDSHAKE_RETRIES then Some (Some YM_ERR_TIMEOUT, snd h)
             else recv_start env (attempts + 1) (snd h)
         | H_eot \<Rightarrow> recv_start env attempts (snd (put env [YM_ACK] (snd h)))
         | H_block kind \<Rightarrow>
             Option.bind (read_body env kind (snd h)) (\<lambda>b.
               if fst b = B_abort then Some (Some YM_ERR_CANCEL, snd b)
               else if fst b \<noteq> B_ok 0 YM_DATA_MAX \<and> fst b \<noteq> B_ok 0 YM_BLOCK0_LEN
               then (let y = recv_drain env (snd b) in
                     if attempts + 1 > YM_HANDSHAKE_RETRIES then Some (Some YM_ERR_TIMEOUT, y)
                     else recv_start env (attempts + 1) y)
               else Some (None, snd b))))"

declare recv_start.simps [code]

text \<open>The wait for a data block: \<open>left\<close> re-prompts remain.\<close>

fun prompt_loop :: "ym_env \<Rightarrow> u8 \<Rightarrow> nat \<Rightarrow> ym \<Rightarrow> (ym_result + hdr) \<times> ym" where
  "prompt_loop env prompt left y =
     (let (h, y) = wait_hdr env YM_ACK_TIMEOUT_MS y in
      if h \<noteq> H_timeout then (Inr h, y)
      else (case left of
          0 \<Rightarrow> (Inl YM_ERR_TIMEOUT, y)
        | Suc n \<Rightarrow> (let (ok, y) = put env [prompt] y in
            if \<not> ok then (Inl YM_ERR_IO, y) else prompt_loop env prompt n y)))"

declare prompt_loop.simps [simp del]

definition deliver :: "ym_env \<Rightarrow> u8 list \<Rightarrow> ym \<Rightarrow> bool \<times> ym" where
  "deliver env bs y =
     (if bs = [] then (True, y)
      else let ok = g_write env (y_log y) bs in (ok, ym_log (Y_write bs ok) y))"

partial_function (option) recv_data ::
  "ym_env \<Rightarrow> bool \<Rightarrow> u32 \<Rightarrow> u8 \<Rightarrow> u8 \<Rightarrow> ym \<Rightarrow> (ym_result option \<times> ym) option" where
  "recv_data env have_size remaining expect prompt y =
     (let w = prompt_loop env prompt YM_BLOCK_RETRIES y in
      (case fst w of
         Inl e \<Rightarrow> Some (Some e, snd w)
       | Inr H_timeout \<Rightarrow> Some (Some YM_ERR_TIMEOUT, snd w)
       | Inr H_abort \<Rightarrow> Some (Some YM_ERR_CANCEL, snd w)
       | Inr H_cancel \<Rightarrow> Some (Some YM_ERR_CANCEL, snd w)
       | Inr H_eot \<Rightarrow>
           if have_size \<and> remaining \<noteq> 0 then Some (Some YM_ERR_PROTO, snd w)
           else let r = put env [YM_ACK] (snd w) in
             Some (if fst r then None else Some YM_ERR_IO, snd r)
       | Inr (H_block kind) \<Rightarrow>
           Option.bind (read_body env kind (snd w)) (\<lambda>b.
             (case fst b of
                B_abort \<Rightarrow> Some (Some YM_ERR_CANCEL, snd b)
              | B_bad \<Rightarrow>
                  let r = put env [YM_NAK] (recv_drain env (snd b)) in
                  if fst r then recv_data env have_size remaining expect YM_NAK (snd r)
                  else Some (Some YM_ERR_IO, snd r)
              | B_ok seq n \<Rightarrow>
                  if seq = expect - 1
                  then (let r = put env [YM_ACK] (snd b) in
                    if fst r then recv_data env have_size remaining expect YM_NAK (snd r)
                    else Some (Some YM_ERR_IO, snd r))
                  else if seq \<noteq> expect then Some (Some YM_ERR_PROTO, snd b)
                  else let count = (if have_size then min n (unat remaining) else n);
                           d = deliver env (take count (y_rdata (snd b))) (snd b) in
                    if \<not> fst d then Some (Some YM_ERR_SINK, snd d)
                    else let r = put env [YM_ACK] (snd d) in
                      if fst r
                      then recv_data env have_size (if have_size then remaining - of_nat count else remaining)
                             (expect + 1) YM_NAK (snd r)
                      else Some (Some YM_ERR_IO, snd r)))))"

declare recv_data.simps [code]

partial_function (option) recv_close :: "ym_env \<Rightarrow> nat \<Rightarrow> ym \<Rightarrow> (ym_result \<times> ym) option" where
  "recv_close env attempts y =
     (let h = wait_hdr env YM_ACK_TIMEOUT_MS y in
      (case fst h of
         H_abort \<Rightarrow> Some (YM_ERR_CANCEL, snd h)
       | H_cancel \<Rightarrow> Some (YM_ERR_CANCEL, snd h)
       | H_timeout \<Rightarrow>
           if attempts + 1 > YM_BLOCK_RETRIES then Some (YM_ERR_TIMEOUT, snd h)
           else let r = put env [YM_CRC_C] (snd h) in
             if fst r then recv_close env (attempts + 1) (snd r) else Some (YM_ERR_IO, snd r)
       | H_eot \<Rightarrow>
           let r = put env [YM_ACK] (snd h) in
           if fst r then recv_close env attempts (snd r) else Some (YM_ERR_IO, snd r)
       | H_block kind \<Rightarrow>
           Option.bind (read_body env kind (snd h)) (\<lambda>b.
             (case fst b of
                B_abort \<Rightarrow> Some (YM_ERR_CANCEL, snd b)
              | B_bad \<Rightarrow>
                  let y = recv_drain env (snd b) in
                  if attempts + 1 > YM_BLOCK_RETRIES then Some (YM_ERR_TIMEOUT, y)
                  else let r = put env [YM_NAK] y in
                    if fst r then recv_close env (attempts + 1) (snd r) else Some (YM_ERR_IO, snd r)
              | B_ok seq n \<Rightarrow>
                  Option.bind (ld (y_rdata (snd b)) 0) (\<lambda>c.
                    if seq \<noteq> 0 \<or> c \<noteq> 0 then Some (YM_ERR_PROTO, snd b)
                    else Some (YM_OK, snd (put env [YM_ACK] (snd b))))))))"

declare recv_close.simps [code]

definition ym_recv_run :: "ym_env \<Rightarrow> ym \<Rightarrow> (ym_result \<times> ym) option" where
  "ym_recv_run env y = do {
     (e, y) \<leftarrow> recv_start env 0 y;
     case e of
       Some e \<Rightarrow> Some (e, y)
     | None \<Rightarrow>
         (case parse_block0 YM_BLOCK0_LEN (y_rdata y) of
            None \<Rightarrow> Some (YM_ERR_PROTO, y)
          | Some (name, bytes, have_size) \<Rightarrow>
              if name = [] then Some (YM_ERR_CANCEL, snd (put env [YM_ACK] y))
              else let ok = g_begin env (y_log y) name bytes; y = ym_log (Y_begin name bytes ok) y in
                if \<not> ok then Some (YM_ERR_SINK, y)
                else let (ok, y) = put env [YM_ACK] y in
                  if \<not> ok then Some (YM_ERR_IO, y)
                  else let (ok, y) = put env [YM_CRC_C] y in
                    if \<not> ok then Some (YM_ERR_IO, y)
                    else do {
                      (e, y) \<leftarrow> recv_data env have_size bytes 1 YM_CRC_C y;
                      case e of
                        Some e \<Rightarrow> Some (e, y)
                      | None \<Rightarrow>
                          let (ok, y) = put env [YM_CRC_C] y in
                          if \<not> ok then Some (YM_ERR_IO, y) else recv_close env 0 y
                    })
   }"

definition clear_diag :: ym_recv_diag where
  "clear_diag = \<lparr>d_blocks = 0, d_bad_crc = 0, d_bad_seq = 0, d_short_read = 0, d_timeouts = 0,
     d_first_kind = -1, d_first_seq = -1, d_first_nseq = -1, d_first_got = 0, d_first_want = 0,
     d_first_crc_want = 0, d_first_crc_got = 0\<rparr>"

definition ymodem_recv :: "ym_env \<Rightarrow> ym \<Rightarrow> (ym_result \<times> ym) option" where
  "ymodem_recv env y = do {
     (rc, y) \<leftarrow> ym_recv_run env (y\<lparr>y_diag := clear_diag\<rparr>);
     Some (rc, if rc \<noteq> YM_OK then send_cancel env y else y)
   }"

section \<open>The sender\<close>

definition frame :: "u8 \<Rightarrow> u8 \<Rightarrow> u8 list \<Rightarrow> u8 list" where
  "frame kind seq data =
     (let crc = ymodem_crc16 data in
      [kind, seq, NOT seq] @ data @ [ucast (drop_bit 8 crc), ucast (crc AND 0xFF)])"

text \<open>Send and wait for the acknowledgement; \<open>left\<close> resends remain. The same loop serves a block and
  the end of the file.\<close>

fun ack_loop :: "ym_env \<Rightarrow> nat \<Rightarrow> u8 list \<Rightarrow> nat \<Rightarrow> ym \<Rightarrow> ym_result \<times> ym" where
  "ack_loop env t bs left y =
     (let (ok, y) = put env bs y in
      if \<not> ok then (YM_ERR_IO, y)
      else let (b, y) = getc env t y in
        if is_byte b YM_ACK then (YM_OK, y)
        else let (can, y) = peer_cancel env b y in
          if can then (YM_ERR_CANCEL, y)
          else (case left of 0 \<Rightarrow> (YM_ERR_TIMEOUT, y) | Suc n \<Rightarrow> ack_loop env t bs n y))"

declare ack_loop.simps [simp del]

definition send_block :: "ym_env \<Rightarrow> u8 \<Rightarrow> u8 \<Rightarrow> nat \<Rightarrow> ym \<Rightarrow> (ym_result \<times> ym) option" where
  "send_block env kind seq datalen y =
     (let data = take datalen (drop YM_HDR (y_block y)) in
      Option.bind (cpy (y_block y) 0 (frame kind seq data)) (\<lambda>blk.
        if length data < datalen then None
        else Some (ack_loop env YM_ACK_TIMEOUT_MS (take (YM_HDR + datalen + 2) blk) YM_BLOCK_RETRIES
                     (y\<lparr>y_block := blk\<rparr>))))"

partial_function (option) c_loop :: "ym_env \<Rightarrow> nat \<Rightarrow> nat \<Rightarrow> nat \<Rightarrow> ym \<Rightarrow> (ym_result \<times> ym) option" where
  "c_loop env t retries timeouts y =
     (let r = getc env t y in
      if is_byte (fst r) YM_CRC_C then Some (YM_OK, snd r)
      else let c = peer_cancel env (fst r) (snd r) in
        if fst c then Some (YM_ERR_CANCEL, snd c)
        else if fst r = -1
        then (if timeouts + 1 > retries then Some (YM_ERR_TIMEOUT, snd c)
              else c_loop env t retries (timeouts + 1) (snd c))
        else c_loop env t retries timeouts (snd c))"

declare c_loop.simps [code]

definition wait_start :: "ym_env \<Rightarrow> ym \<Rightarrow> (ym_result \<times> ym) option" where
  "wait_start env y = c_loop env YM_HANDSHAKE_TIMEOUT_MS YM_HANDSHAKE_RETRIES 0 y"

definition wait_c :: "ym_env \<Rightarrow> ym \<Rightarrow> (ym_result \<times> ym) option" where
  "wait_c env y = c_loop env YM_ACK_TIMEOUT_MS YM_BLOCK_RETRIES 0 y"

definition send_eot :: "ym_env \<Rightarrow> ym \<Rightarrow> ym_result \<times> ym" where
  "send_eot env y = ack_loop env YM_EOT_TIMEOUT_MS [YM_EOT] YM_BLOCK_RETRIES y"

text \<open>Block 0 in the 128 zeroed bytes of the block buffer.\<close>

definition block0 :: "u8 list option \<Rightarrow> u32 \<Rightarrow> u8 list" where
  "block0 name bytes =
     (let n = (case name of Some (c # cs) \<Rightarrow> c # cs | _ \<Rightarrow> str ''file.bin'');
          hd = take 100 n @ [0]; num = take (YM_BLOCK0_LEN - 1 - length hd) (u32_to_dec bytes);
          used = hd @ num in
      used @ replicate (YM_BLOCK0_LEN - length used) 0)"

definition set_data :: "u8 list \<Rightarrow> ym \<Rightarrow> ym option" where
  "set_data bs y = Option.bind (cpy (y_block y) YM_HDR bs) (\<lambda>blk. Some (y\<lparr>y_block := blk\<rparr>))"

text \<open>The fill of one block: what the source delivers is copied behind what is there.\<close>

definition src_read :: "ym_env \<Rightarrow> nat \<Rightarrow> ym \<Rightarrow> (int \<times> u8 list) \<times> ym" where
  "src_read env want y =
     (let (rc, bs) = g_read env (y_log y) want in ((rc, bs), ym_log (Y_read want rc bs) y))"

partial_function (option) fill_loop :: "ym_env \<Rightarrow> nat \<Rightarrow> nat \<Rightarrow> ym \<Rightarrow> (nat option \<times> ym) option" where
  "fill_loop env want filled y =
     (if \<not> filled < want then Some (Some filled, y)
      else let r = src_read env (want - filled) y in
        if fst (fst r) < 0 then Some (None, snd r)
        else Option.bind (cpy (y_block (snd r)) (YM_HDR + filled) (snd (fst r))) (\<lambda>blk.
          let y = (snd r)\<lparr>y_block := blk\<rparr> in
          if snd (fst r) = [] then Some (Some filled, y)
          else fill_loop env want (filled + length (snd (fst r))) y))"

declare fill_loop.simps [code]

partial_function (option) send_data :: "ym_env \<Rightarrow> nat \<Rightarrow> u8 \<Rightarrow> ym \<Rightarrow> (ym_result \<times> ym) option" where
  "send_data env remaining seq y =
     (if remaining = 0 then Some (YM_OK, y)
      else let want = min remaining YM_DATA_MAX in
        Option.bind (fill_loop env want 0 y) (\<lambda>f.
          (case fst f of
             None \<Rightarrow> Some (YM_ERR_SOURCE, snd f)
           | Some filled \<Rightarrow>
               if filled = 0 then Some (YM_OK, snd f)
               else let datalen = (if filled \<le> YM_BLOCK0_LEN then YM_BLOCK0_LEN else YM_DATA_MAX) in
                 Option.bind (cpy (y_block (snd f)) (YM_HDR + filled) (replicate (datalen - filled) YM_CPMEOF)) (\<lambda>blk.
                   Option.bind (send_block env (if datalen = YM_BLOCK0_LEN then YM_SOH else YM_STX) seq datalen
                                  ((snd f)\<lparr>y_block := blk\<rparr>)) (\<lambda>r.
                     if fst r \<noteq> YM_OK then Some r
                     else if filled < want then Some (YM_OK, snd r)
                     else send_data env (remaining - filled) (seq + 1) (snd r))))))"

declare send_data.simps [code]

definition and_then :: "(ym_result \<times> ym) option \<Rightarrow> (ym \<Rightarrow> (ym_result \<times> ym) option) \<Rightarrow> (ym_result \<times> ym) option" where
  "and_then r k = Option.bind r (\<lambda>(rc, y). if rc \<noteq> YM_OK then Some (rc, y) else k y)"

definition ym_run :: "ym_env \<Rightarrow> u8 list option \<Rightarrow> u32 \<Rightarrow> ym \<Rightarrow> (ym_result \<times> ym) option" where
  "ym_run env name bytes y =
     and_then (wait_start env y) (\<lambda>y.
     Option.bind (set_data (block0 name bytes) y) (\<lambda>y.
     and_then (send_block env YM_SOH 0 YM_BLOCK0_LEN y) (\<lambda>y.
     and_then (wait_c env y) (\<lambda>y.
     and_then (send_data env (unat bytes) 1 y) (\<lambda>y.
     and_then (Some (send_eot env y)) (\<lambda>y.
     and_then (wait_c env y) (\<lambda>y.
     Option.bind (set_data (replicate YM_BLOCK0_LEN 0) y) (\<lambda>y.
     send_block env YM_SOH 0 YM_BLOCK0_LEN y))))))))"

definition ymodem_send :: "ym_env \<Rightarrow> u8 list option \<Rightarrow> u32 \<Rightarrow> ym \<Rightarrow> (ym_result \<times> ym) option" where
  "ymodem_send env name bytes y = do {
     (rc, y) \<leftarrow> ym_run env name bytes y;
     Some (rc, if rc \<noteq> YM_OK then send_cancel env y else y)
   }"

section \<open>What the receiver does to the sink\<close>

definition is_sink :: "ym_event \<Rightarrow> bool" where
  "is_sink e = (case e of Y_begin _ _ _ \<Rightarrow> True | Y_write _ _ \<Rightarrow> True | _ \<Rightarrow> False)"

definition is_rx :: "ym_event \<Rightarrow> bool" where
  "is_rx e = (case e of Y_getc _ b \<Rightarrow> 0 \<le> b | _ \<Rightarrow> False)"

definition sinks :: "ym_event list \<Rightarrow> ym_event list" where "sinks log = filter is_sink log"
definition rx_count :: "ym_event list \<Rightarrow> nat" where "rx_count log = length (filter is_rx log)"

lemma sinks_snoc [simp]: "sinks (log @ [e]) = sinks log @ (if is_sink e then [e] else [])"
  by (simp add: sinks_def)

lemma rx_count_snoc [simp]: "rx_count (log @ [e]) = rx_count log + (if is_rx e then 1 else 0)"
  by (simp add: rx_count_def)

lemma is_sink_simps [simp]: "\<not> is_sink (Y_getc t b)" "\<not> is_sink (Y_put bs ok)" "is_sink (Y_begin nm n ok)"
  "is_sink (Y_write bs ok)" "is_rx (Y_getc t b) \<longleftrightarrow> 0 \<le> b" "\<not> is_rx (Y_put bs ok)"
  "\<not> is_rx (Y_begin nm n ok)" "\<not> is_rx (Y_write bs ok)"
  by (simp_all add: is_sink_def is_rx_def)

lemma ym_log_simps [simp]: "y_log (ym_log e y) = y_log y @ [e]" "y_rdata (ym_log e y) = y_rdata y"
  "y_block (ym_log e y) = y_block y" "y_log (diag f y) = y_log y" "y_rdata (diag f y) = y_rdata y"
  "y_block (diag f y) = y_block y"
  by (simp_all add: ym_log_def diag_def)

lemma is_byte_nonneg: "is_byte b c \<Longrightarrow> 0 \<le> b"
  by (simp add: is_byte_def)

text \<open>A step that leaves the sink alone and may have consumed bytes.\<close>

definition byte_supply :: "ym_env \<Rightarrow> nat \<Rightarrow> bool" where
  "byte_supply env N \<longleftrightarrow> (\<forall>log t. N \<le> rx_count log \<longrightarrow> g_getc env log t < 0)"

definition quiet :: "ym_env \<Rightarrow> ym \<Rightarrow> ym \<Rightarrow> bool" where
  "quiet env y y' \<longleftrightarrow> sinks (y_log y') = sinks (y_log y) \<and> length (y_rdata y') = length (y_rdata y) \<and>
     y_block y' = y_block y \<and> rx_count (y_log y) \<le> rx_count (y_log y') \<and>
     (\<forall>N. byte_supply env N \<longrightarrow> rx_count (y_log y) \<le> N \<longrightarrow> rx_count (y_log y') \<le> N)"

abbreviation consumed :: "ym_env \<Rightarrow> ym \<Rightarrow> ym \<Rightarrow> bool" where
  "consumed env y y' \<equiv> quiet env y y' \<and> rx_count (y_log y) < rx_count (y_log y')"

lemma quiet_refl [simp]: "quiet env y y" by (simp add: quiet_def)

lemma quiet_trans: "quiet env x y \<Longrightarrow> quiet env y z \<Longrightarrow> quiet env x z" by (simp add: quiet_def)

lemma consumed_trans: "consumed env x y \<Longrightarrow> quiet env y z \<Longrightarrow> consumed env x z" "quiet env x y \<Longrightarrow> consumed env y z \<Longrightarrow> consumed env x z"
  by (auto simp: quiet_def)

lemma quiet_diag [simp]: "quiet env y (diag f z) \<longleftrightarrow> quiet env y z" "rx_count (y_log (diag f z)) = rx_count (y_log z)"
  by (simp_all add: quiet_def)

lemma quiet_less: "quiet env x y \<Longrightarrow> rx_count (y_log y) < k \<Longrightarrow> rx_count (y_log x) < k"
  by (simp add: quiet_def)

lemma getc_quiet: "getc env t y = (b, y') \<Longrightarrow> quiet env y y' \<and> (0 \<le> b \<longrightarrow> consumed env y y')"
proof -
  assume g: "getc env t y = (b, y')"
  have "rx_count (y_log y') \<le> N" if "byte_supply env N" "rx_count (y_log y) \<le> N" for N
  proof (cases "rx_count (y_log y) = N")
    case True
    then have "g_getc env (y_log y) t < 0" using that(1) by (simp add: byte_supply_def)
    with g that(2) show ?thesis by (auto simp: getc_def Let_def)
  qed (use g that(2) in \<open>auto simp: getc_def Let_def\<close>)
  with g show ?thesis by (auto simp: getc_def quiet_def Let_def)
qed

lemma put_quiet: "put env bs y = (ok, y') \<Longrightarrow> quiet env y y'"
  by (auto simp: put_def quiet_def Let_def)

lemma double_can_quiet: "is_double_can env y = (c, y') \<Longrightarrow> quiet env y y'"
  using getc_quiet by (auto simp: is_double_can_def Let_def split: prod.splits)

lemma drain_quiet: "quiet env y (drain_loop env n y)"
proof (induction n arbitrary: y)
  case (Suc n)
  obtain b y1 where g: "getc env 0 y = (b, y1)" by fastforce
  with getc_quiet [OF g] Suc [of y1] show ?case by (auto simp: Let_def intro: quiet_trans)
qed simp

lemma recv_drain_quiet: "quiet env y (recv_drain env y)"
  by (simp add: recv_drain_def drain_quiet)

lemma hdr_loop_quiet: "hdr_loop env t n y = (h, y') \<Longrightarrow>
  quiet env y y' \<and> ((\<exists>k. h = H_block k) \<or> h = H_eot \<longrightarrow> consumed env y y')"
proof (induction n arbitrary: y)
  case (Suc n)
  obtain b y1 where g: "getc env t y = (b, y1)" by fastforce
  note q = getc_quiet [OF g]
  show ?case
  proof (cases "is_byte b YM_SOH \<or> is_byte b YM_STX \<or> is_byte b YM_EOT")
    case True
    with Suc.prems g q show ?thesis by (auto simp: Let_def split: if_splits dest: is_byte_nonneg)
  next
    case no: False
    show ?thesis
    proof (cases "b = -1 \<or> b = -2")
      case True
      with Suc.prems g q no show ?thesis by (auto simp: Let_def split: if_splits)
    next
      case False
      obtain c y2 where d: "(if is_byte b YM_CAN then is_double_can env y1 else (False, y1)) = (c, y2)" by fastforce
      have q2: "quiet env y y2" using q d double_can_quiet by (auto split: if_splits intro: quiet_trans)
      have "hdr_loop env t (Suc n) y = (if c then (H_cancel, y2) else hdr_loop env t n y2)"
        using g no False d by (auto simp: Let_def split: if_splits)
      with Suc.prems have e: "(if c then (H_cancel, y2) else hdr_loop env t n y2) = (h, y')" by simp
      show ?thesis
      proof (cases c)
        case True
        with e q2 show ?thesis by auto
      next
        case False
        with e Suc.IH [of y2] q2 show ?thesis by (auto intro: quiet_trans quiet_less)
      qed
    qed
  qed
qed simp

lemma wait_hdr_quiet: "wait_hdr env t y = (h, y') \<Longrightarrow>
  quiet env y y' \<and> ((\<exists>k. h = H_block k) \<or> h = H_eot \<longrightarrow> consumed env y y')"
  unfolding wait_hdr_def by (rule hdr_loop_quiet)

lemma body_loop_total:
  assumes "i + m \<le> length (y_rdata y)"
  shows "\<exists>r y'. body_loop env kind seq nseq n i m y = Some (r, y') \<and> quiet env y y'"
  using assms
proof (induction m arbitrary: i y)
  case (Suc m)
  obtain b y1 where g: "getc env YM_ACK_TIMEOUT_MS y = (b, y1)" by fastforce
  note q = getc_quiet [OF g]
  then have l: "length (y_rdata y1) = length (y_rdata y)" by (simp add: quiet_def)
  let ?y2 = "y1\<lparr>y_rdata := (y_rdata y1)[i := word_of_int b]\<rparr>"
  have q2: "quiet env y ?y2" using q by (simp add: quiet_def)
  have "i + 1 + m \<le> length (y_rdata ?y2)" using Suc.prems l by simp
  from Suc.IH [OF this] obtain r y' where
    "body_loop env kind seq nseq n (i + 1) m ?y2 = Some (r, y')" "quiet env ?y2 y'" by blast
  with g q q2 Suc.prems l show ?case
    by (auto simp: Let_def st_in short_read_def intro: quiet_trans)
qed simp

lemma crc_loop_quiet: "crc_loop env kind seq nseq n i m crc y = (r, y') \<Longrightarrow> quiet env y y'"
proof (induction m arbitrary: i crc y)
  case (Suc m)
  obtain b y1 where g: "getc env YM_ACK_TIMEOUT_MS y = (b, y1)" by fastforce
  with Suc getc_quiet [OF g] show ?case
    by (auto simp: Let_def short_read_def split: if_splits intro: quiet_trans)
qed simp

lemma read_tail_total:
  assumes "n \<le> length (y_rdata y)"
  shows "\<exists>b y'. read_tail env kind seq nseq n y = Some (b, y') \<and> quiet env y y' \<and> (\<forall>s m. b = B_ok s m \<longrightarrow> m = n)"
proof -
  obtain r y1 where b: "body_loop env kind seq nseq n 0 n y = Some (r, y1)" "quiet env y y1"
    using body_loop_total [of 0 n y env kind seq nseq n] assms by auto
  show ?thesis
  proof (cases r)
    case None
    obtain c y2 where c: "crc_loop env kind seq nseq n 0 2 0 y1 = (c, y2)" by fastforce
    have q: "quiet env y y2" using b(2) crc_loop_quiet [OF c] by (rule quiet_trans)
    then have "\<not> n > length (y_rdata y2)" using assms by (simp add: quiet_def)
    with b None c q show ?thesis
    proof (cases c)
      case (Inl e)
      have "e = B_abort \<or> e = B_bad" using c Inl
        by (simp add: numeral_eq_Suc Let_def split: prod.splits if_splits)
      with b None c q Inl show ?thesis by (auto simp: read_tail_def)
    next
      case (Inr d)
      with b None c q \<open>\<not> n > length (y_rdata y2)\<close> show ?thesis by (auto simp: read_tail_def Let_def)
    qed
  next
    case (Some e)
    have "body_loop env kind seq nseq n i m y = Some (Some e, y1) \<Longrightarrow> e = B_abort \<or> e = B_bad" for i m y
      by (induction m arbitrary: i y) (auto simp: Let_def st_def split: prod.splits if_splits option.splits)
    with b(1) Some have "e = B_abort \<or> e = B_bad" by blast
    with b Some show ?thesis by (auto simp: read_tail_def)
  qed
qed

lemma read_body_total:
  assumes "1024 \<le> length (y_rdata y)"
  shows "\<exists>b y'. read_body env kind y = Some (b, y') \<and> quiet env y y' \<and>
    (\<forall>s n. b = B_ok s n \<longrightarrow> n = 1024 \<or> n = 128)"
proof -
  define n where "n = (if kind = YM_STX then YM_DATA_MAX else YM_BLOCK0_LEN)"
  have n: "n = 1024 \<or> n = 128" by (simp add: n_def ym_consts)
  obtain b y1 where g: "getc env YM_ACK_TIMEOUT_MS y = (b, y1)" by fastforce
  obtain c y2 where h: "getc env YM_ACK_TIMEOUT_MS y1 = (c, y2)" by fastforce
  have q: "quiet env y y1" "quiet env y y2" using getc_quiet [OF g] getc_quiet [OF h] by (auto intro: quiet_trans)
  then have "n \<le> length (y_rdata y2)" using n assms by (auto simp: quiet_def)
  from read_tail_total [OF this] obtain r y3 where
    "read_tail env kind (word_of_int b) c n y2 = Some (r, y3)" "quiet env y2 y3" "\<forall>s m. r = B_ok s m \<longrightarrow> m = n"
    by blast
  with g h q n show ?thesis
    unfolding read_body_def n_def [symmetric]
    by (auto simp: Let_def short_read_def intro: quiet_trans)
qed

lemma prompt_loop_quiet: "prompt_loop env p left y = (r, y') \<Longrightarrow>
  quiet env y y' \<and> (\<forall>k. r = Inr (H_block k) \<longrightarrow> consumed env y y')"
proof (induction left arbitrary: y)
  case 0
  obtain h y1 where w: "wait_hdr env YM_ACK_TIMEOUT_MS y = (h, y1)" by fastforce
  with 0 wait_hdr_quiet [OF w] show ?case by (auto simp: prompt_loop.simps [of _ _ 0] split: if_splits)
next
  case (Suc left)
  obtain h y1 where w: "wait_hdr env YM_ACK_TIMEOUT_MS y = (h, y1)" by fastforce
  obtain ok y2 where p: "put env [p] y1 = (ok, y2)" by fastforce
  note q = wait_hdr_quiet [OF w] put_quiet [OF p]
  with Suc w p show ?case
    by (auto simp: prompt_loop.simps [of _ _ "Suc left"] split: if_splits intro: quiet_trans quiet_less)
qed

lemma recv_start_total:
  assumes "byte_supply env N" "rx_count (y_log y) \<le> N" "1024 \<le> length (y_rdata y)"
  shows "\<exists>e y'. recv_start env a y = Some (e, y') \<and> quiet env y y' \<and> e \<noteq> Some YM_OK \<and> e \<noteq> Some YM_ERR_SINK"
  using assms(2,3)
proof (induction "(N - rx_count (y_log y)) + (41 - a)" arbitrary: a y rule: less_induct)
  case less
  obtain ok y1 where p: "put env [YM_CRC_C] y = (ok, y1)" by fastforce
  obtain h y2 where w: "wait_hdr env YM_HANDSHAKE_TIMEOUT_MS y1 = (h, y2)" by fastforce
  have q: "quiet env y y1" "quiet env y y2" "(\<exists>k. h = H_block k) \<or> h = H_eot \<longrightarrow> consumed env y y2"
    using put_quiet [OF p] wait_hdr_quiet [OF w] by (auto intro: quiet_trans quiet_less)
  have rec: "\<exists>e y'. recv_start env a' z = Some (e, y') \<and> quiet env y y' \<and> e \<noteq> Some YM_OK \<and> e \<noteq> Some YM_ERR_SINK"
    if "quiet env y z" "(a < a' \<and> a' \<le> 40) \<or> (a' = a \<and> rx_count (y_log y) < rx_count (y_log z))" for a' z
  proof -
    have le: "rx_count (y_log z) \<le> N" "rx_count (y_log y) \<le> rx_count (y_log z)" "1024 \<le> length (y_rdata z)"
      using that(1) less.prems assms(1) by (auto simp: quiet_def)
    then have "(N - rx_count (y_log z)) + (41 - a') < (N - rx_count (y_log y)) + (41 - a)"
      using that(2) by linarith
    from less.hyps [OF this le(1,3)] that(1) show ?thesis by (auto intro: quiet_trans)
  qed
  show ?case
  proof (cases ok)
    case False
    with p q show ?thesis by (subst recv_start.simps) (simp add: Let_def)
  next
    case True
    show ?thesis
    proof (cases h)
      case (H_block k)
      have "1024 \<le> length (y_rdata y2)" using q(2) less.prems(2) by (simp add: quiet_def)
      then obtain b y3 where b: "read_body env k y2 = Some (b, y3)" "quiet env y2 y3"
        using read_body_total by blast
      have q3: "quiet env y y3" "quiet env y (recv_drain env y3)"
        using q(2) b(2) recv_drain_quiet by (auto intro: quiet_trans)
      show ?thesis
        using p w True H_block b q3 rec [OF q3(2), of "a + 1"]
        by (subst recv_start.simps) (auto simp: Let_def ym_consts)
    next
      case H_eot
      obtain ok3 y3 where p3: "put env [YM_ACK] y2 = (ok3, y3)" by fastforce
      have "consumed env y y3"
        using q(3) H_eot put_quiet [OF p3] by (auto intro: quiet_trans simp: quiet_def)
      with rec [of y3 a] p w True H_eot p3 show ?thesis
        by (subst recv_start.simps) (simp add: Let_def)
    next
      case H_timeout
      with p w True q(2) rec [OF q(2), of "a + 1"] show ?thesis
        by (subst recv_start.simps) (auto simp: Let_def ym_consts)
    qed (use p w True q in \<open>subst recv_start.simps, simp add: Let_def\<close>)+
  qed
qed

lemma prompt_loop_error: "prompt_loop env p left y = (Inl e, y') \<Longrightarrow> e \<noteq> YM_OK"
proof (induction left arbitrary: y)
  case 0
  then show ?case by (auto simp: prompt_loop.simps [of _ _ 0] split: prod.splits if_splits)
next
  case (Suc left)
  then show ?case
    by (auto simp: prompt_loop.simps [of _ _ "Suc left"] Let_def split: prod.splits if_splits)
qed

text \<open>The writes of one run of the data phase, for what was still to come.\<close>

definition delivered :: "bool \<Rightarrow> u32 \<Rightarrow> ym_result option \<Rightarrow> ym_event list \<Rightarrow> bool" where
  "delivered have_size remaining e evs \<longleftrightarrow>
     (\<exists>ws fail. evs = map (\<lambda>d. Y_write d True) ws @ map (\<lambda>d. Y_write d False) fail \<and>
        length fail \<le> 1 \<and> (fail \<noteq> [] \<longrightarrow> e = Some YM_ERR_SINK) \<and>
        (have_size \<longrightarrow> length (concat (ws @ fail)) \<le> unat remaining) \<and>
        (have_size \<and> e = None \<longrightarrow> length (concat ws) = unat remaining))"

lemma delivered_none: "e \<noteq> None \<or> \<not> have_size \<or> remaining = 0 \<Longrightarrow> delivered have_size remaining e []"
  unfolding delivered_def by (intro exI [of _ "[]"]) auto

lemma delivered_fail: "(have_size \<longrightarrow> length d \<le> unat remaining) \<Longrightarrow>
    delivered have_size remaining (Some YM_ERR_SINK) [Y_write d False]"
  unfolding delivered_def by (rule_tac x = "[]" in exI, rule_tac x = "[d]" in exI) auto

lemma delivered_cons:
  assumes "delivered have_size remaining' e evs" "have_size \<longrightarrow> unat remaining' + length d = unat remaining"
  shows "delivered have_size remaining e (Y_write d True # evs)"
proof -
  obtain ws fail where w: "evs = map (\<lambda>d. Y_write d True) ws @ map (\<lambda>d. Y_write d False) fail"
    "length fail \<le> 1" "fail \<noteq> [] \<longrightarrow> e = Some YM_ERR_SINK"
    "have_size \<longrightarrow> length (concat (ws @ fail)) \<le> unat remaining'"
    "have_size \<and> e = None \<longrightarrow> length (concat ws) = unat remaining'"
    using assms(1) by (auto simp: delivered_def)
  have "length (concat ((d # ws) @ fail)) \<le> unat remaining" if have_size
  proof -
    have "length (concat ws) + length (concat fail) \<le> unat remaining'"
      using w(4) that by (simp only: concat_append length_append)
    with assms(2) that show ?thesis by simp
  qed
  moreover have "length (concat (d # ws)) = unat remaining" if "have_size \<and> e = None"
    using w(5) assms(2) that by simp
  ultimately show ?thesis
    unfolding delivered_def
    by (rule_tac x = "d # ws" in exI, rule_tac x = fail in exI) (use w(1-3) in simp)
qed

lemma recv_data_total:
  assumes "byte_supply env N" "rx_count (y_log y) \<le> N" "1024 \<le> length (y_rdata y)"
  shows "\<exists>e y' evs. recv_data env have_size remaining expect prompt y = Some (e, y') \<and>
    sinks (y_log y') = sinks (y_log y) @ evs \<and> delivered have_size remaining e evs \<and> e \<noteq> Some YM_OK \<and>
    length (y_rdata y') = length (y_rdata y) \<and> rx_count (y_log y') \<le> N"
  using assms(2,3)
proof (induction "N - rx_count (y_log y)" arbitrary: remaining expect prompt y rule: less_induct)
  case less
  let ?goal = "\<lambda>r. \<exists>e y' evs. r = Some (e, y') \<and> sinks (y_log y') = sinks (y_log y) @ evs \<and>
      delivered have_size remaining e evs \<and> e \<noteq> Some YM_OK \<and>
      length (y_rdata y') = length (y_rdata y) \<and> rx_count (y_log y') \<le> N"
  obtain w y1 where w: "prompt_loop env prompt YM_BLOCK_RETRIES y = (w, y1)" by fastforce
  note q1 = prompt_loop_quiet [OF w]
  have stop: "?goal (Some (Some e, z))" if "quiet env y z" "e \<noteq> YM_OK" for e z
    using that less.prems assms(1) delivered_none [of "Some e" have_size remaining]
    by (intro exI [of _ "Some e"] exI [of _ z] exI [of _ "[]"]) (auto simp: quiet_def)
  have rec: "?goal (recv_data env have_size remaining expect p z)"
    if "consumed env y z" for p z
  proof -
    have le: "rx_count (y_log z) \<le> N" "1024 \<le> length (y_rdata z)" "N - rx_count (y_log z) < N - rx_count (y_log y)"
      using that less.prems assms(1) by (auto simp: quiet_def)
    from less.hyps [OF le(3,1,2), of remaining expect p] that show ?thesis by (auto simp: quiet_def)
  qed
  show ?case
  proof (cases w)
    case (Inl e)
    have "e \<noteq> YM_OK"
      using prompt_loop_error w Inl by blast
    with w Inl q1 stop [of y1 e] show ?thesis by (subst recv_data.simps) simp
  next
    case (Inr h)
    show ?thesis
    proof (cases h)
      case H_eot
      obtain ok y2 where p: "put env [YM_ACK] y1 = (ok, y2)" by fastforce
      have q2: "quiet env y y2" using q1 put_quiet [OF p] by (auto intro: quiet_trans)
      show ?thesis
      proof (cases "have_size \<and> remaining \<noteq> 0")
        case True
        with w Inr H_eot q1 stop [of y1 YM_ERR_PROTO] show ?thesis by (subst recv_data.simps) simp
      next
        case False
        have g: "?goal (Some (None, y2))"
          using False q2 less.prems assms(1) delivered_none [of None have_size remaining]
          by (intro exI [of _ None] exI [of _ y2] exI [of _ "[]"]) (auto simp: quiet_def)
        have "recv_data env have_size remaining expect prompt y = Some (if ok then None else Some YM_ERR_IO, y2)"
          using w Inr H_eot p False by (subst recv_data.simps) (auto simp: Let_def)
        with g q2 stop [of y2 YM_ERR_IO] show ?thesis by (cases ok) simp_all
      qed
    next
      case (H_block k)
      have c1: "consumed env y y1" using q1 Inr H_block by simp
      have "1024 \<le> length (y_rdata y1)" using q1 less.prems(2) by (simp add: quiet_def)
      then obtain b y2 where b: "read_body env k y1 = Some (b, y2)" "quiet env y1 y2"
        "\<forall>s n. b = B_ok s n \<longrightarrow> n = 1024 \<or> n = 128"
        using read_body_total [of y1 env k] by blast
      have c2: "consumed env y y2" using c1 b(2) by (auto simp: quiet_def)
      have unf: "recv_data env have_size remaining expect prompt y =
        (case b of
           B_abort \<Rightarrow> Some (Some YM_ERR_CANCEL, y2)
         | B_bad \<Rightarrow>
             let r = put env [YM_NAK] (recv_drain env y2) in
             if fst r then recv_data env have_size remaining expect YM_NAK (snd r)
             else Some (Some YM_ERR_IO, snd r)
         | B_ok seq n \<Rightarrow>
             if seq = expect - 1
             then (let r = put env [YM_ACK] y2 in
               if fst r then recv_data env have_size remaining expect YM_NAK (snd r)
               else Some (Some YM_ERR_IO, snd r))
             else if seq \<noteq> expect then Some (Some YM_ERR_PROTO, y2)
             else let count = (if have_size then min n (unat remaining) else n);
                      d = deliver env (take count (y_rdata y2)) y2 in
               if \<not> fst d then Some (Some YM_ERR_SINK, snd d)
               else let r = put env [YM_ACK] (snd d) in
                 if fst r
                 then recv_data env have_size (if have_size then remaining - of_nat count else remaining)
                        (expect + 1) YM_NAK (snd r)
                 else Some (Some YM_ERR_IO, snd r))"
        by (subst recv_data.simps)
          (simp only: w Inr H_block b(1) Let_def prod.sel sum.case hdr.case bind.bind_lunit)
      show ?thesis
      proof (cases b)
        case B_abort
        then show ?thesis unfolding unf using stop [of y2 YM_ERR_CANCEL] c2 by simp
      next
        case B_bad
        obtain ok y3 where p: "put env [YM_NAK] (recv_drain env y2) = (ok, y3)" by fastforce
        have "consumed env y y3"
          using c2 put_quiet [OF p] recv_drain_quiet [of env y2] by (auto simp: quiet_def)
        then show ?thesis unfolding unf using B_bad p rec [of y3] stop [of y3 YM_ERR_IO] by (cases ok) (simp_all add: Let_def)
      next
        case (B_ok seq n)
        obtain ok3 y3 where p3: "put env [YM_ACK] y2 = (ok3, y3)" by fastforce
        have c3: "consumed env y y3" using c2 put_quiet [OF p3] by (auto simp: quiet_def)
        consider "seq = expect - 1" | "seq \<noteq> expect - 1" "seq \<noteq> expect" | "seq \<noteq> expect - 1" "seq = expect" by blast
        then show ?thesis
        proof cases
          case 1
          with c3 show ?thesis unfolding unf using B_ok p3 rec [of y3] stop [of y3 YM_ERR_IO]
            by (cases ok3) (simp_all add: Let_def)
        next
          case 2
          with c2 show ?thesis unfolding unf using B_ok stop [of y2 YM_ERR_PROTO] by simp
        next
          case 3
          define count where "count = (if have_size then min n (unat remaining) else n)"
          define rest where "rest = (if have_size then remaining - of_nat count else remaining)"
          define d where "d = take count (y_rdata y2)"
          have "count \<le> length (y_rdata y2)"
            using b(3) B_ok c2 less.prems(2) by (auto simp: count_def quiet_def)
          then have ld: "length d = count" by (simp add: d_def)
          have left: "have_size \<longrightarrow> count \<le> unat remaining \<and> unat rest + count = unat remaining"
          proof
            assume h: have_size
            have "count \<le> unat remaining" using h by (simp add: count_def)
            moreover from this have "unat (of_nat count :: u32) = count"
              using u32_bound [of remaining] by (simp add: unat_of_nat)
            ultimately show "count \<le> unat remaining \<and> unat rest + count = unat remaining"
              using h by (simp add: rest_def unat_sub word_le_nat_alt)
          qed
          obtain ok4 y4 where dl: "deliver env d y2 = (ok4, y4)" by fastforce
          obtain ok5 y5 where p5: "put env [YM_ACK] y4 = (ok5, y5)" by fastforce
          have y4: "length (y_rdata y4) = length (y_rdata y)" "rx_count (y_log y4) = rx_count (y_log y2)"
            "sinks (y_log y4) = sinks (y_log y) @ (if d = [] then [] else [Y_write d ok4])" "d = [] \<longrightarrow> ok4"
            using dl c2 by (auto simp: deliver_def Let_def quiet_def split: if_splits)
          have y5: "length (y_rdata y5) = length (y_rdata y)" "rx_count (y_log y5) = rx_count (y_log y2)"
            "sinks (y_log y5) = sinks (y_log y4)"
            using p5 y4(1,2) by (auto simp: put_def Let_def)
          have rx: "rx_count (y_log y) < rx_count (y_log y2)" "rx_count (y_log y2) \<le> N"
            using c2 less.prems(1) assms(1) by (auto simp: quiet_def)
          have unf2: "recv_data env have_size remaining expect prompt y =
              (if \<not> ok4 then Some (Some YM_ERR_SINK, y4)
               else if ok5 then recv_data env have_size rest (expect + 1) YM_NAK y5
               else Some (Some YM_ERR_IO, y5))"
          proof -
            have "\<not> seq \<noteq> expect" using 3(2) by simp
            then show ?thesis
              unfolding unf B_ok body.case if_not_P [OF 3(1)] Let_def count_def [symmetric] rest_def [symmetric]
                d_def [symmetric] dl prod.sel p5 by (simp only: if_not_P simp_thms if_False)
          qed
          have app: "delivered have_size remaining e ((if d = [] then [] else [Y_write d True]) @ evs)"
            if "delivered have_size rest e evs" for e evs
          proof (cases "d = []")
            case True
            then have "count = 0" using ld by simp
            then have "rest = remaining" by (simp add: rest_def)
            with that True show ?thesis by simp
          qed (use delivered_cons [OF that] left ld in auto)
          show ?thesis
          proof (cases ok4)
            case False
            then have "d \<noteq> []" using y4(4) by blast
            moreover have "delivered have_size remaining (Some YM_ERR_SINK) [Y_write d False]"
              using left ld by (intro delivered_fail) auto
            ultimately show ?thesis unfolding unf2 using False y4 rx by simp
          next
            case True
            show ?thesis
            proof (cases ok5)
              case no: False
              show ?thesis unfolding unf2
                using True no y4 y5 rx app [OF delivered_none [of "Some YM_ERR_IO" have_size rest]]
                by (cases "d = []") simp_all
            next
              case yes: True
              have "N - rx_count (y_log y5) < N - rx_count (y_log y)" "rx_count (y_log y5) \<le> N"
                "1024 \<le> length (y_rdata y5)"
                using rx y5 less.prems(2) by auto
              from less.hyps [OF this, of rest "expect + 1" YM_NAK] obtain e y' evs where
                r: "recv_data env have_size rest (expect + 1) YM_NAK y5 = Some (e, y')"
                "sinks (y_log y') = sinks (y_log y5) @ evs" "delivered have_size rest e evs" "e \<noteq> Some YM_OK"
                "length (y_rdata y') = length (y_rdata y5)" "rx_count (y_log y') \<le> N"
                by blast
              have "sinks (y_log y') = sinks (y_log y) @ (if d = [] then [] else [Y_write d True]) @ evs"
                using r(2) y5(3) y4(3) True by simp
              with app [OF r(3)] r y5 True yes show ?thesis unfolding unf2 by auto
            qed
          qed
        qed
      qed
    qed (use w Inr q1 stop [of y1] in \<open>subst recv_data.simps, simp\<close>)+
  qed
qed

lemma recv_close_total:
  assumes "byte_supply env N" "rx_count (y_log y) \<le> N" "1024 \<le> length (y_rdata y)"
  shows "\<exists>e y'. recv_close env a y = Some (e, y') \<and> sinks (y_log y') = sinks (y_log y) \<and> e \<noteq> YM_ERR_SINK"
  using assms(2,3)
proof (induction "(N - rx_count (y_log y)) + (11 - a)" arbitrary: a y rule: less_induct)
  case less
  let ?goal = "\<lambda>r. \<exists>e y'. r = Some (e, y') \<and> sinks (y_log y') = sinks (y_log y) \<and> e \<noteq> YM_ERR_SINK"
  obtain h y1 where w: "wait_hdr env YM_ACK_TIMEOUT_MS y = (h, y1)" by fastforce
  note q1 = wait_hdr_quiet [OF w]
  have stop: "?goal (Some (e, z))" if "quiet env y z" "e \<noteq> YM_ERR_SINK" for e z
    using that by (auto simp: quiet_def)
  have rec: "?goal (recv_close env a' z)"
    if "quiet env y z" "(a < a' \<and> a' \<le> 10) \<or> (a' = a \<and> rx_count (y_log y) < rx_count (y_log z))" for a' z
  proof -
    have le: "rx_count (y_log z) \<le> N" "rx_count (y_log y) \<le> rx_count (y_log z)" "1024 \<le> length (y_rdata z)"
      "sinks (y_log z) = sinks (y_log y)"
      using that(1) less.prems assms(1) by (auto simp: quiet_def)
    then have "(N - rx_count (y_log z)) + (11 - a') < (N - rx_count (y_log y)) + (11 - a)"
      using that(2) by linarith
    from less.hyps [OF this le(1,3)] le(4) show ?thesis by auto
  qed
  show ?case
  proof (cases h)
    case (H_block k)
    have "1024 \<le> length (y_rdata y1)" using q1 less.prems(2) by (simp add: quiet_def)
    then obtain b y2 where b: "read_body env k y1 = Some (b, y2)" "quiet env y1 y2"
      "\<forall>s n. b = B_ok s n \<longrightarrow> n = 1024 \<or> n = 128"
      using read_body_total [of y1 env k] by blast
    obtain ok3 y3 where p3: "put env [YM_NAK] (recv_drain env y2) = (ok3, y3)" by fastforce
    obtain ok4 y4 where p4: "put env [YM_ACK] y2 = (ok4, y4)" by fastforce
    have q: "quiet env y y2" "quiet env y (recv_drain env y2)" "quiet env y y3" "quiet env y y4"
      using q1 b(2) put_quiet [OF p3] put_quiet [OF p4] recv_drain_quiet [of env y2]
      by (auto intro: quiet_trans)
    have "1024 \<le> length (y_rdata y2)" using q(1) less.prems(2) by (simp add: quiet_def)
    then have "0 < length (y_rdata y2)" by linarith
    then have unf: "recv_close env a y =
      (case b of
         B_abort \<Rightarrow> Some (YM_ERR_CANCEL, y2)
       | B_bad \<Rightarrow>
           if a + 1 > YM_BLOCK_RETRIES then Some (YM_ERR_TIMEOUT, recv_drain env y2)
           else if ok3 then recv_close env (a + 1) y3 else Some (YM_ERR_IO, y3)
       | B_ok seq n \<Rightarrow>
           if seq \<noteq> 0 \<or> y_rdata y2 ! 0 \<noteq> 0 then Some (YM_ERR_PROTO, y2) else Some (YM_OK, y4))"
      by (subst recv_close.simps)
        (simp only: w H_block b(1) Let_def prod.sel hdr.case bind.bind_lunit p3 p4 ld_in)
    show ?thesis
    proof (cases b)
      case B_bad
      then show ?thesis unfolding unf using rec [OF q(3), of "a + 1"] stop [OF q(2), of YM_ERR_TIMEOUT]
          stop [OF q(3), of YM_ERR_IO]
        by (simp add: ym_consts)
    qed (use unf stop [OF q(1), of YM_ERR_CANCEL] stop [OF q(1), of YM_ERR_PROTO] stop [OF q(4), of YM_OK] in simp_all)
  next
    case H_eot
    obtain ok y2 where p: "put env [YM_ACK] y1 = (ok, y2)" by fastforce
    have "consumed env y y2" using q1 H_eot put_quiet [OF p] by (auto simp: quiet_def)
    with rec [of y2 a] stop [of y2 YM_ERR_IO] show ?thesis
      using w H_eot p by (subst recv_close.simps) (simp add: Let_def)
  next
    case H_timeout
    obtain ok y2 where p: "put env [YM_CRC_C] y1 = (ok, y2)" by fastforce
    have "quiet env y y2" using q1 put_quiet [OF p] by (auto intro: quiet_trans)
    with rec [of y2 "a + 1"] stop [of y2 YM_ERR_IO] stop [of y1 YM_ERR_TIMEOUT] q1 show ?thesis
      using w H_timeout p by (subst recv_close.simps) (simp add: Let_def ym_consts)
  next
    case H_abort
    with w q1 stop [of y1 YM_ERR_CANCEL] show ?thesis by (subst recv_close.simps) simp
  next
    case H_cancel
    with w q1 stop [of y1 YM_ERR_CANCEL] show ?thesis by (subst recv_close.simps) simp
  qed
qed

text \<open>The sink's side of a batch: which calls it may have seen when the receiver ends with \<open>rc\<close>.\<close>

definition sink_contract :: "ym_result \<Rightarrow> ym_event list \<Rightarrow> bool" where
  "sink_contract rc evs \<longleftrightarrow>
     (evs = [] \<and> rc \<noteq> YM_OK \<and> rc \<noteq> YM_ERR_SINK) \<or>
     (\<exists>name declared. evs = [Y_begin name declared False] \<and> name \<noteq> [] \<and> rc = YM_ERR_SINK) \<or>
     (\<exists>name declared have_size e ws. evs = Y_begin name declared True # ws \<and> name \<noteq> [] \<and>
        (declared \<noteq> 0 \<longrightarrow> have_size) \<and> delivered have_size declared e ws \<and>
        (rc = YM_OK \<longrightarrow> e = None) \<and> (e = Some YM_ERR_SINK \<longleftrightarrow> rc = YM_ERR_SINK))"

lemma b0_size_have: "b0_size v h cs = Some (w, h') \<Longrightarrow> (h \<longrightarrow> h') \<and> (\<not> h' \<longrightarrow> w = v)"
  by (induction v h cs rule: b0_size.induct) (auto simp: Let_def split: if_splits)

lemma parse_block0_size: "parse_block0 cap r = Some (name, declared, h) \<Longrightarrow> declared \<noteq> 0 \<longrightarrow> h"
  by (auto simp: parse_block0_def dest: b0_size_have split: prod.splits option.splits)

lemma ym_recv_run_total:
  assumes "byte_supply env N" "rx_count (y_log y) \<le> N" "1024 \<le> length (y_rdata y)"
  shows "\<exists>rc y' evs. ym_recv_run env y = Some (rc, y') \<and> sinks (y_log y') = sinks (y_log y) @ evs \<and>
    sink_contract rc evs"
proof -
  obtain e y1 where s: "recv_start env 0 y = Some (e, y1)" "quiet env y y1" "e \<noteq> Some YM_OK" "e \<noteq> Some YM_ERR_SINK"
    using recv_start_total [OF assms] by blast
  have y1: "sinks (y_log y1) = sinks (y_log y)" "rx_count (y_log y1) \<le> N" "1024 \<le> length (y_rdata y1)"
    using s(2) assms by (auto simp: quiet_def)
  have nosink: "sink_contract rc []" if "rc \<noteq> YM_OK" "rc \<noteq> YM_ERR_SINK" for rc
    using that by (simp add: sink_contract_def)
  show ?thesis
  proof (cases e)
    case (Some f)
    with s y1 nosink [of f] show ?thesis by (auto simp: ym_recv_run_def)
  next
    case e: None
    show ?thesis
    proof (cases "parse_block0 YM_BLOCK0_LEN (y_rdata y1)")
      case None
      with s e y1 nosink [of YM_ERR_PROTO] show ?thesis by (auto simp: ym_recv_run_def)
    next
      case (Some t)
      obtain name declared h where t: "t = (name, declared, h)" by (cases t)
      show ?thesis
      proof (cases "name = []")
        case True
        have "sinks (y_log (snd (put env [YM_ACK] y1))) = sinks (y_log y)"
          using put_quiet [of env "[YM_ACK]" y1] y1(1) by (simp add: quiet_def prod_eq_iff)
        with s e Some t True nosink [of YM_ERR_CANCEL] show ?thesis by (auto simp: ym_recv_run_def)
      next
        case name: False
        define ok where "ok = g_begin env (y_log y1) name declared"
        define y2 where "y2 = ym_log (Y_begin name declared ok) y1"
        have y2: "sinks (y_log y2) = sinks (y_log y) @ [Y_begin name declared ok]"
          "rx_count (y_log y2) \<le> N" "1024 \<le> length (y_rdata y2)"
          using y1 by (simp_all add: y2_def)
        obtain ok3 y3 where p3: "put env [YM_ACK] y2 = (ok3, y3)" by fastforce
        obtain ok4 y4 where p4: "put env [YM_CRC_C] y3 = (ok4, y4)" by fastforce
        have q: "quiet env y2 y3" "quiet env y2 y4" using put_quiet [OF p3] put_quiet [OF p4] by (auto intro: quiet_trans)
        have y4: "rx_count (y_log y4) \<le> N" "1024 \<le> length (y_rdata y4)"
          using q y2 assms(1) by (auto simp: quiet_def)
        from recv_data_total [OF assms(1) y4, of h declared 1 YM_CRC_C] obtain e5 y5 evs where
          d: "recv_data env h declared 1 YM_CRC_C y4 = Some (e5, y5)" "sinks (y_log y5) = sinks (y_log y4) @ evs"
          "delivered h declared e5 evs" "e5 \<noteq> Some YM_OK" "length (y_rdata y5) = length (y_rdata y4)"
          "rx_count (y_log y5) \<le> N"
          by blast
        obtain ok6 y6 where p6: "put env [YM_CRC_C] y5 = (ok6, y6)" by fastforce
        have q6: "quiet env y5 y6" using put_quiet [OF p6] .
        have y6: "rx_count (y_log y6) \<le> N" "1024 \<le> length (y_rdata y6)"
          using q6 d(5,6) y4 assms(1) by (auto simp: quiet_def)
        from recv_close_total [OF assms(1) y6, of 0] obtain e7 y7 where
          c: "recv_close env 0 y6 = Some (e7, y7)" "sinks (y_log y7) = sinks (y_log y6)" "e7 \<noteq> YM_ERR_SINK"
          by blast
        have unf: "ym_recv_run env y =
            (if \<not> ok then Some (YM_ERR_SINK, y2)
             else if \<not> ok3 then Some (YM_ERR_IO, y3)
             else if \<not> ok4 then Some (YM_ERR_IO, y4)
             else (case e5 of Some e \<Rightarrow> Some (e, y5)
                   | None \<Rightarrow> if \<not> ok6 then Some (YM_ERR_IO, y6) else Some (e7, y7)))"
          unfolding ym_recv_run_def s(1) e Some t prod.case option.case bind.bind_lunit if_not_P [OF name]
            Let_def ok_def [symmetric] y2_def [symmetric] p3 p4 d(1) p6 c(1)
          by (simp split: option.split)
        have h: "declared \<noteq> 0 \<longrightarrow> h" using parse_block0_size Some t by blast
        have con: "sink_contract rc (Y_begin name declared True # ws)"
          if "delivered h declared e' ws" "rc = YM_OK \<longrightarrow> e' = None" "e' = Some YM_ERR_SINK \<longleftrightarrow> rc = YM_ERR_SINK"
          for rc e' ws
          unfolding sink_contract_def using name h that by blast
        show ?thesis
        proof (cases "ok \<and> ok3 \<and> ok4")
          case False
          have "sink_contract YM_ERR_SINK [Y_begin name declared False]" using name by (simp add: sink_contract_def)
          moreover have "sink_contract YM_ERR_IO [Y_begin name declared True]"
            using con [OF delivered_none [of "Some YM_ERR_IO"], of YM_ERR_IO] by simp
          ultimately show ?thesis unfolding unf using False y2(1) q by (auto simp: quiet_def)
        next
          case True
          then have s5: "sinks (y_log y5) = sinks (y_log y) @ Y_begin name declared True # evs"
            using d(2) q(2) y2(1) by (simp add: quiet_def)
          show ?thesis
          proof (cases e5)
            case (Some f)
            then have "sink_contract f (Y_begin name declared True # evs)" using con [OF d(3), of f] d(4) by auto
            with True Some s5 show ?thesis unfolding unf by auto
          next
            case None
            have "sink_contract YM_ERR_IO (Y_begin name declared True # evs)"
              "sink_contract e7 (Y_begin name declared True # evs)"
              using con [OF d(3), of YM_ERR_IO] con [OF d(3), of e7] None c(3) by auto
            moreover have "sinks (y_log y6) = sinks (y_log y5)" "sinks (y_log y7) = sinks (y_log y5)"
              using q6 c(2) by (simp_all add: quiet_def)
            ultimately show ?thesis unfolding unf using True None s5 by auto
          qed
        qed
      qed
    qed
  qed
qed

text \<open>C16. A receive whose line delivers finitely many bytes ends, whatever the bytes, the time-outs
  and the sink; it never leaves its block buffer, and the sink sees a legal batch: one \<open>begin\<close>,
  then writes, none after a refusal, never more than the declared size. On \<open>YM_OK\<close> the file was
  accepted and exactly the declared size was written; a sink refusal is reported as such.\<close>

theorem ymodem_recv_sink_contract:
  assumes "\<forall>log t. N \<le> rx_count log \<longrightarrow> g_getc env log t < 0" and "1024 \<le> length (y_rdata y)" "y_log y = []"
  shows "\<exists>rc y'. ymodem_recv env y = Some (rc, y') \<and> sink_contract rc (sinks (y_log y'))"
proof -
  let ?y = "y\<lparr>y_diag := clear_diag\<rparr>"
  have "byte_supply env N" using assms(1) by (simp add: byte_supply_def)
  moreover have "rx_count (y_log ?y) \<le> N" "1024 \<le> length (y_rdata ?y)"
    using assms(2,3) by (simp_all add: rx_count_def)
  ultimately obtain rc y' evs where r: "ym_recv_run env ?y = Some (rc, y')"
    "sinks (y_log y') = sinks (y_log ?y) @ evs" "sink_contract rc evs"
    using ym_recv_run_total by blast
  have "sinks (y_log (send_cancel env y')) = sinks (y_log y')"
    using put_quiet [of env "replicate 5 YM_CAN @ replicate 8 YM_BS" y']
    by (simp add: send_cancel_def quiet_def prod_eq_iff)
  moreover have "sinks (y_log ?y) = []" using assms(3) by (simp add: sinks_def)
  ultimately show ?thesis using r by (auto simp: ymodem_recv_def)
qed

text \<open>A line that delivers the bytes of a script and then falls silent.\<close>

definition line_env :: "u8 list \<Rightarrow> ym_env" where
  "line_env script =
     \<lparr>g_getc = (\<lambda>log t. if rx_count log < length script then uint (script ! rx_count log) else -1),
      g_put = (\<lambda>log bs. True), g_begin = (\<lambda>log nm n. True), g_write = (\<lambda>log bs. True),
      g_read = (\<lambda>log n. (0, []))\<rparr>"

definition ym_idle :: ym where
  "ym_idle = \<lparr>y_log = [], y_block = replicate 1029 0, y_rdata = replicate 1024 0, y_diag = clear_diag\<rparr>"

lemma ymodem_recv_sink_contract_witness:
  "\<exists>rc y'. ymodem_recv (line_env [YM_SOH, 7, 7, YM_CAN]) ym_idle = Some (rc, y') \<and> sink_contract rc (sinks (y_log y'))"
  by (rule ymodem_recv_sink_contract [of 4]) (simp_all add: line_env_def ym_idle_def)

end
