(* ===== verification/YmodemLink.thy ===== *)
theory YmodemLink
  imports Ymodem
begin

text \<open>
  The two directions of \<open>svc/ymodem.c\<close> against each other: what the sender puts on the line is the
  batch of the file, and a receiver that reads that batch hands the file to its sink.
\<close>

section \<open>The batch of a file\<close>

definition block_of :: "u8 \<Rightarrow> u8 list \<Rightarrow> u8 list" where
  "block_of seq c =
     (if length c \<le> 128 then frame YM_SOH seq (c @ replicate (128 - length c) YM_CPMEOF)
      else frame YM_STX seq (c @ replicate (1024 - length c) YM_CPMEOF))"

fun data_frames :: "u8 \<Rightarrow> u8 list list \<Rightarrow> u8 list list" where
  "data_frames seq [] = []"
| "data_frames seq (c # cs) = block_of seq c # data_frames (seq + 1) cs"

definition batch :: "u8 list option \<Rightarrow> u32 \<Rightarrow> u8 list list \<Rightarrow> u8 list list" where
  "batch name bytes cs =
     [frame YM_SOH 0 (block0 name bytes)] @ data_frames 1 cs @ [[YM_EOT], frame YM_SOH 0 (replicate 128 0)]"

text \<open>A file cut into full blocks and a last one.\<close>

fun cut_ok :: "nat \<Rightarrow> u8 list list \<Rightarrow> bool" where
  "cut_ok remaining [] \<longleftrightarrow> remaining = 0"
| "cut_ok remaining (c # cs) \<longleftrightarrow> c \<noteq> [] \<and> length c = min remaining 1024 \<and> cut_ok (remaining - length c) cs"

section \<open>A line that delivers a script\<close>

definition feeds :: "ym_env \<Rightarrow> u8 list \<Rightarrow> bool" where
  "feeds env script \<longleftrightarrow>
     (\<forall>log t. g_getc env log t = (if rx_count log < length script then uint (script ! rx_count log) else -1)) \<and>
     (\<forall>log bs. g_put env log bs) \<and> (\<forall>log nm n. g_begin env log nm n) \<and> (\<forall>log bs. g_write env log bs)"

text \<open>The rest of the script still to be read, and what the reads leave alone.\<close>

abbreviation left_of :: "u8 list \<Rightarrow> ym \<Rightarrow> u8 list" where
  "left_of script y \<equiv> drop (rx_count (y_log y)) script"

definition only_read :: "ym \<Rightarrow> ym \<Rightarrow> bool" where
  "only_read y y' \<longleftrightarrow> sinks (y_log y') = sinks (y_log y) \<and> length (y_rdata y') = length (y_rdata y)"

lemma only_read_refl [simp]: "only_read y y" by (simp add: only_read_def)
lemma only_read_trans: "only_read x y \<Longrightarrow> only_read y z \<Longrightarrow> only_read x z" by (simp add: only_read_def)
lemma only_read_diag [simp]: "only_read y (diag f z) \<longleftrightarrow> only_read y z" by (simp add: only_read_def)

lemma getc_next:
  assumes "feeds env script" "left_of script y = c # s"
  shows "\<exists>y'. getc env t y = (uint c, y') \<and> left_of script y' = s \<and> only_read y y' \<and> y_rdata y' = y_rdata y"
proof -
  have i: "rx_count (y_log y) < length script" "script ! rx_count (y_log y) = c"
    "drop (Suc (rx_count (y_log y))) script = s"
    using drop_ConsD [OF assms(2)] by auto
  have "g_getc env (y_log y) t = uint c" using assms(1) i(1,2) by (simp add: feeds_def)
  then have "getc env t y = (uint c, ym_log (Y_getc t (uint c)) y)" by (simp add: getc_def Let_def)
  with i(3) show ?thesis by (auto simp: only_read_def)
qed

lemma put_next:
  assumes "feeds env script"
  shows "\<exists>y'. put env bs y = (True, y') \<and> left_of script y' = left_of script y \<and> only_read y y' \<and> y_rdata y' = y_rdata y"
  using assms by (auto simp: put_def feeds_def only_read_def)

lemma word_of_int_uint [simp]: "word_of_int (uint (c :: u8)) = c" by simp

lemma uint_not_neg: "uint (c :: u8) \<noteq> -2" "\<not> uint (c :: u8) < 0" "uint (c :: u8) \<noteq> -1"
proof -
  have "0 \<le> uint c" by simp
  then show "uint c \<noteq> -2" "\<not> uint c < 0" "uint c \<noteq> -1" by linarith+
qed

lemma body_loop_script:
  assumes "feeds env script" "left_of script y = data @ s" "i + length data \<le> length (y_rdata y)"
  shows "\<exists>y'. body_loop env kind seq nseq n i (length data) y = Some (None, y') \<and> left_of script y' = s \<and>
    only_read y y' \<and> take (i + length data) (y_rdata y') = take i (y_rdata y) @ data"
  using assms(2,3)
proof (induction data arbitrary: i y)
  case (Cons c cs)
  obtain y1 where g: "getc env YM_ACK_TIMEOUT_MS y = (uint c, y1)" "left_of script y1 = cs @ s" "only_read y y1"
    "y_rdata y1 = y_rdata y"
    using getc_next [OF assms(1), of y c "cs @ s" YM_ACK_TIMEOUT_MS] Cons.prems(1) by auto
  let ?y2 = "y1\<lparr>y_rdata := (y_rdata y1)[i := c]\<rparr>"
  have i: "i < length (y_rdata y1)" using Cons.prems(2) g(4) by simp
  have "left_of script ?y2 = cs @ s" "i + 1 + length cs \<le> length (y_rdata ?y2)"
    using g Cons.prems(2) by simp_all
  from Cons.IH [OF this] obtain y' where r: "body_loop env kind seq nseq n (i + 1) (length cs) ?y2 = Some (None, y')"
    "left_of script y' = s" "only_read ?y2 y'" "take (i + 1 + length cs) (y_rdata y') = take (i + 1) (y_rdata ?y2) @ cs"
    by blast
  have "take (i + 1) (y_rdata ?y2) = take i (y_rdata y) @ [c]"
    using i g(4) by (simp add: take_Suc_update)
  with g r i show ?case
    by (auto simp: uint_not_neg st_in only_read_def)
qed auto

lemma crc16_bytes: "push_bit 8 (push_bit 8 0 OR ucast (ucast (drop_bit 8 crc) :: u8)) OR ucast (ucast (crc AND 0xFF) :: u8) = (crc :: u16)"
  (is "?l = crc")
proof (rule bit_word_eqI)
  fix n assume n: "n < LENGTH(16)"
  have m: "(0xFF :: u16) = mask 8" by (simp add: mask_eq_exp_minus_1)
  from n consider "n < 8" | "8 \<le> n" "n < 16" by fastforce
  then show "bit ?l n = bit crc n"
    unfolding m by cases (auto simp: bit_simps)
qed

definition block_len :: "u8 \<Rightarrow> nat" where
  "block_len kind = (if kind = YM_STX then 1024 else 128)"

lemma read_body_frame:
  assumes "feeds env script" "kind # left_of script y = frame kind seq data @ s" "length data = block_len kind"
    "1024 \<le> length (y_rdata y)"
  shows "\<exists>y'. read_body env kind y = Some (B_ok seq (block_len kind), y') \<and> left_of script y' = s \<and>
    only_read y y' \<and> take (block_len kind) (y_rdata y') = data"
proof -
  define crc where "crc = ymodem_crc16 data"
  let ?hi = "ucast (drop_bit 8 crc) :: u8"
  let ?lo = "ucast (crc AND 0xFF) :: u8"
  have l: "left_of script y = seq # NOT seq # data @ [?hi, ?lo] @ s"
    using assms(2) by (simp add: frame_def Let_def crc_def [symmetric])
  let ?t = YM_ACK_TIMEOUT_MS
  obtain y1 where 1: "getc env ?t y = (uint seq, y1)" "left_of script y1 = NOT seq # data @ [?hi, ?lo] @ s"
    "only_read y y1" "y_rdata y1 = y_rdata y"
    using getc_next [OF assms(1) l] by blast
  obtain y2 where 2: "getc env ?t y1 = (uint (NOT seq), y2)" "left_of script y2 = data @ [?hi, ?lo] @ s"
    "only_read y1 y2" "y_rdata y2 = y_rdata y1"
    using getc_next [OF assms(1) 1(2)] by blast
  have bl: "block_len kind \<le> 1024" by (simp add: block_len_def)
  then have "0 + length data \<le> length (y_rdata y2)" using assms(3,4) 1(4) 2(4) by simp
  from body_loop_script [OF assms(1) 2(2) this, of kind seq "uint (NOT seq)" "block_len kind"] obtain y3 where
    3: "body_loop env kind seq (uint (NOT seq)) (block_len kind) 0 (block_len kind) y2 = Some (None, y3)"
    "left_of script y3 = [?hi, ?lo] @ s" "only_read y2 y3" "take (block_len kind) (y_rdata y3) = data"
    using assms(3) by auto
  obtain y4 where 4: "getc env ?t y3 = (uint ?hi, y4)" "left_of script y4 = ?lo # s" "only_read y3 y4" "y_rdata y4 = y_rdata y3"
    using getc_next [OF assms(1), of y3 ?hi "?lo # s"] 3(2) by auto
  obtain y5 where 5: "getc env ?t y4 = (uint ?lo, y5)" "left_of script y5 = s" "only_read y4 y5" "y_rdata y5 = y_rdata y4"
    using getc_next [OF assms(1) 4(2)] by blast
  have crcl: "crc_loop env kind seq (uint (NOT seq)) (block_len kind) 0 2 0 y3 = (Inr crc, y5)"
    by (simp only: numeral_2_eq_2 crc_loop.simps 4(1) 5(1) Let_def prod.case uint_not_neg if_False word_of_int_uint crc16_bytes)
  have o5: "only_read y y5" using 1 2 3 4 5 by (auto simp: only_read_def)
  then have "\<not> block_len kind > length (y_rdata y5)" using bl assms(4) by (simp add: only_read_def)
  moreover have "take (block_len kind) (y_rdata y5) = data" using 3(4) 4(4) 5(4) by simp
  ultimately have tail: "read_tail env kind seq (uint (NOT seq)) (block_len kind) y2 =
      Some (B_ok seq (block_len kind), diag (\<lambda>d. d\<lparr>d_blocks := d_blocks d + 1\<rparr>) y5)"
    using 3(1) crcl by (simp add: read_tail_def Let_def crc_def)
  have n: "(if kind = YM_STX then YM_DATA_MAX else YM_BLOCK0_LEN) = block_len kind"
    by (simp add: block_len_def ym_consts)
  have "read_body env kind y = Some (B_ok seq (block_len kind), diag (\<lambda>d. d\<lparr>d_blocks := d_blocks d + 1\<rparr>) y5)"
    unfolding read_body_def n Let_def 1(1) 2(1) prod.case if_not_P [OF uint_not_neg(1)] if_not_P [OF uint_not_neg(2)]
      word_of_int_uint tail by simp
  with o5 5(2) \<open>take (block_len kind) (y_rdata y5) = data\<close> show ?thesis by auto
qed

lemma wait_hdr_next:
  assumes "feeds env script" "left_of script y = c # s"
  shows "c = YM_SOH \<or> c = YM_STX \<Longrightarrow> \<exists>y'. wait_hdr env t y = (H_block c, y') \<and> left_of script y' = s \<and>
      only_read y y' \<and> y_rdata y' = y_rdata y"
    "c = YM_EOT \<Longrightarrow> \<exists>y'. wait_hdr env t y = (H_eot, y') \<and> left_of script y' = s \<and>
      only_read y y' \<and> y_rdata y' = y_rdata y"
proof -
  obtain y1 where 1: "getc env t y = (uint c, y1)" "left_of script y1 = s" "only_read y y1" "y_rdata y1 = y_rdata y"
    using getc_next [OF assms] by blast
  have m: "YM_RECV_DISCARD_MAX = Suc 8191" by (simp add: YM_RECV_DISCARD_MAX_def)
  have ne: "(uint YM_STX = uint YM_SOH) = False" "(uint YM_EOT = uint YM_SOH) = False" "(uint YM_EOT = uint YM_STX) = False"
    by (simp_all add: ym_bytes)
  note unf = wait_hdr_def m hdr_loop.simps(2) 1(1) Let_def prod.case is_byte_def
  have "wait_hdr env t y = (H_block c, y1)" if "c = YM_SOH \<or> c = YM_STX"
    using that by (elim disjE) (simp_all only: unf ne if_True if_False simp_thms)
  with 1 show "c = YM_SOH \<or> c = YM_STX \<Longrightarrow> \<exists>y'. wait_hdr env t y = (H_block c, y') \<and> left_of script y' = s \<and>
      only_read y y' \<and> y_rdata y' = y_rdata y" by blast
  have "wait_hdr env t y = (H_eot, y1)" if "c = YM_EOT"
    using that by (simp_all only: unf ne if_True if_False simp_thms)
  with 1 show "c = YM_EOT \<Longrightarrow> \<exists>y'. wait_hdr env t y = (H_eot, y') \<and> left_of script y' = s \<and>
      only_read y y' \<and> y_rdata y' = y_rdata y" by blast
qed

text \<open>A whole block: its header byte and its body.\<close>

lemma block_next:
  assumes "feeds env script" "left_of script y = frame kind seq data @ s" "kind = YM_SOH \<or> kind = YM_STX"
    "length data = block_len kind" "1024 \<le> length (y_rdata y)"
  shows "\<exists>y1 y2. wait_hdr env t y = (H_block kind, y1) \<and> read_body env kind y1 = Some (B_ok seq (block_len kind), y2) \<and>
    left_of script y2 = s \<and> only_read y y2 \<and> take (block_len kind) (y_rdata y2) = data"
proof -
  define body where "body = [seq, NOT seq] @ data @
      [ucast (drop_bit 8 (ymodem_crc16 data)), ucast (ymodem_crc16 data AND 0xFF)]"
  have f: "frame kind seq data = kind # body" by (simp add: frame_def Let_def body_def)
  obtain y1 where 1: "wait_hdr env t y = (H_block kind, y1)" "left_of script y1 = body @ s" "only_read y y1"
    "y_rdata y1 = y_rdata y"
    using wait_hdr_next(1) [OF assms(1), of y kind "body @ s" t] assms(2,3) f by auto
  have "kind # left_of script y1 = frame kind seq data @ s" using 1(2) f by simp
  from read_body_frame [OF assms(1) this assms(4)] obtain y2 where
    "read_body env kind y1 = Some (B_ok seq (block_len kind), y2)" "left_of script y2 = s" "only_read y1 y2"
    "take (block_len kind) (y_rdata y2) = data"
    using assms(5) 1(4) by auto
  with 1 show ?thesis by (blast intro: only_read_trans)
qed

section \<open>Block 0\<close>

lemma b0_name_whole:
  assumes "0 \<notin> set nm" "length acc + length nm < cap"
  shows "b0_name cap acc (nm @ 0 # s) = (acc @ nm, Some s)"
  using assms by (induction nm arbitrary: acc) auto

lemma b0_size_digit:
  assumes "n div 10 * 10 + d = n" "d < 10" "n < 2 ^ 32"
  shows "b0_size (of_nat (n div 10)) h ((48 + of_nat d) # s) = b0_size (of_nat n) True s"
proof -
  have d8: "unat (48 + of_nat d :: u8) = 48 + d"
    using assms(2) by (simp add: unat_word_ariths unat_of_nat)
  have rng: "\<not> (48 + of_nat d :: u8) < 48" "\<not> (48 + of_nat d :: u8) > 57"
    using d8 assms(2) by (simp_all add: word_less_nat_alt)
  have dd: "ucast (of_nat d :: u8) = (of_nat d :: u32)"
    using assms(2) by (simp add: word_unat_eq_iff unat_of_nat)
  have u: "unat (of_nat (n div 10) :: u32) = n div 10" "unat (of_nat d :: u32) = d"
    using assms by (simp_all add: unat_of_nat)
  have sub: "unat (0xFFFFFFFF - of_nat d :: u32) = 4294967295 - d"
    using assms(2) u(2) by (subst unat_sub) (simp_all add: word_le_nat_alt)
  have "\<not> of_nat (n div 10) > (0xFFFFFFFF - of_nat d :: u32) div 10"
  proof -
    have "unat ((0xFFFFFFFF - of_nat d :: u32) div 10) = (4294967295 - d) div 10"
      by (simp add: unat_div_distrib sub)
    moreover have "n div 10 \<le> (4294967295 - d) div 10" using assms by (simp add: less_eq_div_iff_mult_less_eq)
    ultimately show ?thesis by (simp add: word_less_nat_alt u)
  qed
  moreover have "of_nat (n div 10) * 10 + of_nat d = (of_nat n :: u32)"
    by (metis assms(1) of_nat_add of_nat_mult of_nat_numeral)
  ultimately show ?thesis using rng by (simp add: Let_def dd)
qed

lemma b0_size_dec: "n < 2 ^ 32 \<Longrightarrow> b0_size 0 h (dec_digits n @ s) = b0_size (of_nat n) True s"
proof (induction n arbitrary: s rule: less_induct)
  case (less n)
  show ?case
  proof (cases "n < 10")
    case True
    with b0_size_digit [of n n h s] less.prems show ?thesis by (simp add: dec_digits.simps [of n])
  next
    case False
    then have "b0_size 0 h (dec_digits n @ s) = b0_size (of_nat (n div 10)) True ((48 + of_nat (n mod 10)) # s)"
      using less.IH [of "n div 10"] less.prems by (simp add: dec_digits.simps [of n])
    also have "\<dots> = b0_size (of_nat n) True s"
      by (rule b0_size_digit) (use less.prems in simp_all)
    finally show ?thesis .
  qed
qed

lemma length_dec: "n < 10 ^ k \<Longrightarrow> 0 < k \<Longrightarrow> length (dec_digits n) \<le> k"
proof (induction k arbitrary: n)
  case (Suc k)
  show ?case
  proof (cases "n < 10")
    case False
    then have "n div 10 < 10 ^ k" "0 < k" using Suc.prems(1) by (cases k; simp)+
    from Suc.IH [OF this] False show ?thesis by (simp add: dec_digits.simps [of n])
  qed (simp add: dec_digits.simps [of n])
qed simp

lemma block0_shape:
  assumes "nm \<noteq> []" "length nm \<le> 100"
  shows "\<exists>k. block0 (Some nm) v = nm @ 0 # u32_to_dec v @ replicate (Suc k) 0 \<and> length (block0 (Some nm) v) = 128"
proof -
  have l: "length (u32_to_dec v) \<le> 10"
    unfolding u32_to_dec_def using u32_bound [of v] by (intro length_dec) auto
  obtain c cs where nm: "nm = c # cs" using assms(1) by (cases nm) auto
  have "block0 (Some nm) v = nm @ 0 # u32_to_dec v @ replicate (127 - length nm - length (u32_to_dec v)) 0"
    using assms(2) l by (simp add: block0_def nm ym_consts Let_def)
  moreover have "127 - length nm - length (u32_to_dec v) = Suc (126 - length nm - length (u32_to_dec v))"
    using assms(2) l by linarith
  moreover have "length (block0 (Some nm) v) = 128"
    using assms(2) l calculation(1) by simp
  ultimately show ?thesis by metis
qed

lemma parse_block0_block0:
  assumes "nm \<noteq> []" "length nm \<le> 100" "0 \<notin> set nm" "take 128 r = block0 (Some nm) v"
  shows "parse_block0 YM_BLOCK0_LEN r = Some (nm, v, True)"
proof -
  obtain k where b: "block0 (Some nm) v = nm @ 0 # u32_to_dec v @ replicate (Suc k) 0"
    using block0_shape [OF assms(1,2)] by blast
  have "b0_name 128 [] (take 128 r) = (nm, Some (u32_to_dec v @ replicate (Suc k) 0))"
    using b0_name_whole [of nm "[]" 128] assms b by simp
  moreover have "b0_size 0 False (u32_to_dec v @ replicate (Suc k) 0) = Some (v, True)"
    using u32_bound [of v] by (simp add: u32_to_dec_def b0_size_dec)
  ultimately show ?thesis by (simp add: parse_block0_def ym_consts)
qed

section \<open>Receiving a batch\<close>

lemma data_next:
  assumes "feeds env script" "left_of script y = block_of seq c @ s" "c \<noteq> []" "length c \<le> 1024"
    "1024 \<le> length (y_rdata y)"
  shows "\<exists>kind y1 y2 n. wait_hdr env t y = (H_block kind, y1) \<and> read_body env kind y1 = Some (B_ok seq n, y2) \<and>
    length c \<le> n \<and> n \<le> 1024 \<and> (length c = 1024 \<longrightarrow> n = 1024) \<and>
    left_of script y2 = s \<and> only_read y y2 \<and> take (length c) (y_rdata y2) = c"
proof -
  define kind where "kind = (if length c \<le> 128 then YM_SOH else YM_STX)"
  define data where "data = c @ replicate (block_len kind - length c) YM_CPMEOF"
  have bl: "block_len kind = (if length c \<le> 128 then 128 else 1024)"
    by (simp add: kind_def block_len_def ym_bytes)
  have f: "block_of seq c = frame kind seq data"
    by (simp add: block_of_def kind_def data_def block_len_def ym_bytes)
  have "kind = YM_SOH \<or> kind = YM_STX" "length data = block_len kind"
    using assms(4) bl by (simp_all add: kind_def data_def)
  from block_next [OF assms(1) assms(2) [unfolded f] this assms(5), of t] obtain y1 y2 where
    r: "wait_hdr env t y = (H_block kind, y1)" "read_body env kind y1 = Some (B_ok seq (block_len kind), y2)"
    "left_of script y2 = s" "only_read y y2" "take (block_len kind) (y_rdata y2) = data"
    by blast
  have "take (length c) (y_rdata y2) = take (length c) (take (block_len kind) (y_rdata y2))"
    using bl assms(4) by (simp add: min_def)
  then have "take (length c) (y_rdata y2) = c" by (simp add: r(5) data_def)
  with r bl assms(4) show ?thesis by auto
qed

lemma recv_data_batch:
  assumes "feeds env script" "left_of script y = concat (data_frames expect cs) @ YM_EOT # s"
    "cut_ok (unat remaining) cs" "1024 \<le> length (y_rdata y)"
  shows "\<exists>y'. recv_data env True remaining expect prompt y = Some (None, y') \<and> left_of script y' = s \<and>
    sinks (y_log y') = sinks (y_log y) @ map (\<lambda>c. Y_write c True) cs \<and> length (y_rdata y') = length (y_rdata y)"
  using assms(2-4)
proof (induction cs arbitrary: y expect remaining prompt)
  case Nil
  obtain y1 where 1: "wait_hdr env YM_ACK_TIMEOUT_MS y = (H_eot, y1)" "left_of script y1 = s" "only_read y y1"
    using wait_hdr_next(2) [OF assms(1), of y YM_EOT s YM_ACK_TIMEOUT_MS] Nil.prems(1) by auto
  obtain y2 where 2: "put env [YM_ACK] y1 = (True, y2)" "left_of script y2 = s" "only_read y1 y2"
    using put_next [OF assms(1), of "[YM_ACK]" y1] 1(2) by auto
  have "remaining = 0" using Nil.prems(2) by (simp add: unat_eq_zero)
  then have "recv_data env True remaining expect prompt y = Some (None, y2)"
    using 1(1) 2(1) by (subst recv_data.simps) (simp add: prompt_loop.simps Let_def)
  with 1 2 show ?case by (auto simp: only_read_def)
next
  case (Cons c cs)
  have c: "c \<noteq> []" "length c = min (unat remaining) 1024" "cut_ok (unat remaining - length c) cs"
    using Cons.prems(2) unfolding cut_ok.simps by blast+
  let ?s = "concat (data_frames (expect + 1) cs) @ YM_EOT # s"
  have l: "left_of script y = block_of expect c @ ?s" using Cons.prems(1) by simp
  have "length c \<le> 1024" using c(2) by simp
  from data_next [OF assms(1) l c(1) this Cons.prems(3), of YM_ACK_TIMEOUT_MS] obtain kind y1 y2 n where
    1: "wait_hdr env YM_ACK_TIMEOUT_MS y = (H_block kind, y1)" "read_body env kind y1 = Some (B_ok expect n, y2)"
    "length c \<le> n" "n \<le> 1024" "length c = 1024 \<longrightarrow> n = 1024" "left_of script y2 = ?s" "only_read y y2"
    "take (length c) (y_rdata y2) = c"
    by blast
  have m: "min n (unat remaining) = length c" using 1(3-5) c(2) by (auto simp: min_def split: if_splits)
  define y3 where "y3 = ym_log (Y_write c True) y2"
  have d: "deliver env c y2 = (True, y3)"
    using c(1) assms(1) by (simp add: deliver_def feeds_def y3_def Let_def)
  have l3: "left_of script y3 = ?s" using 1(6) by (simp add: y3_def)
  obtain y4 where 4: "put env [YM_ACK] y3 = (True, y4)" "left_of script y4 = ?s" "only_read y3 y4" "y_rdata y4 = y_rdata y3"
    using put_next [OF assms(1), of "[YM_ACK]" y3] l3 by auto
  have le: "length c \<le> unat remaining" using c(2) by simp
  then have "unat (of_nat (length c) :: u32) = length c"
    using u32_bound [of remaining] by (simp add: unat_of_nat)
  then have u: "unat (remaining - of_nat (length c)) = unat remaining - length c"
    using le by (simp add: unat_sub word_le_nat_alt)
  have ne: "expect \<noteq> expect - 1" by simp
  have step: "recv_data env True remaining expect prompt y =
      recv_data env True (remaining - of_nat (length c)) (expect + 1) YM_NAK y4"
    using 1(1,2,8) d 4(1) m ne
    by (subst recv_data.simps) (simp add: prompt_loop.simps Let_def)
  have "1024 \<le> length (y_rdata y4)" using Cons.prems(3) 1(7) 4(4) by (simp add: only_read_def y3_def)
  from Cons.IH [OF 4(2) _ this, of "remaining - of_nat (length c)" YM_NAK] obtain y' where
    "recv_data env True (remaining - of_nat (length c)) (expect + 1) YM_NAK y4 = Some (None, y')"
    "left_of script y' = s" "sinks (y_log y') = sinks (y_log y4) @ map (\<lambda>c. Y_write c True) cs"
    "length (y_rdata y') = length (y_rdata y4)"
    using c(3) u by auto
  with step 1(7) 4(3,4) show ?case by (auto simp: only_read_def y3_def)
qed

lemma ym_recv_batch:
  assumes "feeds env (concat (batch (Some nm) bytes cs))" "cut_ok (unat bytes) cs"
    "nm \<noteq> []" "length nm \<le> 100" "0 \<notin> set nm" "1024 \<le> length (y_rdata y)" "y_log y = []"
  shows "\<exists>y'. ymodem_recv env y = Some (YM_OK, y') \<and>
    sinks (y_log y') = Y_begin nm bytes True # map (\<lambda>c. Y_write c True) cs"
proof -
  define script where "script = concat (batch (Some nm) bytes cs)"
  have fd: "feeds env script" using assms(1) by (simp add: script_def)
  define last_s where "last_s = frame YM_SOH 0 (replicate 128 0)"
  define data_s where "data_s = concat (data_frames 1 cs) @ YM_EOT # last_s"
  define y0 where "y0 = y\<lparr>y_diag := clear_diag\<rparr>"
  have l0: "left_of script y0 = frame YM_SOH 0 (block0 (Some nm) bytes) @ data_s"
    using assms(7) by (simp add: y0_def script_def batch_def data_s_def last_s_def rx_count_def)
  have bl: "block_len YM_SOH = 128" by (simp add: block_len_def ym_bytes)
  obtain y1 where 1: "put env [YM_CRC_C] y0 = (True, y1)" "left_of script y1 = frame YM_SOH 0 (block0 (Some nm) bytes) @ data_s"
    "only_read y0 y1"
    using put_next [OF fd, of "[YM_CRC_C]" y0] l0 by auto
  have len0: "length (block0 (Some nm) bytes) = block_len YM_SOH" using block0_shape [OF assms(3,4)] bl by auto
  have "1024 \<le> length (y_rdata y1)" using assms(6) 1(3) by (simp add: only_read_def y0_def)
  from block_next [OF fd 1(2) disjI1 [OF refl] len0 this, of YM_HANDSHAKE_TIMEOUT_MS] obtain y2 y3 where
    2: "wait_hdr env YM_HANDSHAKE_TIMEOUT_MS y1 = (H_block YM_SOH, y2)" "read_body env YM_SOH y2 = Some (B_ok 0 128, y3)"
    "left_of script y3 = data_s" "only_read y1 y3" "take 128 (y_rdata y3) = block0 (Some nm) bytes"
    unfolding bl by blast
  have start: "recv_start env 0 y0 = Some (None, y3)"
    using 1(1) 2(1,2) by (subst recv_start.simps) (simp add: Let_def ym_consts)
  have parse: "parse_block0 YM_BLOCK0_LEN (y_rdata y3) = Some (nm, bytes, True)"
    using parse_block0_block0 [OF assms(3,4,5) 2(5)] .
  have beg: "g_begin env (y_log y3) nm bytes" using fd by (simp add: feeds_def)
  define y4 where "y4 = ym_log (Y_begin nm bytes True) y3"
  have l4: "left_of script y4 = data_s" using 2(3) by (simp add: y4_def)
  obtain y5 where 5: "put env [YM_ACK] y4 = (True, y5)" "left_of script y5 = data_s" "only_read y4 y5" "y_rdata y5 = y_rdata y4"
    using put_next [OF fd, of "[YM_ACK]" y4] l4 by auto
  obtain y6 where 6: "put env [YM_CRC_C] y5 = (True, y6)" "left_of script y6 = data_s" "only_read y5 y6" "y_rdata y6 = y_rdata y5"
    using put_next [OF fd, of "[YM_CRC_C]" y5] 5(2) by auto
  have r6: "1024 \<le> length (y_rdata y6)"
    using assms(6) 1(3) 2(4) 5(4) 6(4) by (simp add: only_read_def y4_def y0_def)
  from recv_data_batch [OF fd 6(2) [unfolded data_s_def] assms(2) r6, of YM_CRC_C] obtain y7 where
    7: "recv_data env True bytes 1 YM_CRC_C y6 = Some (None, y7)" "left_of script y7 = last_s"
    "sinks (y_log y7) = sinks (y_log y6) @ map (\<lambda>c. Y_write c True) cs" "length (y_rdata y7) = length (y_rdata y6)"
    by blast
  obtain y8 where 8: "put env [YM_CRC_C] y7 = (True, y8)" "left_of script y8 = last_s" "only_read y7 y8" "y_rdata y8 = y_rdata y7"
    using put_next [OF fd, of "[YM_CRC_C]" y7] 7(2) by auto
  have l8: "left_of script y8 = frame YM_SOH 0 (replicate 128 0) @ []" using 8(2) by (simp add: last_s_def)
  have r8: "length (replicate 128 (0 :: u8)) = block_len YM_SOH" "1024 \<le> length (y_rdata y8)"
    using bl r6 7(4) 8(4) by simp_all
  from block_next [OF fd l8 disjI1 [OF refl] r8, of YM_ACK_TIMEOUT_MS] obtain y9 y10 where
    9: "wait_hdr env YM_ACK_TIMEOUT_MS y8 = (H_block YM_SOH, y9)" "read_body env YM_SOH y9 = Some (B_ok 0 128, y10)"
    "only_read y8 y10" "take 128 (y_rdata y10) = replicate 128 0"
    unfolding bl by blast
  have len10: "1024 \<le> length (y_rdata y10)" using 9(3) r8(2) by (simp add: only_read_def)
  then have ld0: "ld (y_rdata y10) 0 = Some 0"
  proof -
    have "y_rdata y10 ! 0 = take 128 (y_rdata y10) ! 0" by simp
    also have "\<dots> = 0" unfolding 9(4) by simp
    finally show ?thesis using len10 by (auto simp: ld_def)
  qed
  define y11 where "y11 = snd (put env [YM_ACK] y10)"
  have close: "recv_close env 0 y8 = Some (YM_OK, y11)"
    by (subst recv_close.simps)
      (simp only: 9(1,2) Let_def prod.sel hdr.case body.case bind.bind_lunit ld0 y11_def simp_thms if_False)
  have "ym_recv_run env y0 = Some (YM_OK, y11)"
    unfolding ym_recv_run_def start bind.bind_lunit prod.case option.case parse if_not_P [OF assms(3)] Let_def
    using beg 5(1) 6(1) 7(1) 8(1) close by (simp add: y4_def [symmetric])
  then have "ymodem_recv env y = Some (YM_OK, y11)" by (simp add: ymodem_recv_def y0_def)
  moreover have "sinks (y_log y11) = Y_begin nm bytes True # map (\<lambda>c. Y_write c True) cs"
  proof -
    have "sinks (y_log y11) = sinks (y_log y10)" by (simp add: y11_def put_def Let_def)
    moreover have "sinks (y_log y0) = []" using assms(7) by (simp add: y0_def sinks_def)
    ultimately show ?thesis
      using 1(3) 2(4) 5(3) 6(3) 7(3) 8(3) 9(3) by (simp add: only_read_def y4_def)
  qed
  ultimately show ?thesis by blast
qed

section \<open>Sending a batch\<close>

definition puts :: "ym_event list \<Rightarrow> u8 list list" where
  "puts log = concat (map (\<lambda>e. case e of Y_put bs ok \<Rightarrow> [bs] | _ \<Rightarrow> []) log)"

definition reads :: "ym_event list \<Rightarrow> u8 list" where
  "reads log = concat (map (\<lambda>e. case e of Y_read n rc bs \<Rightarrow> if rc < 0 then [] else bs | _ \<Rightarrow> []) log)"

lemma puts_snoc [simp]: "puts (log @ [e]) = puts log @ (case e of Y_put bs ok \<Rightarrow> [bs] | _ \<Rightarrow> [])"
  by (simp add: puts_def)

lemma reads_snoc [simp]:
  "reads (log @ [e]) = reads log @ (case e of Y_read n rc bs \<Rightarrow> if rc < 0 then [] else bs | _ \<Rightarrow> [])"
  by (simp add: reads_def)

text \<open>The puts of a send: every frame once or more, in order.\<close>

fun resends :: "u8 list list \<Rightarrow> u8 list list \<Rightarrow> bool" where
  "resends [] ps \<longleftrightarrow> ps = []"
| "resends (f # fs) ps \<longleftrightarrow> (\<exists>k qs. ps = replicate (Suc k) f @ qs \<and> resends fs qs)"

lemma resends_append: "resends fs ps \<Longrightarrow> resends gs qs \<Longrightarrow> resends (fs @ gs) (ps @ qs)"
  by (induction fs arbitrary: ps) fastforce+

lemma resends_one: "resends [f] (replicate (Suc k) f)"
  by (simp del: replicate_Suc)

text \<open>A wait: nothing is put or read from the source, and the block buffer stays.\<close>

definition waits :: "ym_env \<Rightarrow> ym \<Rightarrow> ym \<Rightarrow> bool" where
  "waits env y y' \<longleftrightarrow> quiet env y y' \<and> puts (y_log y') = puts (y_log y) \<and> reads (y_log y') = reads (y_log y)"

lemma waits_refl [simp]: "waits env y y" by (simp add: waits_def)
lemma waits_trans: "waits env x y \<Longrightarrow> waits env y z \<Longrightarrow> waits env x z"
  by (auto simp: waits_def intro: quiet_trans)

lemma getc_waits: "getc env t y = (b, y') \<Longrightarrow> waits env y y' \<and> (0 \<le> b \<longrightarrow> rx_count (y_log y) < rx_count (y_log y'))"
  using getc_quiet [of env t y b y'] by (auto simp: waits_def getc_def Let_def)

lemma peer_cancel_waits: "peer_cancel env b y = (c, y') \<Longrightarrow> waits env y y'"
  using getc_waits by (auto simp: peer_cancel_def is_double_can_def Let_def split: if_splits prod.splits)

definition getc_range :: "ym_env \<Rightarrow> bool" where
  "getc_range env \<longleftrightarrow> (\<forall>log t. -2 \<le> g_getc env log t)"

lemma c_loop_total:
  assumes "byte_supply env N" "getc_range env" "rx_count (y_log y) \<le> N"
  shows "\<exists>rc y'. c_loop env t retries n y = Some (rc, y') \<and> waits env y y'"
  using assms(3)
proof (induction "(N - rx_count (y_log y)) + (Suc retries - n)" arbitrary: n y rule: less_induct)
  case less
  obtain b y1 where g: "getc env t y = (b, y1)" by fastforce
  obtain c y2 where p: "peer_cancel env b y1 = (c, y2)" by fastforce
  have b2: "-2 \<le> b" using g assms(2) by (auto simp: getc_def getc_range_def Let_def)
  have w: "waits env y y1" "waits env y y2" using getc_waits [OF g] peer_cancel_waits [OF p] by (auto intro: waits_trans)
  have mono: "rx_count (y_log y1) \<le> rx_count (y_log y2)" using peer_cancel_waits [OF p] by (simp add: waits_def quiet_def)
  have rec: "\<exists>rc y'. c_loop env t retries m y2 = Some (rc, y') \<and> waits env y y'"
    if "(n < m \<and> m \<le> retries) \<or> (m = n \<and> rx_count (y_log y) < rx_count (y_log y2))" for m
  proof -
    have "rx_count (y_log y2) \<le> N" "rx_count (y_log y) \<le> rx_count (y_log y2)"
      using w(2) less.prems assms(1) by (auto simp: waits_def quiet_def)
    moreover from this have "(N - rx_count (y_log y2)) + (Suc retries - m) < (N - rx_count (y_log y)) + (Suc retries - n)"
      using that by linarith
    ultimately show ?thesis using less.hyps [of y2 m] w(2) by (auto intro: waits_trans)
  qed
  have "c \<longrightarrow> True" by simp
  show ?case
  proof (cases "is_byte b YM_CRC_C \<or> c")
    case True
    with g p w show ?thesis by (subst c_loop.simps) (auto simp: Let_def)
  next
    case no: False
    show ?thesis
    proof (cases "b = -1")
      case True
      with g p w no rec [of "n + 1"] show ?thesis by (subst c_loop.simps) (auto simp: Let_def)
    next
      case False
      have "b \<noteq> -2" using no p by (auto simp: peer_cancel_def)
      with b2 False have "0 \<le> b" by linarith
      with getc_waits [OF g] mono have "rx_count (y_log y) < rx_count (y_log y2)" by linarith
      with rec [of n] g p no False show ?thesis by (subst c_loop.simps) (simp add: Let_def)
    qed
  qed
qed

text \<open>A send: what was put, what the source gave, and the buffer kept.\<close>

definition sent :: "ym_env \<Rightarrow> ym \<Rightarrow> ym \<Rightarrow> u8 list list \<Rightarrow> u8 list \<Rightarrow> bool" where
  "sent env y y' ps rs \<longleftrightarrow> puts (y_log y') = puts (y_log y) @ ps \<and> reads (y_log y') = reads (y_log y) @ rs \<and>
     length (y_block y') = length (y_block y) \<and>
     (\<forall>N. byte_supply env N \<longrightarrow> rx_count (y_log y) \<le> N \<longrightarrow> rx_count (y_log y') \<le> N)"

lemma sent_waits: "waits env y y' \<Longrightarrow> sent env y y' [] []"
  by (auto simp: sent_def waits_def quiet_def)

lemma sent_trans: "sent env x y ps rs \<Longrightarrow> sent env y z qs ss \<Longrightarrow> sent env x z (ps @ qs) (rs @ ss)"
  by (auto simp: sent_def)

lemma ack_loop_sent: "\<exists>ps. (case ack_loop env t bs left y of (rc, y') \<Rightarrow> sent env y y' ps [] \<and>
    (rc = YM_OK \<longrightarrow> (\<exists>k. ps = replicate (Suc k) bs)))"
proof (induction left arbitrary: y)
  case 0
  obtain ok y1 where p: "put env bs y = (ok, y1)" by fastforce
  obtain b y2 where g: "getc env t y1 = (b, y2)" by fastforce
  obtain c y3 where q: "peer_cancel env b y2 = (c, y3)" by fastforce
  have s1: "sent env y y1 [bs] []" using p by (auto simp: put_def sent_def Let_def)
  have s2: "sent env y y2 [bs] []" "sent env y y3 [bs] []"
    using sent_trans [OF s1 sent_waits] getc_waits [OF g] peer_cancel_waits [OF q]
    by (auto dest: waits_trans)
  have "\<exists>k. [bs] = replicate (Suc k) bs" by (rule exI [of _ 0]) simp
  with p g q s1 s2 show ?case
    by (intro exI [of _ "[bs]"]) (auto simp: ack_loop.simps [of _ _ _ 0] Let_def)
next
  case (Suc n)
  obtain ok y1 where p: "put env bs y = (ok, y1)" by fastforce
  obtain b y2 where g: "getc env t y1 = (b, y2)" by fastforce
  obtain c y3 where q: "peer_cancel env b y2 = (c, y3)" by fastforce
  have s1: "sent env y y1 [bs] []" using p by (auto simp: put_def sent_def Let_def)
  have s2: "sent env y y2 [bs] []" "sent env y y3 [bs] []"
    using sent_trans [OF s1 sent_waits] getc_waits [OF g] peer_cancel_waits [OF q]
    by (auto dest: waits_trans)
  have one: "\<exists>k. [bs] = replicate (Suc k) bs" by (rule exI [of _ 0]) simp
  show ?case
  proof (cases "ok \<and> \<not> is_byte b YM_ACK \<and> \<not> c")
    case False
    with p g q s1 s2 one show ?thesis
      by (intro exI [of _ "[bs]"]) (auto simp: ack_loop.simps [of _ _ _ "Suc n"] Let_def)
  next
    case True
    obtain rc y4 where r: "ack_loop env t bs n y3 = (rc, y4)" by fastforce
    obtain ps where ps: "sent env y3 y4 ps []" "rc = YM_OK \<longrightarrow> (\<exists>k. ps = replicate (Suc k) bs)"
      using Suc.IH [of y3] r by auto
    have "ack_loop env t bs (Suc n) y = (rc, y4)"
      using True p g q r by (simp add: ack_loop.simps [of _ _ _ "Suc n"] Let_def)
    moreover have "sent env y y4 (bs # ps) []" using sent_trans [OF s2(2) ps(1)] by simp
    moreover have "\<exists>k. bs # ps = replicate (Suc k) bs" if "rc = YM_OK"
    proof -
      obtain k where "ps = replicate (Suc k) bs" using ps(2) \<open>rc = YM_OK\<close> by blast
      then show ?thesis by (intro exI [of _ "Suc k"]) simp
    qed
    ultimately show ?thesis by (intro exI [of _ "bs # ps"]) simp
  qed
qed

lemma send_block_total:
  assumes "length (y_block y) = 1029" "n \<le> 1024"
  shows "\<exists>rc y' ps. send_block env kind seq n y = Some (rc, y') \<and> sent env y y' ps [] \<and>
    (rc = YM_OK \<longrightarrow> (\<exists>k. ps = replicate (Suc k) (frame kind seq (take n (drop 3 (y_block y))))))"
proof -
  define data where "data = take n (drop 3 (y_block y))"
  define f where "f = frame kind seq data"
  have ld: "length data = n" using assms by (simp add: data_def)
  then have lf: "length f = n + 5" by (simp add: f_def frame_def Let_def)
  define blk where "blk = f @ drop (length f) (y_block y)"
  have c: "cpy (y_block y) 0 f = Some blk" using assms lf by (simp add: cpy_def blk_def)
  have t: "take (YM_HDR + n + 2) blk = f" using lf by (simp add: blk_def ym_consts)
  let ?y = "y\<lparr>y_block := blk\<rparr>"
  have s: "sent env y ?y [] []" using assms lf by (simp add: sent_def blk_def)
  obtain rc y' where r: "ack_loop env YM_ACK_TIMEOUT_MS f YM_BLOCK_RETRIES ?y = (rc, y')" by fastforce
  obtain ps where ps: "sent env ?y y' ps []" "rc = YM_OK \<longrightarrow> (\<exists>k. ps = replicate (Suc k) f)"
    using ack_loop_sent [where env = env and t = YM_ACK_TIMEOUT_MS and bs = f and left = YM_BLOCK_RETRIES and y = ?y] r by auto
  have h: "take n (drop YM_HDR (y_block y)) = data" by (simp add: data_def ym_consts)
  have "send_block env kind seq n y = Some (rc, y')"
    unfolding send_block_def h f_def [symmetric] Let_def c bind.bind_lunit t r using ld by simp
  moreover have "sent env y y' ps []" using sent_trans [OF s ps(1)] by simp
  ultimately show ?thesis using ps(2) unfolding f_def data_def by blast
qed

definition source_ok :: "ym_env \<Rightarrow> bool" where
  "source_ok env \<longleftrightarrow> (\<forall>log n. length (snd (g_read env log n)) \<le> n)"

lemma fill_loop_total:
  assumes "source_ok env" "length (y_block y) = 1029" "filled \<le> want" "want \<le> 1024"
  shows "\<exists>r y' bs. fill_loop env want filled y = Some (r, y') \<and> sent env y y' [] bs \<and>
    (\<forall>m. r = Some m \<longrightarrow> m = filled + length bs \<and> m \<le> want \<and>
       take m (drop 3 (y_block y')) = take filled (drop 3 (y_block y)) @ bs)"
  using assms(2,3)
proof (induction "want - filled" arbitrary: filled y rule: less_induct)
  case less
  show ?case
  proof (cases "filled < want")
    case False
    with less.prems show ?thesis
      by (subst fill_loop.simps)
        (intro exI [of _ "Some filled"] exI [of _ y] exI [of _ "[]"], simp add: sent_def)
  next
    case True
    obtain rc bs where g: "g_read env (y_log y) (want - filled) = (rc, bs)" by fastforce
    have lb: "length bs \<le> want - filled" using assms(1) g by (metis snd_conv source_ok_def)
    define y1 where "y1 = ym_log (Y_read (want - filled) rc bs) y"
    have r: "src_read env (want - filled) y = ((rc, bs), y1)" by (simp add: src_read_def g y1_def)
    have y1: "y_block y1 = y_block y" "sent env y y1 [] (if rc < 0 then [] else bs)"
      by (auto simp: y1_def sent_def is_rx_def)
    show ?thesis
    proof (cases "rc < 0")
      case neg: True
      have "fill_loop env want filled y = Some (None, y1)"
        using True r neg by (subst fill_loop.simps) (simp add: Let_def)
      with y1 neg show ?thesis by auto
    next
      case False
      define blk where "blk = take (3 + filled) (y_block y) @ bs @ drop (3 + filled + length bs) (y_block y)"
      have fits: "3 + filled + length bs \<le> 1029" using lb True assms(4) by linarith
      then have c: "cpy (y_block y1) (YM_HDR + filled) bs = Some blk"
        using less.prems(1) y1(1) by (simp add: cpy_def blk_def ym_consts)
      define y2 where "y2 = y1\<lparr>y_block := blk\<rparr>"
      have lblk: "length blk = 1029" using fits less.prems(1) by (simp add: blk_def)
      have s2: "sent env y y2 [] bs" using y1 False lblk less.prems(1) by (simp add: y2_def sent_def)
      have tk: "take (filled + length bs) (drop 3 (y_block y2)) = take filled (drop 3 (y_block y)) @ bs"
        using fits less.prems(1) by (simp add: y2_def blk_def drop_take)
      show ?thesis
      proof (cases "bs = []")
        case empty: True
        have "fill_loop env want filled y = Some (Some filled, y2)"
          using True r False c empty by (subst fill_loop.simps) (simp add: Let_def y2_def)
        with s2 tk empty less.prems(2) show ?thesis
          by (intro exI [of _ "Some filled"] exI [of _ y2] exI [of _ "[]"]) simp
      next
        case ne: False
        have step: "fill_loop env want filled y = fill_loop env want (filled + length bs) y2"
          using True r False c ne by (subst fill_loop.simps) (simp add: Let_def y2_def)
        have "0 < length bs" using ne by simp
        then have h1: "want - (filled + length bs) < want - filled" using True by linarith
        have h2: "length (y_block y2) = 1029" using lblk by (simp add: y2_def)
        have h3: "filled + length bs \<le> want" using True lb by linarith
        from less.hyps [OF h1 h2 h3] obtain r' y' cs where R:
          "fill_loop env want (filled + length bs) y2 = Some (r', y')" "sent env y2 y' [] cs"
          "\<forall>m. r' = Some m \<longrightarrow> m = filled + length bs + length cs \<and> m \<le> want \<and>
             take m (drop 3 (y_block y')) = take (filled + length bs) (drop 3 (y_block y2)) @ cs"
          by blast
        have "sent env y y' [] (bs @ cs)" using sent_trans [OF s2 R(2)] by simp
        moreover have "\<forall>m. r' = Some m \<longrightarrow> m = filled + length (bs @ cs) \<and> m \<le> want \<and>
            take m (drop 3 (y_block y')) = take filled (drop 3 (y_block y)) @ bs @ cs"
          using R(3) unfolding tk by (simp only: length_append add.assoc append_assoc)
        ultimately show ?thesis unfolding step using R(1) by blast
      qed
    qed
  qed
qed

text \<open>The chunks a send took from the source.\<close>

definition chunks_of :: "nat \<Rightarrow> u8 list list \<Rightarrow> bool" where
  "chunks_of remaining cs \<longleftrightarrow> length (concat cs) \<le> remaining \<and>
     (length (concat cs) = remaining \<longrightarrow> cut_ok remaining cs)"

lemma chunks_nil: "chunks_of remaining []"
  by (simp add: chunks_of_def)

lemma chunks_cons:
  assumes "c \<noteq> []" "length c = min remaining 1024" "chunks_of (remaining - length c) cs"
  shows "chunks_of remaining (c # cs)"
proof -
  have le: "length c \<le> remaining" using assms(2) by simp
  have "length (concat cs) \<le> remaining - length c" using assms(3) by (simp add: chunks_of_def)
  then have "length c + length (concat cs) \<le> remaining" using le by linarith
  moreover have "cut_ok remaining (c # cs)" if "length c + length (concat cs) = remaining"
  proof -
    have "length (concat cs) = remaining - length c" using that by simp
    then have "cut_ok (remaining - length c) cs" using assms(3) by (simp add: chunks_of_def)
    with assms(1,2) show ?thesis unfolding cut_ok.simps by blast
  qed
  ultimately show ?thesis by (simp add: chunks_of_def del: cut_ok.simps)
qed

lemma chunks_short: "length c < min remaining 1024 \<Longrightarrow> chunks_of remaining [c]"
  by (simp add: chunks_of_def)

lemma send_data_total:
  assumes "byte_supply env N" "source_ok env" "length (y_block y) = 1029"
  shows "\<exists>rc y' ps rs. send_data env remaining seq y = Some (rc, y') \<and> sent env y y' ps rs \<and>
    (rc = YM_OK \<longrightarrow> (\<exists>cs. resends (data_frames seq cs) ps \<and> concat cs = rs \<and> chunks_of remaining cs))"
  using assms(3)
proof (induction remaining arbitrary: seq y rule: less_induct)
  case (less remaining)
  show ?case
  proof (cases "remaining = 0")
    case True
    have "resends (data_frames seq []) [] \<and> concat [] = [] \<and> chunks_of remaining []" by (simp add: chunks_nil)
    moreover have "send_data env remaining seq y = Some (YM_OK, y)"
      using True by (subst send_data.simps) simp
    moreover have "sent env y y [] []" by (simp add: sent_def)
    ultimately show ?thesis by blast
  next
    case False
    define want where "want = min remaining YM_DATA_MAX"
    have want: "want \<le> 1024" "0 \<le> want" "want = min remaining 1024" by (simp_all add: want_def ym_consts)
    obtain r y1 bs where f: "fill_loop env want 0 y = Some (r, y1)" "sent env y y1 [] bs"
      "\<forall>m. r = Some m \<longrightarrow> m = length bs \<and> m \<le> want \<and> take m (drop 3 (y_block y1)) = bs"
      using fill_loop_total [OF assms(2) less.prems want(2,1)] by auto
    show ?thesis
    proof (cases r)
      case None
      then have "send_data env remaining seq y = Some (YM_ERR_SOURCE, y1)"
        using False f(1) by (subst send_data.simps) (simp add: want_def [symmetric] Let_def)
      with f(2) show ?thesis by auto
    next
      case (Some m)
      then have m: "m = length bs" "m \<le> want" "take m (drop 3 (y_block y1)) = bs" using f(3) by auto
      show ?thesis
      proof (cases "m = 0")
        case True
        then have "send_data env remaining seq y = Some (YM_OK, y1)"
          using False f(1) Some by (subst send_data.simps) (simp add: want_def [symmetric] Let_def)
        moreover have "sent env y y1 [] []" using f(2) m(1) True by simp
        moreover have "resends (data_frames seq []) [] \<and> concat [] = [] \<and> chunks_of remaining []"
          by (simp add: chunks_nil)
        ultimately show ?thesis by blast
      next
        case m0: False
        define n where "n = (if m \<le> YM_BLOCK0_LEN then YM_BLOCK0_LEN else YM_DATA_MAX)"
        define kind where "kind = (if n = YM_BLOCK0_LEN then YM_SOH else YM_STX)"
        define pad where "pad = replicate (n - m) YM_CPMEOF"
        have n: "m \<le> n" "n \<le> 1024" "n = (if m \<le> 128 then 128 else 1024)"
          using m(2) want(1) by (simp_all add: n_def ym_consts)
        have lb: "length (y_block y1) = 1029" using f(2) less.prems by (simp add: sent_def)
        define blk where "blk = take (3 + m) (y_block y1) @ pad @ drop (3 + m + length pad) (y_block y1)"
        have c: "cpy (y_block y1) (YM_HDR + m) pad = Some blk"
          using n lb by (simp add: cpy_def blk_def pad_def ym_consts)
        define y2 where "y2 = y1\<lparr>y_block := blk\<rparr>"
        have y2: "length (y_block y2) = 1029" "take n (drop 3 (y_block y2)) = bs @ pad"
        proof -
          show "length (y_block y2) = 1029" using n lb by (simp add: y2_def blk_def pad_def)
          have "drop 3 (take (3 + m) (y_block y1)) = bs" using m(3) by (simp add: drop_take)
          moreover have "length (take (3 + m) (y_block y1)) = 3 + m" using n lb by simp
          ultimately show "take n (drop 3 (y_block y2)) = bs @ pad"
            using n(1) m(1) by (simp add: y2_def blk_def pad_def)
        qed
        have s2: "sent env y y2 [] bs"
          using f(2) y2(1) lb by (simp add: sent_def y2_def)
        obtain rc y3 ps where b: "send_block env kind seq n y2 = Some (rc, y3)" "sent env y2 y3 ps []"
          "rc = YM_OK \<longrightarrow> (\<exists>k. ps = replicate (Suc k) (frame kind seq (bs @ pad)))"
          using send_block_total [OF y2(1) n(2), of env kind seq] y2(2) by metis
        have fr: "frame kind seq (bs @ pad) = block_of seq bs"
          using n m(1) by (simp add: block_of_def kind_def pad_def ym_consts)
        have s3: "sent env y y3 ps bs" using sent_trans [OF s2 b(2)] by simp
        have unf: "send_data env remaining seq y =
            (if rc \<noteq> YM_OK then Some (rc, y3)
             else if m < want then Some (YM_OK, y3)
             else send_data env (remaining - m) (seq + 1) y3)"
          using False m0
          by (subst send_data.simps)
            (simp only: want_def [symmetric] f(1) Let_def bind.bind_lunit prod.sel Some option.case
              n_def [symmetric] kind_def [symmetric] pad_def [symmetric] c y2_def [symmetric] b(1) if_False simp_thms)
        have bs: "bs \<noteq> []" using m0 m(1) by auto
        have one: "resends (data_frames seq [bs]) ps" if "rc = YM_OK"
          using b(3) that fr by (auto simp: resends_one simp del: replicate_Suc resends.simps)
        consider "rc \<noteq> YM_OK" | "rc = YM_OK" "m < want" | "rc = YM_OK" "m = want" using m(2) by linarith
        then show ?thesis
        proof cases
          case 1
          with s3 show ?thesis unfolding unf by auto
        next
          case 2
          have "chunks_of remaining [bs]" using 2(2) m(1) want(3) by (intro chunks_short) simp
          with 2 s3 one show ?thesis unfolding unf
            by (intro exI [of _ YM_OK] exI [of _ y3] exI [of _ ps] exI [of _ bs])
              (simp del: resends.simps data_frames.simps, metis append_Nil2 concat.simps)
        next
          case 3
          have "remaining - m < remaining" "length (y_block y3) = 1029"
            using False m0 b(2) y2(1) by (simp_all add: sent_def)
          from less.IH [OF this, of "seq + 1"] obtain rc4 y4 qs rs where
            r: "send_data env (remaining - m) (seq + 1) y3 = Some (rc4, y4)" "sent env y3 y4 qs rs"
            "rc4 = YM_OK \<longrightarrow> (\<exists>cs. resends (data_frames (seq + 1) cs) qs \<and> concat cs = rs \<and> chunks_of (remaining - m) cs)"
            by blast
          have "\<exists>cs. resends (data_frames seq cs) (ps @ qs) \<and> concat cs = bs @ rs \<and> chunks_of remaining cs"
            if "rc4 = YM_OK"
          proof -
            obtain cs where cs: "resends (data_frames (seq + 1) cs) qs" "concat cs = rs" "chunks_of (remaining - m) cs"
              using r(3) \<open>rc4 = YM_OK\<close> by blast
            have "resends (data_frames seq [bs] @ data_frames (seq + 1) cs) (ps @ qs)"
              using one [OF 3(1)] cs(1) by (rule resends_append)
            moreover have "chunks_of remaining (bs # cs)"
              using bs cs(3) 3(2) want(3) m(1) by (intro chunks_cons) simp_all
            ultimately show ?thesis using cs(2) by (intro exI [of _ "bs # cs"]) simp
          qed
          moreover have "sent env y y4 (ps @ qs) (bs @ rs)" using sent_trans [OF s3 r(2)] .
          ultimately show ?thesis unfolding unf using 3 r(1) by simp blast
        qed
      qed
    qed
  qed
qed

lemma set_data_sent:
  assumes "length (y_block y) = 1029" "length bs \<le> 1024"
  shows "\<exists>y'. set_data bs y = Some y' \<and> sent env y y' [] [] \<and> take (length bs) (drop 3 (y_block y')) = bs"
proof -
  let ?blk = "take 3 (y_block y) @ bs @ drop (3 + length bs) (y_block y)"
  have "set_data bs y = Some (y\<lparr>y_block := ?blk\<rparr>)" using assms by (simp add: set_data_def cpy_def ym_consts)
  moreover have "take (length bs) (drop 3 ?blk) = bs" using assms(1) by simp
  ultimately show ?thesis using assms by (simp add: sent_def)
qed

lemma length_block0: "length (block0 name v) = 128"
proof -
  have d: "length (u32_to_dec v) \<le> 10"
    unfolding u32_to_dec_def using u32_bound [of v] by (intro length_dec) auto
  show ?thesis by (simp add: block0_def Let_def ym_consts)
qed

lemma and_then_cases:
  assumes "r = Some (rc, y)" "\<And>rc'. rc' \<noteq> YM_OK \<Longrightarrow> rc = rc' \<Longrightarrow> P (Some (rc', y))" "rc = YM_OK \<Longrightarrow> P (k y)"
  shows "P (and_then r k)"
  using assms by (cases "rc = YM_OK") (simp_all add: and_then_def)

text \<open>What is known of a send at any point: what it put and read so far, or why it stopped.\<close>

definition send_post :: "ym_env \<Rightarrow> ym \<Rightarrow> (u8 list list \<Rightarrow> u8 list \<Rightarrow> bool) \<Rightarrow> (ym_result \<times> ym) option \<Rightarrow> bool" where
  "send_post env y Q r \<longleftrightarrow>
     (\<exists>rc y' ps rs. r = Some (rc, y') \<and> sent env y y' ps rs \<and> (rc = YM_OK \<longrightarrow> Q ps rs))"

lemma send_post_then:
  assumes "send_post env y Q r"
    "\<And>y' ps rs. sent env y y' ps rs \<Longrightarrow> Q ps rs \<Longrightarrow> send_post env y R (k y')"
  shows "send_post env y R (and_then r k)"
proof -
  obtain rc y' ps rs where r: "r = Some (rc, y')" "sent env y y' ps rs" "rc = YM_OK \<longrightarrow> Q ps rs"
    using assms(1) by (auto simp: send_post_def)
  show ?thesis
  proof (cases "rc = YM_OK")
    case True
    with assms(2) r show ?thesis by (simp add: and_then_def)
  next
    case False
    with r show ?thesis by (auto simp: and_then_def send_post_def)
  qed
qed

lemma send_post_after:
  assumes "sent env x y ps rs" "send_post env y (\<lambda>qs ss. Q (ps @ qs) (rs @ ss)) r"
  shows "send_post env x Q r"
proof -
  obtain rc y' qs ss where "r = Some (rc, y')" "sent env y y' qs ss" "rc = YM_OK \<longrightarrow> Q (ps @ qs) (rs @ ss)"
    using assms(2) by (auto simp: send_post_def)
  with sent_trans [OF assms(1)] show ?thesis unfolding send_post_def by blast
qed

definition sent_chunks :: "u8 list option \<Rightarrow> u32 \<Rightarrow> u8 list list \<Rightarrow> u8 list \<Rightarrow> bool" where
  "sent_chunks name bytes ps rs \<longleftrightarrow>
     (\<exists>cs. resends (batch name bytes cs) ps \<and> concat cs = rs \<and> chunks_of (unat bytes) cs)"

lemma ym_run_total:
  assumes "byte_supply env N" "getc_range env" "source_ok env" "length (y_block y) = 1029" "rx_count (y_log y) \<le> N"
  shows "send_post env y (sent_chunks name bytes) (ym_run env name bytes y)"
proof -
  define f0 where "f0 = frame YM_SOH 0 (block0 name bytes)"
  define fn where "fn = frame YM_SOH 0 (replicate 128 0)"
  have ok: "length (y_block z) = 1029" "rx_count (y_log z) \<le> N" if "sent env y z ps rs" for z ps rs
    using that assms(1,4,5) by (auto simp: sent_def)
  have wait: "send_post env y (\<lambda>qs ss. qs = ps \<and> ss = rs) (c_loop env t n 0 z)" if "sent env y z ps rs" for t n z ps rs
  proof -
    have le: "rx_count (y_log z) \<le> N" by (rule ok(2) [OF that])
    obtain rc z' where "c_loop env t n 0 z = Some (rc, z')" "waits env z z'"
      using c_loop_total [OF assms(1,2) le] by blast
    with sent_trans [OF that sent_waits] show ?thesis unfolding send_post_def by fastforce
  qed
  have block: "send_post env y (\<lambda>qs ss. \<exists>k. qs = ps @ replicate (Suc k) (frame YM_SOH 0 bs) \<and> ss = rs)
      (Option.bind (set_data bs z) (\<lambda>z. send_block env YM_SOH 0 YM_BLOCK0_LEN z))"
    if "sent env y z ps rs" "length bs = 128" for bs z ps rs
  proof -
    note h = that
    obtain z1 where z1: "set_data bs z = Some z1" "sent env z z1 [] []" "take 128 (drop 3 (y_block z1)) = bs"
      using set_data_sent [OF ok(1) [OF h(1)], of bs] h(2) by auto
    have s1: "sent env y z1 ps rs" using sent_trans [OF h(1) z1(2)] by simp
    obtain rc z2 qs where "send_block env YM_SOH 0 128 z1 = Some (rc, z2)" "sent env z1 z2 qs []"
      "rc = YM_OK \<longrightarrow> (\<exists>k. qs = replicate (Suc k) (frame YM_SOH 0 bs))"
      using send_block_total [OF ok(1) [OF s1], of 128 env YM_SOH 0] z1(3) by auto
    with z1(1) sent_trans [OF s1] show ?thesis unfolding send_post_def by (fastforce simp: ym_consts)
  qed
  have bnd: "Option.bind (set_data bs z) (\<lambda>z. and_then (g z) k) = and_then (Option.bind (set_data bs z) g) k" for bs z g k
    by (cases "set_data bs z") (simp_all add: and_then_def)
  show ?thesis
    unfolding ym_run_def wait_start_def wait_c_def bnd
  proof (rule send_post_then [OF wait [where ps = "[]" and rs = "[]"]])
    show "sent env y y [] []" by (simp add: sent_def)
  next
    fix y1 ps1 rs1 assume s1: "sent env y y1 ps1 rs1" and e1: "ps1 = [] \<and> rs1 = []"
    show "send_post env y (sent_chunks name bytes)
        (and_then (Option.bind (set_data (block0 name bytes) y1) (\<lambda>z. send_block env YM_SOH 0 YM_BLOCK0_LEN z)) (\<lambda>y.
         and_then (c_loop env YM_ACK_TIMEOUT_MS YM_BLOCK_RETRIES 0 y) (\<lambda>y.
         and_then (send_data env (unat bytes) 1 y) (\<lambda>y.
         and_then (Some (send_eot env y)) (\<lambda>y.
         and_then (c_loop env YM_ACK_TIMEOUT_MS YM_BLOCK_RETRIES 0 y) (\<lambda>y.
         Option.bind (set_data (replicate YM_BLOCK0_LEN 0) y) (\<lambda>y. send_block env YM_SOH 0 YM_BLOCK0_LEN y)))))))"
    proof (rule send_post_then [OF block [OF s1 length_block0]])
      fix y2 ps2 rs2 assume s2: "sent env y y2 ps2 rs2"
        and e2: "\<exists>k. ps2 = ps1 @ replicate (Suc k) (frame YM_SOH 0 (block0 name bytes)) \<and> rs2 = rs1"
      have r2: "resends [f0] ps2" "rs2 = []" using e1 e2 by (auto simp: f0_def resends_one simp del: replicate_Suc resends.simps)
      show "send_post env y (sent_chunks name bytes) (and_then (c_loop env YM_ACK_TIMEOUT_MS YM_BLOCK_RETRIES 0 y2) (\<lambda>y.
         and_then (send_data env (unat bytes) 1 y) (\<lambda>y.
         and_then (Some (send_eot env y)) (\<lambda>y.
         and_then (c_loop env YM_ACK_TIMEOUT_MS YM_BLOCK_RETRIES 0 y) (\<lambda>y.
         Option.bind (set_data (replicate YM_BLOCK0_LEN 0) y) (\<lambda>y. send_block env YM_SOH 0 YM_BLOCK0_LEN y))))))"
      proof (rule send_post_then [OF wait [OF s2]])
        fix y3 ps3 rs3 assume s3: "sent env y y3 ps3 rs3" and e3: "ps3 = ps2 \<and> rs3 = rs2"
        have d: "send_post env y (\<lambda>qs ss. \<exists>cs. resends (f0 # data_frames 1 cs) qs \<and> concat cs = ss \<and> chunks_of (unat bytes) cs)
            (send_data env (unat bytes) 1 y3)"
        proof -
          obtain rc y4 qs ss where D: "send_data env (unat bytes) 1 y3 = Some (rc, y4)" "sent env y3 y4 qs ss"
            "rc = YM_OK \<longrightarrow> (\<exists>cs. resends (data_frames 1 cs) qs \<and> concat cs = ss \<and> chunks_of (unat bytes) cs)"
            using send_data_total [OF assms(1,3) ok(1) [OF s3]] by blast
          have "resends (f0 # data_frames 1 cs) (ps3 @ qs)" if "resends (data_frames 1 cs) qs" for cs
            using resends_append [OF r2(1) that] e3 by simp
          with D sent_trans [OF s3 D(2)] e3 r2(2) show ?thesis
            unfolding send_post_def by (metis append_Nil)
        qed
        show "send_post env y (sent_chunks name bytes) (and_then (send_data env (unat bytes) 1 y3) (\<lambda>y.
         and_then (Some (send_eot env y)) (\<lambda>y.
         and_then (c_loop env YM_ACK_TIMEOUT_MS YM_BLOCK_RETRIES 0 y) (\<lambda>y.
         Option.bind (set_data (replicate YM_BLOCK0_LEN 0) y) (\<lambda>y. send_block env YM_SOH 0 YM_BLOCK0_LEN y)))))"
        proof (rule send_post_then [OF d])
          fix y4 ps4 rs4 assume s4: "sent env y y4 ps4 rs4"
            and "\<exists>cs. resends (f0 # data_frames 1 cs) ps4 \<and> concat cs = rs4 \<and> chunks_of (unat bytes) cs"
          then obtain cs where cs: "resends (f0 # data_frames 1 cs) ps4" "concat cs = rs4" "chunks_of (unat bytes) cs" by blast
          have e: "send_post env y (\<lambda>qs ss. resends (f0 # data_frames 1 cs @ [[YM_EOT]]) qs \<and> ss = rs4) (Some (send_eot env y4))"
          proof -
            obtain rc y5 where E: "send_eot env y4 = (rc, y5)" by fastforce
            obtain qs where qs: "sent env y4 y5 qs []" "rc = YM_OK \<longrightarrow> (\<exists>k. qs = replicate (Suc k) [YM_EOT])"
              using ack_loop_sent [where env = env and t = YM_EOT_TIMEOUT_MS and bs = "[YM_EOT]" and left = YM_BLOCK_RETRIES
                  and y = y4] E by (auto simp: send_eot_def)
            have "resends (f0 # data_frames 1 cs @ [[YM_EOT]]) (ps4 @ qs)" if "rc = YM_OK"
            proof -
              obtain k where k: "qs = replicate (Suc k) [YM_EOT]" using qs(2) \<open>rc = YM_OK\<close> by blast
              have "resends [[YM_EOT]] qs" unfolding k by (rule resends_one)
              from resends_append [OF cs(1) this] show ?thesis by simp
            qed
            moreover have "sent env y y5 (ps4 @ qs) rs4" using sent_trans [OF s4 qs(1)] by simp
            ultimately show ?thesis unfolding send_post_def E by blast
          qed
          show "send_post env y (sent_chunks name bytes) (and_then (Some (send_eot env y4)) (\<lambda>y.
             and_then (c_loop env YM_ACK_TIMEOUT_MS YM_BLOCK_RETRIES 0 y) (\<lambda>y.
             Option.bind (set_data (replicate YM_BLOCK0_LEN 0) y) (\<lambda>y. send_block env YM_SOH 0 YM_BLOCK0_LEN y))))"
          proof (rule send_post_then [OF e])
            fix y5 ps5 rs5 assume s5: "sent env y y5 ps5 rs5"
              and e5: "resends (f0 # data_frames 1 cs @ [[YM_EOT]]) ps5 \<and> rs5 = rs4"
            show "send_post env y (sent_chunks name bytes) (and_then (c_loop env YM_ACK_TIMEOUT_MS YM_BLOCK_RETRIES 0 y5) (\<lambda>y.
               Option.bind (set_data (replicate YM_BLOCK0_LEN 0) y) (\<lambda>y. send_block env YM_SOH 0 YM_BLOCK0_LEN y)))"
            proof (rule send_post_then [OF wait [OF s5]])
              fix y6 ps6 rs6 assume s6: "sent env y y6 ps6 rs6" and e6: "ps6 = ps5 \<and> rs6 = rs5"
              have l: "length (replicate YM_BLOCK0_LEN (0 :: u8)) = 128" by (simp add: ym_consts)
              have fin: "sent_chunks name bytes qs ss"
                if "\<exists>k. qs = ps6 @ replicate (Suc k) (frame YM_SOH 0 (replicate YM_BLOCK0_LEN 0)) \<and> ss = rs6" for qs ss
              proof -
                note h = that
                obtain k where k: "qs = ps6 @ replicate (Suc k) fn" "ss = rs6"
                  using h by (auto simp: fn_def ym_consts simp del: replicate_Suc)
                have "resends ((f0 # data_frames 1 cs @ [[YM_EOT]]) @ [fn]) qs"
                  unfolding k(1) using e5 e6 by (intro resends_append resends_one) simp
                then have "resends (batch name bytes cs) qs" by (simp add: batch_def f0_def fn_def)
                with cs k(2) e5 e6 show ?thesis unfolding sent_chunks_def by blast
              qed
              from block [OF s6 l] obtain rc z qs ss where b:
                "Option.bind (set_data (replicate YM_BLOCK0_LEN 0) y6) (\<lambda>z. send_block env YM_SOH 0 YM_BLOCK0_LEN z) = Some (rc, z)"
                "sent env y z qs ss" "rc = YM_OK \<longrightarrow> (\<exists>k. qs = ps6 @ replicate (Suc k) (frame YM_SOH 0 (replicate YM_BLOCK0_LEN 0)) \<and> ss = rs6)"
                unfolding send_post_def by blast
              from b(3) fin have "rc = YM_OK \<longrightarrow> sent_chunks name bytes qs ss" by blast
              with b(1,2) show "send_post env y (sent_chunks name bytes)
                (Option.bind (set_data (replicate YM_BLOCK0_LEN 0) y6) (\<lambda>y. send_block env YM_SOH 0 YM_BLOCK0_LEN y))"
                unfolding send_post_def by blast
            qed
          qed
        qed
      qed
    qed
  qed
qed

lemma send_total:
  assumes "byte_supply env N" "getc_range env" "source_ok env" "length (y_block y) = 1029" "y_log y = []"
  shows "\<exists>rc y'. ymodem_send env name bytes y = Some (rc, y') \<and>
    (rc = YM_OK \<longrightarrow> sent_chunks name bytes (puts (y_log y')) (reads (y_log y')))"
proof -
  have "rx_count (y_log y) \<le> N" using assms(5) by (simp add: rx_count_def)
  from ym_run_total [OF assms(1-4) this, of name bytes] obtain rc y' ps rs where
    r: "ym_run env name bytes y = Some (rc, y')" "sent env y y' ps rs" "rc = YM_OK \<longrightarrow> sent_chunks name bytes ps rs"
    unfolding send_post_def by blast
  have "puts (y_log y') = ps" "reads (y_log y') = rs" using r(2) assms(5) by (simp_all add: sent_def puts_def reads_def)
  with r show ?thesis unfolding ymodem_send_def by simp
qed

lemma feeds_line_env: "feeds (line_env script) script"
  by (simp add: feeds_def line_env_def)

text \<open>C17. A send whose peer delivers finitely many bytes ends, whatever those bytes, the source and the
  line; when it ends with \<open>YM_OK\<close>, the line carried exactly the YMODEM batch of the file -- header
  block, the data blocks numbered from 1, \<open>EOT\<close>, the empty header block -- each frame one or more
  times in a row, and the data blocks carried exactly the bytes the source delivered.\<close>

theorem ymodem_send_terminates_with_batch:
  assumes "\<forall>log t. N \<le> rx_count log \<longrightarrow> g_getc env log t < 0" "\<forall>log t. -2 \<le> g_getc env log t"
    "\<forall>log n. length (snd (g_read env log n)) \<le> n" "length (y_block y) = 1029" "y_log y = []"
  shows "\<exists>rc y'. ymodem_send env name bytes y = Some (rc, y') \<and>
    (rc = YM_OK \<longrightarrow> (\<exists>cs. resends (batch name bytes cs) (puts (y_log y')) \<and> concat cs = reads (y_log y') \<and>
       length (reads (y_log y')) \<le> unat bytes))"
proof -
  have "byte_supply env N" "getc_range env" "source_ok env"
    using assms(1-3) by (simp_all add: byte_supply_def getc_range_def source_ok_def)
  from send_total [OF this assms(4,5), of name bytes] show ?thesis
    by (auto simp: sent_chunks_def chunks_of_def)
qed

lemma ymodem_send_terminates_with_batch_witness:
  "\<exists>rc y'. ymodem_send (line_env [YM_CRC_C, YM_ACK]) (Some [97]) 5 ym_idle = Some (rc, y') \<and>
    (rc = YM_OK \<longrightarrow> (\<exists>cs. resends (batch (Some [97]) 5 cs) (puts (y_log y')) \<and> concat cs = reads (y_log y') \<and>
       length (reads (y_log y')) \<le> unat (5 :: u32)))"
  by (rule ymodem_send_terminates_with_batch [of 2]) (simp_all add: line_env_def ym_idle_def order.trans [OF _ uint_ge_0])

lemma length_frame: "length (frame k s d) = length d + 5"
  by (simp add: frame_def Let_def)

end
