(* ===== verification/YmodemDelivery.thy ===== *)
theory YmodemDelivery
  imports YmodemLink
begin

text \<open>
  Delivery over \<open>svc/ymodem.c\<close>: a send to a peer that answers as the protocol asks completes, and
  what it put on the line makes a receiver write the file.
\<close>

section \<open>A peer that answers\<close>

definition supplies :: "ym_env \<Rightarrow> u8 list \<Rightarrow> bool" where
  "supplies env file \<longleftrightarrow>
     (\<forall>log n. g_read env log n = (let bs = take n (drop (length (reads log)) file) in (int (length bs), bs)))"

definition data_blocks :: "nat \<Rightarrow> nat" where
  "data_blocks n = (n + 1023) div 1024"

text \<open>The answers to a batch: \<open>C\<close>, block 0 acknowledged, \<open>C\<close>, an acknowledgement per data block and one
  for \<open>EOT\<close>, \<open>C\<close>, the closing block acknowledged.\<close>

definition answers :: "nat \<Rightarrow> u8 list" where
  "answers n = [YM_CRC_C, YM_ACK, YM_CRC_C] @ replicate (data_blocks n) YM_ACK @ [YM_ACK, YM_CRC_C, YM_ACK]"

text \<open>A step of the sender that leaves \<open>s\<close> to be read and took \<open>rs\<close> from the source.\<close>

definition goes :: "ym_env \<Rightarrow> u8 list \<Rightarrow> ym \<Rightarrow> ym \<Rightarrow> u8 list \<Rightarrow> u8 list \<Rightarrow> bool" where
  "goes env script y y' s rs \<longleftrightarrow> left_of script y' = s \<and> (\<exists>ps. sent env y y' ps rs)"

lemma goes_trans: "goes env script x y s rs \<Longrightarrow> goes env script y z t ss \<Longrightarrow> goes env script x z t (rs @ ss)"
  unfolding goes_def using sent_trans by blast

lemma goes_block: "goes env script y z s rs \<Longrightarrow> length (y_block z) = length (y_block y) \<and> reads (y_log z) = reads (y_log y) @ rs"
  by (auto simp: goes_def sent_def)

lemma c_loop_next:
  assumes "feeds env script" "left_of script y = YM_CRC_C # s"
  shows "\<exists>y'. c_loop env t k n y = Some (YM_OK, y') \<and> goes env script y y' s []"
proof -
  from getc_next [OF assms, of t] obtain y' where g: "getc env t y = (uint YM_CRC_C, y')" "left_of script y' = s" by blast
  have "c_loop env t k n y = Some (YM_OK, y')" using g(1) by (subst c_loop.simps) (simp add: is_byte_def)
  with g(2) getc_waits [OF g(1)] show ?thesis unfolding goes_def using sent_waits by blast
qed

lemma ack_loop_next:
  assumes "feeds env script" "left_of script y = YM_ACK # s"
  shows "\<exists>y'. ack_loop env t bs n y = (YM_OK, y') \<and> goes env script y y' s []"
proof -
  obtain y1 where p: "put env bs y = (True, y1)" "left_of script y1 = YM_ACK # s"
    using put_next [OF assms(1), of bs y] assms(2) by auto
  obtain y2 where g: "getc env t y1 = (uint YM_ACK, y2)" "left_of script y2 = s"
    using getc_next [OF assms(1) p(2), of t] by blast
  have a: "ack_loop env t bs n y = (YM_OK, y2)" using p(1) g(1) by (subst ack_loop.simps) (simp add: is_byte_def)
  with ack_loop_sent [where env = env and t = t and bs = bs and left = n and y = y] obtain ps where "sent env y y2 ps []" by auto
  with a g(2) show ?thesis unfolding goes_def by blast
qed

lemma send_block_next:
  assumes "feeds env script" "left_of script y = YM_ACK # s" "length (y_block y) = 1029" "n \<le> 1024"
  shows "\<exists>y'. send_block env kind seq n y = Some (YM_OK, y') \<and> goes env script y y' s []"
proof -
  define blk where "blk = frame kind seq (take n (drop 3 (y_block y))) @ drop (n + 5) (y_block y)"
  have ld: "length (take n (drop 3 (y_block y))) = n" using assms(3,4) by simp
  then have c: "cpy (y_block y) 0 (frame kind seq (take n (drop YM_HDR (y_block y)))) = Some blk"
    using assms(3,4) by (simp add: cpy_def blk_def length_frame ym_consts)
  let ?y = "y\<lparr>y_block := blk\<rparr>"
  have s: "sent env y ?y [] []" using assms(3,4) ld by (simp add: sent_def blk_def length_frame)
  have "left_of script ?y = YM_ACK # s" using assms(2) by simp
  from ack_loop_next [OF assms(1) this] obtain y' where
    a: "ack_loop env YM_ACK_TIMEOUT_MS (take (YM_HDR + n + 2) blk) YM_BLOCK_RETRIES ?y = (YM_OK, y')" "goes env script ?y y' s []"
    by blast
  have "send_block env kind seq n y = Some (YM_OK, y')"
    unfolding send_block_def Let_def c bind.bind_lunit a(1) using ld by (simp add: ym_consts)
  moreover have "goes env script y y' s []" using a(2) sent_trans [OF s] unfolding goes_def by fastforce
  ultimately show ?thesis by blast
qed

lemma set_data_next:
  assumes "length (y_block y) = 1029" "length bs \<le> 1024"
  shows "\<exists>y'. set_data bs y = Some y' \<and> goes env script y y' (left_of script y) []"
proof -
  have "set_data bs y = Some (y\<lparr>y_block := take 3 (y_block y) @ bs @ drop (3 + length bs) (y_block y)\<rparr>)"
    using assms by (simp add: set_data_def cpy_def ym_consts)
  then show ?thesis using assms by (auto simp: goes_def sent_def)
qed

lemma fill_supplied:
  assumes "supplies env file" "drop (length (reads (y_log y))) file = bs @ xs" "length bs = want" "0 < want"
    "want \<le> 1024" "length (y_block y) = 1029"
  shows "\<exists>y'. fill_loop env want 0 y = Some (Some want, y') \<and> goes env script y y' (left_of script y) bs"
proof -
  have t: "take want (drop (length (reads (y_log y))) file) = bs" using assms(2,3) by simp
  have g: "g_read env (y_log y) want = (int want, bs)"
    using assms(1,3) unfolding supplies_def Let_def by (simp only: t)
  define y1 where "y1 = ym_log (Y_read want (int want) bs) y"
  define blk where "blk = take 3 (y_block y) @ bs @ drop (3 + want) (y_block y)"
  have r: "src_read env (want - 0) y = ((int want, bs), y1)" by (simp add: src_read_def g y1_def)
  have c: "cpy (y_block y1) (YM_HDR + 0) bs = Some blk"
    using assms(3,5,6) by (simp add: cpy_def blk_def y1_def ym_consts)
  have "fill_loop env want 0 y = fill_loop env want (0 + length bs) (y1\<lparr>y_block := blk\<rparr>)"
    using assms(3,4) r c by (subst fill_loop.simps) (auto simp: Let_def)
  also have "\<dots> = Some (Some want, y1\<lparr>y_block := blk\<rparr>)"
    using assms(3) by (subst fill_loop.simps) simp
  finally show ?thesis
    using assms(3,5,6) by (auto simp: goes_def sent_def y1_def blk_def is_rx_def)
qed

lemma data_blocks_step: "0 < n \<Longrightarrow> data_blocks n = Suc (data_blocks (n - min n 1024))"
proof (cases "n \<le> 1024")
  case False
  then have "n + 1023 = (n - 1024 + 1023) + 1024" by simp
  then have "(n + 1023) div 1024 = Suc ((n - 1024 + 1023) div 1024)" by (metis div_add_self2 Suc_eq_plus1 zero_neq_numeral)
  with False show ?thesis by (simp add: data_blocks_def min_def)
qed (auto simp: data_blocks_def min_def intro: div_nat_eqI)

lemma send_data_supplied:
  assumes "feeds env script" "supplies env file"
  shows "left_of script y = replicate (data_blocks (length rest)) YM_ACK @ s \<Longrightarrow>
    drop (length (reads (y_log y))) file = rest \<Longrightarrow> length (y_block y) = 1029 \<Longrightarrow>
    \<exists>y'. send_data env (length rest) seq y = Some (YM_OK, y') \<and> goes env script y y' s rest"
proof (induction "length rest" arbitrary: rest seq y rule: less_induct)
  case less
  show ?case
  proof (cases "rest = []")
    case True
    with less.prems(1) show ?thesis by (subst send_data.simps) (auto simp: goes_def sent_def data_blocks_def)
  next
    case False
    define want where "want = min (length rest) YM_DATA_MAX"
    define bs where "bs = take want rest"
    define rest' where "rest' = drop want rest"
    have w: "0 < want" "want \<le> 1024" "want = min (length rest) 1024" "length bs = want"
      using False by (auto simp: want_def bs_def ym_consts)
    have rest: "rest = bs @ rest'" "length rest' = length rest - want" by (simp_all add: bs_def rest'_def)
    obtain y1 where f: "fill_loop env want 0 y = Some (Some want, y1)"
      "goes env script y y1 (left_of script y) bs"
      using fill_supplied [OF assms(2) _ w(4,1,2) less.prems(3), of rest'] less.prems(2) rest(1) by blast
    note b1 = goes_block [OF f(2)]
    define n where "n = (if want \<le> YM_BLOCK0_LEN then YM_BLOCK0_LEN else YM_DATA_MAX)"
    have n: "want \<le> n" "n \<le> 1024" using w(2) by (simp_all add: n_def ym_consts)
    define pad where "pad = replicate (n - want) YM_CPMEOF"
    define blk where "blk = take (3 + want) (y_block y1) @ pad @ drop (3 + want + length pad) (y_block y1)"
    have c: "cpy (y_block y1) (YM_HDR + want) pad = Some blk"
      using n b1 less.prems(3) by (simp add: cpy_def blk_def pad_def ym_consts)
    define y2 where "y2 = y1\<lparr>y_block := blk\<rparr>"
    have lb: "length (y_block y2) = 1029" using n b1 less.prems(3) by (simp add: y2_def blk_def pad_def)
    have g2: "goes env script y y2 (left_of script y) bs"
      using f(2) lb less.prems(3) by (auto simp: goes_def y2_def sent_def)
    have db: "data_blocks (length rest) = Suc (data_blocks (length rest'))"
      using data_blocks_step [of "length rest"] False w(3) rest(2) by simp
    then have l2: "left_of script y2 = YM_ACK # replicate (data_blocks (length rest')) YM_ACK @ s"
      using g2 less.prems(1) by (simp add: goes_def)
    from send_block_next [OF assms(1) this lb n(2), of _ seq] obtain y3 where
      b: "send_block env (if n = YM_BLOCK0_LEN then YM_SOH else YM_STX) seq n y2 = Some (YM_OK, y3)"
         "goes env script y2 y3 (replicate (data_blocks (length rest')) YM_ACK @ s) []"
      by blast
    have g3: "goes env script y y3 (replicate (data_blocks (length rest')) YM_ACK @ s) bs"
      using goes_trans [OF g2 b(2)] by simp
    note b3 = goes_block [OF g3]
    have unf: "send_data env (length rest) seq y = send_data env (length rest') (seq + 1) y3"
      using False w(1) rest(2)
      by (subst send_data.simps)
        (simp only: want_def [symmetric] f(1) Let_def bind.bind_lunit prod.sel option.case
          n_def [symmetric] pad_def [symmetric] c y2_def [symmetric] b(1), simp)
    have "length rest' < length rest" using False w(1) rest(2) by simp
    moreover have "left_of script y3 = replicate (data_blocks (length rest')) YM_ACK @ s" using g3 by (simp add: goes_def)
    moreover have "drop (length (reads (y_log y3))) file = rest'"
    proof -
      have "drop (length (reads (y_log y3))) file = drop want (drop (length (reads (y_log y))) file)"
        using b3 w(4) by (simp add: add.commute)
      also have "\<dots> = rest'" using less.prems(2) by (simp add: rest'_def)
      finally show ?thesis .
    qed
    moreover have "length (y_block y3) = 1029" using b3 less.prems(3) by simp
    ultimately obtain y4 where r: "send_data env (length rest') (seq + 1) y3 = Some (YM_OK, y4)" "goes env script y3 y4 s rest'"
      using less.hyps [of rest' y3 "seq + 1"] by blast
    have "goes env script y y4 s rest" using goes_trans [OF g3 r(2)] rest(1) by simp
    with r(1) show ?thesis unfolding unf by blast
  qed
qed

text \<open>The stages of a send chained: each returns \<open>YM_OK\<close>.\<close>

lemma and_then_ok: "and_then (Some (YM_OK, y)) k = k y"
  by (simp add: and_then_def)

lemma send_completes:
  assumes "feeds env (answers (length file))" "supplies env file" "length file = unat bytes"
    "length (y_block y) = 1029" "y_log y = []"
  shows "\<exists>y'. ymodem_send env name bytes y = Some (YM_OK, y') \<and> reads (y_log y') = file"
proof -
  define script where "script = answers (length file)"
  note fd = assms(1) [folded script_def]
  define tail_s where "tail_s = [YM_ACK, YM_CRC_C, YM_ACK]"
  define acks where "acks = replicate (data_blocks (length file)) YM_ACK @ tail_s"
  have "left_of script y = YM_CRC_C # YM_ACK # YM_CRC_C # acks"
    using assms(5) by (simp add: script_def answers_def acks_def tail_s_def rx_count_def)
  from c_loop_next [OF fd this, of YM_HANDSHAKE_TIMEOUT_MS YM_HANDSHAKE_RETRIES 0] obtain y1 where
    1: "wait_start env y = Some (YM_OK, y1)" "goes env script y y1 (YM_ACK # YM_CRC_C # acks) []"
    unfolding wait_start_def by blast
  have l1: "length (y_block y1) = 1029" using goes_block [OF 1(2)] assms(4) by simp
  from set_data_next [OF l1, of "block0 name bytes" env script] obtain y2 where
    2: "set_data (block0 name bytes) y1 = Some y2" "goes env script y1 y2 (left_of script y1) []"
    by (auto simp: length_block0)
  have g2: "goes env script y y2 (YM_ACK # YM_CRC_C # acks) []"
    using goes_trans [OF 1(2) 2(2)] 1(2) by (simp add: goes_def)
  have l2: "length (y_block y2) = 1029" using goes_block [OF g2] assms(4) by simp
  have "left_of script y2 = YM_ACK # YM_CRC_C # acks" using g2 by (simp add: goes_def)
  from send_block_next [OF fd this l2, of YM_BLOCK0_LEN YM_SOH 0] obtain y3 where
    3: "send_block env YM_SOH 0 YM_BLOCK0_LEN y2 = Some (YM_OK, y3)" "goes env script y2 y3 (YM_CRC_C # acks) []"
    by (auto simp: ym_consts)
  have "left_of script y3 = YM_CRC_C # acks" using 3(2) by (simp add: goes_def)
  from c_loop_next [OF fd this, of YM_ACK_TIMEOUT_MS YM_BLOCK_RETRIES 0] obtain y4 where
    4: "wait_c env y3 = Some (YM_OK, y4)" "goes env script y3 y4 acks []"
    unfolding wait_c_def by blast
  have g4: "goes env script y y4 acks []" using goes_trans [OF goes_trans [OF g2 3(2)] 4(2)] by simp
  note b4 = goes_block [OF g4]
  have "drop (length (reads (y_log y4))) file = file"
  proof -
    have "reads (y_log y) = []" using assms(5) by (simp add: reads_def)
    then show ?thesis using b4 by simp
  qed
  moreover have "left_of script y4 = replicate (data_blocks (length file)) YM_ACK @ tail_s"
    using g4 by (simp add: goes_def acks_def)
  ultimately obtain y5 where
    5: "send_data env (length file) 1 y4 = Some (YM_OK, y5)" "goes env script y4 y5 tail_s file"
    using send_data_supplied [OF fd assms(2), where y = y4 and rest = "file" and s = tail_s and seq = 1] b4 assms(4) by auto
  have "left_of script y5 = YM_ACK # [YM_CRC_C, YM_ACK]" using 5(2) by (simp add: goes_def tail_s_def)
  from ack_loop_next [OF fd this, of YM_EOT_TIMEOUT_MS "[YM_EOT]" YM_BLOCK_RETRIES] obtain y6 where
    6: "send_eot env y5 = (YM_OK, y6)" "goes env script y5 y6 [YM_CRC_C, YM_ACK] []"
    unfolding send_eot_def by blast
  have "left_of script y6 = YM_CRC_C # [YM_ACK]" using 6(2) by (simp add: goes_def)
  from c_loop_next [OF fd this, of YM_ACK_TIMEOUT_MS YM_BLOCK_RETRIES 0] obtain y7 where
    7: "wait_c env y6 = Some (YM_OK, y7)" "goes env script y6 y7 [YM_ACK] []"
    unfolding wait_c_def by blast
  have g7: "goes env script y y7 [YM_ACK] file"
    using goes_trans [OF goes_trans [OF goes_trans [OF g4 5(2)] 6(2)] 7(2)] by simp
  have l7: "length (y_block y7) = 1029" using goes_block [OF g7] assms(4) by simp
  from set_data_next [OF l7, of "replicate YM_BLOCK0_LEN 0" env script] obtain y8 where
    8: "set_data (replicate YM_BLOCK0_LEN 0) y7 = Some y8" "goes env script y7 y8 (left_of script y7) []"
    by (auto simp: ym_consts)
  have g8: "goes env script y y8 [YM_ACK] file" using goes_trans [OF g7 8(2)] g7 by (simp add: goes_def)
  have l8: "length (y_block y8) = 1029" using goes_block [OF g8] assms(4) by simp
  have "left_of script y8 = YM_ACK # []" using g8 by (simp add: goes_def)
  from send_block_next [OF fd this l8, of YM_BLOCK0_LEN YM_SOH 0] obtain y9 where
    9: "send_block env YM_SOH 0 YM_BLOCK0_LEN y8 = Some (YM_OK, y9)" "goes env script y8 y9 [] []"
    by (auto simp: ym_consts)
  have "ymodem_send env name bytes y = Some (YM_OK, y9)"
    unfolding ymodem_send_def ym_run_def 1(1) and_then_ok 2(1) bind.bind_lunit 3(1) 4(1)
      assms(3) [symmetric] 5(1) 6(1) 7(1) 8(1) 9(1) by simp
  moreover have "reads (y_log y9) = file"
    using goes_block [OF goes_trans [OF g8 9(2)]] assms(5) by (simp add: reads_def)
  ultimately show ?thesis by blast
qed

text \<open>A concrete peer and source.\<close>

definition peer_env :: "u8 list \<Rightarrow> ym_env" where
  "peer_env file = (line_env (answers (length file)))
     \<lparr>g_read := \<lambda>log n. let bs = take n (drop (length (reads log)) file) in (int (length bs), bs)\<rparr>"

lemma peer_env: "feeds (peer_env file) (answers (length file))" "supplies (peer_env file) file"
  by (simp_all add: peer_env_def feeds_def line_env_def supplies_def)

text \<open>C18. A send to a peer that answers as the protocol asks, from a source that holds the whole file,
  reaches the end of the batch with \<open>YM_OK\<close> and has read the whole file, for every file length.\<close>

theorem ymodem_send_completes:
  assumes "feeds env (answers (length file))" "supplies env file" "length file = unat bytes"
    "length (y_block y) = 1029" "y_log y = []"
  shows "\<exists>y'. ymodem_send env name bytes y = Some (YM_OK, y') \<and> reads (y_log y') = file"
  by (rule send_completes [OF assms])

lemma ymodem_send_completes_witness:
  "\<exists>y'. ymodem_send (peer_env (replicate 2000 7)) (Some [97]) 2000 ym_idle = Some (YM_OK, y') \<and>
     reads (y_log y') = replicate 2000 7"
  by (rule ymodem_send_completes [OF _ peer_env(2)])
    (use peer_env(1) [of "replicate 2000 7"] in \<open>simp_all add: ym_idle_def\<close>)

text \<open>C15. A file that a send completed, and whose source delivered every declared byte, arrives: the
  frames on the line reduce, resends apart, to a script, and any receiver that reads that script
  ends with \<open>YM_OK\<close>, opens its sink with the name and the size the sender declared and writes
  chunks whose concatenation is what the source delivered, padding removed.\<close>

theorem ymodem_roundtrip:
  assumes "\<forall>log t. N \<le> rx_count log \<longrightarrow> g_getc env log t < 0" "\<forall>log t. -2 \<le> g_getc env log t"
    "\<forall>log n. length (snd (g_read env log n)) \<le> n" "length (y_block y) = 1029" "y_log y = []"
    "ymodem_send env (Some nm) bytes y = Some (YM_OK, y')" "length (reads (y_log y')) = unat bytes"
    "nm \<noteq> []" "length nm \<le> 100" "0 \<notin> set nm" "1024 \<le> length (y_rdata z)" "y_log z = []"
  shows "\<exists>frames. resends frames (puts (y_log y')) \<and>
    (\<forall>env'. feeds env' (concat frames) \<longrightarrow> (\<exists>z' cs. ymodem_recv env' z = Some (YM_OK, z') \<and>
       sinks (y_log z') = Y_begin nm bytes True # map (\<lambda>c. Y_write c True) cs \<and> concat cs = reads (y_log y')))"
proof -
  have "byte_supply env N" "getc_range env" "source_ok env"
    using assms(1-3) by (simp_all add: byte_supply_def getc_range_def source_ok_def)
  from send_total [OF this assms(4,5), of "Some nm" bytes] assms(6) obtain cs where
    cs: "resends (batch (Some nm) bytes cs) (puts (y_log y'))" "concat cs = reads (y_log y')" "chunks_of (unat bytes) cs"
    by (auto simp: sent_chunks_def)
  have "cut_ok (unat bytes) cs" using cs(2,3) assms(7) by (simp add: chunks_of_def)
  from ym_recv_batch [OF _ this assms(8-12)] cs(1,2) show ?thesis by blast
qed

lemma ymodem_roundtrip_witness:
  "\<exists>y' frames z' cs. ymodem_send (peer_env [1, 2, 3]) (Some [97]) 3 ym_idle = Some (YM_OK, y') \<and>
     resends frames (puts (y_log y')) \<and> ymodem_recv (line_env (concat frames)) ym_idle = Some (YM_OK, z') \<and>
     sinks (y_log z') = Y_begin [97] 3 True # map (\<lambda>c. Y_write c True) cs \<and> concat cs = [1, 2, 3]"
proof -
  obtain y' where y': "ymodem_send (peer_env [1, 2, 3]) (Some [97]) 3 ym_idle = Some (YM_OK, y')" "reads (y_log y') = [1, 2, 3]"
    using send_completes [OF peer_env, of "[1, 2, 3]" 3 ym_idle "Some [97]"] by (auto simp: ym_idle_def)
  have "\<exists>frames. resends frames (puts (y_log y')) \<and>
    (\<forall>env'. feeds env' (concat frames) \<longrightarrow> (\<exists>z' cs. ymodem_recv env' ym_idle = Some (YM_OK, z') \<and>
       sinks (y_log z') = Y_begin [97] 3 True # map (\<lambda>c. Y_write c True) cs \<and> concat cs = reads (y_log y')))"
    by (rule ymodem_roundtrip [where N = "length (answers (length [1 :: u8, 2, 3]))", OF _ _ _ _ _ y'(1)])
      (simp_all add: y'(2) ym_idle_def peer_env_def line_env_def Let_def order.trans [OF _ uint_ge_0])
  then show ?thesis using y' feeds_line_env by metis
qed

end
