(* ===== verification/CamHolders.thy ===== *)
theory CamHolders
  imports Prelude
begin

text \<open>
  The camera's holder table, \<open>svc/camera/cam_holders.c\<close>: who keeps the stream open, when the
  camera starts and stops, and which registration an undo may take back. A pointer is the value
  \<open>None\<close> when it is \<open>NULL\<close>; the identity of a holder is its address.
\<close>

section \<open>The table\<close>

record cam_holder =
  ch_addr :: nat
  ch_name :: "string option"

type_synonym holder_ptr = "cam_holder option"

record cam_holders =
  h_who :: "holder_ptr list"
  h_gen :: "u32 list"
  h_attr :: "u8 list"
  h_n :: u8
  h_claimed :: u8
  h_base :: u8
  h_next :: u32

record cam_ticket =
  t_added :: u32
  t_self :: u32
  t_starter :: u32

datatype cam_answer =
  T_NONE | T_START | T_STOP | E_INVAL | E_FULL | E_CLAIMED | E_IN_USE | E_NOT_CLAIMED

fun cam_rc :: "cam_answer \<Rightarrow> int" where
  "cam_rc T_NONE = 0" | "cam_rc T_START = 1" | "cam_rc T_STOP = 2" | "cam_rc E_INVAL = -1"
| "cam_rc E_FULL = -2" | "cam_rc E_CLAIMED = -3" | "cam_rc E_IN_USE = -4" | "cam_rc E_NOT_CLAIMED = -5"

definition CAM_MAX :: nat where "CAM_MAX = 4"
definition KEEPS :: u32 where "KEEPS = 0x01"
definition ADDED_SELF :: u32 where "ADDED_SELF = 0x01"
definition ADDED_STARTER :: u32 where "ADDED_STARTER = 0x02"

definition well_formed :: "cam_holders \<Rightarrow> bool" where
  "well_formed t \<longleftrightarrow> unat (h_n t) \<le> CAM_MAX \<and> h_base t \<le> h_n t \<and> h_claimed t \<le> 1"

definition holder_ok :: "holder_ptr \<Rightarrow> u32 \<Rightarrow> bool" where
  "holder_ok h a \<longleftrightarrow> (case h of None \<Rightarrow> False | Some c \<Rightarrow> ch_name c \<noteq> None) \<and> a AND NOT KEEPS = 0"

definition same_ptr :: "holder_ptr \<Rightarrow> holder_ptr \<Rightarrow> bool" where
  "same_ptr p q \<longleftrightarrow> map_option ch_addr p = map_option ch_addr q"

fun find_from :: "holder_ptr list \<Rightarrow> holder_ptr \<Rightarrow> nat \<Rightarrow> nat \<Rightarrow> nat option option" where
  "find_from ws h i 0 = Some None"
| "find_from ws h i (Suc k) = do {
     w \<leftarrow> ld ws i;
     if same_ptr w h then Some (Some i) else find_from ws h (Suc i) k
   }"

definition find_holder :: "cam_holders \<Rightarrow> holder_ptr \<Rightarrow> nat option option" where
  "find_holder t h = find_from (h_who t) h 0 (unat (h_n t))"

definition take_gen :: "cam_holders \<Rightarrow> u32 \<times> cam_holders" where
  "take_gen t =
     (let g = h_next t + 1; g = (if g = 0 then 1 else g) in (g, t\<lparr>h_next := g\<rparr>))"

definition append_holder :: "cam_holders \<Rightarrow> holder_ptr \<Rightarrow> u32 \<Rightarrow> (u32 \<times> cam_holders) option" where
  "append_holder t h a = do {
     let (g, t) = take_gen t;
     who \<leftarrow> st (h_who t) (unat (h_n t)) h;
     att \<leftarrow> st (h_attr t) (unat (h_n t)) (ucast a);
     gen \<leftarrow> st (h_gen t) (unat (h_n t)) g;
     Some (g, t\<lparr>h_who := who, h_attr := att, h_gen := gen, h_n := h_n t + 1\<rparr>)
   }"

fun any_leaves :: "u8 list \<Rightarrow> nat \<Rightarrow> nat \<Rightarrow> bool option" where
  "any_leaves att i 0 = Some False"
| "any_leaves att i (Suc k) = do {
     a \<leftarrow> ld att i;
     if a AND ucast KEEPS = 0 then Some True else any_leaves att (Suc i) k
   }"

definition held_back :: "cam_holders \<Rightarrow> nat \<Rightarrow> bool option" where
  "held_back t k = do {
     a \<leftarrow> ld (h_attr t) k;
     if a AND ucast KEEPS = 0 then Some False else any_leaves (h_attr t) 0 (unat (h_n t))
   }"

text \<open>The loop that closes the gap moves the three arrays in step; this is one of them.\<close>

fun close_gap :: "'a list \<Rightarrow> nat \<Rightarrow> nat \<Rightarrow> 'a list option" where
  "close_gap xs i 0 = Some xs"
| "close_gap xs i (Suc k) = do {
     x \<leftarrow> ld xs (i + 1);
     xs \<leftarrow> st xs i x;
     close_gap xs (i + 1) k
   }"

definition drop_last :: "cam_holders \<Rightarrow> cam_holders option" where
  "drop_last t = do {
     let n = h_n t - 1;
     who \<leftarrow> st (h_who t) (unat n) None;
     att \<leftarrow> st (h_attr t) (unat n) 0;
     gen \<leftarrow> st (h_gen t) (unat n) 0;
     Some (t\<lparr>h_who := who, h_attr := att, h_gen := gen, h_n := n\<rparr>)
   }"

definition remove_at :: "cam_holders \<Rightarrow> nat \<Rightarrow> (cam_answer \<times> cam_holders) option" where
  "remove_at t k = do {
     let m = unat (h_n t) - (k + 1);
     who \<leftarrow> close_gap (h_who t) k m;
     att \<leftarrow> close_gap (h_attr t) k m;
     gen \<leftarrow> close_gap (h_gen t) k m;
     t \<leftarrow> drop_last (t\<lparr>h_who := who, h_attr := att, h_gen := gen\<rparr>);
     Some (if h_n t = 0 then T_STOP else T_NONE, t)
   }"

definition start_claim :: "cam_holders \<Rightarrow> nat \<Rightarrow> cam_answer \<times> cam_holders" where
  "start_claim t base = (T_START, t\<lparr>h_claimed := 1, h_base := of_nat base\<rparr>)"

section \<open>Operations\<close>

definition cam_holders_clear :: "cam_holders \<Rightarrow> cam_holders" where
  "cam_holders_clear t = t\<lparr>h_who := replicate CAM_MAX None, h_attr := replicate CAM_MAX 0,
     h_gen := replicate CAM_MAX 0, h_n := 0, h_claimed := 0, h_base := 0\<rparr>"

definition cam_holders_init :: "cam_holders \<Rightarrow> cam_holders" where
  "cam_holders_init t = (cam_holders_clear t)\<lparr>h_next := 0\<rparr>"

text \<open>The entry of a holder that is already there takes a fresh generation.\<close>

definition refresh :: "cam_holders \<Rightarrow> nat \<Rightarrow> u32 \<Rightarrow> (cam_answer \<times> cam_holders) option" where
  "refresh t k a = do {
     a' \<leftarrow> ld (h_attr t) k;
     if ucast a' \<noteq> a then Some (E_INVAL, t)
     else do {
       let (g, t) = take_gen t;
       gen \<leftarrow> st (h_gen t) k g;
       Some (T_NONE, t\<lparr>h_gen := gen\<rparr>)
     }
   }"

definition cam_holders_add :: "cam_holders \<Rightarrow> holder_ptr \<Rightarrow> u32 \<Rightarrow> (cam_answer \<times> cam_holders) option" where
  "cam_holders_add t h a =
     (if \<not> well_formed t \<or> \<not> holder_ok h a then Some (E_INVAL, t)
      else if h_claimed t \<noteq> 0 then Some (E_CLAIMED, t)
      else do {
        found \<leftarrow> find_holder t h;
        case found of
          Some k \<Rightarrow> refresh t k a
        | None \<Rightarrow>
            if unat (h_n t) \<ge> CAM_MAX then Some (E_FULL, t)
            else if h_n t = 0 then do { (g, t) \<leftarrow> append_holder t h a; Some (start_claim t 0) }
            else do { (g, t) \<leftarrow> append_holder t h a; Some (T_NONE, t) }
      })"

definition no_ticket :: cam_ticket where
  "no_ticket = \<lparr>t_added = 0, t_self = 0, t_starter = 0\<rparr>"

definition cam_holders_add_or_start ::
    "cam_holders \<Rightarrow> holder_ptr \<Rightarrow> u32 \<Rightarrow> holder_ptr \<Rightarrow> u32 \<Rightarrow> (cam_answer \<times> cam_holders \<times> cam_ticket) option" where
  "cam_holders_add_or_start t h a s sa =
     (if \<not> well_formed t \<or> \<not> holder_ok h a \<or> \<not> holder_ok s sa \<or> same_ptr h s then Some (E_INVAL, t, no_ticket)
      else if h_claimed t \<noteq> 0 then Some (E_CLAIMED, t, no_ticket)
      else if h_n t = 0 then do {
        (gs, t) \<leftarrow> append_holder t s sa;
        (gh, t) \<leftarrow> append_holder t h a;
        let (r, t) = start_claim t 0;
        Some (r, t, \<lparr>t_added = ADDED_STARTER OR ADDED_SELF, t_self = gh, t_starter = gs\<rparr>)
      }
      else do {
        found \<leftarrow> find_holder t h;
        case found of
          Some k \<Rightarrow> do { (r, t) \<leftarrow> refresh t k a; Some (r, t, no_ticket) }
        | None \<Rightarrow>
            if unat (h_n t) \<ge> CAM_MAX then Some (E_FULL, t, no_ticket)
            else do {
              (gh, t) \<leftarrow> append_holder t h a;
              Some (T_NONE, t, \<lparr>t_added = ADDED_SELF, t_self = gh, t_starter = 0\<rparr>)
            }
      })"

definition cam_holders_remove :: "cam_holders \<Rightarrow> holder_ptr \<Rightarrow> (cam_answer \<times> cam_holders) option" where
  "cam_holders_remove t h =
     (if \<not> well_formed t \<or> h = None then Some (E_INVAL, t)
      else if h_claimed t \<noteq> 0 then Some (E_CLAIMED, t)
      else do {
        found \<leftarrow> find_holder t h;
        case found of
          None \<Rightarrow> Some (T_NONE, t)
        | Some k \<Rightarrow> do {
            back \<leftarrow> held_back t k;
            if back then Some (E_IN_USE, t) else remove_at t k
          }
      })"

definition undo_one :: "cam_holders \<Rightarrow> holder_ptr \<Rightarrow> u32 \<Rightarrow> (cam_answer option \<times> cam_holders) option" where
  "undo_one t h g = do {
     found \<leftarrow> find_holder t h;
     case found of
       None \<Rightarrow> Some (None, t)
     | Some k \<Rightarrow> do {
         g' \<leftarrow> ld (h_gen t) k;
         if g = 0 \<or> g' \<noteq> g then Some (None, t)
         else do {
           back \<leftarrow> held_back t k;
           if back then Some (None, t) else do { (r, t) \<leftarrow> remove_at t k; Some (Some r, t) }
         }
       }
   }"

text \<open>\<open>last\<close> becomes the answer of a removal that was made.\<close>

definition later :: "cam_answer \<Rightarrow> cam_answer option \<Rightarrow> cam_answer" where
  "later l r = (case r of None \<Rightarrow> l | Some x \<Rightarrow> x)"

definition cam_holders_undo ::
    "cam_holders \<Rightarrow> holder_ptr \<Rightarrow> holder_ptr \<Rightarrow> cam_ticket \<Rightarrow> (cam_answer \<times> cam_holders) option" where
  "cam_holders_undo t h s tk =
     (if \<not> well_formed t \<or> h = None then Some (E_INVAL, t)
      else if h_claimed t \<noteq> 0 then Some (E_CLAIMED, t)
      else do {
        (r, t) \<leftarrow> (if t_added tk AND ADDED_SELF \<noteq> 0 then undo_one t h (t_self tk) else Some (None, t));
        let l = later T_NONE r;
        (r, t) \<leftarrow> (if t_added tk AND ADDED_STARTER \<noteq> 0 \<and> s \<noteq> None then undo_one t s (t_starter tk) else Some (None, t));
        Some (later l r, t)
      })"

definition cam_holders_commit :: "cam_holders \<Rightarrow> cam_answer \<times> cam_holders" where
  "cam_holders_commit t =
     (if \<not> well_formed t then (E_INVAL, t)
      else if h_claimed t = 0 then (E_NOT_CLAIMED, t)
      else (T_NONE, t\<lparr>h_claimed := 0, h_base := 0\<rparr>))"

fun abort_loop :: "nat \<Rightarrow> cam_holders \<Rightarrow> cam_holders option" where
  "abort_loop 0 t = Some t"
| "abort_loop (Suc k) t = do { t \<leftarrow> drop_last t; abort_loop k t }"

definition cam_holders_abort :: "cam_holders \<Rightarrow> ((cam_answer + nat) \<times> cam_holders) option" where
  "cam_holders_abort t =
     (if \<not> well_formed t then Some (Inl E_INVAL, t)
      else if h_claimed t = 0 then Some (Inl E_NOT_CLAIMED, t)
      else do {
        let removed = unat (h_n t) - unat (h_base t);
        t \<leftarrow> abort_loop removed t;
        Some (Inr removed, t\<lparr>h_claimed := 0, h_base := 0\<rparr>)
      })"

definition cam_holders_count :: "cam_holders \<Rightarrow> nat" where
  "cam_holders_count t = (if well_formed t then unat (h_n t) else 0)"

definition cam_holders_claimed :: "cam_holders \<Rightarrow> bool" where
  "cam_holders_claimed t \<longleftrightarrow> well_formed t \<and> h_claimed t \<noteq> 0"

definition cam_holders_has :: "cam_holders \<Rightarrow> holder_ptr \<Rightarrow> bool option" where
  "cam_holders_has t h =
     (if \<not> well_formed t \<or> h = None then Some False
      else do { found \<leftarrow> find_holder t h; Some (found \<noteq> None) })"

fun list_loop :: "cam_holders \<Rightarrow> nat \<Rightarrow> nat \<Rightarrow> (holder_ptr \<times> u8) list option" where
  "list_loop t i 0 = Some []"
| "list_loop t i (Suc k) = do {
     w \<leftarrow> ld (h_who t) i;
     a \<leftarrow> ld (h_attr t) i;
     rest \<leftarrow> list_loop t (Suc i) k;
     Some ((w, a) # rest)
   }"

text \<open>What is written to the two output arrays; their length is the count returned.\<close>

definition cam_holders_list :: "cam_holders \<Rightarrow> nat \<Rightarrow> (holder_ptr \<times> u8) list option" where
  "cam_holders_list t cap = (if \<not> well_formed t then Some [] else list_loop t 0 (min (unat (h_n t)) cap))"

definition cam_holders_disp_of :: "int \<Rightarrow> nat" where
  "cam_holders_disp_of rc = (if rc \<ge> 0 then 0 else if rc = cam_rc E_CLAIMED then 1 else 2)"

section \<open>The registry the table implements\<close>

text \<open>An entry is a holder, whether it keeps the stream, and its generation.\<close>

type_synonym entry = "cam_holder \<times> bool \<times> u32"

definition who_of :: "entry \<Rightarrow> holder_ptr" where "who_of e = Some (fst e)"
definition gen_of :: "entry \<Rightarrow> u32" where "gen_of e = snd (snd e)"

record registry =
  r_es :: "entry list"
  r_claimed :: bool
  r_next :: u32

definition same_holder :: "cam_holder \<Rightarrow> entry \<Rightarrow> bool" where
  "same_holder c e \<longleftrightarrow> ch_addr (fst e) = ch_addr c"

fun pos :: "entry list \<Rightarrow> cam_holder \<Rightarrow> nat option" where
  "pos [] c = None"
| "pos (e # es) c = (if same_holder c e then Some 0 else map_option Suc (pos es c))"

definition del :: "nat \<Rightarrow> 'a list \<Rightarrow> 'a list" where
  "del k xs = take k xs @ drop (Suc k) xs"

definition fresh_gen :: "u32 \<Rightarrow> u32" where
  "fresh_gen g = (if g + 1 = 0 then 1 else g + 1)"

definition reg_append :: "cam_holder \<Rightarrow> bool \<Rightarrow> registry \<Rightarrow> registry" where
  "reg_append c k s = s\<lparr>r_es := r_es s @ [(c, k, fresh_gen (r_next s))], r_next := fresh_gen (r_next s)\<rparr>"

definition reg_refresh :: "nat \<Rightarrow> bool \<Rightarrow> registry \<Rightarrow> cam_answer \<times> registry" where
  "reg_refresh i k s =
     (case r_es s ! i of (c, k', g) \<Rightarrow>
        if k' \<noteq> k then (E_INVAL, s)
        else (T_NONE, s\<lparr>r_es := (r_es s)[i := (c, k, fresh_gen (r_next s))], r_next := fresh_gen (r_next s)\<rparr>))"

definition reg_held :: "entry list \<Rightarrow> nat \<Rightarrow> bool" where
  "reg_held es i \<longleftrightarrow> fst (snd (es ! i)) \<and> (\<exists>e \<in> set es. \<not> fst (snd e))"

definition reg_remove_at :: "nat \<Rightarrow> registry \<Rightarrow> cam_answer \<times> registry" where
  "reg_remove_at i s = (let es = del i (r_es s) in (if es = [] then T_STOP else T_NONE, s\<lparr>r_es := es\<rparr>))"

definition reg_add :: "registry \<Rightarrow> holder_ptr \<Rightarrow> u32 \<Rightarrow> cam_answer \<times> registry" where
  "reg_add s h a =
     (if \<not> holder_ok h a then (E_INVAL, s)
      else if r_claimed s then (E_CLAIMED, s)
      else (case pos (r_es s) (the h) of
          Some i \<Rightarrow> reg_refresh i (a = KEEPS) s
        | None \<Rightarrow>
            if length (r_es s) = CAM_MAX then (E_FULL, s)
            else if r_es s = [] then (T_START, (reg_append (the h) (a = KEEPS) s)\<lparr>r_claimed := True\<rparr>)
            else (T_NONE, reg_append (the h) (a = KEEPS) s)))"

definition reg_join :: "registry \<Rightarrow> holder_ptr \<Rightarrow> u32 \<Rightarrow> holder_ptr \<Rightarrow> u32 \<Rightarrow> cam_answer \<times> registry \<times> cam_ticket" where
  "reg_join s h a sp sa =
     (if \<not> holder_ok h a \<or> \<not> holder_ok sp sa \<or> same_ptr h sp then (E_INVAL, s, no_ticket)
      else if r_claimed s then (E_CLAIMED, s, no_ticket)
      else if r_es s = [] then
        (let s1 = reg_append (the sp) (sa = KEEPS) s; s2 = reg_append (the h) (a = KEEPS) s1 in
         (T_START, s2\<lparr>r_claimed := True\<rparr>,
          \<lparr>t_added = ADDED_STARTER OR ADDED_SELF, t_self = r_next s2, t_starter = r_next s1\<rparr>))
      else (case pos (r_es s) (the h) of
          Some i \<Rightarrow> (case reg_refresh i (a = KEEPS) s of (r, s') \<Rightarrow> (r, s', no_ticket))
        | None \<Rightarrow>
            if length (r_es s) = CAM_MAX then (E_FULL, s, no_ticket)
            else let s' = reg_append (the h) (a = KEEPS) s in
              (T_NONE, s', \<lparr>t_added = ADDED_SELF, t_self = r_next s', t_starter = 0\<rparr>)))"

definition reg_remove :: "registry \<Rightarrow> holder_ptr \<Rightarrow> cam_answer \<times> registry" where
  "reg_remove s h =
     (if h = None then (E_INVAL, s)
      else if r_claimed s then (E_CLAIMED, s)
      else (case pos (r_es s) (the h) of
          None \<Rightarrow> (T_NONE, s)
        | Some i \<Rightarrow> if reg_held (r_es s) i then (E_IN_USE, s) else reg_remove_at i s))"

definition reg_undo_one :: "registry \<Rightarrow> cam_holder \<Rightarrow> u32 \<Rightarrow> cam_answer option \<times> registry" where
  "reg_undo_one s c g =
     (case pos (r_es s) c of
        None \<Rightarrow> (None, s)
      | Some i \<Rightarrow>
          if g = 0 \<or> gen_of (r_es s ! i) \<noteq> g \<or> reg_held (r_es s) i then (None, s)
          else (case reg_remove_at i s of (r, s') \<Rightarrow> (Some r, s')))"

definition reg_undo :: "registry \<Rightarrow> holder_ptr \<Rightarrow> holder_ptr \<Rightarrow> cam_ticket \<Rightarrow> cam_answer \<times> registry" where
  "reg_undo s h sp tk =
     (if h = None then (E_INVAL, s)
      else if r_claimed s then (E_CLAIMED, s)
      else (case (if t_added tk AND ADDED_SELF \<noteq> 0 then reg_undo_one s (the h) (t_self tk) else (None, s)) of (r1, s1) \<Rightarrow>
           (case (if t_added tk AND ADDED_STARTER \<noteq> 0 \<and> sp \<noteq> None then reg_undo_one s1 (the sp) (t_starter tk) else (None, s1)) of (r2, s2) \<Rightarrow>
             (later (later T_NONE r1) r2, s2))))"

text \<open>The table shows the registry.\<close>

definition arr :: "(entry \<Rightarrow> 'a) \<Rightarrow> 'a \<Rightarrow> entry list \<Rightarrow> 'a list" where
  "arr f z es = map f es @ replicate (CAM_MAX - length es) z"

definition keeps_byte :: "entry \<Rightarrow> u8" where
  "keeps_byte e = (if fst (snd e) then 1 else 0)"

definition table_shows :: "registry \<Rightarrow> cam_holders \<Rightarrow> bool" where
  "table_shows s t \<longleftrightarrow> length (r_es s) \<le> CAM_MAX \<and> h_who t = arr (who_of) None (r_es s) \<and>
     h_attr t = arr keeps_byte 0 (r_es s) \<and> h_gen t = arr (gen_of) 0 (r_es s) \<and>
     h_n t = of_nat (length (r_es s)) \<and> h_claimed t = (if r_claimed s then 1 else 0) \<and> h_base t = 0 \<and>
     h_next t = r_next s"

lemma of_simps [simp]: "who_of (c, k, g) = Some c" "gen_of (c, k, g) = g"
  by (simp_all add: who_of_def gen_of_def)

lemma length_arr [simp]: "length es \<le> CAM_MAX \<Longrightarrow> length (arr f z es) = CAM_MAX"
  by (simp add: arr_def)

lemma ld_arr: "i < length es \<Longrightarrow> ld (arr f z es) i = Some (f (es ! i))"
  by (simp add: ld_def arr_def nth_append)

lemma st_arr_append: "length es < CAM_MAX \<Longrightarrow> st (arr f z es) (length es) (f e) = Some (arr f z (es @ [e]))"
  by (auto simp: st_def arr_def Suc_diff_Suc [symmetric] list_update_append)

lemma st_arr_drop: "length es < CAM_MAX \<Longrightarrow> st (arr f z (es @ [e])) (length es) z = Some (arr f z es)"
  by (auto simp: st_def arr_def Suc_diff_Suc [symmetric] list_update_append)

lemma st_arr_update: "i < length es \<Longrightarrow> f e = v \<Longrightarrow> st (arr f z es) i v = Some (arr f z (es[i := e]))"
  by (auto simp: st_def arr_def list_update_append map_update)

lemma arr_same: "i < length es \<Longrightarrow> f e = f (es ! i) \<Longrightarrow> arr f z (es[i := e]) = arr f z es"
  by (simp add: arr_def map_update list_update_same_conv)

lemma close_gap_eq:
  "k + m < length xs \<Longrightarrow> close_gap xs k m = Some (take k xs @ take m (drop (Suc k) xs) @ drop (k + m) xs)"
proof (induction m arbitrary: xs k)
  case (Suc m)
  let ?xs = "xs[k := xs ! Suc k]"
  have "close_gap xs k (Suc m) = close_gap ?xs (Suc k) m" using Suc.prems by (simp add: ld_def st_def)
  also have "\<dots> = Some (take (Suc k) ?xs @ take m (drop (Suc (Suc k)) ?xs) @ drop (Suc k + m) ?xs)"
    using Suc.prems by (intro Suc.IH) simp
  also have "\<dots> = Some (take k xs @ take (Suc m) (drop (Suc k) xs) @ drop (k + Suc m) xs)"
    using Suc.prems by (simp add: take_Suc_update Cons_nth_drop_Suc [symmetric])
  finally show ?case .
qed simp

lemma close_gap_arr:
  assumes "k < length es" "length es \<le> CAM_MAX"
  shows "\<exists>xs. close_gap (arr f z es) k (length es - (k + 1)) = Some xs \<and>
    st xs (length es - 1) z = Some (arr f z (del k es))"
proof -
  let ?m = "length es - (k + 1)"
  let ?xs = "take k (map f es) @ drop (Suc k) (map f es) @ drop (length es - 1) (arr f z es)"
  have "close_gap (arr f z es) k ?m =
      Some (take k (arr f z es) @ take ?m (drop (Suc k) (arr f z es)) @ drop (k + ?m) (arr f z es))"
    using assms by (intro close_gap_eq) simp
  also have "\<dots> = Some ?xs" using assms by (simp add: arr_def)
  finally have c: "close_gap (arr f z es) k ?m = Some ?xs" .
  have d: "drop (length es - 1) (arr f z es) = f (last es) # replicate (CAM_MAX - length es) z"
    using assms by (cases es rule: rev_cases) (simp_all add: arr_def)
  have l: "length (take k (map f es) @ drop (Suc k) (map f es)) = length es - 1" using assms by simp
  have n: "\<not> length es - Suc 0 < k" "length es - Suc 0 < CAM_MAX" using assms by auto
  have "st ?xs (length es - 1) z = Some (take k (map f es) @ drop (Suc k) (map f es) @ z # replicate (CAM_MAX - length es) z)"
    using l n assms unfolding d by (simp add: st_def list_update_append)
  also have "\<dots> = Some (arr f z (del k es))"
    using assms by (simp add: arr_def del_def take_map drop_map replicate_Suc [symmetric] Suc_diff_le del: replicate_Suc)
  finally show ?thesis using c by blast
qed

lemma holder_ok_attr:
  assumes "holder_ok h a"
  shows "\<exists>c. h = Some c" "a = 0 \<or> a = 1" "ucast a = keeps_byte (c', a = KEEPS, g)"
    "ucast (keeps_byte e) = a \<longleftrightarrow> fst (snd e) = (a = KEEPS)"
proof -
  show "\<exists>c. h = Some c" using assms by (auto simp: holder_ok_def split: option.splits)
  have "a AND NOT 1 = 0" using assms by (auto simp: holder_ok_def KEEPS_def split: option.splits)
  moreover have "a = (a AND 1) OR (a AND NOT 1)" by (rule bit_word_eqI) (auto simp: bit_simps)
  ultimately have "a = a mod 2" by (simp add: and_one_eq)
  then show a: "a = 0 \<or> a = 1" by (auto simp: mod2_eq_if split: if_splits)
  then show "ucast a = keeps_byte (c', a = KEEPS, g)" by (auto simp: keeps_byte_def KEEPS_def)
  show "ucast (keeps_byte e) = a \<longleftrightarrow> fst (snd e) = (a = KEEPS)" using a by (auto simp: keeps_byte_def KEEPS_def)
qed

lemma keeps_byte_bit: "keeps_byte e AND ucast KEEPS = 0 \<longleftrightarrow> \<not> fst (snd e)"
  by (simp add: keeps_byte_def KEEPS_def)

lemma table_shows_n:
  assumes "table_shows s t"
  shows "unat (h_n t) = length (r_es s)" "well_formed t" "h_n t = 0 \<longleftrightarrow> r_es s = []" "h_claimed t \<noteq> 0 \<longleftrightarrow> r_claimed s"
    "length (r_es s) \<le> CAM_MAX"
proof -
  have l: "length (r_es s) \<le> 4" using assms by (simp add: table_shows_def CAM_MAX_def)
  then show n: "unat (h_n t) = length (r_es s)"
    using assms by (simp add: table_shows_def unsigned_of_nat take_bit_nat_eq_self)
  show "well_formed t" using n assms by (auto simp: well_formed_def table_shows_def)
  show "h_n t = 0 \<longleftrightarrow> r_es s = []" using n by (metis length_0_conv unat_eq_zero)
  show "h_claimed t \<noteq> 0 \<longleftrightarrow> r_claimed s" "length (r_es s) \<le> CAM_MAX" using assms by (simp_all add: table_shows_def)
qed

lemma find_from_pos:
  "length (xs @ ys) \<le> CAM_MAX \<Longrightarrow>
    find_from (arr (who_of) None (xs @ ys)) (Some c) (length xs) (length ys) =
      Some (case pos ys c of None \<Rightarrow> None | Some i \<Rightarrow> Some (length xs + i))"
proof (induction ys arbitrary: xs)
  case (Cons y ys)
  have "ld (arr (who_of) None (xs @ y # ys)) (length xs) = Some (Some (fst y))"
    by (subst ld_arr) (simp_all add: who_of_def)
  moreover have "find_from (arr (who_of) None (xs @ y # ys)) (Some c) (Suc (length xs)) (length ys) =
      Some (case pos ys c of None \<Rightarrow> None | Some i \<Rightarrow> Some (Suc (length xs) + i))"
    using Cons.IH [of "xs @ [y]"] Cons.prems by (simp split: option.split)
  ultimately show ?case
    by (cases "pos ys c") (simp_all add: same_ptr_def same_holder_def)
qed simp

lemma find_shows: "table_shows s t \<Longrightarrow> find_holder t (Some c) = Some (pos (r_es s) c)"
  using find_from_pos [of "[]" "r_es s" c] table_shows_n(1) [of s t]
  by (cases "pos (r_es s) c") (auto simp: find_holder_def table_shows_def)

lemma pos_length: "pos es c = Some i \<Longrightarrow> i < length es \<and> same_holder c (es ! i)"
  by (induction es arbitrary: i) (auto split: if_splits)

lemma pos_None: "pos es c = None \<longleftrightarrow> (\<forall>e \<in> set es. \<not> same_holder c e)"
  by (induction es) auto

lemma any_leaves_shows:
  "length (xs @ ys) \<le> CAM_MAX \<Longrightarrow>
    any_leaves (arr keeps_byte 0 (xs @ ys)) (length xs) (length ys) = Some (\<exists>e \<in> set ys. \<not> fst (snd e))"
proof (induction ys arbitrary: xs)
  case (Cons y ys)
  have "ld (arr keeps_byte 0 (xs @ y # ys)) (length xs) = Some (keeps_byte y)"
    by (subst ld_arr) simp_all
  with Cons.IH [of "xs @ [y]"] Cons.prems show ?case by (simp add: keeps_byte_bit)
qed simp

lemma held_back_shows:
  assumes "table_shows s t" "i < length (r_es s)"
  shows "held_back t i = Some (reg_held (r_es s) i)"
  using any_leaves_shows [of "[]" "r_es s"] assms table_shows_n(1) [OF assms(1)]
  by (auto simp: held_back_def table_shows_def ld_arr keeps_byte_bit reg_held_def)

lemma take_gen_shows: "take_gen t = (fresh_gen (h_next t), t\<lparr>h_next := fresh_gen (h_next t)\<rparr>)"
  by (simp add: take_gen_def fresh_gen_def Let_def)

lemma append_shows:
  assumes "table_shows s t" "length (r_es s) < CAM_MAX" "holder_ok (Some c) a"
  shows "\<exists>t'. append_holder t (Some c) a = Some (r_next (reg_append c (a = KEEPS) s), t') \<and>
    table_shows (reg_append c (a = KEEPS) s) t' \<and> h_claimed t' = h_claimed t \<and> h_base t' = 0"
proof -
  let ?e = "(c, a = KEEPS, fresh_gen (r_next s))"
  note n = table_shows_n(1) [OF assms(1)]
  have "st (h_who t) (unat (h_n t)) (Some c) = Some (arr (who_of) None (r_es s @ [?e]))"
    "st (h_attr t) (unat (h_n t)) (ucast a) = Some (arr keeps_byte 0 (r_es s @ [?e]))"
    "st (h_gen t) (unat (h_n t)) (fresh_gen (h_next t)) = Some (arr (gen_of) 0 (r_es s @ [?e]))"
    using assms(1) st_arr_append [OF assms(2), of "who_of" None ?e] st_arr_append [OF assms(2), of keeps_byte 0 ?e]
      st_arr_append [OF assms(2), of "gen_of" 0 ?e] holder_ok_attr(3) [OF assms(3), of c "fresh_gen (r_next s)"]
    unfolding n by (simp_all add: table_shows_def)
  then show ?thesis using assms(1,2)
    by (simp add: append_holder_def take_gen_shows Let_def n, simp add: table_shows_def reg_append_def add.commute)
qed

lemma refresh_shows:
  assumes "table_shows s t" "i < length (r_es s)" "holder_ok h a" "pos (r_es s) c = Some i" "h = Some c"
  shows "\<exists>t'. refresh t i a = Some (fst (reg_refresh i (a = KEEPS) s), t') \<and> table_shows (snd (reg_refresh i (a = KEEPS) s)) t'"
proof -
  obtain c' k g where e: "r_es s ! i = (c', k, g)" by (cases "r_es s ! i") auto
  have l: "ld (h_attr t) i = Some (keeps_byte (c', k, g))" using assms(1,2) e by (simp add: table_shows_def ld_arr)
  have b: "ucast (keeps_byte (c', k, g)) = a \<longleftrightarrow> k = (a = KEEPS)" using holder_ok_attr(4) [OF assms(3)] by simp
  show ?thesis
  proof (cases "k = (a = KEEPS)")
    case False
    with l b e assms(1) show ?thesis by (simp add: refresh_def reg_refresh_def)
  next
    case True
    let ?e = "(c', k, fresh_gen (r_next s))"
    have "st (h_gen t) i (fresh_gen (r_next s)) = Some (arr (gen_of) 0 ((r_es s)[i := ?e]))"
      using assms(1,2) by (simp add: table_shows_def st_arr_update)
    moreover have "arr (who_of) None ((r_es s)[i := ?e]) = h_who t" "arr keeps_byte 0 ((r_es s)[i := ?e]) = h_attr t"
      using assms(1,2) e by (simp_all add: table_shows_def arr_same keeps_byte_def)
    ultimately show ?thesis using True l b e assms(1)
      by (auto simp: refresh_def reg_refresh_def take_gen_shows Let_def table_shows_def)
  qed
qed

lemma remove_shows:
  assumes "table_shows s t" "i < length (r_es s)"
  shows "\<exists>t'. remove_at t i = Some (fst (reg_remove_at i s), t') \<and> table_shows (snd (reg_remove_at i s)) t'"
proof -
  let ?n = "length (r_es s)"
  note n = table_shows_n(1,5) [OF assms(1)]
  obtain ws where ws: "close_gap (h_who t) i (?n - (i + 1)) = Some ws" "st ws (?n - 1) None = Some (arr (who_of) None (del i (r_es s)))"
    using close_gap_arr [OF assms(2) n(2), of "who_of" None] assms(1) by (auto simp: table_shows_def)
  obtain as where as: "close_gap (h_attr t) i (?n - (i + 1)) = Some as" "st as (?n - 1) 0 = Some (arr keeps_byte 0 (del i (r_es s)))"
    using close_gap_arr [OF assms(2) n(2), of keeps_byte 0] assms(1) by (auto simp: table_shows_def)
  obtain gs where gs: "close_gap (h_gen t) i (?n - (i + 1)) = Some gs" "st gs (?n - 1) 0 = Some (arr (gen_of) 0 (del i (r_es s)))"
    using close_gap_arr [OF assms(2) n(2), of "gen_of" 0] assms(1) by (auto simp: table_shows_def)
  have ln: "length (del i (r_es s)) = ?n - 1" using assms(2) by (simp add: del_def)
  have hn: "h_n t - 1 = of_nat (?n - 1)" using assms by (simp add: table_shows_def of_nat_diff)
  have un: "unat (h_n t - 1) = ?n - 1" unfolding hn using n(2) by (simp add: unsigned_of_nat take_bit_nat_eq_self CAM_MAX_def)
  have z: "h_n t - 1 = 0 \<longleftrightarrow> del i (r_es s) = []" using un ln by (metis length_0_conv unat_eq_zero)
  let ?t = "t\<lparr>h_who := arr who_of None (del i (r_es s)), h_attr := arr keeps_byte 0 (del i (r_es s)),
    h_gen := arr gen_of 0 (del i (r_es s)), h_n := h_n t - 1\<rparr>"
  define m where "m = ?n - 1"
  have "remove_at t i = Some (if h_n t - 1 = 0 then T_STOP else T_NONE, ?t)"
    unfolding remove_at_def drop_last_def n(1) Let_def ws(1) as(1) gs(1) bind.bind_lunit
    using un ws(2) as(2) gs(2) unfolding m_def [symmetric] by simp
  moreover have "table_shows (snd (reg_remove_at i s)) ?t"
    using assms(1) n(2) ln hn by (simp add: table_shows_def reg_remove_at_def Let_def)
  ultimately show ?thesis using z by (simp add: reg_remove_at_def Let_def)
qed

lemma start_claim_shows:
  assumes "table_shows s t"
  shows "start_claim t 0 = (T_START, t\<lparr>h_claimed := 1, h_base := 0\<rparr>)"
    "table_shows (s\<lparr>r_claimed := True\<rparr>) (t\<lparr>h_claimed := 1, h_base := 0\<rparr>)"
  using assms by (simp_all add: start_claim_def table_shows_def)

text \<open>An operation of the table answers as the registry and leaves a table that shows it.\<close>

definition answers_as :: "('a \<times> cam_holders) option \<Rightarrow> 'a \<times> registry \<Rightarrow> bool" where
  "answers_as r x \<longleftrightarrow> (\<exists>t. r = Some (fst x, t) \<and> table_shows (snd x) t)"

lemma answers_as_Some [simp]: "answers_as (Some (a, t)) (b, s) \<longleftrightarrow> a = b \<and> table_shows s t"
  by (auto simp: answers_as_def)

lemma n_less_max: "length es \<le> CAM_MAX \<Longrightarrow> CAM_MAX \<le> length es \<longleftrightarrow> length es = CAM_MAX"
  by linarith

lemma add_answers:
  assumes "table_shows s t"
  shows "answers_as (cam_holders_add t h a) (reg_add s h a)"
proof (cases "holder_ok h a \<and> \<not> r_claimed s")
  case False
  with assms table_shows_n [OF assms] show ?thesis by (auto simp: cam_holders_add_def reg_add_def)
next
  case True
  then obtain c where h: "h = Some c" using holder_ok_attr(1) by blast
  note n = table_shows_n [OF assms]
  have unf: "cam_holders_add t h a = (case pos (r_es s) c of
      Some k \<Rightarrow> refresh t k a
    | None \<Rightarrow> if length (r_es s) = CAM_MAX then Some (E_FULL, t)
        else if r_es s = [] then Option.bind (append_holder t (Some c) a) (\<lambda>(g, t). Some (start_claim t 0))
        else Option.bind (append_holder t (Some c) a) (\<lambda>(g, t). Some (T_NONE, t)))"
    using True n find_shows [OF assms, of c] by (simp add: cam_holders_add_def h n_less_max)
  show ?thesis
  proof (cases "pos (r_es s) c")
    case (Some i)
    with refresh_shows [OF assms _ _ Some h] True show ?thesis
      unfolding unf by (auto simp: reg_add_def h answers_as_def dest: pos_length)
  next
    case None
    show ?thesis
    proof (cases "length (r_es s) = CAM_MAX")
      case False
      then have "length (r_es s) < CAM_MAX" using n(5) by linarith
      with append_shows [OF assms this] True h obtain t' where
        t': "append_holder t (Some c) a = Some (r_next (reg_append c (a = KEEPS) s), t')"
          "table_shows (reg_append c (a = KEEPS) s) t'" by auto
      with None False True start_claim_shows [OF t'(2)] show ?thesis
        unfolding unf by (auto simp: reg_add_def h)
    qed (use None True assms unf in \<open>auto simp: reg_add_def h CAM_MAX_def\<close>)
  qed
qed

lemma join_answers:
  assumes "table_shows s t"
  shows "\<exists>t'. cam_holders_add_or_start t h a sp sa =
      Some (fst (reg_join s h a sp sa), t', snd (snd (reg_join s h a sp sa))) \<and>
    table_shows (fst (snd (reg_join s h a sp sa))) t'"
proof (cases "holder_ok h a \<and> holder_ok sp sa \<and> \<not> same_ptr h sp \<and> \<not> r_claimed s")
  case False
  with assms table_shows_n [OF assms] show ?thesis by (auto simp: cam_holders_add_or_start_def reg_join_def)
next
  case True
  then obtain c d where h: "h = Some c" "sp = Some d" using holder_ok_attr(1) by blast
  note n = table_shows_n [OF assms]
  show ?thesis
  proof (cases "r_es s = []")
    case empty: True
    have "length (r_es s) < CAM_MAX" by (simp add: empty CAM_MAX_def)
    with append_shows [OF assms this] True h obtain t1 where
      t1: "append_holder t (Some d) sa = Some (r_next (reg_append d (sa = KEEPS) s), t1)"
        "table_shows (reg_append d (sa = KEEPS) s) t1" by blast
    have "length (r_es (reg_append d (sa = KEEPS) s)) < CAM_MAX" by (simp add: reg_append_def empty CAM_MAX_def)
    with append_shows [OF t1(2) this] True h obtain t2 where
      t2: "append_holder t1 (Some c) a = Some (r_next (reg_append c (a = KEEPS) (reg_append d (sa = KEEPS) s)), t2)"
        "table_shows (reg_append c (a = KEEPS) (reg_append d (sa = KEEPS) s)) t2" by blast
    show ?thesis using True n empty t1(1) t2(1) start_claim_shows [OF t2(2)]
      by (auto simp: cam_holders_add_or_start_def reg_join_def h Let_def)
  next
    case ne: False
    have unf: "cam_holders_add_or_start t h a sp sa = (case pos (r_es s) c of
        Some k \<Rightarrow> Option.bind (refresh t k a) (\<lambda>(r, t). Some (r, t, no_ticket))
      | None \<Rightarrow> if length (r_es s) = CAM_MAX then Some (E_FULL, t, no_ticket)
          else Option.bind (append_holder t (Some c) a)
            (\<lambda>(g, t). Some (T_NONE, t, \<lparr>t_added = ADDED_SELF, t_self = g, t_starter = 0\<rparr>)))"
      using True n ne find_shows [OF assms, of c] by (simp add: cam_holders_add_or_start_def h n_less_max)
    show ?thesis
    proof (cases "pos (r_es s) c")
      case (Some i)
      then have "i < length (r_es s)" using pos_length by blast
      with refresh_shows [OF assms _ _ Some h(1)] True h obtain t' where
        "refresh t i a = Some (fst (reg_refresh i (a = KEEPS) s), t')" "table_shows (snd (reg_refresh i (a = KEEPS) s)) t'"
        by blast
      with Some True ne show ?thesis unfolding unf by (auto simp: reg_join_def h split: prod.splits)
    next
      case None
      show ?thesis
      proof (cases "length (r_es s) = CAM_MAX")
        case False
        then have "length (r_es s) < CAM_MAX" using n(5) by linarith
        with append_shows [OF assms this] True h obtain t' where
          t': "append_holder t (Some c) a = Some (r_next (reg_append c (a = KEEPS) s), t')"
            "table_shows (reg_append c (a = KEEPS) s) t'" by auto
        with None False True ne show ?thesis unfolding unf by (auto simp: reg_join_def h Let_def)
      qed (use None True ne assms unf in \<open>auto simp: reg_join_def h\<close>)
    qed
  qed
qed

lemma remove_answers:
  assumes "table_shows s t"
  shows "answers_as (cam_holders_remove t h) (reg_remove s h)"
proof (cases "h = None \<or> r_claimed s")
  case True
  with assms table_shows_n [OF assms] show ?thesis by (auto simp: cam_holders_remove_def reg_remove_def)
next
  case False
  then obtain c where h: "h = Some c" by auto
  show ?thesis
  proof (cases "pos (r_es s) c")
    case None
    with False h assms table_shows_n [OF assms] find_shows [OF assms, of c] show ?thesis
      by (simp add: cam_holders_remove_def reg_remove_def)
  next
    case (Some i)
    then have i: "i < length (r_es s)" using pos_length by blast
    with Some False h assms table_shows_n [OF assms] find_shows [OF assms, of c] held_back_shows [OF assms i]
      remove_shows [OF assms i] show ?thesis
      by (auto simp: cam_holders_remove_def reg_remove_def answers_as_def)
  qed
qed

lemma undo_one_answers:
  assumes "table_shows s t"
  shows "answers_as (undo_one t (Some c) g) (reg_undo_one s c g)"
proof (cases "pos (r_es s) c")
  case None
  with assms find_shows [OF assms, of c] show ?thesis by (simp add: undo_one_def reg_undo_one_def)
next
  case (Some i)
  then have i: "i < length (r_es s)" using pos_length by blast
  have "ld (h_gen t) i = Some (gen_of (r_es s ! i))" using assms i by (simp add: table_shows_def ld_arr)
  with Some assms find_shows [OF assms, of c] held_back_shows [OF assms i] remove_shows [OF assms i] show ?thesis
    by (auto simp: undo_one_def reg_undo_one_def answers_as_def split: prod.splits)
qed

lemma undo_answers:
  assumes "table_shows s t"
  shows "answers_as (cam_holders_undo t h sp tk) (reg_undo s h sp tk)"
proof (cases "h = None \<or> r_claimed s")
  case True
  with assms table_shows_n [OF assms] show ?thesis by (auto simp: cam_holders_undo_def reg_undo_def)
next
  case False
  then obtain c where h: "h = Some c" by auto
  define x where "x = (if t_added tk AND ADDED_SELF \<noteq> 0 then reg_undo_one s c (t_self tk) else (None, s))"
  obtain r1 s1 where x': "x = (r1, s1)" by fastforce
  have "answers_as (if t_added tk AND ADDED_SELF \<noteq> 0 then undo_one t (Some c) (t_self tk) else Some (None, t)) x"
    using undo_one_answers [OF assms] assms by (simp add: x_def)
  then obtain t1 where 1: "(if t_added tk AND ADDED_SELF \<noteq> 0 then undo_one t (Some c) (t_self tk) else Some (None, t)) = Some (r1, t1)"
    "table_shows s1 t1" by (auto simp: answers_as_def x')
  define z where "z = (if t_added tk AND ADDED_STARTER \<noteq> 0 \<and> sp \<noteq> None then reg_undo_one s1 (the sp) (t_starter tk) else (None, s1))"
  obtain r2 s2 where z': "z = (r2, s2)" by fastforce
  have "answers_as (if t_added tk AND ADDED_STARTER \<noteq> 0 \<and> sp \<noteq> None then undo_one t1 sp (t_starter tk) else Some (None, t1)) z"
    using undo_one_answers [OF 1(2)] 1(2) by (auto simp: z_def)
  then obtain t2 where 2: "(if t_added tk AND ADDED_STARTER \<noteq> 0 \<and> sp \<noteq> None then undo_one t1 sp (t_starter tk) else Some (None, t1)) = Some (r2, t2)"
    "table_shows s2 t2" by (auto simp: answers_as_def z')
  have "cam_holders_undo t h sp tk = Some (later (later T_NONE r1) r2, t2)"
    unfolding cam_holders_undo_def Let_def h 1(1) using False h table_shows_n [OF assms] 2(1) by simp
  moreover have "reg_undo s h sp tk = (later (later T_NONE r1) r2, s2)"
    unfolding reg_undo_def h option.sel x_def [symmetric] x' prod.case z_def [symmetric] z' using False by simp
  ultimately show ?thesis using 2(2) by simp
qed

lemma abort_loop_shows:
  "table_shows s t \<Longrightarrow> \<exists>t'. abort_loop (length (r_es s)) t = Some t' \<and> table_shows (s\<lparr>r_es := []\<rparr>) t'"
proof (induction "length (r_es s)" arbitrary: s t)
  case 0
  then show ?case by (auto simp: table_shows_def)
next
  case (Suc n)
  then obtain es e where es: "r_es s = es @ [e]" by (metis length_0_conv nat.distinct(1) rev_exhaust)
  have n: "n = length es" using Suc.hyps(2) es by simp
  note sh = table_shows_n(1,5) [OF Suc.prems]
  have lt: "length es < CAM_MAX" using sh(2) es by simp
  have hn: "h_n t - 1 = of_nat (length es)" using Suc.prems es by (simp add: table_shows_def)
  have un: "unat (h_n t - 1) = length es" unfolding hn using lt by (simp add: unsigned_of_nat take_bit_nat_eq_self CAM_MAX_def)
  let ?t = "t\<lparr>h_who := arr who_of None es, h_attr := arr keeps_byte 0 es, h_gen := arr gen_of 0 es, h_n := h_n t - 1\<rparr>"
  have "drop_last t = Some ?t"
    using Suc.prems es lt un by (simp add: drop_last_def Let_def table_shows_def st_arr_drop)
  moreover have sh': "table_shows (s\<lparr>r_es := es\<rparr>) ?t" using Suc.prems lt hn by (simp add: table_shows_def)
  ultimately show ?case using Suc.hyps(1) [of "s\<lparr>r_es := es\<rparr>" ?t] n es by simp
qed

section \<open>Runs of calls\<close>

datatype cam_call =
    C_add holder_ptr u32
  | C_join holder_ptr u32 holder_ptr u32
  | C_remove holder_ptr
  | C_undo holder_ptr holder_ptr cam_ticket
  | C_commit
  | C_abort
  | C_clear

datatype cam_reply = R_ans cam_answer | R_join cam_answer cam_ticket | R_aborted nat | R_clear

fun call_table :: "cam_holders \<Rightarrow> cam_call \<Rightarrow> (cam_reply \<times> cam_holders) option" where
  "call_table t (C_add h a) = map_option (apfst R_ans) (cam_holders_add t h a)"
| "call_table t (C_join h a sp sa) =
     map_option (\<lambda>(r, t, tk). (R_join r tk, t)) (cam_holders_add_or_start t h a sp sa)"
| "call_table t (C_remove h) = map_option (apfst R_ans) (cam_holders_remove t h)"
| "call_table t (C_undo h sp tk) = map_option (apfst R_ans) (cam_holders_undo t h sp tk)"
| "call_table t C_commit = Some (apfst R_ans (cam_holders_commit t))"
| "call_table t C_abort = map_option (apfst (case_sum R_ans R_aborted)) (cam_holders_abort t)"
| "call_table t C_clear = Some (R_clear, cam_holders_clear t)"

fun call_reg :: "registry \<Rightarrow> cam_call \<Rightarrow> cam_reply \<times> registry" where
  "call_reg s (C_add h a) = apfst R_ans (reg_add s h a)"
| "call_reg s (C_join h a sp sa) = (case reg_join s h a sp sa of (r, s', tk) \<Rightarrow> (R_join r tk, s'))"
| "call_reg s (C_remove h) = apfst R_ans (reg_remove s h)"
| "call_reg s (C_undo h sp tk) = apfst R_ans (reg_undo s h sp tk)"
| "call_reg s C_commit = (if r_claimed s then (R_ans T_NONE, s\<lparr>r_claimed := False\<rparr>) else (R_ans E_NOT_CLAIMED, s))"
| "call_reg s C_abort =
     (if r_claimed s then (R_aborted (length (r_es s)), s\<lparr>r_es := [], r_claimed := False\<rparr>)
      else (R_ans E_NOT_CLAIMED, s))"
| "call_reg s C_clear = (R_clear, s\<lparr>r_es := [], r_claimed := False\<rparr>)"

fun run_table :: "cam_holders \<Rightarrow> cam_call list \<Rightarrow> (cam_reply list \<times> cam_holders) option" where
  "run_table t [] = Some ([], t)"
| "run_table t (c # cs) = do {
     (r, t) \<leftarrow> call_table t c;
     (rs, t) \<leftarrow> run_table t cs;
     Some (r # rs, t)
   }"

fun run_reg :: "registry \<Rightarrow> cam_call list \<Rightarrow> cam_reply list \<times> registry" where
  "run_reg s [] = ([], s)"
| "run_reg s (c # cs) = (case call_reg s c of (r, s') \<Rightarrow> apfst (Cons r) (run_reg s' cs))"

lemma call_answers:
  assumes "table_shows s t"
  shows "answers_as (call_table t c) (call_reg s c)"
proof (cases c)
  case (C_add h a)
  with add_answers [OF assms, of h a] show ?thesis by (auto simp: answers_as_def)
next
  case (C_join h a sp sa)
  with join_answers [OF assms, of h a sp sa] show ?thesis by (auto simp: answers_as_def split: prod.splits)
next
  case (C_remove h)
  with remove_answers [OF assms, of h] show ?thesis by (auto simp: answers_as_def)
next
  case (C_undo h sp tk)
  with undo_answers [OF assms, of h sp tk] show ?thesis by (auto simp: answers_as_def)
next
  case C_commit
  with assms table_shows_n [OF assms] show ?thesis by (auto simp: cam_holders_commit_def table_shows_def)
next
  case C_abort
  note n = table_shows_n [OF assms]
  obtain t' where t': "abort_loop (length (r_es s)) t = Some t'" "table_shows (s\<lparr>r_es := []\<rparr>) t'"
    using abort_loop_shows [OF assms] by blast
  have b: "unat (h_n t) - unat (h_base t) = length (r_es s)" using n(1) assms by (simp add: table_shows_def)
  have "table_shows (s\<lparr>r_es := [], r_claimed := False\<rparr>) (t'\<lparr>h_claimed := 0, h_base := 0\<rparr>)"
    using t'(2) by (simp add: table_shows_def)
  with C_abort n t'(1) b assms show ?thesis by (auto simp: cam_holders_abort_def Let_def)
next
  case C_clear
  with assms show ?thesis by (simp add: cam_holders_clear_def table_shows_def arr_def)
qed

definition no_holders :: registry where
  "no_holders = \<lparr>r_es = [], r_claimed = False, r_next = 0\<rparr>"

lemma init_shows: "table_shows no_holders (cam_holders_init t)"
  by (simp add: cam_holders_init_def cam_holders_clear_def table_shows_def arr_def no_holders_def)

lemma run_answers: "table_shows s t \<Longrightarrow> answers_as (run_table t cs) (run_reg s cs)"
proof (induction cs arbitrary: s t)
  case (Cons c cs)
  obtain r s' where c: "call_reg s c = (r, s')" by fastforce
  with call_answers [OF Cons.prems, of c] obtain t' where t': "call_table t c = Some (r, t')" "table_shows s' t'"
    by (auto simp: answers_as_def)
  from Cons.IH [OF t'(2)] c t'(1) show ?case by (auto simp: answers_as_def)
qed simp

text \<open>A table shows at most one registry state, and a registry state is shown by one table.\<close>

lemma table_shows_eq: "table_shows s t \<Longrightarrow> table_shows s t' \<Longrightarrow> t = t'"
  by (simp add: table_shows_def)

section \<open>Life of the stream\<close>

datatype phase = Idle | Starting | Streaming

definition phase_of :: "registry \<Rightarrow> phase" where
  "phase_of s = (if r_claimed s then Starting else if r_es s = [] then Idle else Streaming)"

fun answer_of :: "cam_reply \<Rightarrow> cam_answer" where
  "answer_of (R_ans a) = a" | "answer_of (R_join a tk) = a" | "answer_of (R_aborted n) = T_NONE" | "answer_of R_clear = T_NONE"

definition refused :: "cam_reply \<Rightarrow> bool" where
  "refused r \<longleftrightarrow> cam_rc (answer_of r) < 0"

text \<open>What the board does on the replies: it starts the camera on \<open>T_START\<close> and stops it on \<open>T_STOP\<close>.\<close>

inductive life :: "phase \<Rightarrow> cam_reply \<Rightarrow> phase \<Rightarrow> bool" where
  life_start: "answer_of r = T_START \<Longrightarrow> life Idle r Starting"
| life_commit: "life Starting (R_ans T_NONE) Streaming"
| life_abort: "life Starting (R_aborted n) Idle"
| life_stop: "life Streaming (R_ans T_STOP) Idle"
| life_clear: "life p R_clear Idle"
| life_refused: "refused r \<Longrightarrow> life p r p"
| life_none: "answer_of r = T_NONE \<Longrightarrow> p \<noteq> Starting \<Longrightarrow> (\<And>n. r \<noteq> R_aborted n) \<Longrightarrow> r \<noteq> R_clear \<Longrightarrow> life p r p"

inductive_cases life_idleE: "life Idle r p"
inductive_cases life_startingE: "life Starting r p"
inductive_cases life_streamingE: "life Streaming r p"

inductive life_run :: "phase \<Rightarrow> cam_reply list \<Rightarrow> phase \<Rightarrow> bool" where
  life_end: "life_run p [] p"
| life_step: "life p r q \<Longrightarrow> life_run q rs p' \<Longrightarrow> life_run p (r # rs) p'"

definition reg_ok :: "registry \<Rightarrow> bool" where
  "reg_ok s \<longleftrightarrow> distinct (map (\<lambda>e. ch_addr (fst e)) (r_es s)) \<and> (r_claimed s \<longrightarrow> r_es s \<noteq> [])"

text \<open>What an entry is removed by, and what it then leaves behind.\<close>

definition addrs :: "registry \<Rightarrow> nat list" where
  "addrs s = map (\<lambda>e. ch_addr (fst e)) (r_es s)"

lemma pos_addr: "pos (r_es s) c = None \<longleftrightarrow> ch_addr c \<notin> set (addrs s)"
  unfolding pos_None same_holder_def addrs_def by force

lemma addrs_simps [simp]:
  "addrs (reg_append c k s) = addrs s @ [ch_addr c]" "r_claimed (reg_append c k s) = r_claimed s"
  "r_es (reg_append c k s) \<noteq> []" "addrs (s\<lparr>r_claimed := b\<rparr>) = addrs s"
  by (simp_all add: addrs_def reg_append_def)

lemma del_props: "i < length xs \<Longrightarrow> set (del i xs) \<subseteq> set xs" "distinct xs \<Longrightarrow> distinct (del i xs)"
  "map f (del i xs) = del i (map f xs)" "i < length xs \<Longrightarrow> x \<in> set xs \<Longrightarrow> x \<notin> set (del i xs) \<Longrightarrow> x = xs ! i"
proof -
  show "i < length xs \<Longrightarrow> set (del i xs) \<subseteq> set xs" by (auto simp: del_def dest: in_set_takeD in_set_dropD)
  show "distinct xs \<Longrightarrow> distinct (del i xs)"
    by (simp add: del_def set_take_disj_set_drop_if_distinct)
  show "map f (del i xs) = del i (map f xs)" by (simp add: del_def take_map drop_map)
  assume i: "i < length xs" and x: "x \<in> set xs" "x \<notin> set (del i xs)"
  have "set xs = insert (xs ! i) (set (del i xs))"
    unfolding del_def by (subst id_take_nth_drop [OF i]) auto
  then show "x = xs ! i" using x by blast
qed

text \<open>One call: the phase it leads to, what it keeps, and what it may take away.\<close>

definition keeps :: "entry \<Rightarrow> bool" where "keeps e = fst (snd e)"

definition teardown :: "cam_reply \<Rightarrow> bool" where
  "teardown r \<longleftrightarrow> r = R_clear \<or> (\<exists>n. r = R_aborted n)"

definition good_call :: "registry \<Rightarrow> cam_reply \<Rightarrow> registry \<Rightarrow> bool" where
  "good_call s r s' \<longleftrightarrow> reg_ok s' \<and> life (phase_of s) r (phase_of s') \<and> (refused r \<longrightarrow> s' = s) \<and>
     (\<not> teardown r \<longrightarrow> (\<forall>e \<in> set (r_es s). keeps e \<and> ch_addr (fst e) \<notin> set (addrs s') \<longrightarrow>
        (\<forall>e' \<in> set (r_es s'). keeps e')))"

lemma good_refused: "reg_ok s \<Longrightarrow> refused r \<Longrightarrow> \<not> teardown r \<Longrightarrow> good_call s r s"
  by (auto simp: good_call_def addrs_def intro: life_refused)

lemma refused_simps [simp]:
  "refused (R_ans a) \<longleftrightarrow> cam_rc a < 0" "refused (R_join a tk) \<longleftrightarrow> cam_rc a < 0" "\<not> refused R_clear" "\<not> refused (R_aborted n)"
  "\<not> teardown (R_ans a)" "\<not> teardown (R_join a tk)" "teardown R_clear" "teardown (R_aborted n)"
  by (simp_all add: refused_def teardown_def)

lemma good_same: "reg_ok s \<Longrightarrow> \<not> r_claimed s \<Longrightarrow> good_call s (R_ans T_NONE) s"
  by (auto simp: good_call_def addrs_def phase_of_def intro: life_none)

text \<open>A reply that adds or refreshes: addresses only grow.\<close>

lemma good_grow:
  assumes "reg_ok s'" "set (addrs s) \<subseteq> set (addrs s')" "life (phase_of s) r (phase_of s')" "\<not> refused r"
  shows "good_call s r s'"
  using assms by (force simp: good_call_def addrs_def)

lemma reg_ok_addrs: "reg_ok s \<longleftrightarrow> distinct (addrs s) \<and> (r_claimed s \<longrightarrow> addrs s \<noteq> [])"
  by (simp add: reg_ok_def addrs_def)

lemma reg_refresh_good:
  assumes "reg_ok s" "\<not> r_claimed s" "i < length (r_es s)" "reg_refresh i k s = (a, s')"
    "answer_of r = a" "\<not> teardown r"
  shows "good_call s r s'"
proof -
  obtain c k' g where e: "r_es s ! i = (c, k', g)" by (cases "r_es s ! i") auto
  show ?thesis
  proof (cases "k' = k")
    case False
    with assms e show ?thesis by (auto simp: reg_refresh_def refused_def intro: good_refused)
  next
    case True
    let ?es = "(r_es s)[i := (c, k, fresh_gen (r_next s))]"
    have s': "s' = s\<lparr>r_es := ?es, r_next := fresh_gen (r_next s)\<rparr>" "a = T_NONE"
      using True assms(4) e by (auto simp: reg_refresh_def)
    have "addrs s' = addrs s"
      using e assms(3) by (simp add: s'(1) addrs_def map_update list_update_same_conv)
    moreover have "life (phase_of s) r (phase_of s')"
      using assms(2,3,5,6) s' by (auto simp: phase_of_def teardown_def intro: life_none)
    ultimately show ?thesis using assms(1,5) s' by (intro good_grow) (simp_all add: reg_ok_addrs refused_def)
  qed
qed

lemma reg_remove_good:
  assumes "reg_ok s" "\<not> r_claimed s" "i < length (r_es s)" "\<not> reg_held (r_es s) i" "reg_remove_at i s = (a, s')"
  shows "good_call s (R_ans a) s'"
proof -
  have s': "s' = s\<lparr>r_es := del i (r_es s)\<rparr>" "a = (if del i (r_es s) = [] then T_STOP else T_NONE)"
    using assms(5) by (auto simp: reg_remove_at_def Let_def)
  have "reg_ok s'" using assms(1,2) by (simp add: reg_ok_def s'(1) del_props(2,3))
  moreover have "life (phase_of s) (R_ans a) (phase_of s')"
    using assms(2,3) s' by (auto simp: phase_of_def intro: life_stop life_none)
  moreover have "\<forall>e' \<in> set (r_es s'). keeps e'"
    if e: "e \<in> set (r_es s)" "keeps e" "ch_addr (fst e) \<notin> set (addrs s')" for e
  proof -
    have "e \<notin> set (del i (r_es s))" using e(3) by (auto simp: addrs_def s'(1))
    then have "e = r_es s ! i" using del_props(4) [OF assms(3) e(1)] by blast
    then have "\<forall>e \<in> set (r_es s). keeps e" using assms(4) e(2) by (auto simp: reg_held_def keeps_def)
    then show ?thesis using del_props(1) [OF assms(3)] by (auto simp: s'(1))
  qed
  ultimately show ?thesis unfolding good_call_def s'(2) by auto
qed

lemma undo_one_cases:
  assumes "reg_ok s" "\<not> r_claimed s" "reg_undo_one s c g = (r, s')"
  obtains "r = None" "s' = s"
  | a where "r = Some a" "good_call s (R_ans a) s'" "set (r_es s') \<subseteq> set (r_es s)" "r_es s \<noteq> []" "\<not> r_claimed s'"
      "a = (if r_es s' = [] then T_STOP else T_NONE)"
proof (cases "pos (r_es s) c")
  case None
  with assms that(1) show ?thesis by (simp add: reg_undo_one_def)
next
  case (Some i)
  then have i: "i < length (r_es s)" using pos_length by blast
  show ?thesis
  proof (cases "g = 0 \<or> gen_of (r_es s ! i) \<noteq> g \<or> reg_held (r_es s) i")
    case True
    with Some assms that(1) show ?thesis by (simp add: reg_undo_one_def)
  next
    case False
    obtain a s1 where rm: "reg_remove_at i s = (a, s1)" by fastforce
    then have r: "r = Some a" "s1 = s'" using False Some assms(3) by (auto simp: reg_undo_one_def)
    have "good_call s (R_ans a) s'" using reg_remove_good [OF assms(1,2) i _ rm] False r(2) by simp
    moreover have "set (r_es s') \<subseteq> set (r_es s)" "\<not> r_claimed s'" "a = (if r_es s' = [] then T_STOP else T_NONE)"
      using rm r(2) del_props(1) [OF i] assms(2) by (auto simp: reg_remove_at_def Let_def)
    moreover have "r_es s \<noteq> []" using i by auto
    ultimately show ?thesis using that(2) [OF r(1)] by blast
  qed
qed

lemma undo_good:
  assumes "reg_ok s" "reg_undo s h sp tk = (a, s')"
  shows "good_call s (R_ans a) s'"
proof (cases "h = None \<or> r_claimed s")
  case True
  then have "s' = s" "a = E_INVAL \<or> a = E_CLAIMED" using assms(2) by (simp_all add: reg_undo_def split: if_splits)
  with assms(1) good_refused [of s "R_ans a"] show ?thesis by auto
next
  case False
  then have cl: "\<not> r_claimed s" by simp
  obtain r1 s1 where 1: "(if t_added tk AND ADDED_SELF \<noteq> 0 then reg_undo_one s (the h) (t_self tk) else (None, s)) = (r1, s1)" by fastforce
  obtain r2 s2 where 2: "(if t_added tk AND ADDED_STARTER \<noteq> 0 \<and> sp \<noteq> None then reg_undo_one s1 (the sp) (t_starter tk) else (None, s1)) = (r2, s2)" by fastforce
  have r: "a = later (later T_NONE r1) r2" "s' = s2"
    using assms(2) False unfolding reg_undo_def 1 prod.case 2 by auto
  have c1: "(r1 = None \<and> s1 = s) \<or> (\<exists>b. r1 = Some b \<and> good_call s (R_ans b) s1 \<and> r_es s \<noteq> [] \<and> \<not> r_claimed s1 \<and>
      set (r_es s1) \<subseteq> set (r_es s) \<and> b = (if r_es s1 = [] then T_STOP else T_NONE))"
    using 1 by (auto split: if_splits elim: undo_one_cases [OF assms(1) cl])
  have c2: "(r2 = None \<and> s2 = t) \<or> (\<exists>b. r2 = Some b \<and> good_call t (R_ans b) s2 \<and> r_es t \<noteq> [] \<and>
      set (r_es s2) \<subseteq> set (r_es t) \<and> \<not> r_claimed s2 \<and> b = (if r_es s2 = [] then T_STOP else T_NONE))"
    if "reg_ok t" "\<not> r_claimed t" "s1 = t" for t
    using 2 that(3) by (auto split: if_splits elim: undo_one_cases [OF that(1,2)])
  show ?thesis
  proof (cases r1)
    case None
    with c1 have s1: "s1 = s" by simp
    from c2 [OF assms(1) cl s1] show ?thesis
      using None r good_same [OF assms(1) cl] by (auto simp: later_def)
  next
    case (Some b)
    with c1 have b: "good_call s (R_ans b) s1" "r_es s \<noteq> []" "\<not> r_claimed s1" "b = (if r_es s1 = [] then T_STOP else T_NONE)"
      "set (r_es s1) \<subseteq> set (r_es s)"
      by auto
    have ok1: "reg_ok s1" using b(1) by (simp add: good_call_def)
    show ?thesis
    proof (cases r2)
      case None
      with c2 [OF ok1 b(3) refl] Some b(1) r show ?thesis by (simp add: later_def)
    next
      case (Some d)
      with c2 [OF ok1 b(3) refl] have d: "good_call s1 (R_ans d) s2" "r_es s1 \<noteq> []" "set (r_es s2) \<subseteq> set (r_es s1)"
        "\<not> r_claimed s2" "d = (if r_es s2 = [] then T_STOP else T_NONE)" by auto
      have "a = d" using r(1) Some by (simp add: later_def)
      moreover have "life (phase_of s) (R_ans d) (phase_of s2)"
        using cl b(2) d(4,5) by (auto simp: phase_of_def intro: life_stop life_none)
      moreover have "\<forall>e' \<in> set (r_es s2). keeps e'"
        if e: "e \<in> set (r_es s)" "keeps e" "ch_addr (fst e) \<notin> set (addrs s2)" for e
      proof (cases "ch_addr (fst e) \<in> set (addrs s1)")
        case False
        then have "\<forall>e' \<in> set (r_es s1). keeps e'" using b(1) e by (auto simp: good_call_def)
        with d(3) show ?thesis by blast
      next
        case True
        then obtain e1 where e1: "e1 \<in> set (r_es s1)" "ch_addr (fst e1) = ch_addr (fst e)" by (auto simp: addrs_def)
        have "distinct (map (\<lambda>e. ch_addr (fst e)) (r_es s))" using assms(1) by (simp add: reg_ok_def)
        then have "e1 = e" using e1 e(1) b(5) by (auto simp: distinct_map inj_on_def)
        with e1 e(2,3) d(1) show ?thesis by (auto simp: good_call_def)
      qed
      moreover have "reg_ok s2" using d(1) by (simp add: good_call_def)
      moreover have "\<not> refused (R_ans d)" using d(5) by simp
      ultimately show ?thesis unfolding good_call_def r(2) by blast
    qed
  qed
qed

lemma reg_ok_append:
  assumes "reg_ok s" "pos (r_es s) c = None"
  shows "reg_ok (reg_append c k s)" "reg_ok ((reg_append c k s)\<lparr>r_claimed := True\<rparr>)"
  using assms unfolding reg_ok_addrs pos_addr by auto

lemma life_added:
  "\<not> r_claimed s \<Longrightarrow> r_es s \<noteq> [] \<Longrightarrow> answer_of r = T_NONE \<Longrightarrow> \<not> teardown r \<Longrightarrow>
    life (phase_of s) r (phase_of (reg_append c k s))"
  by (auto simp: phase_of_def teardown_def intro: life_none)

lemma append_good:
  assumes "reg_ok s" "\<not> r_claimed s" "pos (r_es s) c = None" "\<not> teardown r" "answer_of r = b"
    "s' = (if r_es s = [] then (reg_append c k s)\<lparr>r_claimed := True\<rparr> else reg_append c k s)"
    "b = (if r_es s = [] then T_START else T_NONE)"
  shows "good_call s r s'"
proof -
  have "life (phase_of s) r (phase_of s')"
  proof (cases "r_es s = []")
    case True
    with assms show ?thesis by (simp add: phase_of_def life_start)
  next
    case False
    with assms life_added [OF assms(2) False, of r c k] show ?thesis by simp
  qed
  moreover have "reg_ok s'" using reg_ok_append [OF assms(1,3)] assms(6) by simp
  moreover have "set (addrs s) \<subseteq> set (addrs s')" "\<not> refused r" using assms(5,6,7) by (auto simp: refused_def)
  ultimately show ?thesis by (intro good_grow)
qed

lemma add_good:
  assumes "reg_ok s" "reg_add s h a = (b, s')"
  shows "good_call s (R_ans b) s'"
proof (cases "\<not> holder_ok h a \<or> r_claimed s")
  case True
  then have "s' = s" "cam_rc b < 0" using assms(2) by (auto simp: reg_add_def split: if_splits)
  with assms(1) good_refused [of s "R_ans b"] show ?thesis by simp
next
  case False
  show ?thesis
  proof (cases "pos (r_es s) (the h)")
    case (Some i)
    then have "reg_refresh i (a = KEEPS) s = (b, s')" using False assms(2) by (simp add: reg_add_def)
    with reg_refresh_good [OF assms(1) _ _ this, of "R_ans b"] Some pos_length False show ?thesis by simp
  next
    case None
    show ?thesis
    proof (cases "length (r_es s) = CAM_MAX")
      case True
      then have "s' = s" "cam_rc b < 0" using assms(2) None False by (auto simp: reg_add_def)
      with assms(1) good_refused [of s "R_ans b"] show ?thesis by simp
    next
      case ne: False
      show ?thesis
        by (rule append_good [OF assms(1) _ None]) (use False ne None assms(2) in \<open>auto simp: reg_add_def split: if_splits\<close>)
    qed
  qed
qed

lemma join_good:
  assumes "reg_ok s" "reg_join s h a sp sa = (b, s', tk)"
  shows "good_call s (R_join b tk) s'"
proof (cases "\<not> holder_ok h a \<or> \<not> holder_ok sp sa \<or> same_ptr h sp \<or> r_claimed s")
  case True
  then have "s' = s" "cam_rc b < 0" using assms(2) by (auto simp: reg_join_def split: if_splits)
  with assms(1) good_refused [of s "R_join b tk"] show ?thesis by simp
next
  case False
  show ?thesis
  proof (cases "r_es s = []")
    case True
    obtain c d where cd: "h = Some c" "sp = Some d" using holder_ok_attr(1) False by blast
    have s': "s' = (reg_append c (a = KEEPS) (reg_append d (sa = KEEPS) s))\<lparr>r_claimed := True\<rparr>" "b = T_START"
      using True False assms(2) by (auto simp: reg_join_def Let_def cd)
    have "addrs s = []" using True by (simp add: addrs_def)
    then have "reg_ok s'" using False by (auto simp: reg_ok_addrs cd same_ptr_def s'(1))
    moreover have "life (phase_of s) (R_join b tk) (phase_of s')"
      using False True s' by (simp add: phase_of_def life_start)
    ultimately show ?thesis using s' by (intro good_grow) auto
  next
    case ne: False
    show ?thesis
    proof (cases "pos (r_es s) (the h)")
      case (Some i)
      then have "reg_refresh i (a = KEEPS) s = (b, s')"
        using False ne assms(2) by (auto simp: reg_join_def split: prod.splits)
      with reg_refresh_good [OF assms(1) _ _ this, of "R_join b tk"] Some pos_length False show ?thesis by simp
    next
      case None
      show ?thesis
      proof (cases "length (r_es s) = CAM_MAX")
        case True
        then have "s' = s" "cam_rc b < 0" using assms(2) None False ne by (auto simp: reg_join_def)
        with assms(1) good_refused [of s "R_join b tk"] show ?thesis by simp
      next
        case lt: False
        show ?thesis
          by (rule append_good [OF assms(1) _ None]) (use False ne lt None assms(2) in \<open>auto simp: reg_join_def Let_def\<close>)
      qed
    qed
  qed
qed

lemma remove_good:
  assumes "reg_ok s" "reg_remove s h = (b, s')"
  shows "good_call s (R_ans b) s'"
proof -
  show ?thesis
  proof (cases "h = None \<or> r_claimed s")
    case True
    then have "s' = s" "cam_rc b < 0" using assms(2) by (auto simp: reg_remove_def split: if_splits)
    with assms(1) good_refused [of s "R_ans b"] show ?thesis by simp
  next
    case False
    show ?thesis
    proof (cases "pos (r_es s) (the h)")
      case None
      with False assms good_same [OF assms(1)] show ?thesis by (auto simp: reg_remove_def)
    next
      case (Some i)
      then have i: "i < length (r_es s)" using pos_length by blast
      show ?thesis
      proof (cases "reg_held (r_es s) i")
        case True
        with False Some assms good_refused [of s "R_ans b"] show ?thesis by (auto simp: reg_remove_def)
      next
        case nh: False
        then have "reg_remove_at i s = (b, s')" using False Some assms(2) by (auto simp: reg_remove_def)
        with reg_remove_good [OF assms(1) _ i nh] False show ?thesis by simp
      qed
    qed
  qed
qed

lemma call_good:
  assumes "reg_ok s" "call_reg s c = (r, s')"
  shows "good_call s r s'"
proof (cases c)
  case (C_add h a)
  with assms add_good show ?thesis by (cases "reg_add s h a") auto
next
  case (C_join h a sp sa)
  with assms join_good show ?thesis by (auto split: prod.splits)
next
  case (C_remove h)
  with assms remove_good show ?thesis by (cases "reg_remove s h") auto
next
  case (C_undo h sp tk)
  with assms undo_good show ?thesis by (cases "reg_undo s h sp tk") auto
next
  case C_commit
  then show ?thesis using assms good_refused [OF assms(1), of "R_ans E_NOT_CLAIMED"]
    by (auto simp: good_call_def reg_ok_def phase_of_def addrs_def intro: life_commit split: if_splits)
next
  case C_abort
  then show ?thesis using assms good_refused [OF assms(1), of "R_ans E_NOT_CLAIMED"]
    by (auto simp: good_call_def reg_ok_def phase_of_def addrs_def intro: life_abort split: if_splits)
next
  case C_clear
  then show ?thesis using assms by (auto simp: good_call_def reg_ok_def phase_of_def intro: life_clear)
qed

lemma run_good:
  "reg_ok s \<Longrightarrow> run_reg s cs = (rs, s') \<Longrightarrow> reg_ok s' \<and> life_run (phase_of s) rs (phase_of s')"
proof (induction cs arbitrary: s rs s')
  case (Cons c cs)
  obtain r s1 where c: "call_reg s c = (r, s1)" by fastforce
  obtain rs1 s2 where run: "run_reg s1 cs = (rs1, s2)" by fastforce
  have g: "reg_ok s1" "life (phase_of s) r (phase_of s1)" using call_good [OF Cons.prems(1) c] by (auto simp: good_call_def)
  from Cons.IH [OF g(1) run] g(2) c run Cons.prems(2) show ?case by (auto intro: life_step)
qed (auto intro: life_end)

section \<open>Generations\<close>

definition gens_ok :: "registry \<Rightarrow> bool" where
  "gens_ok s \<longleftrightarrow> (\<forall>e \<in> set (r_es s). unat (gen_of e) \<le> unat (r_next s))"

text \<open>From \<open>s\<close> to \<open>s'\<close> the counter moved by at most \<open>k\<close>, and an entry is old or has a new generation.\<close>

definition gens_step :: "nat \<Rightarrow> registry \<Rightarrow> registry \<Rightarrow> bool" where
  "gens_step k s s' \<longleftrightarrow> unat (r_next s) \<le> unat (r_next s') \<and> unat (r_next s') \<le> unat (r_next s) + k \<and>
     (\<forall>e \<in> set (r_es s'). e \<in> set (r_es s) \<or> unat (r_next s) < unat (gen_of e) \<and> unat (gen_of e) \<le> unat (r_next s'))"

lemma gens_step_trans: "gens_step j s t \<Longrightarrow> gens_step k t u \<Longrightarrow> gens_step (j + k) s u"
  unfolding gens_step_def by (smt (verit) add.assoc add_le_mono1 le_trans order.strict_trans1)

lemma gens_step_ok: "gens_step k s s' \<Longrightarrow> gens_ok s \<Longrightarrow> gens_ok s'"
  unfolding gens_step_def gens_ok_def by (meson le_trans)

lemma gens_step_subset: "set (r_es s') \<subseteq> set (r_es s) \<Longrightarrow> r_next s' = r_next s \<Longrightarrow> gens_step k s s'"
  by (auto simp: gens_step_def)

lemma gens_step_mono: "gens_step j s s' \<Longrightarrow> j \<le> k \<Longrightarrow> gens_step k s s'"
  by (auto simp: gens_step_def)

lemma fresh_gen_Suc: "unat g + 1 < 2 ^ 32 \<Longrightarrow> unat (fresh_gen g) = unat g + 1"
proof -
  assume a: "unat g + 1 < 2 ^ 32"
  then have "unat (g + 1) = unat g + 1" using unat_add_lem [of g 1] by simp
  moreover from this have "g + 1 \<noteq> 0" by (metis Suc_eq_plus1 nat.distinct(1) unsigned_0)
  ultimately show ?thesis by (simp add: fresh_gen_def)
qed

lemma append_gens: "unat (r_next s) + 1 < 2 ^ 32 \<Longrightarrow> gens_step 1 s (reg_append c k s)"
  using fresh_gen_Suc [of "r_next s"] by (auto simp: gens_step_def reg_append_def)

lemma refresh_gens:
  assumes "unat (r_next s) + 1 < 2 ^ 32" "reg_refresh i k s = (b, s')"
  shows "gens_step 1 s s'"
proof -
  obtain c k' g where e: "r_es s ! i = (c, k', g)" by (cases "r_es s ! i") auto
  show ?thesis
    using assms(2) e fresh_gen_Suc [OF assms(1)]
    by (auto simp: reg_refresh_def gens_step_def split: if_splits dest!: set_update_subset_insert [THEN subsetD])
qed

lemma remove_at_gens: "i < length (r_es s) \<Longrightarrow> gens_step k s (snd (reg_remove_at i s))"
  using del_props(1) [of i "r_es s"] by (intro gens_step_subset) (auto simp: reg_remove_at_def Let_def)

lemma gens_step_same [simp]: "gens_step k s s" "gens_step k s (s\<lparr>r_claimed := b\<rparr>)" "gens_step k s (s\<lparr>r_es := []\<rparr>)"
  "gens_step k s (t\<lparr>r_claimed := b\<rparr>) \<longleftrightarrow> gens_step k s t"
  by (simp_all add: gens_step_def)

lemma undo_one_gens: "reg_undo_one s c g = (r, s') \<Longrightarrow> gens_step k s s'"
  using remove_at_gens [of _ s k]
  by (auto simp: reg_undo_one_def split: option.splits if_splits prod.splits dest!: pos_length) (metis snd_conv)

lemma add_gens:
  assumes "unat (r_next s) + 2 < 2 ^ 32" "reg_add s h a = (b, s')"
  shows "gens_step 1 s s'"
  using assms append_gens [of s] refresh_gens [of s]
  by (auto simp: reg_add_def split: if_splits option.splits)

lemma join_gens:
  assumes "unat (r_next s) + 2 < 2 ^ 32" "reg_join s h a sp sa = (b, s', tk)"
  shows "gens_step 2 s s'"
proof -
  have one: "gens_step 2 s (reg_append c k s)" for c k
    using append_gens [of s c k] assms(1) by (auto intro: gens_step_mono)
  have two: "gens_step 2 s (reg_append c k (reg_append d l s))" for c k d l
  proof -
    have "unat (r_next (reg_append d l s)) + 1 < 2 ^ 32"
      using append_gens [of s d l] assms(1) by (simp add: gens_step_def)
    from gens_step_trans [OF append_gens append_gens [OF this]] assms(1) show ?thesis by (simp add: numeral_2_eq_2)
  qed
  have ref: "gens_step 2 s t" if "reg_refresh i k s = (r, t)" for i k r t
    using refresh_gens [OF _ that] assms(1) by (auto intro: gens_step_mono)
  show ?thesis
    using assms(2) one two ref
    by (auto simp: reg_join_def Let_def split: if_splits option.splits prod.splits)
qed

lemma undo_gens: "reg_undo s h sp tk = (b, s') \<Longrightarrow> gens_step k s s'"
proof -
  assume a: "reg_undo s h sp tk = (b, s')"
  have u: "gens_step 0 s (snd (if p then reg_undo_one s c g else (None, s)))" for s p c g
    using undo_one_gens [of s c g] by (cases "reg_undo_one s c g") auto
  show ?thesis
  proof (cases "h = None \<or> r_claimed s")
    case True
    with a show ?thesis by (auto simp: reg_undo_def split: if_splits)
  next
    case False
    define s1 where "s1 = snd (if t_added tk AND ADDED_SELF \<noteq> 0 then reg_undo_one s (the h) (t_self tk) else (None, s))"
    have "s' = snd (if t_added tk AND ADDED_STARTER \<noteq> 0 \<and> sp \<noteq> None then reg_undo_one s1 (the sp) (t_starter tk) else (None, s1))"
      using a False unfolding reg_undo_def s1_def by (auto simp: case_prod_unfold)
    then have "gens_step 0 s1 s'" using u by simp
    moreover have "gens_step 0 s s1" unfolding s1_def by (rule u)
    ultimately have "gens_step (0 + 0) s s'" using gens_step_trans by blast
    then show ?thesis by (rule gens_step_mono) simp
  qed
qed

lemma call_gens:
  assumes "unat (r_next s) + 2 < 2 ^ 32" "call_reg s c = (r, s')"
  shows "gens_step 2 s s'"
proof (cases c)
  case (C_add h a)
  with assms add_gens [OF assms(1)] gens_step_mono show ?thesis by (cases "reg_add s h a") fastforce
next
  case (C_join h a sp sa)
  with assms join_gens [OF assms(1)] show ?thesis by (auto split: prod.splits)
next
  case (C_remove h)
  then have "s' = snd (reg_remove s h)" using assms(2) by (cases "reg_remove s h") auto
  then show ?thesis using remove_at_gens [of _ s 2]
    by (auto simp: reg_remove_def split: option.splits dest!: pos_length)
next
  case (C_undo h sp tk)
  with assms undo_gens show ?thesis by (cases "reg_undo s h sp tk") auto
qed (use assms in \<open>auto split: if_splits\<close>)

lemma run_gens:
  "unat (r_next s) + 2 * length cs < 2 ^ 32 \<Longrightarrow> run_reg s cs = (rs, s') \<Longrightarrow> gens_step (2 * length cs) s s'"
proof (induction cs arbitrary: s rs s')
  case (Cons c cs)
  obtain r s1 where c: "call_reg s c = (r, s1)" by fastforce
  obtain rs1 where run: "run_reg s1 cs = (rs1, s')" using Cons.prems(2) c by (cases "run_reg s1 cs") auto
  have g: "gens_step 2 s s1" using call_gens [OF _ c] Cons.prems(1) by simp
  then have "gens_step (2 * length cs) s1 s'"
    using Cons.IH [OF _ run] Cons.prems(1) by (simp add: gens_step_def)
  from gens_step_trans [OF g this] show ?case by simp
qed simp

lemma run_reg_append:
  "run_reg s (xs @ ys) = (case run_reg s xs of (rs, s1) \<Rightarrow> apfst ((@) rs) (run_reg s1 ys))"
  by (induction xs arbitrary: s) (simp_all add: case_prod_unfold apfst_def map_prod_def)

text \<open>What an undo takes away carries a generation of its ticket.\<close>

lemma undo_one_removed:
  assumes "reg_undo_one s c g = (r, s')" "e \<in> set (r_es s)" "e \<notin> set (r_es s')"
  shows "gen_of e = g \<and> ch_addr (fst e) = ch_addr c"
proof -
  obtain i where i: "pos (r_es s) c = Some i" "i < length (r_es s)" "same_holder c (r_es s ! i)"
    using assms by (cases "pos (r_es s) c") (auto simp: reg_undo_one_def dest: pos_length)
  have g: "gen_of (r_es s ! i) = g" "r_es s' = del i (r_es s)"
    using assms i by (auto simp: reg_undo_one_def reg_remove_at_def Let_def split: if_splits)
  with del_props(4) [OF i(2) assms(2)] assms(3) i(3) show ?thesis by (auto simp: same_holder_def)
qed

lemma undo_removed:
  assumes "reg_undo s h sp tk = (b, s')" "e \<in> set (r_es s)" "e \<notin> set (r_es s')"
  shows "t_added tk AND ADDED_SELF \<noteq> 0 \<and> gen_of e = t_self tk \<and> same_ptr (Some (fst e)) h \<or>
    t_added tk AND ADDED_STARTER \<noteq> 0 \<and> gen_of e = t_starter tk \<and> same_ptr (Some (fst e)) sp"
proof -
  have ok: "h \<noteq> None" "\<not> r_claimed s" using assms by (auto simp: reg_undo_def split: if_splits)
  obtain r1 s1 where 1: "(if t_added tk AND ADDED_SELF \<noteq> 0 then reg_undo_one s (the h) (t_self tk) else (None, s)) = (r1, s1)" by fastforce
  obtain r2 where 2: "(if t_added tk AND ADDED_STARTER \<noteq> 0 \<and> sp \<noteq> None then reg_undo_one s1 (the sp) (t_starter tk) else (None, s1)) = (r2, s')"
    using assms(1) ok unfolding reg_undo_def 1 prod.case by (auto split: prod.splits)
  show ?thesis
  proof (cases "e \<in> set (r_es s1)")
    case False
    with 1 assms(2) ok(1) undo_one_removed [of s "the h" "t_self tk" r1 s1 e] show ?thesis
      by (auto simp: same_ptr_def split: if_splits)
  next
    case True
    with 2 assms(3) undo_one_removed [of s1 "the sp" "t_starter tk" r2 s' e] show ?thesis
      by (auto simp: same_ptr_def split: if_splits)
  qed
qed

lemma join_ticket:
  assumes "reg_join s h a sp sa = (b, s', tk)" "unat (r_next s) + 2 < 2 ^ 32"
  shows "t_added tk AND ADDED_SELF \<noteq> 0 \<Longrightarrow> unat (r_next s) < unat (t_self tk) \<and> unat (t_self tk) \<le> unat (r_next s')"
    "t_added tk AND ADDED_STARTER \<noteq> 0 \<Longrightarrow> unat (r_next s) < unat (t_starter tk) \<and> unat (t_starter tk) \<le> unat (r_next s')"
proof -
  have n: "r_next (reg_append c k s) = fresh_gen (r_next s)" for c k s by (simp add: reg_append_def)
  have f: "unat (fresh_gen (r_next s)) = unat (r_next s) + 1" using assms(2) by (intro fresh_gen_Suc) simp
  have f2: "unat (fresh_gen (fresh_gen (r_next s))) = unat (r_next s) + 2"
    using f assms(2) by (subst fresh_gen_Suc) simp_all
  have b: "no_ticket = \<lparr>t_added = 0, t_self = 0, t_starter = 0\<rparr>" by (simp add: no_ticket_def)
  have cs: "tk = no_ticket \<or>
      t_self tk = fresh_gen (r_next s) \<and> t_added tk = ADDED_SELF \<and> r_next s' = t_self tk \<or>
      t_self tk = fresh_gen (fresh_gen (r_next s)) \<and> t_starter tk = fresh_gen (r_next s) \<and> r_next s' = t_self tk"
    using assms(1) by (auto simp: reg_join_def Let_def n split: if_splits option.splits prod.splits)
  show "t_added tk AND ADDED_SELF \<noteq> 0 \<Longrightarrow> unat (r_next s) < unat (t_self tk) \<and> unat (t_self tk) \<le> unat (r_next s')"
    using cs f f2 by (auto simp: b)
  show "t_added tk AND ADDED_STARTER \<noteq> 0 \<Longrightarrow> unat (r_next s) < unat (t_starter tk) \<and> unat (t_starter tk) \<le> unat (r_next s')"
    using cs f f2 by (auto simp: b ADDED_SELF_def ADDED_STARTER_def)
qed

section \<open>Queries\<close>

text \<open>The entries of a table, as the listing shows them, with their generations.\<close>

definition table_entries :: "cam_holders \<Rightarrow> (holder_ptr \<times> u8 \<times> u32) list" where
  "table_entries t = take (unat (h_n t)) (zip (h_who t) (zip (h_attr t) (h_gen t)))"

definition shown :: "entry \<Rightarrow> holder_ptr \<times> u8 \<times> u32" where
  "shown e = (who_of e, keeps_byte e, gen_of e)"

lemma inj_shown: "shown e = shown e' \<longleftrightarrow> e = e'"
  by (cases e; cases e') (auto simp: shown_def keeps_byte_def)

lemma entries_shown: "table_shows s t \<Longrightarrow> table_entries t = map shown (r_es s)"
proof -
  assume a: "table_shows s t"
  have "take (length es) (zip (arr f y es) (zip (arr g z es) (arr h w es))) = map (\<lambda>e. (f e, g e, h e)) es"
    for f :: "entry \<Rightarrow> holder_ptr" and y and g :: "entry \<Rightarrow> u8" and z and h :: "entry \<Rightarrow> u32" and w es
    by (simp add: arr_def take_zip zip_map_map map_zip_map map_zip_map2 zip_same_conv_map)
  from this [of "r_es s" who_of None keeps_byte 0 gen_of 0] show ?thesis
    using a table_shows_n(1) [OF a] by (simp add: table_entries_def table_shows_def shown_def)
qed

lemma list_loop_shows:
  assumes "table_shows s t" "i + k \<le> length (r_es s)"
  shows "list_loop t i k = Some (map (\<lambda>e. (who_of e, keeps_byte e)) (take k (drop i (r_es s))))"
  using assms(2)
proof (induction k arbitrary: i)
  case (Suc k)
  have "ld (h_who t) i = Some (who_of (r_es s ! i))" "ld (h_attr t) i = Some (keeps_byte (r_es s ! i))"
    using assms(1) Suc.prems by (simp_all add: table_shows_def ld_arr)
  moreover have "take (Suc k) (drop i (r_es s)) = r_es s ! i # take k (drop (Suc i) (r_es s))"
    using Suc.prems by (simp add: Cons_nth_drop_Suc [symmetric])
  ultimately show ?case using Suc.IH [of "Suc i"] Suc.prems by simp
qed simp

lemma queries_show:
  assumes "table_shows s t"
  shows "cam_holders_count t = length (r_es s)" "cam_holders_claimed t = r_claimed s"
    "cam_holders_has t (Some c) = Some (ch_addr c \<in> set (addrs s))"
    "cam_holders_list t cap = Some (map (\<lambda>e. (who_of e, keeps_byte e)) (take cap (r_es s)))"
proof -
  note n = table_shows_n [OF assms]
  show "cam_holders_count t = length (r_es s)" "cam_holders_claimed t = r_claimed s"
    using n by (simp_all add: cam_holders_count_def cam_holders_claimed_def)
  show "cam_holders_has t (Some c) = Some (ch_addr c \<in> set (addrs s))"
    using n find_shows [OF assms, of c] pos_addr [of s c] by (auto simp: cam_holders_has_def)
  show "cam_holders_list t cap = Some (map (\<lambda>e. (who_of e, keeps_byte e)) (take cap (r_es s)))"
    using n list_loop_shows [OF assms, of 0 "min (length (r_es s)) cap"]
    by (simp add: cam_holders_list_def min_def)
qed

section \<open>Properties\<close>

definition table_phase :: "cam_holders \<Rightarrow> phase" where
  "table_phase t = (if cam_holders_claimed t then Starting else if cam_holders_count t = 0 then Idle else Streaming)"

lemma table_phase: "table_shows s t \<Longrightarrow> table_phase t = phase_of s"
  by (simp add: table_phase_def phase_of_def queries_show)

definition entry_keeps :: "holder_ptr \<times> u8 \<times> u32 \<Rightarrow> bool" where
  "entry_keeps e \<longleftrightarrow> fst (snd e) = 1"

lemma entry_keeps_shown: "entry_keeps (shown e) = keeps e"
  by (simp add: entry_keeps_def shown_def keeps_byte_def keeps_def)

lemma reg_ok_empty: "reg_ok no_holders" "gens_ok no_holders" "phase_of no_holders = Idle" "unat (r_next no_holders) = 0"
  by (simp_all add: reg_ok_def no_holders_def gens_ok_def phase_of_def)

lemma table_run:
  "\<exists>rs u s. run_table (cam_holders_init t) cs = Some (rs, u) \<and> table_shows s u \<and> reg_ok s \<and>
     run_reg no_holders cs = (rs, s) \<and> life_run Idle rs (phase_of s)"
proof -
  obtain rs s where r: "run_reg no_holders cs = (rs, s)" by fastforce
  from run_answers [OF init_shows, of t cs] r obtain u where "run_table (cam_holders_init t) cs = Some (rs, u)" "table_shows s u"
    by (auto simp: answers_as_def)
  with r run_good [OF reg_ok_empty(1) r] reg_ok_empty(3) show ?thesis by auto
qed

text \<open>C10. Over any calls on an initialised table, the table is never read or written outside its
  arrays, holds no holder twice, and its replies follow the life of the stream: a start only from
  an empty table, then nothing but refusals until the start is committed or aborted, a stop only
  when the last holder leaves. A refused call changes nothing; a holder that keeps the stream
  leaves only when no holder without that attribute is left behind.\<close>

theorem cam_holders_lifecycle:
  "\<exists>rs u r u'. run_table (cam_holders_init t) cs = Some (rs, u) \<and> life_run Idle rs (table_phase u) \<and>
     distinct (map (\<lambda>e. map_option ch_addr (fst e)) (table_entries u)) \<and>
     call_table u c = Some (r, u') \<and> (refused r \<longrightarrow> u' = u) \<and>
     (\<not> teardown r \<longrightarrow> (\<forall>e \<in> set (table_entries u). entry_keeps e \<longrightarrow> cam_holders_has u' (fst e) = Some False \<longrightarrow>
        (\<forall>e' \<in> set (table_entries u'). entry_keeps e')))"
proof -
  obtain rs u s where u: "run_table (cam_holders_init t) cs = Some (rs, u)" "table_shows s u" "reg_ok s" "life_run Idle rs (phase_of s)"
    using table_run by blast
  obtain r s' where c: "call_reg s c = (r, s')" by fastforce
  with call_answers [OF u(2), of c] obtain u' where u': "call_table u c = Some (r, u')" "table_shows s' u'"
    by (auto simp: answers_as_def)
  note g = call_good [OF u(3) c, unfolded good_call_def]
  have "u' = u" if "refused r" using g that u(2) u'(2) table_shows_eq by auto
  moreover have "distinct (map (\<lambda>e. map_option ch_addr (fst e)) (table_entries u))"
    using u(3) by (auto simp: entries_shown [OF u(2)] reg_ok_def shown_def who_of_def distinct_map inj_on_def)
  moreover have "\<forall>e' \<in> set (table_entries u'). entry_keeps e'"
    if "\<not> teardown r" "e \<in> set (table_entries u)" "entry_keeps e" "cam_holders_has u' (fst e) = Some False" for e
  proof -
    note h = that
    obtain d where d: "d \<in> set (r_es s)" "e = shown d" using h(2) by (auto simp: entries_shown [OF u(2)])
    have "ch_addr (fst d) \<notin> set (addrs s')"
      using h(4) queries_show(3) [OF u'(2), of "fst d"] by (simp add: d(2) shown_def who_of_def)
    then show ?thesis using g h(1,3) d by (auto simp: entries_shown [OF u'(2)] entry_keeps_shown)
  qed
  ultimately show ?thesis using u(1,4) u'(1) table_phase [OF u(2)] by auto
qed

definition sample_op :: holder_ptr where "sample_op = Some \<lparr>ch_addr = 1, ch_name = Some ''operator''\<rparr>"
definition sample_nn :: holder_ptr where "sample_nn = Some \<lparr>ch_addr = 2, ch_name = Some ''nn''\<rparr>"
definition zero_table :: cam_holders where
  "zero_table = \<lparr>h_who = [], h_gen = [], h_attr = [], h_n = 0, h_claimed = 0, h_base = 0, h_next = 0\<rparr>"

lemma cam_holders_lifecycle_witness:
  "\<exists>rs u r u'. run_table (cam_holders_init zero_table) [C_join sample_nn 0 sample_op KEEPS, C_commit] = Some (rs, u) \<and>
     life_run Idle rs (table_phase u) \<and>
     distinct (map (\<lambda>e. map_option ch_addr (fst e)) (table_entries u)) \<and>
     call_table u (C_remove sample_op) = Some (r, u') \<and> (refused r \<longrightarrow> u' = u) \<and>
     (\<not> teardown r \<longrightarrow> (\<forall>e \<in> set (table_entries u). entry_keeps e \<longrightarrow> cam_holders_has u' (fst e) = Some False \<longrightarrow>
        (\<forall>e' \<in> set (table_entries u'). entry_keeps e')))"
  by (rule cam_holders_lifecycle)

lemma reg_lasts:
  assumes run: "run_reg s ds = (rs, s')" and d: "d \<in> set (r_es s')" "unat (gen_of d) \<le> unat (r_next s)"
    and n: "unat (r_next s) + 2 * length ds < 2 ^ 32" and k: "k \<le> length ds" "run_reg s (take k ds) = (us, u)"
  shows "d \<in> set (r_es u)"
proof -
  obtain vs where rest: "run_reg u (drop k ds) = (vs, s')"
    using run run_reg_append [of s "take k ds" "drop k ds"] k(2) by (cases "run_reg u (drop k ds)") auto
  have g: "gens_step (2 * length (take k ds)) s u" using run_gens [OF _ k(2)] n k(1) by simp
  have "unat (r_next u) \<le> unat (r_next s) + 2 * k" using g k(1) by (simp add: gens_step_def)
  then have "unat (r_next u) + 2 * length (drop k ds) < 2 ^ 32" using n k(1) by simp
  from run_gens [OF this rest] have "d \<in> set (r_es u) \<or> unat (r_next u) < unat (gen_of d)"
    using d(1) by (auto simp: gens_step_def)
  moreover have "unat (r_next s) \<le> unat (r_next u)" using g by (simp add: gens_step_def)
  ultimately show ?thesis using d(2) by linarith
qed

text \<open>C9. An undo takes back only what its own join registered: whatever calls came in between, an
  entry it removes was registered by that join, is still under that registration and has been in
  the table ever since; a registration made before, or made again after, stays. (The generation
  counter does not wrap in fewer than \<open>2 ^ 31\<close> calls.)\<close>

theorem cam_holders_undo_own:
  assumes "run_table (cam_holders_init t) cs = Some (rs, t1)"
    "cam_holders_add_or_start t1 h a sp sa = Some (b, t2, tk)"
    "run_table t2 ds = Some (rs', t3)" "cam_holders_undo t3 h sp tk = Some (b', t4)"
    "2 * (length cs + length ds + 1) < 2 ^ 32"
    "e \<in> set (table_entries t3)" "e \<notin> set (table_entries t4)"
  shows "e \<notin> set (table_entries t1) \<and> (same_ptr (fst e) h \<or> same_ptr (fst e) sp) \<and>
    (\<forall>k \<le> length ds. \<exists>us u. run_table t2 (take k ds) = Some (us, u) \<and> e \<in> set (table_entries u))"
proof -
  obtain s1 where s1: "run_reg no_holders cs = (rs, s1)" "table_shows s1 t1" using table_run [of t cs] assms(1) by auto
  obtain s2 where s2: "reg_join s1 h a sp sa = (b, s2, tk)" "table_shows s2 t2"
    using join_answers [OF s1(2), of h a sp sa] assms(2) by (cases "reg_join s1 h a sp sa") auto
  obtain s3 where s3: "run_reg s2 ds = (rs', s3)" "table_shows s3 t3"
    using run_answers [OF s2(2), of ds] assms(3) by (cases "run_reg s2 ds") (auto simp: answers_as_def)
  obtain s4 where s4: "reg_undo s3 h sp tk = (b', s4)" "table_shows s4 t4"
    using undo_answers [OF s3(2), of h sp tk] assms(4) by (cases "reg_undo s3 h sp tk") (auto simp: answers_as_def)
  obtain d where d: "d \<in> set (r_es s3)" "e = shown d" using assms(6) by (auto simp: entries_shown [OF s3(2)])
  then have "d \<notin> set (r_es s4)" using assms(7) by (auto simp: entries_shown [OF s4(2)])
  note rm = undo_removed [OF s4(1) d(1) this]
  have g1: "gens_step (2 * length cs) no_holders s1" using run_gens [OF _ s1(1)] assms(5) by (simp add: no_holders_def)
  have n1: "unat (r_next s1) \<le> 2 * length cs" using g1 by (simp add: gens_step_def reg_ok_empty(4))
  then have b1: "unat (r_next s1) + 2 < 2 ^ 32" using assms(5) by simp
  have g2: "gens_step 2 s1 s2" using join_gens [OF b1 s2(1)] .
  then have n2: "unat (r_next s2) \<le> 2 * length cs + 2" using n1 by (simp add: gens_step_def)
  have own: "unat (r_next s1) < unat (gen_of d)" "unat (gen_of d) \<le> unat (r_next s2)"
    using rm join_ticket [OF s2(1) b1] by auto
  have "gens_ok s1" using gens_step_ok [OF g1 reg_ok_empty(2)] .
  then have "d \<notin> set (r_es s1)" using own(1) by (auto simp: gens_ok_def)
  then have "e \<notin> set (table_entries t1)" by (auto simp: entries_shown [OF s1(2)] d(2) inj_shown)
  moreover have "\<exists>us u. run_table t2 (take k ds) = Some (us, u) \<and> e \<in> set (table_entries u)" if "k \<le> length ds" for k
  proof -
    obtain us s where s: "run_reg s2 (take k ds) = (us, s)" by fastforce
    obtain u where u: "run_table t2 (take k ds) = Some (us, u)" "table_shows s u"
      using run_answers [OF s2(2), of "take k ds"] s by (auto simp: answers_as_def)
    have "d \<in> set (r_es s)" using reg_lasts [OF s3(1) d(1) own(2) _ that s] n2 assms(5) by simp
    with u show ?thesis by (auto simp: entries_shown [OF u(2)] d(2))
  qed
  ultimately show ?thesis using rm by (auto simp: d(2) shown_def who_of_def)
qed

definition sample_t1 :: cam_holders where "sample_t1 = cam_holders_init zero_table"
definition sample_join :: "cam_answer \<times> cam_holders \<times> cam_ticket" where
  "sample_join = the (cam_holders_add_or_start sample_t1 sample_nn 0 sample_op KEEPS)"
definition sample_t3 :: "cam_reply list \<times> cam_holders" where
  "sample_t3 = the (run_table (fst (snd sample_join)) [C_commit])"
definition sample_undo :: "cam_answer \<times> cam_holders" where
  "sample_undo = the (cam_holders_undo (snd sample_t3) sample_nn sample_op (snd (snd sample_join)))"

lemma cam_holders_undo_own_witness:
  "(sample_nn, 0, 2) \<notin> set (table_entries sample_t1) \<and>
    (\<exists>us u. run_table (fst (snd sample_join)) [C_commit] = Some (us, u) \<and> (sample_nn, 0, 2) \<in> set (table_entries u))"
proof -
  have "cam_holders_add_or_start sample_t1 sample_nn 0 sample_op KEEPS = Some (fst sample_join, fst (snd sample_join), snd (snd sample_join))"
    "run_table (fst (snd sample_join)) [C_commit] = Some (fst sample_t3, snd sample_t3)"
    "cam_holders_undo (snd sample_t3) sample_nn sample_op (snd (snd sample_join)) = Some (fst sample_undo, snd sample_undo)"
    "(sample_nn, 0, 2) \<in> set (table_entries (snd sample_t3))" "(sample_nn, 0, 2) \<notin> set (table_entries (snd sample_undo))"
    by code_simp+
  from cam_holders_undo_own [OF _ this(1-3) _ this(4,5), of zero_table "[]" "[]"] show ?thesis
    by (auto simp: sample_t1_def dest: spec [of _ 1])
qed

end
