(* ===== verification/CamStep.thy ===== *)
theory CamStep
  imports Prelude
begin

text \<open>
  One step of the camera sink, \<open>svc/camera/cam_step.c\<close>: whether the producer may go in, and whether
  it has come out. Each function runs in the board's critical section, so one call is one step.
\<close>

record cam_step_state =
  c_armed :: bool
  c_busy :: u16

datatype step_rc = STEP_OK | STEP_E_ARMED | STEP_E_BUSY | STEP_E_IDLE

definition cam_step_enter :: "cam_step_state \<Rightarrow> bool \<times> cam_step_state" where
  "cam_step_enter s =
     (if \<not> c_armed s \<or> c_busy s = - 1 then (False, s) else (True, s\<lparr>c_busy := c_busy s + 1\<rparr>))"

definition cam_step_leave :: "cam_step_state \<Rightarrow> step_rc \<times> cam_step_state" where
  "cam_step_leave s =
     (if c_busy s = 0 then (STEP_E_IDLE, s) else (STEP_OK, s\<lparr>c_busy := c_busy s - 1\<rparr>))"

definition cam_step_may_arm :: "cam_step_state \<Rightarrow> bool" where
  "cam_step_may_arm s \<longleftrightarrow> \<not> c_armed s \<and> c_busy s = 0"

definition cam_step_arm :: "cam_step_state \<Rightarrow> step_rc \<times> cam_step_state" where
  "cam_step_arm s =
     (if c_armed s then (STEP_E_ARMED, s)
      else if c_busy s \<noteq> 0 then (STEP_E_BUSY, s)
      else (STEP_OK, s\<lparr>c_armed := True\<rparr>))"

definition cam_step_disarm :: "cam_step_state \<Rightarrow> cam_step_state" where
  "cam_step_disarm s = s\<lparr>c_armed := False\<rparr>"

section \<open>Producers and the owner\<close>

text \<open>
  Any number of producers, each outside or inside the step, and one owner. The owner works on what
  the step reads (\<open>Preparing\<close>) only after \<open>cam_step_may_arm\<close> said yes or after a disarm it then saw
  reach zero (\<open>Drained\<close>); every other time it is \<open>Away\<close>.
\<close>

datatype owner = Away | Preparing | Drained

record system =
  sy_step :: cam_step_state
  sy_inside :: "bool list"
  sy_owner :: owner

inductive moves :: "system \<Rightarrow> system \<Rightarrow> bool" where
  producer_in: "i < length (sy_inside y) \<Longrightarrow> \<not> sy_inside y ! i \<Longrightarrow> cam_step_enter (sy_step y) = (True, s) \<Longrightarrow>
    moves y (y\<lparr>sy_step := s, sy_inside := (sy_inside y)[i := True]\<rparr>)"
| producer_skips: "cam_step_enter (sy_step y) = (False, s) \<Longrightarrow> moves y (y\<lparr>sy_step := s\<rparr>)"
| producer_out: "i < length (sy_inside y) \<Longrightarrow> sy_inside y ! i \<Longrightarrow> cam_step_leave (sy_step y) = (r, s) \<Longrightarrow>
    moves y (y\<lparr>sy_step := s, sy_inside := (sy_inside y)[i := False]\<rparr>)"
| owner_asks: "cam_step_may_arm (sy_step y) \<Longrightarrow> moves y (y\<lparr>sy_owner := Preparing\<rparr>)"
| owner_arms: "cam_step_arm (sy_step y) = (r, s) \<Longrightarrow> moves y (y\<lparr>sy_step := s, sy_owner := Away\<rparr>)"
| owner_disarms: "moves y (y\<lparr>sy_step := cam_step_disarm (sy_step y), sy_owner := Away\<rparr>)"
| owner_sees_zero: "\<not> c_armed (sy_step y) \<Longrightarrow> c_busy (sy_step y) = 0 \<Longrightarrow> moves y (y\<lparr>sy_owner := Drained\<rparr>)"

inductive_cases movesE: "moves y z"

inductive moves_star :: "system \<Rightarrow> system \<Rightarrow> bool" where
  moves_refl: "moves_star y y"
| moves_step: "moves_star x y \<Longrightarrow> moves y z \<Longrightarrow> moves_star x z"

definition inside_count :: "system \<Rightarrow> nat" where
  "inside_count y = length (filter (\<lambda>b. b) (sy_inside y))"

definition step_inv :: "system \<Rightarrow> bool" where
  "step_inv y \<longleftrightarrow> unat (c_busy (sy_step y)) = inside_count y \<and>
     (sy_owner y \<noteq> Away \<longrightarrow> \<not> c_armed (sy_step y) \<and> inside_count y = 0)"

lemma count_update:
  "i < length bs \<Longrightarrow> length (filter (\<lambda>b. b) (bs[i := v])) + (if bs ! i then 1 else 0) =
    length (filter (\<lambda>b. b) bs) + (if v then 1 else 0)"
proof (induction bs arbitrary: i)
  case (Cons b bs)
  show ?case
  proof (cases i)
    case (Suc j)
    with Cons.IH [of j] Cons.prems show ?thesis by (auto split: if_splits)
  qed auto
qed simp

lemma enter_in:
  assumes "cam_step_enter s = (True, s')"
  shows "c_armed s" "unat (c_busy s') = unat (c_busy s) + 1" "c_armed s' = c_armed s"
proof -
  have b: "c_armed s" "c_busy s \<noteq> - 1" "s' = s\<lparr>c_busy := c_busy s + 1\<rparr>"
    using assms by (auto simp: cam_step_enter_def split: if_splits)
  have "c_busy s + 1 \<noteq> 0" using b(2) by (simp add: eq_neg_iff_add_eq_0)
  then have "unat (c_busy s + 1) = Suc (unat (c_busy s))" by (simp add: unatSuc add.commute)
  with b show "c_armed s" "unat (c_busy s') = unat (c_busy s) + 1" "c_armed s' = c_armed s" by simp_all
qed

lemma leave_out:
  assumes "cam_step_leave s = (r, s')" "c_busy s \<noteq> 0"
  shows "r = STEP_OK" "unat (c_busy s') + 1 = unat (c_busy s)" "c_armed s' = c_armed s"
proof -
  have s: "r = STEP_OK" "s' = s\<lparr>c_busy := c_busy s - 1\<rparr>" using assms by (simp_all add: cam_step_leave_def)
  have "0 < unat (c_busy s)" using assms(2) by (simp add: unat_gt_0)
  with s unat_minus_one [OF assms(2)] show "r = STEP_OK" "unat (c_busy s') + 1 = unat (c_busy s)" "c_armed s' = c_armed s"
    by simp_all
qed

lemma moves_inv: "moves y z \<Longrightarrow> step_inv y \<Longrightarrow> step_inv z"
proof (induction rule: moves.induct)
  case (producer_in i y s)
  note e = enter_in [OF producer_in.hyps(3)]
  have "sy_owner y = Away" using e(1) producer_in.prems by (auto simp: step_inv_def)
  moreover have "inside_count (y\<lparr>sy_step := s, sy_inside := (sy_inside y)[i := True]\<rparr>) = inside_count y + 1"
    using count_update [OF producer_in.hyps(1), of True] producer_in.hyps(2) by (simp add: inside_count_def)
  ultimately show ?case using e producer_in.prems by (simp add: step_inv_def)
next
  case (producer_skips y s)
  then have "s = sy_step y" by (auto simp: cam_step_enter_def split: if_splits)
  with producer_skips.prems show ?case by (simp add: step_inv_def inside_count_def)
next
  case (producer_out i y r s)
  have c: "inside_count (y\<lparr>sy_step := s, sy_inside := (sy_inside y)[i := False]\<rparr>) + 1 = inside_count y"
    using count_update [OF producer_out.hyps(1), of False] producer_out.hyps(2) by (simp add: inside_count_def)
  then have "c_busy (sy_step y) \<noteq> 0" using producer_out.prems by (auto simp: step_inv_def)
  from leave_out [OF producer_out.hyps(3) this] c producer_out.prems show ?case by (auto simp: step_inv_def)
qed (auto simp: step_inv_def inside_count_def cam_step_may_arm_def cam_step_arm_def cam_step_disarm_def split: if_splits)

lemma moves_star_inv: "moves_star x y \<Longrightarrow> step_inv x \<Longrightarrow> step_inv y"
  by (induction rule: moves_star.induct) (auto intro: moves_inv)

definition step_start :: "nat \<Rightarrow> system" where
  "step_start n = \<lparr>sy_step = \<lparr>c_armed = False, c_busy = 0\<rparr>, sy_inside = replicate n False, sy_owner = Away\<rparr>"

lemma step_start_inv: "step_inv (step_start n)"
  by (simp add: step_inv_def step_start_def inside_count_def)

text \<open>C11. In every interleaving of any number of producers with the owner, the busy count is the number
  of producers inside and never wraps; while the owner prepares the step, after \<open>may_arm\<close> said
  yes, or works on what was drained, after a disarm it saw reach zero, no producer is inside and
  none can come in; and a producer's leave always finds itself counted.\<close>

theorem cam_step_excludes:
  assumes "moves_star (step_start n) y"
  shows "unat (c_busy (sy_step y)) = inside_count y \<and>
    (sy_owner y \<noteq> Away \<longrightarrow> inside_count y = 0 \<and> \<not> fst (cam_step_enter (sy_step y))) \<and>
    (\<forall>i < length (sy_inside y). sy_inside y ! i \<longrightarrow> fst (cam_step_leave (sy_step y)) = STEP_OK)"
proof -
  have inv: "step_inv y" using moves_star_inv [OF assms step_start_inv] .
  have "fst (cam_step_leave (sy_step y)) = STEP_OK" if "i < length (sy_inside y)" "sy_inside y ! i" for i
  proof -
    have "True \<in> set (sy_inside y)" using that by (metis nth_mem)
    then have "inside_count y \<noteq> 0" by (auto simp: inside_count_def filter_empty_conv)
    then have "c_busy (sy_step y) \<noteq> 0" using inv by (auto simp: step_inv_def)
    then show ?thesis by (simp add: cam_step_leave_def)
  qed
  then show ?thesis using inv by (simp add: step_inv_def cam_step_enter_def)
qed

definition step_busy :: system where
  "step_busy = \<lparr>sy_step = \<lparr>c_armed = True, c_busy = 1\<rparr>, sy_inside = [True, False], sy_owner = Away\<rparr>"

lemma step_busy_reached: "moves_star (step_start 2) step_busy"
proof -
  let ?armed = "(step_start 2)\<lparr>sy_step := \<lparr>c_armed = True, c_busy = 0\<rparr>, sy_owner := Away\<rparr>"
  have "moves (step_start 2) ?armed"
    by (rule owner_arms) (simp add: step_start_def cam_step_arm_def)
  then have armed: "moves_star (step_start 2) ?armed" by (rule moves_step [OF moves_refl])
  have "moves ?armed (?armed\<lparr>sy_step := \<lparr>c_armed = True, c_busy = 1\<rparr>, sy_inside := (sy_inside ?armed)[0 := True]\<rparr>)"
    by (rule producer_in) (simp_all add: step_start_def cam_step_enter_def)
  from moves_step [OF armed this] show ?thesis by (simp add: step_busy_def step_start_def numeral_2_eq_2)
qed

lemma cam_step_excludes_witness:
  "unat (c_busy (sy_step step_busy)) = inside_count step_busy \<and> inside_count step_busy = 1 \<and>
    fst (cam_step_leave (sy_step step_busy)) = STEP_OK"
  using cam_step_excludes [OF step_busy_reached] by (auto simp: step_busy_def inside_count_def)

end
