(* ===== verification/Fmt.thy ===== *)
theory Fmt
  imports Prelude
begin

text \<open>
  The printf formatter, \<open>svc/fmt.c\<close>, behind its character sink. The format is the list of the bytes
  before its NUL. The variable arguments are a list of tagged values: reading one at a type it was
  not passed with, or past the last, is undefined in C and is the value \<open>None\<close> here. The widths are
  those of the firmware's target (ILP32: \<open>int\<close>, \<open>long\<close>, \<open>size_t\<close> and pointers of 32 bits).
\<close>

type_synonym u64 = "64 word"

datatype va = VA_int u32 | VA_long u32 | VA_llong u64 | VA_str "u8 list option" | VA_ptr u32

datatype len_mod = LM_INT | LM_LONG | LM_LLONG | LM_SIZE

definition chr :: "char \<Rightarrow> u8" where "chr c = of_char c"

section \<open>Helpers\<close>

fun out_str :: "('c \<Rightarrow> u8 \<Rightarrow> 'c) \<Rightarrow> 'c \<Rightarrow> u8 list \<Rightarrow> 'c" where
  "out_str put ctx [] = ctx"
| "out_str put ctx (c # s) = out_str put (put ctx c) s"

fun out_pad :: "('c \<Rightarrow> u8 \<Rightarrow> 'c) \<Rightarrow> 'c \<Rightarrow> nat \<Rightarrow> u8 \<Rightarrow> 'c" where
  "out_pad put ctx 0 c = ctx"
| "out_pad put ctx (Suc n) c = out_pad put (put ctx c) n c"

definition fmt_padded :: "('c \<Rightarrow> u8 \<Rightarrow> 'c) \<Rightarrow> 'c \<Rightarrow> u8 list \<Rightarrow> u8 list \<Rightarrow> nat \<Rightarrow> bool \<Rightarrow> bool \<Rightarrow> 'c" where
  "fmt_padded put ctx pre body width zero left =
     (let total = length pre + length body;
          pad = (if width > total then width - total else 0) in
      if left then out_pad put (out_str put (out_str put ctx pre) body) pad (chr CHR '' '')
      else if zero then out_str put (out_pad put (out_str put ctx pre) pad (chr CHR ''0'')) body
      else out_str put (out_str put (out_pad put ctx pad (chr CHR '' '')) pre) body)"

definition hex_digits :: "bool \<Rightarrow> u8 list" where
  "hex_digits upper = str (if upper then ''0123456789ABCDEF'' else ''0123456789abcdef'')"

text \<open>\<open>tmp\<close> holds 20 characters; one more would be a write past its end.\<close>

function utoa_loop :: "u64 \<Rightarrow> u64 \<Rightarrow> bool \<Rightarrow> u8 list \<Rightarrow> u8 list option" where
  "utoa_loop mag base upper tmp =
     (if length tmp \<ge> 20 then None
      else do {
        d \<leftarrow> ld (hex_digits upper) (unat (mag mod base));
        let mag = mag div base;
        if mag \<noteq> 0 then utoa_loop mag base upper (tmp @ [d]) else Some (tmp @ [d])
      })"
  by pat_completeness auto
termination
  by (relation "measure (\<lambda>(mag, base, upper, tmp). 20 - length tmp)") auto

declare utoa_loop.simps [simp del]

definition fmt_utoa :: "u64 \<Rightarrow> u64 \<Rightarrow> bool \<Rightarrow> u8 list option" where
  "fmt_utoa mag base upper = map_option rev (utoa_loop mag base upper [])"

definition get_unsigned :: "len_mod \<Rightarrow> va list \<Rightarrow> (u64 \<times> va list) option" where
  "get_unsigned lm ap =
     (case (lm, ap) of
        (LM_LONG, VA_long w # ap) \<Rightarrow> Some (ucast w, ap)
      | (LM_LLONG, VA_llong w # ap) \<Rightarrow> Some (w, ap)
      | (LM_SIZE, VA_int w # ap) \<Rightarrow> Some (ucast w, ap)
      | (LM_INT, VA_int w # ap) \<Rightarrow> Some (ucast w, ap)
      | _ \<Rightarrow> None)"

definition get_signed :: "len_mod \<Rightarrow> va list \<Rightarrow> (int \<times> va list) option" where
  "get_signed lm ap =
     (case (lm, ap) of
        (LM_LONG, VA_long w # ap) \<Rightarrow> Some (sint w, ap)
      | (LM_LLONG, VA_llong w # ap) \<Rightarrow> Some (sint w, ap)
      | (LM_SIZE, VA_int w # ap) \<Rightarrow> Some (sint w, ap)
      | (LM_INT, VA_int w # ap) \<Rightarrow> Some (sint w, ap)
      | _ \<Rightarrow> None)"

section \<open>The formatter\<close>

fun skip_flags :: "bool \<Rightarrow> bool \<Rightarrow> u8 list \<Rightarrow> bool \<times> bool \<times> u8 list" where
  "skip_flags left zero [] = (left, zero, [])"
| "skip_flags left zero (c # p) =
     (if c = chr CHR ''-'' then skip_flags True zero p
      else if c = chr CHR ''0'' then skip_flags left True p
      else (left, zero, c # p))"

fun get_width :: "nat \<Rightarrow> u8 list \<Rightarrow> nat \<times> u8 list" where
  "get_width w [] = (w, [])"
| "get_width w (c # p) =
     (if chr CHR ''0'' \<le> c \<and> c \<le> chr CHR ''9''
      then get_width (let w = w * 10 + unat (c - chr CHR ''0'') in if w > 4096 then 4096 else w) p
      else (w, c # p))"

definition get_lm :: "u8 list \<Rightarrow> len_mod \<times> u8 list" where
  "get_lm p =
     (case p of
        [] \<Rightarrow> (LM_INT, p)
      | c # q \<Rightarrow>
          if c = chr CHR ''l''
          then (case q of [] \<Rightarrow> (LM_LONG, q) | d # r \<Rightarrow> if d = chr CHR ''l'' then (LM_LLONG, r) else (LM_LONG, q))
          else if c = chr CHR ''z'' then (LM_SIZE, q)
          else (LM_INT, p))"

text \<open>The \<open>switch\<close> on the conversion character.\<close>

definition signed_mag :: "int \<Rightarrow> u64" where
  "signed_mag v = (if v < 0 then word_of_int (- (v + 1)) + 1 else word_of_int v)"

definition out_unsigned ::
    "('c \<Rightarrow> u8 \<Rightarrow> 'c) \<Rightarrow> 'c \<Rightarrow> u64 \<Rightarrow> bool \<Rightarrow> len_mod \<Rightarrow> nat \<Rightarrow> bool \<Rightarrow> bool \<Rightarrow> va list \<Rightarrow> ('c \<times> va list) option" where
  "out_unsigned put ctx base upper lm width zero left ap = do {
     (mag, ap) \<leftarrow> get_unsigned lm ap;
     body \<leftarrow> fmt_utoa mag base upper;
     Some (fmt_padded put ctx [] body width zero left, ap)
   }"

definition out_conv ::
    "('c \<Rightarrow> u8 \<Rightarrow> 'c) \<Rightarrow> 'c \<Rightarrow> u8 \<Rightarrow> len_mod \<Rightarrow> nat \<Rightarrow> bool \<Rightarrow> bool \<Rightarrow> va list \<Rightarrow> ('c \<times> va list) option" where
  "out_conv put ctx c lm width zero left ap =
     (if c = chr CHR ''%'' then Some (put ctx (chr CHR ''%''), ap)
      else if c = chr CHR ''c'' then
        (case ap of VA_int w # ap \<Rightarrow> Some (fmt_padded put ctx [] [ucast w] width False left, ap) | _ \<Rightarrow> None)
      else if c = chr CHR ''s'' then
        (case ap of VA_str s # ap \<Rightarrow>
           Some (fmt_padded put ctx [] (case s of None \<Rightarrow> str ''(null)'' | Some s \<Rightarrow> s) width False left, ap)
         | _ \<Rightarrow> None)
      else if c = chr CHR ''d'' \<or> c = chr CHR ''i'' then do {
        (v, ap) \<leftarrow> get_signed lm ap;
        body \<leftarrow> fmt_utoa (signed_mag v) 10 False;
        Some (fmt_padded put ctx (if v < 0 then [chr CHR ''-''] else []) body width zero left, ap)
      }
      else if c = chr CHR ''u'' then out_unsigned put ctx 10 False lm width zero left ap
      else if c = chr CHR ''x'' then out_unsigned put ctx 16 False lm width zero left ap
      else if c = chr CHR ''X'' then out_unsigned put ctx 16 True lm width zero left ap
      else if c = chr CHR ''p'' then
        (case ap of VA_ptr w # ap \<Rightarrow> do {
             body \<leftarrow> fmt_utoa (ucast w) 16 False;
             Some (fmt_padded put ctx (str ''0x'') body width zero left, ap)
           }
         | _ \<Rightarrow> None)
      else Some (put (put ctx (chr CHR ''%'')) c, ap))"

text \<open>What lies between the percent sign and the conversion character.\<close>

definition spec_head :: "u8 list \<Rightarrow> (bool \<times> bool \<times> nat \<times> len_mod) \<times> u8 list" where
  "spec_head p =
     (let (left, zero, p) = skip_flags False False p; (w, p) = get_width 0 p; (lm, p) = get_lm p in
      ((left, zero, w, lm), p))"

lemma skip_flags_le: "length (snd (snd (skip_flags l z p))) \<le> length p"
  by (induction l z p rule: skip_flags.induct) auto

lemma get_width_le: "length (snd (get_width w p)) \<le> length p"
  by (induction w p rule: get_width.induct) (auto simp: Let_def)

lemma get_lm_le: "length (snd (get_lm p)) \<le> length p"
  by (auto simp: get_lm_def split: list.splits)

lemma spec_head_le: "spec_head p = (h, q) \<Longrightarrow> length q \<le> length p"
  using skip_flags_le [of False False p] get_width_le get_lm_le
  unfolding spec_head_def by (auto simp: Let_def split: prod.splits) (metis le_trans snd_conv)

function fmt_vformat :: "('c \<Rightarrow> u8 \<Rightarrow> 'c) \<Rightarrow> 'c \<Rightarrow> u8 list \<Rightarrow> va list \<Rightarrow> ('c \<times> va list) option" where
  "fmt_vformat put ctx [] ap = Some (ctx, ap)"
| "fmt_vformat put ctx (c # p) ap =
     (if c \<noteq> chr CHR ''%'' then fmt_vformat put (put ctx c) p ap
      else (case spec_head p of ((left, zero, width, lm), q) \<Rightarrow>
        (case q of
           [] \<Rightarrow> Some (put ctx (chr CHR ''%''), ap)
         | d # r \<Rightarrow> do {
             (ctx, ap) \<leftarrow> out_conv put ctx d lm width zero left ap;
             fmt_vformat put ctx r ap
           })))"
  by pat_completeness auto
termination
  by (relation "measure (\<lambda>(put, ctx, p, ap). length p)") (auto dest!: spec_head_le [OF sym])

section \<open>The buffer sink\<close>

record snbuf =
  sn_buf :: "u8 list"
  sn_size :: nat
  sn_pos :: nat

text \<open>A write outside the caller's buffer is recorded as a fault.\<close>

definition snbuf_putc :: "snbuf option \<Rightarrow> u8 \<Rightarrow> snbuf option" where
  "snbuf_putc so c = do {
     s \<leftarrow> so;
     if sn_pos s + 1 < sn_size s then do {
       b \<leftarrow> st (sn_buf s) (sn_pos s) c;
       Some (s\<lparr>sn_buf := b, sn_pos := sn_pos s + 1\<rparr>)
     } else Some s
   }"

definition fmt_vsnformat :: "u8 list \<Rightarrow> nat \<Rightarrow> u8 list \<Rightarrow> va list \<Rightarrow> (nat \<times> u8 list \<times> va list) option" where
  "fmt_vsnformat buf cap fmt ap =
     (if cap = 0 then Some (0, buf, ap)
      else do {
        (so, ap) \<leftarrow> fmt_vformat snbuf_putc (Some \<lparr>sn_buf = buf, sn_size = cap, sn_pos = 0\<rparr>) fmt ap;
        s \<leftarrow> so;
        b \<leftarrow> st (sn_buf s) (sn_pos s) 0;
        Some (sn_pos s, b, ap)
      })"

section \<open>Numbers\<close>

fun num_digits :: "nat \<Rightarrow> nat \<Rightarrow> nat list" where
  "num_digits b n = (if b < 2 \<or> n < b then [n] else num_digits b (n div b) @ [n mod b])"

declare num_digits.simps [simp del]

definition num_text :: "bool \<Rightarrow> nat \<Rightarrow> nat \<Rightarrow> u8 list" where
  "num_text upper b n = map (\<lambda>d. hex_digits upper ! d) (num_digits b n)"

lemma num_digits_value: "2 \<le> b \<Longrightarrow> foldl (\<lambda>v d. v * b + d) 0 (num_digits b n) = n \<and> (\<forall>d \<in> set (num_digits b n). d < b)"
proof (induction b n rule: num_digits.induct)
  case (1 b n)
  then show ?case by (subst (1 2) num_digits.simps) auto
qed

lemma length_num_digits: "2 \<le> b \<Longrightarrow> 0 < k \<Longrightarrow> n < b ^ k \<Longrightarrow> length (num_digits b n) \<le> k"
proof (induction k arbitrary: n)
  case (Suc k)
  show ?case
  proof (cases "n < b")
    case True
    then show ?thesis by (subst num_digits.simps) simp
  next
    case False
    then have "0 < k" using Suc.prems by (cases k) auto
    moreover have "n div b < b ^ k" using Suc.prems by (simp add: less_mult_imp_div_less mult.commute)
    ultimately have "length (num_digits b (n div b)) \<le> k" using Suc.IH Suc.prems(1) by blast
    with False Suc.prems show ?thesis by (subst num_digits.simps) simp
  qed
qed simp

lemma length_hex_digits: "length (hex_digits upper) = 16"
  by (simp add: hex_digits_def str_def)

lemma utoa_loop_digits:
  assumes "b = 10 \<or> b = 16"
  shows "length tmp + length (num_digits (unat b) (unat mag)) \<le> 20 \<Longrightarrow>
    utoa_loop mag b upper tmp = Some (tmp @ rev (num_text upper (unat b) (unat mag)))"
proof (induction "unat mag" arbitrary: mag tmp rule: less_induct)
  case less
  have b: "unat b = 10 \<or> unat b = 16" "2 \<le> unat b" using assms by auto
  define d where "d = unat mag mod unat b"
  have d: "d < 16" "unat (mag mod b) = d" using b(1) by (auto simp: d_def unat_mod)
  have q: "unat (mag div b) = unat mag div unat b" by (simp add: unat_div)
  have len: "length tmp < 20"
    using less.prems by (subst (asm) num_digits.simps) (auto split: if_splits)
  have ld: "ld (hex_digits upper) (unat (mag mod b)) = Some (hex_digits upper ! d)"
    using d by (simp add: ld_in length_hex_digits)
  show ?case
  proof (cases "unat mag < unat b")
    case True
    then have z: "mag div b = 0" "d = unat mag" using q by (auto simp: unat_eq_zero [symmetric] d_def)
    with True len ld show ?thesis
      by (subst utoa_loop.simps) (simp add: num_text_def, subst num_digits.simps, simp)
  next
    case False
    have ne: "unat mag div unat b \<noteq> 0" using False b(2) by (simp add: div_eq_0_iff)
    then have nz: "mag div b \<noteq> 0" using q by (metis unsigned_0)
    have nd: "num_digits (unat b) (unat mag) = num_digits (unat b) (unat (mag div b)) @ [d]"
      using False b(2) q by (subst num_digits.simps) (simp add: d_def)
    have "unat (mag div b) < unat mag" using False b(2) q by simp
    moreover have "length (tmp @ [hex_digits upper ! d]) + length (num_digits (unat b) (unat (mag div b))) \<le> 20"
      using less.prems nd by simp
    ultimately have "utoa_loop (mag div b) b upper (tmp @ [hex_digits upper ! d]) =
        Some ((tmp @ [hex_digits upper ! d]) @ rev (num_text upper (unat b) (unat (mag div b))))"
      by (rule less.hyps)
    with len ld nz show ?thesis by (subst utoa_loop.simps) (simp add: num_text_def nd)
  qed
qed

lemma unat64: "unat (w :: u64) < 10 ^ 20" "unat (w :: u64) < 16 ^ 16"
proof -
  have "unat w < 2 ^ 64" by (rule order.strict_trans2 [OF unsigned_less]) simp
  then show "unat w < 10 ^ 20" "unat w < 16 ^ 16" by simp_all
qed

lemma fmt_utoa_text: "b = 10 \<or> b = 16 \<Longrightarrow> fmt_utoa mag b upper = Some (num_text upper (unat b) (unat mag))"
proof -
  assume b: "b = 10 \<or> b = 16"
  have "length (num_digits (unat b) (unat mag)) \<le> 20"
    using b length_num_digits [of 10 20 "unat mag"] length_num_digits [of 16 16 "unat mag"] unat64 [of mag] by auto
  with utoa_loop_digits [OF b, of "[]" mag upper] show ?thesis by (simp add: fmt_utoa_def)
qed

section \<open>Padding\<close>

lemma out_str_foldl: "out_str put ctx s = foldl put ctx s"
  by (induction s arbitrary: ctx) auto

lemma out_pad_foldl: "out_pad put ctx n c = foldl put ctx (replicate n c)"
  by (induction n arbitrary: ctx) auto

definition laid_out :: "u8 list \<Rightarrow> u8 list \<Rightarrow> nat \<Rightarrow> bool \<Rightarrow> bool \<Rightarrow> u8 list" where
  "laid_out pre body width zero left =
     (let pad = width - (length pre + length body) in
      if left then pre @ body @ replicate pad (chr CHR '' '')
      else if zero then pre @ replicate pad (chr CHR ''0'') @ body
      else replicate pad (chr CHR '' '') @ pre @ body)"

lemma fmt_padded_laid: "fmt_padded put ctx pre body width zero left = foldl put ctx (laid_out pre body width zero left)"
  by (simp add: fmt_padded_def laid_out_def out_str_foldl out_pad_foldl Let_def)

lemma length_laid_out: "length (laid_out pre body width zero left) = max width (length pre + length body)"
  by (auto simp: laid_out_def Let_def)

section \<open>Formats and their arguments\<close>

datatype va_ty = Ty_int | Ty_long | Ty_llong | Ty_str | Ty_ptr

fun ty_of :: "va \<Rightarrow> va_ty" where
  "ty_of (VA_int w) = Ty_int" | "ty_of (VA_long w) = Ty_long" | "ty_of (VA_llong v) = Ty_llong"
| "ty_of (VA_str s) = Ty_str" | "ty_of (VA_ptr w) = Ty_ptr"

fun lm_ty :: "len_mod \<Rightarrow> va_ty" where
  "lm_ty LM_INT = Ty_int" | "lm_ty LM_LONG = Ty_long" | "lm_ty LM_LLONG = Ty_llong" | "lm_ty LM_SIZE = Ty_int"

definition conv_tys :: "u8 \<Rightarrow> len_mod \<Rightarrow> va_ty list" where
  "conv_tys c lm =
     (if c = chr CHR ''c'' then [Ty_int]
      else if c = chr CHR ''s'' then [Ty_str]
      else if c \<in> set (str ''diuxX'') then [lm_ty lm]
      else if c = chr CHR ''p'' then [Ty_ptr]
      else [])"

fun va_nat :: "va \<Rightarrow> nat" where
  "va_nat (VA_int w) = unat w" | "va_nat (VA_long w) = unat w" | "va_nat (VA_llong v) = unat v"
| "va_nat (VA_str s) = 0" | "va_nat (VA_ptr w) = unat w"

fun va_int :: "va \<Rightarrow> int" where
  "va_int (VA_int w) = sint w" | "va_int (VA_long w) = sint w" | "va_int (VA_llong v) = sint v"
| "va_int (VA_str s) = 0" | "va_int (VA_ptr w) = sint w"

fun va_text :: "va \<Rightarrow> u8 list" where
  "va_text (VA_str (Some s)) = s" | "va_text _ = str ''(null)''"

text \<open>The text of one conversion of the arguments it takes.\<close>

definition conv_text :: "u8 \<Rightarrow> nat \<Rightarrow> bool \<Rightarrow> bool \<Rightarrow> va list \<Rightarrow> u8 list" where
  "conv_text c width zero left xs =
     (if c = chr CHR ''%'' then [c]
      else if c = chr CHR ''c'' then laid_out [] [of_nat (va_nat (hd xs))] width False left
      else if c = chr CHR ''s'' then laid_out [] (va_text (hd xs)) width False left
      else if c = chr CHR ''d'' \<or> c = chr CHR ''i''
        then laid_out (if va_int (hd xs) < 0 then [chr CHR ''-''] else [])
               (num_text False 10 (nat \<bar>va_int (hd xs)\<bar>)) width zero left
      else if c = chr CHR ''u'' then laid_out [] (num_text False 10 (va_nat (hd xs))) width zero left
      else if c = chr CHR ''x'' then laid_out [] (num_text False 16 (va_nat (hd xs))) width zero left
      else if c = chr CHR ''X'' then laid_out [] (num_text True 16 (va_nat (hd xs))) width zero left
      else if c = chr CHR ''p'' then laid_out (str ''0x'') (num_text False 16 (va_nat (hd xs))) width zero left
      else [chr CHR ''%'', c])"

lemma signed_mag_abs:
  assumes "- (2 ^ 63) \<le> v" "v < 2 ^ 63"
  shows "unat (signed_mag v) = nat \<bar>v\<bar>"
proof (cases "v < 0")
  case True
  have "word_of_int (- (v + 1)) + 1 = (word_of_int (- v) :: u64)" by (simp add: wi_hom_syms)
  moreover have "uint (word_of_int (- v) :: u64) = - v"
    using True assms by (subst uint_word_of_int) (simp add: take_bit_int_eq_self del: uint_minus_simple_alt)
  ultimately show ?thesis using True by (simp add: signed_mag_def unat_eq_nat_uint)
next
  case False
  then have "uint (word_of_int v :: u64) = v" using assms by (simp add: uint_word_of_int take_bit_int_eq_self)
  with False show ?thesis by (simp add: signed_mag_def unat_eq_nat_uint)
qed

lemma sint_range: "- (2 ^ 63) \<le> sint (w :: u32)" "sint (w :: u32) < 2 ^ 63" "- (2 ^ 63) \<le> sint (v :: u64)" "sint (v :: u64) < 2 ^ 63"
  using sint_ge [of w] sint_lt [of w] sint_ge [of v] sint_lt [of v] by simp_all

lemma get_signed_typed:
  "get_signed lm (x # ap) = (if ty_of x = lm_ty lm then Some (va_int x, ap) else None)" "get_signed lm [] = None"
  by (cases lm; cases x; simp add: get_signed_def) (cases lm; simp add: get_signed_def)

lemma get_unsigned_typed:
  "ty_of x = lm_ty lm \<Longrightarrow> \<exists>w. get_unsigned lm (x # ap) = Some (w, ap) \<and> unat w = va_nat x"
  "ty_of x \<noteq> lm_ty lm \<Longrightarrow> get_unsigned lm (x # ap) = None" "get_unsigned lm [] = None"
  by (cases lm; cases x; simp add: get_unsigned_def unat_up_cast) (cases lm; cases x; simp add: get_unsigned_def)+

lemma va_int_range: "ty_of x = lm_ty lm \<Longrightarrow> - (2 ^ 63) \<le> va_int x \<and> va_int x < 2 ^ 63"
  using sint_range by (cases x) auto

lemma chr_eq [simp]: "chr a = chr b \<longleftrightarrow> a = b"
proof -
  have "unat (chr c) = of_char c" for c
  proof -
    have "chr c = of_nat (of_char c)" unfolding chr_def by (simp only: of_nat_of_char)
    then show ?thesis using nat_of_char_less_256 [of c] by (simp add: unat_of_nat)
  qed
  then show ?thesis by (metis of_char_eq_iff)
qed

lemma in_str: "c \<in> set (str s) \<longleftrightarrow> (\<exists>d \<in> set s. c = chr d)"
  by (auto simp: str_def chr_def)

text \<open>A conversion takes the arguments of its types, or reads one it must not.\<close>

lemma out_unsigned_typed:
  assumes "b = 10 \<or> b = 16"
  shows "ty_of x = lm_ty lm \<Longrightarrow> out_unsigned put ctx b upper lm w z l (x # ap) =
      Some (foldl put ctx (laid_out [] (num_text upper (unat b) (va_nat x)) w z l), ap)"
    "ty_of x \<noteq> lm_ty lm \<Longrightarrow> out_unsigned put ctx b upper lm w z l (x # ap) = None"
    "out_unsigned put ctx b upper lm w z l [] = None"
proof -
  assume "ty_of x = lm_ty lm"
  then obtain m where "get_unsigned lm (x # ap) = Some (m, ap)" "unat m = va_nat x" using get_unsigned_typed(1) by blast
  with fmt_utoa_text [OF assms] show "out_unsigned put ctx b upper lm w z l (x # ap) =
      Some (foldl put ctx (laid_out [] (num_text upper (unat b) (va_nat x)) w z l), ap)"
    by (simp add: out_unsigned_def fmt_padded_laid)
qed (simp_all add: out_unsigned_def get_unsigned_typed)

lemma out_conv_typed:
  assumes "map ty_of xs = conv_tys c lm"
  shows "out_conv put ctx c lm w z l (xs @ ys) = Some (foldl put ctx (conv_text c w z l xs), ys)"
proof -
  consider "c = chr CHR ''%''" | "c = chr CHR ''c''" | "c = chr CHR ''s''" | "c \<in> set (str ''di'')" | "c \<in> set (str ''uxX'')"
    | "c = chr CHR ''p''" | "c \<notin> set (str ''%csdiuxXp'')"
    by (auto simp: in_str)
  then show ?thesis
  proof cases
    case 2
    then obtain x where "xs = [x]" "ty_of x = Ty_int" using assms by (auto simp: conv_tys_def)
    with 2 show ?thesis by (cases x) (simp_all add: out_conv_def conv_text_def fmt_padded_laid)
  next
    case 3
    then obtain x where "xs = [x]" "ty_of x = Ty_str" using assms by (auto simp: conv_tys_def)
    then obtain s where "xs = [VA_str s]" by (cases x) auto
    with 3 show ?thesis by (cases s) (simp_all add: out_conv_def conv_text_def fmt_padded_laid)
  next
    case 4
    then obtain x where x: "xs = [x]" "ty_of x = lm_ty lm" using assms by (auto simp: conv_tys_def in_str)
    have "fmt_utoa (signed_mag (va_int x)) 10 False = Some (num_text False 10 (nat \<bar>va_int x\<bar>))"
      using signed_mag_abs va_int_range [OF x(2)] by (simp add: fmt_utoa_text)
    with 4 x show ?thesis by (auto simp: in_str out_conv_def conv_text_def get_signed_typed fmt_padded_laid)
  next
    case 5
    then obtain x where x: "xs = [x]" "ty_of x = lm_ty lm" using assms by (auto simp: conv_tys_def in_str)
    with 5 show ?thesis by (auto simp: in_str out_conv_def conv_text_def out_unsigned_typed)
  next
    case 6
    then obtain x where "xs = [x]" "ty_of x = Ty_ptr" using assms by (auto simp: conv_tys_def in_str)
    then obtain p where "xs = [VA_ptr p]" by (cases x) auto
    with 6 show ?thesis by (simp add: out_conv_def conv_text_def fmt_utoa_text fmt_padded_laid unat_up_cast)
  qed (use assms in \<open>auto simp: in_str out_conv_def conv_text_def conv_tys_def\<close>)
qed

lemma out_conv_None:
  assumes "\<nexists>xs ys. ap = xs @ ys \<and> map ty_of xs = conv_tys c lm"
  shows "out_conv put ctx c lm w z l ap = None"
proof -
  have ne: "conv_tys c lm \<noteq> []" using assms by force
  then obtain t where t: "conv_tys c lm = [t]" by (auto simp: conv_tys_def split: if_splits)
  have bad: "ap = [] \<or> ty_of (hd ap) \<noteq> t"
  proof (cases ap)
    case (Cons x ys)
    then have "ty_of x \<noteq> t" using assms t by (metis append_Cons append_Nil list.simps(8,9))
    with Cons show ?thesis by simp
  qed simp
  consider "c = chr CHR ''c''" "t = Ty_int" | "c = chr CHR ''s''" "t = Ty_str" | "c \<in> set (str ''di'')" "t = lm_ty lm"
    | "c \<in> set (str ''uxX'')" "t = lm_ty lm" | "c = chr CHR ''p''" "t = Ty_ptr"
    using t by (auto simp: conv_tys_def in_str split: if_splits)
  then show ?thesis
  proof cases
    case 1
    with bad show ?thesis by (auto simp: out_conv_def split: list.split va.split)
  next
    case 2
    with bad show ?thesis by (auto simp: out_conv_def split: list.split va.split)
  next
    case 3
    with bad show ?thesis by (cases ap) (auto simp: out_conv_def in_str get_signed_typed)
  next
    case 4
    with bad show ?thesis by (cases ap) (auto simp: out_conv_def in_str out_unsigned_typed)
  next
    case 5
    with bad show ?thesis by (auto simp: out_conv_def split: list.split va.split)
  qed
qed

section \<open>The grammar of formats\<close>

text \<open>A literal byte, or a conversion: flags, width digits, length modifier, conversion character.\<close>

datatype item = Lit u8 | Conv "u8 list" "u8 list" len_mod u8

fun lm_text :: "len_mod \<Rightarrow> u8 list" where
  "lm_text LM_INT = []" | "lm_text LM_LONG = str ''l''" | "lm_text LM_LLONG = str ''ll''" | "lm_text LM_SIZE = str ''z''"

definition is_digit :: "u8 \<Rightarrow> bool" where
  "is_digit c \<longleftrightarrow> chr CHR ''0'' \<le> c \<and> c \<le> chr CHR ''9''"

definition head_ok :: "u8 list \<Rightarrow> u8 list \<Rightarrow> bool" where
  "head_ok fl wd \<longleftrightarrow> set fl \<subseteq> {chr CHR ''-'', chr CHR ''0''} \<and> (\<forall>c \<in> set wd. is_digit c) \<and>
     (wd = [] \<or> hd wd \<noteq> chr CHR ''0'')"

definition conv_char :: "u8 \<Rightarrow> bool" where
  "conv_char c \<longleftrightarrow> \<not> is_digit c \<and> c \<notin> set (str ''-lz'')"

fun item_ok :: "item \<Rightarrow> bool" where
  "item_ok (Lit c) \<longleftrightarrow> c \<noteq> chr CHR ''%''"
| "item_ok (Conv fl wd lm c) \<longleftrightarrow> head_ok fl wd \<and> conv_char c"

fun item_text :: "item \<Rightarrow> u8 list" where
  "item_text (Lit c) = [c]"
| "item_text (Conv fl wd lm c) = chr CHR ''%'' # fl @ wd @ lm_text lm @ [c]"

fun item_tys :: "item \<Rightarrow> va_ty list" where
  "item_tys (Lit c) = []" | "item_tys (Conv fl wd lm c) = conv_tys c lm"

definition width_of :: "u8 list \<Rightarrow> nat" where
  "width_of wd = min 4096 (foldl (\<lambda>v c. v * 10 + unat (c - chr CHR ''0'')) 0 wd)"

fun item_out :: "item \<Rightarrow> va list \<Rightarrow> u8 list" where
  "item_out (Lit c) xs = [c]"
| "item_out (Conv fl wd lm c) xs = conv_text c (width_of wd) (chr CHR ''0'' \<in> set fl) (chr CHR ''-'' \<in> set fl) xs"

fun items_out :: "item list \<Rightarrow> va list \<Rightarrow> u8 list" where
  "items_out [] xs = []"
| "items_out (it # its) xs =
     (let k = length (item_tys it) in item_out it (take k xs) @ items_out its (drop k xs))"

definition items_text :: "item list \<Rightarrow> u8 list" where "items_text its = concat (map item_text its)"
definition items_tys :: "item list \<Rightarrow> va_ty list" where "items_tys its = concat (map item_tys its)"

lemma skip_flags_text:
  "set fl \<subseteq> {chr CHR ''-'', chr CHR ''0''} \<Longrightarrow> p = [] \<or> hd p \<notin> {chr CHR ''-'', chr CHR ''0''} \<Longrightarrow>
    skip_flags l z (fl @ p) = (l \<or> chr CHR ''-'' \<in> set fl, z \<or> chr CHR ''0'' \<in> set fl, p)"
proof (induction fl arbitrary: l z)
  case Nil
  then show ?case by (cases p) auto
next
  case (Cons c fl)
  then show ?case by auto
qed

lemma get_width_text:
  "\<forall>c \<in> set wd. is_digit c \<Longrightarrow> p = [] \<or> \<not> is_digit (hd p) \<Longrightarrow>
    get_width (min 4096 v) (wd @ p) = (min 4096 (foldl (\<lambda>v c. v * 10 + unat (c - chr CHR ''0'')) v wd), p)"
proof (induction wd arbitrary: v)
  case Nil
  then show ?case by (cases p) (auto simp: is_digit_def)
next
  case (Cons c wd)
  have "(let w = min 4096 v * 10 + unat (c - chr CHR ''0'') in if w > 4096 then 4096 else w) =
      min 4096 (v * 10 + unat (c - chr CHR ''0''))" by (auto simp: Let_def min_def)
  with Cons.IH [of "v * 10 + unat (c - chr CHR ''0'')"] Cons.prems show ?case by (simp add: is_digit_def)
qed

lemma get_lm_text: "p = [] \<or> hd p \<notin> set (str ''lz'') \<Longrightarrow> get_lm (lm_text lm @ p) = (lm, p)"
  by (cases lm; cases p) (auto simp: get_lm_def str_def chr_def)

lemma lm_text_start: "lm_text lm @ p = [] \<or> (hd (lm_text lm @ p) \<in> set (str ''lz'')) \<or> (lm = LM_INT \<and> hd (lm_text lm @ p) = hd p)"
  by (cases lm) (auto simp: str_def)

lemma letters: "\<not> is_digit (chr CHR ''l'')" "\<not> is_digit (chr CHR ''z'')" "\<not> is_digit (chr CHR ''-'')" "is_digit (chr CHR ''0'')"
  "\<not> is_digit (chr CHR ''%'')"
  by (simp_all add: is_digit_def chr_def)

lemma spec_head_text:
  assumes "head_ok fl wd" "p = [] \<or> conv_char (hd p)"
  shows "spec_head (fl @ wd @ lm_text lm @ p) =
    ((chr CHR ''-'' \<in> set fl, chr CHR ''0'' \<in> set fl, width_of wd, lm), p)"
proof -
  let ?q = "lm_text lm @ p"
  have q: "?q = [] \<or> \<not> is_digit (hd ?q) \<and> hd ?q \<noteq> chr CHR ''-''"
    using lm_text_start [of lm p] assms(2) by (auto simp: in_str letters conv_char_def)
  have "wd @ ?q = [] \<or> hd (wd @ ?q) \<notin> {chr CHR ''-'', chr CHR ''0''}"
    using q assms(1) letters by (cases wd) (auto simp: head_ok_def)
  with assms(1) have 1: "skip_flags False False (fl @ wd @ ?q) = (chr CHR ''-'' \<in> set fl, chr CHR ''0'' \<in> set fl, wd @ ?q)"
    using skip_flags_text [of fl "wd @ ?q" False False] by (simp add: head_ok_def)
  have 2: "get_width 0 (wd @ ?q) = (width_of wd, ?q)"
    using get_width_text [of wd ?q 0] q assms(1) by (auto simp: head_ok_def width_of_def)
  have 3: "get_lm ?q = (lm, p)" using assms(2) by (intro get_lm_text) (auto simp: conv_char_def in_str)
  show ?thesis unfolding spec_head_def Let_def 1 prod.case 2 3 by simp
qed

lemma format_step:
  assumes "item_ok it" "map ty_of xs = item_tys it"
  shows "fmt_vformat put ctx (item_text it @ p) (xs @ ys) = fmt_vformat put (foldl put ctx (item_out it xs)) p ys"
proof (cases it)
  case (Lit c)
  with assms show ?thesis by simp
next
  case (Conv fl wd lm c)
  with assms have "spec_head (fl @ wd @ lm_text lm @ c # p) =
      ((chr CHR ''-'' \<in> set fl, chr CHR ''0'' \<in> set fl, width_of wd, lm), c # p)"
    using spec_head_text [of fl wd "c # p" lm] by simp
  moreover have t: "map ty_of xs = conv_tys c lm" using assms(2) Conv by simp
  ultimately show ?thesis using Conv by (simp add: out_conv_typed [OF t])
qed

lemma format_fault:
  assumes "item_ok it" "\<nexists>xs ys. ap = xs @ ys \<and> map ty_of xs = item_tys it"
  shows "fmt_vformat put ctx (item_text it @ p) ap = None"
proof (cases it)
  case (Lit c)
  with assms(2) show ?thesis by force
next
  case (Conv fl wd lm c)
  with assms have "spec_head (fl @ wd @ lm_text lm @ c # p) =
      ((chr CHR ''-'' \<in> set fl, chr CHR ''0'' \<in> set fl, width_of wd, lm), c # p)"
    using spec_head_text [of fl wd "c # p" lm] by simp
  moreover have t: "\<nexists>xs ys. ap = xs @ ys \<and> map ty_of xs = conv_tys c lm" using assms(2) Conv by simp
  ultimately show ?thesis using Conv by (simp add: out_conv_None [OF t])
qed

text \<open>A format may end inside a conversion: \<open>head\<close> is then what follows its last percent sign.\<close>

definition tail_text :: "(u8 list \<times> u8 list \<times> len_mod) option \<Rightarrow> u8 list" where
  "tail_text tp = (case tp of None \<Rightarrow> [] | Some (fl, wd, lm) \<Rightarrow> chr CHR ''%'' # fl @ wd @ lm_text lm)"

definition tail_ok :: "(u8 list \<times> u8 list \<times> len_mod) option \<Rightarrow> bool" where
  "tail_ok tp = (case tp of None \<Rightarrow> True | Some (fl, wd, lm) \<Rightarrow> head_ok fl wd)"

definition tail_out :: "(u8 list \<times> u8 list \<times> len_mod) option \<Rightarrow> u8 list" where
  "tail_out tp = (case tp of None \<Rightarrow> [] | Some h \<Rightarrow> [chr CHR ''%''])"

lemma format_tail: "tail_ok tp \<Longrightarrow> fmt_vformat put ctx (tail_text tp) ap = Some (foldl put ctx (tail_out tp), ap)"
proof (cases tp)
  case (Some h)
  obtain fl wd lm where h: "h = (fl, wd, lm)" by (cases h)
  assume "tail_ok tp"
  then have "spec_head (fl @ wd @ lm_text lm) = ((chr CHR ''-'' \<in> set fl, chr CHR ''0'' \<in> set fl, width_of wd, lm), [])"
    using spec_head_text [of fl wd "[]" lm] Some h by (simp add: tail_ok_def)
  then show ?thesis by (simp add: tail_text_def tail_out_def Some h)
qed (simp add: tail_text_def tail_out_def)

lemma format_items:
  assumes "tail_ok tp"
  shows "\<forall>it \<in> set its. item_ok it \<Longrightarrow> map ty_of xs = items_tys its \<Longrightarrow>
    fmt_vformat put ctx (items_text its @ tail_text tp) (xs @ ys) =
      Some (foldl put ctx (items_out its xs @ tail_out tp), ys)"
proof (induction its arbitrary: ctx xs)
  case Nil
  with format_tail [OF assms] show ?case by (simp add: items_tys_def items_text_def)
next
  case (Cons it its)
  let ?k = "length (item_tys it)"
  have t: "map ty_of (take ?k xs) = item_tys it" "map ty_of (drop ?k xs) = items_tys its"
    using Cons.prems(2) by (simp_all add: items_tys_def take_map [symmetric] drop_map [symmetric])
  have "fmt_vformat put ctx (items_text (it # its) @ tail_text tp) (xs @ ys) =
      fmt_vformat put ctx (item_text it @ items_text its @ tail_text tp) (take ?k xs @ drop ?k xs @ ys)"
    by (simp add: items_text_def append_assoc [symmetric] del: append_assoc)
  also have "\<dots> = fmt_vformat put (foldl put ctx (item_out it (take ?k xs))) (items_text its @ tail_text tp) (drop ?k xs @ ys)"
    using Cons.prems(1) t(1) by (intro format_step) simp_all
  finally show ?case using Cons.IH [OF _ t(2)] Cons.prems(1) by (simp add: Let_def)
qed

lemma format_ill_typed:
  "\<forall>it \<in> set its. item_ok it \<Longrightarrow> \<nexists>xs ys. ap = xs @ ys \<and> map ty_of xs = items_tys its \<Longrightarrow>
    fmt_vformat put ctx (items_text its @ t) ap = None"
proof (induction its arbitrary: ctx ap)
  case Nil
  then show ?case by (force simp: items_tys_def)
next
  case (Cons it its)
  have e: "items_text (it # its) @ t = item_text it @ items_text its @ t" by (simp add: items_text_def)
  show ?case
  proof (cases "\<exists>xs ys. ap = xs @ ys \<and> map ty_of xs = item_tys it")
    case False
    with Cons.prems(1) show ?thesis unfolding e by (intro format_fault) auto
  next
    case True
    then obtain xs ys where ap: "ap = xs @ ys" "map ty_of xs = item_tys it" by blast
    have "\<nexists>us vs. ys = us @ vs \<and> map ty_of us = items_tys its"
    proof
      assume "\<exists>us vs. ys = us @ vs \<and> map ty_of us = items_tys its"
      then obtain us vs where "ys = us @ vs" "map ty_of us = items_tys its" by blast
      then have "ap = (xs @ us) @ vs" "map ty_of (xs @ us) = items_tys (it # its)" using ap by (simp_all add: items_tys_def)
      then show False using Cons.prems(2) by blast
    qed
    with Cons.IH Cons.prems(1) ap show ?thesis unfolding e by (simp add: format_step)
  qed
qed

text \<open>C6. A format is well typed by its text alone: the formatter runs to the end of a format, and reads
  every argument at the type it was passed with and none past the last, exactly when the first
  arguments have the types its conversions name.\<close>

theorem fmt_vformat_typed:
  assumes "\<forall>it \<in> set its. item_ok it" "tail_ok tp"
  shows "fmt_vformat put ctx (items_text its @ tail_text tp) ap \<noteq> None \<longleftrightarrow>
    (\<exists>xs ys. ap = xs @ ys \<and> map ty_of xs = items_tys its)"
proof
  assume r: "fmt_vformat put ctx (items_text its @ tail_text tp) ap \<noteq> None"
  show "\<exists>xs ys. ap = xs @ ys \<and> map ty_of xs = items_tys its"
    by (rule ccontr) (use r format_ill_typed [OF assms(1), of ap put ctx "tail_text tp"] in simp)
next
  assume "\<exists>xs ys. ap = xs @ ys \<and> map ty_of xs = items_tys its"
  then obtain xs ys where x: "ap = xs @ ys" "map ty_of xs = items_tys its" by blast
  show "fmt_vformat put ctx (items_text its @ tail_text tp) ap \<noteq> None"
    unfolding x(1) format_items [OF assms(2,1) x(2)] by simp
qed

text \<open>\<open>%-5lx|%d\<close>\<close>

definition sample_items :: "item list" where
  "sample_items = [Conv (str ''-'') (str ''5'') LM_LONG (chr CHR ''x''), Lit (chr CHR ''|''), Conv [] [] LM_INT (chr CHR ''d'')]"

lemma sample_items_ok: "\<forall>it \<in> set sample_items. item_ok it" "tail_ok None"
proof -
  have d: "is_digit (chr CHR ''5'')" "\<not> is_digit (chr CHR ''x'')" "\<not> is_digit (chr CHR ''d'')"
    by (simp_all add: is_digit_def chr_def)
  have c: "str ''5'' = [chr CHR ''5'']" "str ''-'' = [chr CHR ''-'']" by (simp_all add: str_def chr_def)
  show "\<forall>it \<in> set sample_items. item_ok it"
    using d by (simp add: sample_items_def head_ok_def conv_char_def in_str) (simp add: c)
qed (simp add: tail_ok_def)

lemma fmt_vformat_typed_witness:
  "fmt_vformat (\<lambda>l c. l @ [c]) [] (items_text sample_items @ tail_text None) [VA_int 1, VA_int 2] \<noteq> None \<longleftrightarrow>
    (\<exists>xs ys. [VA_int 1, VA_int 2] = xs @ ys \<and> map ty_of xs = items_tys sample_items)"
  by (rule fmt_vformat_typed [OF sample_items_ok])

text \<open>C7. On well-typed arguments the formatter sends its sink, in order, the literal bytes and the text of
  each conversion: the numeral of the value in its base with no leading zero, the sign or \<open>0x\<close>, the
  string or the character, padded to the width on the side and with the character the flags say;
  and it leaves the arguments after its own untouched.\<close>

theorem fmt_vformat_renders:
  assumes "\<forall>it \<in> set its. item_ok it" "tail_ok tp" "map ty_of xs = items_tys its"
  shows "fmt_vformat put ctx (items_text its @ tail_text tp) (xs @ ys) =
      Some (foldl put ctx (items_out its xs @ tail_out tp), ys) \<and>
    (\<forall>u b n. 2 \<le> b \<longrightarrow> foldl (\<lambda>v d. v * b + d) 0 (num_digits b n) = n \<and>
       num_text u b n = map ((!) (hex_digits u)) (num_digits b n)) \<and>
    (\<forall>pre body w z l. length (laid_out pre body w z l) = max w (length pre + length body))"
  using format_items [OF assms(2,1,3)] num_digits_value length_laid_out by (simp add: num_text_def)

lemma fmt_vformat_renders_witness:
  "fmt_vformat (\<lambda>l c. l @ [c]) [] (items_text sample_items @ tail_text None) ([VA_long 0xbeef, VA_int (- 7)] @ []) =
      Some (foldl (\<lambda>l c. l @ [c]) [] (items_out sample_items [VA_long 0xbeef, VA_int (- 7)] @ tail_out None), [])"
  by (rule fmt_vformat_renders [OF sample_items_ok, THEN conjunct1])
    (simp add: sample_items_def items_tys_def conv_tys_def chr_def str_def)

section \<open>Any sink\<close>

text \<open>What a format sends does not depend on its sink.\<close>

definition snoc :: "u8 list \<Rightarrow> u8 \<Rightarrow> u8 list" where "snoc l c = l @ [c]"

lemma foldl_snoc: "foldl snoc l s = l @ s"
  by (induction s arbitrary: l) (auto simp: snoc_def)

definition fmt_out :: "u8 list \<Rightarrow> va list \<Rightarrow> (u8 list \<times> va list) option" where
  "fmt_out p ap = fmt_vformat snoc [] p ap"

lemma out_conv_sink:
  "out_conv put ctx c lm w z l ap = map_option (apfst (foldl put ctx)) (out_conv snoc [] c lm w z l ap)"
proof (cases "\<exists>xs ys. ap = xs @ ys \<and> map ty_of xs = conv_tys c lm")
  case True
  then obtain xs ys where x: "ap = xs @ ys" "map ty_of xs = conv_tys c lm" by blast
  show ?thesis by (simp add: x(1) out_conv_typed [OF x(2)] foldl_snoc)
next
  case False
  show ?thesis by (simp add: out_conv_None [OF False])
qed

lemma fmt_out_simps:
  "fmt_out [] ap = Some ([], ap)"
  "fmt_out (c # p) ap =
     (if c \<noteq> chr CHR ''%'' then map_option (apfst (Cons c)) (fmt_out p ap)
      else (case spec_head p of ((left, zero, width, lm), q) \<Rightarrow>
        (case q of
           [] \<Rightarrow> Some ([chr CHR ''%''], ap)
         | d # r \<Rightarrow> Option.bind (out_conv snoc [] d lm width zero left ap)
             (\<lambda>(t, ap). map_option (apfst ((@) t)) (fmt_out r ap)))))"
proof -
  have app: "fmt_vformat snoc l p ap = map_option (apfst ((@) l)) (fmt_vformat snoc [] p ap)" for l p ap
  proof (induction "length p" arbitrary: l p ap rule: less_induct)
    case less
    show ?case
    proof (cases p)
      case (Cons c q)
      obtain left zero width lm r where h: "spec_head q = ((left, zero, width, lm), r)"
        by (cases "spec_head q") (metis prod.collapse)
      have len: "length r \<le> length q" using spec_head_le [OF h] .
      show ?thesis
      proof (cases "c = chr CHR ''%''")
        case False
        have "fmt_vformat snoc (l @ [c]) q ap = map_option (apfst ((@) (l @ [c]))) (fmt_vformat snoc [] q ap)"
          "fmt_vformat snoc [c] q ap = map_option (apfst ((@) [c])) (fmt_vformat snoc [] q ap)"
          by (rule less, simp add: Cons)+
        with False Cons show ?thesis by (cases "fmt_vformat snoc [] q ap") (auto simp: snoc_def apfst_def map_prod_def)
      next
        case pc: True
        show ?thesis
        proof (cases r)
          case Nil
          with pc Cons h show ?thesis by (simp add: snoc_def)
        next
          case r: (Cons d t)
          have ih: "fmt_vformat snoc (l @ x) t a = map_option (apfst ((@) (l @ x))) (fmt_vformat snoc [] t a)"
            "fmt_vformat snoc x t a = map_option (apfst ((@) x)) (fmt_vformat snoc [] t a)" for x a
            by (rule less, use Cons r len in simp)+
          show ?thesis
          proof (cases "out_conv snoc [] d lm width zero left ap")
            case None
            with pc Cons h r out_conv_sink [of snoc l d lm width zero left ap] show ?thesis by simp
          next
            case (Some o1)
            obtain x a where o1: "o1 = (x, a)" by (cases o1)
            have "out_conv snoc l d lm width zero left ap = Some (l @ x, a)"
              using out_conv_sink [of snoc l d lm width zero left ap] Some o1 by (simp add: foldl_snoc)
            then have "fmt_vformat snoc l p ap = fmt_vformat snoc (l @ x) t a" "fmt_vformat snoc [] p ap = fmt_vformat snoc x t a"
              using pc Cons h r Some o1 by simp_all
            then show ?thesis using ih [of x a] by (cases "fmt_vformat snoc [] t a") (auto simp: apfst_def map_prod_def)
          qed
        qed
      qed
    qed simp
  qed
  show "fmt_out [] ap = Some ([], ap)" by (simp add: fmt_out_def)
  show "fmt_out (c # p) ap =
     (if c \<noteq> chr CHR ''%'' then map_option (apfst (Cons c)) (fmt_out p ap)
      else (case spec_head p of ((left, zero, width, lm), q) \<Rightarrow>
        (case q of
           [] \<Rightarrow> Some ([chr CHR ''%''], ap)
         | d # r \<Rightarrow> Option.bind (out_conv snoc [] d lm width zero left ap)
             (\<lambda>(t, ap). map_option (apfst ((@) t)) (fmt_out r ap)))))"
  proof (cases "c = chr CHR ''%''")
    case False
    with app [of "[c]" p ap] show ?thesis
      by (cases "fmt_vformat snoc [] p ap") (auto simp: fmt_out_def snoc_def)
  next
    case True
    have a: "fmt_vformat snoc t r a = map_option (apfst ((@) t)) (fmt_out r a)" for t r a
      unfolding fmt_out_def by (rule app)
    show ?thesis using True unfolding fmt_out_def [of "c # p"]
      by (simp add: snoc_def a case_prod_unfold split: list.split)
  qed
qed

lemma fmt_vformat_sink: "fmt_vformat put ctx p ap = map_option (apfst (foldl put ctx)) (fmt_out p ap)"
proof (induction "length p" arbitrary: ctx p ap rule: less_induct)
  case less
  show ?case
  proof (cases p)
    case (Cons c q)
    obtain left zero width lm r where h: "spec_head q = ((left, zero, width, lm), r)"
      by (cases "spec_head q") (metis prod.collapse)
    have len: "length r \<le> length q" using spec_head_le [OF h] .
    show ?thesis
    proof (cases "c = chr CHR ''%''")
      case False
      with less [of q "put ctx c" ap] Cons show ?thesis by (cases "fmt_out q ap") (auto simp: fmt_out_simps apfst_def map_prod_def)
    next
      case pc: True
      show ?thesis
      proof (cases r)
        case Nil
        with pc Cons h show ?thesis by (simp add: fmt_out_simps)
      next
        case r: (Cons d t)
        have ih: "fmt_vformat put ctx t a = map_option (apfst (foldl put ctx)) (fmt_out t a)" for ctx a
          using less [of t] r Cons len by simp
        show ?thesis
        proof (cases "out_conv snoc [] d lm width zero left ap")
          case None
          with pc Cons h r out_conv_sink [of put ctx d lm width zero left ap] show ?thesis by (simp add: fmt_out_simps)
        next
          case (Some o1)
          obtain x a where o1: "o1 = (x, a)" by (cases o1)
          have "out_conv put ctx d lm width zero left ap = Some (foldl put ctx x, a)"
            using out_conv_sink [of put ctx d lm width zero left ap] Some o1 by simp
          then have "fmt_vformat put ctx p ap = fmt_vformat put (foldl put ctx x) t a"
            "fmt_out p ap = map_option (apfst ((@) x)) (fmt_out t a)"
            using pc Cons h r Some o1 by (simp_all add: fmt_out_simps)
          then show ?thesis using ih [of "foldl put ctx x" a] by (cases "fmt_out t a") (auto simp: apfst_def map_prod_def)
        qed
      qed
    qed
  qed (simp add: fmt_out_simps)
qed

lemma snbuf_foldl:
  "length (sn_buf s) \<ge> sn_size s \<Longrightarrow> sn_pos s < sn_size s \<Longrightarrow>
    foldl snbuf_putc (Some s) out =
      (let k = min (length out) (sn_size s - 1 - sn_pos s) in
       Some (s\<lparr>sn_buf := take (sn_pos s) (sn_buf s) @ take k out @ drop (sn_pos s + k) (sn_buf s), sn_pos := sn_pos s + k\<rparr>))"
proof (induction out arbitrary: s)
  case Nil
  then show ?case by simp
next
  case (Cons c out)
  show ?case
  proof (cases "sn_pos s + 1 < sn_size s")
    case False
    then have "snbuf_putc (Some s) c = Some s" by (simp add: snbuf_putc_def)
    with Cons.IH [OF Cons.prems] False Cons.prems show ?thesis by (simp add: Let_def)
  next
    case True
    let ?s = "s\<lparr>sn_buf := (sn_buf s)[sn_pos s := c], sn_pos := sn_pos s + 1\<rparr>"
    have "snbuf_putc (Some s) c = Some ?s" using True Cons.prems by (simp add: snbuf_putc_def st_def)
    moreover have "min (length (c # out)) (sn_size s - 1 - sn_pos s) = Suc (min (length out) (sn_size s - 1 - (sn_pos s + 1)))"
      using True by simp
    moreover have "take (sn_pos s + 1) ((sn_buf s)[sn_pos s := c]) = take (sn_pos s) (sn_buf s) @ [c]"
      using True Cons.prems by (simp add: take_Suc_update)
    ultimately show ?thesis using Cons.IH [of ?s] True Cons.prems by (simp add: Let_def)
  qed
qed

text \<open>C8. \<open>fmt_vsnformat\<close> stores a prefix of what the formatter sends any sink, as much as leaves room for
  the NUL, terminates it, returns its length, and leaves every other byte of the caller's buffer;
  a format that streams without fault never makes it write outside the buffer.\<close>

theorem fmt_vsnformat_truncates:
  assumes "cap \<le> length buf"
  shows "fmt_vsnformat buf cap p ap =
    (if cap = 0 then Some (0, buf, ap)
     else (case fmt_out p ap of
        None \<Rightarrow> None
      | Some (out, ap') \<Rightarrow> let k = min (length out) (cap - 1) in
          Some (k, take k out @ 0 # drop (Suc k) buf, ap')))"
proof (cases "cap = 0")
  case False
  show ?thesis
  proof (cases "fmt_out p ap")
    case None
    with False show ?thesis by (simp add: fmt_vsnformat_def fmt_vformat_sink)
  next
    case (Some x)
    obtain out ap' where x: "x = (out, ap')" by (cases x)
    define k where "k = min (length out) (cap - 1)"
    have k: "k < length buf" "length (take k out) = k" using False assms by (simp_all add: k_def)
    have "foldl snbuf_putc (Some \<lparr>sn_buf = buf, sn_size = cap, sn_pos = 0\<rparr>) out =
        Some \<lparr>sn_buf = take k out @ drop k buf, sn_size = cap, sn_pos = k\<rparr>"
      using snbuf_foldl [of "\<lparr>sn_buf = buf, sn_size = cap, sn_pos = 0\<rparr>" out] False assms by (simp add: Let_def k_def)
    moreover have "st (take k out @ drop k buf) k 0 = Some (take k out @ 0 # drop (Suc k) buf)"
    proof -
      have "drop k buf = buf ! k # drop (Suc k) buf" using k(1) by (simp add: Cons_nth_drop_Suc)
      then show ?thesis using k by (simp add: st_def list_update_append)
    qed
    ultimately show ?thesis using False Some x
      unfolding k_def by (simp add: fmt_vsnformat_def fmt_vformat_sink Let_def)
  qed
qed (simp add: fmt_vsnformat_def)

lemma fmt_vsnformat_truncates_witness:
  "fmt_vsnformat (replicate 8 1) 4 (str ''abcdef'') [] =
    (if 4 = (0 :: nat) then Some (0, replicate 8 1, [])
     else (case fmt_out (str ''abcdef'') [] of
        None \<Rightarrow> None
      | Some (out, ap') \<Rightarrow> let k = min (length out) (4 - 1) in
          Some (k, take k out @ 0 # drop (Suc k) (replicate 8 1), ap')))"
  by (rule fmt_vsnformat_truncates) simp

end
