(* ===== verification/RectGeom.thy ===== *)
theory RectGeom
  imports Prelude
begin

text \<open>
  The outline geometry rule (\<open>svc/rect_geom.c\<close>): which pixels of a surface an outline covers and
  how many stores drawing it takes.  A board's painter clips with the first function and charges
  its budget with the second, so the two together decide what is drawn and what is paid.

  An \<open>int32_t\<close> is an \<open>int\<close> here: no sum or difference in these functions leaves the range of the
  type (after the clip every coordinate is a \<open>uint16_t\<close>).  A \<open>uint64_t\<close> stays a word, because
  that the count does not wrap is one of the theorems.  The \<open>g == NULL\<close> tests are left out: the
  result parameter of the one function is the \<open>Some\<close> of its value, the parameter of the other is
  a value.
\<close>

record rect_geom =
  g_x0 :: u32
  g_y0 :: u32
  g_w :: u32
  g_h :: u32
  g_t :: u32

text \<open>The clip of one axis, and the clamp of the stroke against the extent of one axis.\<close>

definition clip_lo :: "int \<Rightarrow> int" where "clip_lo v = (if v < 0 then 0 else v)"
definition clip_hi :: "u16 \<Rightarrow> int \<Rightarrow> int" where "clip_hi n v = (if v > uint n then uint n else v)"
definition clamp_stroke :: "int \<Rightarrow> int \<Rightarrow> int" where
  "clamp_stroke d t = (if t > d div 2 then (d + 1) div 2 else t)"

definition rect_geom_norm ::
    "u16 \<Rightarrow> u16 \<Rightarrow> int \<Rightarrow> int \<Rightarrow> int \<Rightarrow> int \<Rightarrow> u16 \<Rightarrow> rect_geom option" where
  "rect_geom_norm fb_w fb_h x0 y0 x1 y1 stroke =
    (let t = uint stroke in
     if fb_w = 0 \<or> fb_h = 0 \<or> t \<le> 0 then None
     else
       (let x0 = clip_lo x0; y0 = clip_lo y0; x1 = clip_hi fb_w x1; y1 = clip_hi fb_h y1 in
        if x1 \<le> x0 \<or> y1 \<le> y0 then None
        else
          (let t = clamp_stroke (x1 - x0) t;
               t = clamp_stroke (y1 - y0) t;
               t = (if t \<le> 0 then 1 else t) in
           Some \<lparr>g_x0 = word_of_int x0, g_y0 = word_of_int y0, g_w = word_of_int (x1 - x0),
                 g_h = word_of_int (y1 - y0), g_t = word_of_int t\<rparr>)))"

definition rect_geom_writes :: "rect_geom \<Rightarrow> u32" where
  "rect_geom_writes g =
    (if g_w g = 0 \<or> g_h g = 0 \<or> g_t g = 0 then 0
     else
       (let edge = (ucast (g_t g) :: 64 word) * 2;
            edge = (if edge > ucast (g_h g) then ucast (g_h g) else edge);
            total = edge * ucast (g_w g) + (ucast (g_h g) - edge) * ucast (g_t g) * 2 in
        if total > 0xFFFFFFFF then 0xFFFFFFFF else ucast total))"

section \<open>The count does not wrap\<close>

text \<open>The number of stores, in exact arithmetic.\<close>

definition outline_count :: "nat \<Rightarrow> nat \<Rightarrow> nat \<Rightarrow> nat" where
  "outline_count w h t = min (2 * t) h * w + (h - min (2 * t) h) * (2 * t)"

lemma outline_count_bound:
  fixes w h e m :: nat
  assumes "w \<le> m" "h \<le> m" "e \<le> h"
  shows "e * w + (h - e) * e \<le> m * m"
proof -
  have "e * w + (h - e) * e = e * (w + (h - e))" by (simp add: algebra_simps)
  also have "\<dots> \<le> e * (m + (m - e))" using assms by (intro mult_le_mono) auto
  also have "\<dots> \<le> m * m"
  proof -
    obtain k where k: "m = e + k" using assms by (metis le_Suc_ex order_trans)
    show ?thesis unfolding k by (simp add: algebra_simps)
  qed
  finally show ?thesis .
qed

lemma outline_count_lt:
  "outline_count (unat (w :: u32)) (unat (h :: u32)) t < 2 ^ 64"
proof -
  have "outline_count (unat w) (unat h) t \<le> 4294967295 * 4294967295"
  proof (cases "2 * t \<le> unat h")
    case True
    have "2 * t * unat w + (unat h - 2 * t) * (2 * t) \<le> 4294967295 * 4294967295"
      using True u32_bound [of w] u32_bound [of h] by (intro outline_count_bound) auto
    then show ?thesis using True by (simp add: outline_count_def min_def)
  next
    case False
    then have "outline_count (unat w) (unat h) t = unat h * unat w"
      by (simp add: outline_count_def min_def)
    also have "\<dots> \<le> 4294967295 * 4294967295"
      using u32_bound [of w] u32_bound [of h] by (intro mult_le_mono) auto
    finally show ?thesis .
  qed
  then show ?thesis by simp
qed

lemma unat_ucast64 [simp]: "unat (ucast (x :: u32) :: 64 word) = unat x"
  by (rule unat_up_cast) simp

lemma writes_total:
  fixes w h t :: u32
  defines "e \<equiv> (if (ucast t :: 64 word) * 2 > ucast h then ucast h else ucast t * 2 :: 64 word)"
  assumes "unat t \<noteq> 0"
  shows "unat (e * ucast w + (ucast h - e) * ucast t * 2) = outline_count (unat w) (unat h) (unat t)"
proof -
  have t2: "unat ((ucast t :: 64 word) * 2) = unat t * 2"
    using u32_bound [of t] by (subst unat_mult_lem [THEN iffD1]) auto
  have e: "unat e = min (2 * unat t) (unat h)"
    unfolding e_def by (auto simp: word_less_nat_alt t2 min_def)
  have le: "e \<le> ucast h" by (simp add: word_le_nat_alt e)
  have sub: "unat (ucast h - e) = unat h - unat e"
    using le by (simp add: unat_sub_if' word_le_nat_alt)
  have "unat (e * ucast w + (ucast h - e) * ucast t * 2) =
      (unat e * unat w + (unat h - unat e) * (2 * unat t)) mod 2 ^ 64"
    unfolding sub [symmetric] by (simp only: unat_word_ariths) (simp add: mod_simps mult.commute [of "2::nat"] mult.assoc)
  also have "unat e * unat w + (unat h - unat e) * (2 * unat t) = outline_count (unat w) (unat h) (unat t)"
    by (simp add: outline_count_def e)
  finally show ?thesis using outline_count_lt [of w h "unat t"] by simp
qed

lemma unat_rect_geom_writes:
  "unat (rect_geom_writes g) =
    (if g_w g = 0 \<or> g_h g = 0 \<or> g_t g = 0 then 0
     else min (outline_count (unat (g_w g)) (unat (g_h g)) (unat (g_t g))) 4294967295)"
proof (cases "g_w g = 0 \<or> g_h g = 0 \<or> g_t g = 0")
  case True
  then show ?thesis by (simp add: rect_geom_writes_def)
next
  case False
  define T where "T = (let edge = (ucast (g_t g) :: 64 word) * 2;
            edge = (if edge > ucast (g_h g) then ucast (g_h g) else edge) in
        edge * ucast (g_w g) + (ucast (g_h g) - edge) * ucast (g_t g) * 2)"
  have T: "unat T = outline_count (unat (g_w g)) (unat (g_h g)) (unat (g_t g))"
    unfolding T_def Let_def using False by (intro writes_total) (simp add: unat_eq_0)
  have "rect_geom_writes g = (if T > 0xFFFFFFFF then 0xFFFFFFFF else ucast T)"
    using False by (simp add: rect_geom_writes_def T_def Let_def)
  moreover have "T \<le> 0xFFFFFFFF \<Longrightarrow> unat (ucast T :: u32) = unat T"
    by (simp add: word_le_nat_alt unsigned_ucast_eq take_bit_nat_eq_self)
  ultimately show ?thesis using False T by (auto simp: word_less_nat_alt not_less word_le_nat_alt min_def)
qed

section \<open>What the clip returns\<close>

lemma uint_u16: "0 \<le> uint (n :: u16)" "uint (n :: u16) < 65536"
  using uint_lt2p [of n] by auto

text \<open>The rectangle is the intersection of the request and the surface, and the stroke fits both
  extents (at most half of each, rounded up).\<close>

lemma rect_geom_norm_Some:
  assumes "rect_geom_norm fw fh x0 y0 x1 y1 s = Some g"
  shows "uint (g_x0 g) = max 0 x0" "uint (g_y0 g) = max 0 y0"
    "uint (g_x0 g) + uint (g_w g) = min (uint fw) x1" "uint (g_y0 g) + uint (g_h g) = min (uint fh) y1"
    "0 < uint (g_w g)" "0 < uint (g_h g)"
    "uint (g_t g) = max 1 (clamp_stroke (uint (g_h g)) (clamp_stroke (uint (g_w g)) (uint s)))"
proof -
  define a b c d where abcd: "a = clip_lo x0" "b = clip_lo y0" "c = clip_hi fw x1" "d = clip_hi fh y1"
  define t where "t = clamp_stroke (d - b) (clamp_stroke (c - a) (uint s))"
  have lt: "a < c" "b < d" and
    g: "g = \<lparr>g_x0 = word_of_int a, g_y0 = word_of_int b, g_w = word_of_int (c - a),
      g_h = word_of_int (d - b), g_t = word_of_int (if t \<le> 0 then 1 else t)\<rparr>"
    using assms by (auto simp: rect_geom_norm_def Let_def abcd t_def split: if_splits)
  have r: "0 \<le> a" "0 \<le> b" "c \<le> uint fw" "d \<le> uint fh" "c < 65536" "d < 65536"
    using uint_u16 [of fw] uint_u16 [of fh] by (auto simp: abcd clip_lo_def clip_hi_def)
  have tb: "t \<le> 65536"
    using r lt by (auto simp: t_def clamp_stroke_def)
  have u: "uint (word_of_int v :: u32) = v" if "0 \<le> v" "v \<le> 65536" for v
    using that by (simp add: uint_word_of_int)
  have uc: "uint (g_x0 g) = a" "uint (g_y0 g) = b" "uint (g_w g) = c - a" "uint (g_h g) = d - b"
      "uint (g_t g) = max 1 t"
    using r lt tb u [of a] u [of b] u [of "c - a"] u [of "d - b"] u [of t]
    by (simp_all add: g max_def del: wi_hom_syms)
  show "uint (g_x0 g) = max 0 x0" "uint (g_y0 g) = max 0 y0"
    "uint (g_x0 g) + uint (g_w g) = min (uint fw) x1" "uint (g_y0 g) + uint (g_h g) = min (uint fh) y1"
    "0 < uint (g_w g)" "0 < uint (g_h g)"
    using lt unfolding uc by (auto simp: abcd clip_lo_def clip_hi_def)
  show "uint (g_t g) = max 1 (clamp_stroke (uint (g_h g)) (clamp_stroke (uint (g_w g)) (uint s)))"
    unfolding uc t_def ..
qed

lemma rect_geom_norm_stroke:
  assumes "rect_geom_norm fw fh x0 y0 x1 y1 s = Some g"
  shows "0 < uint (g_t g)" "2 * uint (g_t g) \<le> uint (g_w g) + 1" "2 * uint (g_t g) \<le> uint (g_h g) + 1"
  using rect_geom_norm_Some(5-7) [OF assms] by (auto simp: clamp_stroke_def max_def)

lemma rect_geom_norm_None:
  "rect_geom_norm fw fh x0 y0 x1 y1 s = None \<longleftrightarrow>
    s = 0 \<or> min (uint fw) x1 \<le> max 0 x0 \<or> min (uint fh) y1 \<le> max 0 y0"
proof -
  have "uint s \<le> 0 \<longleftrightarrow> s = 0" using uint_u16 [of s] by (auto simp: uint_0_iff intro: order.antisym)
  then show ?thesis
    using uint_u16 [of fw] uint_u16 [of fh]
    by (auto simp: rect_geom_norm_def Let_def clip_lo_def clip_hi_def)
qed

text \<open>C5. For every geometry, also one no clip produced, the charge is the exact number of stores,
  saturated at \<open>UINT32_MAX\<close>: none of the \<open>uint64_t\<close> sums wraps, so a huge outline is never
  charged a small number.
\<close>

theorem rect_geom_writes_exact:
  "unat (rect_geom_writes g) =
    (if g_w g = 0 \<or> g_h g = 0 \<or> g_t g = 0 then 0
     else min (outline_count (unat (g_w g)) (unat (g_h g)) (unat (g_t g))) 4294967295)"
  by (rule unat_rect_geom_writes)

end
