(* ===== verification/PluginPaint.thy ===== *)
theory PluginPaint
  imports RectGeom
begin

text \<open>
  What a plugin's painter decides before its first store, shared by the boards
  (\<open>svc/plugin/plugin_paint_budget.c\<close>, \<open>svc/plugin/plugin_paint_span.c\<close>), the loop shapes of the
  boards' painters and what such a loop does to a picture.  A coordinate is an \<open>int\<close> with the
  range of an \<open>int32_t\<close>; the differences the code widens to \<open>int64_t\<close> are exact here.
\<close>

section \<open>The budget\<close>

record plugin_paint_budget =
  pb_pixels :: u32
  pb_ops :: u32
  pb_refused :: u32

definition PLUGIN_PAINT_OP_COST :: u32 where "PLUGIN_PAINT_OP_COST = 1"

text \<open>\<open>None\<close> is the \<open>NULL\<close> budget.\<close>

definition plugin_paint_charge ::
    "plugin_paint_budget option \<Rightarrow> u32 \<Rightarrow> bool \<times> plugin_paint_budget option" where
  "plugin_paint_charge b pixels =
    (case b of None \<Rightarrow> (False, None)
     | Some b \<Rightarrow>
         if pb_ops b < PLUGIN_PAINT_OP_COST \<or> pixels > pb_pixels b
         then (False, Some (b\<lparr>pb_refused := pb_refused b + 1\<rparr>))
         else (True, Some (b\<lparr>pb_ops := pb_ops b - PLUGIN_PAINT_OP_COST,
                             pb_pixels := pb_pixels b - pixels\<rparr>)))"

section \<open>Clip, source offset and charge\<close>

record plugin_rect =
  r_x0 :: int
  r_y0 :: int
  r_x1 :: int
  r_y1 :: int

record plugin_paint_box =
  bx_x0 :: int
  bx_y0 :: int
  bx_x1 :: int
  bx_y1 :: int

record plugin_paint_blit_span =
  sp_x0 :: int
  sp_y0 :: int
  sp_cols :: u32
  sp_rows :: u32
  sp_sx0 :: u32
  sp_sy0 :: u32

text \<open>\<open>Some\<close> box is the nonzero result; a caller reads the box only then.\<close>

definition plugin_paint_clip :: "u16 \<Rightarrow> u16 \<Rightarrow> plugin_rect option \<Rightarrow> plugin_paint_box option" where
  "plugin_paint_clip w h r =
    (case r of None \<Rightarrow> None
     | Some r \<Rightarrow>
        (let b = \<lparr>bx_x0 = (if r_x0 r < 0 then 0 else r_x0 r), bx_y0 = (if r_y0 r < 0 then 0 else r_y0 r),
                  bx_x1 = (if r_x1 r > uint w then uint w else r_x1 r),
                  bx_y1 = (if r_y1 r > uint h then uint h else r_y1 r)\<rparr>
         in if bx_x1 b > bx_x0 b \<and> bx_y1 b > bx_y0 b then Some b else None))"

definition plugin_paint_rect_begin ::
    "plugin_paint_budget option \<Rightarrow> u16 \<Rightarrow> u16 \<Rightarrow> plugin_rect option \<Rightarrow> u16 \<Rightarrow>
     rect_geom option \<times> plugin_paint_budget option" where
  "plugin_paint_rect_begin bud w h r stroke =
    (case r of None \<Rightarrow> (None, snd (plugin_paint_charge bud 0))
     | Some r \<Rightarrow>
        (case rect_geom_norm w h (r_x0 r) (r_y0 r) (r_x1 r) (r_y1 r) stroke of
           None \<Rightarrow> (None, snd (plugin_paint_charge bud 0))
         | Some g \<Rightarrow>
             (let (ok, bud') = plugin_paint_charge bud (rect_geom_writes g)
              in (if ok then Some g else None, bud'))))"

definition plugin_paint_fill_begin ::
    "plugin_paint_budget option \<Rightarrow> u16 \<Rightarrow> u16 \<Rightarrow> plugin_rect option \<Rightarrow>
     plugin_paint_box option \<times> plugin_paint_budget option" where
  "plugin_paint_fill_begin bud w h r =
    (case plugin_paint_clip w h r of
       None \<Rightarrow> (None, snd (plugin_paint_charge bud 0))
     | Some b \<Rightarrow>
         (let (ok, bud') = plugin_paint_charge bud
                (word_of_int (bx_x1 b - bx_x0 b) * word_of_int (bx_y1 b - bx_y0 b))
          in (if ok then Some b else None, bud')))"

definition plugin_paint_blit_begin ::
    "plugin_paint_budget option \<Rightarrow> u16 \<Rightarrow> u16 \<Rightarrow> plugin_rect \<Rightarrow> u32 \<Rightarrow>
     plugin_paint_blit_span option \<times> plugin_paint_budget option" where
  "plugin_paint_blit_begin bud w h r src_stride =
    (if src_stride = 0 then (None, snd (plugin_paint_charge bud 0))
     else case plugin_paint_clip w h (Some r) of
       None \<Rightarrow> (None, snd (plugin_paint_charge bud 0))
     | Some b \<Rightarrow>
         (let s = \<lparr>sp_x0 = bx_x0 b, sp_y0 = bx_y0 b,
                   sp_cols = word_of_int (bx_x1 b - bx_x0 b), sp_rows = word_of_int (bx_y1 b - bx_y0 b),
                   sp_sx0 = word_of_int (bx_x0 b - r_x0 r), sp_sy0 = word_of_int (bx_y0 b - r_y0 r)\<rparr>;
              (ok, bud') = plugin_paint_charge bud (sp_cols s * sp_rows s)
          in (if ok then Some s else None, bud')))"

section \<open>Counted loops and stores\<close>

text \<open>\<open>for (i = a; i < b; i++)\<close> over a state, failing when the body fails.\<close>

function for_range :: "int \<Rightarrow> int \<Rightarrow> (int \<Rightarrow> 's \<Rightarrow> 's option) \<Rightarrow> 's \<Rightarrow> 's option" where
  "for_range i b f s = (if i < b then f i s \<bind> for_range (i + 1) b f else Some s)"
  by pat_completeness auto
termination by (relation "measure (\<lambda>(i, b, _). nat (b - i))") auto

declare for_range.simps [simp del]

lemma for_range_cong:
  "(\<And>i s. a \<le> i \<Longrightarrow> i < b \<Longrightarrow> f i s = g i s) \<Longrightarrow> for_range a b f s = for_range a b g s"
proof (induction "nat (b - a)" arbitrary: a s)
  case 0
  then show ?case by (simp add: for_range.simps)
next
  case (Suc n)
  have "for_range (a + 1) b f = for_range (a + 1) b g"
    by (intro ext Suc.hyps(1)) (use Suc.hyps(2) Suc.prems in auto)
  then show ?case using Suc.prems [of a s] by (subst (1 2) for_range.simps) simp
qed

lemma for_range_shift: "for_range k n (\<lambda>i. f (a + i)) s = for_range (a + k) (a + n) f s"
proof (induction "nat (n - k)" arbitrary: k s)
  case 0
  then show ?case by (simp add: for_range.simps)
next
  case (Suc m)
  have "for_range (k + 1) n (\<lambda>i. f (a + i)) = for_range (a + (k + 1)) (a + n) f"
    by (intro ext Suc.hyps(1)) (use Suc.hyps(2) in simp)
  then show ?case by (subst (1 2) for_range.simps) (simp add: add.assoc)
qed

text \<open>A surface in memory: the pixels and the number of stores so far (the counter the
  \<open>PAINT_PUT\<close> seam maintains).  A store outside the buffer is \<open>None\<close>.\<close>

type_synonym cells = "u16 list \<times> nat"

definition PAINT_PUT :: "nat \<Rightarrow> u16 \<Rightarrow> cells \<Rightarrow> cells option" where
  "PAINT_PUT p v m = do { fb \<leftarrow> st (fst m) p v; Some (fb, snd m + 1) }"

text \<open>The row-major outline loop, over a board's address function.\<close>

definition outline_loop :: "(int \<Rightarrow> int \<Rightarrow> nat) \<Rightarrow> rect_geom \<Rightarrow> u16 \<Rightarrow> cells \<Rightarrow> cells option" where
  "outline_loop addr g v =
    for_range (uint (g_y0 g)) (uint (g_y0 g + g_h g)) (\<lambda>y m.
      (let edge = y < uint (g_y0 g + g_t g) \<or> y \<ge> uint (g_y0 g + g_h g - g_t g) in
       if edge then for_range (uint (g_x0 g)) (uint (g_x0 g + g_w g)) (\<lambda>x. PAINT_PUT (addr x y) v) m
       else for_range (uint (g_x0 g)) (uint (g_x0 g + g_t g)) (\<lambda>x. PAINT_PUT (addr x y) v) m \<bind>
            for_range (uint (g_x0 g + g_w g - g_t g)) (uint (g_x0 g + g_w g)) (\<lambda>x. PAINT_PUT (addr x y) v)))"

section \<open>What a loop does to a picture\<close>

definition overlay ::
    "(int \<Rightarrow> int \<Rightarrow> bool) \<Rightarrow> (int \<Rightarrow> int \<Rightarrow> u16) \<Rightarrow> (int \<Rightarrow> int \<Rightarrow> u16 option) \<Rightarrow> int \<Rightarrow> int \<Rightarrow> u16 option" where
  "overlay R v pic x y = map_option (\<lambda>p. if R x y then v x y else p) (pic x y)"

definition on_outline :: "rect_geom \<Rightarrow> int \<Rightarrow> int \<Rightarrow> bool" where
  "on_outline g x y \<longleftrightarrow>
    uint (g_x0 g) \<le> x \<and> x < uint (g_x0 g) + uint (g_w g) \<and> uint (g_y0 g) \<le> y \<and> y < uint (g_y0 g) + uint (g_h g) \<and>
    (y < uint (g_y0 g) + uint (g_t g) \<or> uint (g_y0 g) + uint (g_h g) - uint (g_t g) \<le> y \<or>
     x < uint (g_x0 g) + uint (g_t g) \<or> uint (g_x0 g) + uint (g_w g) - uint (g_t g) \<le> x)"

text \<open>A blit leaves out the pixels of the colour key.\<close>

definition keyed :: "int \<Rightarrow> u16 \<Rightarrow> bool" where
  "keyed key px \<longleftrightarrow> key \<ge> 0 \<and> px = word_of_int key"

lemma sum_shift_int: "(\<Sum>i \<in> {0..<n}. f (a + i)) = (\<Sum>x \<in> {a..<a + n :: int}. f x)"
  by (rule sum.reindex_bij_witness [of _ "\<lambda>x. x - a" "\<lambda>i. a + i"]) auto

text \<open>Row by row, an outline makes the number of stores the budget is charged.\<close>

lemma outline_rows:
  fixes t h w y0 :: int
  assumes "0 < t" "2 * t \<le> h + 1" "0 < w" "0 < h"
  shows "(\<Sum>y \<in> {y0..<y0 + h}. nat (if y < y0 + t \<or> y0 + h - t \<le> y then w else 2 * t)) =
    outline_count (nat w) (nat h) (nat t)"
proof (cases "2 * t \<le> h")
  case True
  let ?k = "\<lambda>y. nat (if y < y0 + t \<or> y0 + h - t \<le> y then w else 2 * t)"
  have s: "{y0..<y0 + h} = ({y0..<y0 + t} \<union> {y0 + h - t..<y0 + h}) \<union> {y0 + t..<y0 + h - t}"
    using assms True by auto
  have "sum ?k {y0..<y0 + h} = (sum ?k {y0..<y0 + t} + sum ?k {y0 + h - t..<y0 + h}) + sum ?k {y0 + t..<y0 + h - t}"
    unfolding s using True by (subst sum.union_disjoint; (subst sum.union_disjoint)?) auto
  moreover have "sum ?k {y0..<y0 + t} = nat t * nat w" by simp
  moreover have "sum ?k {y0 + h - t..<y0 + h} = nat t * nat w" by simp
  moreover have "sum ?k {y0 + t..<y0 + h - t} = nat (h - 2 * t) * nat (2 * t)"
    by (subst sum.cong [of _ _ _ "\<lambda>_. nat (2 * t)"]) auto
  moreover obtain k where "nat h = 2 * nat t + k" "nat (h - 2 * t) = k" "nat (2 * t) = 2 * nat t"
  proof
    show "nat h = 2 * nat t + nat (h - 2 * t)" "nat (2 * t) = 2 * nat t" using True assms(1) by linarith+
  qed simp
  ultimately show ?thesis by (simp add: outline_count_def min_def algebra_simps)
next
  case False
  then have "2 * t = h + 1" using assms by simp
  then have "(\<Sum>y \<in> {y0..<y0 + h}. nat (if y < y0 + t \<or> y0 + h - t \<le> y then w else 2 * t)) = nat h * nat w"
    by (subst sum.cong [of _ _ _ "\<lambda>_. nat w"]) auto
  then show ?thesis using False assms by (simp add: outline_count_def min_def)
qed

text \<open>
  The contract a board's address function keeps: every pixel of the \<open>W\<close> by \<open>H\<close> surface has its
  own cell of the buffer.  \<open>drew k R v\<close> says a step made \<open>k\<close> stores, gave the pixels of the region
  \<open>R\<close> the values \<open>v\<close> and left every other pixel as it was.
\<close>

locale canvas =
  fixes idx :: "int \<Rightarrow> int \<Rightarrow> nat" and W :: int and H :: int and cap :: nat
  assumes idx_in: "0 \<le> x \<Longrightarrow> x < W \<Longrightarrow> 0 \<le> y \<Longrightarrow> y < H \<Longrightarrow> idx x y < cap"
    and idx_inj: "0 \<le> x \<Longrightarrow> x < W \<Longrightarrow> 0 \<le> y \<Longrightarrow> y < H \<Longrightarrow> 0 \<le> x' \<Longrightarrow> x' < W \<Longrightarrow> 0 \<le> y' \<Longrightarrow> y' < H \<Longrightarrow>
      idx x y = idx x' y' \<Longrightarrow> x = x' \<and> y = y'"
begin

definition drew :: "nat \<Rightarrow> (int \<Rightarrow> int \<Rightarrow> bool) \<Rightarrow> (int \<Rightarrow> int \<Rightarrow> u16) \<Rightarrow> cells \<Rightarrow> cells \<Rightarrow> bool" where
  "drew k R v m m' \<longleftrightarrow> length (fst m) = cap \<and> length (fst m') = cap \<and> snd m' = snd m + k \<and>
    (\<forall>x y. 0 \<le> x \<and> x < W \<and> 0 \<le> y \<and> y < H \<longrightarrow>
      fst m' ! idx x y = (if R x y then v x y else fst m ! idx x y))"

lemma drew_nothing: "length (fst m) = cap \<Longrightarrow> (\<And>x y. \<not> R x y) \<Longrightarrow> drew 0 R v m m"
  by (simp add: drew_def)

lemma drew_len: "drew k R v m m' \<Longrightarrow> length (fst m') = cap" by (simp add: drew_def)

lemma drew_put:
  assumes "0 \<le> x" "x < W" "0 \<le> y" "y < H" "length (fst m) = cap" "v x y = c"
  shows "\<exists>m'. PAINT_PUT (idx x y) c m = Some m' \<and> drew 1 (\<lambda>X Y. X = x \<and> Y = y) v m m'"
proof -
  have i: "idx x y < length (fst m)" using assms idx_in by simp
  have n: "(fst m)[idx x y := c] ! idx X Y = (if X = x \<and> Y = y then v X Y else fst m ! idx X Y)"
    if "0 \<le> X" "X < W" "0 \<le> Y" "Y < H" for X Y
    using idx_inj [OF assms(1-4) that] i assms(6) by (auto simp: nth_list_update)
  show ?thesis using i n assms(5) by (simp add: PAINT_PUT_def mem_simps drew_def)
qed

lemma drew_trans:
  assumes "drew k R v m m'" "drew k' R' v m' m''"
  shows "drew (k + k') (\<lambda>x y. R x y \<or> R' x y) v m m''"
  using assms by (auto simp: drew_def)

lemma drew_cong:
  assumes "drew k R v m m'" "k = k'"
    "\<And>x y. 0 \<le> x \<Longrightarrow> x < W \<Longrightarrow> 0 \<le> y \<Longrightarrow> y < H \<Longrightarrow> R x y = R' x y"
  shows "drew k' R' v m m'"
  using assms by (auto simp: drew_def)

text \<open>A loop whose body draws; \<open>emb\<close> places the surface in the loop's state, beside the
  pointers that step with the index.\<close>

lemma drew_loop:
  assumes "a \<le> b" "length (fst m) = cap"
    and step: "\<And>i m. a \<le> i \<Longrightarrow> i < b \<Longrightarrow> length (fst m) = cap \<Longrightarrow>
      \<exists>m'. f i (emb i m) = Some (emb (i + 1) m') \<and> drew (k i) (R i) v m m'"
  shows "\<exists>m'. for_range a b f (emb a m) = Some (emb b m') \<and>
    drew (\<Sum>i \<in> {a..<b}. k i) (\<lambda>x y. \<exists>i. a \<le> i \<and> i < b \<and> R i x y) v m m'"
  using assms
proof (induction "nat (b - a)" arbitrary: a m)
  case 0
  then have "a = b" by simp
  moreover have "drew 0 (\<lambda>x y. \<exists>i. a \<le> i \<and> i < a \<and> R i x y) v m m"
    using 0 by (intro drew_nothing) auto
  ultimately show ?case by (intro exI [of _ m]) (simp add: for_range.simps)
next
  case (Suc n)
  then have ab: "a < b" by simp
  obtain m1 where m1: "f a (emb a m) = Some (emb (a + 1) m1)" "drew (k a) (R a) v m m1"
    using Suc.prems(3) [of a m] ab Suc.prems(2) by auto
  obtain m2 where m2: "for_range (a + 1) b f (emb (a + 1) m1) = Some (emb b m2)"
      "drew (\<Sum>i \<in> {a + 1..<b}. k i) (\<lambda>x y. \<exists>i. a + 1 \<le> i \<and> i < b \<and> R i x y) v m1 m2"
  proof -
    note h = that
    have n: "n = nat (b - (a + 1))" and le: "a + 1 \<le> b" using Suc.hyps(2) ab by auto
    have "\<exists>m'. for_range (a + 1) b f (emb (a + 1) m1) = Some (emb b m') \<and>
        drew (\<Sum>i \<in> {a + 1..<b}. k i) (\<lambda>x y. \<exists>i. a + 1 \<le> i \<and> i < b \<and> R i x y) v m1 m'"
      by (rule Suc.hyps(1) [OF n le drew_len [OF m1(2)]]) (use Suc.prems(3) in simp)
    then show thesis using h by blast
  qed
  have "{a..<b} = insert a {a + 1..<b}" using ab by auto
  then have "k a + (\<Sum>i \<in> {a + 1..<b}. k i) = (\<Sum>i \<in> {a..<b}. k i)" by simp
  moreover have "(R a x y \<or> (\<exists>i. a + 1 \<le> i \<and> i < b \<and> R i x y)) = (\<exists>i. a \<le> i \<and> i < b \<and> R i x y)" for x y
  proof -
    have "a \<le> i \<longleftrightarrow> i = a \<or> a + 1 \<le> i" for i using ab by linarith
    then show ?thesis using ab by metis
  qed
  ultimately have "drew (\<Sum>i \<in> {a..<b}. k i) (\<lambda>x y. \<exists>i. a \<le> i \<and> i < b \<and> R i x y) v m m2"
    using drew_trans [OF m1(2) m2(2)] by (auto elim!: drew_cong)
  then show ?case using m1(1) m2(1) ab by (intro exI [of _ m2] conjI) (subst for_range.simps, simp)
qed

text \<open>One run of a row.\<close>

lemma drew_row:
  assumes "0 \<le> y" "y < H" "0 \<le> a" "a \<le> b" "b \<le> W" "length (fst m) = cap"
  shows "\<exists>m'. for_range a b (\<lambda>x. PAINT_PUT (idx x y) c) m = Some m' \<and>
    drew (nat (b - a)) (\<lambda>X Y. Y = y \<and> a \<le> X \<and> X < b) (\<lambda>_ _. c) m m'"
proof -
  obtain m' where "for_range a b (\<lambda>x. PAINT_PUT (idx x y) c) m = Some m'"
      "drew (\<Sum>i \<in> {a..<b}. 1) (\<lambda>X Y. \<exists>i. a \<le> i \<and> i < b \<and> X = i \<and> Y = y) (\<lambda>_ _. c) m m'"
    using drew_loop [of a b m "\<lambda>x. PAINT_PUT (idx x y) c" "\<lambda>_ m. m" "\<lambda>_. 1" "\<lambda>i X Y. X = i \<and> Y = y" "\<lambda>_ _. c"]
      assms drew_put [of _ y _ "\<lambda>_ _. c" c] by auto
  then show ?thesis by (auto elim!: drew_cong)
qed

text \<open>One pixel of a colour-keyed blit.\<close>

lemma drew_keyed:
  assumes "0 \<le> x" "x < W" "0 \<le> y" "y < H" "length (fst m) = cap" "v x y = c"
  shows "\<exists>m'. (if q then Some m else PAINT_PUT (idx x y) c m) = Some m' \<and>
    drew (if q then 0 else 1) (\<lambda>X Y. X = x \<and> Y = y \<and> \<not> q) v m m'"
proof (cases q)
  case True
  then show ?thesis using drew_nothing [OF assms(5), of "\<lambda>_ _. False" v] by (intro exI [of _ m]) simp
next
  case False
  then show ?thesis using drew_put [where v = v and c = c, OF assms] by simp
qed

text \<open>A run of stores through a stepping pointer.\<close>

lemma drew_run:
  assumes "a \<le> b" "length (fst m) = cap"
    and path: "\<And>i. a \<le> i \<Longrightarrow> i < b \<Longrightarrow>
      0 \<le> px i \<and> px i < W \<and> 0 \<le> py i \<and> py i < H \<and> D + nat (i - a) = idx (px i) (py i)"
  shows "\<exists>m'. map_option fst (for_range a b (\<lambda>_ (m, d). do { m \<leftarrow> PAINT_PUT d c m; Some (m, d + 1) }) (m, D)) = Some m' \<and>
    drew (nat (b - a)) (\<lambda>X Y. \<exists>i. a \<le> i \<and> i < b \<and> X = px i \<and> Y = py i) (\<lambda>_ _. c) m m'"
proof -
  let ?f = "\<lambda>_::int. \<lambda>(m, d). do { m \<leftarrow> PAINT_PUT d c m; Some (m, d + 1) }"
  have "\<exists>m'. for_range a b ?f ((\<lambda>i m. (m, D + nat (i - a))) a m) = Some ((\<lambda>i m. (m, D + nat (i - a))) b m') \<and>
      drew (\<Sum>i \<in> {a..<b}. 1) (\<lambda>X Y. \<exists>i. a \<le> i \<and> i < b \<and> X = px i \<and> Y = py i) (\<lambda>_ _. c) m m'"
  proof (rule drew_loop [OF assms(1,2)])
    fix i m assume i: "a \<le> i" "i < b" and m: "length (fst (m :: cells)) = cap"
    have e: "D + nat (i + 1 - a) = D + nat (i - a) + 1" using i by simp
    show "\<exists>m'. ?f i (m, D + nat (i - a)) = Some (m', D + nat (i + 1 - a)) \<and>
        drew 1 (\<lambda>X Y. X = px i \<and> Y = py i) (\<lambda>_ _. c) m m'"
      using drew_put [of "px i" "py i" m "\<lambda>_ _. c" c] path [OF i] m by (auto simp: e)
  qed
  then show ?thesis by auto
qed

text \<open>Columns and rows of a box, when each draws its own line.\<close>

lemma drew_cols:
  assumes "a \<le> b" "length (fst m) = cap"
    and "\<And>x m. a \<le> x \<Longrightarrow> x < b \<Longrightarrow> length (fst m) = cap \<Longrightarrow>
      \<exists>m'. f x m = Some m' \<and> drew (k x) (\<lambda>X Y. X = x \<and> Q X Y) v m m'"
  shows "\<exists>m'. for_range a b f m = Some m' \<and> drew (\<Sum>x \<in> {a..<b}. k x) (\<lambda>X Y. a \<le> X \<and> X < b \<and> Q X Y) v m m'"
proof -
  obtain m' where "for_range a b f m = Some m'"
      "drew (\<Sum>x \<in> {a..<b}. k x) (\<lambda>X Y. \<exists>x. a \<le> x \<and> x < b \<and> X = x \<and> Q X Y) v m m'"
    using drew_loop [of a b m f "\<lambda>_ m. m" k "\<lambda>x X Y. X = x \<and> Q X Y" v] assms by auto
  then show ?thesis by (auto elim!: drew_cong)
qed

lemma drew_rows:
  assumes "a \<le> b" "length (fst m) = cap"
    and "\<And>y m. a \<le> y \<Longrightarrow> y < b \<Longrightarrow> length (fst m) = cap \<Longrightarrow>
      \<exists>m'. f y m = Some m' \<and> drew (k y) (\<lambda>X Y. Y = y \<and> Q X Y) v m m'"
  shows "\<exists>m'. for_range a b f m = Some m' \<and> drew (\<Sum>y \<in> {a..<b}. k y) (\<lambda>X Y. a \<le> Y \<and> Y < b \<and> Q X Y) v m m'"
proof -
  obtain m' where "for_range a b f m = Some m'"
      "drew (\<Sum>y \<in> {a..<b}. k y) (\<lambda>X Y. \<exists>y. a \<le> y \<and> y < b \<and> Y = y \<and> Q X Y) v m m'"
    using drew_loop [of a b m f "\<lambda>_ m. m" k "\<lambda>y X Y. Y = y \<and> Q X Y" v] assms by auto
  then show ?thesis by (auto elim!: drew_cong)
qed

text \<open>A line of a colour-keyed blit: by index along a row, and by stepping pointers down a column.\<close>

lemma drew_blit_row:
  assumes "0 \<le> n" "length (fst m) = cap"
    and px: "\<And>i. 0 \<le> i \<Longrightarrow> i < n \<Longrightarrow> S + nat i < length src \<and> D + nat i = idx (X0 + i) y \<and>
      0 \<le> X0 + i \<and> X0 + i < W \<and> 0 \<le> y \<and> y < H \<and> v (X0 + i) y = g (src ! (S + nat i)) \<and>
      q (X0 + i) y = keyed key (src ! (S + nat i))"
  shows "\<exists>m'. for_range 0 n (\<lambda>x m. do {
            px \<leftarrow> ld src (S + nat x);
            if key \<ge> 0 \<and> px = word_of_int key then Some m else PAINT_PUT (D + nat x) (g px) m }) m = Some m' \<and>
    drew (\<Sum>x \<in> {X0..<X0 + n}. if q x y then 0 else 1)
      (\<lambda>X Y. Y = y \<and> X0 \<le> X \<and> X < X0 + n \<and> \<not> q X Y) v m m'"
proof -
  let ?f = "\<lambda>x m. do { px \<leftarrow> ld src (S + nat x);
    if key \<ge> 0 \<and> px = word_of_int key then Some m else PAINT_PUT (D + nat x) (g px) m }"
  have "\<exists>m'. ?f i m = Some m' \<and> drew (if q (X0 + i) y then 0 else 1) (\<lambda>X Y. X = X0 + i \<and> Y = y \<and> \<not> q X Y) v m m'"
    if i: "0 \<le> i" "i < n" and m: "length (fst m) = cap" for i and m :: cells
    using px [OF i] m drew_keyed [of "X0 + i" y m v "g (src ! (S + nat i))" "q (X0 + i) y"]
    by (simp add: ld_in keyed_def [symmetric] del: split_paired_Ex cong: conj_cong)
      (auto elim!: drew_cong simp del: split_paired_Ex)
  then obtain m' where m': "for_range 0 n ?f m = Some m'"
      "drew (\<Sum>i \<in> {0..<n}. if q (X0 + i) y then 0 else 1) (\<lambda>X Y. \<exists>i. 0 \<le> i \<and> i < n \<and> X = X0 + i \<and> Y = y \<and> \<not> q X Y) v m m'"
    using drew_loop [of 0 n m ?f "\<lambda>_ m. m" "\<lambda>i. if q (X0 + i) y then 0 else 1" "\<lambda>i X Y. X = X0 + i \<and> Y = y \<and> \<not> q X Y" v]
      assms(1,2) by auto
  have "drew (\<Sum>x \<in> {X0..<X0 + n}. if q x y then 0 else 1) (\<lambda>X Y. Y = y \<and> X0 \<le> X \<and> X < X0 + n \<and> \<not> q X Y) v m m'"
  proof (rule drew_cong [OF m'(2)])
    show "(\<Sum>i \<in> {0..<n}. if q (X0 + i) y then 0 else 1) = (\<Sum>x \<in> {X0..<X0 + n}. if q x y then 0 else (1::nat))"
      by (rule sum_shift_int)
    show "(\<exists>i. 0 \<le> i \<and> i < n \<and> X = X0 + i \<and> Y = y \<and> \<not> q X Y) = (Y = y \<and> X0 \<le> X \<and> X < X0 + n \<and> \<not> q X Y)" for X Y
      by (auto intro!: exI [of _ "X - X0"])
  qed
  with m'(1) show ?thesis by blast
qed

lemma drew_blit_col:
  assumes "0 \<le> n" "length (fst m) = cap"
    and px: "\<And>i. 0 \<le> i \<Longrightarrow> i < n \<Longrightarrow> S + k * nat i < length src \<and> D + nat i = idx x (Y0 + i) \<and>
      0 \<le> x \<and> x < W \<and> 0 \<le> Y0 + i \<and> Y0 + i < H \<and> v x (Y0 + i) = src ! (S + k * nat i) \<and>
      q x (Y0 + i) = keyed key (src ! (S + k * nat i))"
  shows "\<exists>m'. map_option fst (for_range 0 n (\<lambda>_ (m, s, d). do {
            px \<leftarrow> ld src s;
            let s = s + k in
            if key \<ge> 0 \<and> px = word_of_int key then Some (m, s, d + 1)
            else do { m \<leftarrow> PAINT_PUT d px m; Some (m, s, d + 1) } }) (m, S, D)) = Some m' \<and>
    drew (\<Sum>y \<in> {Y0..<Y0 + n}. if q x y then 0 else 1)
      (\<lambda>X Y. X = x \<and> Y0 \<le> Y \<and> Y < Y0 + n \<and> \<not> q X Y) v m m'"
proof -
  let ?f = "\<lambda>_::int. \<lambda>(m, s, d). do { px \<leftarrow> ld src s; let s = s + k in
    if key \<ge> 0 \<and> px = word_of_int key then Some (m, s, d + 1)
    else do { m \<leftarrow> PAINT_PUT d px m; Some (m, s, d + 1) } }"
  let ?emb = "\<lambda>i (m :: cells). (m, S + k * nat i, D + nat i)"
  have step: "\<exists>m'. ?f i (?emb i m) = Some (?emb (i + 1) m') \<and>
      drew (if q x (Y0 + i) then 0 else 1) (\<lambda>X Y. X = x \<and> Y = Y0 + i \<and> \<not> q X Y) v m m'"
    if i: "0 \<le> i" "i < n" and m: "length (fst m) = cap" for i and m :: cells
  proof -
    have e: "nat (i + 1) = nat i + 1" using i by simp
    obtain m' where m': "(if q x (Y0 + i) then Some m else PAINT_PUT (idx x (Y0 + i)) (src ! (S + k * nat i)) m) = Some m'"
        "drew (if q x (Y0 + i) then 0 else 1) (\<lambda>X Y. X = x \<and> Y = Y0 + i \<and> \<not> q x (Y0 + i)) v m m'"
      using drew_keyed [of x "Y0 + i" m v "src ! (S + k * nat i)" "q x (Y0 + i)"] px [OF i] m by blast
    have "?f i (?emb i m) = Some (?emb (i + 1) m')"
      using px [OF i] m'(1) by (auto simp: ld_in e keyed_def split: if_splits)
    moreover have "drew (if q x (Y0 + i) then 0 else 1) (\<lambda>X Y. X = x \<and> Y = Y0 + i \<and> \<not> q X Y) v m m'"
      by (rule drew_cong [OF m'(2)]) auto
    ultimately show ?thesis by blast
  qed
  obtain m' where m': "for_range 0 n ?f (m, S, D) = Some (?emb n m')"
      "drew (\<Sum>i \<in> {0..<n}. if q x (Y0 + i) then 0 else 1) (\<lambda>X Y. \<exists>i. 0 \<le> i \<and> i < n \<and> X = x \<and> Y = Y0 + i \<and> \<not> q X Y) v m m'"
    using drew_loop [of 0 n m ?f ?emb "\<lambda>i. if q x (Y0 + i) then 0 else 1" "\<lambda>i X Y. X = x \<and> Y = Y0 + i \<and> \<not> q X Y" v]
      assms(1,2) step by auto
  have "drew (\<Sum>y \<in> {Y0..<Y0 + n}. if q x y then 0 else 1) (\<lambda>X Y. X = x \<and> Y0 \<le> Y \<and> Y < Y0 + n \<and> \<not> q X Y) v m m'"
  proof (rule drew_cong [OF m'(2)])
    show "(\<Sum>i \<in> {0..<n}. if q x (Y0 + i) then 0 else 1) = (\<Sum>y \<in> {Y0..<Y0 + n}. if q x y then 0 else (1::nat))"
      by (rule sum_shift_int)
    show "(\<exists>i. 0 \<le> i \<and> i < n \<and> X = x \<and> Y = Y0 + i \<and> \<not> q X Y) = (X = x \<and> Y0 \<le> Y \<and> Y < Y0 + n \<and> \<not> q X Y)" for X Y
      by (auto intro!: exI [of _ "Y - Y0"])
  qed
  with m'(1) show ?thesis by simp
qed

text \<open>The outline.\<close>

lemma drew_outline:
  assumes g: "uint (g_x0 g) + uint (g_w g) \<le> W" "uint (g_y0 g) + uint (g_h g) \<le> H"
    "0 < uint (g_t g)" "2 * uint (g_t g) \<le> uint (g_w g) + 1" "2 * uint (g_t g) \<le> uint (g_h g) + 1"
    "W < 65536" "H < 65536" "0 < uint (g_w g)" "0 < uint (g_h g)"
    and "length (fst m) = cap"
  shows "\<exists>m'. outline_loop idx g c m = Some m' \<and>
    drew (outline_count (unat (g_w g)) (unat (g_h g)) (unat (g_t g))) (on_outline g) (\<lambda>_ _. c) m m'"
proof -
  define x0 y0 w h t where d: "x0 = uint (g_x0 g)" "y0 = uint (g_y0 g)" "w = uint (g_w g)"
    "h = uint (g_h g)" "t = uint (g_t g)"
  have r: "0 \<le> x0" "0 \<le> y0" "0 < w" "0 < h" "0 < t" "x0 + w \<le> W" "y0 + h \<le> H"
    "2 * t \<le> w + 1" "2 * t \<le> h + 1"
    using g by (auto simp: d)
  have u: "uint (g_y0 g + g_h g) = y0 + h" "uint (g_y0 g + g_t g) = y0 + t" "uint (g_x0 g + g_w g) = x0 + w"
    "uint (g_x0 g + g_t g) = x0 + t"
    using r g(6,7) by (simp_all add: d uint_word_ariths)
  have u': "uint (g_y0 g + g_h g - g_t g) = y0 + h - t" "uint (g_x0 g + g_w g - g_t g) = x0 + w - t"
    using r g(6,7) u(1,3) by (simp_all add: uint_word_ariths(2) d [symmetric])
  define edge where "edge y \<longleftrightarrow> y < y0 + t \<or> y0 + h - t \<le> y" for y
  define f where "f y m =
      (if edge y then for_range x0 (x0 + w) (\<lambda>x. PAINT_PUT (idx x y) c) m
       else for_range x0 (x0 + t) (\<lambda>x. PAINT_PUT (idx x y) c) m \<bind>
            for_range (x0 + w - t) (x0 + w) (\<lambda>x. PAINT_PUT (idx x y) c))" for y m
  define R where "R y X Y \<longleftrightarrow> Y = y \<and> x0 \<le> X \<and> X < x0 + w \<and> (edge y \<or> X < x0 + t \<or> x0 + w - t \<le> X)" for y X Y
  have step: "\<exists>m'. f y m = Some m' \<and> drew (nat (if edge y then w else 2 * t)) (R y) (\<lambda>_ _. c) m m'"
    if y: "y0 \<le> y" "y < y0 + h" and m: "length (fst m) = cap" for y m
  proof (cases "edge y")
    case True
    obtain m' where m': "for_range x0 (x0 + w) (\<lambda>x. PAINT_PUT (idx x y) c) m = Some m'"
        "drew (nat w) (\<lambda>X Y. Y = y \<and> x0 \<le> X \<and> X < x0 + w) (\<lambda>_ _. c) m m'"
      using drew_row [of y x0 "x0 + w" m c] r y m by auto
    have "drew (nat w) (R y) (\<lambda>_ _. c) m m'"
      by (rule drew_cong [OF m'(2)]) (use True in \<open>auto simp: R_def\<close>)
    with m'(1) True show ?thesis by (auto simp: f_def)
  next
    case False
    obtain m1 where m1: "for_range x0 (x0 + t) (\<lambda>x. PAINT_PUT (idx x y) c) m = Some m1"
        "drew (nat t) (\<lambda>X Y. Y = y \<and> x0 \<le> X \<and> X < x0 + t) (\<lambda>_ _. c) m m1"
      using drew_row [of y x0 "x0 + t" m c] r y m by auto
    obtain m2 where m2: "for_range (x0 + w - t) (x0 + w) (\<lambda>x. PAINT_PUT (idx x y) c) m1 = Some m2"
        "drew (nat t) (\<lambda>X Y. Y = y \<and> x0 + w - t \<le> X \<and> X < x0 + w) (\<lambda>_ _. c) m1 m2"
      using drew_row [of y "x0 + w - t" "x0 + w" m1 c] r y drew_len [OF m1(2)] by auto
    have "drew (nat (2 * t)) (R y) (\<lambda>_ _. c) m m2"
      by (rule drew_cong [OF drew_trans [OF m1(2) m2(2)]]) (use False r in \<open>auto simp: R_def\<close>)
    with m1(1) m2(1) False show ?thesis by (auto simp: f_def)
  qed
  obtain m' where m': "for_range y0 (y0 + h) f m = Some m'"
      "drew (\<Sum>y \<in> {y0..<y0 + h}. nat (if edge y then w else 2 * t))
         (\<lambda>X Y. \<exists>y. y0 \<le> y \<and> y < y0 + h \<and> R y X Y) (\<lambda>_ _. c) m m'"
    using drew_loop [of y0 "y0 + h" m f "\<lambda>_ m. m" "\<lambda>y. nat (if edge y then w else 2 * t)" R "\<lambda>_ _. c"] step assms(10) r
    by auto
  have "outline_loop idx g c m = for_range y0 (y0 + h) f m"
    by (simp add: outline_loop_def u u' f_def [abs_def] edge_def d [symmetric] cong: if_cong)
  moreover have "(\<Sum>y \<in> {y0..<y0 + h}. nat (if edge y then w else 2 * t)) =
      outline_count (unat (g_w g)) (unat (g_h g)) (unat (g_t g))"
    using outline_rows [of t h w y0] r by (simp add: edge_def d)
  moreover have "(\<exists>y. y0 \<le> y \<and> y < y0 + h \<and> R y X Y) = on_outline g X Y" for X Y
    by (auto simp: on_outline_def R_def edge_def d)
  ultimately show ?thesis using m' by (auto elim!: drew_cong)
qed

text \<open>The picture a buffer shows, and what a loop does to it.\<close>

definition picture :: "u16 list \<Rightarrow> int \<Rightarrow> int \<Rightarrow> u16 option" where
  "picture fb x y = (if 0 \<le> x \<and> x < W \<and> 0 \<le> y \<and> y < H then Some (fb ! idx x y) else None)"

lemma drew_picture:
  "drew k R v m m' \<Longrightarrow> picture (fst m') = overlay R v (picture (fst m))"
  by (intro ext) (auto simp: drew_def picture_def overlay_def)

end

section \<open>The abstract painter\<close>

text \<open>The part of a rectangle on a surface, and its area.\<close>

definition visible :: "int \<Rightarrow> int \<Rightarrow> plugin_rect \<Rightarrow> int \<Rightarrow> int \<Rightarrow> bool" where
  "visible W H r x y \<longleftrightarrow>
    max 0 (r_x0 r) \<le> x \<and> x < min W (r_x1 r) \<and> max 0 (r_y0 r) \<le> y \<and> y < min H (r_y1 r)"

definition area :: "int \<Rightarrow> int \<Rightarrow> plugin_rect \<Rightarrow> nat" where
  "area W H r = nat (min W (r_x1 r) - max 0 (r_x0 r)) * nat (min H (r_y1 r) - max 0 (r_y0 r))"

text \<open>A request is what it costs, how many stores it makes and which pixels it covers; the painter
  charges the cost, and draws when the budget pays for it.\<close>

type_synonym shape = "nat \<times> nat \<times> (int \<Rightarrow> int \<Rightarrow> bool)"

text \<open>An outline covers the visible pixels less than a stroke away from an edge of the visible part.
  Its stores are those of a stroke that is at most half of each extent, rounded up.\<close>

definition near_edge :: "int \<Rightarrow> int \<Rightarrow> plugin_rect \<Rightarrow> int \<Rightarrow> int \<Rightarrow> int \<Rightarrow> bool" where
  "near_edge W H r s x y \<longleftrightarrow>
    x - max 0 (r_x0 r) < s \<or> min W (r_x1 r) - x \<le> s \<or> y - max 0 (r_y0 r) < s \<or> min H (r_y1 r) - y \<le> s"

definition outline_shape :: "u16 \<Rightarrow> u16 \<Rightarrow> plugin_rect \<Rightarrow> u16 \<Rightarrow> shape" where
  "outline_shape w h r stroke =
    (let W = uint w; H = uint h;
         cols = nat (min W (r_x1 r) - max 0 (r_x0 r)); rows = nat (min H (r_y1 r) - max 0 (r_y0 r));
         n = outline_count cols rows (min (unat stroke) (min ((cols + 1) div 2) ((rows + 1) div 2))) in
     (n, n, \<lambda>x y. visible W H r x y \<and> near_edge W H r (uint stroke) x y))"

definition fill_shape :: "u16 \<Rightarrow> u16 \<Rightarrow> plugin_rect \<Rightarrow> shape" where
  "fill_shape w h r = (area (uint w) (uint h) r, area (uint w) (uint h) r, visible (uint w) (uint h) r)"

text \<open>Every visible source pixel of a blit is charged; the ones that equal the key are not stored.\<close>

definition src_at :: "u32 \<Rightarrow> plugin_rect \<Rightarrow> int \<Rightarrow> int \<Rightarrow> nat" where
  "src_at stride r x y = nat (y - r_y0 r) * unat stride + nat (x - r_x0 r)"

definition blit_stores :: "int \<Rightarrow> int \<Rightarrow> plugin_rect \<Rightarrow> u16 list \<Rightarrow> u32 \<Rightarrow> int \<Rightarrow> nat" where
  "blit_stores W H r src stride key =
    (\<Sum>x \<in> {max 0 (r_x0 r)..<min W (r_x1 r)}. \<Sum>y \<in> {max 0 (r_y0 r)..<min H (r_y1 r)}.
       if keyed key (src ! src_at stride r x y) then 0 else 1)"

definition blit_shape :: "u16 \<Rightarrow> u16 \<Rightarrow> plugin_rect \<Rightarrow> u16 list \<Rightarrow> u32 \<Rightarrow> int \<Rightarrow> shape" where
  "blit_shape w h r src stride key =
    (if stride = 0 then (0, 0, \<lambda>_ _. False)
     else (area (uint w) (uint h) r, blit_stores (uint w) (uint h) r src stride key,
           \<lambda>x y. visible (uint w) (uint h) r x y \<and> \<not> keyed key (src ! src_at stride r x y)))"

text \<open>The budget pays for a request in exact arithmetic: one operation and its cost in pixels, or it
  counts a refusal.\<close>

definition pay :: "plugin_paint_budget option \<Rightarrow> nat \<Rightarrow> bool \<times> plugin_paint_budget option" where
  "pay bud cost =
    (case bud of None \<Rightarrow> (False, None)
     | Some b \<Rightarrow>
         if 1 \<le> unat (pb_ops b) \<and> cost \<le> unat (pb_pixels b)
         then (True, Some (b\<lparr>pb_ops := of_nat (unat (pb_ops b) - 1),
                             pb_pixels := of_nat (unat (pb_pixels b) - cost)\<rparr>))
         else (False, Some (b\<lparr>pb_refused := pb_refused b + 1\<rparr>)))"

definition paint_spec ::
    "shape \<Rightarrow> (int \<Rightarrow> int \<Rightarrow> u16) \<Rightarrow> plugin_paint_budget option \<times> (int \<Rightarrow> int \<Rightarrow> u16 option) \<times> nat \<Rightarrow>
     plugin_paint_budget option \<times> (int \<Rightarrow> int \<Rightarrow> u16 option) \<times> nat" where
  "paint_spec sh v s =
    (let (cost, k, R) = sh; (bud, pic, stores) = s; (ok, bud') = pay bud cost
     in if ok then (bud', overlay R v pic, stores + k) else (bud', pic, stores))"

lemma charge_pay:
  assumes "cost < 4294967296"
  shows "plugin_paint_charge bud (of_nat cost) = pay bud cost"
proof -
  have c: "unat (of_nat cost :: u32) = cost" using assms by (simp add: unsigned_of_nat take_bit_nat_eq_self)
  have sub: "of_nat (unat a - n) = a - of_nat n" if "n \<le> unat a" for a :: u32 and n
    using that by (simp add: of_nat_diff)
  have "b < 1 \<longleftrightarrow> \<not> 1 \<le> unat b" for b :: u32 by (auto simp: word_less_nat_alt)
  moreover have "of_nat cost > p \<longleftrightarrow> \<not> cost \<le> unat p" for p :: u32 by (auto simp: word_less_nat_alt c)
  ultimately show ?thesis
    by (auto simp: plugin_paint_charge_def pay_def PLUGIN_PAINT_OP_COST_def sub split: option.split)
qed

lemma area_small: "area (uint (w :: u16)) (uint (h :: u16)) r < 4294967296"
proof -
  have "nat (min (uint w) (r_x1 r) - max 0 (r_x0 r)) \<le> 65535" "nat (min (uint h) (r_y1 r) - max 0 (r_y0 r)) \<le> 65535"
    using uint_u16 [of w] uint_u16 [of h] by auto
  then have "area (uint w) (uint h) r \<le> 65535 * 65535" unfolding area_def by (rule mult_le_mono)
  then show ?thesis by simp
qed

section \<open>The decisions before the loops are the abstract ones\<close>

lemma outline_count_small:
  assumes "w < 65536" "h < 65536" "2 * t \<le> h + 1"
  shows "outline_count w h t < 4294967296"
proof -
  have "outline_count w h t \<le> 65535 * 65535"
  proof (cases "2 * t \<le> h")
    case True
    have "2 * t * w + (h - 2 * t) * (2 * t) \<le> 65535 * 65535"
      using True assms by (intro outline_count_bound) auto
    then show ?thesis using True by (simp add: outline_count_def min_def)
  next
    case False
    have "h * w \<le> 65535 * 65535" using assms by (intro mult_le_mono) auto
    then show ?thesis using False by (simp add: outline_count_def min_def)
  qed
  then show ?thesis by simp
qed

lemma rect_geom_norm_inside:
  assumes "rect_geom_norm fw fh x0 y0 x1 y1 s = Some g"
  shows "uint (g_x0 g) + uint (g_w g) \<le> uint fw" "uint (g_y0 g) + uint (g_h g) \<le> uint fh"
    "unat (g_w g) < 65536" "unat (g_h g) < 65536"
proof -
  note g = rect_geom_norm_Some(1-6) [OF assms] uint_u16 [of fw] uint_u16 [of fh]
  show "uint (g_x0 g) + uint (g_w g) \<le> uint fw" "uint (g_y0 g) + uint (g_h g) \<le> uint fh"
    using g by linarith+
  show "unat (g_w g) < 65536" "unat (g_h g) < 65536"
    using g uint_nat [of "g_w g"] uint_nat [of "g_h g"] by linarith+
qed

text \<open>The clip and the clamps of \<open>rect_geom_norm\<close> give the abstract outline.\<close>

lemma clamp_stroke_min: "clamp_stroke d t = min t ((d + 1) div 2)"
  by (auto simp: clamp_stroke_def min_def)

lemma outline_shape_None:
  assumes "rect_geom_norm w h (r_x0 r) (r_y0 r) (r_x1 r) (r_y1 r) s = None"
  shows "outline_shape w h r s = (0, 0, \<lambda>_ _. False)"
proof -
  define cols rows where "cols = nat (min (uint w) (r_x1 r) - max 0 (r_x0 r))"
    and "rows = nat (min (uint h) (r_y1 r) - max 0 (r_y0 r))"
  have e: "s = 0 \<or> cols = 0 \<or> rows = 0"
    using assms unfolding rect_geom_norm_None cols_def rows_def nat_0_iff by linarith
  have "\<not> (visible (uint w) (uint h) r x y \<and> near_edge (uint w) (uint h) r (uint s) x y)" for x y
  proof (cases "s = 0")
    case True
    then show ?thesis unfolding visible_def near_edge_def by simp linarith
  next
    case False
    with e show ?thesis unfolding visible_def cols_def rows_def nat_0_iff by linarith
  qed
  moreover have "outline_count cols rows (min (unat s) (min ((cols + 1) div 2) ((rows + 1) div 2))) = 0"
    using e by (auto simp: outline_count_def)
  ultimately show ?thesis unfolding outline_shape_def Let_def cols_def rows_def by (simp only:)
qed

lemma near_clamped:
  fixes a b w h s t x y :: int
  assumes "t = min s (min ((w + 1) div 2) ((h + 1) div 2))" "a \<le> x" "x < a + w" "b \<le> y" "y < b + h"
  shows "(x - a < s \<or> a + w - x \<le> s \<or> y - b < s \<or> b + h - y \<le> s) =
    (y < b + t \<or> b + h - t \<le> y \<or> x < a + t \<or> a + w - t \<le> x)"
proof -
  consider "t = s" | "t = (w + 1) div 2" "t \<le> s" | "t = (h + 1) div 2" "t \<le> s"
    using assms(1) by (metis min.cobounded1 min_def)
  then show ?thesis
  proof cases
    case 1
    then show ?thesis by auto
  next
    case 2
    then have "w \<le> 2 * t" by simp
    then have "x < a + t \<or> a + w - t \<le> x" by linarith
    moreover from this 2(2) have "x - a < s \<or> a + w - x \<le> s" by linarith
    ultimately show ?thesis by blast
  next
    case 3
    then have "h \<le> 2 * t" by simp
    then have "y < b + t \<or> b + h - t \<le> y" by linarith
    moreover from this 3(2) have "y - b < s \<or> b + h - y \<le> s" by linarith
    ultimately show ?thesis by blast
  qed
qed

lemma outline_shape_Some:
  assumes "rect_geom_norm w h (r_x0 r) (r_y0 r) (r_x1 r) (r_y1 r) s = Some g"
  shows "outline_shape w h r s =
    (outline_count (unat (g_w g)) (unat (g_h g)) (unat (g_t g)),
     outline_count (unat (g_w g)) (unat (g_h g)) (unat (g_t g)), on_outline g)"
proof -
  note g = rect_geom_norm_Some [OF assms]
  have "s \<noteq> 0" using assms rect_geom_norm_None [of w h "r_x0 r" "r_y0 r" "r_x1 r" "r_y1 r" s] by auto
  then have s: "0 < uint s" using uint_u16 [of s] by (simp add: order.strict_iff_order uint_0_iff)
  have t: "uint (g_t g) = min (uint s) (min ((uint (g_w g) + 1) div 2) ((uint (g_h g) + 1) div 2))"
    using g(5-7) s unfolding clamp_stroke_min by linarith
  have w: "unat (g_w g) = nat (min (uint w) (r_x1 r) - max 0 (r_x0 r))"
    "unat (g_h g) = nat (min (uint h) (r_y1 r) - max 0 (r_y0 r))"
    unfolding g(1-4) [symmetric] by (simp_all add: unat_eq_nat_uint del: nat_uint_eq)
  have "int (unat (g_t g)) = int (min (unat s) (min ((unat (g_w g) + 1) div 2) ((unat (g_h g) + 1) div 2)))"
    by (simp add: t of_nat_min zdiv_int add.commute)
  then have ut: "unat (g_t g) = min (unat s) (min ((unat (g_w g) + 1) div 2) ((unat (g_h g) + 1) div 2))"
    by (rule of_nat_eq_iff [THEN iffD1])
  have "(visible (uint w) (uint h) r x y \<and> near_edge (uint w) (uint h) r (uint s) x y) = on_outline g x y" for x y
    unfolding visible_def near_edge_def on_outline_def g(1-4) [symmetric] using near_clamped [OF t] by blast
  then show ?thesis unfolding outline_shape_def Let_def w [symmetric] ut by (simp only:)
qed

lemma outline_shape_stores: "fst (snd (outline_shape w h r s)) = fst (outline_shape w h r s)"
  by (simp only: outline_shape_def Let_def fst_conv snd_conv)

lemma outline_shape_small: "fst (outline_shape w h r s) < 4294967296"
proof (cases "rect_geom_norm w h (r_x0 r) (r_y0 r) (r_x1 r) (r_y1 r) s")
  case (Some g)
  have "outline_count (unat (g_w g)) (unat (g_h g)) (unat (g_t g)) < 4294967296"
    using rect_geom_norm_inside [OF Some] rect_geom_norm_stroke(3) [OF Some]
      uint_nat [of "g_h g"] uint_nat [of "g_t g"] by (intro outline_count_small) linarith+
  then show ?thesis by (simp add: outline_shape_Some [OF Some])
qed (simp add: outline_shape_None)

lemma rect_begin_shape:
  "plugin_paint_rect_begin bud w h (Some r) s =
    (let (ok, bud') = plugin_paint_charge bud (of_nat (fst (outline_shape w h r s))) in
     (if ok then rect_geom_norm w h (r_x0 r) (r_y0 r) (r_x1 r) (r_y1 r) s else None, bud'))"
proof (cases "rect_geom_norm w h (r_x0 r) (r_y0 r) (r_x1 r) (r_y1 r) s")
  case None
  then show ?thesis by (simp add: plugin_paint_rect_begin_def outline_shape_None Let_def split: prod.split)
next
  case (Some g)
  have "outline_count (unat (g_w g)) (unat (g_h g)) (unat (g_t g)) < 4294967296"
    using outline_shape_small [of w h r s] by (simp add: outline_shape_Some [OF Some])
  moreover have "g_w g \<noteq> 0" "g_h g \<noteq> 0" "g_t g \<noteq> 0"
    using rect_geom_norm_Some(5,6) [OF Some] rect_geom_norm_stroke(1) [OF Some] by auto
  ultimately have "rect_geom_writes g = of_nat (outline_count (unat (g_w g)) (unat (g_h g)) (unat (g_t g)))"
    by (intro word_unat_eq_iff [THEN iffD2])
      (simp add: unat_rect_geom_writes unsigned_of_nat take_bit_nat_eq_self)
  then show ?thesis using Some by (simp add: plugin_paint_rect_begin_def outline_shape_Some Let_def split: prod.split)
qed

lemma area_word:
  assumes "a \<le> b" "c \<le> d"
  shows "word_of_int (b - a) * word_of_int (d - c) = (of_nat (nat (b - a) * nat (d - c)) :: u32)"
  using assms by (simp add: of_nat_nat)

lemma clip_shape:
  "plugin_paint_clip w h (Some r) =
    (if area (uint w) (uint h) r = 0 then None
     else Some \<lparr>bx_x0 = max 0 (r_x0 r), bx_y0 = max 0 (r_y0 r),
                bx_x1 = min (uint w) (r_x1 r), bx_y1 = min (uint h) (r_y1 r)\<rparr>)"
proof -
  have "area (uint w) (uint h) r = 0 \<longleftrightarrow>
      \<not> (max 0 (r_x0 r) < min (uint w) (r_x1 r) \<and> max 0 (r_y0 r) < min (uint h) (r_y1 r))"
    unfolding area_def mult_is_0 nat_0_iff by linarith
  moreover have "(if a < 0 then 0 else a) = max 0 a" "(if a > b then b else a) = min b a" for a b :: int
    by auto
  ultimately show ?thesis by (simp add: plugin_paint_clip_def Let_def)
qed

lemma fill_begin_shape:
  "plugin_paint_fill_begin bud w h (Some r) =
    (let (ok, bud') = plugin_paint_charge bud (of_nat (area (uint w) (uint h) r)) in
     (if ok then plugin_paint_clip w h (Some r) else None, bud'))"
proof (cases "area (uint w) (uint h) r = 0")
  case True
  then show ?thesis by (simp add: plugin_paint_fill_begin_def clip_shape split: prod.split)
next
  case False
  then have "max 0 (r_x0 r) \<le> min (uint w) (r_x1 r)" "max 0 (r_y0 r) \<le> min (uint h) (r_y1 r)"
    unfolding area_def mult_is_0 nat_0_iff by linarith+
  from area_word [OF this] False show ?thesis
    by (simp add: plugin_paint_fill_begin_def clip_shape area_def [symmetric] split: prod.split)
qed

definition blit_span :: "plugin_rect \<Rightarrow> plugin_paint_box \<Rightarrow> plugin_paint_blit_span" where
  "blit_span r b =
    \<lparr>sp_x0 = bx_x0 b, sp_y0 = bx_y0 b,
     sp_cols = word_of_int (bx_x1 b - bx_x0 b), sp_rows = word_of_int (bx_y1 b - bx_y0 b),
     sp_sx0 = word_of_int (bx_x0 b - r_x0 r), sp_sy0 = word_of_int (bx_y0 b - r_y0 r)\<rparr>"

lemma blit_begin_shape:
  assumes "stride \<noteq> 0"
  shows "plugin_paint_blit_begin bud w h r stride =
    (let (ok, bud') = plugin_paint_charge bud (of_nat (area (uint w) (uint h) r)) in
     (if ok then map_option (blit_span r) (plugin_paint_clip w h (Some r)) else None, bud'))"
proof (cases "area (uint w) (uint h) r = 0")
  case True
  then show ?thesis using assms by (simp add: plugin_paint_blit_begin_def clip_shape split: prod.split)
next
  case False
  then have "max 0 (r_x0 r) \<le> min (uint w) (r_x1 r)" "max 0 (r_y0 r) \<le> min (uint h) (r_y1 r)"
    unfolding area_def mult_is_0 nat_0_iff by linarith+
  from area_word [OF this] False assms show ?thesis
    by (simp add: plugin_paint_blit_begin_def blit_span_def clip_shape area_def [symmetric] Let_def
        del: wi_hom_syms split: prod.split)
qed

end
