(* ===== verification/PaintBoards.thy ===== *)
theory PaintBoards
  imports PluginPaint
begin

text \<open>
  The painters of the three boards that have a display.  wio-lite-ai stores native RGB565 into a
  rotated frame buffer, f746g-disco into a row-major view, grove-vision-ai-v2 stores byte-swapped
  pixels row-major, outlines through its driver's \<open>lcd_rect_wire\<close>.  Each address function is an
  interpretation of the canvas, so all three refine the one abstract painter: the same picture,
  the same charge, and no store outside the buffer.

  The context is a value (the pointer each primitive gets is the board's one context, never
  \<open>NULL\<close>); its buffer may be \<open>NULL\<close>, and so may the rectangle.  \<open>size_t\<close> is 32 bits wide.
\<close>

record paint_ctx =
  pc_bud :: "plugin_paint_budget option"
  pc_fb :: "u16 list option"
  pc_sw :: u16
  pc_sh :: u16
  pc_stores :: nat

text \<open>A loop runs on the context's buffer and the store counter.\<close>

definition on_cells :: "(cells \<Rightarrow> cells option) \<Rightarrow> paint_ctx \<Rightarrow> paint_ctx option" where
  "on_cells f c =
    (case pc_fb c of None \<Rightarrow> Some c
     | Some fb \<Rightarrow> do { m \<leftarrow> f (fb, pc_stores c); Some (c\<lparr>pc_fb := Some (fst m), pc_stores := snd m\<rparr>) })"

definition plugin_paint_target ::
    "plugin_paint_budget option \<Rightarrow> u16 list option \<Rightarrow> u16 \<Rightarrow> u16 \<Rightarrow> paint_ctx \<Rightarrow> paint_ctx" where
  "plugin_paint_target bud fb sw sh c = c\<lparr>pc_bud := bud, pc_fb := fb, pc_sw := sw, pc_sh := sh\<rparr>"

section \<open>wio-lite-ai: a rotated surface\<close>

definition wio_at :: "paint_ctx \<Rightarrow> int \<Rightarrow> int \<Rightarrow> nat" where
  "wio_at c x y = unat ((ucast (pc_sw c) - 1 - word_of_int x) * ucast (pc_sh c) + word_of_int y :: u32)"

definition wio_paint_rect :: "paint_ctx \<Rightarrow> plugin_rect option \<Rightarrow> u16 \<Rightarrow> u16 \<Rightarrow> paint_ctx option" where
  "wio_paint_rect c r rgb565 stroke =
    (if pc_fb c = None \<or> r = None then Some c
     else (let (g, bud) = plugin_paint_rect_begin (pc_bud c) (pc_sw c) (pc_sh c) r stroke;
               c = c\<lparr>pc_bud := bud\<rparr> in
           case g of None \<Rightarrow> Some c
           | Some g \<Rightarrow> on_cells (outline_loop (wio_at c) g rgb565) c))"

definition wio_fill_loop :: "paint_ctx \<Rightarrow> plugin_paint_box \<Rightarrow> u16 \<Rightarrow> cells \<Rightarrow> cells option" where
  "wio_fill_loop c b rgb565 =
    for_range (bx_x0 b) (bx_x1 b) (\<lambda>x m.
      map_option fst (for_range (bx_y0 b) (bx_y1 b)
        (\<lambda>_ (m, d). do { m \<leftarrow> PAINT_PUT d rgb565 m; Some (m, d + 1) }) (m, wio_at c x (bx_y0 b))))"

definition wio_paint_fill_rect :: "paint_ctx \<Rightarrow> plugin_rect option \<Rightarrow> u16 \<Rightarrow> paint_ctx option" where
  "wio_paint_fill_rect c r rgb565 =
    (if pc_fb c = None then Some c
     else (let (b, bud) = plugin_paint_fill_begin (pc_bud c) (pc_sw c) (pc_sh c) r;
               c = c\<lparr>pc_bud := bud\<rparr> in
           case b of None \<Rightarrow> Some c
           | Some b \<Rightarrow> on_cells (wio_fill_loop c b rgb565) c))"

text \<open>The source is the plugin's buffer; the pointer \<open>s\<close> is an index into it.\<close>

definition wio_blit_loop ::
    "paint_ctx \<Rightarrow> plugin_paint_blit_span \<Rightarrow> u16 list \<Rightarrow> u32 \<Rightarrow> int \<Rightarrow> cells \<Rightarrow> cells option" where
  "wio_blit_loop c sp src src_stride key =
    for_range 0 (sint (sp_cols sp)) (\<lambda>x m.
      map_option fst (for_range 0 (sint (sp_rows sp))
        (\<lambda>_ (m, s, d). do {
            px \<leftarrow> ld src s;
            let s = s + unat src_stride in
            if key \<ge> 0 \<and> px = word_of_int key then Some (m, s, d + 1)
            else do { m \<leftarrow> PAINT_PUT d px m; Some (m, s, d + 1) } })
        (m, unat (sp_sy0 sp * src_stride) + unat (sp_sx0 sp + word_of_int x), wio_at c (sp_x0 sp + x) (sp_y0 sp))))"

definition wio_paint_blit ::
    "paint_ctx \<Rightarrow> plugin_rect option \<Rightarrow> u16 list option \<Rightarrow> u32 \<Rightarrow> int \<Rightarrow> paint_ctx option" where
  "wio_paint_blit c r src src_stride key =
    (case (pc_fb c, src, r) of (Some _, Some src, Some r) \<Rightarrow>
       (let (sp, bud) = plugin_paint_blit_begin (pc_bud c) (pc_sw c) (pc_sh c) r src_stride;
            c = c\<lparr>pc_bud := bud\<rparr> in
        case sp of None \<Rightarrow> Some c
        | Some sp \<Rightarrow> on_cells (wio_blit_loop c sp src src_stride key) c)
     | _ \<Rightarrow> Some c)"

section \<open>f746g-disco: a row-major view\<close>

definition f746g_at :: "paint_ctx \<Rightarrow> int \<Rightarrow> int \<Rightarrow> nat" where
  "f746g_at c x y = unat (word_of_int y * ucast (pc_sw c) + word_of_int x :: u32)"

definition f746g_paint_rect :: "paint_ctx \<Rightarrow> plugin_rect option \<Rightarrow> u16 \<Rightarrow> u16 \<Rightarrow> paint_ctx option" where
  "f746g_paint_rect c r rgb565 stroke =
    (if pc_fb c = None \<or> r = None then Some c
     else (let (g, bud) = plugin_paint_rect_begin (pc_bud c) (pc_sw c) (pc_sh c) r stroke;
               c = c\<lparr>pc_bud := bud\<rparr> in
           case g of None \<Rightarrow> Some c
           | Some g \<Rightarrow> on_cells (outline_loop (f746g_at c) g rgb565) c))"

definition f746g_fill_loop :: "paint_ctx \<Rightarrow> plugin_paint_box \<Rightarrow> u16 \<Rightarrow> cells \<Rightarrow> cells option" where
  "f746g_fill_loop c b rgb565 =
    for_range (bx_y0 b) (bx_y1 b) (\<lambda>y m.
      map_option fst (for_range (bx_x0 b) (bx_x1 b)
        (\<lambda>_ (m, d). do { m \<leftarrow> PAINT_PUT d rgb565 m; Some (m, d + 1) }) (m, f746g_at c (bx_x0 b) y)))"

definition f746g_paint_fill_rect :: "paint_ctx \<Rightarrow> plugin_rect option \<Rightarrow> u16 \<Rightarrow> paint_ctx option" where
  "f746g_paint_fill_rect c r rgb565 =
    (if pc_fb c = None then Some c
     else (let (b, bud) = plugin_paint_fill_begin (pc_bud c) (pc_sw c) (pc_sh c) r;
               c = c\<lparr>pc_bud := bud\<rparr> in
           case b of None \<Rightarrow> Some c
           | Some b \<Rightarrow> on_cells (f746g_fill_loop c b rgb565) c))"

definition f746g_blit_loop ::
    "paint_ctx \<Rightarrow> plugin_paint_blit_span \<Rightarrow> u16 list \<Rightarrow> u32 \<Rightarrow> int \<Rightarrow> cells \<Rightarrow> cells option" where
  "f746g_blit_loop c sp src src_stride key =
    for_range 0 (uint (sp_rows sp)) (\<lambda>y m.
      (let s = unat ((sp_sy0 sp + word_of_int y) * src_stride) + unat (sp_sx0 sp);
           d = f746g_at c (sp_x0 sp) (sp_y0 sp + y) in
       for_range 0 (uint (sp_cols sp))
        (\<lambda>x m. do {
            px \<leftarrow> ld src (s + nat x);
            if key \<ge> 0 \<and> px = word_of_int key then Some m
            else PAINT_PUT (d + nat x) px m }) m))"

definition f746g_paint_blit ::
    "paint_ctx \<Rightarrow> plugin_rect option \<Rightarrow> u16 list option \<Rightarrow> u32 \<Rightarrow> int \<Rightarrow> paint_ctx option" where
  "f746g_paint_blit c r src src_stride key =
    (case (pc_fb c, src, r) of (Some _, Some src, Some r) \<Rightarrow>
       (let (sp, bud) = plugin_paint_blit_begin (pc_bud c) (pc_sw c) (pc_sh c) r src_stride;
            c = c\<lparr>pc_bud := bud\<rparr> in
        case sp of None \<Rightarrow> Some c
        | Some sp \<Rightarrow> on_cells (f746g_blit_loop c sp src src_stride key) c)
     | _ \<Rightarrow> Some c)"

section \<open>grove-vision-ai-v2: wire order, and the driver's outline\<close>

definition lcd_wire :: "u16 \<Rightarrow> u16" where
  "lcd_wire rgb565 = drop_bit 8 rgb565 OR push_bit 8 rgb565"

definition paint_wire :: "u16 \<Rightarrow> u16" where
  "paint_wire rgb565 = drop_bit 8 rgb565 OR push_bit 8 rgb565"

definition grove_row :: "paint_ctx \<Rightarrow> int \<Rightarrow> nat" where
  "grove_row c y = unat (word_of_int y * ucast (pc_sw c) :: u32)"

text \<open>\<open>lcd_rect_wire\<close> clips again, with the rule the charge was computed from.\<close>

definition lcd_rect_wire ::
    "(int \<Rightarrow> nat) \<Rightarrow> u16 \<Rightarrow> u16 \<Rightarrow> plugin_rect \<Rightarrow> u16 \<Rightarrow> u16 \<Rightarrow> cells \<Rightarrow> cells option" where
  "lcd_rect_wire row fb_w fb_h r rgb565 stroke m =
    (case rect_geom_norm fb_w fb_h (r_x0 r) (r_y0 r) (r_x1 r) (r_y1 r) stroke of
       None \<Rightarrow> Some m
     | Some g \<Rightarrow> outline_loop (\<lambda>x y. row y + nat x) g (lcd_wire rgb565) m)"

definition grove_paint_rect :: "paint_ctx \<Rightarrow> plugin_rect option \<Rightarrow> u16 \<Rightarrow> u16 \<Rightarrow> paint_ctx option" where
  "grove_paint_rect c r rgb565 stroke =
    (case (pc_fb c, r) of (Some _, Some r) \<Rightarrow>
       (let (g, bud) = plugin_paint_rect_begin (pc_bud c) (pc_sw c) (pc_sh c) (Some r) stroke;
            c = c\<lparr>pc_bud := bud\<rparr> in
        case g of None \<Rightarrow> Some c
        | Some _ \<Rightarrow> on_cells (lcd_rect_wire (grove_row c) (pc_sw c) (pc_sh c) r rgb565 stroke) c)
     | _ \<Rightarrow> Some c)"

definition grove_fill_loop :: "paint_ctx \<Rightarrow> plugin_paint_box \<Rightarrow> u16 \<Rightarrow> cells \<Rightarrow> cells option" where
  "grove_fill_loop c b wire =
    for_range (bx_y0 b) (bx_y1 b) (\<lambda>y.
      for_range (bx_x0 b) (bx_x1 b) (\<lambda>x. PAINT_PUT (grove_row c y + nat x) wire))"

definition grove_paint_fill_rect :: "paint_ctx \<Rightarrow> plugin_rect option \<Rightarrow> u16 \<Rightarrow> paint_ctx option" where
  "grove_paint_fill_rect c r rgb565 =
    (if pc_fb c = None then Some c
     else (let (b, bud) = plugin_paint_fill_begin (pc_bud c) (pc_sw c) (pc_sh c) r;
               c = c\<lparr>pc_bud := bud\<rparr> in
           case b of None \<Rightarrow> Some c
           | Some b \<Rightarrow> on_cells (grove_fill_loop c b (paint_wire rgb565)) c))"

definition grove_blit_loop ::
    "paint_ctx \<Rightarrow> plugin_paint_blit_span \<Rightarrow> u16 list \<Rightarrow> u32 \<Rightarrow> int \<Rightarrow> cells \<Rightarrow> cells option" where
  "grove_blit_loop c sp src src_stride key =
    for_range 0 (sint (sp_rows sp)) (\<lambda>y m.
      (let s = unat ((sp_sy0 sp + word_of_int y) * src_stride) + unat (sp_sx0 sp);
           d = grove_row c (sp_y0 sp + y) + nat (sp_x0 sp) in
       for_range 0 (sint (sp_cols sp))
        (\<lambda>x m. do {
            px \<leftarrow> ld src (s + nat x);
            if key \<ge> 0 \<and> px = word_of_int key then Some m
            else PAINT_PUT (d + nat x) (paint_wire px) m }) m))"

definition grove_paint_blit ::
    "paint_ctx \<Rightarrow> plugin_rect option \<Rightarrow> u16 list option \<Rightarrow> u32 \<Rightarrow> int \<Rightarrow> paint_ctx option" where
  "grove_paint_blit c r src src_stride key =
    (case (pc_fb c, src, r) of (Some _, Some src, Some r) \<Rightarrow>
       (let (sp, bud) = plugin_paint_blit_begin (pc_bud c) (pc_sw c) (pc_sh c) r src_stride;
            c = c\<lparr>pc_bud := bud\<rparr> in
        case sp of None \<Rightarrow> Some c
        | Some sp \<Rightarrow> on_cells (grove_blit_loop c sp src src_stride key) c)
     | _ \<Rightarrow> Some c)"

section \<open>What a primitive shows\<close>

text \<open>The picture on a board's panel, through its address function and its pixel format.\<close>

definition view :: "(paint_ctx \<Rightarrow> int \<Rightarrow> int \<Rightarrow> nat) \<Rightarrow> (u16 \<Rightarrow> u16) \<Rightarrow> paint_ctx \<Rightarrow> int \<Rightarrow> int \<Rightarrow> u16 option" where
  "view addr dec c x y =
    (if 0 \<le> x \<and> x < uint (pc_sw c) \<and> 0 \<le> y \<and> y < uint (pc_sh c)
     then Some (dec (the (pc_fb c) ! addr c x y)) else None)"

definition ctx_ok :: "paint_ctx \<Rightarrow> bool" where
  "ctx_ok c \<longleftrightarrow> (\<exists>fb. pc_fb c = Some fb \<and> length fb = unat (pc_sw c) * unat (pc_sh c))"

text \<open>A primitive refines the abstract painter: it returns, and budget, picture and store count
  are those of the abstract step.\<close>

definition paints ::
    "(paint_ctx \<Rightarrow> int \<Rightarrow> int \<Rightarrow> nat) \<Rightarrow> (u16 \<Rightarrow> u16) \<Rightarrow> shape \<Rightarrow> (int \<Rightarrow> int \<Rightarrow> u16) \<Rightarrow> paint_ctx \<Rightarrow>
     paint_ctx option \<Rightarrow> bool" where
  "paints addr dec sh v c res \<longleftrightarrow>
    (\<exists>c'. res = Some c' \<and> ctx_ok c' \<and> pc_sw c' = pc_sw c \<and> pc_sh c' = pc_sh c \<and>
      paint_spec sh v (pc_bud c, view addr dec c, pc_stores c) = (pc_bud c', view addr dec c', pc_stores c'))"

context canvas begin

lemma overlay_nothing: "overlay (\<lambda>_ _. False) v pic = pic"
  by (intro ext) (simp add: overlay_def option.map_ident)

lemma paints_begin:
  assumes c: "pc_fb c = Some fb" "length fb = cap" "cap = unat (pc_sw c) * unat (pc_sh c)"
    and WH: "W = uint (pc_sw c)" "H = uint (pc_sh c)"
    and addr: "\<And>bud fb n. addr (c\<lparr>pc_bud := bud, pc_fb := fb, pc_stores := n\<rparr>) = idx"
    and dec: "\<And>x y. dec (v' x y) = v x y"
    and start: "start = (let (ok, bud') = plugin_paint_charge (pc_bud c) (of_nat cost) in (if ok then B else None, bud'))"
    and small: "cost < 4294967296"
    and none: "B = None \<Longrightarrow> k = 0 \<and> R = (\<lambda>_ _. False)"
    and loop: "\<And>b. B = Some b \<Longrightarrow>
      \<exists>m'. f b (fb, pc_stores c) = Some m' \<and> drew k R v' (fb, pc_stores c) m'"
  shows "paints addr dec (cost, k, R) v c
    (let (b, bud) = start; c1 = c\<lparr>pc_bud := bud\<rparr> in case b of None \<Rightarrow> Some c1 | Some b \<Rightarrow> on_cells (f b) c1)"
proof -
  obtain ok bud where ch: "plugin_paint_charge (pc_bud c) (of_nat cost) = (ok, bud)" by fastforce
  then have pay: "pay (pc_bud c) cost = (ok, bud)" using charge_pay [OF small] by simp
  have ad: "addr c = idx" "\<And>bud. addr (c\<lparr>pc_bud := bud\<rparr>) = idx"
    "\<And>bud fb n. addr (c\<lparr>pc_bud := bud, pc_fb := fb, pc_stores := n\<rparr>) = idx"
    using addr [where bud = "pc_bud c" and fb = "pc_fb c" and n = "pc_stores c"]
      addr [where fb = "pc_fb c" and n = "pc_stores c"] addr by simp_all
  show ?thesis
  proof (cases "ok \<and> B \<noteq> None")
    case False
    then have "(if ok then B else None) = None" by auto
    moreover have "view addr dec (c\<lparr>pc_bud := bud\<rparr>) = view addr dec c"
      by (intro ext) (simp add: view_def ad)
    ultimately show ?thesis using False none c
      by (auto simp: paints_def start ch pay paint_spec_def ctx_ok_def overlay_nothing)
  next
    case True
    then obtain b where b: "B = Some b" by auto
    obtain m' where m': "f b (fb, pc_stores c) = Some m'" "drew k R v' (fb, pc_stores c) m'"
      using loop [OF b] by auto
    let ?c = "c\<lparr>pc_bud := bud, pc_fb := Some (fst m'), pc_stores := snd m'\<rparr>"
    have px: "fst m' ! idx x y = (if R x y then v' x y else fb ! idx x y)" if "0 \<le> x" "x < W" "0 \<le> y" "y < H" for x y
      using m'(2) that by (simp add: drew_def)
    have "view addr dec ?c x y = overlay R v (view addr dec c) x y" for x y
      using px [of x y] dec by (auto simp: view_def overlay_def ad c(1) WH)
    then have "view addr dec ?c = overlay R v (view addr dec c)" by (intro ext)
    moreover have "length (fst m') = cap" "snd m' = pc_stores c + k" using m'(2) by (simp_all add: drew_def)
    ultimately show ?thesis using True b m'(1) c
      by (auto simp: paints_def start ch pay paint_spec_def ctx_ok_def on_cells_def)
  qed
qed

end

section \<open>The address functions are canvases\<close>

lemma surface_bounds:
  fixes w h :: u16
  assumes "0 \<le> a" "a < uint w" "0 \<le> b" "b \<le> uint h"
  shows "0 \<le> a * uint h + b" "a * uint h + b \<le> uint w * uint h" "uint w * uint h < 4294967296"
    "b < uint h \<Longrightarrow> a * uint h + b < uint w * uint h"
proof -
  have "(a + 1) * uint h \<le> uint w * uint h" using assms by (intro mult_right_mono) auto
  then show "0 \<le> a * uint h + b" "a * uint h + b \<le> uint w * uint h" "b < uint h \<Longrightarrow> a * uint h + b < uint w * uint h"
    using assms by (simp_all add: algebra_simps)
  have "uint w * uint h \<le> 65535 * 65535"
    using uint_u16 [of w] uint_u16 [of h] by (intro mult_mono) auto
  then show "uint w * uint h < 4294967296" by simp
qed

lemma unat_wi: "0 \<le> v \<Longrightarrow> v < 4294967296 \<Longrightarrow> unat (word_of_int v :: u32) = nat v"
  by (simp add: unat_eq_nat_uint uint_word_of_int del: nat_uint_eq)

lemma wi_uint16: "(ucast (w :: u16) :: u32) = word_of_int (uint w)"
  by (simp add: unsigned_ucast_eq)

lemma wio_at_eq:
  assumes "0 \<le> x" "x < uint (pc_sw c)" "0 \<le> y" "y \<le> uint (pc_sh c)"
  shows "wio_at c x y = nat ((uint (pc_sw c) - 1 - x) * uint (pc_sh c) + y)"
proof -
  have e: "(ucast (pc_sw c) - 1 - word_of_int x) * ucast (pc_sh c) + word_of_int y =
      (word_of_int ((uint (pc_sw c) - 1 - x) * uint (pc_sh c) + y) :: u32)"
    unfolding wi_uint16 by simp
  show ?thesis
    unfolding wio_at_def e by (rule unat_wi) (use surface_bounds [of "uint (pc_sw c) - 1 - x" "pc_sw c" y "pc_sh c"] assms in \<open>simp_all\<close>)
qed

lemma f746g_at_eq:
  assumes "0 \<le> x" "x \<le> uint (pc_sw c)" "0 \<le> y" "y < uint (pc_sh c)"
  shows "f746g_at c x y = nat (y * uint (pc_sw c) + x)"
proof -
  have e: "word_of_int y * ucast (pc_sw c) + word_of_int x =
      (word_of_int (y * uint (pc_sw c) + x) :: u32)"
    unfolding wi_uint16 by simp
  show ?thesis
    unfolding f746g_at_def e by (rule unat_wi) (use surface_bounds [of y "pc_sh c" x "pc_sw c"] assms in \<open>simp_all\<close>)
qed

lemma grove_row_eq:
  assumes "0 \<le> y" "y < uint (pc_sh c)"
  shows "grove_row c y = nat (y * uint (pc_sw c))"
proof -
  have e: "word_of_int y * ucast (pc_sw c) = (word_of_int (y * uint (pc_sw c)) :: u32)"
    unfolding wi_uint16 by simp
  show ?thesis
    unfolding grove_row_def e by (rule unat_wi) (use surface_bounds [of y "pc_sh c" 0 "pc_sw c"] assms in \<open>simp_all\<close>)
qed

definition grove_at :: "paint_ctx \<Rightarrow> int \<Rightarrow> int \<Rightarrow> nat" where
  "grove_at c x y = grove_row c y + nat x"

lemma row_major_inj:
  fixes n :: int
  assumes "0 \<le> b" "b < n" "0 \<le> b'" "b' < n" "a * n + b = a' * n + b'"
  shows "a = a' \<and> b = b'"
proof -
  have "(a * n + b) div n = a" "(a' * n + b') div n = a'" using assms(1-4) by simp_all
  then have "a = a'" using assms(5) by metis
  then show ?thesis using assms(5) by simp
qed

text \<open>A pointer that steps through a line stays on it.\<close>

lemma nat_step: "0 \<le> a \<Longrightarrow> 0 \<le> y \<Longrightarrow> y \<le> y' \<Longrightarrow> nat (a + y) + nat (y' - y) = nat (a + y' :: int)"
  by linarith

lemma wio_col:
  assumes "0 \<le> x" "x < uint (pc_sw c)" "0 \<le> y" "y \<le> y'" "y' < uint (pc_sh c)"
  shows "wio_at c x y + nat (y' - y) = wio_at c x y'"
proof -
  have "0 \<le> (uint (pc_sw c) - 1 - x) * uint (pc_sh c)" using assms by simp
  then show ?thesis using assms by (simp add: wio_at_eq nat_step)
qed

lemma f746g_row:
  assumes "0 \<le> x" "x \<le> x'" "x' < uint (pc_sw c)" "0 \<le> y" "y < uint (pc_sh c)"
  shows "f746g_at c x y + nat (x' - x) = f746g_at c x' y"
proof -
  have "0 \<le> y * uint (pc_sw c)" using assms by simp
  then show ?thesis using assms by (simp add: f746g_at_eq nat_step)
qed

lemma nat_in_cap:
  assumes "0 \<le> v" "v < uint (w :: u16) * uint (h :: u16)"
  shows "nat v < unat w * unat h"
proof -
  have "int (unat w * unat h) = uint w * uint h" by simp
  then show ?thesis using assms by linarith
qed

interpretation wio: canvas "wio_at c" "uint (pc_sw c)" "uint (pc_sh c)" "unat (pc_sw c) * unat (pc_sh c)"
  for c
proof unfold_locales
  fix x y assume "0 \<le> x" "x < uint (pc_sw c)" "0 \<le> y" "y < uint (pc_sh c)"
  then show "wio_at c x y < unat (pc_sw c) * unat (pc_sh c)"
    using surface_bounds(1,4) [of "uint (pc_sw c) - 1 - x" "pc_sw c" y "pc_sh c"]
    by (simp add: wio_at_eq nat_in_cap)
next
  fix x y x' y' assume a: "0 \<le> x" "x < uint (pc_sw c)" "0 \<le> y" "y < uint (pc_sh c)"
    "0 \<le> x'" "x' < uint (pc_sw c)" "0 \<le> y'" "y' < uint (pc_sh c)" "wio_at c x y = wio_at c x' y'"
  then have "(uint (pc_sw c) - 1 - x) * uint (pc_sh c) + y = (uint (pc_sw c) - 1 - x') * uint (pc_sh c) + y'"
    by (intro eq_nat_nat_iff [THEN iffD1] add_nonneg_nonneg mult_nonneg_nonneg) (simp_all add: wio_at_eq)
  from row_major_inj [OF a(3,4,7,8) this] show "x = x' \<and> y = y'" by simp
qed

interpretation f746g: canvas "f746g_at c" "uint (pc_sw c)" "uint (pc_sh c)" "unat (pc_sw c) * unat (pc_sh c)"
  for c
proof unfold_locales
  fix x y assume "0 \<le> x" "x < uint (pc_sw c)" "0 \<le> y" "y < uint (pc_sh c)"
  then show "f746g_at c x y < unat (pc_sw c) * unat (pc_sh c)"
    using surface_bounds(1,4) [of y "pc_sh c" x "pc_sw c"] nat_in_cap [of _ "pc_sh c" "pc_sw c"]
    by (simp add: f746g_at_eq mult.commute)
next
  fix x y x' y' assume a: "0 \<le> x" "x < uint (pc_sw c)" "0 \<le> y" "y < uint (pc_sh c)"
    "0 \<le> x'" "x' < uint (pc_sw c)" "0 \<le> y'" "y' < uint (pc_sh c)" "f746g_at c x y = f746g_at c x' y'"
  then have "y * uint (pc_sw c) + x = y' * uint (pc_sw c) + x'"
    by (intro eq_nat_nat_iff [THEN iffD1] add_nonneg_nonneg mult_nonneg_nonneg) (simp_all add: f746g_at_eq)
  from row_major_inj [OF a(1,2,5,6) this] show "x = x' \<and> y = y'" by simp
qed

lemma grove_at_eq:
  assumes "0 \<le> x" "x \<le> uint (pc_sw c)" "0 \<le> y" "y < uint (pc_sh c)"
  shows "grove_at c x y = f746g_at c x y"
  using assms by (simp add: grove_at_def grove_row_eq f746g_at_eq nat_add_distrib)

interpretation grove: canvas "grove_at c" "uint (pc_sw c)" "uint (pc_sh c)" "unat (pc_sw c) * unat (pc_sh c)"
  for c
  using f746g.idx_in [of _ c] f746g.idx_inj [of _ c] by unfold_locales (simp_all add: grove_at_eq)

section \<open>Outlines\<close>

lemma wire_twice: "lcd_wire (lcd_wire v) = v"
proof (rule bit_word_eqI)
  fix n assume "n < LENGTH(16)"
  then show "bit (lcd_wire (lcd_wire v)) n = bit v n"
    by (cases "n < 8") (auto simp: lcd_wire_def bit_simps not_less)
qed

lemma paint_wire_lcd: "paint_wire v = lcd_wire v"
  by (simp add: paint_wire_def lcd_wire_def)

lemma addr_indep:
  "wio_at (c\<lparr>pc_bud := b, pc_fb := fb, pc_stores := n\<rparr>) = wio_at c"
  "f746g_at (c\<lparr>pc_bud := b, pc_fb := fb, pc_stores := n\<rparr>) = f746g_at c"
  "grove_at (c\<lparr>pc_bud := b, pc_fb := fb, pc_stores := n\<rparr>) = grove_at c"
  by (intro ext; simp add: wio_at_def f746g_at_def grove_at_def grove_row_def)+

context canvas begin

text \<open>An outline drawn through any canvas refines the abstract outline.\<close>

lemma paints_outline:
  assumes c: "pc_fb c = Some fb" "length fb = cap" "cap = unat (pc_sw c) * unat (pc_sh c)"
    and WH: "W = uint (pc_sw c)" "H = uint (pc_sh c)"
    and addr: "\<And>bud fb n. addr (c\<lparr>pc_bud := bud, pc_fb := fb, pc_stores := n\<rparr>) = idx"
    and dec: "dec v' = v"
  shows "paints addr dec (outline_shape (pc_sw c) (pc_sh c) r s) (\<lambda>_ _. v) c
    (let (g, bud) = plugin_paint_rect_begin (pc_bud c) (pc_sw c) (pc_sh c) (Some r) s; c1 = c\<lparr>pc_bud := bud\<rparr> in
     case g of None \<Rightarrow> Some c1 | Some g \<Rightarrow> on_cells (outline_loop idx g v') c1)"
proof -
  let ?norm = "rect_geom_norm (pc_sw c) (pc_sh c) (r_x0 r) (r_y0 r) (r_x1 r) (r_y1 r) s"
  define cost R where "cost = fst (outline_shape (pc_sw c) (pc_sh c) r s)"
    and "R = snd (snd (outline_shape (pc_sw c) (pc_sh c) r s))"
  then have sh: "outline_shape (pc_sw c) (pc_sh c) r s = (cost, cost, R)"
    by (simp add: prod_eq_iff outline_shape_stores)
  have R: "cost = 0 \<and> R = (\<lambda>_ _. False)" if "?norm = None"
    unfolding cost_def R_def outline_shape_None [OF that] by simp
  have R': "cost = outline_count (unat (g_w g)) (unat (g_h g)) (unat (g_t g)) \<and> R = on_outline g" if "?norm = Some g" for g
    unfolding cost_def R_def outline_shape_Some [OF that] by simp
  show ?thesis unfolding sh
  proof (rule paints_begin [where v' = "\<lambda>_ _. v'" and addr = addr, OF c WH])
    show "plugin_paint_rect_begin (pc_bud c) (pc_sw c) (pc_sh c) (Some r) s =
      (let (ok, bud') = plugin_paint_charge (pc_bud c) (of_nat cost) in
        (if ok then rect_geom_norm (pc_sw c) (pc_sh c) (r_x0 r) (r_y0 r) (r_x1 r) (r_y1 r) s else None, bud'))"
      by (simp add: rect_begin_shape sh)
    show "cost < 4294967296" using outline_shape_small [of "pc_sw c" "pc_sh c" r s] by (simp add: sh)
    fix g assume g: "rect_geom_norm (pc_sw c) (pc_sh c) (r_x0 r) (r_y0 r) (r_x1 r) (r_y1 r) s = Some g"
    show "\<exists>m'. outline_loop idx g v' (fb, pc_stores c) = Some m' \<and> drew cost R (\<lambda>_ _. v') (fb, pc_stores c) m'"
      using drew_outline [of g "(fb, pc_stores c)" v'] rect_geom_norm_inside(1,2) [OF g] rect_geom_norm_stroke [OF g]
        rect_geom_norm_Some(5,6) [OF g] uint_u16 [of "pc_sw c"] uint_u16 [of "pc_sh c"] R' [OF g] c
      by (simp add: WH)
  qed (use dec R addr in auto)
qed

end

lemma grove_addr: "(\<lambda>x y. grove_row c y + nat x) = grove_at c"
  by (intro ext) (simp add: grove_at_def)


lemma wio_outline:
  assumes "ctx_ok c"
  shows "paints wio_at id (outline_shape (pc_sw c) (pc_sh c) r s) (\<lambda>_ _. v) c (wio_paint_rect c (Some r) v s)"
proof -
  obtain fb where fb: "pc_fb c = Some fb" "length fb = unat (pc_sw c) * unat (pc_sh c)"
    using assms by (auto simp: ctx_ok_def)
  have "wio_at (c\<lparr>pc_bud := b\<rparr>) = wio_at c" for b by (intro ext) (simp add: wio_at_def)
  then show ?thesis
    using wio.paints_outline [OF fb refl refl refl, where addr = wio_at and dec = id and v = v and v' = v and r = r and s = s]
    by (simp add: wio_paint_rect_def fb addr_indep Let_def cong: option.case_cong prod.case_cong)
qed

lemma f746g_outline:
  assumes "ctx_ok c"
  shows "paints f746g_at id (outline_shape (pc_sw c) (pc_sh c) r s) (\<lambda>_ _. v) c (f746g_paint_rect c (Some r) v s)"
proof -
  obtain fb where fb: "pc_fb c = Some fb" "length fb = unat (pc_sw c) * unat (pc_sh c)"
    using assms by (auto simp: ctx_ok_def)
  have "f746g_at (c\<lparr>pc_bud := b\<rparr>) = f746g_at c" for b by (intro ext) (simp add: f746g_at_def)
  then show ?thesis
    using f746g.paints_outline [OF fb refl refl refl, where addr = f746g_at and dec = id and v = v and v' = v and r = r and s = s]
    by (simp add: f746g_paint_rect_def fb addr_indep Let_def cong: option.case_cong prod.case_cong)
qed

text \<open>The driver's second clip agrees with the one the charge was computed from.\<close>

lemma rect_begin_norm:
  "fst (plugin_paint_rect_begin bud w h (Some r) s) = Some g \<Longrightarrow>
    rect_geom_norm w h (r_x0 r) (r_y0 r) (r_x1 r) (r_y1 r) s = Some g"
  by (auto simp: plugin_paint_rect_begin_def split: option.splits prod.splits if_splits)

lemma grove_outline:
  assumes "ctx_ok c"
  shows "paints grove_at lcd_wire (outline_shape (pc_sw c) (pc_sh c) r s) (\<lambda>_ _. v) c (grove_paint_rect c (Some r) v s)"
proof -
  obtain fb where fb: "pc_fb c = Some fb" "length fb = unat (pc_sw c) * unat (pc_sh c)"
    using assms by (auto simp: ctx_ok_def)
  have "grove_row (c\<lparr>pc_bud := b\<rparr>) = grove_row c" for b by (intro ext) (simp add: grove_row_def)
  moreover obtain g bud where g: "plugin_paint_rect_begin (pc_bud c) (pc_sw c) (pc_sh c) (Some r) s = (g, bud)"
    by fastforce
  ultimately have "grove_paint_rect c (Some r) v s =
      (case g of None \<Rightarrow> Some (c\<lparr>pc_bud := bud\<rparr>)
       | Some g \<Rightarrow> on_cells (outline_loop (grove_at c) g (lcd_wire v)) (c\<lparr>pc_bud := bud\<rparr>))"
    using rect_begin_norm [of "pc_bud c" "pc_sw c" "pc_sh c" r s]
    by (auto simp: grove_paint_rect_def fb lcd_rect_wire_def [abs_def] grove_addr split: option.split)
  then show ?thesis
    using grove.paints_outline [OF fb refl refl refl, where addr = grove_at and dec = lcd_wire and v = v
        and v' = "lcd_wire v" and r = r and s = s]
    by (simp add: g addr_indep wire_twice Let_def)
qed

section \<open>Filled boxes\<close>

lemma clip_box:
  assumes "plugin_paint_clip w h (Some r) = Some b"
  shows "bx_x0 b = max 0 (r_x0 r)" "bx_y0 b = max 0 (r_y0 r)" "bx_x1 b = min (uint w) (r_x1 r)"
    "bx_y1 b = min (uint h) (r_y1 r)" "bx_x0 b < bx_x1 b" "bx_y0 b < bx_y1 b"
  using assms unfolding area_def mult_is_0 nat_0_iff clip_shape by (auto split: if_splits simp: not_le)

lemma area_0_visible: "area W H r = 0 \<Longrightarrow> visible W H r = (\<lambda>_ _. False)"
  unfolding area_def mult_is_0 nat_0_iff visible_def [abs_def] by (intro ext) auto

context canvas begin

lemma paints_fill:
  assumes c: "pc_fb c = Some fb" "length fb = cap" "cap = unat (pc_sw c) * unat (pc_sh c)"
    and WH: "W = uint (pc_sw c)" "H = uint (pc_sh c)"
    and addr: "\<And>bud fb n. addr (c\<lparr>pc_bud := bud, pc_fb := fb, pc_stores := n\<rparr>) = idx"
    and dec: "dec v' = v"
    and loop: "\<And>b. 0 \<le> bx_x0 b \<Longrightarrow> bx_x0 b < bx_x1 b \<Longrightarrow> bx_x1 b \<le> W \<Longrightarrow> 0 \<le> bx_y0 b \<Longrightarrow>
        bx_y0 b < bx_y1 b \<Longrightarrow> bx_y1 b \<le> H \<Longrightarrow>
        \<exists>m'. f b (fb, pc_stores c) = Some m' \<and>
          drew (nat (bx_x1 b - bx_x0 b) * nat (bx_y1 b - bx_y0 b))
            (\<lambda>x y. bx_x0 b \<le> x \<and> x < bx_x1 b \<and> bx_y0 b \<le> y \<and> y < bx_y1 b) (\<lambda>_ _. v') (fb, pc_stores c) m'"
  shows "paints addr dec (fill_shape (pc_sw c) (pc_sh c) r) (\<lambda>_ _. v) c
    (let (b, bud) = plugin_paint_fill_begin (pc_bud c) (pc_sw c) (pc_sh c) (Some r); c1 = c\<lparr>pc_bud := bud\<rparr> in
     case b of None \<Rightarrow> Some c1 | Some b \<Rightarrow> on_cells (f b) c1)"
  unfolding fill_shape_def
proof (rule paints_begin [where v' = "\<lambda>_ _. v'" and addr = addr, OF c WH])
  show "plugin_paint_fill_begin (pc_bud c) (pc_sw c) (pc_sh c) (Some r) =
    (let (ok, bud') = plugin_paint_charge (pc_bud c) (of_nat (area (uint (pc_sw c)) (uint (pc_sh c)) r))
     in (if ok then plugin_paint_clip (pc_sw c) (pc_sh c) (Some r) else None, bud'))"
    by (rule fill_begin_shape)
  show "area (uint (pc_sw c)) (uint (pc_sh c)) r < 4294967296" by (rule area_small)
  show "area (uint (pc_sw c)) (uint (pc_sh c)) r = 0 \<and> visible (uint (pc_sw c)) (uint (pc_sh c)) r = (\<lambda>_ _. False)"
    if "plugin_paint_clip (pc_sw c) (pc_sh c) (Some r) = None"
    using that area_0_visible by (auto simp: clip_shape split: if_splits)
  fix b assume b: "plugin_paint_clip (pc_sw c) (pc_sh c) (Some r) = Some b"
  note lo = clip_box [OF b]
  show "\<exists>m'. f b (fb, pc_stores c) = Some m' \<and>
      drew (area (uint (pc_sw c)) (uint (pc_sh c)) r) (visible (uint (pc_sw c)) (uint (pc_sh c)) r) (\<lambda>_ _. v') (fb, pc_stores c) m'"
    using loop [of b] lo unfolding visible_def [abs_def] area_def WH by simp
qed (use dec addr in auto)

end

lemma wio_fill:
  assumes "ctx_ok c"
  shows "paints wio_at id (fill_shape (pc_sw c) (pc_sh c) r) (\<lambda>_ _. v) c (wio_paint_fill_rect c (Some r) v)"
proof -
  obtain fb where fb: "pc_fb c = Some fb" "length fb = unat (pc_sw c) * unat (pc_sh c)"
    using assms by (auto simp: ctx_ok_def)
  have ind: "wio_fill_loop (c\<lparr>pc_bud := b\<rparr>) = wio_fill_loop c" for b
    by (intro ext) (simp add: wio_fill_loop_def wio_at_def)
  have "paints wio_at id (fill_shape (pc_sw c) (pc_sh c) r) (\<lambda>_ _. v) c
    (let (b, bud) = plugin_paint_fill_begin (pc_bud c) (pc_sw c) (pc_sh c) (Some r); c1 = c\<lparr>pc_bud := bud\<rparr> in
     case b of None \<Rightarrow> Some c1 | Some b \<Rightarrow> on_cells (wio_fill_loop c b v) c1)"
  proof (rule wio.paints_fill [where v' = v and addr = wio_at, OF fb refl refl refl])
    fix b :: plugin_paint_box
    assume b: "0 \<le> bx_x0 b" "bx_x0 b < bx_x1 b" "bx_x1 b \<le> uint (pc_sw c)"
      "0 \<le> bx_y0 b" "bx_y0 b < bx_y1 b" "bx_y1 b \<le> uint (pc_sh c)"
    let ?f = "\<lambda>x m. map_option fst (for_range (bx_y0 b) (bx_y1 b)
          (\<lambda>_ (m, d). do { m \<leftarrow> PAINT_PUT d v m; Some (m, d + 1) }) (m, wio_at c x (bx_y0 b)))"
    have line: "\<exists>m'. ?f x m = Some m' \<and>
        wio.drew c (nat (bx_y1 b - bx_y0 b)) (\<lambda>X Y. X = x \<and> (bx_y0 b \<le> Y \<and> Y < bx_y1 b)) (\<lambda>_ _. v) m m'"
      if x: "bx_x0 b \<le> x" "x < bx_x1 b" and m: "length (fst m) = unat (pc_sw c) * unat (pc_sh c)" for x and m :: cells
    proof -
      have "wio_at c x (bx_y0 b) + nat (i - bx_y0 b) = wio_at c x i" if "bx_y0 b \<le> i" "i < bx_y1 b" for i
        using that b x wio_col [of x c "bx_y0 b" i] by simp
      then obtain m' where m': "?f x m = Some m'"
          "wio.drew c (nat (bx_y1 b - bx_y0 b)) (\<lambda>X Y. \<exists>i. bx_y0 b \<le> i \<and> i < bx_y1 b \<and> X = x \<and> Y = i) (\<lambda>_ _. v) m m'"
        using wio.drew_run [of "bx_y0 b" "bx_y1 b" m c "\<lambda>_. x" "\<lambda>i. i" "wio_at c x (bx_y0 b)" v] b x m by auto
      have "wio.drew c (nat (bx_y1 b - bx_y0 b)) (\<lambda>X Y. X = x \<and> (bx_y0 b \<le> Y \<and> Y < bx_y1 b)) (\<lambda>_ _. v) m m'"
        by (rule wio.drew_cong [OF m'(2)]) auto
      with m'(1) show ?thesis by blast
    qed
    have "\<exists>m'. for_range (bx_x0 b) (bx_x1 b) ?f (fb, pc_stores c) = Some m' \<and>
        wio.drew c (\<Sum>x \<in> {bx_x0 b..<bx_x1 b}. nat (bx_y1 b - bx_y0 b))
          (\<lambda>x y. bx_x0 b \<le> x \<and> x < bx_x1 b \<and> bx_y0 b \<le> y \<and> y < bx_y1 b) (\<lambda>_ _. v) (fb, pc_stores c) m'"
      by (rule wio.drew_cols) (use b fb(2) line in auto)
    then show "\<exists>m'. wio_fill_loop c b v (fb, pc_stores c) = Some m' \<and>
        wio.drew c (nat (bx_x1 b - bx_x0 b) * nat (bx_y1 b - bx_y0 b))
          (\<lambda>x y. bx_x0 b \<le> x \<and> x < bx_x1 b \<and> bx_y0 b \<le> y \<and> y < bx_y1 b) (\<lambda>_ _. v) (fb, pc_stores c) m'"
      by (simp add: wio_fill_loop_def)
  qed (simp_all add: addr_indep)
  then show ?thesis
    by (simp add: wio_paint_fill_rect_def fb ind Let_def cong: option.case_cong prod.case_cong)
qed

lemma f746g_fill:
  assumes "ctx_ok c"
  shows "paints f746g_at id (fill_shape (pc_sw c) (pc_sh c) r) (\<lambda>_ _. v) c (f746g_paint_fill_rect c (Some r) v)"
proof -
  obtain fb where fb: "pc_fb c = Some fb" "length fb = unat (pc_sw c) * unat (pc_sh c)"
    using assms by (auto simp: ctx_ok_def)
  have ind: "f746g_fill_loop (c\<lparr>pc_bud := b\<rparr>) = f746g_fill_loop c" for b
    by (intro ext) (simp add: f746g_fill_loop_def f746g_at_def)
  have "paints f746g_at id (fill_shape (pc_sw c) (pc_sh c) r) (\<lambda>_ _. v) c
    (let (b, bud) = plugin_paint_fill_begin (pc_bud c) (pc_sw c) (pc_sh c) (Some r); c1 = c\<lparr>pc_bud := bud\<rparr> in
     case b of None \<Rightarrow> Some c1 | Some b \<Rightarrow> on_cells (f746g_fill_loop c b v) c1)"
  proof (rule f746g.paints_fill [where v' = v and addr = f746g_at, OF fb refl refl refl])
    fix b :: plugin_paint_box
    assume b: "0 \<le> bx_x0 b" "bx_x0 b < bx_x1 b" "bx_x1 b \<le> uint (pc_sw c)"
      "0 \<le> bx_y0 b" "bx_y0 b < bx_y1 b" "bx_y1 b \<le> uint (pc_sh c)"
    let ?f = "\<lambda>y m. map_option fst (for_range (bx_x0 b) (bx_x1 b)
          (\<lambda>_ (m, d). do { m \<leftarrow> PAINT_PUT d v m; Some (m, d + 1) }) (m, f746g_at c (bx_x0 b) y))"
    have line: "\<exists>m'. ?f y m = Some m' \<and>
        f746g.drew c (nat (bx_x1 b - bx_x0 b)) (\<lambda>X Y. Y = y \<and> (bx_x0 b \<le> X \<and> X < bx_x1 b)) (\<lambda>_ _. v) m m'"
      if y: "bx_y0 b \<le> y" "y < bx_y1 b" and m: "length (fst m) = unat (pc_sw c) * unat (pc_sh c)" for y and m :: cells
    proof -
      have "f746g_at c (bx_x0 b) y + nat (i - bx_x0 b) = f746g_at c i y" if "bx_x0 b \<le> i" "i < bx_x1 b" for i
        using that b y f746g_row [of "bx_x0 b" i c y] by simp
      then obtain m' where m': "?f y m = Some m'"
          "f746g.drew c (nat (bx_x1 b - bx_x0 b)) (\<lambda>X Y. \<exists>i. bx_x0 b \<le> i \<and> i < bx_x1 b \<and> X = i \<and> Y = y) (\<lambda>_ _. v) m m'"
        using f746g.drew_run [of "bx_x0 b" "bx_x1 b" m c "\<lambda>i. i" "\<lambda>_. y" "f746g_at c (bx_x0 b) y" v] b y m by auto
      have "f746g.drew c (nat (bx_x1 b - bx_x0 b)) (\<lambda>X Y. Y = y \<and> (bx_x0 b \<le> X \<and> X < bx_x1 b)) (\<lambda>_ _. v) m m'"
        by (rule f746g.drew_cong [OF m'(2)]) auto
      with m'(1) show ?thesis by blast
    qed
    obtain m' where m': "for_range (bx_y0 b) (bx_y1 b) ?f (fb, pc_stores c) = Some m'"
        "f746g.drew c (\<Sum>y \<in> {bx_y0 b..<bx_y1 b}. nat (bx_x1 b - bx_x0 b))
          (\<lambda>x y. bx_y0 b \<le> y \<and> y < bx_y1 b \<and> bx_x0 b \<le> x \<and> x < bx_x1 b) (\<lambda>_ _. v) (fb, pc_stores c) m'"
      using f746g.drew_rows [of "bx_y0 b" "bx_y1 b" "(fb, pc_stores c)" c ?f "\<lambda>_. nat (bx_x1 b - bx_x0 b)"
          "\<lambda>x y. bx_x0 b \<le> x \<and> x < bx_x1 b" "\<lambda>_ _. v"] b fb(2) line by auto
    have "f746g.drew c (nat (bx_x1 b - bx_x0 b) * nat (bx_y1 b - bx_y0 b))
        (\<lambda>x y. bx_x0 b \<le> x \<and> x < bx_x1 b \<and> bx_y0 b \<le> y \<and> y < bx_y1 b) (\<lambda>_ _. v) (fb, pc_stores c) m'"
      by (rule f746g.drew_cong [OF m'(2)]) auto
    with m'(1) show "\<exists>m'. f746g_fill_loop c b (v) (fb, pc_stores c) = Some m' \<and>
        f746g.drew c (nat (bx_x1 b - bx_x0 b) * nat (bx_y1 b - bx_y0 b))
          (\<lambda>x y. bx_x0 b \<le> x \<and> x < bx_x1 b \<and> bx_y0 b \<le> y \<and> y < bx_y1 b) (\<lambda>_ _. v) (fb, pc_stores c) m'"
      by (intro exI [of _ m'] conjI) (simp_all add: f746g_fill_loop_def)
  qed (simp_all add: addr_indep)
  then show ?thesis
    by (simp add: f746g_paint_fill_rect_def fb ind Let_def cong: option.case_cong prod.case_cong)
qed

lemma grove_fill:
  assumes "ctx_ok c"
  shows "paints grove_at lcd_wire (fill_shape (pc_sw c) (pc_sh c) r) (\<lambda>_ _. v) c (grove_paint_fill_rect c (Some r) v)"
proof -
  obtain fb where fb: "pc_fb c = Some fb" "length fb = unat (pc_sw c) * unat (pc_sh c)"
    using assms by (auto simp: ctx_ok_def)
  have ind: "grove_fill_loop (c\<lparr>pc_bud := b\<rparr>) = grove_fill_loop c" for b
    by (intro ext) (simp add: grove_fill_loop_def grove_row_def)
  have "paints grove_at lcd_wire (fill_shape (pc_sw c) (pc_sh c) r) (\<lambda>_ _. v) c
    (let (b, bud) = plugin_paint_fill_begin (pc_bud c) (pc_sw c) (pc_sh c) (Some r); c1 = c\<lparr>pc_bud := bud\<rparr> in
     case b of None \<Rightarrow> Some c1 | Some b \<Rightarrow> on_cells (grove_fill_loop c b (lcd_wire v)) c1)"
  proof (rule grove.paints_fill [where v' = "lcd_wire v" and addr = grove_at, OF fb refl refl refl])
    fix b :: plugin_paint_box
    assume b: "0 \<le> bx_x0 b" "bx_x0 b < bx_x1 b" "bx_x1 b \<le> uint (pc_sw c)"
      "0 \<le> bx_y0 b" "bx_y0 b < bx_y1 b" "bx_y1 b \<le> uint (pc_sh c)"
    let ?f = "\<lambda>y. for_range (bx_x0 b) (bx_x1 b) (\<lambda>x. PAINT_PUT (grove_at c x y) (lcd_wire v))"
    obtain m' where m': "for_range (bx_y0 b) (bx_y1 b) ?f (fb, pc_stores c) = Some m'"
        "grove.drew c (\<Sum>y \<in> {bx_y0 b..<bx_y1 b}. nat (bx_x1 b - bx_x0 b))
          (\<lambda>x y. bx_y0 b \<le> y \<and> y < bx_y1 b \<and> bx_x0 b \<le> x \<and> x < bx_x1 b) (\<lambda>_ _. lcd_wire v) (fb, pc_stores c) m'"
      using grove.drew_rows [of "bx_y0 b" "bx_y1 b" "(fb, pc_stores c)" c ?f "\<lambda>_. nat (bx_x1 b - bx_x0 b)"
          "\<lambda>x y. bx_x0 b \<le> x \<and> x < bx_x1 b" "\<lambda>_ _. lcd_wire v"]
        grove.drew_row [of _ c "bx_x0 b" "bx_x1 b" _ "lcd_wire v"] b fb(2) by auto
    have "grove.drew c (nat (bx_x1 b - bx_x0 b) * nat (bx_y1 b - bx_y0 b))
        (\<lambda>x y. bx_x0 b \<le> x \<and> x < bx_x1 b \<and> bx_y0 b \<le> y \<and> y < bx_y1 b) (\<lambda>_ _. lcd_wire v) (fb, pc_stores c) m'"
      by (rule grove.drew_cong [OF m'(2)]) auto
    with m'(1) show "\<exists>m'. grove_fill_loop c b (lcd_wire v) (fb, pc_stores c) = Some m' \<and>
        grove.drew c (nat (bx_x1 b - bx_x0 b) * nat (bx_y1 b - bx_y0 b))
          (\<lambda>x y. bx_x0 b \<le> x \<and> x < bx_x1 b \<and> bx_y0 b \<le> y \<and> y < bx_y1 b) (\<lambda>_ _. lcd_wire v) (fb, pc_stores c) m'"
      by (intro exI [of _ m'] conjI) (simp_all add: grove_fill_loop_def grove_at_def)
  qed (simp_all add: addr_indep wire_twice)
  then show ?thesis
    by (simp add: grove_paint_fill_rect_def fb ind paint_wire_lcd Let_def cong: option.case_cong prod.case_cong)
qed

section \<open>Colour-keyed blits\<close>

text \<open>What a plugin promises of its bitmap: the rows and columns its rectangle declares are there.\<close>

definition src_covers :: "u16 list \<Rightarrow> u32 \<Rightarrow> plugin_rect \<Rightarrow> bool" where
  "src_covers src stride r \<longleftrightarrow> length src < 4294967296 \<and>
    (r_x0 r < r_x1 r \<and> r_y0 r < r_y1 r \<longrightarrow>
      nat (r_y1 r - r_y0 r - 1) * unat stride + nat (r_x1 r - r_x0 r) \<le> length src)"

lemma src_in:
  assumes "src_covers src stride r" "r_x0 r \<le> x" "x < r_x1 r" "r_y0 r \<le> y" "y < r_y1 r"
  shows "src_at stride r x y < length src" "nat (y - r_y0 r) * unat stride < 4294967296"
    "nat (x - r_x0 r) < 4294967296"
proof -
  have "nat (y - r_y0 r) * unat stride \<le> nat (r_y1 r - r_y0 r - 1) * unat stride"
    using assms by (intro mult_right_mono) auto
  moreover have "nat (x - r_x0 r) < nat (r_x1 r - r_x0 r)" using assms by auto
  moreover have "length src < 4294967296" "nat (r_y1 r - r_y0 r - 1) * unat stride + nat (r_x1 r - r_x0 r) \<le> length src"
    using assms by (auto simp: src_covers_def)
  ultimately show "src_at stride r x y < length src" "nat (y - r_y0 r) * unat stride < 4294967296"
    "nat (x - r_x0 r) < 4294967296"
    unfolding src_at_def by linarith+
qed

lemma sint_wi: "0 \<le> v \<Longrightarrow> v < 2147483648 \<Longrightarrow> sint (word_of_int v :: u32) = v"
  by (simp add: signed_of_int signed_take_bit_int_eq_self)

lemma uint_wi: "0 \<le> v \<Longrightarrow> v < 4294967296 \<Longrightarrow> uint (word_of_int v :: u32) = v"
  by (simp add: uint_word_of_int)

lemma src_down: "r_y0 r \<le> y \<Longrightarrow> 0 \<le> i \<Longrightarrow> src_at stride r x y + unat stride * nat i = src_at stride r x (y + i)"
proof -
  assume "r_y0 r \<le> y" "0 \<le> i"
  then have "nat (y + i - r_y0 r) = nat (y - r_y0 r) + nat i" by linarith
  then show ?thesis by (simp add: src_at_def algebra_simps)
qed

lemma src_right: "r_x0 r \<le> x \<Longrightarrow> 0 \<le> i \<Longrightarrow> src_at stride r x y + nat i = src_at stride r (x + i) y"
  unfolding src_at_def by linarith

lemma unat_offset:
  assumes "0 \<le> d" "nat d < 4294967296" "nat d * unat stride < 4294967296"
  shows "unat (word_of_int d * stride :: u32) = nat d * unat stride"
proof -
  have "unat (word_of_int d :: u32) = nat d" using assms by (intro unat_wi) auto
  then show ?thesis using assms by (subst unat_mult_lem [THEN iffD1]) auto
qed

text \<open>The source pointer of a line, for the column loop and for the row loops.\<close>

lemma src_pointer:
  assumes c: "src_covers src stride r"
    and "r_x0 r \<le> x" "x < r_x1 r" "r_y0 r \<le> y" "y < r_y1 r" "nat (y - r_y0 r) < 4294967296"
  shows "unat (word_of_int (y - r_y0 r) * stride :: u32) + unat (word_of_int (x - r_x0 r) :: u32) = src_at stride r x y"
proof -
  have "unat (word_of_int (x - r_x0 r) :: u32) = nat (x - r_x0 r)"
    using assms src_in(3) [OF assms(1-5)] by (intro unat_wi) auto
  moreover have "unat (word_of_int (y - r_y0 r) * stride :: u32) = nat (y - r_y0 r) * unat stride"
    using assms src_in(2) [OF assms(1-5)] by (intro unat_offset) auto
  ultimately show ?thesis by (simp only: src_at_def)
qed

context canvas begin

lemma paints_blit:
  assumes c: "pc_fb c = Some fb" "length fb = cap" "cap = unat (pc_sw c) * unat (pc_sh c)"
    and WH: "W = uint (pc_sw c)" "H = uint (pc_sh c)"
    and addr: "\<And>bud fb n. addr (c\<lparr>pc_bud := bud, pc_fb := fb, pc_stores := n\<rparr>) = idx"
    and dec: "\<And>x y. dec (v' x y) = v x y"
    and loop: "\<And>b. stride \<noteq> 0 \<Longrightarrow> plugin_paint_clip (pc_sw c) (pc_sh c) (Some r) = Some b \<Longrightarrow>
        \<exists>m'. f (blit_span r b) (fb, pc_stores c) = Some m' \<and>
          drew (blit_stores W H r src stride key)
            (\<lambda>x y. visible W H r x y \<and> \<not> keyed key (src ! src_at stride r x y)) v' (fb, pc_stores c) m'"
  shows "paints addr dec (blit_shape (pc_sw c) (pc_sh c) r src stride key) v c
    (let (b, bud) = plugin_paint_blit_begin (pc_bud c) (pc_sw c) (pc_sh c) r stride; c1 = c\<lparr>pc_bud := bud\<rparr> in
     case b of None \<Rightarrow> Some c1 | Some b \<Rightarrow> on_cells (f b) c1)"
proof (cases "stride = 0")
  case True
  then show ?thesis unfolding blit_shape_def if_P [OF True]
    by (intro paints_begin [where v' = v' and addr = addr and B = None, OF c WH])
      (auto simp: plugin_paint_blit_begin_def dec addr split: prod.split)
next
  case False
  show ?thesis unfolding blit_shape_def if_not_P [OF False]
  proof (rule paints_begin [where v' = v' and addr = addr, OF c WH])
    show "plugin_paint_blit_begin (pc_bud c) (pc_sw c) (pc_sh c) r stride =
      (let (ok, bud') = plugin_paint_charge (pc_bud c) (of_nat (area (uint (pc_sw c)) (uint (pc_sh c)) r))
       in (if ok then map_option (blit_span r) (plugin_paint_clip (pc_sw c) (pc_sh c) (Some r)) else None, bud'))"
      by (rule blit_begin_shape [OF False])
    show "area (uint (pc_sw c)) (uint (pc_sh c)) r < 4294967296" by (rule area_small)
    have "blit_stores W H r src stride key = 0 \<and> visible W H r = (\<lambda>_ _. False)" if "area W H r = 0"
      using that unfolding area_def mult_is_0 nat_0_iff
      by (auto simp: blit_stores_def area_0_visible area_def)
    then show "blit_stores (uint (pc_sw c)) (uint (pc_sh c)) r src stride key = 0 \<and>
        (\<lambda>x y. visible (uint (pc_sw c)) (uint (pc_sh c)) r x y \<and> \<not> keyed key (src ! src_at stride r x y)) = (\<lambda>_ _. False)"
      if "map_option (blit_span r) (plugin_paint_clip (pc_sw c) (pc_sh c) (Some r)) = None"
      using that by (auto simp: clip_shape WH split: if_splits)
    fix sp assume "map_option (blit_span r) (plugin_paint_clip (pc_sw c) (pc_sh c) (Some r)) = Some sp"
    then show "\<exists>m'. f sp (fb, pc_stores c) = Some m' \<and>
        drew (blit_stores (uint (pc_sw c)) (uint (pc_sh c)) r src stride key)
          (\<lambda>x y. visible (uint (pc_sw c)) (uint (pc_sh c)) r x y \<and> \<not> keyed key (src ! src_at stride r x y)) v' (fb, pc_stores c) m'"
      using loop [OF False] by (auto simp: WH)
  qed (use dec addr in auto)
qed

end

text \<open>What the loops of all three boards read off the span.\<close>

lemma blit_facts:
  fixes c :: paint_ctx
  assumes cl: "plugin_paint_clip (pc_sw c) (pc_sh c) (Some r) = Some b" and cov: "src_covers src stride r"
    and "r_y1 r - r_y0 r < 4294967296"
  shows "sint (sp_cols (blit_span r b)) = bx_x1 b - bx_x0 b" "sint (sp_rows (blit_span r b)) = bx_y1 b - bx_y0 b"
    "uint (sp_cols (blit_span r b)) = bx_x1 b - bx_x0 b" "uint (sp_rows (blit_span r b)) = bx_y1 b - bx_y0 b"
    "0 \<le> bx_x0 b" "bx_x1 b \<le> uint (pc_sw c)" "0 \<le> bx_y0 b" "bx_y1 b \<le> uint (pc_sh c)"
    "\<And>x y. bx_x0 b \<le> x \<Longrightarrow> x < bx_x1 b \<Longrightarrow> bx_y0 b \<le> y \<Longrightarrow> y < bx_y1 b \<Longrightarrow>
       unat (word_of_int (y - r_y0 r) * stride :: u32) + unat (word_of_int (x - r_x0 r) :: u32) = src_at stride r x y \<and>
       src_at stride r x y < length src"
proof -
  note b = clip_box [OF cl]
  have r: "0 \<le> bx_x0 b" "bx_x1 b \<le> uint (pc_sw c)" "0 \<le> bx_y0 b" "bx_y1 b \<le> uint (pc_sh c)"
    using b by auto
  have w: "0 \<le> bx_x1 b - bx_x0 b" "bx_x1 b - bx_x0 b < 65536" "0 \<le> bx_y1 b - bx_y0 b" "bx_y1 b - bx_y0 b < 65536"
    using r b(5,6) uint_u16 [of "pc_sw c"] uint_u16 [of "pc_sh c"] by linarith+
  show "sint (sp_cols (blit_span r b)) = bx_x1 b - bx_x0 b" "sint (sp_rows (blit_span r b)) = bx_y1 b - bx_y0 b"
    using w sint_wi [of "bx_x1 b - bx_x0 b"] sint_wi [of "bx_y1 b - bx_y0 b"]
    by (simp_all add: blit_span_def del: wi_hom_syms)
  show "uint (sp_cols (blit_span r b)) = bx_x1 b - bx_x0 b" "uint (sp_rows (blit_span r b)) = bx_y1 b - bx_y0 b"
    using w uint_wi [of "bx_x1 b - bx_x0 b"] uint_wi [of "bx_y1 b - bx_y0 b"]
    by (simp_all add: blit_span_def del: wi_hom_syms)
  show "0 \<le> bx_x0 b" "bx_x1 b \<le> uint (pc_sw c)" "0 \<le> bx_y0 b" "bx_y1 b \<le> uint (pc_sh c)" by (fact r)+
  fix x y assume a: "bx_x0 b \<le> x" "x < bx_x1 b" "bx_y0 b \<le> y" "y < bx_y1 b"
  have "r_x0 r \<le> x" "x < r_x1 r" "r_y0 r \<le> y" "y < r_y1 r" using a b by auto
  note i = this
  have "nat (y - r_y0 r) < 4294967296" using i assms(3) by linarith
  from src_pointer [OF cov i this] src_in(1) [OF cov i]
  show "unat (word_of_int (y - r_y0 r) * stride :: u32) + unat (word_of_int (x - r_x0 r) :: u32) = src_at stride r x y \<and>
       src_at stride r x y < length src" by blast
qed

lemma visible_box:
  assumes "plugin_paint_clip w h (Some r) = Some b"
  shows "visible (uint w) (uint h) r x y \<longleftrightarrow> bx_x0 b \<le> x \<and> x < bx_x1 b \<and> bx_y0 b \<le> y \<and> y < bx_y1 b"
    "blit_stores (uint w) (uint h) r src stride key =
      (\<Sum>x \<in> {bx_x0 b..<bx_x1 b}. \<Sum>y \<in> {bx_y0 b..<bx_y1 b}. if keyed key (src ! src_at stride r x y) then 0 else 1)"
  using clip_box [OF assms] by (auto simp: visible_def blit_stores_def)

lemma wio_blit:
  assumes "ctx_ok c" and cov: "src_covers src stride r" and small: "r_y1 r - r_y0 r < 4294967296"
  shows "paints wio_at id (blit_shape (pc_sw c) (pc_sh c) r src stride key) (\<lambda>x y. src ! src_at stride r x y) c
    (wio_paint_blit c (Some r) (Some src) stride key)"
proof -
  obtain fb where fb: "pc_fb c = Some fb" "length fb = unat (pc_sw c) * unat (pc_sh c)"
    using assms by (auto simp: ctx_ok_def)
  have ind: "wio_blit_loop (c\<lparr>pc_bud := b\<rparr>) = wio_blit_loop c" for b
    by (intro ext) (simp add: wio_blit_loop_def wio_at_def)
  let ?v = "\<lambda>x y. src ! src_at stride r x y"
  have "paints wio_at id (blit_shape (pc_sw c) (pc_sh c) r src stride key) ?v c
    (let (b, bud) = plugin_paint_blit_begin (pc_bud c) (pc_sw c) (pc_sh c) r stride; c1 = c\<lparr>pc_bud := bud\<rparr> in
     case b of None \<Rightarrow> Some c1 | Some b \<Rightarrow> on_cells ((\<lambda>sp. wio_blit_loop c sp src stride key) b) c1)"
  proof (rule wio.paints_blit [where v' = ?v and addr = wio_at, OF fb refl refl refl])
    fix b assume cl: "plugin_paint_clip (pc_sw c) (pc_sh c) (Some r) = Some b"
    note f = blit_facts [OF cl cov small] and b = clip_box [OF cl]
    let ?q = "\<lambda>x y. keyed key (?v x y)"
    let ?col = "\<lambda>x m. map_option fst (for_range 0 (bx_y1 b - bx_y0 b)
        (\<lambda>_ (m, s, d). do {
            px \<leftarrow> ld src s;
            let s = s + unat stride in
            if key \<ge> 0 \<and> px = word_of_int key then Some (m, s, d + 1)
            else do { m \<leftarrow> PAINT_PUT d px m; Some (m, s, d + 1) } })
        (m, src_at stride r x (bx_y0 b), wio_at c x (bx_y0 b)))"
    have col: "\<exists>m'. ?col x m = Some m' \<and> wio.drew c (\<Sum>y \<in> {bx_y0 b..<bx_y1 b}. if ?q x y then 0 else 1)
          (\<lambda>X Y. X = x \<and> (bx_y0 b \<le> Y \<and> Y < bx_y1 b \<and> \<not> ?q X Y)) ?v m m'"
      if x: "bx_x0 b \<le> x" "x < bx_x1 b" and m: "length (fst m) = unat (pc_sw c) * unat (pc_sh c)" for x and m :: cells
    proof -
      have "r_y0 r \<le> bx_y0 b" using b(2) by simp
      note down = src_down [OF this, where stride = stride and x = x]
      have "\<exists>m'. ?col x m = Some m' \<and>
          wio.drew c (\<Sum>y \<in> {bx_y0 b..<bx_y0 b + (bx_y1 b - bx_y0 b)}. if ?q x y then 0 else 1)
            (\<lambda>X Y. X = x \<and> bx_y0 b \<le> Y \<and> Y < bx_y0 b + (bx_y1 b - bx_y0 b) \<and> \<not> ?q X Y) ?v m m'"
      proof (rule wio.drew_blit_col)
        fix i assume i: "0 \<le> i" "i < bx_y1 b - bx_y0 b"
        have "src_at stride r x (bx_y0 b + i) < length src" using f(9) [OF x, of "bx_y0 b + i"] i by simp
        moreover have "wio_at c x (bx_y0 b) + nat i = wio_at c x (bx_y0 b + i)"
          using wio_col [of x c "bx_y0 b" "bx_y0 b + i"] f(5-8) x i by simp
        ultimately show "src_at stride r x (bx_y0 b) + unat stride * nat i < length src \<and>
            wio_at c x (bx_y0 b) + nat i = wio_at c x (bx_y0 b + i) \<and> 0 \<le> x \<and> x < uint (pc_sw c) \<and>
            0 \<le> bx_y0 b + i \<and> bx_y0 b + i < uint (pc_sh c) \<and>
            ?v x (bx_y0 b + i) = src ! (src_at stride r x (bx_y0 b) + unat stride * nat i) \<and>
            ?q x (bx_y0 b + i) = keyed key (src ! (src_at stride r x (bx_y0 b) + unat stride * nat i))"
          using f(5-8) x i by (simp add: down)
      qed (use b(6) m in simp_all)
      then show ?thesis by simp
    qed
    obtain m' where m': "for_range (bx_x0 b) (bx_x1 b) ?col (fb, pc_stores c) = Some m'"
        "wio.drew c (\<Sum>x \<in> {bx_x0 b..<bx_x1 b}. \<Sum>y \<in> {bx_y0 b..<bx_y1 b}. if ?q x y then 0 else 1)
          (\<lambda>X Y. bx_x0 b \<le> X \<and> X < bx_x1 b \<and> (bx_y0 b \<le> Y \<and> Y < bx_y1 b \<and> \<not> ?q X Y)) ?v (fb, pc_stores c) m'"
      using wio.drew_cols [of "bx_x0 b" "bx_x1 b" "(fb, pc_stores c)" c ?col, OF _ _ col] b fb(2) by fastforce
    have "wio_blit_loop c (blit_span r b) src stride key (fb, pc_stores c) =
        for_range 0 (bx_x1 b - bx_x0 b) (\<lambda>x. ?col (bx_x0 b + x)) (fb, pc_stores c)"
      unfolding wio_blit_loop_def f(1,2)
    proof (rule for_range_cong)
      fix x and m :: cells assume x: "0 \<le> x" "x < bx_x1 b - bx_x0 b"
      have e: "sp_sx0 (blit_span r b) + word_of_int x = word_of_int (bx_x0 b + x - r_x0 r)"
        "sp_sy0 (blit_span r b) = word_of_int (bx_y0 b - r_y0 r)"
        by (simp_all add: blit_span_def)
      have "unat (sp_sy0 (blit_span r b) * stride) + unat (sp_sx0 (blit_span r b) + word_of_int x) =
          src_at stride r (bx_x0 b + x) (bx_y0 b)"
        unfolding e by (rule f(9) [THEN conjunct1]) (use x b(6) in simp_all)
      then show "map_option fst (for_range 0 (bx_y1 b - bx_y0 b) (\<lambda>_ (m, s, d). do {
            px \<leftarrow> ld src s;
            let s = s + unat stride in
            if key \<ge> 0 \<and> px = word_of_int key then Some (m, s, d + 1)
            else do { m \<leftarrow> PAINT_PUT d px m; Some (m, s, d + 1) } })
          (m, unat (sp_sy0 (blit_span r b) * stride) + unat (sp_sx0 (blit_span r b) + word_of_int x),
           wio_at c (sp_x0 (blit_span r b) + x) (sp_y0 (blit_span r b)))) = ?col (bx_x0 b + x) m"
        by (simp add: blit_span_def)
    qed
    also have "\<dots> = for_range (bx_x0 b) (bx_x1 b) ?col (fb, pc_stores c)"
      using for_range_shift [of 0 "bx_x1 b - bx_x0 b" ?col "bx_x0 b"] by simp
    finally show "\<exists>m'. wio_blit_loop c (blit_span r b) src stride key (fb, pc_stores c) = Some m' \<and>
       wio.drew c (blit_stores (uint (pc_sw c)) (uint (pc_sh c)) r src stride key)
        (\<lambda>x y. visible (uint (pc_sw c)) (uint (pc_sh c)) r x y \<and> \<not> ?q x y) ?v (fb, pc_stores c) m'"
      using m' by (simp add: visible_box [OF cl])
  qed (simp_all add: addr_indep)
  then show ?thesis
    by (simp add: wio_paint_blit_def fb ind Let_def cong: option.case_cong prod.case_cong)
qed

text \<open>The two row-major boards share a loop: a canvas whose pixels run along a row.\<close>

locale row_major = canvas +
  assumes row_step: "0 \<le> x \<Longrightarrow> x \<le> x' \<Longrightarrow> x' < W \<Longrightarrow> 0 \<le> y \<Longrightarrow> y < H \<Longrightarrow> idx x y + nat (x' - x) = idx x' y"
begin

lemma drew_blit_rows:
  assumes box: "0 \<le> X0" "X0 < X1" "X1 \<le> W" "0 \<le> Y0" "Y0 < Y1" "Y1 \<le> H" "r_x0 r \<le> X0"
    and m: "length (fst m) = cap"
    and inside: "\<And>x y. X0 \<le> x \<Longrightarrow> x < X1 \<Longrightarrow> Y0 \<le> y \<Longrightarrow> y < Y1 \<Longrightarrow> src_at stride r x y < length src"
  shows "\<exists>m'. for_range Y0 Y1 (\<lambda>y. for_range 0 (X1 - X0) (\<lambda>x m. do {
            px \<leftarrow> ld src (src_at stride r X0 y + nat x);
            if key \<ge> 0 \<and> px = word_of_int key then Some m else PAINT_PUT (idx X0 y + nat x) (g px) m })) m = Some m' \<and>
    drew (\<Sum>x \<in> {X0..<X1}. \<Sum>y \<in> {Y0..<Y1}. if keyed key (src ! src_at stride r x y) then 0 else 1)
      (\<lambda>x y. X0 \<le> x \<and> x < X1 \<and> Y0 \<le> y \<and> y < Y1 \<and> \<not> keyed key (src ! src_at stride r x y))
      (\<lambda>x y. g (src ! src_at stride r x y)) m m'"
proof -
  let ?q = "\<lambda>x y. keyed key (src ! src_at stride r x y)"
  let ?f = "\<lambda>y. for_range 0 (X1 - X0) (\<lambda>x m. do {
            px \<leftarrow> ld src (src_at stride r X0 y + nat x);
            if key \<ge> 0 \<and> px = word_of_int key then Some m else PAINT_PUT (idx X0 y + nat x) (g px) m })"
  let ?v = "\<lambda>x y. g (src ! src_at stride r x y)"
  have row: "\<exists>m'. ?f y m = Some m' \<and> drew (\<Sum>x \<in> {X0..<X1}. if ?q x y then 0 else 1)
      (\<lambda>X Y. Y = y \<and> (X0 \<le> X \<and> X < X1 \<and> \<not> ?q X Y)) ?v m m'"
    if y: "Y0 \<le> y" "y < Y1" and m: "length (fst m) = cap" for y and m :: cells
  proof -
    have "\<exists>m'. ?f y m = Some m' \<and> drew (\<Sum>x \<in> {X0..<X0 + (X1 - X0)}. if ?q x y then 0 else 1)
        (\<lambda>X Y. Y = y \<and> X0 \<le> X \<and> X < X0 + (X1 - X0) \<and> \<not> ?q X Y) ?v m m'"
    proof (rule drew_blit_row)
      fix i assume i: "0 \<le> i" "i < X1 - X0"
      have "src_at stride r (X0 + i) y < length src" using inside [of "X0 + i" y] y i by simp
      moreover have "idx X0 y + nat i = idx (X0 + i) y" using row_step [of X0 "X0 + i" y] box y i by simp
      ultimately show "src_at stride r X0 y + nat i < length src \<and> idx X0 y + nat i = idx (X0 + i) y \<and>
          0 \<le> X0 + i \<and> X0 + i < W \<and> 0 \<le> y \<and> y < H \<and> ?v (X0 + i) y = g (src ! (src_at stride r X0 y + nat i)) \<and>
          ?q (X0 + i) y = keyed key (src ! (src_at stride r X0 y + nat i))"
        using box y i by (simp add: src_right)
    qed (use box m in simp_all)
    then show ?thesis by simp
  qed
  obtain m' where m': "for_range Y0 Y1 ?f m = Some m'"
      "drew (\<Sum>y \<in> {Y0..<Y1}. \<Sum>x \<in> {X0..<X1}. if ?q x y then 0 else 1)
        (\<lambda>X Y. Y0 \<le> Y \<and> Y < Y1 \<and> (X0 \<le> X \<and> X < X1 \<and> \<not> ?q X Y)) ?v m m'"
    using drew_rows [of Y0 Y1 m ?f, OF _ m row] box by fastforce
  have "drew (\<Sum>x \<in> {X0..<X1}. \<Sum>y \<in> {Y0..<Y1}. if ?q x y then 0 else 1)
      (\<lambda>x y. X0 \<le> x \<and> x < X1 \<and> Y0 \<le> y \<and> y < Y1 \<and> \<not> ?q x y) ?v m m'"
    by (rule drew_cong [OF m'(2) sum.swap]) auto
  with m'(1) show ?thesis by blast
qed

end

interpretation f746g: row_major "f746g_at c" "uint (pc_sw c)" "uint (pc_sh c)" "unat (pc_sw c) * unat (pc_sh c)"
  for c
  by unfold_locales (rule f746g_row)

interpretation grove: row_major "grove_at c" "uint (pc_sw c)" "uint (pc_sh c)" "unat (pc_sw c) * unat (pc_sh c)"
  for c
  by unfold_locales (auto simp: grove_at_def)

text \<open>The source pointer of a row, as both loops compute it.\<close>

lemma row_pointer:
  assumes "src_at stride r (bx_x0 b) (bx_y0 b + y) =
      unat (word_of_int (bx_y0 b + y - r_y0 r) * stride :: u32) + unat (word_of_int (bx_x0 b - r_x0 r) :: u32)"
  shows "unat ((sp_sy0 (blit_span r b) + word_of_int y) * stride) + unat (sp_sx0 (blit_span r b)) =
    src_at stride r (bx_x0 b) (bx_y0 b + y)"
proof -
  have e: "sp_sy0 (blit_span r b) + word_of_int y = word_of_int (bx_y0 b + y - r_y0 r)"
    "sp_sx0 (blit_span r b) = word_of_int (bx_x0 b - r_x0 r)"
    by (simp_all add: blit_span_def)
  show ?thesis unfolding e assms ..
qed

lemma f746g_blit:
  assumes "ctx_ok c" and cov: "src_covers src stride r" and small: "r_y1 r - r_y0 r < 4294967296"
  shows "paints f746g_at id (blit_shape (pc_sw c) (pc_sh c) r src stride key) (\<lambda>x y. src ! src_at stride r x y) c
    (f746g_paint_blit c (Some r) (Some src) stride key)"
proof -
  obtain fb where fb: "pc_fb c = Some fb" "length fb = unat (pc_sw c) * unat (pc_sh c)"
    using assms by (auto simp: ctx_ok_def)
  have ind: "f746g_blit_loop (c\<lparr>pc_bud := b\<rparr>) = f746g_blit_loop c" for b
    by (intro ext) (simp add: f746g_blit_loop_def f746g_at_def)
  let ?v = "\<lambda>x y. src ! src_at stride r x y"
  have "paints f746g_at id (blit_shape (pc_sw c) (pc_sh c) r src stride key) ?v c
    (let (b, bud) = plugin_paint_blit_begin (pc_bud c) (pc_sw c) (pc_sh c) r stride; c1 = c\<lparr>pc_bud := bud\<rparr> in
     case b of None \<Rightarrow> Some c1 | Some b \<Rightarrow> on_cells ((\<lambda>sp. f746g_blit_loop c sp src stride key) b) c1)"
  proof (rule f746g.paints_blit [where v' = ?v and addr = f746g_at, OF fb refl refl refl])
    fix b assume cl: "plugin_paint_clip (pc_sw c) (pc_sh c) (Some r) = Some b"
    note f = blit_facts [OF cl cov small] and b = clip_box [OF cl]
    let ?row = "\<lambda>y. for_range 0 (bx_x1 b - bx_x0 b) (\<lambda>x m. do {
            px \<leftarrow> ld src (src_at stride r (bx_x0 b) y + nat x);
            if key \<ge> 0 \<and> px = word_of_int key then Some m else PAINT_PUT (f746g_at c (bx_x0 b) y + nat x) px m })"
    have "f746g_blit_loop c (blit_span r b) src stride key (fb, pc_stores c) =
        for_range 0 (bx_y1 b - bx_y0 b) (\<lambda>y. ?row (bx_y0 b + y)) (fb, pc_stores c)"
      unfolding f746g_blit_loop_def f(3,4)
    proof (rule for_range_cong)
      fix y and m :: cells assume y: "0 \<le> y" "y < bx_y1 b - bx_y0 b"
      have "unat ((sp_sy0 (blit_span r b) + word_of_int y) * stride) + unat (sp_sx0 (blit_span r b)) =
          src_at stride r (bx_x0 b) (bx_y0 b + y)"
        by (rule row_pointer, rule sym, rule f(9) [THEN conjunct1]) (use y b(5) in simp_all)
      then show "(let s = unat ((sp_sy0 (blit_span r b) + word_of_int y) * stride) + unat (sp_sx0 (blit_span r b));
           d = f746g_at c (sp_x0 (blit_span r b)) (sp_y0 (blit_span r b) + y) in
         for_range 0 (bx_x1 b - bx_x0 b) (\<lambda>x m. do {
            px \<leftarrow> ld src (s + nat x);
            if key \<ge> 0 \<and> px = word_of_int key then Some m
            else PAINT_PUT (d + nat x) px m }) m) = ?row (bx_y0 b + y) m"
        by (simp add: blit_span_def Let_def)
    qed
    also have "\<dots> = for_range (bx_y0 b) (bx_y1 b) ?row (fb, pc_stores c)"
      using for_range_shift [of 0 "bx_y1 b - bx_y0 b" ?row "bx_y0 b"] by simp
    finally show "\<exists>m'. f746g_blit_loop c (blit_span r b) src stride key (fb, pc_stores c) = Some m' \<and>
       f746g.drew c (blit_stores (uint (pc_sw c)) (uint (pc_sh c)) r src stride key)
        (\<lambda>x y. visible (uint (pc_sw c)) (uint (pc_sh c)) r x y \<and> \<not> keyed key (?v x y)) ?v (fb, pc_stores c) m'"
      using f746g.drew_blit_rows [where m = "(fb, pc_stores c)" and g = "\<lambda>x. x" and src = src and key = key
          and stride = stride and r = r and c = c, OF f(5) b(5) f(6,7) b(6) f(8) _ _ f(9) [THEN conjunct2]] b(1) fb(2)
      by (simp add: visible_box [OF cl] conj_assoc)
  qed (simp_all add: addr_indep)
  then show ?thesis
    by (simp add: f746g_paint_blit_def fb ind Let_def cong: option.case_cong prod.case_cong)
qed

lemma grove_blit:
  assumes "ctx_ok c" and cov: "src_covers src stride r" and small: "r_y1 r - r_y0 r < 4294967296"
  shows "paints grove_at lcd_wire (blit_shape (pc_sw c) (pc_sh c) r src stride key) (\<lambda>x y. src ! src_at stride r x y) c
    (grove_paint_blit c (Some r) (Some src) stride key)"
proof -
  obtain fb where fb: "pc_fb c = Some fb" "length fb = unat (pc_sw c) * unat (pc_sh c)"
    using assms by (auto simp: ctx_ok_def)
  have ind: "grove_blit_loop (c\<lparr>pc_bud := b\<rparr>) = grove_blit_loop c" for b
    by (intro ext) (simp add: grove_blit_loop_def grove_row_def)
  let ?v = "\<lambda>x y. src ! src_at stride r x y"
  have "paints grove_at lcd_wire (blit_shape (pc_sw c) (pc_sh c) r src stride key) ?v c
    (let (b, bud) = plugin_paint_blit_begin (pc_bud c) (pc_sw c) (pc_sh c) r stride; c1 = c\<lparr>pc_bud := bud\<rparr> in
     case b of None \<Rightarrow> Some c1 | Some b \<Rightarrow> on_cells ((\<lambda>sp. grove_blit_loop c sp src stride key) b) c1)"
  proof (rule grove.paints_blit [where v' = "\<lambda>x y. lcd_wire (?v x y)" and addr = grove_at, OF fb refl refl refl])
    fix b assume cl: "plugin_paint_clip (pc_sw c) (pc_sh c) (Some r) = Some b"
    note f = blit_facts [OF cl cov small] and b = clip_box [OF cl]
    let ?row = "\<lambda>y. for_range 0 (bx_x1 b - bx_x0 b) (\<lambda>x m. do {
            px \<leftarrow> ld src (src_at stride r (bx_x0 b) y + nat x);
            if key \<ge> 0 \<and> px = word_of_int key then Some m else PAINT_PUT (grove_at c (bx_x0 b) y + nat x) (lcd_wire px) m })"
    have "grove_blit_loop c (blit_span r b) src stride key (fb, pc_stores c) =
        for_range 0 (bx_y1 b - bx_y0 b) (\<lambda>y. ?row (bx_y0 b + y)) (fb, pc_stores c)"
      unfolding grove_blit_loop_def f(1,2)
    proof (rule for_range_cong)
      fix y and m :: cells assume y: "0 \<le> y" "y < bx_y1 b - bx_y0 b"
      have "unat ((sp_sy0 (blit_span r b) + word_of_int y) * stride) + unat (sp_sx0 (blit_span r b)) =
          src_at stride r (bx_x0 b) (bx_y0 b + y)"
        by (rule row_pointer, rule sym, rule f(9) [THEN conjunct1]) (use y b(5) in simp_all)
      then show "(let s = unat ((sp_sy0 (blit_span r b) + word_of_int y) * stride) + unat (sp_sx0 (blit_span r b));
           d = grove_row c (sp_y0 (blit_span r b) + y) + nat (sp_x0 (blit_span r b)) in
         for_range 0 (bx_x1 b - bx_x0 b) (\<lambda>x m. do {
            px \<leftarrow> ld src (s + nat x);
            if key \<ge> 0 \<and> px = word_of_int key then Some m
            else PAINT_PUT (d + nat x) (paint_wire px) m }) m) = ?row (bx_y0 b + y) m"
        by (simp add: blit_span_def Let_def paint_wire_lcd grove_at_def cong: if_cong)
    qed
    also have "\<dots> = for_range (bx_y0 b) (bx_y1 b) ?row (fb, pc_stores c)"
      using for_range_shift [of 0 "bx_y1 b - bx_y0 b" ?row "bx_y0 b"] by simp
    finally show "\<exists>m'. grove_blit_loop c (blit_span r b) src stride key (fb, pc_stores c) = Some m' \<and>
       grove.drew c (blit_stores (uint (pc_sw c)) (uint (pc_sh c)) r src stride key)
        (\<lambda>x y. visible (uint (pc_sw c)) (uint (pc_sh c)) r x y \<and> \<not> keyed key (?v x y))
        (\<lambda>x y. lcd_wire (?v x y)) (fb, pc_stores c) m'"
      using grove.drew_blit_rows [where m = "(fb, pc_stores c)" and g = lcd_wire and src = src and key = key
          and stride = stride and r = r and c = c, OF f(5) b(5) f(6,7) b(6) f(8) _ _ f(9) [THEN conjunct2]] b(1) fb(2)
      by (simp add: visible_box [OF cl] conj_assoc)
  qed (simp_all add: addr_indep wire_twice)
  then show ?thesis
    by (simp add: grove_paint_blit_def fb ind Let_def cong: option.case_cong prod.case_cong)
qed

section \<open>The boards agree\<close>

text \<open>Where the controllers of the boards take pixel \<open>(x, y)\<close> from, in exact arithmetic: a panel
  mounted turned by 90 degrees, and a row-major panel.\<close>

definition turned_panel :: "paint_ctx \<Rightarrow> int \<Rightarrow> int \<Rightarrow> nat" where
  "turned_panel c x y = nat ((uint (pc_sw c) - 1 - x) * uint (pc_sh c) + y)"

definition row_panel :: "paint_ctx \<Rightarrow> int \<Rightarrow> int \<Rightarrow> nat" where
  "row_panel c x y = nat (y * uint (pc_sw c) + x)"

lemma panels:
  "paints turned_panel = paints wio_at" "paints row_panel = paints f746g_at" "paints row_panel = paints grove_at"
proof -
  have v: "view turned_panel dec c = view wio_at dec c" "view row_panel dec c = view f746g_at dec c"
    "view row_panel dec c = view grove_at dec c" for dec c
    by (intro ext; simp add: view_def turned_panel_def row_panel_def wio_at_eq f746g_at_eq grove_at_eq)+
  show "paints turned_panel = paints wio_at" by (intro ext) (simp only: paints_def v)
  show "paints row_panel = paints f746g_at" by (intro ext) (simp only: paints_def v(2))
  show "paints row_panel = paints grove_at" by (intro ext) (simp only: paints_def v(3))
qed

text \<open>C3. Outlines and filled boxes: on each of the three boards, for every rectangle and stroke and
  every state of the budget, the primitive returns, stores only inside the frame buffer, and is
  the abstract painter's step: it charges the clipped shape's number of stores, refuses without
  drawing when the budget does not pay for it, and otherwise gives exactly the shape's pixels the
  colour, with as many stores as were charged.  In particular the boards show the same picture
  and spend the same budget.
\<close>

theorem boards_paint_shapes:
  assumes "ctx_ok c"
  shows "paints turned_panel id (outline_shape (pc_sw c) (pc_sh c) r s) (\<lambda>_ _. v) c (wio_paint_rect c (Some r) v s) \<and>
    paints row_panel id (outline_shape (pc_sw c) (pc_sh c) r s) (\<lambda>_ _. v) c (f746g_paint_rect c (Some r) v s) \<and>
    paints row_panel lcd_wire (outline_shape (pc_sw c) (pc_sh c) r s) (\<lambda>_ _. v) c (grove_paint_rect c (Some r) v s) \<and>
    paints turned_panel id (fill_shape (pc_sw c) (pc_sh c) r) (\<lambda>_ _. v) c (wio_paint_fill_rect c (Some r) v) \<and>
    paints row_panel id (fill_shape (pc_sw c) (pc_sh c) r) (\<lambda>_ _. v) c (f746g_paint_fill_rect c (Some r) v) \<and>
    paints row_panel lcd_wire (fill_shape (pc_sw c) (pc_sh c) r) (\<lambda>_ _. v) c (grove_paint_fill_rect c (Some r) v)"
  using wio_outline f746g_outline grove_outline wio_fill f746g_fill grove_fill assms by (simp flip: panels)

definition sample_ctx :: paint_ctx where
  "sample_ctx = \<lparr>pc_bud = Some \<lparr>pb_pixels = 20, pb_ops = 2, pb_refused = 0\<rparr>,
    pc_fb = Some (replicate 12 0), pc_sw = 4, pc_sh = 3, pc_stores = 0\<rparr>"

definition sample_rect :: plugin_rect where
  "sample_rect = \<lparr>r_x0 = - 1, r_y0 = 0, r_x1 = 3, r_y1 = 9\<rparr>"

lemma sample_ctx_ok: "ctx_ok sample_ctx"
  by (simp add: ctx_ok_def sample_ctx_def)

lemma boards_paint_shapes_witness:
  "paints turned_panel id (outline_shape 4 3 sample_rect 1) (\<lambda>_ _. 7) sample_ctx (wio_paint_rect sample_ctx (Some sample_rect) 7 1)"
  using boards_paint_shapes [OF sample_ctx_ok, of sample_rect 1 7] by (simp add: sample_ctx_def)

text \<open>C4. Blits: when the plugin's bitmap has the rows and columns its rectangle declares, each board's
  blit returns, reads only inside the bitmap, stores only inside the frame buffer, charges every
  visible source pixel, and shows the visible part of the bitmap at its place, shifted with the
  clip, leaving out exactly the pixels equal to a nonnegative key; a stride of zero or an empty
  clip draws nothing.
\<close>

theorem boards_paint_blit:
  assumes "ctx_ok c" "src_covers src stride r" "r_y1 r - r_y0 r < 4294967296"
  shows "paints turned_panel id (blit_shape (pc_sw c) (pc_sh c) r src stride key) (\<lambda>x y. src ! src_at stride r x y) c
      (wio_paint_blit c (Some r) (Some src) stride key) \<and>
    paints row_panel id (blit_shape (pc_sw c) (pc_sh c) r src stride key) (\<lambda>x y. src ! src_at stride r x y) c
      (f746g_paint_blit c (Some r) (Some src) stride key) \<and>
    paints row_panel lcd_wire (blit_shape (pc_sw c) (pc_sh c) r src stride key) (\<lambda>x y. src ! src_at stride r x y) c
      (grove_paint_blit c (Some r) (Some src) stride key)"
  using wio_blit f746g_blit grove_blit assms by (simp flip: panels)

lemma boards_paint_blit_witness:
  "paints row_panel lcd_wire (blit_shape 4 3 sample_rect (replicate 40 5) 4 5)
     (\<lambda>x y. replicate 40 5 ! src_at 4 sample_rect x y) sample_ctx
     (grove_paint_blit sample_ctx (Some sample_rect) (Some (replicate 40 5)) 4 5)"
  using boards_paint_blit [OF sample_ctx_ok, of "replicate 40 5" 4 sample_rect 5]
  by (simp add: sample_ctx_def src_covers_def sample_rect_def)

end
