(* ===== verification/PluginLoad.thy ===== *)
theory PluginLoad
  imports Crc32 Prelude
begin

text \<open>
  The validator of a plugin container (\<open>svc/plugin/plugin_load_body.h\<close>, with the probe of
  \<open>plugin_load.c\<close> and the wire layout of \<open>plugin_abi.h\<close>): the one body that decides whether the
  bytes of a flash slot may become running code.  The bytes are read with checked reads, so that
  the parse never leaves the container it was given is a theorem.  Every number stays a 32-bit
  word, with the wrap-around a corrupt container could provoke.

  A function that fills a view as it validates returns the result with the view it leaves, also
  on a refusal; \<open>parse_checked\<close> is the one exit, and zeroes it.
\<close>

section \<open>Results, policy and view\<close>

datatype plugin_result =
    PLUGIN_OK | PLUGIN_ERR_SHORT | PLUGIN_ERR_MAGIC | PLUGIN_ERR_FORMAT | PLUGIN_ERR_HDR_SIZE
  | PLUGIN_ERR_ABI | PLUGIN_ERR_TOTAL_SIZE | PLUGIN_ERR_RESERVED | PLUGIN_ERR_SECTION_COUNT
  | PLUGIN_ERR_SECTION_TYPE | PLUGIN_ERR_SECTION_RANGE | PLUGIN_ERR_SECTION_OVERLAP
  | PLUGIN_ERR_NO_MODEL | PLUGIN_ERR_MODEL_ALIGN | PLUGIN_ERR_MANIFEST_SHORT
  | PLUGIN_ERR_MANIFEST_MAGIC | PLUGIN_ERR_MANIFEST_SIZE | PLUGIN_ERR_TARGET | PLUGIN_ERR_LINK_ADDR
  | PLUGIN_ERR_CAPABILITY | PLUGIN_ERR_IMAGE_RANGE | PLUGIN_ERR_IMAGE_ALIGN | PLUGIN_ERR_SIZES
  | PLUGIN_ERR_SEG_RANGE | PLUGIN_ERR_SEG_OVERLAP | PLUGIN_ERR_SLOT_MISSING | PLUGIN_ERR_SLOT_RANGE
  | PLUGIN_ERR_SLOT_THUMB | PLUGIN_ERR_STACK | PLUGIN_ERR_STACK_ACCOUNTING | PLUGIN_ERR_DIGEST
  | PLUGIN_ERR_ARG

datatype plugin_kind = PLUGIN_KIND_CONTAINER | PLUGIN_KIND_TFLITE | PLUGIN_KIND_UNKNOWN

text \<open>The slots, their number, and the limit array of the policy as a function of the slot.\<close>

definition PLUGIN_SLOT_ENTRY :: nat where "PLUGIN_SLOT_ENTRY = 0"
definition PLUGIN_SLOT_SHAPES_OK :: nat where "PLUGIN_SLOT_SHAPES_OK = 1"
definition PLUGIN_SLOT_DECODE :: nat where "PLUGIN_SLOT_DECODE = 2"
definition PLUGIN_SLOT_DRAW :: nat where "PLUGIN_SLOT_DRAW = 3"
definition PLUGIN_SLOT_REPORT :: nat where "PLUGIN_SLOT_REPORT = 4"
definition PLUGIN_SLOT_PARAM_SET :: nat where "PLUGIN_SLOT_PARAM_SET = 5"
definition PLUGIN_SLOT_PARAM_GET :: nat where "PLUGIN_SLOT_PARAM_GET = 6"
definition PLUGIN_SLOT_COUNT :: nat where "PLUGIN_SLOT_COUNT = 7"

lemmas plugin_slots =
  PLUGIN_SLOT_ENTRY_def PLUGIN_SLOT_SHAPES_OK_def PLUGIN_SLOT_DECODE_def PLUGIN_SLOT_DRAW_def
  PLUGIN_SLOT_REPORT_def PLUGIN_SLOT_PARAM_SET_def PLUGIN_SLOT_PARAM_GET_def PLUGIN_SLOT_COUNT_def

definition PLUGIN_SLOT_ABSENT :: u32 where "PLUGIN_SLOT_ABSENT = 0"
definition PLUGIN_ABI_VERSION :: u32 where "PLUGIN_ABI_VERSION = 2"
definition PLUGIN_CAP_DRAW :: u32 where "PLUGIN_CAP_DRAW = 1"
definition PLUGIN_CAP_REPORT :: u32 where "PLUGIN_CAP_REPORT = 2"
definition PLUGIN_CAP_PARAMS :: u32 where "PLUGIN_CAP_PARAMS = 4"
definition PLUGIN_CAP_KNOWN_MASK :: u32 where "PLUGIN_CAP_KNOWN_MASK = 7"
definition PLUGIN_TARGET_RESERVED_MASK :: u32 where "PLUGIN_TARGET_RESERVED_MASK = 0xFFFF0000"
definition PLUGIN_MODEL_ALIGN :: u32 where "PLUGIN_MODEL_ALIGN = 16"
definition PLUGIN_SECTION_MAX :: u32 where "PLUGIN_SECTION_MAX = 3"
definition PLUGIN_NAME_MAX :: nat where "PLUGIN_NAME_MAX = 32"
definition PLUGIN_BUILD_ID_MAX :: nat where "PLUGIN_BUILD_ID_MAX = 32"

record plugin_policy =
  pol_target_id :: u32
  pol_link_addr :: u32
  pol_capacity :: u32
  pol_image_align :: u32
  pol_caps_supported :: u32
  pol_stack_limit :: "nat \<Rightarrow> u32"
  pol_veneer_cost :: u32
  pol_stack_accounting :: u32

record plugin_view =
  v_model_off :: u32
  v_model_len :: u32
  v_data_off :: u32
  v_data_len :: u32
  v_has_plugin :: bool
  v_image_off :: u32
  v_file_size :: u32
  v_mem_size :: u32
  v_code_off :: u32
  v_code_len :: u32
  v_data_seg_off :: u32
  v_data_seg_len :: u32
  v_bss_off :: u32
  v_bss_len :: u32
  v_scratch_off :: u32
  v_scratch_len :: u32
  v_slot :: "u32 list"
  v_stack_own :: "u32 list"
  v_stack_cross :: "u32 list"
  v_stack_crossing :: u32
  v_stack_sink :: u32
  v_stack :: "u32 list"
  v_capability :: u32
  v_link_addr :: u32
  v_digest :: u32
  v_name :: "u8 list"
  v_build_id :: "u8 list"

definition zero_view :: plugin_view where
  "zero_view = \<lparr>v_model_off = 0, v_model_len = 0, v_data_off = 0, v_data_len = 0, v_has_plugin = False,
    v_image_off = 0, v_file_size = 0, v_mem_size = 0, v_code_off = 0, v_code_len = 0,
    v_data_seg_off = 0, v_data_seg_len = 0, v_bss_off = 0, v_bss_len = 0, v_scratch_off = 0,
    v_scratch_len = 0, v_slot = replicate 7 0, v_stack_own = replicate 7 0, v_stack_cross = replicate 7 0,
    v_stack_crossing = 0, v_stack_sink = 0, v_stack = replicate 7 0, v_capability = 0, v_link_addr = 0,
    v_digest = 0, v_name = replicate 32 0, v_build_id = replicate 32 0\<rparr>"

section \<open>Field reads\<close>

definition rd32 :: "u8 list \<Rightarrow> nat \<Rightarrow> u32 option" where
  "rd32 base off = do {
     p0 \<leftarrow> ld base off; p1 \<leftarrow> ld base (off + 1); p2 \<leftarrow> ld base (off + 2); p3 \<leftarrow> ld base (off + 3);
     Some (ucast p0 OR push_bit 8 (ucast p1) OR push_bit 16 (ucast p2) OR push_bit 24 (ucast p3)) }"

text \<open>The \<open>n\<close> words of an array field, and the bytes of a byte array field.\<close>

fun rd32s :: "u8 list \<Rightarrow> nat \<Rightarrow> nat \<Rightarrow> u32 list option" where
  "rd32s base off 0 = Some []"
| "rd32s base off (Suc n) = do { w \<leftarrow> rd32 base off; ws \<leftarrow> rd32s base (off + 4) n; Some (w # ws) }"

definition rdbytes :: "u8 list \<Rightarrow> nat \<Rightarrow> nat \<Rightarrow> u8 list option" where
  "rdbytes base off n = (if off + n \<le> length base then Some (take n (drop off base)) else None)"

definition fits :: "u32 \<Rightarrow> u32 \<Rightarrow> u32 \<Rightarrow> bool" where
  "fits off len tot \<longleftrightarrow> off \<le> tot \<and> len \<le> tot - off"

definition overlaps :: "u32 \<Rightarrow> u32 \<Rightarrow> u32 \<Rightarrow> u32 \<Rightarrow> bool" where
  "overlaps a alen b blen \<longleftrightarrow> \<not> (alen = 0 \<or> blen = 0) \<and> a < b + blen \<and> b < a + alen"

section \<open>The section table\<close>

record sect =
  s_type :: u32
  s_off :: u32
  s_len :: u32

text \<open>\<open>offsetof(struct plugin_container_hdr, sections)\<close>, \<open>sizeof(struct plugin_section)\<close> and the
  size of the header with its three table entries.\<close>

definition HDR_SECTIONS :: nat where "HDR_SECTIONS = 32"
definition SECTION_SIZE :: nat where "SECTION_SIZE = 16"
definition HDR_SIZE :: nat where "HDR_SIZE = 80"

text \<open>Which entry holds each kind; \<open>None\<close> is the \<open>-1\<close> of the code.\<close>

type_synonym kinds = "nat option \<times> nat option \<times> nat option"

definition take_kind :: "u32 \<Rightarrow> nat \<Rightarrow> kinds \<Rightarrow> kinds option" where
  "take_kind type i k =
    (case k of (m, p, d) \<Rightarrow>
       if type = 1 then (if m \<noteq> None then None else Some (Some i, p, d))
       else if type = 2 then (if p \<noteq> None then None else Some (m, Some i, d))
       else if type = 3 then (if d \<noteq> None then None else Some (m, p, Some i))
       else None)"

fun section_loop ::
    "u8 list \<Rightarrow> u32 \<Rightarrow> nat \<Rightarrow> nat \<Rightarrow> nat \<Rightarrow> sect list \<Rightarrow> kinds \<Rightarrow> (plugin_result + sect list \<times> kinds) option" where
  "section_loop p tot count i 0 out k = Some (Inr (out, k))"
| "section_loop p tot count i (Suc n) out k = do {
     let at = HDR_SECTIONS + i * SECTION_SIZE;
     t \<leftarrow> rd32 p at; off \<leftarrow> rd32 p (at + 4); len \<leftarrow> rd32 p (at + 8); reserved \<leftarrow> rd32 p (at + 12);
     if reserved \<noteq> 0 then Some (Inl PLUGIN_ERR_RESERVED)
     else (case take_kind t i k of
        None \<Rightarrow> Some (Inl PLUGIN_ERR_SECTION_TYPE)
      | Some k \<Rightarrow>
          if len = 0 then Some (Inl PLUGIN_ERR_SECTION_RANGE)
          else if \<not> fits off len tot then Some (Inl PLUGIN_ERR_SECTION_RANGE)
          else if unat off < HDR_SECTIONS + count * SECTION_SIZE then Some (Inl PLUGIN_ERR_SECTION_RANGE)
          else section_loop p tot count (i + 1) n (out @ [\<lparr>s_type = t, s_off = off, s_len = len\<rparr>]) k) }"

text \<open>Some two of a list of ranges overlap.\<close>

fun any_overlap :: "(u32 \<times> u32) list \<Rightarrow> bool" where
  "any_overlap [] \<longleftrightarrow> False"
| "any_overlap ((a, alen) # rs) \<longleftrightarrow> list_ex (\<lambda>(b, blen). overlaps a alen b blen) rs \<or> any_overlap rs"

definition read_sections :: "u8 list \<Rightarrow> u32 \<Rightarrow> u32 \<Rightarrow> (plugin_result + sect list \<times> kinds) option" where
  "read_sections p tot count = do {
     r \<leftarrow> section_loop p tot (unat count) 0 (unat count) [] (None, None, None);
     Some (case r of Inl e \<Rightarrow> Inl e
       | Inr (out, k) \<Rightarrow>
           if any_overlap (map (\<lambda>s. (s_off s, s_len s)) out) then Inl PLUGIN_ERR_SECTION_OVERLAP
           else Inr (out, k)) }"

section \<open>The manifest\<close>

record plugin_manifest =
  m_magic :: "u8 list"
  m_struct_size :: u32
  m_abi_version :: u32
  m_target_id :: u32
  m_link_addr :: u32
  m_capability :: u32
  m_image_off :: u32
  m_file_size :: u32
  m_mem_size :: u32
  m_segs :: "u32 list"
  m_slot :: "u32 list"
  m_stack_own :: "u32 list"
  m_stack_cross :: "u32 list"
  m_stack_crossing :: u32
  m_stack_sink :: u32
  m_stack_accounting :: u32
  m_name :: "u8 list"
  m_build_id :: "u8 list"
  m_reserved :: "u32 list"

definition MANIFEST_SIZE :: nat where "MANIFEST_SIZE = 244"

text \<open>Every field at its \<open>offsetof\<close>; \<open>m_segs\<close> are the offset and length of code, data, bss and
  scratch.\<close>

definition read_manifest :: "u8 list \<Rightarrow> nat \<Rightarrow> plugin_manifest option" where
  "read_manifest p m = do {
     magic \<leftarrow> rdbytes p m 4;
     struct_size \<leftarrow> rd32 p (m + 4);
     abi \<leftarrow> rd32 p (m + 8);
     target \<leftarrow> rd32 p (m + 12);
     link \<leftarrow> rd32 p (m + 16);
     cap \<leftarrow> rd32 p (m + 20);
     image_off \<leftarrow> rd32 p (m + 24);
     file_size \<leftarrow> rd32 p (m + 28);
     mem_size \<leftarrow> rd32 p (m + 32);
     segs \<leftarrow> rd32s p (m + 36) 8;
     slot \<leftarrow> rd32s p (m + 68) 7;
     own \<leftarrow> rd32s p (m + 96) 7;
     cross \<leftarrow> rd32s p (m + 124) 7;
     crossing \<leftarrow> rd32 p (m + 152);
     sink \<leftarrow> rd32 p (m + 156);
     acct \<leftarrow> rd32 p (m + 160);
     name \<leftarrow> rdbytes p (m + 164) 32;
     build_id \<leftarrow> rdbytes p (m + 196) 32;
     reserved \<leftarrow> rd32s p (m + 228) 4;
     Some \<lparr>m_magic = magic, m_struct_size = struct_size, m_abi_version = abi, m_target_id = target,
       m_link_addr = link, m_capability = cap, m_image_off = image_off, m_file_size = file_size,
       m_mem_size = mem_size, m_segs = segs, m_slot = slot, m_stack_own = own, m_stack_cross = cross,
       m_stack_crossing = crossing, m_stack_sink = sink, m_stack_accounting = acct, m_name = name,
       m_build_id = build_id, m_reserved = reserved\<rparr> }"

definition slot_mandatory :: "nat \<Rightarrow> bool" where
  "slot_mandatory i \<longleftrightarrow> i = PLUGIN_SLOT_ENTRY \<or> i = PLUGIN_SLOT_SHAPES_OK \<or> i = PLUGIN_SLOT_DECODE"

definition slot_cap :: "nat \<Rightarrow> u32" where
  "slot_cap i =
    (if i = PLUGIN_SLOT_DRAW then PLUGIN_CAP_DRAW
     else if i = PLUGIN_SLOT_REPORT then PLUGIN_CAP_REPORT
     else if i = PLUGIN_SLOT_PARAM_SET then PLUGIN_CAP_PARAMS
     else if i = PLUGIN_SLOT_PARAM_GET then PLUGIN_CAP_PARAMS
     else 0)"

text \<open>One slot of the loop of \<open>check_manifest\<close>: its stack requirement, and the checks.\<close>

definition slot_need :: "u32 \<Rightarrow> u32 \<Rightarrow> u32 \<Rightarrow> u32 \<Rightarrow> u32" where
  "slot_need crosses own cr charge =
    (if crosses \<noteq> 0 then (if cr + charge > own then cr + charge else own) else own)"

definition slot_step ::
    "plugin_policy \<Rightarrow> plugin_manifest \<Rightarrow> u32 \<Rightarrow> nat \<Rightarrow> plugin_view \<Rightarrow> plugin_result \<times> plugin_view" where
  "slot_step pol m charge i out =
    (let v = m_slot m ! i; own = m_stack_own m ! i; cr = m_stack_cross m ! i;
         crosses = drop_bit i (m_stack_crossing m) AND 1; cbit = slot_cap i; cap = m_capability m;
         code_off = m_segs m ! 0; code_len = m_segs m ! 1 in
     if v = PLUGIN_SLOT_ABSENT then
       (if slot_mandatory i then (PLUGIN_ERR_SLOT_MISSING, out)
        else if cbit \<noteq> 0 \<and> cap AND cbit \<noteq> 0 then (PLUGIN_ERR_CAPABILITY, out)
        else if own \<noteq> 0 \<or> cr \<noteq> 0 \<or> crosses \<noteq> 0 then (PLUGIN_ERR_STACK, out)
        else (PLUGIN_OK, out\<lparr>v_slot := (v_slot out)[i := PLUGIN_SLOT_ABSENT], v_stack := (v_stack out)[i := 0]\<rparr>))
     else if cbit \<noteq> 0 \<and> cap AND cbit = 0 then (PLUGIN_ERR_CAPABILITY, out)
     else if v AND 1 = 0 then (PLUGIN_ERR_SLOT_THUMB, out)
     else
       (let at = v AND NOT 1 in
        if at < code_off \<or> at - code_off \<ge> code_len then (PLUGIN_ERR_SLOT_RANGE, out)
        else if crosses = 0 \<and> cr \<noteq> 0 then (PLUGIN_ERR_STACK, out)
        else if cr > own then (PLUGIN_ERR_STACK, out)
        else if crosses \<noteq> 0 \<and> cr > 0xFFFFFFFF - charge then (PLUGIN_ERR_STACK, out)
        else
          (let need = slot_need crosses own cr charge in
           if pol_stack_limit pol i = 0 \<or> need > pol_stack_limit pol i then (PLUGIN_ERR_STACK, out)
           else (PLUGIN_OK, out\<lparr>v_slot := (v_slot out)[i := v], v_stack_own := (v_stack_own out)[i := own],
                   v_stack_cross := (v_stack_cross out)[i := cr], v_stack := (v_stack out)[i := need]\<rparr>))))"

fun slot_loop ::
    "plugin_policy \<Rightarrow> plugin_manifest \<Rightarrow> u32 \<Rightarrow> nat list \<Rightarrow> plugin_view \<Rightarrow> plugin_result \<times> plugin_view" where
  "slot_loop pol m charge [] out = (PLUGIN_OK, out)"
| "slot_loop pol m charge (i # is) out =
    (let (rc, out) = slot_step pol m charge i out in
     if rc \<noteq> PLUGIN_OK then (rc, out) else slot_loop pol m charge is out)"

text \<open>The string fields are cut at their last byte.\<close>

definition bounded_str :: "u8 list \<Rightarrow> u8 list" where
  "bounded_str s = s[length s - 1 := 0]"

text \<open>The end of \<open>check_manifest\<close>: the fields the view gets once every check has passed.\<close>

definition fill_view :: "plugin_manifest \<Rightarrow> u32 \<Rightarrow> plugin_view \<Rightarrow> plugin_view" where
  "fill_view m sect_off out =
    (let image = sect_off + m_image_off m in
     out\<lparr>v_name := bounded_str (m_name m), v_build_id := bounded_str (m_build_id m),
         v_capability := m_capability m, v_file_size := m_file_size m, v_mem_size := m_mem_size m,
         v_image_off := image,
         v_code_off := image + m_segs m ! 0, v_code_len := m_segs m ! 1,
         v_data_seg_off := image + m_segs m ! 2, v_data_seg_len := m_segs m ! 3,
         v_bss_off := image + m_segs m ! 4, v_bss_len := m_segs m ! 5,
         v_scratch_off := image + m_segs m ! 6, v_scratch_len := m_segs m ! 7\<rparr>)"

text \<open>\<open>check_manifest\<close> after the length check, on the decoded fields.\<close>

definition check_slots_and_fill ::
    "plugin_policy \<Rightarrow> plugin_manifest \<Rightarrow> u32 \<Rightarrow> plugin_view \<Rightarrow> plugin_result \<times> plugin_view" where
  "check_slots_and_fill pol m sect_off out =
    (let crossing = m_stack_crossing m; sink = m_stack_sink m in
     if drop_bit 1 (drop_bit (PLUGIN_SLOT_COUNT - 1) crossing) \<noteq> 0 then (PLUGIN_ERR_RESERVED, out)
     else
       (let charge = (if pol_veneer_cost pol > sink then pol_veneer_cost pol else sink);
            (rc, out) = slot_loop pol m charge [0..<PLUGIN_SLOT_COUNT] out in
        if rc \<noteq> PLUGIN_OK then (rc, out)
        else
          (let out = out\<lparr>v_stack_crossing := crossing, v_stack_sink := sink\<rparr> in
           if (v_slot out ! PLUGIN_SLOT_PARAM_SET = PLUGIN_SLOT_ABSENT) \<noteq>
              (v_slot out ! PLUGIN_SLOT_PARAM_GET = PLUGIN_SLOT_ABSENT) then (PLUGIN_ERR_CAPABILITY, out)
           else (PLUGIN_OK, fill_view m sect_off out))))"

definition manifest_checks ::
    "plugin_policy \<Rightarrow> plugin_manifest \<Rightarrow> u32 \<Rightarrow> u32 \<Rightarrow> plugin_view \<Rightarrow> plugin_result \<times> plugin_view" where
  "manifest_checks pol m sect_off sect_len out =
    (if m_magic m \<noteq> str ''PMAN'' then (PLUGIN_ERR_MANIFEST_MAGIC, out)
     else if m_struct_size m \<noteq> of_nat MANIFEST_SIZE then (PLUGIN_ERR_MANIFEST_SIZE, out)
     else if m_abi_version m \<noteq> PLUGIN_ABI_VERSION then (PLUGIN_ERR_ABI, out)
     else if list_ex (\<lambda>w. w \<noteq> 0) (m_reserved m) then (PLUGIN_ERR_RESERVED, out)
     else if pol_veneer_cost pol = 0 \<or> pol_stack_accounting pol = 0 then (PLUGIN_ERR_ARG, out)
     else if m_stack_accounting m \<noteq> pol_stack_accounting pol then (PLUGIN_ERR_STACK_ACCOUNTING, out)
     else if m_target_id m AND PLUGIN_TARGET_RESERVED_MASK \<noteq> 0 then (PLUGIN_ERR_RESERVED, out)
     else if m_target_id m \<noteq> pol_target_id pol then (PLUGIN_ERR_TARGET, out)
     else
      (let out = out\<lparr>v_link_addr := m_link_addr m\<rparr>; align = pol_image_align pol;
           segs = m_segs m; file_size = m_file_size m; mem_size = m_mem_size m in
       if m_link_addr m \<noteq> pol_link_addr pol then (PLUGIN_ERR_LINK_ADDR, out)
       else if m_capability m AND NOT PLUGIN_CAP_KNOWN_MASK \<noteq> 0 then (PLUGIN_ERR_CAPABILITY, out)
       else if m_capability m AND NOT (pol_caps_supported pol) \<noteq> 0 then (PLUGIN_ERR_CAPABILITY, out)
       else if m_image_off m < m_struct_size m then (PLUGIN_ERR_IMAGE_RANGE, out)
       else if \<not> fits (m_image_off m) file_size sect_len then (PLUGIN_ERR_IMAGE_RANGE, out)
       else if file_size > mem_size then (PLUGIN_ERR_SIZES, out)
       else if mem_size > pol_capacity pol then (PLUGIN_ERR_SIZES, out)
       else if align = 0 \<or> pol_link_addr pol AND (align - 1) \<noteq> 0 \<or> mem_size AND (align - 1) \<noteq> 0
         then (PLUGIN_ERR_IMAGE_ALIGN, out)
       else if \<not> fits (segs ! 0) (segs ! 1) file_size \<or> \<not> fits (segs ! 2) (segs ! 3) file_size \<or>
               \<not> fits (segs ! 4) (segs ! 5) mem_size \<or> \<not> fits (segs ! 6) (segs ! 7) mem_size
         then (PLUGIN_ERR_SEG_RANGE, out)
       else if segs ! 1 = 0 then (PLUGIN_ERR_SEG_RANGE, out)
       else if any_overlap [(segs ! 0, segs ! 1), (segs ! 2, segs ! 3), (segs ! 4, segs ! 5), (segs ! 6, segs ! 7)]
         then (PLUGIN_ERR_SEG_OVERLAP, out)
       else check_slots_and_fill pol m sect_off out))"

definition check_manifest ::
    "u8 list \<Rightarrow> u32 \<Rightarrow> u32 \<Rightarrow> plugin_policy \<Rightarrow> plugin_view \<Rightarrow> (plugin_result \<times> plugin_view) option" where
  "check_manifest p sect_off sect_len pol out =
    (if unat sect_len < MANIFEST_SIZE then Some (PLUGIN_ERR_MANIFEST_SHORT, out)
     else map_option (\<lambda>m. manifest_checks pol m sect_off sect_len out) (read_manifest p (unat sect_off)))"

section \<open>The whole container\<close>

text \<open>The checks of the fixed header; \<open>Inr\<close> is the tot size, the section count and the digest.\<close>

definition check_header :: "u8 list \<Rightarrow> (plugin_result + u32 \<times> u32 \<times> u32) option" where
  "check_header p =
    (if length p < HDR_SIZE then Some (Inl PLUGIN_ERR_SHORT)
     else if length p > 0xFFFFFFFF then Some (Inl PLUGIN_ERR_TOTAL_SIZE)
     else do {
       magic \<leftarrow> rdbytes p 0 4; format \<leftarrow> rdbytes p 4 4;
       hdr_size \<leftarrow> rd32 p 8; abi \<leftarrow> rd32 p 12; tot \<leftarrow> rd32 p 16; count \<leftarrow> rd32 p 20;
       digest \<leftarrow> rd32 p 24; reserved \<leftarrow> rd32 p 28;
       Some (if magic \<noteq> str ''NNC1'' then Inl PLUGIN_ERR_MAGIC
         else if format \<noteq> str ''PLGC'' then Inl PLUGIN_ERR_FORMAT
         else if hdr_size \<noteq> of_nat HDR_SIZE then Inl PLUGIN_ERR_HDR_SIZE
         else if abi \<noteq> PLUGIN_ABI_VERSION then Inl PLUGIN_ERR_ABI
         else if reserved \<noteq> 0 then Inl PLUGIN_ERR_RESERVED
         else if tot \<noteq> of_nat (length p) then Inl PLUGIN_ERR_TOTAL_SIZE
         else if count = 0 \<or> count > PLUGIN_SECTION_MAX then Inl PLUGIN_ERR_SECTION_COUNT
         else Inr (tot, count, digest)) })"

definition parse_plugin ::
    "u8 list \<Rightarrow> sect \<Rightarrow> u32 \<Rightarrow> plugin_policy \<Rightarrow> plugin_view \<Rightarrow> (plugin_result \<times> plugin_view) option" where
  "parse_plugin p s digest pol out = do {
     (rc, out) \<leftarrow> check_manifest p (s_off s) (s_len s) pol out;
     if rc \<noteq> PLUGIN_OK then Some (rc, out)
     else do {
       bytes \<leftarrow> rdbytes p (unat (s_off s)) (unat (s_len s));
       Some (if crc32_update 0 bytes \<noteq> digest then (PLUGIN_ERR_DIGEST, out)
             else (PLUGIN_OK, out\<lparr>v_digest := digest, v_has_plugin := True\<rparr>)) } }"

definition parse_into :: "u8 list \<Rightarrow> plugin_policy \<Rightarrow> plugin_view \<Rightarrow> (plugin_result \<times> plugin_view) option" where
  "parse_into p pol out = do {
     h \<leftarrow> check_header p;
     (case h of Inl e \<Rightarrow> Some (e, out)
      | Inr (tot, count, digest) \<Rightarrow> do {
          r \<leftarrow> read_sections p tot count;
          (case r of Inl e \<Rightarrow> Some (e, out)
           | Inr (s, i_model, i_plugin, i_data) \<Rightarrow>
             (case i_model of None \<Rightarrow> Some (PLUGIN_ERR_NO_MODEL, out)
              | Some im \<Rightarrow>
                 if s_off (s ! im) AND (PLUGIN_MODEL_ALIGN - 1) \<noteq> 0 then Some (PLUGIN_ERR_MODEL_ALIGN, out)
                 else
                   (let out = out\<lparr>v_model_off := s_off (s ! im), v_model_len := s_len (s ! im)\<rparr>;
                        out = (case i_data of None \<Rightarrow> out
                               | Some dt \<Rightarrow> out\<lparr>v_data_off := s_off (s ! dt), v_data_len := s_len (s ! dt)\<rparr>) in
                    case i_plugin of
                      None \<Rightarrow> Some (if digest \<noteq> 0 then PLUGIN_ERR_DIGEST else PLUGIN_OK, out)
                    | Some ip \<Rightarrow> parse_plugin p (s ! ip) digest pol out))) }) }"

text \<open>\<open>None\<close> for the buffer or the policy is a \<open>NULL\<close> pointer.\<close>

definition parse_checked ::
    "u8 list option \<Rightarrow> plugin_policy option \<Rightarrow> plugin_view \<Rightarrow> (plugin_result \<times> plugin_view) option" where
  "parse_checked buf pol out =
    (case (buf, pol) of
       (Some p, Some pol) \<Rightarrow> do {
         (rc, out) \<leftarrow> parse_into p pol zero_view;
         Some (rc, if rc \<noteq> PLUGIN_OK then zero_view else out) }
     | _ \<Rightarrow> Some (PLUGIN_ERR_ARG, out))"

definition plugin_parse :: "plugin_policy \<Rightarrow> u8 list option \<Rightarrow> plugin_view \<Rightarrow> (plugin_result \<times> plugin_view) option" where
  "plugin_parse plugin_board_policy buf out = parse_checked buf (Some plugin_board_policy) out"

definition plugin_probe :: "u8 list option \<Rightarrow> plugin_kind option" where
  "plugin_probe buf =
    (case buf of None \<Rightarrow> Some PLUGIN_KIND_UNKNOWN
     | Some p \<Rightarrow>
        if length p < 8 then Some PLUGIN_KIND_UNKNOWN
        else do {
          magic \<leftarrow> rdbytes p 0 4; ident \<leftarrow> rdbytes p 4 4;
          Some (if ident = str ''TFL3'' then PLUGIN_KIND_TFLITE
                else if magic = str ''NNC1'' \<and> ident = str ''PLGC'' then PLUGIN_KIND_CONTAINER
                else PLUGIN_KIND_UNKNOWN) })"

text \<open>\<open>plugin_result_name\<close>: one name per result.\<close>

fun plugin_result_name :: "plugin_result \<Rightarrow> string" where
  "plugin_result_name PLUGIN_OK = ''ok''"
| "plugin_result_name PLUGIN_ERR_SHORT = ''too short''"
| "plugin_result_name PLUGIN_ERR_MAGIC = ''bad magic''"
| "plugin_result_name PLUGIN_ERR_FORMAT = ''bad format word''"
| "plugin_result_name PLUGIN_ERR_HDR_SIZE = ''bad header size''"
| "plugin_result_name PLUGIN_ERR_ABI = ''abi mismatch''"
| "plugin_result_name PLUGIN_ERR_TOTAL_SIZE = ''size disagrees with payload''"
| "plugin_result_name PLUGIN_ERR_RESERVED = ''reserved field set''"
| "plugin_result_name PLUGIN_ERR_SECTION_COUNT = ''bad section count''"
| "plugin_result_name PLUGIN_ERR_SECTION_TYPE = ''bad or duplicate section''"
| "plugin_result_name PLUGIN_ERR_SECTION_RANGE = ''section out of range''"
| "plugin_result_name PLUGIN_ERR_SECTION_OVERLAP = ''sections overlap''"
| "plugin_result_name PLUGIN_ERR_NO_MODEL = ''no model section''"
| "plugin_result_name PLUGIN_ERR_MODEL_ALIGN = ''model misaligned''"
| "plugin_result_name PLUGIN_ERR_MANIFEST_SHORT = ''manifest truncated''"
| "plugin_result_name PLUGIN_ERR_MANIFEST_MAGIC = ''bad manifest magic''"
| "plugin_result_name PLUGIN_ERR_MANIFEST_SIZE = ''bad manifest size''"
| "plugin_result_name PLUGIN_ERR_TARGET = ''built for another target''"
| "plugin_result_name PLUGIN_ERR_LINK_ADDR = ''prelinked elsewhere''"
| "plugin_result_name PLUGIN_ERR_CAPABILITY = ''capability disagreement''"
| "plugin_result_name PLUGIN_ERR_IMAGE_RANGE = ''image out of range''"
| "plugin_result_name PLUGIN_ERR_IMAGE_ALIGN = ''image misaligned''"
| "plugin_result_name PLUGIN_ERR_SIZES = ''bad image sizes''"
| "plugin_result_name PLUGIN_ERR_SEG_RANGE = ''segment out of range''"
| "plugin_result_name PLUGIN_ERR_SEG_OVERLAP = ''segments overlap''"
| "plugin_result_name PLUGIN_ERR_SLOT_MISSING = ''mandatory slot absent''"
| "plugin_result_name PLUGIN_ERR_SLOT_RANGE = ''slot outside code''"
| "plugin_result_name PLUGIN_ERR_SLOT_THUMB = ''slot not thumb''"
| "plugin_result_name PLUGIN_ERR_STACK = ''stack request refused''"
| "plugin_result_name PLUGIN_ERR_STACK_ACCOUNTING = ''stack declared under another analysis''"
| "plugin_result_name PLUGIN_ERR_DIGEST = ''digest mismatch''"
| "plugin_result_name PLUGIN_ERR_ARG = ''bad argument''"

end
