(* ===== verification/PluginAccept.thy ===== *)
theory PluginAccept
  imports PluginLoad BlobState
begin

text \<open>
  What the validator of plugin containers accepts: a specification over natural numbers, with
  every range an interval of the container, and the proof that the parse returns, reads only
  inside the container, and accepts exactly the containers of the specification.
\<close>

section \<open>Reads inside the container succeed\<close>

lemma rd32_in: "off + 4 \<le> length p \<Longrightarrow> \<exists>w. rd32 p off = Some w"
  by (simp add: rd32_def ld_in)

lemma rd32s_in: "off + 4 * n \<le> length p \<Longrightarrow> \<exists>ws. rd32s p off n = Some ws \<and> length ws = n"
proof (induction n arbitrary: off)
  case (Suc n)
  obtain w where "rd32 p off = Some w" using Suc.prems rd32_in [of off p] by auto
  moreover obtain ws where "rd32s p (off + 4) n = Some ws" "length ws = n"
    using Suc.IH [of "off + 4"] Suc.prems by auto
  ultimately show ?case by simp
qed simp

lemma rd32s_length: "rd32s p off n = Some ws \<Longrightarrow> length ws = n"
  by (induction n arbitrary: off ws) (auto split: bind_splits)

lemma rdbytes_in: "off + n \<le> length p \<Longrightarrow> rdbytes p off n = Some (take n (drop off p))"
  by (simp add: rdbytes_def)

lemma read_manifest_in:
  assumes "m + 244 \<le> length p"
  shows "\<exists>mf. read_manifest p m = Some mf"
proof -
  have r: "\<exists>w. rd32 p (m + k) = Some w" if "k + 4 \<le> 244" for k
    using rd32_in [of "m + k" p] assms that by auto
  have rs: "\<exists>ws. rd32s p (m + k) n = Some ws" if "k + 4 * n \<le> 244" for k n
    using rd32s_in [of "m + k" n p] assms that by auto
  have b: "rdbytes p (m + k) n = Some (take n (drop (m + k) p))" if "k + n \<le> 244" for k n
    using assms that by (intro rdbytes_in) simp
  show ?thesis
    using r [of 4] r [of 8] r [of 12] r [of 16] r [of 20] r [of 24] r [of 28] r [of 32] rs [of 36 8] rs [of 68 7]
      rs [of 96 7] rs [of 124 7] r [of 152] r [of 156] r [of 160] rs [of 228 4] b [of 0 4] b [of 164 32] b [of 196 32]
    by (auto simp: read_manifest_def)
qed

lemma read_manifest_lengths:
  assumes "read_manifest p m = Some mf"
  shows "length (m_segs mf) = 8" "length (m_slot mf) = 7" "length (m_stack_own mf) = 7" "length (m_stack_cross mf) = 7"
  using assms by (auto simp: read_manifest_def dest!: rd32s_length split: bind_splits)

section \<open>Ranges\<close>

type_synonym range = "nat \<times> nat"

definition apart :: "range \<Rightarrow> range \<Rightarrow> bool" where
  "apart a b \<longleftrightarrow> snd a = 0 \<or> snd b = 0 \<or> fst a + snd a \<le> fst b \<or> fst b + snd b \<le> fst a"

definition nat_range :: "u32 \<times> u32 \<Rightarrow> range" where
  "nat_range r = (unat (fst r), unat (snd r))"

lemma fits_nat: "fits off len tot \<longleftrightarrow> unat off + unat len \<le> unat tot"
  by (auto simp: fits_def word_le_nat_alt unat_sub)

lemma overlaps_apart:
  assumes "unat a + unat al < 4294967296" "unat b + unat bl < 4294967296"
  shows "overlaps a al b bl \<longleftrightarrow> \<not> apart (nat_range (a, al)) (nat_range (b, bl))"
proof -
  have "unat (a + al) = unat a + unat al" "unat (b + bl) = unat b + unat bl"
    using assms by (simp_all add: unat_add_lem [THEN iffD1])
  then show ?thesis by (auto simp: overlaps_def apart_def nat_range_def word_less_nat_alt unat_eq_0)
qed

lemma any_overlap_apart:
  assumes "\<forall>r \<in> set rs. unat (fst r) + unat (snd r) < 4294967296"
  shows "any_overlap rs \<longleftrightarrow> \<not> sorted_wrt apart (map nat_range rs)"
  using assms
proof (induction rs rule: any_overlap.induct)
  case (2 a alen rs)
  have "list_ex (\<lambda>(b, blen). overlaps a alen b blen) rs \<longleftrightarrow> \<not> (\<forall>r \<in> set rs. apart (nat_range (a, alen)) (nat_range r))"
    using 2 overlaps_apart by (fastforce simp: list_ex_iff)
  then show ?case using 2 by auto
qed simp

section \<open>The section table\<close>

definition entry_ok :: "u8 list \<Rightarrow> u32 \<Rightarrow> nat \<Rightarrow> nat \<Rightarrow> sect \<Rightarrow> bool" where
  "entry_ok p tot count i s \<longleftrightarrow>
    rd32 p (32 + 16 * i) = Some (s_type s) \<and> rd32 p (36 + 16 * i) = Some (s_off s) \<and>
    rd32 p (40 + 16 * i) = Some (s_len s) \<and> rd32 p (44 + 16 * i) = Some 0 \<and>
    s_type s \<in> {1, 2, 3} \<and> s_len s \<noteq> 0 \<and> unat (s_off s) + unat (s_len s) \<le> unat tot \<and>
    32 + 16 * count \<le> unat (s_off s)"

text \<open>The entry of each kind, of a table without duplicates.\<close>

definition kind_idx :: "u32 \<Rightarrow> sect list \<Rightarrow> nat option" where
  "kind_idx t ss = (if t \<in> s_type ` set ss then Some (length (takeWhile (\<lambda>s. s_type s \<noteq> t) ss)) else None)"

definition kinds_of :: "sect list \<Rightarrow> kinds" where
  "kinds_of ss = (kind_idx 1 ss, kind_idx 2 ss, kind_idx 3 ss)"

lemma kind_idx_snoc:
  "kind_idx t (ss @ [s]) = (case kind_idx t ss of Some i \<Rightarrow> Some i | None \<Rightarrow> if s_type s = t then Some (length ss) else None)"
proof (cases "t \<in> s_type ` set ss")
  case True
  then have "\<exists>x\<in>set ss. \<not> s_type x \<noteq> t" by auto
  then have "takeWhile (\<lambda>s. s_type s \<noteq> t) (ss @ [s]) = takeWhile (\<lambda>s. s_type s \<noteq> t) ss"
    by (rule takeWhile_in_prefix)
  then show ?thesis using True by (auto simp: kind_idx_def)
next
  case False
  then have "takeWhile (\<lambda>s. s_type s \<noteq> t) ss = ss" by (auto simp: takeWhile_eq_all_conv)
  then show ?thesis using False by (auto simp: kind_idx_def takeWhile_tail)
qed

lemma take_kind_spec:
  "take_kind t (length ss) (kinds_of ss) =
    (if t \<in> {1, 2, 3} \<and> t \<notin> s_type ` set ss then Some (kinds_of (ss @ [s\<lparr>s_type := t\<rparr>])) else None)"
proof -
  have n: "kind_idx t ss = None \<longleftrightarrow> t \<notin> s_type ` set ss" for t by (simp add: kind_idx_def)
  show ?thesis
    by (simp add: take_kind_def kinds_of_def kind_idx_snoc n)
      (auto simp: n [symmetric] split: option.splits)
qed

lemma section_loop_spec:
  assumes "i = length out" "HDR_SECTIONS + (i + n) * SECTION_SIZE \<le> length p" "distinct (map s_type out)"
  shows "(\<exists>r. section_loop p tot count i n out (kinds_of out) = Some r) \<and>
    (section_loop p tot count i n out (kinds_of out) = Some (Inr (out', k)) \<longleftrightarrow>
      (\<exists>es. length es = n \<and> out' = out @ es \<and> k = kinds_of out' \<and> distinct (map s_type out') \<and>
        (\<forall>j < n. entry_ok p tot count (i + j) (es ! j))))"
  using assms
proof (induction n arbitrary: i out)
  case 0
  then show ?case by auto
next
  case (Suc n)
  have b: "32 + i * 16 + 16 \<le> length p" using Suc.prems by (simp add: HDR_SECTIONS_def SECTION_SIZE_def)
  obtain t off len res where rd: "rd32 p (32 + i * 16) = Some t" "rd32 p (32 + i * 16 + 4) = Some off"
      "rd32 p (32 + i * 16 + 8) = Some len" "rd32 p (32 + i * 16 + 12) = Some res"
    using rd32_in [of "32 + i * 16" p] rd32_in [of "32 + i * 16 + 4" p] rd32_in [of "32 + i * 16 + 8" p]
      rd32_in [of "32 + i * 16 + 12" p] b by auto
  let ?s = "\<lparr>s_type = t, s_off = off, s_len = len\<rparr>"
  have tk: "take_kind t i (kinds_of out) =
      (if t \<in> {1, 2, 3} \<and> t \<notin> s_type ` set out then Some (kinds_of (out @ [?s])) else None)"
    using take_kind_spec [of t out ?s] Suc.prems(1) by simp
  have e: "entry_ok p tot count i s \<longleftrightarrow> s = ?s \<and> res = 0 \<and> t \<in> {1, 2, 3} \<and> len \<noteq> 0 \<and> fits off len tot \<and>
      \<not> unat off < HDR_SECTIONS + count * SECTION_SIZE" for s
    using rd by (cases s) (auto simp: entry_ok_def fits_nat HDR_SECTIONS_def SECTION_SIZE_def add.commute mult.commute)
  show ?case
  proof (cases "entry_ok p tot count i ?s \<and> t \<notin> s_type ` set out")
    case True
    have ih: "(\<exists>r. section_loop p tot count (i + 1) n (out @ [?s]) (kinds_of (out @ [?s])) = Some r) \<and>
      (section_loop p tot count (i + 1) n (out @ [?s]) (kinds_of (out @ [?s])) = Some (Inr (out', k)) \<longleftrightarrow>
        (\<exists>es. length es = n \<and> out' = (out @ [?s]) @ es \<and> k = kinds_of out' \<and> distinct (map s_type out') \<and>
          (\<forall>j < n. entry_ok p tot count (i + 1 + j) (es ! j))))"
      by (rule Suc.IH) (use Suc.prems True in \<open>auto simp: add.commute\<close>)
    have step: "section_loop p tot count i (Suc n) out (kinds_of out) =
        section_loop p tot count (i + 1) n (out @ [?s]) (kinds_of (out @ [?s]))"
      using True rd tk by (auto simp: e HDR_SECTIONS_def SECTION_SIZE_def)
    have "(\<exists>es. length es = Suc n \<and> out' = out @ es \<and> k = kinds_of out' \<and> distinct (map s_type out') \<and>
          (\<forall>j < Suc n. entry_ok p tot count (i + j) (es ! j))) \<longleftrightarrow>
        (\<exists>es. length es = n \<and> out' = (out @ [?s]) @ es \<and> k = kinds_of out' \<and> distinct (map s_type out') \<and>
          (\<forall>j < n. entry_ok p tot count (i + 1 + j) (es ! j)))"
      (is "?l \<longleftrightarrow> ?r")
    proof
      assume ?l
      then obtain es where es: "length es = Suc n" "out' = out @ es" "k = kinds_of out'" "distinct (map s_type out')"
        "\<forall>j < Suc n. entry_ok p tot count (i + j) (es ! j)" by blast
      then obtain x xs where x: "es = x # xs" by (cases es) auto
      with es(5) have "x = ?s" using e [of x] by force
      moreover have "\<forall>j < n. entry_ok p tot count (i + 1 + j) (xs ! j)" using es(5) x by fastforce
      ultimately show ?r using es x by auto
    next
      assume ?r
      then obtain es where es: "length es = n" "out' = (out @ [?s]) @ es" "k = kinds_of out'" "distinct (map s_type out')"
        "\<forall>j < n. entry_ok p tot count (i + 1 + j) (es ! j)" by blast
      have "\<forall>j < Suc n. entry_ok p tot count (i + j) ((?s # es) ! j)"
        using es(5) True by (auto simp: less_Suc_eq_0_disj)
      then show ?l using es by (intro exI [of _ "?s # es"]) simp
    qed
    with ih step show ?thesis by simp
  next
    case False
    have "\<exists>er. section_loop p tot count i (Suc n) out (kinds_of out) = Some (Inl er)"
      using False rd tk by (auto simp: e HDR_SECTIONS_def SECTION_SIZE_def)
    moreover have "\<not> (\<exists>es. length es = Suc n \<and> out' = out @ es \<and> k = kinds_of out' \<and> distinct (map s_type out') \<and>
          (\<forall>j < Suc n. entry_ok p tot count (i + j) (es ! j)))"
    proof
      assume "\<exists>es. length es = Suc n \<and> out' = out @ es \<and> k = kinds_of out' \<and> distinct (map s_type out') \<and>
          (\<forall>j < Suc n. entry_ok p tot count (i + j) (es ! j))"
      then obtain es where es: "length es = Suc n" "out' = out @ es" "distinct (map s_type out')"
        "\<forall>j < Suc n. entry_ok p tot count (i + j) (es ! j)" by blast
      then obtain x xs where x: "es = x # xs" by (cases es) auto
      with es(4) have "entry_ok p tot count i x" by force
      with False e [of x] have "t \<in> s_type ` set out" "x = ?s" using e [of ?s] by auto
      with es(2,3) x show False by auto
    qed
    ultimately show ?thesis by auto
  qed
qed

section \<open>Slots\<close>

text \<open>The stack a slot needs, in exact arithmetic: its own frames, or its frames at a crossing plus
  the deeper of the firmware's veneer and the plugin's sink.\<close>

definition stack_need :: "plugin_policy \<Rightarrow> plugin_manifest \<Rightarrow> nat \<Rightarrow> nat" where
  "stack_need pol m i =
    (let own = unat (m_stack_own m ! i); cr = unat (m_stack_cross m ! i) in
     if bit (m_stack_crossing m) i
     then max own (cr + max (unat (pol_veneer_cost pol)) (unat (m_stack_sink m))) else own)"

definition has_cap :: "plugin_manifest \<Rightarrow> nat \<Rightarrow> bool" where
  "has_cap m i \<longleftrightarrow> slot_cap i = 0 \<or> m_capability m AND slot_cap i \<noteq> 0"

definition slot_ok :: "plugin_policy \<Rightarrow> plugin_manifest \<Rightarrow> nat \<Rightarrow> bool" where
  "slot_ok pol m i \<longleftrightarrow>
    (let v = m_slot m ! i; own = m_stack_own m ! i; cr = m_stack_cross m ! i in
     if v = 0 then \<not> slot_mandatory i \<and> m_capability m AND slot_cap i = 0 \<and>
       own = 0 \<and> cr = 0 \<and> \<not> bit (m_stack_crossing m) i
     else has_cap m i \<and> odd (unat v) \<and>
       unat (m_segs m ! 0) \<le> unat v - 1 \<and> unat v - 1 < unat (m_segs m ! 0) + unat (m_segs m ! 1) \<and>
       (bit (m_stack_crossing m) i \<or> cr = 0) \<and> cr \<le> own \<and>
       0 < pol_stack_limit pol i \<and> stack_need pol m i \<le> unat (pol_stack_limit pol i))"

text \<open>What the view records of slot \<open>i\<close>.\<close>

definition put_slot :: "plugin_policy \<Rightarrow> plugin_manifest \<Rightarrow> nat \<Rightarrow> plugin_view \<Rightarrow> plugin_view" where
  "put_slot pol m i out =
    (if m_slot m ! i = 0
     then out\<lparr>v_slot := (v_slot out)[i := 0], v_stack := (v_stack out)[i := 0]\<rparr>
     else out\<lparr>v_slot := (v_slot out)[i := m_slot m ! i], v_stack_own := (v_stack_own out)[i := m_stack_own m ! i],
       v_stack_cross := (v_stack_cross out)[i := m_stack_cross m ! i],
       v_stack := (v_stack out)[i := of_nat (stack_need pol m i)]\<rparr>)"

lemma refuse: "E \<noteq> PLUGIN_OK \<Longrightarrow> ((if c then (E, x) else r) = (PLUGIN_OK, y)) = (\<not> c \<and> r = (PLUGIN_OK, y))"
  by auto

lemma crossing_bit: "drop_bit i w AND (1 :: u32) = (if bit w i then 1 else 0)"
  by (simp add: and_one_eq bit_iff_odd_drop_bit mod_2_eq_odd)

lemma even_word: "v AND (1 :: u32) = 0 \<longleftrightarrow> even (unat v)"
proof -
  have "v AND 1 = 0 \<longleftrightarrow> unat (v AND 1) = 0" by (simp add: unat_eq_0)
  also have "unat (v AND 1) = unat v mod 2" by (simp add: and_one_eq unat_mod_distrib)
  finally show ?thesis by auto
qed

lemma clear_thumb:
  assumes "odd (unat v)"
  shows "unat (v AND NOT 1 :: u32) = unat v - 1"
proof -
  have "v AND 1 \<noteq> 0" using assms even_word by simp
  then have "bit v 0" by (simp add: and_one_eq mod_2_eq_odd bit_0 split: if_splits)
  then have "v - 1 = v AND NOT 1" by (intro disjunctive_diff) (simp add: bit_1_iff)
  moreover have "v \<noteq> 0" using assms by auto
  ultimately show ?thesis by (metis unat_minus_one)
qed

lemma range_word:
  "(a < off \<or> a - off \<ge> len) = (\<not> (unat off \<le> unat a \<and> unat a < unat off + unat (len :: u32)))"
proof (cases "off \<le> a")
  case True
  then show ?thesis by (auto simp: word_less_nat_alt word_le_nat_alt unat_sub)
qed (auto simp: word_less_nat_alt word_le_nat_alt)

lemma slot_need_exact:
  assumes "unat cr + unat charge < 4294967296"
  shows "unat (slot_need crosses own cr charge) =
    (if crosses \<noteq> 0 then max (unat own) (unat cr + unat charge) else unat own)"
  using assms by (auto simp: slot_need_def word_less_nat_alt unat_add_lem [THEN iffD1] not_less)

lemma slot_step_ok:
  defines "charge m pol \<equiv> (if pol_veneer_cost pol > m_stack_sink m then pol_veneer_cost pol else m_stack_sink m)"
  shows "slot_step pol m (charge m pol) i out = (PLUGIN_OK, out') \<longleftrightarrow> slot_ok pol m i \<and> out' = put_slot pol m i out"
proof -
  let ?v = "m_slot m ! i" and ?own = "m_stack_own m ! i" and ?cr = "m_stack_cross m ! i"
  let ?c = "drop_bit i (m_stack_crossing m) AND (1 :: u32)" and ?ch = "charge m pol"
  have c: "?c = 0 \<longleftrightarrow> \<not> bit (m_stack_crossing m) i" by (simp add: crossing_bit)
  have ch: "unat ?ch = max (unat (pol_veneer_cost pol)) (unat (m_stack_sink m))"
    by (auto simp: charge_def word_less_nat_alt)
  have cap: "(slot_cap i \<noteq> 0 \<and> m_capability m AND slot_cap i \<noteq> 0) = (m_capability m AND slot_cap i \<noteq> 0)" by auto
  have fit: "(?cr \<le> 0xFFFFFFFF - ?ch) = (unat ?cr + unat ?ch < 4294967296)"
    using u32_bound [of ?ch] by (auto simp: word_le_nat_alt unat_sub)
  have need: "unat (slot_need ?c ?own ?cr ?ch) = stack_need pol m i"
    if "?c = 0 \<or> unat ?cr + unat ?ch < 4294967296"
    using that slot_need_exact [of ?cr ?ch ?c ?own]
    by (auto simp: stack_need_def c ch Let_def slot_need_def max.commute)
  have needw: "slot_need ?c ?own ?cr ?ch = of_nat (stack_need pol m i)" if "?c = 0 \<or> unat ?cr + unat ?ch < 4294967296"
    by (simp flip: need [OF that])
  show ?thesis
  proof (cases "?v = 0")
    case True
    then show ?thesis
      by (auto simp: slot_step_def Let_def PLUGIN_SLOT_ABSENT_def refuse slot_ok_def put_slot_def c)
  next
    case False
    have lim: "(pol_stack_limit pol i = 0 \<or> need > pol_stack_limit pol i) =
        (\<not> (0 < pol_stack_limit pol i \<and> unat need \<le> unat (pol_stack_limit pol i)))" for need
      by (auto simp: word_less_nat_alt not_less unat_eq_0 word_neq_0_conv)
    have rng: "(?v AND NOT 1 < m_segs m ! 0 \<or> (?v AND NOT 1) - m_segs m ! 0 \<ge> m_segs m ! 1) =
        (\<not> (unat (m_segs m ! 0) \<le> unat ?v - 1 \<and> unat ?v - 1 < unat (m_segs m ! 0) + unat (m_segs m ! 1)))"
      if "odd (unat ?v)"
      using range_word [of "?v AND NOT 1" "m_segs m ! 0" "m_segs m ! 1"] unfolding clear_thumb [OF that] .
    have big: "stack_need pol m i \<le> unat (pol_stack_limit pol i) \<Longrightarrow> ?c \<noteq> 0 \<Longrightarrow> unat ?cr + unat ?ch < 4294967296"
      using u32_bound [of "pol_stack_limit pol i"] by (simp add: stack_need_def c ch Let_def)
    have "slot_step pol m ?ch i out = (PLUGIN_OK, out') \<longleftrightarrow>
        has_cap m i \<and> odd (unat ?v) \<and>
        \<not> (?v AND NOT 1 < m_segs m ! 0 \<or> (?v AND NOT 1) - m_segs m ! 0 \<ge> m_segs m ! 1) \<and>
        (?c \<noteq> 0 \<or> ?cr = 0) \<and> ?cr \<le> ?own \<and> (?c = 0 \<or> unat ?cr + unat ?ch < 4294967296) \<and>
        \<not> (pol_stack_limit pol i = 0 \<or> slot_need ?c ?own ?cr ?ch > pol_stack_limit pol i) \<and>
        out' = out\<lparr>v_slot := (v_slot out)[i := ?v], v_stack_own := (v_stack_own out)[i := ?own],
          v_stack_cross := (v_stack_cross out)[i := ?cr], v_stack := (v_stack out)[i := slot_need ?c ?own ?cr ?ch]\<rparr>"
      using False fit by (auto simp: slot_step_def Let_def PLUGIN_SLOT_ABSENT_def refuse has_cap_def even_word not_less)
    also have "\<dots> \<longleftrightarrow> slot_ok pol m i \<and> out' = put_slot pol m i out"
    proof (cases "odd (unat ?v) \<and> (?c = 0 \<or> unat ?cr + unat ?ch < 4294967296)")
      case True
      then have o: "odd (unat ?v)" and f: "?c = 0 \<or> unat ?cr + unat ?ch < 4294967296" by auto
      show ?thesis
        unfolding rng [OF o] needw [OF f] lim [of "of_nat (stack_need pol m i)"] need [OF f, unfolded needw [OF f]]
        using False o f by (auto simp: slot_ok_def put_slot_def Let_def c)
    next
      case no: False
      have "\<not> slot_ok pol m i" using no False big by (auto simp: slot_ok_def Let_def)
      then show ?thesis using no by blast
    qed
    finally show ?thesis .
  qed
qed

lemma slot_loop_ok:
  defines "charge m pol \<equiv> (if pol_veneer_cost pol > m_stack_sink m then pol_veneer_cost pol else m_stack_sink m)"
  shows "slot_loop pol m (charge m pol) is out = (PLUGIN_OK, out') \<longleftrightarrow>
    (\<forall>i \<in> set is. slot_ok pol m i) \<and> out' = fold (put_slot pol m) is out"
proof (induction "is" arbitrary: out)
  case (Cons i "is")
  obtain rc o1 where st: "slot_step pol m (charge m pol) i out = (rc, o1)" by fastforce
  have s: "rc = PLUGIN_OK \<Longrightarrow> slot_ok pol m i \<and> o1 = put_slot pol m i out" "rc \<noteq> PLUGIN_OK \<Longrightarrow> \<not> slot_ok pol m i"
    using slot_step_ok [of pol m i out o1, folded charge_def] slot_step_ok [of pol m i out "put_slot pol m i out", folded charge_def] st
    by auto
  show ?case using s Cons.IH [of o1] by (cases "rc = PLUGIN_OK") (auto simp: st)
qed auto

text \<open>The loop records every slot of the manifest and its exact requirement.\<close>

definition put_slots :: "plugin_policy \<Rightarrow> plugin_manifest \<Rightarrow> plugin_view \<Rightarrow> plugin_view" where
  "put_slots pol m out =
    out\<lparr>v_slot := m_slot m, v_stack_own := m_stack_own m, v_stack_cross := m_stack_cross m,
        v_stack := map (\<lambda>i. of_nat (stack_need pol m i)) [0..<7]\<rparr>"

lemma list_fill:
  "n < 7 \<Longrightarrow> length xs = 7 \<Longrightarrow> (take n xs @ replicate (7 - n) 0)[n := xs ! n] = take (Suc n) xs @ replicate (6 - n) 0"
  by (simp add: list_update_append take_Suc_conv_app_nth Suc_diff_le [symmetric] flip: replicate_Suc)
    (simp add: numeral_eq_Suc Suc_diff_le)

lemma fold_put:
  assumes len: "length (m_slot m) = 7" "length (m_stack_own m) = 7" "length (m_stack_cross m) = 7"
    and zero: "v_slot out = replicate 7 0" "v_stack_own out = replicate 7 0" "v_stack_cross out = replicate 7 0"
      "v_stack out = replicate 7 0"
    and ok: "\<forall>i < 7. slot_ok pol m i"
  shows "fold (put_slot pol m) [0..<7] out = put_slots pol m out"
proof -
  let ?need = "map (\<lambda>i. of_nat (stack_need pol m i)) [0..<7] :: u32 list"
  have "n \<le> 7 \<Longrightarrow> fold (put_slot pol m) [0..<n] out =
      out\<lparr>v_slot := take n (m_slot m) @ replicate (7 - n) 0, v_stack_own := take n (m_stack_own m) @ replicate (7 - n) 0,
        v_stack_cross := take n (m_stack_cross m) @ replicate (7 - n) 0, v_stack := take n ?need @ replicate (7 - n) 0\<rparr>" for n
  proof (induction n)
    case 0
    then show ?case using zero by simp
  next
    case (Suc n)
    then have n: "n < 7" by simp
    have same: "(take n xs @ replicate (7 - n) 0)[n := 0] = take n xs @ replicate (7 - n) (0 :: u32)" if "length xs = 7" for xs
      using n that by (simp add: list_update_append list_update_same_conv nth_append)
    have absent: "m_stack_own m ! n = 0 \<and> m_stack_cross m ! n = 0 \<and> stack_need pol m n = 0" if "m_slot m ! n = 0"
      using ok n that by (auto simp: slot_ok_def stack_need_def Let_def)
    have absent': "take n (m_stack_own m) @ replicate (7 - n) 0 = take (Suc n) (m_stack_own m) @ replicate (6 - n) 0 \<and>
        take n (m_stack_cross m) @ replicate (7 - n) 0 = take (Suc n) (m_stack_cross m) @ replicate (6 - n) 0"
      if "m_slot m ! n = 0"
      using absent [OF that] same list_fill n len by metis
    show ?case using Suc.IH n len list_fill [of n "m_slot m"] list_fill [of n "m_stack_own m"]
        list_fill [of n "m_stack_cross m"] list_fill [of n ?need] absent absent'
      by (cases "m_slot m ! n = 0") (simp_all add: put_slot_def)
  qed
  from this [of 7] len show ?thesis by (simp add: put_slots_def)
qed

section \<open>The manifest\<close>

definition manifest_ok :: "plugin_policy \<Rightarrow> plugin_manifest \<Rightarrow> nat \<Rightarrow> bool" where
  "manifest_ok pol m len \<longleftrightarrow>
    m_magic m = str ''PMAN'' \<and> m_struct_size m = 244 \<and> m_abi_version m = PLUGIN_ABI_VERSION \<and>
    (\<forall>w \<in> set (m_reserved m). w = 0) \<and>
    pol_veneer_cost pol \<noteq> 0 \<and> pol_stack_accounting pol \<noteq> 0 \<and> m_stack_accounting m = pol_stack_accounting pol \<and>
    m_target_id m AND PLUGIN_TARGET_RESERVED_MASK = 0 \<and> m_target_id m = pol_target_id pol \<and>
    m_link_addr m = pol_link_addr pol \<and>
    m_capability m AND NOT PLUGIN_CAP_KNOWN_MASK = 0 \<and> m_capability m AND NOT (pol_caps_supported pol) = 0 \<and>
    244 \<le> unat (m_image_off m) \<and> unat (m_image_off m) + unat (m_file_size m) \<le> len \<and>
    m_file_size m \<le> m_mem_size m \<and> m_mem_size m \<le> pol_capacity pol \<and>
    pol_image_align pol \<noteq> 0 \<and> pol_link_addr pol AND (pol_image_align pol - 1) = 0 \<and>
    m_mem_size m AND (pol_image_align pol - 1) = 0 \<and>
    unat (m_segs m ! 0) + unat (m_segs m ! 1) \<le> unat (m_file_size m) \<and>
    unat (m_segs m ! 2) + unat (m_segs m ! 3) \<le> unat (m_file_size m) \<and>
    unat (m_segs m ! 4) + unat (m_segs m ! 5) \<le> unat (m_mem_size m) \<and>
    unat (m_segs m ! 6) + unat (m_segs m ! 7) \<le> unat (m_mem_size m) \<and> m_segs m ! 1 \<noteq> 0 \<and>
    sorted_wrt apart (map (\<lambda>k. (unat (m_segs m ! (2 * k)), unat (m_segs m ! (2 * k + 1)))) [0..<4]) \<and>
    drop_bit 7 (m_stack_crossing m) = 0 \<and> (\<forall>i < 7. slot_ok pol m i) \<and> (m_slot m ! 5 = 0 \<longleftrightarrow> m_slot m ! 6 = 0)"

definition manifest_view :: "plugin_policy \<Rightarrow> plugin_manifest \<Rightarrow> u32 \<Rightarrow> plugin_view \<Rightarrow> plugin_view" where
  "manifest_view pol m sect_off out =
    fill_view m sect_off ((put_slots pol m (out\<lparr>v_link_addr := m_link_addr m\<rparr>))
      \<lparr>v_stack_crossing := m_stack_crossing m, v_stack_sink := m_stack_sink m\<rparr>)"

lemma segs_apart:
  assumes "fits (segs ! 0) (segs ! 1) f" "fits (segs ! 2) (segs ! 3) f" "fits (segs ! 4) (segs ! 5) g" "fits (segs ! 6) (segs ! 7) g"
  shows "any_overlap [(segs ! 0, segs ! 1), (segs ! 2, segs ! 3), (segs ! 4, segs ! 5), (segs ! 6, segs ! 7)] \<longleftrightarrow>
    \<not> sorted_wrt apart (map (\<lambda>k. (unat (segs ! (2 * k)), unat (segs ! (2 * k + 1)))) [0..<4])"
proof -
  have "any_overlap [(segs ! 0, segs ! 1), (segs ! 2, segs ! 3), (segs ! 4, segs ! 5), (segs ! 6, segs ! 7)] \<longleftrightarrow>
      \<not> sorted_wrt apart (map nat_range [(segs ! 0, segs ! 1), (segs ! 2, segs ! 3), (segs ! 4, segs ! 5), (segs ! 6, segs ! 7)])"
    using assms u32_bound [of f] u32_bound [of g] by (intro any_overlap_apart) (auto simp: fits_nat)
  then show ?thesis by (simp add: nat_range_def upt_rec)
qed

lemma check_slots_and_fill_ok:
  assumes "length (m_slot m) = 7" "length (m_stack_own m) = 7" "length (m_stack_cross m) = 7"
    "v_slot out = replicate 7 0" "v_stack_own out = replicate 7 0" "v_stack_cross out = replicate 7 0"
    "v_stack out = replicate 7 0"
  shows "check_slots_and_fill pol m off out = (PLUGIN_OK, out') \<longleftrightarrow>
    drop_bit 7 (m_stack_crossing m) = 0 \<and> (\<forall>i < 7. slot_ok pol m i) \<and> (m_slot m ! 5 = 0 \<longleftrightarrow> m_slot m ! 6 = 0) \<and>
    out' = fill_view m off ((put_slots pol m out)\<lparr>v_stack_crossing := m_stack_crossing m, v_stack_sink := m_stack_sink m\<rparr>)"
proof -
  let ?ch = "if pol_veneer_cost pol > m_stack_sink m then pol_veneer_cost pol else m_stack_sink m"
  obtain rc o1 where sl: "slot_loop pol m ?ch [0..<7] out = (rc, o1)" by fastforce
  have d: "drop_bit 1 (drop_bit 6 (m_stack_crossing m)) = drop_bit 7 (m_stack_crossing m)" by (simp add: drop_bit_drop_bit)
  have ok: "rc = PLUGIN_OK \<longleftrightarrow> (\<forall>i < 7. slot_ok pol m i)"
    using slot_loop_ok [of pol m "[0..<7]" out "fold (put_slot pol m) [0..<7] out"] slot_loop_ok [of pol m "[0..<7]" out o1] sl
    by (auto simp: atLeast0LessThan)
  have o1: "rc = PLUGIN_OK \<Longrightarrow> o1 = put_slots pol m out"
    using slot_loop_ok [of pol m "[0..<7]" out o1] sl fold_put [OF assms] by (auto simp: atLeast0LessThan)
  have "check_slots_and_fill pol m off out = (PLUGIN_OK, out') \<longleftrightarrow>
      drop_bit 7 (m_stack_crossing m) = 0 \<and> rc = PLUGIN_OK \<and>
      ((v_slot o1 ! 5 = 0) = (v_slot o1 ! 6 = 0)) \<and>
      out' = fill_view m off (o1\<lparr>v_stack_crossing := m_stack_crossing m, v_stack_sink := m_stack_sink m\<rparr>)"
    by (auto simp: check_slots_and_fill_def Let_def plugin_slots PLUGIN_SLOT_ABSENT_def sl d refuse split: if_splits)
  then show ?thesis using ok o1 by (auto simp: put_slots_def)
qed

lemma manifest_checks_ok:
  assumes len: "length (m_slot m) = 7" "length (m_stack_own m) = 7" "length (m_stack_cross m) = 7"
    and out: "v_slot out = replicate 7 0" "v_stack_own out = replicate 7 0" "v_stack_cross out = replicate 7 0"
      "v_stack out = replicate 7 0"
  shows "manifest_checks pol m off n out = (PLUGIN_OK, out') \<longleftrightarrow>
    manifest_ok pol m (unat n) \<and> out' = manifest_view pol m off out"
proof -
  have fits: "fits (m_image_off m) (m_file_size m) n \<longleftrightarrow> unat (m_image_off m) + unat (m_file_size m) \<le> unat n"
    by (rule fits_nat)
  have sz: "(of_nat MANIFEST_SIZE :: u32) = 244" by (simp add: MANIFEST_SIZE_def)
  have hd: "(m_image_off m < m_struct_size m) = (\<not> 244 \<le> unat (m_image_off m))" if "m_struct_size m = 244"
    using that by (simp add: word_less_nat_alt not_le)
  have fill: "check_slots_and_fill pol m off (out\<lparr>v_link_addr := m_link_addr m\<rparr>) = (PLUGIN_OK, out') \<longleftrightarrow>
      drop_bit 7 (m_stack_crossing m) = 0 \<and> (\<forall>i < 7. slot_ok pol m i) \<and> (m_slot m ! 5 = 0 \<longleftrightarrow> m_slot m ! 6 = 0) \<and>
      out' = manifest_view pol m off out"
    using check_slots_and_fill_ok [OF len, where out = "out\<lparr>v_link_addr := m_link_addr m\<rparr>"] out
    by (simp add: manifest_view_def)
  let ?raw = "m_magic m = str ''PMAN'' \<and> m_struct_size m = of_nat MANIFEST_SIZE \<and> m_abi_version m = PLUGIN_ABI_VERSION \<and>
    \<not> list_ex (\<lambda>w. w \<noteq> 0) (m_reserved m) \<and> \<not> (pol_veneer_cost pol = 0 \<or> pol_stack_accounting pol = 0) \<and>
    m_stack_accounting m = pol_stack_accounting pol \<and> m_target_id m AND PLUGIN_TARGET_RESERVED_MASK = 0 \<and>
    m_target_id m = pol_target_id pol \<and> m_link_addr m = pol_link_addr pol \<and>
    m_capability m AND NOT PLUGIN_CAP_KNOWN_MASK = 0 \<and> m_capability m AND NOT (pol_caps_supported pol) = 0 \<and>
    \<not> m_image_off m < m_struct_size m \<and> fits (m_image_off m) (m_file_size m) n \<and>
    \<not> m_file_size m > m_mem_size m \<and> \<not> m_mem_size m > pol_capacity pol \<and>
    \<not> (pol_image_align pol = 0 \<or> pol_link_addr pol AND (pol_image_align pol - 1) \<noteq> 0 \<or>
       m_mem_size m AND (pol_image_align pol - 1) \<noteq> 0) \<and>
    \<not> (\<not> fits (m_segs m ! 0) (m_segs m ! 1) (m_file_size m) \<or> \<not> fits (m_segs m ! 2) (m_segs m ! 3) (m_file_size m) \<or>
       \<not> fits (m_segs m ! 4) (m_segs m ! 5) (m_mem_size m) \<or> \<not> fits (m_segs m ! 6) (m_segs m ! 7) (m_mem_size m)) \<and>
    m_segs m ! 1 \<noteq> 0 \<and>
    \<not> any_overlap [(m_segs m ! 0, m_segs m ! 1), (m_segs m ! 2, m_segs m ! 3), (m_segs m ! 4, m_segs m ! 5), (m_segs m ! 6, m_segs m ! 7)] \<and>
    check_slots_and_fill pol m off (out\<lparr>v_link_addr := m_link_addr m\<rparr>) = (PLUGIN_OK, out')"
  have "manifest_checks pol m off n out = (PLUGIN_OK, out') \<longleftrightarrow> ?raw"
    by (simp only: manifest_checks_def Let_def refuse not_not plugin_result.distinct simp_thms)
  also have "\<dots> \<longleftrightarrow> manifest_ok pol m (unat n) \<and> out' = manifest_view pol m off out"
  proof (cases "fits (m_segs m ! 0) (m_segs m ! 1) (m_file_size m) \<and> fits (m_segs m ! 2) (m_segs m ! 3) (m_file_size m) \<and>
       fits (m_segs m ! 4) (m_segs m ! 5) (m_mem_size m) \<and> fits (m_segs m ! 6) (m_segs m ! 7) (m_mem_size m)")
    case True
    then have ov: "any_overlap [(m_segs m ! 0, m_segs m ! 1), (m_segs m ! 2, m_segs m ! 3), (m_segs m ! 4, m_segs m ! 5), (m_segs m ! 6, m_segs m ! 7)] \<longleftrightarrow>
        \<not> sorted_wrt apart (map (\<lambda>k. (unat (m_segs m ! (2 * k)), unat (m_segs m ! (2 * k + 1)))) [0..<4])"
      by (intro segs_apart) auto
    have ns: "\<not> (\<not> fits (m_segs m ! 0) (m_segs m ! 1) (m_file_size m) \<or> \<not> fits (m_segs m ! 2) (m_segs m ! 3) (m_file_size m) \<or>
       \<not> fits (m_segs m ! 4) (m_segs m ! 5) (m_mem_size m) \<or> \<not> fits (m_segs m ! 6) (m_segs m ! 7) (m_mem_size m)) = True"
      using True by blast
    show ?thesis
      unfolding ov ns fill sz manifest_ok_def
      using True hd by (auto simp: fits_nat list_ex_iff not_less)
  next
    case False
    then show ?thesis by (auto simp: manifest_ok_def fits_nat)
  qed
  finally show ?thesis .
qed

section \<open>The container\<close>

definition header_ok :: "u8 list \<Rightarrow> u32 \<Rightarrow> u32 \<Rightarrow> bool" where
  "header_ok p count digest \<longleftrightarrow>
    80 \<le> length p \<and> length p < 4294967296 \<and> take 4 p = str ''NNC1'' \<and> take 4 (drop 4 p) = str ''PLGC'' \<and>
    rd32 p 8 = Some 80 \<and> rd32 p 12 = Some PLUGIN_ABI_VERSION \<and> rd32 p 16 = Some (of_nat (length p)) \<and>
    rd32 p 20 = Some count \<and> 1 \<le> unat count \<and> unat count \<le> 3 \<and> rd32 p 24 = Some digest \<and> rd32 p 28 = Some 0"

lemma check_header_ok:
  "(\<exists>r. check_header p = Some r) \<and>
    (check_header p = Some (Inr (tot, count, digest)) \<longleftrightarrow> header_ok p count digest \<and> tot = of_nat (length p))"
proof (cases "80 \<le> length p \<and> length p < 4294967296")
  case False
  then show ?thesis by (auto simp: check_header_def header_ok_def HDR_SIZE_def)
next
  case True
  have r: "\<exists>w. rd32 p k = Some w" if "k + 4 \<le> 80" for k using rd32_in [of k p] True that by auto
  obtain a b c d e f where rd: "rd32 p 8 = Some a" "rd32 p 12 = Some b" "rd32 p 16 = Some c" "rd32 p 20 = Some d"
      "rd32 p 24 = Some e" "rd32 p 28 = Some f"
    using r [of 8] r [of 12] r [of 16] r [of 20] r [of 24] r [of 28] by auto
  have bt: "rdbytes p 0 4 = Some (take 4 p)" "rdbytes p 4 4 = Some (take 4 (drop 4 p))"
    using True rdbytes_in [of 0 4 p] rdbytes_in [of 4 4 p] by simp_all
  have cnt: "\<not> (d = 0 \<or> d > PLUGIN_SECTION_MAX) \<longleftrightarrow> 1 \<le> unat d \<and> unat d \<le> 3"
    using unat_eq_0 [of d] by (auto simp: PLUGIN_SECTION_MAX_def word_less_nat_alt not_less Suc_le_eq)
  show ?thesis using True rd bt cnt
    by (simp add: check_header_def header_ok_def HDR_SIZE_def) auto
qed

definition sections_ok :: "u8 list \<Rightarrow> nat \<Rightarrow> sect list \<Rightarrow> bool" where
  "sections_ok p count ss \<longleftrightarrow> length ss = count \<and> distinct (map s_type ss) \<and>
    (\<forall>j < count. entry_ok p (of_nat (length p)) count j (ss ! j)) \<and>
    sorted_wrt apart (map (\<lambda>s. (unat (s_off s), unat (s_len s))) ss)"

lemma read_sections_ok:
  assumes h: "header_ok p count digest"
  shows "(\<exists>r. read_sections p (of_nat (length p)) count = Some r) \<and>
    (read_sections p (of_nat (length p)) count = Some (Inr (ss, k)) \<longleftrightarrow>
      sections_ok p (unat count) ss \<and> k = kinds_of ss)"
proof -
  let ?tot = "of_nat (length p) :: u32"
  have len: "unat ?tot = length p" using h by (simp add: header_ok_def unsigned_of_nat take_bit_nat_eq_self)
  have room: "HDR_SECTIONS + (0 + unat count) * SECTION_SIZE \<le> length p"
    using h by (simp add: header_ok_def HDR_SECTIONS_def SECTION_SIZE_def)
  have sl: "(\<exists>r. section_loop p ?tot (unat count) 0 (unat count) [] (kinds_of []) = Some r) \<and>
    (section_loop p ?tot (unat count) 0 (unat count) [] (kinds_of []) = Some (Inr (ss, k)) \<longleftrightarrow>
      (length ss = unat count \<and> k = kinds_of ss \<and> distinct (map s_type ss) \<and>
        (\<forall>j < unat count. entry_ok p ?tot (unat count) j (ss ! j))))" for ss k
    using section_loop_spec [of 0 "[]" "unat count" p ?tot "unat count" ss k] room by auto
  have k0: "kinds_of [] = (None, None, None)" by (simp add: kinds_of_def kind_idx_def)
  obtain r where r: "section_loop p ?tot (unat count) 0 (unat count) [] (None, None, None) = Some r"
    using sl [of "[]" "kinds_of []", THEN conjunct1] unfolding k0 by blast
  have iff: "r = Inr (ss, k) \<longleftrightarrow> length ss = unat count \<and> k = kinds_of ss \<and> distinct (map s_type ss) \<and>
      (\<forall>j < unat count. entry_ok p ?tot (unat count) j (ss ! j))"
    using sl [of ss k] k0 r by auto
  show ?thesis
  proof (cases r)
    case (Inl e)
    then show ?thesis using r iff by (auto simp: read_sections_def sections_ok_def)
  next
    case (Inr q)
    then obtain ss' k' where q: "r = Inr (ss', k')" by (cases q) auto
    have iff': "length ss' = unat count \<and> k' = kinds_of ss' \<and> distinct (map s_type ss') \<and>
        (\<forall>j < unat count. entry_ok p ?tot (unat count) j (ss' ! j))"
      using sl [of ss' k'] k0 r q by auto
    then have "\<forall>x \<in> set (map (\<lambda>s. (s_off s, s_len s)) ss'). unat (fst x) + unat (snd x) < 4294967296"
      using len h by (fastforce simp: entry_ok_def in_set_conv_nth header_ok_def)
    from any_overlap_apart [OF this]
    have ov: "any_overlap (map (\<lambda>s. (s_off s, s_len s)) ss') \<longleftrightarrow>
        \<not> sorted_wrt apart (map (\<lambda>s. (unat (s_off s), unat (s_len s))) ss')"
      by (simp add: nat_range_def comp_def)
    show ?thesis using r q iff iff' by (auto simp: read_sections_def sections_ok_def ov)
  qed
qed

lemma kind_find: "find (\<lambda>s. s_type s = t) ss = map_option ((!) ss) (kind_idx t ss)"
  by (induction ss) (auto simp: kind_idx_def)

text \<open>The whole specification: header, table, model, and the plugin when there is one.\<close>

definition base_view :: "sect list \<Rightarrow> sect \<Rightarrow> plugin_view" where
  "base_view ss model =
    (let v = zero_view\<lparr>v_model_off := s_off model, v_model_len := s_len model\<rparr> in
     case find (\<lambda>s. s_type s = 3) ss of None \<Rightarrow> v | Some d \<Rightarrow> v\<lparr>v_data_off := s_off d, v_data_len := s_len d\<rparr>)"

definition section_bytes :: "u8 list \<Rightarrow> sect \<Rightarrow> u8 list" where
  "section_bytes p s = take (unat (s_len s)) (drop (unat (s_off s)) p)"

definition plugin_ok :: "plugin_policy \<Rightarrow> u8 list \<Rightarrow> sect \<Rightarrow> u32 \<Rightarrow> plugin_view \<Rightarrow> plugin_view \<Rightarrow> bool" where
  "plugin_ok pol p s digest base v \<longleftrightarrow>
    (\<exists>m. 244 \<le> unat (s_len s) \<and> read_manifest p (unat (s_off s)) = Some m \<and> manifest_ok pol m (unat (s_len s)) \<and>
      crc32_update 0 (section_bytes p s) = digest \<and>
      v = (manifest_view pol m (s_off s) base)\<lparr>v_digest := digest, v_has_plugin := True\<rparr>)"

definition container_ok :: "plugin_policy \<Rightarrow> u8 list \<Rightarrow> plugin_view \<Rightarrow> bool" where
  "container_ok pol p v \<longleftrightarrow>
    (\<exists>count digest ss model. header_ok p count digest \<and> sections_ok p (unat count) ss \<and>
      find (\<lambda>s. s_type s = 1) ss = Some model \<and> s_off model AND 15 = 0 \<and>
      (case find (\<lambda>s. s_type s = 2) ss of
         None \<Rightarrow> digest = 0 \<and> v = base_view ss model
       | Some s \<Rightarrow> plugin_ok pol p s digest (base_view ss model) v))"

lemma section_inside:
  assumes "header_ok p count digest" "sections_ok p (unat count) ss" "s \<in> set ss"
  shows "unat (s_off s) + unat (s_len s) \<le> length p" "32 + 16 * unat count \<le> unat (s_off s)" "0 < unat (s_len s)"
proof -
  have len: "unat (of_nat (length p) :: u32) = length p"
    using assms(1) by (simp add: header_ok_def unsigned_of_nat take_bit_nat_eq_self)
  obtain j where "j < unat count" "ss ! j = s" using assms(2,3) by (auto simp: sections_ok_def in_set_conv_nth)
  then have "entry_ok p (of_nat (length p)) (unat count) j s" using assms(2) by (auto simp: sections_ok_def)
  then show "unat (s_off s) + unat (s_len s) \<le> length p" "32 + 16 * unat count \<le> unat (s_off s)" "0 < unat (s_len s)"
    by (auto simp: entry_ok_def len unat_gt_0)
qed

lemma parse_plugin_ok:
  assumes s: "unat (s_off s) + unat (s_len s) \<le> length p"
    and out: "v_slot out = replicate 7 0" "v_stack_own out = replicate 7 0" "v_stack_cross out = replicate 7 0"
      "v_stack out = replicate 7 0"
  shows "(\<exists>r. parse_plugin p s digest pol out = Some r) \<and>
    (parse_plugin p s digest pol out = Some (PLUGIN_OK, v) \<longleftrightarrow> plugin_ok pol p s digest out v)"
proof (cases "244 \<le> unat (s_len s)")
  case False
  then show ?thesis by (auto simp: parse_plugin_def check_manifest_def MANIFEST_SIZE_def plugin_ok_def)
next
  case True
  then obtain m where m: "read_manifest p (unat (s_off s)) = Some m" using read_manifest_in [of "unat (s_off s)" p] s by auto
  have by': "rdbytes p (unat (s_off s)) (unat (s_len s)) = Some (section_bytes p s)"
    using rdbytes_in [OF s] by (simp add: section_bytes_def)
  obtain rc o1 where ck: "manifest_checks pol m (s_off s) (s_len s) out = (rc, o1)" by fastforce
  have iff: "rc = PLUGIN_OK \<and> o1 = w \<longleftrightarrow> manifest_ok pol m (unat (s_len s)) \<and> w = manifest_view pol m (s_off s) out" for w
    using manifest_checks_ok [OF read_manifest_lengths(2-4) [OF m] out, of pol "s_off s" "s_len s" w] ck by auto
  have cm: "check_manifest p (s_off s) (s_len s) pol out = Some (rc, o1)"
    using True by (simp add: check_manifest_def MANIFEST_SIZE_def m ck)
  have "parse_plugin p s digest pol out =
      Some (if rc \<noteq> PLUGIN_OK then (rc, o1)
        else if crc32_update 0 (section_bytes p s) \<noteq> digest then (PLUGIN_ERR_DIGEST, o1)
        else (PLUGIN_OK, o1\<lparr>v_digest := digest, v_has_plugin := True\<rparr>))"
    by (simp add: parse_plugin_def cm by')
  then show ?thesis using iff [of o1] iff [of "manifest_view pol m (s_off s) out"] True m
    by (auto simp: plugin_ok_def)
qed

lemma base_view_arrays:
  "v_slot (base_view ss s) = replicate 7 0" "v_stack_own (base_view ss s) = replicate 7 0"
  "v_stack_cross (base_view ss s) = replicate 7 0" "v_stack (base_view ss s) = replicate 7 0"
  by (simp_all add: base_view_def zero_view_def Let_def split: option.split)

lemma find_Some_mem: "find P xs = Some x \<Longrightarrow> x \<in> set xs"
  by (auto simp: find_Some_iff)

lemma model_align: "PLUGIN_MODEL_ALIGN - 1 = 15"
  by (simp add: PLUGIN_MODEL_ALIGN_def)

lemma section_loop_err: "section_loop p tot count i n out k = Some (Inl e) \<Longrightarrow> e \<noteq> PLUGIN_OK"
  by (induction n arbitrary: i out k) (auto simp: Let_def split: if_splits option.splits bind_splits)

lemma read_sections_err: "read_sections p tot count = Some (Inl e) \<Longrightarrow> e \<noteq> PLUGIN_OK"
  by (auto simp: read_sections_def dest: section_loop_err split: if_splits bind_splits sum.splits)

lemma parse_into_ok:
  "(\<exists>r. parse_into p pol zero_view = Some r) \<and>
    (parse_into p pol zero_view = Some (PLUGIN_OK, v) \<longleftrightarrow> container_ok pol p v)"
proof -
  obtain h where h: "check_header p = Some h" using check_header_ok by blast
  show ?thesis
  proof (cases h)
    case (Inl e)
    have "\<not> header_ok p count digest" for count digest
      using check_header_ok [of p "of_nat (length p)" count digest] h Inl by auto
    moreover have "e \<noteq> PLUGIN_OK" using h Inl by (auto simp: check_header_def split: if_splits bind_splits)
    ultimately show ?thesis using h Inl by (auto simp: parse_into_def container_ok_def)
  next
    case (Inr q)
    then obtain tot count digest where q: "h = Inr (tot, count, digest)" by (cases q) auto
    have hd: "header_ok p count digest" and tot: "tot = of_nat (length p)"
      using check_header_ok [of p tot count digest] h q by auto
    have uniq: "c = count \<and> d = digest" if "header_ok p c d" for c d using that hd by (auto simp: header_ok_def)
    obtain r where r: "read_sections p tot count = Some r" using read_sections_ok [OF hd] tot by blast
    show ?thesis
    proof (cases r)
      case (Inl e)
      have "\<not> sections_ok p (unat count) ss" for ss
        using read_sections_ok [OF hd, of ss "kinds_of ss"] r Inl tot by auto
      then have "\<not> container_ok pol p v" using uniq by (force simp: container_ok_def)
      moreover have "e \<noteq> PLUGIN_OK" using r Inl read_sections_err by auto
      ultimately show ?thesis using h q r Inl by (auto simp: parse_into_def)
    next
      case (Inr w)
      obtain ss k where w: "r = Inr (ss, k)" using Inr by (cases w) auto
      have so: "sections_ok p (unat count) ss" and k: "k = kinds_of ss"
        using read_sections_ok [OF hd, of ss k] r w tot by auto
      have only: "ss' = ss" if "sections_ok p (unat count) ss'" for ss'
        using read_sections_ok [OF hd, of ss' "kinds_of ss'"] that r w tot by auto
      have co: "container_ok pol p v \<longleftrightarrow> (\<exists>model. find (\<lambda>s. s_type s = 1) ss = Some model \<and> s_off model AND 15 = 0 \<and>
          (case find (\<lambda>s. s_type s = 2) ss of None \<Rightarrow> digest = 0 \<and> v = base_view ss model
           | Some s \<Rightarrow> plugin_ok pol p s digest (base_view ss model) v))"
        unfolding container_ok_def using hd so uniq only by blast
      have base: "(case kind_idx 3 ss of None \<Rightarrow> zero_view\<lparr>v_model_off := s_off m, v_model_len := s_len m\<rparr>
          | Some dt \<Rightarrow> zero_view\<lparr>v_model_off := s_off m, v_model_len := s_len m, v_data_off := s_off (ss ! dt), v_data_len := s_len (ss ! dt)\<rparr>)
          = base_view ss m" for m
        by (simp add: base_view_def kind_find Let_def split: option.split)
      have run: "parse_into p pol zero_view =
        (case kind_idx 1 ss of None \<Rightarrow> Some (PLUGIN_ERR_NO_MODEL, zero_view)
         | Some im \<Rightarrow>
             if s_off (ss ! im) AND 15 \<noteq> 0 then Some (PLUGIN_ERR_MODEL_ALIGN, zero_view)
             else (case kind_idx 2 ss of
                 None \<Rightarrow> Some (if digest \<noteq> 0 then PLUGIN_ERR_DIGEST else PLUGIN_OK, base_view ss (ss ! im))
               | Some ip \<Rightarrow> parse_plugin p (ss ! ip) digest pol (base_view ss (ss ! im))))"
        using h q r w k base [symmetric]
        by (simp add: parse_into_def kinds_of_def Let_def) (auto simp: model_align split: option.split)
      show ?thesis
      proof (cases "find (\<lambda>s. s_type s = 2) ss")
        case None
        then show ?thesis unfolding co run by (auto simp: kind_find split: option.split)
      next
        case (Some s)
        have "unat (s_off s) + unat (s_len s) \<le> length p"
          using section_inside(1) [OF hd so find_Some_mem [OF Some]] .
        note pp = parse_plugin_ok [OF this base_view_arrays, of digest pol ss _ v]
        show ?thesis unfolding co run using Some pp by (auto simp: kind_find split: option.split)
      qed
    qed
  qed
qed

lemma plugin_parse_spec:
  "\<exists>rc v. plugin_parse pol (Some p) out = Some (rc, v) \<and> (rc = PLUGIN_OK \<longleftrightarrow> container_ok pol p v) \<and>
     (rc = PLUGIN_OK \<or> v = zero_view) \<and> (\<forall>w. container_ok pol p w \<longrightarrow> rc = PLUGIN_OK \<and> w = v)"
proof -
  obtain rc v where r: "parse_into p pol zero_view = Some (rc, v)" using parse_into_ok [of p pol] by force
  have iff: "container_ok pol p w \<longleftrightarrow> rc = PLUGIN_OK \<and> w = v" for w
    using parse_into_ok [of p pol w] r by auto
  show ?thesis using r iff by (auto simp: plugin_parse_def parse_checked_def)
qed

section \<open>What an accepted view promises its users\<close>

lemma read_manifest_names:
  "read_manifest p m = Some mf \<Longrightarrow> length (m_name mf) = 32 \<and> length (m_build_id mf) = 32"
  by (auto simp: read_manifest_def rdbytes_def split: bind_splits if_splits)

lemma bounded_str_nul: "length s = 32 \<Longrightarrow> 0 \<in> set (bounded_str s)"
  by (auto simp: bounded_str_def in_set_conv_nth intro!: exI [of _ 31])

lemma apart_sym: "apart a b \<longleftrightarrow> apart b a"
  by (auto simp: apart_def)

lemma sections_apart:
  assumes "sections_ok p n ss" "s \<in> set ss" "t \<in> set ss" "s_type s \<noteq> s_type t"
  shows "apart (unat (s_off s), unat (s_len s)) (unat (s_off t), unat (s_len t))"
proof -
  obtain i j where ij: "i < length ss" "j < length ss" "ss ! i = s" "ss ! j = t" using assms(2,3) by (auto simp: in_set_conv_nth)
  then have "i \<noteq> j" using assms(4) by auto
  moreover have ap: "apart (unat (s_off (ss ! a)), unat (s_len (ss ! a))) (unat (s_off (ss ! b)), unat (s_len (ss ! b)))"
    if "a < b" "b < length ss" for a b
    using assms(1) that by (auto simp: sections_ok_def sorted_wrt_iff_nth_less)
  ultimately show ?thesis using ij apart_sym by (metis linorder_neqE_nat)
qed

lemma unat_sum:
  "unat (a :: u32) + unat b < 4294967296 \<Longrightarrow> unat (a + b) = unat a + unat b"
  by (simp add: unat_add_lem [THEN iffD1])

text \<open>
  The four segments of a view relative to its image: code, data, bss and scratch. The last two are
  in memory only and may lie past the file part, so their offsets from byte 0 of the container are
  words that need not stay below its end; the difference to the image's offset is exact.
\<close>

definition view_segments :: "plugin_view \<Rightarrow> range list" where
  "view_segments v =
    [(unat (v_code_off v - v_image_off v), unat (v_code_len v)),
     (unat (v_data_seg_off v - v_image_off v), unat (v_data_seg_len v)),
     (unat (v_bss_off v - v_image_off v), unat (v_bss_len v)),
     (unat (v_scratch_off v - v_image_off v), unat (v_scratch_len v))]"

definition range_in :: "nat \<Rightarrow> range \<Rightarrow> bool" where
  "range_in n r \<longleftrightarrow> fst r + snd r \<le> n"

text \<open>The requirement of slot \<open>i\<close> over the natural numbers, as \<open>plugin_load.h\<close> states it.\<close>

definition view_need :: "plugin_policy \<Rightarrow> plugin_view \<Rightarrow> nat \<Rightarrow> nat" where
  "view_need pol v i =
    (if bit (v_stack_crossing v) i
     then max (unat (v_stack_own v ! i))
       (unat (v_stack_cross v ! i) + max (unat (pol_veneer_cost pol)) (unat (v_stack_sink v)))
     else unat (v_stack_own v ! i))"

definition slot_absent_safe :: "plugin_view \<Rightarrow> nat \<Rightarrow> bool" where
  "slot_absent_safe v i \<longleftrightarrow>
    \<not> slot_mandatory i \<and> v_capability v AND slot_cap i = 0 \<and> v_stack v ! i = 0 \<and>
    v_stack_own v ! i = 0 \<and> v_stack_cross v ! i = 0 \<and> \<not> bit (v_stack_crossing v) i"

definition slot_present_safe :: "plugin_policy \<Rightarrow> plugin_view \<Rightarrow> nat \<Rightarrow> bool" where
  "slot_present_safe pol v i \<longleftrightarrow>
    (slot_cap i \<noteq> 0 \<longrightarrow> v_capability v AND slot_cap i \<noteq> 0) \<and>
    odd (unat (v_slot v ! i)) \<and>
    unat (v_code_off v) \<le> unat (v_image_off v) + (unat (v_slot v ! i) - 1) \<and>
    unat (v_image_off v) + (unat (v_slot v ! i) - 1) < unat (v_code_off v) + unat (v_code_len v) \<and>
    v_stack_cross v ! i \<le> v_stack_own v ! i \<and>
    (v_stack_cross v ! i \<noteq> 0 \<longrightarrow> bit (v_stack_crossing v) i) \<and>
    unat (v_stack v ! i) = view_need pol v i \<and>
    0 < pol_stack_limit pol i \<and> v_stack v ! i \<le> pol_stack_limit pol i"

definition view_safe :: "plugin_policy \<Rightarrow> nat \<Rightarrow> plugin_view \<Rightarrow> bool" where
  "view_safe pol len v \<longleftrightarrow>
    unat (v_image_off v) + unat (v_file_size v) \<le> len \<and>
    apart (unat (v_model_off v), unat (v_model_len v)) (unat (v_image_off v), unat (v_file_size v)) \<and>
    v_file_size v \<le> v_mem_size v \<and> v_mem_size v \<le> pol_capacity pol \<and> v_link_addr v = pol_link_addr pol \<and>
    v_mem_size v AND (pol_image_align pol - 1) = 0 \<and> v_link_addr v AND (pol_image_align pol - 1) = 0 \<and>
    unat (v_image_off v) \<le> unat (v_code_off v) \<and> 0 < unat (v_code_len v) \<and>
    unat (v_code_off v) + unat (v_code_len v) \<le> unat (v_image_off v) + unat (v_file_size v) \<and>
    unat (v_image_off v) \<le> unat (v_data_seg_off v) \<and>
    unat (v_data_seg_off v) + unat (v_data_seg_len v) \<le> unat (v_image_off v) + unat (v_file_size v) \<and>
    list_all (range_in (unat (v_mem_size v))) (view_segments v) \<and>
    sorted_wrt apart (view_segments v) \<and>
    v_capability v AND NOT (pol_caps_supported pol) = 0 \<and>
    (\<forall>i < 7. if v_slot v ! i = 0 then slot_absent_safe v i else slot_present_safe pol v i) \<and>
    (v_slot v ! PLUGIN_SLOT_PARAM_SET = 0 \<longleftrightarrow> v_slot v ! PLUGIN_SLOT_PARAM_GET = 0) \<and>
    0 \<in> set (v_name v) \<and> 0 \<in> set (v_build_id v)"

text \<open>The fields of the view of an accepted manifest.\<close>

lemma manifest_view_fields:
  assumes "v = (manifest_view pol m off base)\<lparr>v_digest := digest, v_has_plugin := True\<rparr>"
  shows "v_image_off v = off + m_image_off m" "v_file_size v = m_file_size m" "v_mem_size v = m_mem_size m"
    "v_link_addr v = m_link_addr m" "v_code_off v = off + m_image_off m + m_segs m ! 0" "v_code_len v = m_segs m ! 1"
    "v_data_seg_off v = off + m_image_off m + m_segs m ! 2" "v_data_seg_len v = m_segs m ! 3"
    "v_bss_off v = off + m_image_off m + m_segs m ! 4" "v_bss_len v = m_segs m ! 5"
    "v_scratch_off v = off + m_image_off m + m_segs m ! 6" "v_scratch_len v = m_segs m ! 7"
    "v_slot v = m_slot m" "v_stack v = map (\<lambda>i. of_nat (stack_need pol m i)) [0..<7]"
    "v_stack_own v = m_stack_own m" "v_stack_cross v = m_stack_cross m"
    "v_stack_crossing v = m_stack_crossing m" "v_stack_sink v = m_stack_sink m"
    "v_capability v = m_capability m"
    "v_name v = bounded_str (m_name m)" "v_build_id v = bounded_str (m_build_id m)"
    "v_model_off v = v_model_off base" "v_model_len v = v_model_len base"
  by (simp_all add: assms manifest_view_def fill_view_def put_slots_def Let_def)

lemma view_need_exact:
  assumes "v = (manifest_view pol m off base)\<lparr>v_digest := digest, v_has_plugin := True\<rparr>"
  shows "view_need pol v i = stack_need pol m i"
  by (simp add: view_need_def stack_need_def manifest_view_fields [OF assms] Let_def)

lemma view_slot_safe:
  assumes v: "v = (manifest_view pol m off base)\<lparr>v_digest := digest, v_has_plugin := True\<rparr>"
    and ok: "slot_ok pol m i" and i: "i < 7"
    and code: "unat (v_code_off v) = unat (v_image_off v) + unat (m_segs m ! 0)"
  shows "if v_slot v ! i = 0 then slot_absent_safe v i else slot_present_safe pol v i"
proof (cases "m_slot m ! i = 0")
  case True
  then have "stack_need pol m i = 0" using ok by (auto simp: slot_ok_def stack_need_def Let_def)
  with True ok i show ?thesis
    by (simp add: slot_absent_safe_def manifest_view_fields [OF v] slot_ok_def Let_def)
next
  case False
  then have so: "odd (unat (m_slot m ! i))" "unat (m_segs m ! 0) \<le> unat (m_slot m ! i) - 1"
    "unat (m_slot m ! i) - 1 < unat (m_segs m ! 0) + unat (m_segs m ! 1)" "has_cap m i"
    "bit (m_stack_crossing m) i \<or> m_stack_cross m ! i = 0" "m_stack_cross m ! i \<le> m_stack_own m ! i"
    "0 < pol_stack_limit pol i" "stack_need pol m i \<le> unat (pol_stack_limit pol i)"
    using ok by (auto simp: slot_ok_def Let_def)
  have n: "unat (v_stack v ! i) = stack_need pol m i"
    using so(8) u32_bound [of "pol_stack_limit pol i"] i
    by (simp add: manifest_view_fields [OF v] unsigned_of_nat take_bit_nat_eq_self)
  have f: "v_slot v ! i = m_slot m ! i" "v_code_len v = m_segs m ! 1" "v_capability v = m_capability m"
    "v_stack_own v ! i = m_stack_own m ! i" "v_stack_cross v ! i = m_stack_cross m ! i"
    "v_stack_crossing v = m_stack_crossing m"
    by (simp_all add: manifest_view_fields [OF v])
  have "slot_present_safe pol v i"
    unfolding slot_present_safe_def n view_need_exact [OF v] word_le_nat_alt f code
    using so by (auto simp: has_cap_def word_le_nat_alt)
  with False show ?thesis by (simp add: f)
qed

lemma plugin_ok_safe:
  assumes ok: "plugin_ok pol p s digest base v"
    and s: "unat (s_off s) + unat (s_len s) \<le> length p" and p: "length p < 4294967296"
    and model: "apart (unat (v_model_off base), unat (v_model_len base)) (unat (s_off s), unat (s_len s))"
  shows "view_safe pol (length p) v"
proof -
  obtain m where m: "read_manifest p (unat (s_off s)) = Some m" "manifest_ok pol m (unat (s_len s))"
      "v = (manifest_view pol m (s_off s) base)\<lparr>v_digest := digest, v_has_plugin := True\<rparr>"
    using ok by (auto simp: plugin_ok_def)
  note v = manifest_view_fields [OF m(3)]
  let ?io = "unat (m_image_off m)" and ?fs = "unat (m_file_size m)" and ?g = "\<lambda>k. unat (m_segs m ! k)"
  have mo: "?io + ?fs \<le> unat (s_len s)" "?g 0 + ?g 1 \<le> ?fs" "?g 2 + ?g 3 \<le> ?fs" "m_segs m ! 1 \<noteq> 0"
      "m_file_size m \<le> m_mem_size m" "m_mem_size m \<le> pol_capacity pol" "m_link_addr m = pol_link_addr pol"
      "\<forall>i < 7. slot_ok pol m i" "m_slot m ! 5 = 0 \<longleftrightarrow> m_slot m ! 6 = 0"
      "sorted_wrt apart (map (\<lambda>k. (unat (m_segs m ! (2 * k)), unat (m_segs m ! (2 * k + 1)))) [0..<4])"
      "?g 4 + ?g 5 \<le> unat (m_mem_size m)" "?g 6 + ?g 7 \<le> unat (m_mem_size m)"
    using m(2) by (auto simp: manifest_ok_def)
  have al: "pol_link_addr pol AND (pol_image_align pol - 1) = 0" "m_mem_size m AND (pol_image_align pol - 1) = 0"
      "m_capability m AND NOT (pol_caps_supported pol) = 0"
    using m(2) by (auto simp: manifest_ok_def)
  have fm: "?fs \<le> unat (m_mem_size m)" using mo(5) by (simp add: word_le_nat_alt)
  have img: "unat (v_image_off v) = unat (s_off s) + ?io" using mo s p unfolding v by (intro unat_sum) linarith
  have code: "unat (v_code_off v) = unat (v_image_off v) + ?g 0"
    using unat_sum [of "v_image_off v" "m_segs m ! 0"] mo s p img by (simp add: v)
  have data: "unat (v_data_seg_off v) = unat (v_image_off v) + ?g 2"
    using unat_sum [of "v_image_off v" "m_segs m ! 2"] mo s p img by (simp add: v)
  have segs: "view_segments v = map (\<lambda>k. (?g (2 * k), ?g (2 * k + 1))) [0..<4]"
    by (simp add: view_segments_def v upt_rec)
  have within: "list_all (range_in (unat (v_mem_size v))) (view_segments v)"
    using mo fm by (simp add: view_segments_def v range_in_def)
  have mod: "apart (unat (v_model_off v), unat (v_model_len v)) (unat (v_image_off v), unat (v_file_size v))"
    using model mo(1) unfolding img by (auto simp: apart_def v)
  have names: "0 \<in> set (v_name v)" "0 \<in> set (v_build_id v)"
    using read_manifest_names [OF m(1)] bounded_str_nul by (simp_all add: v)
  have pair: "v_slot v ! PLUGIN_SLOT_PARAM_SET = 0 \<longleftrightarrow> v_slot v ! PLUGIN_SLOT_PARAM_GET = 0"
    using mo(9) by (simp add: v plugin_slots)
  have slots: "\<forall>i < 7. if v_slot v ! i = 0 then slot_absent_safe v i else slot_present_safe pol v i"
    using view_slot_safe [OF m(3) _ _ code] mo(8) by blast
  have "v_capability v AND NOT (pol_caps_supported pol) = 0" "v_link_addr v = pol_link_addr pol"
      "v_mem_size v AND (pol_image_align pol - 1) = 0" "v_link_addr v AND (pol_image_align pol - 1) = 0"
      "v_file_size v \<le> v_mem_size v" "v_mem_size v \<le> pol_capacity pol" "0 < unat (v_code_len v)"
      "unat (v_image_off v) + unat (v_file_size v) \<le> length p"
      "?g 0 + unat (v_code_len v) \<le> unat (v_file_size v)" "?g 2 + unat (v_data_seg_len v) \<le> unat (v_file_size v)"
    using al mo s unfolding img by (simp_all add: v unat_gt_0)
  then show ?thesis
    unfolding view_safe_def code data using mod within mo(10) names pair slots by (simp add: segs)
qed

lemma plugin_parse_safe_lemma:
  assumes ok: "plugin_parse pol (Some p) out = Some (PLUGIN_OK, v)"
  shows "unat (v_model_off v) + unat (v_model_len v) \<le> length p \<and> v_model_off v AND 15 = 0 \<and>
    (v_has_plugin v \<longrightarrow> view_safe pol (length p) v)"
proof -
  have "container_ok pol p v" using plugin_parse_spec [of pol p out] ok by auto
  then obtain count digest ss model where h: "header_ok p count digest" "sections_ok p (unat count) ss"
      "find (\<lambda>s. s_type s = 1) ss = Some model" "s_off model AND 15 = 0"
      "case find (\<lambda>s. s_type s = 2) ss of None \<Rightarrow> digest = 0 \<and> v = base_view ss model
       | Some s \<Rightarrow> plugin_ok pol p s digest (base_view ss model) v"
    by (auto simp: container_ok_def)
  have model: "model \<in> set ss" "s_type model = 1" using h(3) by (auto simp: find_Some_iff)
  note inside = section_inside [OF h(1,2)]
  have b: "v_model_off (base_view ss model) = s_off model" "v_model_len (base_view ss model) = s_len model"
    "\<not> v_has_plugin (base_view ss model)"
    by (simp_all add: base_view_def zero_view_def Let_def split: option.split)
  show ?thesis
  proof (cases "find (\<lambda>s. s_type s = 2) ss")
    case None
    then show ?thesis using h(4,5) inside(1) [OF model(1)] b by simp
  next
    case (Some s)
    then have s: "s \<in> set ss" "s_type s = 2" by (auto simp: find_Some_iff)
    have po: "plugin_ok pol p s digest (base_view ss model) v" using h(5) Some by simp
    have "apart (unat (v_model_off (base_view ss model)), unat (v_model_len (base_view ss model))) (unat (s_off s), unat (s_len s))"
      using sections_apart [OF h(2) model(1) s(1)] model(2) s(2) by (simp add: b)
    moreover have "v_model_off v = s_off model" "v_model_len v = s_len model"
      using po by (auto simp: plugin_ok_def manifest_view_def fill_view_def put_slots_def Let_def b)
    ultimately show ?thesis
      using plugin_ok_safe [OF po inside(1) [OF s(1)]] h(1,4) inside(1) [OF model(1)] by (simp add: header_ok_def)
  qed
qed

section \<open>A container\<close>

text \<open>A container of one model and one plugin with three slots, as words.\<close>

definition sample_section :: "u32 list" where
  "sample_section =
    [0x4E414D50, 244, 2, 0x1201, 0x20000000, 0, 244, 32, 32,
     0, 32, 32, 0, 32, 0, 32, 0,
     1, 3, 5, 0, 0, 0, 0,  8, 8, 8, 0, 0, 0, 0,  0, 0, 0, 0, 0, 0, 0,  0, 0, 2] @ replicate 28 0"

definition words_bytes :: "u32 list \<Rightarrow> u8 list" where
  "words_bytes ws = concat (map put32 ws)"

definition sample_words :: "u32 list" where
  "sample_words =
    [0x31434E4E, 0x43474C50, 80, 2, 372, 2, crc32_update 0 (words_bytes sample_section), 0,
     1, 80, 16, 0,  2, 96, 276, 0,  0, 0, 0, 0,  0, 0, 0, 0] @ sample_section"

definition sample_policy :: plugin_policy where
  "sample_policy = \<lparr>pol_target_id = 0x1201, pol_link_addr = 0x20000000, pol_capacity = 4096, pol_image_align = 32,
    pol_caps_supported = 7, pol_stack_limit = (\<lambda>_. 512), pol_veneer_cost = 64, pol_stack_accounting = 2\<rparr>"

lemma words_bytes_length: "length (words_bytes ws) = 4 * length ws"
  by (induction ws) (simp_all add: words_bytes_def put32_def)

lemma words_bytes_drop: "drop (4 * k) (words_bytes ws) = words_bytes (drop k ws)"
proof (induction ws arbitrary: k)
  case (Cons w ws)
  have "length (put32 w) = 4" by (simp add: put32_def)
  with Cons show ?case by (cases k) (simp_all add: words_bytes_def)
qed (simp add: words_bytes_def)

lemma words_bytes_take: "take (4 * k) (words_bytes ws) = words_bytes (take k ws)"
proof (induction ws arbitrary: k)
  case (Cons w ws)
  have "length (put32 w) = 4" by (simp add: put32_def)
  with Cons show ?case by (cases k) (simp_all add: words_bytes_def)
qed (simp add: words_bytes_def)

lemma rd32_words: "k mod 4 = 0 \<Longrightarrow> k div 4 < length ws \<Longrightarrow> rd32 (words_bytes ws) k = Some (ws ! (k div 4))"
proof -
  assume k: "k mod 4 = 0" "k div 4 < length ws"
  let ?i = "k div 4"
  have ws: "ws = take ?i ws @ ws ! ?i # drop (Suc ?i) ws" using k by (simp add: id_take_nth_drop)
  have b: "words_bytes ws = words_bytes (take ?i ws) @ put32 (ws ! ?i) @ words_bytes (drop (Suc ?i) ws)"
    by (subst ws) (simp add: words_bytes_def)
  have "length (words_bytes (take ?i ws)) = k" using k by (simp add: words_bytes_length) presburger
  then have "get32 (words_bytes ws) k = ws ! ?i" by (subst b) (rule get32_at)
  moreover have "k + 3 < length (words_bytes ws)" using k unfolding words_bytes_length by presburger
  ultimately show ?thesis by (simp add: rd32_def get32_def ld_in or.assoc)
qed

lemma rd32s_words:
  "k mod 4 = 0 \<Longrightarrow> k div 4 + n \<le> length ws \<Longrightarrow> rd32s (words_bytes ws) k n = Some (take n (drop (k div 4) ws))"
proof (induction n arbitrary: k)
  case (Suc n)
  then have "rd32 (words_bytes ws) k = Some (ws ! (k div 4))" by (intro rd32_words) auto
  moreover have "(k + 4) div 4 = Suc (k div 4)" "(k + 4) mod 4 = 0" using Suc.prems by auto
  then have "rd32s (words_bytes ws) (k + 4) n = Some (take n (drop (Suc (k div 4)) ws))"
    using Suc.IH [of "k + 4"] Suc.prems by simp
  ultimately show ?case using Suc.prems by (simp add: Cons_nth_drop_Suc [symmetric])
qed simp

lemma section_bytes_words:
  assumes "unat (s_off s) = 4 * k" "unat (s_len s) = 4 * n"
  shows "section_bytes (words_bytes ws) s = words_bytes (take n (drop k ws))"
  by (simp add: section_bytes_def assms words_bytes_drop words_bytes_take)

lemma rdbytes_words:
  assumes "k mod 4 = 0" "n mod 4 = 0" "k div 4 + n div 4 \<le> length ws"
  shows "rdbytes (words_bytes ws) k n = Some (words_bytes (take (n div 4) (drop (k div 4) ws)))"
proof -
  have "k = 4 * (k div 4)" "n = 4 * (n div 4)" using assms by auto
  then show ?thesis using assms(3) words_bytes_drop [of "k div 4" ws] words_bytes_take [of "n div 4" "drop (k div 4) ws"]
    by (simp add: rdbytes_def words_bytes_length)
qed

definition sample_sects :: "sect list" where
  "sample_sects = [\<lparr>s_type = 1, s_off = 80, s_len = 16\<rparr>, \<lparr>s_type = 2, s_off = 96, s_len = 276\<rparr>]"

definition sample_manifest :: plugin_manifest where
  "sample_manifest = \<lparr>m_magic = str ''PMAN'', m_struct_size = 244, m_abi_version = 2, m_target_id = 0x1201,
    m_link_addr = 0x20000000, m_capability = 0, m_image_off = 244, m_file_size = 32, m_mem_size = 32,
    m_segs = [0, 32, 32, 0, 32, 0, 32, 0], m_slot = [1, 3, 5, 0, 0, 0, 0],
    m_stack_own = [8, 8, 8, 0, 0, 0, 0], m_stack_cross = [0, 0, 0, 0, 0, 0, 0], m_stack_crossing = 0,
    m_stack_sink = 0, m_stack_accounting = 2, m_name = replicate 32 0, m_build_id = replicate 32 0,
    m_reserved = [0, 0, 0, 0]\<rparr>"

lemma sample_lengths: "length sample_section = 69" "length sample_words = 93"
  by (simp_all add: sample_words_def sample_section_def)

lemma sample_header:
  "header_ok (words_bytes sample_words) 2 (crc32_update 0 (words_bytes sample_section))"
proof -
  have "take 4 (words_bytes sample_words) = str ''NNC1''" "take 4 (drop 4 (words_bytes sample_words)) = str ''PLGC''"
    using words_bytes_take [of 1 sample_words] words_bytes_drop [of 1 sample_words] words_bytes_take [of 1 "drop 1 sample_words"]
    by (simp_all add: sample_words_def words_bytes_def put32_def str_def)
  then show ?thesis
    by (simp add: header_ok_def words_bytes_length sample_lengths rd32_words PLUGIN_ABI_VERSION_def)
      (simp add: sample_words_def)
qed

lemma sample_table: "sections_ok (words_bytes sample_words) 2 sample_sects"
proof -
  have "entry_ok (words_bytes sample_words) 372 2 j (sample_sects ! j)" if "j = 0 \<or> j = 1" for j
    using that by (auto simp: entry_ok_def rd32_words sample_lengths sample_sects_def)
      (simp_all add: sample_words_def)
  then show ?thesis
    by (simp add: sections_ok_def words_bytes_length sample_lengths numeral_2_eq_2 less_Suc_eq)
      (simp add: sample_sects_def apart_def)
qed

lemma sample_split: "sample_words = take 24 sample_words @ sample_section"
  by (simp add: sample_words_def)

lemma sample_drop: "24 \<le> k \<Longrightarrow> drop k sample_words = drop (k - 24) sample_section"
  by (subst sample_split) (simp add: sample_lengths)

lemma sample_nth: "24 \<le> k \<Longrightarrow> sample_words ! k = sample_section ! (k - 24)"
  by (subst sample_split) (simp add: sample_lengths nth_append)

lemma less_7: "(i :: nat) < 7 \<longleftrightarrow> i \<in> {0, 1, 2, 3, 4, 5, 6}"
  by auto

lemma sample_slices:
  "words_bytes (take 1 sample_section) = str ''PMAN''"
  "words_bytes (take 8 (drop 41 sample_section)) = replicate 32 0"
  "words_bytes (take 8 (drop 49 sample_section)) = replicate 32 0"
  "take 8 (drop 9 sample_section) = [0, 32, 32, 0, 32, 0, 32, 0]"
  "take 7 (drop 17 sample_section) = [1, 3, 5, 0, 0, 0, 0]"
  "take 7 (drop 24 sample_section) = [8, 8, 8, 0, 0, 0, 0]"
  "take 7 (drop 31 sample_section) = [0, 0, 0, 0, 0, 0, 0]"
  "take 4 (drop 57 sample_section) = [0, 0, 0, 0]"
  by code_simp+

lemma sample_manifest_read: "read_manifest (words_bytes sample_words) 96 = Some sample_manifest"
  by (simp add: read_manifest_def rd32_words rd32s_words rdbytes_words sample_lengths sample_drop sample_nth
      sample_slices [simplified] sample_manifest_def)
    (simp add: sample_section_def)

lemma sample_manifest_ok: "manifest_ok sample_policy sample_manifest 276"
proof -
  have "slot_ok sample_policy sample_manifest i" if "i < 7" for i
    using that unfolding less_7
    by (auto simp: slot_ok_def has_cap_def slot_cap_def plugin_slots slot_mandatory_def
      stack_need_def sample_manifest_def sample_policy_def)
  then show ?thesis
    by (simp add: manifest_ok_def)
     (simp add: sample_policy_def sample_manifest_def PLUGIN_ABI_VERSION_def PLUGIN_CAP_KNOWN_MASK_def PLUGIN_TARGET_RESERVED_MASK_def apart_def upt_rec)
qed

lemma sample_accepted:
  "\<exists>v. container_ok sample_policy (words_bytes sample_words) v \<and> v_has_plugin v"
proof -
  let ?p = "words_bytes sample_words" and ?s = "\<lparr>s_type = 2, s_off = 96, s_len = 276\<rparr>"
    and ?d = "crc32_update 0 (words_bytes sample_section)"
  have "section_bytes ?p ?s = words_bytes sample_section"
    using section_bytes_words [of ?s 24 69 sample_words] by (simp add: sample_drop sample_lengths)
  then have "plugin_ok sample_policy ?p ?s ?d base
      ((manifest_view sample_policy sample_manifest 96 base)\<lparr>v_digest := ?d, v_has_plugin := True\<rparr>)" for base
    using sample_manifest_read sample_manifest_ok by (auto simp: plugin_ok_def)
  then show ?thesis
    using sample_header sample_table
    by (fastforce simp: container_ok_def sample_sects_def)
qed

section \<open>The theorems\<close>

text \<open>C1. For every byte string and every board policy the parse returns, without reading outside the
  bytes; it answers \<open>PLUGIN_OK\<close> exactly for the containers of the specification (header, table of
  disjoint sections inside the container, aligned model, and a manifest whose image, segments, slots,
  capabilities and stack requirements all fit the policy, with the digest of its section), with
  exactly the view the specification determines; and whatever it refuses leaves a zeroed view.\<close>

theorem plugin_parse_accepts:
  "\<exists>rc v. plugin_parse pol (Some p) out = Some (rc, v) \<and>
    (\<forall>w. container_ok pol p w = (rc = PLUGIN_OK \<and> w = v)) \<and> (rc = PLUGIN_OK \<or> v = zero_view)"
  using plugin_parse_spec [of pol p out] by blast

text \<open>C2. What an accepted view promises the loader: the model lies inside the container on a 16-byte
  boundary; the image lies inside it apart from the model, fits the reserved memory, is aligned and
  was linked for it; code (not empty) and data lie in the file part of the image, bss and scratch in
  its memory part, and no two of the four segments overlap. A slot that is present has its capability,
  is a Thumb address inside the code, and its stack requirement is exactly its own frames or, where it
  crosses into the firmware, the larger of those and the crossing path plus the cost of the firmware
  side, taken over the natural numbers (so it has not wrapped), and within the board's limit, which is
  not zero. An absent slot is not mandatory, has no capability and asks for no stack; the two
  parameter slots come together; the capabilities are ones the board supports; both names are
  terminated.\<close>

theorem plugin_parse_view_safe:
  assumes "plugin_parse pol (Some p) out = Some (PLUGIN_OK, v)"
  shows "unat (v_model_off v) + unat (v_model_len v) \<le> length p \<and> v_model_off v AND 15 = 0 \<and>
    (v_has_plugin v \<longrightarrow> view_safe pol (length p) v)"
  using plugin_parse_safe_lemma [OF assms] .

theorem plugin_parse_view_safe_witness:
  "\<exists>v. plugin_parse sample_policy (Some (words_bytes sample_words)) zero_view = Some (PLUGIN_OK, v) \<and>
    v_has_plugin v \<and> unat (v_model_off v) + unat (v_model_len v) \<le> 372 \<and> view_safe sample_policy 372 v"
proof -
  obtain v where "container_ok sample_policy (words_bytes sample_words) v" and p: "v_has_plugin v"
    using sample_accepted by blast
  then have ok: "plugin_parse sample_policy (Some (words_bytes sample_words)) zero_view = Some (PLUGIN_OK, v)"
    using plugin_parse_spec [of sample_policy "words_bytes sample_words" zero_view] by auto
  show ?thesis
    using plugin_parse_view_safe [OF ok] ok p by (intro exI [of _ v]) (simp add: words_bytes_length sample_lengths)
qed

end
