(* ===== verification/NnStream.thy ===== *)
theory NnStream
  imports Prelude
begin

text \<open>
  The live-inference lifecycle (\<open>svc/nn/nn_stream_life.c\<close>): one record per board that says who owns
  a start or a stop, and under which generation.  Every call is one step (it runs under the
  caller's critical section); what several consoles do to it is any sequence of calls, by callers
  the machine does not trust to call in order.

  The fields are the bytes and words of the struct.  \<open>None\<close> is the \<open>NULL\<close> pointer; an argument of
  an enum type is an \<open>int\<close>, because a caller may pass a value that is no enumerator.
\<close>

section \<open>The record and its enums\<close>

definition NN_STREAM_GEN_ANY :: u32 where "NN_STREAM_GEN_ANY = 0"

definition NN_STREAM_KIND_STREAM :: int where "NN_STREAM_KIND_STREAM = 0"
definition NN_STREAM_KIND_ONESHOT :: int where "NN_STREAM_KIND_ONESHOT = 1"

definition NN_STREAM_PHASE_IDLE :: u8 where "NN_STREAM_PHASE_IDLE = 0"
definition NN_STREAM_PHASE_STARTING :: u8 where "NN_STREAM_PHASE_STARTING = 1"
definition NN_STREAM_PHASE_RUNNING :: u8 where "NN_STREAM_PHASE_RUNNING = 2"
definition NN_STREAM_PHASE_STOPPING :: u8 where "NN_STREAM_PHASE_STOPPING = 3"
definition NN_STREAM_PHASE_LOST :: u8 where "NN_STREAM_PHASE_LOST = 4"

lemmas stream_enums =
  NN_STREAM_GEN_ANY_def NN_STREAM_KIND_STREAM_def NN_STREAM_KIND_ONESHOT_def NN_STREAM_PHASE_IDLE_def
  NN_STREAM_PHASE_STARTING_def NN_STREAM_PHASE_RUNNING_def NN_STREAM_PHASE_STOPPING_def NN_STREAM_PHASE_LOST_def

record nn_stream_life =
  nl_phase :: u8
  nl_prev :: u8
  nl_kind :: u8
  nl_orphan :: u8
  nl_gen :: u32
  nl_sgen :: u32
  nl_next :: u32
  nl_seq :: u32

datatype nn_stream_gen_verdict = NN_STREAM_GEN_GO | NN_STREAM_GEN_IDLE | NN_STREAM_GEN_WRONG

definition nn_stream_gen_check :: "u32 \<Rightarrow> u32 \<Rightarrow> nn_stream_gen_verdict" where
  "nn_stream_gen_check current requested =
    (if current = NN_STREAM_GEN_ANY then NN_STREAM_GEN_IDLE
     else if requested \<noteq> NN_STREAM_GEN_ANY \<and> requested \<noteq> current then NN_STREAM_GEN_WRONG
     else NN_STREAM_GEN_GO)"

datatype nn_stream_stop_claim =
    NN_STREAM_STOP_GO | NN_STREAM_STOP_IDLE | NN_STREAM_STOP_WRONG_GEN | NN_STREAM_STOP_BUSY
  | NN_STREAM_STOP_DEAD | NN_STREAM_STOP_ONESHOT

datatype nn_stream_start_claim =
    NN_STREAM_START_GO | NN_STREAM_START_RUNNING | NN_STREAM_START_BUSY | NN_STREAM_START_DEAD
  | NN_STREAM_START_ONESHOT

section \<open>The transitions\<close>

text \<open>\<open>l->kind == (uint8_t)k\<close>.\<close>

definition kind_is :: "int \<Rightarrow> nn_stream_life \<Rightarrow> bool" where
  "kind_is k l \<longleftrightarrow> nl_kind l = word_of_int k"

definition nn_stream_life_begin ::
    "nn_stream_life option \<Rightarrow> int \<Rightarrow> nn_stream_start_claim \<times> nn_stream_life option" where
  "nn_stream_life_begin lp kind =
    (case lp of None \<Rightarrow> (NN_STREAM_START_BUSY, lp)
     | Some l \<Rightarrow>
        if kind \<noteq> NN_STREAM_KIND_STREAM \<and> kind \<noteq> NN_STREAM_KIND_ONESHOT then (NN_STREAM_START_BUSY, lp)
        else if nl_phase l = NN_STREAM_PHASE_IDLE then
          (NN_STREAM_START_GO,
           Some (l\<lparr>nl_prev := nl_phase l, nl_phase := NN_STREAM_PHASE_STARTING, nl_kind := word_of_int kind,
                   nl_orphan := 0, nl_seq := nl_seq l + 1\<rparr>))
        else if nl_phase l = NN_STREAM_PHASE_RUNNING then
          (if kind_is NN_STREAM_KIND_ONESHOT l then NN_STREAM_START_ONESHOT else NN_STREAM_START_RUNNING, lp)
        else if nl_phase l = NN_STREAM_PHASE_LOST then (NN_STREAM_START_DEAD, lp)
        else if nl_phase l = NN_STREAM_PHASE_STARTING \<or> nl_phase l = NN_STREAM_PHASE_STOPPING then
          (if kind_is NN_STREAM_KIND_ONESHOT l then NN_STREAM_START_ONESHOT else NN_STREAM_START_BUSY, lp)
        else (NN_STREAM_START_BUSY, lp))"

definition nn_stream_life_rearm :: "nn_stream_life option \<Rightarrow> bool \<times> nn_stream_life option" where
  "nn_stream_life_rearm lp =
    (case lp of None \<Rightarrow> (False, lp)
     | Some l \<Rightarrow>
        if nl_phase l \<noteq> NN_STREAM_PHASE_RUNNING then (False, lp)
        else if \<not> kind_is NN_STREAM_KIND_STREAM l then (False, lp)
        else (True, Some (l\<lparr>nl_prev := nl_phase l, nl_phase := NN_STREAM_PHASE_STARTING, nl_seq := nl_seq l + 1\<rparr>)))"

definition nn_stream_life_commit :: "nn_stream_life option \<Rightarrow> u32 \<times> nn_stream_life option" where
  "nn_stream_life_commit lp =
    (case lp of None \<Rightarrow> (NN_STREAM_GEN_ANY, lp)
     | Some l \<Rightarrow>
        if nl_phase l \<noteq> NN_STREAM_PHASE_STARTING then (NN_STREAM_GEN_ANY, lp)
        else
          (let l = (if nl_next l = NN_STREAM_GEN_ANY then l\<lparr>nl_next := 1\<rparr> else l);
               l = l\<lparr>nl_gen := nl_next l, nl_next := nl_next l + 1\<rparr>;
               l = (if nl_next l = NN_STREAM_GEN_ANY then l\<lparr>nl_next := 1\<rparr> else l);
               l = (if kind_is NN_STREAM_KIND_STREAM l then l\<lparr>nl_sgen := nl_gen l\<rparr> else l);
               l = l\<lparr>nl_phase := NN_STREAM_PHASE_RUNNING, nl_seq := nl_seq l + 1\<rparr> in
           (nl_gen l, Some l)))"

definition nn_stream_life_abort :: "nn_stream_life option \<Rightarrow> bool \<times> nn_stream_life option" where
  "nn_stream_life_abort lp =
    (case lp of None \<Rightarrow> (False, lp)
     | Some l \<Rightarrow>
        if nl_phase l \<noteq> NN_STREAM_PHASE_STARTING then (False, lp)
        else (True, Some (l\<lparr>nl_phase := nl_prev l, nl_seq := nl_seq l + 1\<rparr>)))"

definition nn_stream_life_claim_stop ::
    "nn_stream_life option \<Rightarrow> u32 \<Rightarrow> nn_stream_stop_claim \<times> nn_stream_life option" where
  "nn_stream_life_claim_stop lp gen =
    (case lp of None \<Rightarrow> (NN_STREAM_STOP_IDLE, lp)
     | Some l \<Rightarrow>
        if nl_phase l = NN_STREAM_PHASE_IDLE then (NN_STREAM_STOP_IDLE, lp)
        else if nl_phase l = NN_STREAM_PHASE_LOST then (NN_STREAM_STOP_DEAD, lp)
        else if nl_phase l = NN_STREAM_PHASE_RUNNING then
          (if kind_is NN_STREAM_KIND_ONESHOT l \<and> gen = NN_STREAM_GEN_ANY \<and> nl_orphan l = 0
           then (NN_STREAM_STOP_ONESHOT, lp)
           else (case nn_stream_gen_check (nl_gen l) gen of
              NN_STREAM_GEN_GO \<Rightarrow>
                (NN_STREAM_STOP_GO, Some (l\<lparr>nl_phase := NN_STREAM_PHASE_STOPPING, nl_seq := nl_seq l + 1\<rparr>))
            | NN_STREAM_GEN_WRONG \<Rightarrow> (NN_STREAM_STOP_WRONG_GEN, lp)
            | NN_STREAM_GEN_IDLE \<Rightarrow> (NN_STREAM_STOP_BUSY, lp)))
        else if nl_phase l = NN_STREAM_PHASE_STARTING \<or> nl_phase l = NN_STREAM_PHASE_STOPPING then
          (if kind_is NN_STREAM_KIND_ONESHOT l \<and> nl_orphan l = 0 then NN_STREAM_STOP_ONESHOT
           else NN_STREAM_STOP_BUSY, lp)
        else (NN_STREAM_STOP_BUSY, lp))"

definition nn_stream_life_finish :: "nn_stream_life option \<Rightarrow> bool \<times> nn_stream_life option" where
  "nn_stream_life_finish lp =
    (case lp of None \<Rightarrow> (False, lp)
     | Some l \<Rightarrow>
        if nl_phase l \<noteq> NN_STREAM_PHASE_STOPPING then (False, lp)
        else (True, Some (l\<lparr>nl_phase := NN_STREAM_PHASE_IDLE, nl_seq := nl_seq l + 1\<rparr>)))"

definition nn_stream_life_retry :: "nn_stream_life option \<Rightarrow> bool \<times> nn_stream_life option" where
  "nn_stream_life_retry lp =
    (case lp of None \<Rightarrow> (False, lp)
     | Some l \<Rightarrow>
        if nl_phase l \<noteq> NN_STREAM_PHASE_STOPPING then (False, lp)
        else
          (let l = l\<lparr>nl_phase := NN_STREAM_PHASE_RUNNING\<rparr>;
               l = (if kind_is NN_STREAM_KIND_ONESHOT l then l\<lparr>nl_orphan := 1\<rparr> else l) in
           (True, Some (l\<lparr>nl_seq := nl_seq l + 1\<rparr>))))"

definition nn_stream_life_poison :: "nn_stream_life option \<Rightarrow> bool \<times> nn_stream_life option" where
  "nn_stream_life_poison lp =
    (case lp of None \<Rightarrow> (False, lp)
     | Some l \<Rightarrow>
        if nl_phase l \<noteq> NN_STREAM_PHASE_STOPPING then (False, lp)
        else (True, Some (l\<lparr>nl_phase := NN_STREAM_PHASE_LOST, nl_seq := nl_seq l + 1\<rparr>)))"

text \<open>The snapshot: generation, phase, sequence number and kind of what was last begun.\<close>

definition nn_stream_life_snapshot :: "nn_stream_life option \<Rightarrow> (u32 \<times> u8 \<times> u32 \<times> u8) option" where
  "nn_stream_life_snapshot lp = map_option (\<lambda>l. (nl_sgen l, nl_phase l, nl_seq l, nl_kind l)) lp"

text \<open>The board's table of stop codes, and what an unlisted code means.\<close>

definition NN_STREAM_CLAIM_TERMINAL :: u8 where "NN_STREAM_CLAIM_TERMINAL = 3"

record nn_stream_disp =
  nd_rc :: int
  nd_claim :: u8

fun disp_scan :: "int \<Rightarrow> nn_stream_disp list \<Rightarrow> u8" where
  "disp_scan rc [] = NN_STREAM_CLAIM_TERMINAL"
| "disp_scan rc (d # ds) = (if nd_rc d = rc then nd_claim d else disp_scan rc ds)"

definition nn_stream_disp_of :: "int \<Rightarrow> nn_stream_disp list option \<Rightarrow> u8" where
  "nn_stream_disp_of rc tab = (case tab of None \<Rightarrow> NN_STREAM_CLAIM_TERMINAL | Some ds \<Rightarrow> disp_scan rc ds)"

section \<open>Runs\<close>

datatype life_call =
    C_begin int | C_rearm | C_commit | C_abort | C_stop u32 | C_finish | C_retry | C_poison

datatype life_reply =
    R_start nn_stream_start_claim | R_stop nn_stream_stop_claim | R_gen u32 | R_bool bool

fun call_life :: "life_call \<Rightarrow> nn_stream_life option \<Rightarrow> life_reply \<times> nn_stream_life option" where
  "call_life (C_begin k) l = apfst R_start (nn_stream_life_begin l k)"
| "call_life C_rearm l = apfst R_bool (nn_stream_life_rearm l)"
| "call_life C_commit l = apfst R_gen (nn_stream_life_commit l)"
| "call_life C_abort l = apfst R_bool (nn_stream_life_abort l)"
| "call_life (C_stop g) l = apfst R_stop (nn_stream_life_claim_stop l g)"
| "call_life C_finish l = apfst R_bool (nn_stream_life_finish l)"
| "call_life C_retry l = apfst R_bool (nn_stream_life_retry l)"
| "call_life C_poison l = apfst R_bool (nn_stream_life_poison l)"

type_synonym life_event = "life_call \<times> life_reply"

fun run_life :: "life_call list \<Rightarrow> nn_stream_life option \<Rightarrow> life_event list \<times> nn_stream_life option" where
  "run_life [] l = ([], l)"
| "run_life (c # cs) l =
    (let (r, l) = call_life c l; (es, l) = run_life cs l in ((c, r) # es, l))"

text \<open>The board's record is zero-initialised static storage.\<close>

definition zero_life :: nn_stream_life where
  "zero_life = \<lparr>nl_phase = 0, nl_prev = 0, nl_kind = 0, nl_orphan = 0, nl_gen = 0, nl_sgen = 0, nl_next = 0, nl_seq = 0\<rparr>"

end
