(* ===== verification/NnLifecycle.thy ===== *)
theory NnLifecycle
  imports NnStream
begin

text \<open>
  What the live-inference lifecycle promises its callers: an abstract machine of stages, the proof
  that every call answers and moves exactly as that machine, and what follows for any sequence of
  calls.
\<close>

section \<open>The abstract machine\<close>

text \<open>The flag of \<open>Starting\<close>, and the first of the two others, says that a one-shot is up; the second,
  that its own teardown was left to the operator.\<close>

datatype stage = Idle | Starting bool | Rearming | Running bool bool | Stopping bool bool | Lost

record life =
  a_gen :: u32
  a_sgen :: u32
  a_stage :: stage

definition next_gen :: "u32 \<Rightarrow> u32" where
  "next_gen g = (if g + 1 = 0 then 1 else g + 1)"

text \<open>The transitions, with the call that makes each and its answer.\<close>

inductive wins :: "life \<Rightarrow> life_event \<Rightarrow> life \<Rightarrow> bool" where
  begins: "a_stage a = Idle \<Longrightarrow> k = 0 \<or> k = 1 \<Longrightarrow>
    wins a (C_begin k, R_start NN_STREAM_START_GO) (a\<lparr>a_stage := Starting (k = 1)\<rparr>)"
| rearms: "a_stage a = Running False b \<Longrightarrow> wins a (C_rearm, R_bool True) (a\<lparr>a_stage := Rearming\<rparr>)"
| comes_up: "a_stage a = Starting s \<Longrightarrow> g = next_gen (a_gen a) \<Longrightarrow>
    wins a (C_commit, R_gen g) \<lparr>a_gen = g, a_sgen = (if s then a_sgen a else g), a_stage = Running s False\<rparr>"
| comes_back: "a_stage a = Rearming \<Longrightarrow> g = next_gen (a_gen a) \<Longrightarrow>
    wins a (C_commit, R_gen g) \<lparr>a_gen = g, a_sgen = g, a_stage = Running False False\<rparr>"
| aborts: "a_stage a = Starting s \<Longrightarrow> wins a (C_abort, R_bool True) (a\<lparr>a_stage := Idle\<rparr>)"
| aborts_rearm: "a_stage a = Rearming \<Longrightarrow> wins a (C_abort, R_bool True) (a\<lparr>a_stage := Running False False\<rparr>)"
| stops: "a_stage a = Running s b \<Longrightarrow> h = a_gen a \<or> h = 0 \<and> (s \<longrightarrow> b) \<Longrightarrow>
    wins a (C_stop h, R_stop NN_STREAM_STOP_GO) (a\<lparr>a_stage := Stopping s b\<rparr>)"
| finishes: "a_stage a = Stopping s b \<Longrightarrow> wins a (C_finish, R_bool True) (a\<lparr>a_stage := Idle\<rparr>)"
| retries: "a_stage a = Stopping s b \<Longrightarrow> wins a (C_retry, R_bool True) (a\<lparr>a_stage := Running s s\<rparr>)"
| poisons: "a_stage a = Stopping s b \<Longrightarrow> wins a (C_poison, R_bool True) (a\<lparr>a_stage := Lost\<rparr>)"

inductive_cases winsE: "wins a (c, r) a'"
inductive_simps wins_simps:
  "wins a (C_begin k, r) a'" "wins a (C_rearm, r) a'" "wins a (C_commit, r) a'" "wins a (C_abort, r) a'"
  "wins a (C_stop h, r) a'" "wins a (C_finish, r) a'" "wins a (C_retry, r) a'" "wins a (C_poison, r) a'"

text \<open>What a call that makes no transition is answered.\<close>

fun start_refusal :: "stage \<Rightarrow> nn_stream_start_claim" where
  "start_refusal (Running s b) = (if s then NN_STREAM_START_ONESHOT else NN_STREAM_START_RUNNING)"
| "start_refusal Lost = NN_STREAM_START_DEAD"
| "start_refusal (Starting s) = (if s then NN_STREAM_START_ONESHOT else NN_STREAM_START_BUSY)"
| "start_refusal (Stopping s b) = (if s then NN_STREAM_START_ONESHOT else NN_STREAM_START_BUSY)"
| "start_refusal _ = NN_STREAM_START_BUSY"

fun stop_refusal :: "stage \<Rightarrow> u32 \<Rightarrow> nn_stream_stop_claim" where
  "stop_refusal Idle h = NN_STREAM_STOP_IDLE"
| "stop_refusal Lost h = NN_STREAM_STOP_DEAD"
| "stop_refusal (Running s b) h = (if h = 0 then NN_STREAM_STOP_ONESHOT else NN_STREAM_STOP_WRONG_GEN)"
| "stop_refusal (Starting s) h = (if s then NN_STREAM_STOP_ONESHOT else NN_STREAM_STOP_BUSY)"
| "stop_refusal (Stopping s b) h = (if s \<and> \<not> b then NN_STREAM_STOP_ONESHOT else NN_STREAM_STOP_BUSY)"
| "stop_refusal Rearming h = NN_STREAM_STOP_BUSY"

fun refusal :: "stage \<Rightarrow> life_call \<Rightarrow> life_reply" where
  "refusal s (C_begin k) = R_start (if k = 0 \<or> k = 1 then start_refusal s else NN_STREAM_START_BUSY)"
| "refusal s (C_stop h) = R_stop (stop_refusal s h)"
| "refusal s C_commit = R_gen 0"
| "refusal s _ = R_bool False"

section \<open>Every call is a step of the machine\<close>

fun phase_shows :: "nn_stream_life \<Rightarrow> stage \<Rightarrow> bool" where
  "phase_shows l Idle \<longleftrightarrow> nl_phase l = 0"
| "phase_shows l (Starting s) \<longleftrightarrow> nl_phase l = 1 \<and> nl_prev l = 0 \<and> nl_kind l = (if s then 1 else 0) \<and> nl_orphan l = 0"
| "phase_shows l Rearming \<longleftrightarrow> nl_phase l = 1 \<and> nl_prev l = 2 \<and> nl_kind l = 0 \<and> nl_orphan l = 0 \<and> nl_gen l \<noteq> 0"
| "phase_shows l (Running s b) \<longleftrightarrow>
    nl_phase l = 2 \<and> nl_kind l = (if s then 1 else 0) \<and> nl_orphan l = (if b then 1 else 0) \<and> (b \<longrightarrow> s) \<and> nl_gen l \<noteq> 0"
| "phase_shows l (Stopping s b) \<longleftrightarrow>
    nl_phase l = 3 \<and> nl_kind l = (if s then 1 else 0) \<and> nl_orphan l = (if b then 1 else 0) \<and> (b \<longrightarrow> s) \<and> nl_gen l \<noteq> 0"
| "phase_shows l Lost \<longleftrightarrow> nl_phase l = 4"

definition life_shows :: "nn_stream_life \<Rightarrow> life \<Rightarrow> bool" where
  "life_shows l a \<longleftrightarrow> nl_gen l = a_gen a \<and> nl_sgen l = a_sgen a \<and>
    nl_next l = (if a_gen a = 0 then 0 else next_gen (a_gen a)) \<and> phase_shows l (a_stage a)"

definition life_start :: life where
  "life_start = \<lparr>a_gen = 0, a_sgen = 0, a_stage = Idle\<rparr>"

lemma start_shows: "life_shows zero_life life_start"
  by (simp add: life_shows_def zero_life_def life_start_def)

lemmas life_defs =
  nn_stream_life_begin_def nn_stream_life_rearm_def nn_stream_life_commit_def nn_stream_life_abort_def
  nn_stream_life_claim_stop_def nn_stream_life_finish_def nn_stream_life_retry_def nn_stream_life_poison_def
  nn_stream_gen_check_def kind_is_def stream_enums

lemma next_gen_0: "next_gen g \<noteq> 0" "next_gen 0 = 1"
  by (simp_all add: next_gen_def)

text \<open>One transition, or the machine's refusal with the record as it was.\<close>

definition steps_as :: "nn_stream_life \<Rightarrow> life \<Rightarrow> life_call \<Rightarrow> life_reply \<times> nn_stream_life option \<Rightarrow> bool" where
  "steps_as l a c res \<longleftrightarrow>
    (\<exists>l' a'. snd res = Some l' \<and> wins a (c, fst res) a' \<and> life_shows l' a' \<and> nl_seq l' = nl_seq l + 1) \<or>
    (res = (refusal (a_stage a) c, Some l) \<and> (\<forall>r a'. \<not> wins a (c, r) a'))"

lemma call_steps:
  assumes "life_shows l a"
  shows "steps_as l a c (call_life c (Some l))"
proof (cases c)
  case (C_begin k)
  show ?thesis using assms unfolding C_begin
    by (cases "a_stage a") (auto simp: steps_as_def life_shows_def life_defs wins_simps)
next
  case C_rearm
  show ?thesis using assms unfolding C_rearm
    by (cases "a_stage a") (auto simp: steps_as_def life_shows_def life_defs wins_simps)
next
  case C_commit
  show ?thesis using assms unfolding C_commit
    by (cases "a_stage a") (auto simp: steps_as_def life_shows_def life_defs wins_simps Let_def next_gen_def)
next
  case C_abort
  show ?thesis using assms unfolding C_abort
    by (cases "a_stage a") (auto simp: steps_as_def life_shows_def life_defs wins_simps)
next
  case (C_stop h)
  show ?thesis using assms unfolding C_stop
    by (cases "a_stage a") (auto simp: steps_as_def life_shows_def life_defs wins_simps)
next
  case C_finish
  show ?thesis using assms unfolding C_finish
    by (cases "a_stage a") (auto simp: steps_as_def life_shows_def life_defs wins_simps)
next
  case C_retry
  show ?thesis using assms unfolding C_retry
    by (cases "a_stage a") (auto simp: steps_as_def life_shows_def life_defs wins_simps Let_def)
next
  case C_poison
  show ?thesis using assms unfolding C_poison
    by (cases "a_stage a") (auto simp: steps_as_def life_shows_def life_defs wins_simps)
qed

section \<open>Runs of the machine\<close>

fun made :: "life_event \<Rightarrow> bool" where
  "made (c, R_start s) \<longleftrightarrow> s = NN_STREAM_START_GO"
| "made (c, R_stop s) \<longleftrightarrow> s = NN_STREAM_STOP_GO"
| "made (c, R_gen g) \<longleftrightarrow> g \<noteq> 0"
| "made (c, R_bool b) \<longleftrightarrow> b"

lemma wins_made: "wins a e a' \<Longrightarrow> made e"
  by (induction rule: wins.induct) (simp_all add: next_gen_0)

lemma refusal_not_made: "\<not> made (c, refusal s c)"
  by (cases c; cases s) auto

inductive lives :: "life \<Rightarrow> life_event list \<Rightarrow> life \<Rightarrow> bool" where
  lives_nil: "lives a [] a"
| lives_win: "wins a e m \<Longrightarrow> lives m es b \<Longrightarrow> lives a (e # es) b"
| lives_refuse: "\<not> made e \<Longrightarrow> lives a es b \<Longrightarrow> lives a (e # es) b"

inductive_simps lives_simps [simp]: "lives a [] b" "lives a (e # es) b"

lemma lives_append: "lives a (xs @ ys) b \<longleftrightarrow> (\<exists>m. lives a xs m \<and> lives m ys b)"
  by (induction xs arbitrary: a) auto

lemma lives_made: "lives a (e # es) b \<Longrightarrow> made e \<Longrightarrow> \<exists>m. wins a e m \<and> lives m es b"
  by auto

lemma lives_snocE:
  assumes "lives a (es @ [e]) b"
  obtains m where "lives a es m" "wins m e b" | "lives a es b" "\<not> made e"
  using assms by (auto simp: lives_append)

lemma run_lives:
  assumes "life_shows l a" "run_life cs (Some l) = (es, lp)"
  shows "\<exists>l' a'. lp = Some l' \<and> life_shows l' a' \<and> lives a es a' \<and> map fst es = cs \<and>
    nl_seq l' = nl_seq l + of_nat (length (filter made es))"
  using assms
proof (induction cs arbitrary: l a es)
  case Nil
  then show ?case by (auto intro: lives_nil)
next
  case (Cons c cs)
  obtain r lp1 where c: "call_life c (Some l) = (r, lp1)" by fastforce
  obtain es' where es: "run_life cs lp1 = (es', lp)" "es = (c, r) # es'"
    using Cons.prems(2) c by (auto split: prod.splits)
  from call_steps [OF Cons.prems(1), of c] consider
      l1 a1 where "lp1 = Some l1" "wins a (c, r) a1" "life_shows l1 a1" "nl_seq l1 = nl_seq l + 1"
    | "lp1 = Some l" "r = refusal (a_stage a) c"
    by (auto simp: steps_as_def c)
  then show ?case
  proof cases
    case 1
    from Cons.IH [OF 1(3)] es(1) 1(1) obtain l' a' where "lp = Some l'" "life_shows l' a'" "lives a1 es' a'"
      "map fst es' = cs" "nl_seq l' = nl_seq l1 + of_nat (length (filter made es'))" by blast
    then show ?thesis using 1 es(2) wins_made [OF 1(2)] by (auto intro: lives_win)
  next
    case 2
    from Cons.IH [OF Cons.prems(1)] es(1) 2(1) obtain l' a' where "lp = Some l'" "life_shows l' a'" "lives a es' a'"
      "map fst es' = cs" "nl_seq l' = nl_seq l + of_nat (length (filter made es'))" by blast
    then show ?thesis using 2 es(2) refusal_not_made by (auto intro: lives_refuse)
  qed
qed

section \<open>One owner at a time\<close>

text \<open>A claim takes the lifecycle for its caller; what settles it gives it back.\<close>

fun claims :: "life_event \<Rightarrow> bool" where
  "claims (C_begin k, r) \<longleftrightarrow> made (C_begin k, r)"
| "claims (C_rearm, r) \<longleftrightarrow> made (C_rearm, r)"
| "claims (C_stop h, r) \<longleftrightarrow> made (C_stop h, r)"
| "claims _ \<longleftrightarrow> False"

fun settles :: "life_call \<Rightarrow> life_event \<Rightarrow> bool" where
  "settles (C_stop h) (c, r) \<longleftrightarrow> made (c, r) \<and> (c = C_finish \<or> c = C_retry)"
| "settles _ (c, r) \<longleftrightarrow> made (c, r) \<and> (c = C_commit \<or> c = C_abort)"

text \<open>The stage between a claim and its settlement.\<close>

fun claimed :: "life_call \<Rightarrow> stage \<Rightarrow> bool" where
  "claimed (C_stop h) s \<longleftrightarrow> s = Lost \<or> (\<exists>o1 b. s = Stopping o1 b)"
| "claimed _ s \<longleftrightarrow> s = Rearming \<or> (\<exists>o1. s = Starting o1)"

lemma claims_made: "claims e \<Longrightarrow> made e"
  by (cases e rule: claims.cases) auto

lemma claim_claimed: "claims (c, r) \<Longrightarrow> wins a (c, r) a' \<Longrightarrow> claimed c (a_stage a')"
  by (cases c) (auto simp: wins_simps)

lemma claimed_no_claim: "claimed c (a_stage a) \<Longrightarrow> wins a e a' \<Longrightarrow> \<not> claims e"
  by (cases c; cases e; cases "fst e") (auto simp: wins_simps)

lemma claimed_step: "claimed c (a_stage a) \<Longrightarrow> wins a e a' \<Longrightarrow> \<not> settles c e \<Longrightarrow> claimed c (a_stage a')"
  by (cases c; cases e; cases "fst e") (auto simp: wins_simps next_gen_0)

lemma claimed_holds:
  "lives a es b \<Longrightarrow> claimed c (a_stage a) \<Longrightarrow> \<forall>e \<in> set es. \<not> settles c e \<Longrightarrow> claimed c (a_stage b)"
  by (induction rule: lives.induct) (auto dest: claimed_step)

lemma claims_alternate:
  assumes "lives a (xs @ (c, r) # ys @ e # zs) b" "claims (c, r)" "claims e"
  shows "\<exists>e' \<in> set ys. settles c e'"
proof (rule ccontr)
  assume no: "\<not> ?thesis"
  obtain m where "lives m ((c, r) # ys @ e # zs) b" using assms(1) unfolding lives_append [of _ xs] by blast
  then obtain m' where m': "wins m (c, r) m'" "lives m' (ys @ e # zs) b"
    using lives_made claims_made [OF assms(2)] by blast
  obtain n where n: "lives m' ys n" "lives n (e # zs) b" using m'(2) unfolding lives_append by blast
  have "claimed c (a_stage n)"
    using claimed_holds [OF n(1) claim_claimed [OF assms(2) m'(1)]] no by blast
  moreover obtain n' where "wins n e n'" using lives_made [OF n(2) claims_made [OF assms(3)]] by blast
  ultimately show False using claimed_no_claim assms(3) by blast
qed

text \<open>After an unconfirmed teardown nothing is admitted.\<close>

lemma lost_stays: "lives a es b \<Longrightarrow> a_stage a = Lost \<Longrightarrow> b = a \<and> (\<forall>e \<in> set es. \<not> made e)"
  by (induction rule: lives.induct) (auto elim: wins.cases)


section \<open>A stop finds its own stream\<close>

text \<open>The kind of the last start, and whether an event ends the stream that is up.\<close>

definition begun :: "life_event list \<Rightarrow> life_call option" where
  "begun es = (case filter (\<lambda>(c, r). r = R_start NN_STREAM_START_GO) (rev es) of
     [] \<Rightarrow> None | e # _ \<Rightarrow> Some (fst e))"

lemma begun_snoc: "begun (es @ [(c, r)]) = (if r = R_start NN_STREAM_START_GO then Some c else begun es)"
  by (simp add: begun_def)

fun replaces :: "life_event \<Rightarrow> bool" where
  "replaces (C_commit, R_gen g) \<longleftrightarrow> g \<noteq> 0"
| "replaces (C_finish, R_bool b) \<longleftrightarrow> b"
| "replaces _ \<longleftrightarrow> False"

text \<open>A stream of generation \<open>g\<close> is up: its commit is the last one and nothing finished it since.\<close>

definition up_since :: "life_event list \<Rightarrow> u32 \<Rightarrow> life_event list \<Rightarrow> life_event list \<Rightarrow> bool" where
  "up_since es g xs ys \<longleftrightarrow> es = xs @ (C_commit, R_gen g) # ys \<and> g \<noteq> 0 \<and> (\<forall>e \<in> set ys. \<not> replaces e)"

fun up_flags :: "stage \<Rightarrow> (bool \<times> bool) option" where
  "up_flags (Running s b) = Some (s, b)"
| "up_flags (Stopping s b) = Some (s, b)"
| "up_flags Rearming = Some (False, False)"
| "up_flags _ = None"

definition up_inv :: "life_event list \<Rightarrow> life \<Rightarrow> bool" where
  "up_inv es a \<longleftrightarrow>
    (\<forall>s b. up_flags (a_stage a) = Some (s, b) \<longrightarrow> begun es = Some (C_begin (if s then 1 else 0)) \<and>
      (\<exists>xs ys. up_since es (a_gen a) xs ys \<and> (b \<longrightarrow> (C_retry, R_bool True) \<in> set ys))) \<and>
    (\<forall>s. a_stage a = Starting s \<longrightarrow> begun es = Some (C_begin (if s then 1 else 0)))"

lemma up_since_snoc:
  "up_since es g xs ys \<Longrightarrow> \<not> replaces e \<Longrightarrow> up_since (es @ [e]) g xs (ys @ [e])"
  by (auto simp: up_since_def)

lemma up_inv_up:
  assumes "up_inv es a" "up_flags (a_stage a) = Some (s, b)"
  obtains xs ys where "begun es = Some (C_begin (if s then 1 else 0))" "up_since es (a_gen a) xs ys"
    "b \<longrightarrow> (C_retry, R_bool True) \<in> set ys"
  using assms unfolding up_inv_def by blast

lemma up_inv_keep:
  assumes inv: "up_inv es a" and e: "\<not> replaces e" "snd e \<noteq> R_start NN_STREAM_START_GO"
    and a': "a_gen a' = a_gen a"
    "\<And>s b. up_flags (a_stage a') = Some (s, b) \<Longrightarrow>
      \<exists>b'. up_flags (a_stage a) = Some (s, b') \<and> (b \<longrightarrow> b' \<or> e = (C_retry, R_bool True))"
    "\<And>s. a_stage a' = Starting s \<Longrightarrow> a_stage a = Starting s"
  shows "up_inv (es @ [e]) a'"
proof -
  have bg: "begun (es @ [e]) = begun es" using e(2) begun_snoc [of es "fst e" "snd e"] by simp
  have "begun (es @ [e]) = Some (C_begin (if s then 1 else 0)) \<and>
      (\<exists>xs ys. up_since (es @ [e]) (a_gen a') xs ys \<and> (b \<longrightarrow> (C_retry, R_bool True) \<in> set ys))"
    if up: "up_flags (a_stage a') = Some (s, b)" for s b
  proof -
    obtain b' where b': "up_flags (a_stage a) = Some (s, b')" "b \<longrightarrow> b' \<or> e = (C_retry, R_bool True)"
      using a'(2) [OF up] by blast
    obtain xs ys where xy: "begun es = Some (C_begin (if s then 1 else 0))" "up_since es (a_gen a) xs ys"
        "b' \<longrightarrow> (C_retry, R_bool True) \<in> set ys"
      using up_inv_up [OF inv b'(1)] .
    show ?thesis using xy b'(2) up_since_snoc [OF xy(2) e(1)] bg a'(1)
      by (intro conjI exI [of _ xs] exI [of _ "ys @ [e]"]) auto
  qed
  moreover have "begun (es @ [e]) = Some (C_begin (if s then 1 else 0))" if "a_stage a' = Starting s" for s
    using inv a'(3) [OF that] bg by (simp add: up_inv_def)
  ultimately show ?thesis by (simp add: up_inv_def)
qed

lemma up_inv_refused: "up_inv es a \<Longrightarrow> \<not> made e \<Longrightarrow> up_inv (es @ [e]) a"
  by (rule up_inv_keep) (cases e rule: replaces.cases; auto)+

lemma up_inv_commit:
  assumes "begun es = Some (C_begin (if s then 1 else 0))" "g \<noteq> 0"
  shows "up_inv (es @ [(C_commit, R_gen g)]) \<lparr>a_gen = g, a_sgen = g', a_stage = Running s False\<rparr>"
proof -
  have "up_since (es @ [(C_commit, R_gen g)]) g es []" using assms(2) by (simp add: up_since_def)
  then show ?thesis using assms(1) by (auto simp: up_inv_def begun_snoc)
qed

lemma up_inv_wins: "wins a e a' \<Longrightarrow> up_inv es a \<Longrightarrow> up_inv (es @ [e]) a'"
proof (induction rule: wins.induct)
  case (begins a k)
  then show ?case by (auto simp: up_inv_def begun_snoc)
next
  case (comes_up a s g)
  then show ?case using up_inv_commit [of es s g] by (simp add: up_inv_def next_gen_0)
next
  case (comes_back a g)
  then show ?case using up_inv_commit [of es False g] by (simp add: up_inv_def next_gen_0)
next
  case (finishes a s b)
  then show ?case by (simp add: up_inv_def)
qed (erule up_inv_keep; auto)+

lemma lives_up: "lives life_start es a \<Longrightarrow> up_inv es a"
proof (induction es arbitrary: a rule: rev_induct)
  case Nil
  then show ?case by (simp add: up_inv_def life_start_def)
next
  case (snoc e es)
  from snoc.prems show ?case
    by (rule lives_snocE) (use snoc.IH up_inv_wins up_inv_refused in blast)+
qed

section \<open>Generations are not reused\<close>

fun minted :: "life_event list \<Rightarrow> u32 list" where
  "minted [] = []"
| "minted ((C_commit, R_gen g) # es) = (if g = 0 then minted es else g # minted es)"
| "minted (_ # es) = minted es"

lemma minted_append: "minted (xs @ ys) = minted xs @ minted ys"
  by (induction xs rule: minted.induct) auto

lemma minted_length: "length (minted es) \<le> length es"
  by (induction es rule: minted.induct) auto

lemma next_gen_nat:
  assumes "n + 1 < 4294967296"
  shows "next_gen (of_nat n) = of_nat (n + 1)"
proof -
  have "(of_nat (n + 1) :: u32) \<noteq> 0"
    using assms by (simp add: word_of_nat_eq_0_iff nat_dvd_not_less del: of_nat_add of_nat_Suc)
  then show ?thesis by (simp add: next_gen_def add.commute)
qed

lemma minted_wins:
  "wins a e a' \<Longrightarrow> minted [e] = [] \<and> a_gen a' = a_gen a \<or>
     minted [e] = [next_gen (a_gen a)] \<and> a_gen a' = next_gen (a_gen a)"
  by (induction rule: wins.induct) (auto simp: next_gen_0)

lemma minted_mem: "(C_commit, R_gen g) \<in> set es \<Longrightarrow> g \<noteq> 0 \<Longrightarrow> g \<in> set (minted es)"
  by (induction es rule: minted.induct) auto

lemma minted_refused: "\<not> made e \<Longrightarrow> minted [e] = []"
  by (cases e rule: made.cases; cases "fst e") auto

lemma lives_minted:
  assumes "lives life_start es a" "length es < 4294967295"
  shows "a_gen a = of_nat (length (minted es)) \<and> minted es = map of_nat [1..<Suc (length (minted es))]"
  using assms
proof (induction es arbitrary: a rule: rev_induct)
  case Nil
  then show ?case by (simp add: life_start_def)
next
  case (snoc e es)
  from snoc.prems(1) show ?case
  proof (rule lives_snocE)
    fix m assume m: "lives life_start es m" "wins m e a"
    then have ih: "a_gen m = of_nat (length (minted es))" "minted es = map of_nat [1..<Suc (length (minted es))]"
      using snoc by auto
    let ?n = "length (minted es)"
    have "?n + 1 < 4294967296" using minted_length [of es] snoc.prems(2) by simp
    then have "next_gen (a_gen m) = of_nat (?n + 1)" using next_gen_nat [of ?n] by (simp add: ih(1))
    then show ?case using minted_wins [OF m(2)] ih by (auto simp: minted_append)
  next
    assume "lives life_start es a" "\<not> made e"
    then show ?case using snoc minted_refused [of e] by (simp add: minted_append)
  qed
qed

lemma minted_distinct:
  assumes "lives life_start es a" "length es < 4294967295"
  shows "distinct (minted es)"
proof -
  have "inj_on (of_nat :: nat \<Rightarrow> u32) {1..<Suc (length (minted es))}"
    using minted_length [of es] assms(2)
    by (intro inj_on_inverseI [where g = unat]) (simp add: unsigned_of_nat take_bit_nat_eq_self)
  then have "distinct (map (of_nat :: nat \<Rightarrow> u32) [1..<Suc (length (minted es))])"
    by (simp add: distinct_map del: upt_Suc)
  then show ?thesis using lives_minted [OF assms] by metis
qed

section \<open>Any sequence of calls\<close>

lemma nth_split: "i < length es \<Longrightarrow> es = take i es @ es ! i # drop (Suc i) es"
  by (rule id_take_nth_drop)

lemma run_alternates:
  assumes "lives life_start es a" "i < j" "j < length es" "claims (es ! i)" "claims (es ! j)"
  shows "\<exists>k. i < k \<and> k < j \<and> settles (fst (es ! i)) (es ! k)"
proof -
  have d: "drop (Suc i) es = take (j - Suc i) (drop (Suc i) es) @ es ! j # drop (Suc j) es"
    using assms(2,3) id_take_nth_drop [of "j - Suc i" "drop (Suc i) es"] by (simp add: drop_drop)
  have "es = take i es @ es ! i # drop (Suc i) es" using assms(2,3) by (intro nth_split) simp
  also have "drop (Suc i) es = take (j - Suc i) (drop (Suc i) es) @ es ! j # drop (Suc j) es" by (rule d)
  finally have "es = take i es @ es ! i # take (j - Suc i) (drop (Suc i) es) @ es ! j # drop (Suc j) es" .
  then have "\<exists>e' \<in> set (take (j - Suc i) (drop (Suc i) es)). settles (fst (es ! i)) e'"
    using claims_alternate [of life_start "take i es" "fst (es ! i)" "snd (es ! i)"
        "take (j - Suc i) (drop (Suc i) es)" "es ! j" "drop (Suc j) es" a] assms(1,4,5) by simp
  then obtain k where "k < j - Suc i" "settles (fst (es ! i)) (es ! (Suc i + k))"
    using assms(2,3) by (auto simp: in_set_conv_nth)
  then show ?thesis by (intro exI [of _ "Suc i + k"]) auto
qed

lemma run_stop:
  assumes "lives life_start es a" "length es < 4294967295" "i < length es" "es ! i = (C_stop h, R_stop NN_STREAM_STOP_GO)"
  shows "\<exists>j g. j < i \<and> es ! j = (C_commit, R_gen g) \<and> (h = g \<or> h = 0) \<and>
    (\<forall>k. j < k \<and> k < i \<longrightarrow> \<not> replaces (es ! k)) \<and>
    (\<forall>k < length es. es ! k = (C_commit, R_gen g) \<longrightarrow> k = j) \<and>
    (h = 0 \<and> begun (take i es) = Some (C_begin 1) \<longrightarrow> (\<exists>k. j < k \<and> k < i \<and> es ! k = (C_retry, R_bool True)))"
proof -
  obtain m where m: "lives life_start (take i es) m" "lives m (es ! i # drop (Suc i) es) a"
    using assms(1) nth_split [OF assms(3)] lives_append by metis
  then obtain s b where st: "a_stage m = Running s b" and h: "h = a_gen m \<or> h = 0 \<and> (s \<longrightarrow> b)"
    by (auto simp: assms(4) wins_simps)
  have "up_flags (a_stage m) = Some (s, b)" by (simp add: st)
  then obtain xs ys where xy: "begun (take i es) = Some (C_begin (if s then 1 else 0))"
      "up_since (take i es) (a_gen m) xs ys" "b \<longrightarrow> (C_retry, R_bool True) \<in> set ys"
    using up_inv_up [OF lives_up [OF m(1)]] by blast
  have tk: "take i es = xs @ (C_commit, R_gen (a_gen m)) # ys" "a_gen m \<noteq> 0" "\<forall>e \<in> set ys. \<not> replaces e"
    using xy(2) by (auto simp: up_since_def)
  let ?j = "length xs"
  have len: "i = ?j + 1 + length ys" using arg_cong [OF tk(1), of length] assms(3) by simp
  have at: "es ! k = (xs @ (C_commit, R_gen (a_gen m)) # ys) ! k" if "k < i" for k
    using that unfolding tk(1) [symmetric] by simp
  obtain zs where es: "es = xs @ (C_commit, R_gen (a_gen m)) # (ys @ zs)"
    using tk(1) append_take_drop_id [of i es] by (metis append_Cons append_assoc)
  have "minted es = minted xs @ a_gen m # minted (ys @ zs)"
    using arg_cong [OF es, of minted] tk(2) by (simp add: minted_append)
  then have un: "a_gen m \<notin> set (minted xs)" "a_gen m \<notin> set (minted (ys @ zs))"
    using minted_distinct [OF assms(1,2)] by auto
  have uniq: "k = ?j" if k: "k < length es" "es ! k = (C_commit, R_gen (a_gen m))" for k
  proof (rule ccontr)
    assume "k \<noteq> ?j"
    then consider "k < ?j" | "?j < k" by linarith
    then show False
    proof cases
      case 1
      then have "xs ! k = es ! k" using arg_cong [OF es, of "\<lambda>l. l ! k"] by (simp add: nth_append)
      then have "(C_commit, R_gen (a_gen m)) \<in> set xs" using k(2) 1 nth_mem by metis
      then show False using minted_mem un(1) tk(2) by blast
    next
      case 2
      let ?r = "ys @ zs"
      have r: "?r ! (k - Suc ?j) = es ! k" using arg_cong [OF es, of "\<lambda>l. l ! k"] 2 by (simp add: nth_append nth_Cons')
      have "k - Suc ?j < length ?r" using k(1) 2 arg_cong [OF es, of length] by simp
      then have "(C_commit, R_gen (a_gen m)) \<in> set ?r" using r k(2) nth_mem by metis
      then show False using minted_mem un(2) tk(2) by blast
    qed
  qed
  have between: "es ! k = ys ! (k - Suc ?j)" "k - Suc ?j < length ys" if "?j < k" "k < i" for k
    using that len at [OF that(2)] by (auto simp: nth_append nth_Cons')
  have "\<not> replaces (es ! k)" if "?j < k" "k < i" for k
    using between [OF that] tk(3) by simp
  moreover have "\<exists>k. ?j < k \<and> k < i \<and> es ! k = (C_retry, R_bool True)" if ret: "(C_retry, R_bool True) \<in> set ys"
  proof -
    obtain n where "n < length ys" "ys ! n = (C_retry, R_bool True)" using ret by (auto simp: in_set_conv_nth)
    then show ?thesis using len at [of "?j + 1 + n"] by (intro exI [of _ "?j + 1 + n"]) (simp add: nth_append)
  qed
  moreover have "h = 0 \<and> begun (take i es) = Some (C_begin 1) \<Longrightarrow> (C_retry, R_bool True) \<in> set ys"
    using h tk(2) xy(1,3) by (auto split: if_splits)
  ultimately show ?thesis
    using uniq at [of ?j] len h by (intro exI [of _ ?j] exI [of _ "a_gen m"]) auto
qed

lemma run_lost:
  assumes "lives life_start es a" "i < k" "k < length es" "es ! i = (C_poison, R_bool True)"
  shows "\<not> made (es ! k)"
proof -
  obtain m where "lives m (es ! i # drop (Suc i) es) a"
    using assms(1-3) nth_split [of i es] lives_append by (metis order.strict_trans)
  then obtain n where "wins m (C_poison, R_bool True) n" "lives n (drop (Suc i) es) a" by (auto simp: assms(4))
  then have "\<forall>e \<in> set (drop (Suc i) es). \<not> made e" using lost_stays by (auto simp: wins_simps)
  moreover have "es ! k \<in> set (drop (Suc i) es)"
    using assms(2,3) by (auto simp: in_set_conv_nth intro!: exI [of _ "k - Suc i"])
  ultimately show ?thesis by blast
qed

lemma run_from_start:
  "run_life cs (Some zero_life) = (es, lp) \<Longrightarrow> \<exists>l' a'. lp = Some l' \<and> life_shows l' a' \<and> lives life_start es a' \<and>
    map fst es = cs \<and> nl_seq l' = of_nat (length (filter made es))"
  using run_lives [OF start_shows] by (auto simp: zero_life_def)

text \<open>C14. For every state a sequence of calls can reach and every next call, the code answers and
  moves as the abstract machine: a call that has a transition makes it, gets its answer and bumps
  the sequence number; any other call, in any order, is refused with the machine's reason and
  changes nothing.\<close>

theorem nn_stream_life_refines:
  assumes "run_life cs (Some zero_life) = (es, lp)"
  shows "\<exists>l a. lp = Some l \<and> life_shows l a \<and> lives life_start es a \<and> steps_as l a c (call_life c lp)"
  using run_from_start [OF assms] call_steps by blast

text \<open>C13. Whatever the callers do, in any order: between two claims of the lifecycle there is a settlement
  of the first, so a start or a stop is never admitted over another; an admitted stop finds the
  stream of the last commit still up, its generation is that commit's and no other's, and a stop
  of whatever is running reaches a one-shot only after the one-shot's own stop was retried; after
  an unconfirmed teardown nothing is admitted; and the sequence number counts the transitions.
  (Generations are reused only after \<open>2 ^ 32 - 1\<close> calls.)\<close>

theorem nn_stream_life_exclusive:
  assumes "run_life cs (Some zero_life) = (es, lp)" "length cs < 2 ^ 32 - 1"
  shows "(\<forall>i j. i < j \<and> j < length es \<and> claims (es ! i) \<and> claims (es ! j) \<longrightarrow>
      (\<exists>k. i < k \<and> k < j \<and> settles (fst (es ! i)) (es ! k))) \<and>
    (\<forall>i h. i < length es \<and> es ! i = (C_stop h, R_stop NN_STREAM_STOP_GO) \<longrightarrow>
      (\<exists>j g. j < i \<and> es ! j = (C_commit, R_gen g) \<and> (h = g \<or> h = 0) \<and>
        (\<forall>k. j < k \<and> k < i \<longrightarrow> \<not> replaces (es ! k)) \<and>
        (\<forall>k < length es. es ! k = (C_commit, R_gen g) \<longrightarrow> k = j) \<and>
        (h = 0 \<and> begun (take i es) = Some (C_begin 1) \<longrightarrow> (\<exists>k. j < k \<and> k < i \<and> es ! k = (C_retry, R_bool True))))) \<and>
    (\<forall>i k. i < k \<and> k < length es \<and> es ! i = (C_poison, R_bool True) \<longrightarrow> \<not> made (es ! k)) \<and>
    (\<exists>l. lp = Some l \<and> nl_seq l = of_nat (length (filter made es)))"
proof -
  obtain l a where l: "lp = Some l" "nl_seq l = of_nat (length (filter made es))"
    and a: "lives life_start es a" "map fst es = cs"
    using run_from_start [OF assms(1)] by blast
  have n: "length es < 4294967295" using assms(2) a(2) by auto
  show ?thesis
    apply (intro conjI)
    subgoal using run_alternates [OF a(1)] by blast
    subgoal using run_stop [OF a(1) n] by (intro allI impI) (elim conjE)
    subgoal using run_lost [OF a(1)] by blast
    subgoal using l by blast
    done
qed

definition sample_calls :: "life_call list" where
  "sample_calls = [C_begin 1, C_commit, C_stop 0, C_stop 1, C_retry, C_stop 0, C_finish]"

lemma sample_run:
  "run_life sample_calls (Some zero_life) =
    ([(C_begin 1, R_start NN_STREAM_START_GO), (C_commit, R_gen 1), (C_stop 0, R_stop NN_STREAM_STOP_ONESHOT),
      (C_stop 1, R_stop NN_STREAM_STOP_GO), (C_retry, R_bool True), (C_stop 0, R_stop NN_STREAM_STOP_GO),
      (C_finish, R_bool True)],
     Some \<lparr>nl_phase = 0, nl_prev = 0, nl_kind = 1, nl_orphan = 1, nl_gen = 1, nl_sgen = 0, nl_next = 2, nl_seq = 6\<rparr>)"
  by (simp add: sample_calls_def zero_life_def life_defs Let_def)

theorem nn_stream_life_refines_witness:
  "\<exists>l a. snd (run_life sample_calls (Some zero_life)) = Some l \<and> life_shows l a \<and>
    steps_as l a (C_begin 0) (call_life (C_begin 0) (Some l))"
  using nn_stream_life_refines [OF sample_run, of "C_begin 0"] by (auto simp: sample_run)

theorem nn_stream_life_exclusive_witness:
  "\<exists>j g k. j < k \<and> k < 5 \<and> fst (run_life sample_calls (Some zero_life)) ! j = (C_commit, R_gen g) \<and>
    fst (run_life sample_calls (Some zero_life)) ! k = (C_retry, R_bool True)"
proof -
  define es where "es = fst (run_life sample_calls (Some zero_life))"
  obtain lp where run: "run_life sample_calls (Some zero_life) = (es, lp)" by (metis es_def prod.collapse)
  have n: "length sample_calls < 2 ^ 32 - 1" by (simp add: sample_calls_def)
  have e: "5 < length es \<and> es ! 5 = (C_stop 0, R_stop NN_STREAM_STOP_GO)" "begun (take 5 es) = Some (C_begin 1)"
    by (simp_all add: es_def sample_run begun_def)
  show ?thesis
    using nn_stream_life_exclusive [OF run n, THEN conjunct2, THEN conjunct1, THEN spec, THEN spec, THEN mp, OF e(1)] e(2)
    unfolding es_def [symmetric] by blast
qed

end
