(* ===== verification/CliJob.thy ===== *)
theory CliJob
  imports CliInstance
begin

text \<open>
  The background-job pool (\<open>shell/core/cli_job.c\<close>): a fixed table of worker slots that several
  shells and workers use at once.  Every piece of a call that other threads cannot interrupt - a
  \<open>TX_DISABLE\<close> section, or one store or call outside it - is a definition on the pool; the step
  relation \<open>acts\<close> strings them together by a program counter per thread, so the interleavings of
  all callers and of the workers are the paths of one relation.

  ThreadX is modelled by what the file relies on: creating and deleting a thread, its state, and
  the event flags of a worker; whether a registration or a creation succeeds is left open.  A
  worker's instance is the record of the output path and line editor (its terminal, stack and
  foreground pointers, its start flag and its count of dropped input are not in it); \<open>unsigned long\<close> is 32 bits wide.
\<close>

section \<open>The table\<close>

datatype cli_job_state = CLI_JOB_FREE | CLI_JOB_LAUNCHING | CLI_JOB_RUNNING | CLI_JOB_REAPING

datatype tx_state = TX_READY | TX_COMPLETED | TX_TERMINATED

text \<open>A thread control block keeps its last state after the thread is deleted.\<close>

record tx_thread =
  t_created :: bool
  t_state :: tx_state
  t_registered :: bool

record cli_job =
  j_state :: cli_job_state
  j_id :: u32
  j_evt_ok :: bool
  j_label :: "u8 list"
  j_inst :: "unit cli_instance"
  j_events :: u32
  j_thread :: tx_thread

text \<open>The lines the pool prints, and the kills it grants.\<close>

datatype job_notice =
    N_done u32 "u8 list" | N_full | N_refused cli_reg_status | N_failed | N_started u32 "u8 list"
  | N_running u32 "u8 list" | N_no_jobs | N_killed u32

text \<open>\<open>p_tenant\<close> and \<open>p_undone\<close> are auxiliary variables: the id under which each slot was last
  claimed, and whether some failed launch has cleared the id of the slot it gave back.  No step
  reads them.\<close>

record job_pool =
  p_jobs :: "cli_job list"
  p_next_id :: u32
  p_log :: "job_notice list"
  p_tenant :: "nat \<Rightarrow> u32"
  p_undone :: bool

definition set_job :: "nat \<Rightarrow> (cli_job \<Rightarrow> cli_job) \<Rightarrow> job_pool \<Rightarrow> job_pool" where
  "set_job i f p = p\<lparr>p_jobs := (p_jobs p)[i := f (p_jobs p ! i)]\<rparr>"

definition say :: "job_notice \<Rightarrow> job_pool \<Rightarrow> job_pool" where
  "say n p = p\<lparr>p_log := p_log p @ [n]\<rparr>"

definition CLI_EVT_KILL :: u32 where "CLI_EVT_KILL = 4"
definition CLI_JOB_LABEL_MAX :: nat where "CLI_JOB_LABEL_MAX = 40"

text \<open>\<open>strncpy(dst, s, n)\<close> of a string, as the \<open>n\<close> bytes it writes.\<close>

definition strncpy :: "nat \<Rightarrow> u8 list \<Rightarrow> u8 list" where
  "strncpy n s = take n (s @ replicate n 0)"

section \<open>The worker's instance\<close>

definition cli_job_inst_reset :: "u8 list \<Rightarrow> unit cli_instance \<Rightarrow> unit cli_instance" where
  "cli_job_inst_reset seg inst =
    inst\<lparr>line := strncpy (CLI_CMD_BUFFER_SIZE - 1) seg @ [0], len := 0, cur := 0, overwrite := False,
      rx := CLI_RX_NORMAL, prev_cr := False, esc_np := 0, esc_bad := False, esc_p0 := 0, esc_p1 := 0,
      hist_used := 0, hist_nav_on := False, hist_nav := 0, bs_swap := False, term_width := CLI_TERM_WIDTH,
      old_rows := 0, draw_row := 0, probing_cpr := False, tab_list_armed := False, render_dirty := False,
      prompt := [],
      tx := (tx inst)\<lparr>out_len := 0, tx_failed := False, dispatching := False, cancel_req := False, tx_dropped := 0\<rparr>,
      last_result := 0\<rparr>"

text \<open>The end of the worker: \<open>cli_job_entry\<close> unregisters its thread after the segment ran, and
  returning from it completes the thread.\<close>

definition worker_unregister :: "cli_job \<Rightarrow> cli_job" where
  "worker_unregister j = j\<lparr>j_thread := (j_thread j)\<lparr>t_registered := False\<rparr>\<rparr>"

definition worker_returns :: "cli_job \<Rightarrow> cli_job" where
  "worker_returns j = j\<lparr>j_thread := (j_thread j)\<lparr>t_state := TX_COMPLETED\<rparr>\<rparr>"

text \<open>A thread may also be terminated from outside, before it unregistered; the reaper accepts both
  ends.\<close>

definition worker_terminated :: "cli_job \<Rightarrow> cli_job" where
  "worker_terminated j = j\<lparr>j_thread := (j_thread j)\<lparr>t_state := TX_TERMINATED\<rparr>\<rparr>"

section \<open>Pool init\<close>

text \<open>\<open>ok i\<close> is the success of \<open>tx_event_flags_create\<close> for slot \<open>i\<close>.\<close>

definition cli_job_pool_init :: "(nat \<Rightarrow> bool) \<Rightarrow> job_pool \<Rightarrow> job_pool" where
  "cli_job_pool_init ok p =
    p\<lparr>p_jobs := map (\<lambda>i. (p_jobs p ! i)\<lparr>j_state := CLI_JOB_FREE, j_id := 0, j_evt_ok := ok i\<rparr>) [0..<length (p_jobs p)]\<rparr>"

section \<open>Reaping\<close>

definition finished :: "cli_job \<Rightarrow> bool" where
  "finished j \<longleftrightarrow> t_state (j_thread j) = TX_COMPLETED \<or> t_state (j_thread j) = TX_TERMINATED"

definition reap_claim :: "nat \<Rightarrow> job_pool \<Rightarrow> bool \<times> job_pool" where
  "reap_claim i p =
    (let j = p_jobs p ! i in
     if j_state j = CLI_JOB_RUNNING \<and> finished j then (True, set_job i (\<lambda>j. j\<lparr>j_state := CLI_JOB_REAPING\<rparr>) p)
     else (False, p))"

definition reap_unregister :: "nat \<Rightarrow> job_pool \<Rightarrow> job_pool" where
  "reap_unregister i p = set_job i worker_unregister p"

text \<open>\<open>tx_thread_delete\<close> refuses a thread that was never created or is not done.\<close>

definition tx_thread_delete :: "cli_job \<Rightarrow> cli_job" where
  "tx_thread_delete j =
    (if t_created (j_thread j) \<and> finished j then j\<lparr>j_thread := (j_thread j)\<lparr>t_created := False\<rparr>\<rparr> else j)"

definition reap_delete :: "nat \<Rightarrow> job_pool \<Rightarrow> job_pool" where
  "reap_delete i p = set_job i tx_thread_delete p"

definition reap_notice :: "nat \<Rightarrow> job_pool \<Rightarrow> job_pool" where
  "reap_notice i p = say (N_done (j_id (p_jobs p ! i)) (j_label (p_jobs p ! i))) p"

definition clear_id :: "nat \<Rightarrow> job_pool \<Rightarrow> job_pool" where
  "clear_id i p = set_job i (\<lambda>j. j\<lparr>j_id := 0\<rparr>) p"

definition set_free :: "nat \<Rightarrow> job_pool \<Rightarrow> job_pool" where
  "set_free i p = set_job i (\<lambda>j. j\<lparr>j_state := CLI_JOB_FREE\<rparr>) p"

section \<open>Launch\<close>

definition cli_seg_blank :: "u8 list \<Rightarrow> bool" where
  "cli_seg_blank seg \<longleftrightarrow> list_all (\<lambda>c. c = 32 \<or> c = 9) seg"

fun find_free :: "nat \<Rightarrow> cli_job list \<Rightarrow> nat option" where
  "find_free i [] = None"
| "find_free i (j # js) = (if j_state j = CLI_JOB_FREE \<and> j_evt_ok j then Some i else find_free (i + 1) js)"

definition launch_claim :: "job_pool \<Rightarrow> (nat option \<times> u32) \<times> job_pool" where
  "launch_claim p =
    (case find_free 0 (p_jobs p) of
       None \<Rightarrow> ((None, p_next_id p), p)
     | Some slot \<Rightarrow>
         ((Some slot, p_next_id p),
          (set_job slot (\<lambda>j. j\<lparr>j_state := CLI_JOB_LAUNCHING\<rparr>) p)
            \<lparr>p_next_id := p_next_id p + 1, p_tenant := (p_tenant p)(slot := p_next_id p)\<rparr>))"

text \<open>Id and label, then the instance and its event flags.\<close>

definition launch_fill :: "nat \<Rightarrow> u32 \<Rightarrow> u8 list \<Rightarrow> job_pool \<Rightarrow> job_pool" where
  "launch_fill slot jid seg p =
    set_job slot (\<lambda>j. j\<lparr>j_id := jid, j_label := strncpy (CLI_JOB_LABEL_MAX - 1) seg @ [0]\<rparr>) p"

definition launch_reset :: "nat \<Rightarrow> u8 list \<Rightarrow> job_pool \<Rightarrow> job_pool" where
  "launch_reset slot seg p = set_job slot (\<lambda>j. j\<lparr>j_inst := cli_job_inst_reset seg (j_inst j), j_events := 0\<rparr>) p"

definition launch_register :: "nat \<Rightarrow> job_pool \<Rightarrow> job_pool" where
  "launch_register slot p = set_job slot (\<lambda>j. j\<lparr>j_thread := (j_thread j)\<lparr>t_registered := True\<rparr>\<rparr>) p"

text \<open>An auto-started thread runs from its creation on.\<close>

definition launch_create :: "nat \<Rightarrow> job_pool \<Rightarrow> job_pool" where
  "launch_create slot p =
    set_job slot (\<lambda>j. j\<lparr>j_thread := (j_thread j)\<lparr>t_created := True, t_state := TX_READY\<rparr>\<rparr>) p"

definition launch_running :: "nat \<Rightarrow> job_pool \<Rightarrow> job_pool" where
  "launch_running slot p = set_job slot (\<lambda>j. j\<lparr>j_state := CLI_JOB_RUNNING\<rparr>) p"

definition launch_announce :: "nat \<Rightarrow> job_pool \<Rightarrow> job_pool" where
  "launch_announce slot p = say (N_started (j_id (p_jobs p ! slot)) (j_label (p_jobs p ! slot))) p"

text \<open>The late store of a launch that failed, after \<open>set_free\<close>, and the line it ends with: the
  registration was refused, or (\<open>None\<close>) the thread could not be created.\<close>

definition launch_undo_id :: "nat \<Rightarrow> job_pool \<Rightarrow> job_pool" where
  "launch_undo_id slot p = (clear_id slot p)\<lparr>p_undone := True\<rparr>"

definition launch_error :: "cli_reg_status option \<Rightarrow> job_notice" where
  "launch_error rc = (case rc of None \<Rightarrow> N_failed | Some e \<Rightarrow> N_refused e)"

section \<open>jobs and kill\<close>

definition show_test :: "nat \<Rightarrow> job_pool \<Rightarrow> bool" where
  "show_test i p \<longleftrightarrow> j_state (p_jobs p ! i) = CLI_JOB_RUNNING"

definition show_line :: "nat \<Rightarrow> job_pool \<Rightarrow> job_pool" where
  "show_line i p = say (N_running (j_id (p_jobs p ! i)) (j_label (p_jobs p ! i))) p"

definition show_end :: "nat \<Rightarrow> job_pool \<Rightarrow> job_pool" where
  "show_end n p = (if n = 0 then say N_no_jobs p else p)"

definition cli_job_cancel :: "cli_job \<Rightarrow> cli_job" where
  "cli_job_cancel j = j\<lparr>j_inst := (j_inst j)\<lparr>tx := (tx (j_inst j))\<lparr>cancel_req := True\<rparr>\<rparr>,
     j_events := j_events j OR CLI_EVT_KILL\<rparr>"

definition kill_slot :: "nat \<Rightarrow> u32 \<Rightarrow> job_pool \<Rightarrow> bool \<times> job_pool" where
  "kill_slot i jid p =
    (let j = p_jobs p ! i in
     if j_state j = CLI_JOB_RUNNING \<and> j_id j = jid then (True, say (N_killed jid) (set_job i cli_job_cancel p))
     else (False, p))"

section \<open>The steps of a call\<close>

text \<open>What a reap is the beginning of: a line of the shell, a launch, or the \<open>jobs\<close> listing.\<close>

datatype errand = Line | Launch "u8 list" | List

datatype job_pc =
    Away
  | Reap nat errand | Unreg nat errand | Delete nat errand | Notice nat errand | Clear nat errand | Release nat errand
  | Claim "u8 list" | Fill nat u32 "u8 list" | Reset nat "u8 list" | Register nat | Create nat
  | Started nat | Announce nat | Drop_reg nat
  | Undo nat "cli_reg_status option" | Undo_id nat "cli_reg_status option" | Undo_say "cli_reg_status option"
  | Show nat nat | Show_line nat nat | Kill nat u32

fun after_reap :: "errand \<Rightarrow> job_pc" where
  "after_reap Line = Away"
| "after_reap (Launch seg) = (if cli_seg_blank seg then Away else Claim seg)"
| "after_reap List = Show 0 0"

inductive acts :: "job_pool \<Rightarrow> job_pc \<Rightarrow> job_pool \<Rightarrow> job_pc \<Rightarrow> bool" where
  enter_reap: "acts p Away p (Reap 0 w)"
| reap_skip: "i < length (p_jobs p) \<Longrightarrow> reap_claim i p = (False, p') \<Longrightarrow> acts p (Reap i w) p' (Reap (i + 1) w)"
| reap_take: "i < length (p_jobs p) \<Longrightarrow> reap_claim i p = (True, p') \<Longrightarrow> acts p (Reap i w) p' (Unreg i w)"
| reap_unreg: "acts p (Unreg i w) (reap_unregister i p) (Delete i w)"
| reap_del: "acts p (Delete i w) (reap_delete i p) (Notice i w)"
| reap_says: "acts p (Notice i w) (reap_notice i p) (Clear i w)"
| reap_clear: "acts p (Clear i w) (clear_id i p) (Release i w)"
| reap_free: "acts p (Release i w) (set_free i p) (Reap (i + 1) w)"
| reap_end: "length (p_jobs p) \<le> i \<Longrightarrow> acts p (Reap i w) p (after_reap w)"
| claim_full: "launch_claim p = ((None, jid), p') \<Longrightarrow> acts p (Claim seg) (say N_full p') Away"
| claim_slot: "launch_claim p = ((Some i, jid), p') \<Longrightarrow> acts p (Claim seg) p' (Fill i jid seg)"
| fills: "acts p (Fill i jid seg) (launch_fill i jid seg p) (Reset i seg)"
| resets: "acts p (Reset i seg) (launch_reset i seg p) (Register i)"
| register_ok: "acts p (Register i) (launch_register i p) (Create i)"
| register_no: "rc \<noteq> CLI_REG_OK \<Longrightarrow> acts p (Register i) p (Undo i (Some rc))"
| create_ok: "acts p (Create i) (launch_create i p) (Started i)"
| create_no: "acts p (Create i) p (Drop_reg i)"
| drop_reg: "acts p (Drop_reg i) (reap_unregister i p) (Undo i None)"
| undo_free: "acts p (Undo i n) (set_free i p) (Undo_id i n)"
| undo_id: "acts p (Undo_id i n) (launch_undo_id i p) (Undo_say n)"
| undo_says: "acts p (Undo_say n) (say (launch_error n) p) Away"
| starts: "acts p (Started i) (launch_running i p) (Announce i)"
| announces: "acts p (Announce i) (launch_announce i p) Away"
| show_skip: "i < length (p_jobs p) \<Longrightarrow> \<not> show_test i p \<Longrightarrow> acts p (Show i n) p (Show (i + 1) n)"
| show_take: "i < length (p_jobs p) \<Longrightarrow> show_test i p \<Longrightarrow> acts p (Show i n) p (Show_line i n)"
| show_says: "acts p (Show_line i n) (show_line i p) (Show (i + 1) (n + 1))"
| show_ends: "length (p_jobs p) \<le> i \<Longrightarrow> acts p (Show i n) (show_end n p) Away"
| enter_kill: "acts p Away p (Kill 0 jid)"
| kill_miss: "i < length (p_jobs p) \<Longrightarrow> kill_slot i jid p = (False, p') \<Longrightarrow> acts p (Kill i jid) p' (Kill (i + 1) jid)"
| kill_hit: "i < length (p_jobs p) \<Longrightarrow> kill_slot i jid p = (True, p') \<Longrightarrow> acts p (Kill i jid) p' Away"
| kill_end: "length (p_jobs p) \<le> i \<Longrightarrow> acts p (Kill i jid) p Away"

text \<open>Any number of threads, and the workers: a worker leaves the registry, then its thread completes,
  or it is terminated at any point before.\<close>

record job_system =
  y_pool :: job_pool
  y_pcs :: "job_pc list"

inductive job_moves :: "job_system \<Rightarrow> job_system \<Rightarrow> bool" where
  thread_acts: "a < length (y_pcs y) \<Longrightarrow> acts (y_pool y) (y_pcs y ! a) p pc \<Longrightarrow>
    job_moves y (y\<lparr>y_pool := p, y_pcs := (y_pcs y)[a := pc]\<rparr>)"
| worker_leaves: "i < length (p_jobs (y_pool y)) \<Longrightarrow> t_created (j_thread (p_jobs (y_pool y) ! i)) \<Longrightarrow>
    t_state (j_thread (p_jobs (y_pool y) ! i)) = TX_READY \<Longrightarrow>
    job_moves y (y\<lparr>y_pool := set_job i worker_unregister (y_pool y)\<rparr>)"
| worker_done: "i < length (p_jobs (y_pool y)) \<Longrightarrow> t_created (j_thread (p_jobs (y_pool y) ! i)) \<Longrightarrow>
    t_state (j_thread (p_jobs (y_pool y) ! i)) = TX_READY \<Longrightarrow>
    job_moves y (y\<lparr>y_pool := set_job i worker_returns (y_pool y)\<rparr>)"
| worker_killed: "i < length (p_jobs (y_pool y)) \<Longrightarrow> t_created (j_thread (p_jobs (y_pool y) ! i)) \<Longrightarrow>
    t_state (j_thread (p_jobs (y_pool y) ! i)) = TX_READY \<Longrightarrow>
    job_moves y (y\<lparr>y_pool := set_job i worker_terminated (y_pool y)\<rparr>)"

text \<open>Runs, counted.\<close>

inductive job_run :: "job_system \<Rightarrow> nat \<Rightarrow> job_system \<Rightarrow> bool" where
  run_zero: "job_run y 0 y"
| run_step: "job_run x n y \<Longrightarrow> job_moves y z \<Longrightarrow> job_run x (Suc n) z"

end
