(* ===== verification/CliJobPool.thy ===== *)
theory CliJobPool
  imports CliJob CliRender
begin

text \<open>
  What the job pool keeps under every interleaving of shells, workers and their ends: who may
  touch a slot, what is true of its thread, and which id it answers to.
\<close>

section \<open>Who is in a slot\<close>

text \<open>
  The owner of a slot is the thread that took it under \<open>TX_DISABLE\<close>, a launch or a reap, until it
  gives it back.
\<close>

fun owns :: "job_pc \<Rightarrow> nat option" where
  "owns (Unreg i w) = Some i"
| "owns (Delete i w) = Some i"
| "owns (Notice i w) = Some i"
| "owns (Clear i w) = Some i"
| "owns (Release i w) = Some i"
| "owns (Fill i jid seg) = Some i"
| "owns (Reset i seg) = Some i"
| "owns (Register i) = Some i"
| "owns (Create i) = Some i"
| "owns (Started i) = Some i"
| "owns (Drop_reg i) = Some i"
| "owns (Undo i n) = Some i"
| "owns _ = None"

text \<open>
  Three kinds of thread touch a slot outside a critical section without owning it: a failed launch
  that has freed the slot and still has to clear its id, the launch notice, and a line of the
  listing.  \<open>slot_of\<close> is the slot a thread is in, as owner or as one of these.
\<close>

fun visits :: "job_pc \<Rightarrow> nat option" where
  "visits (Undo_id i n) = Some i"
| "visits (Announce i) = Some i"
| "visits (Show_line i n) = Some i"
| "visits _ = None"

definition slot_of :: "job_pc \<Rightarrow> nat option" where
  "slot_of pc = (case owns pc of None \<Rightarrow> visits pc | Some i \<Rightarrow> Some i)"

definition holders :: "job_system \<Rightarrow> nat \<Rightarrow> job_pc list" where
  "holders y i = filter (\<lambda>pc. owns pc = Some i) (y_pcs y)"

definition cancelled :: "cli_job \<Rightarrow> bool" where
  "cancelled j \<longleftrightarrow> cancel_req (tx (j_inst j)) \<or> j_events j \<noteq> 0"

text \<open>A slot's id is its tenant's, unless a failed launch cleared it late.\<close>

definition named :: "job_pool \<Rightarrow> u32 \<Rightarrow> cli_job \<Rightarrow> bool" where
  "named p t j \<longleftrightarrow> j_id j = t \<or> j_id j = 0 \<and> p_undone p"

fun reaping_ok :: "cli_job \<Rightarrow> job_pc \<Rightarrow> bool" where
  "reaping_ok j (Unreg i w) \<longleftrightarrow> t_created (j_thread j) \<and> finished j"
| "reaping_ok j (Delete i w) \<longleftrightarrow> t_created (j_thread j) \<and> finished j"
| "reaping_ok j (Notice i w) \<longleftrightarrow> \<not> t_created (j_thread j)"
| "reaping_ok j (Clear i w) \<longleftrightarrow> \<not> t_created (j_thread j)"
| "reaping_ok j (Release i w) \<longleftrightarrow> \<not> t_created (j_thread j)"
| "reaping_ok j _ \<longleftrightarrow> False"

fun launching_ok :: "job_pool \<Rightarrow> u32 \<Rightarrow> cli_job \<Rightarrow> job_pc \<Rightarrow> bool" where
  "launching_ok p t j (Fill i jid seg) \<longleftrightarrow> \<not> t_created (j_thread j) \<and> jid = t"
| "launching_ok p t j (Reset i seg) \<longleftrightarrow> \<not> t_created (j_thread j) \<and> named p t j"
| "launching_ok p t j (Register i) \<longleftrightarrow> \<not> t_created (j_thread j) \<and> named p t j \<and> \<not> cancelled j"
| "launching_ok p t j (Create i) \<longleftrightarrow> \<not> t_created (j_thread j) \<and> named p t j \<and> \<not> cancelled j \<and> t_registered (j_thread j)"
| "launching_ok p t j (Started i) \<longleftrightarrow> t_created (j_thread j) \<and> named p t j \<and> \<not> cancelled j"
| "launching_ok p t j (Drop_reg i) \<longleftrightarrow> \<not> t_created (j_thread j)"
| "launching_ok p t j (Undo i n) \<longleftrightarrow> \<not> t_created (j_thread j)"
| "launching_ok p t j _ \<longleftrightarrow> False"

definition killed :: "job_pool \<Rightarrow> u32 \<Rightarrow> bool" where
  "killed p t \<longleftrightarrow> N_killed t \<in> set (p_log p) \<or> N_killed 0 \<in> set (p_log p) \<and> p_undone p"

definition slot_good :: "job_pool \<Rightarrow> u32 \<Rightarrow> cli_job \<Rightarrow> job_pc list \<Rightarrow> bool" where
  "slot_good p t j us \<longleftrightarrow>
    (case j_state j of
       CLI_JOB_FREE \<Rightarrow> us = [] \<and> \<not> t_created (j_thread j)
     | CLI_JOB_RUNNING \<Rightarrow> us = [] \<and> t_created (j_thread j) \<and> named p t j \<and> (cancelled j \<longrightarrow> killed p t)
     | CLI_JOB_LAUNCHING \<Rightarrow> (\<exists>pc. us = [pc] \<and> launching_ok p t j pc)
     | CLI_JOB_REAPING \<Rightarrow> (\<exists>pc. us = [pc] \<and> reaping_ok j pc))"

definition slots_good :: "job_system \<Rightarrow> bool" where
  "slots_good y \<longleftrightarrow>
    (\<forall>i < length (p_jobs (y_pool y)).
       slot_good (y_pool y) (p_tenant (y_pool y) i) (p_jobs (y_pool y) ! i) (holders y i)) \<and>
    (\<forall>pc \<in> set (y_pcs y). \<forall>i. owns pc = Some i \<longrightarrow> i < length (p_jobs (y_pool y)))"

lemma filter_update_out:
  assumes "a < length xs" "\<not> P (xs ! a)" "\<not> P y"
  shows "filter P (xs[a := y]) = filter P xs"
proof -
  have "xs = take a xs @ xs ! a # drop (Suc a) xs" using assms(1) by (rule id_take_nth_drop)
  then have "filter P xs = filter P (take a xs) @ filter P (drop (Suc a) xs)" using assms(2) by (metis filter_append filter.simps(2))
  then show ?thesis using assms by (simp add: upd_conv_take_nth_drop)
qed

lemma filter_update_in:
  assumes "a < length xs" "P (xs ! a)" "filter P xs = [z]"
  shows "z = xs ! a" "filter P (xs[a := y]) = (if P y then [y] else [])"
proof -
  have "xs = take a xs @ xs ! a # drop (Suc a) xs" using assms(1) by (rule id_take_nth_drop)
  then have "[z] = filter P (take a xs) @ xs ! a # filter P (drop (Suc a) xs)"
    using assms(2,3) by (metis filter_append filter.simps(2))
  then have "filter P (take a xs) = []" "filter P (drop (Suc a) xs) = []" "z = xs ! a"
    by (auto simp: Cons_eq_append_conv)
  then show "z = xs ! a" "filter P (xs[a := y]) = (if P y then [y] else [])"
    using assms(1) by (simp_all add: upd_conv_take_nth_drop)
qed

lemma filter_update_new:
  assumes "a < length xs" "filter P xs = []" "P y"
  shows "filter P (xs[a := y]) = [y]"
proof -
  have "filter P (take a xs) = []" "filter P (drop (Suc a) xs) = []"
    using assms(2) by (auto simp: filter_empty_conv dest: in_set_takeD in_set_dropD)
  then show ?thesis using assms(1,3) by (simp add: upd_conv_take_nth_drop)
qed

text \<open>The log and the record of late clears only grow.\<close>

definition grows :: "job_pool \<Rightarrow> job_pool \<Rightarrow> bool" where
  "grows p p' \<longleftrightarrow> set (p_log p) \<subseteq> set (p_log p') \<and> (p_undone p \<longrightarrow> p_undone p')"

lemma grows_same [simp]: "p_log p' = p_log p \<Longrightarrow> p_undone p' = p_undone p \<Longrightarrow> grows p p'"
  by (simp add: grows_def)

lemma grows_say [simp]: "grows p (say n p)"
  by (auto simp: grows_def say_def)

lemma named_grows: "grows p p' \<Longrightarrow> named p t j \<Longrightarrow> named p' t j"
  by (auto simp: grows_def named_def)

lemma launching_grows: "grows p p' \<Longrightarrow> launching_ok p t j pc \<Longrightarrow> launching_ok p' t j pc"
  by (cases pc) (auto intro: named_grows)

lemma slot_good_grows: "grows p p' \<Longrightarrow> slot_good p t j us \<Longrightarrow> slot_good p' t j us"
  by (auto simp: slot_good_def killed_def grows_def named_def intro: launching_grows [unfolded grows_def]
      split: cli_job_state.splits)

text \<open>One thread moves and touches at most the slot it has, gets or gives back.\<close>

lemma slots_good_act:
  assumes good: "slots_good y" and a: "a < length (y_pcs y)"
    and p: "length (p_jobs p) = length (p_jobs (y_pool y))" "grows (y_pool y) p"
    and same: "\<And>k. k < length (p_jobs p) \<Longrightarrow> k \<noteq> i \<Longrightarrow>
      p_jobs p ! k = p_jobs (y_pool y) ! k \<and> p_tenant p k = p_tenant (y_pool y) k"
    and i: "i < length (p_jobs p)" "owns (y_pcs y ! a) \<in> {None, Some i}" "owns pc \<in> {None, Some i}"
    and held: "owns (y_pcs y ! a) = Some i \<Longrightarrow> holders y i = [y_pcs y ! a] \<Longrightarrow>
      slot_good p (p_tenant p i) (p_jobs p ! i) (if owns pc = None then [] else [pc])"
    and free: "owns (y_pcs y ! a) = None \<Longrightarrow>
      (if owns pc = None then slot_good p (p_tenant p i) (p_jobs p ! i) (holders y i)
       else holders y i = [] \<and> slot_good p (p_tenant p i) (p_jobs p ! i) [pc])"
  shows "slots_good (y\<lparr>y_pool := p, y_pcs := (y_pcs y)[a := pc]\<rparr>)"
proof -
  let ?y = "y\<lparr>y_pool := p, y_pcs := (y_pcs y)[a := pc]\<rparr>"
  have other: "holders ?y k = holders y k" if "k \<noteq> i" for k
    using i(2,3) that filter_update_out [OF a, of "\<lambda>pc. owns pc = Some k" pc] by (auto simp: holders_def)
  have "slot_good p (p_tenant p k) (p_jobs p ! k) (holders ?y k)" if k: "k < length (p_jobs p)" for k
  proof (cases "k = i")
    case False
    have "slot_good (y_pool y) (p_tenant (y_pool y) k) (p_jobs (y_pool y) ! k) (holders y k)"
      using good k p(1) by (simp add: slots_good_def)
    then show ?thesis using same [OF k False] other [OF False] slot_good_grows [OF p(2)] by simp
  next
    case True
    show ?thesis
    proof (cases "owns (y_pcs y ! a)")
      case None
      then have "holders ?y i = (if owns pc = None then holders y i else if holders y i = [] then [pc] else holders ?y i)"
        using i(3) filter_update_out [OF a, of "\<lambda>pc. owns pc = Some i" pc]
          filter_update_new [OF a, of "\<lambda>pc. owns pc = Some i" pc] by (auto simp: holders_def)
      then show ?thesis using True free [OF None] by (auto split: if_splits)
    next
      case (Some _)
      then have s: "owns (y_pcs y ! a) = Some i" using i(2) by auto
      have "y_pcs y ! a \<in> set (holders y i)" using s a by (simp add: holders_def)
      moreover have "slot_good (y_pool y) (p_tenant (y_pool y) i) (p_jobs (y_pool y) ! i) (holders y i)"
        using good i(1) p(1) by (simp add: slots_good_def)
      ultimately have h: "holders y i = [y_pcs y ! a]"
        by (auto simp: slot_good_def split: cli_job_state.splits)
      have "holders ?y i = (if owns pc = None then [] else [pc])"
        using filter_update_in(2) [OF a, of "\<lambda>pc. owns pc = Some i"] s h i(3) by (auto simp: holders_def)
      then show ?thesis using True held [OF s h] by simp
    qed
  qed
  moreover have "\<forall>q \<in> set (y_pcs ?y). \<forall>k. owns q = Some k \<longrightarrow> k < length (p_jobs p)"
    using good i(1,3) p(1) by (auto simp: slots_good_def dest!: set_update_subset_insert [THEN subsetD])
  ultimately show ?thesis by (simp add: slots_good_def)
qed

lemma slots_good_idle:
  assumes "slots_good y" "a < length (y_pcs y)" "owns (y_pcs y ! a) = None" "owns pc = None"
    "p_jobs p = p_jobs (y_pool y)" "p_tenant p = p_tenant (y_pool y)" "grows (y_pool y) p"
  shows "slots_good (y\<lparr>y_pool := p, y_pcs := (y_pcs y)[a := pc]\<rparr>)"
proof -
  have "holders (y\<lparr>y_pool := p, y_pcs := (y_pcs y)[a := pc]\<rparr>) k = holders y k" for k
    using assms(2-4) filter_update_out [of a "y_pcs y" "\<lambda>pc. owns pc = Some k" pc] by (simp add: holders_def)
  moreover have "\<forall>q \<in> set ((y_pcs y)[a := pc]). q = pc \<or> q \<in> set (y_pcs y)"
    using set_update_subset_insert [of "y_pcs y" a pc] by auto
  ultimately show ?thesis
    using assms slot_good_grows [OF assms(7)] by (fastforce simp: slots_good_def)
qed

lemma slots_good_at:
  "slots_good y \<Longrightarrow> i < length (p_jobs (y_pool y)) \<Longrightarrow>
    slot_good (y_pool y) (p_tenant (y_pool y) i) (p_jobs (y_pool y) ! i) (holders y i)"
  by (simp add: slots_good_def)

lemma slots_good_slot: "slots_good y \<Longrightarrow> a < length (y_pcs y) \<Longrightarrow> owns (y_pcs y ! a) = Some i \<Longrightarrow> i < length (p_jobs (y_pool y))"
  by (auto simp: slots_good_def)

lemma set_job_simps [simp]:
  "length (p_jobs (set_job i f p)) = length (p_jobs p)" "p_tenant (set_job i f p) = p_tenant p"
  "p_log (set_job i f p) = p_log p" "p_next_id (set_job i f p) = p_next_id p"
  "p_undone (set_job i f p) = p_undone p"
  "i < length (p_jobs p) \<Longrightarrow> p_jobs (set_job i f p) ! k = (if k = i then f (p_jobs p ! i) else p_jobs p ! k)"
  by (auto simp: set_job_def nth_list_update)

lemma say_simps [simp]:
  "p_jobs (say n p) = p_jobs p" "p_tenant (say n p) = p_tenant p" "p_log (say n p) = p_log p @ [n]"
  "p_next_id (say n p) = p_next_id p" "p_undone (say n p) = p_undone p"
  by (simp_all add: say_def)

lemma find_free_some:
  "find_free k js = Some i \<Longrightarrow> k \<le> i \<and> i < k + length js \<and> j_state (js ! (i - k)) = CLI_JOB_FREE"
proof (induction k js rule: find_free.induct)
  case (2 k j js)
  then show ?case by (cases "i = k") (auto simp: nth_Cons' split: if_splits)
qed simp

lemmas job_step_defs =
  reap_claim_def reap_unregister_def reap_delete_def reap_notice_def clear_id_def set_free_def
  launch_undo_id_def launch_fill_def launch_reset_def launch_register_def launch_create_def launch_running_def launch_announce_def
  show_line_def show_end_def kill_slot_def worker_unregister_def worker_returns_def worker_terminated_def
  tx_thread_delete_def finished_def

text \<open>A step of the thread that holds slot \<open>i\<close>.\<close>

lemma slots_good_held:
  assumes good: "slots_good y" and a: "a < length (y_pcs y)" and i: "owns (y_pcs y ! a) = Some i" "owns pc \<in> {None, Some i}"
    and p: "length (p_jobs p) = length (p_jobs (y_pool y))" "grows (y_pool y) p"
      "p_tenant p = p_tenant (y_pool y)"
      "\<And>k. i < length (p_jobs (y_pool y)) \<Longrightarrow> p_jobs p ! k = (if k = i then f (p_jobs (y_pool y) ! i) else p_jobs (y_pool y) ! k)"
    and step: "slot_good (y_pool y) (p_tenant (y_pool y) i) (p_jobs (y_pool y) ! i) [y_pcs y ! a] \<Longrightarrow>
      slot_good p (p_tenant (y_pool y) i) (f (p_jobs (y_pool y) ! i)) (if owns pc = None then [] else [pc])"
  shows "slots_good (y\<lparr>y_pool := p, y_pcs := (y_pcs y)[a := pc]\<rparr>)"
proof -
  have l: "i < length (p_jobs (y_pool y))" using slots_good_slot [OF good a i(1)] .
  show ?thesis
    by (rule slots_good_act [where i = i, OF good a])
      (use i p l step slots_good_at [OF good l] in \<open>simp_all split: if_splits\<close>)
qed

text \<open>A step of a thread that holds no slot, on slot \<open>i\<close>, and of a worker.\<close>

lemma slots_good_free:
  assumes good: "slots_good y" and a: "a < length (y_pcs y)" and i: "owns (y_pcs y ! a) = None" "owns pc = None"
    and p: "grows (y_pool y) p" "p_tenant p = p_tenant (y_pool y)"
      "p_jobs p = (p_jobs (y_pool y))[i := f (p_jobs (y_pool y) ! i)]"
    and step: "\<And>us. slot_good (y_pool y) (p_tenant (y_pool y) i) (p_jobs (y_pool y) ! i) us \<Longrightarrow>
      slot_good p (p_tenant (y_pool y) i) (f (p_jobs (y_pool y) ! i)) us"
  shows "slots_good (y\<lparr>y_pool := p, y_pcs := (y_pcs y)[a := pc]\<rparr>)"
proof (cases "i < length (p_jobs (y_pool y))")
  case True
  show ?thesis
    by (rule slots_good_act [where i = i, OF good a])
      (use i p True step slots_good_at [OF good True] in \<open>simp_all\<close>)
next
  case False
  then show ?thesis using i p by (intro slots_good_idle [OF good a]) (simp_all add: list_update_beyond)
qed

lemma slots_good_worker:
  assumes good: "slots_good y" and i: "i < length (p_jobs (y_pool y))"
    and step: "\<And>us. slot_good (y_pool y) (p_tenant (y_pool y) i) (p_jobs (y_pool y) ! i) us \<Longrightarrow>
      slot_good (y_pool y) (p_tenant (y_pool y) i) (f (p_jobs (y_pool y) ! i)) us"
  shows "slots_good (y\<lparr>y_pool := set_job i f (y_pool y)\<rparr>)"
proof -
  have "slot_good (set_job i f (y_pool y)) t j us" if "slot_good (y_pool y) t j us" for t j us
    by (rule slot_good_grows [OF _ that]) simp
  then show ?thesis using good step i by (auto simp: slots_good_def holders_def)
qed

lemma late_clear:
  "launching_ok p t j pc \<Longrightarrow> p_undone p' \<Longrightarrow> launching_ok p' t (j\<lparr>j_id := 0\<rparr>) pc"
  "reaping_ok j pc \<Longrightarrow> reaping_ok (j\<lparr>j_id := 0\<rparr>) pc"
  by (cases pc; auto simp: named_def cancelled_def finished_def)+

lemma slot_good_late:
  assumes "slot_good p t j us" "grows p p'" "p_undone p'"
  shows "slot_good p' t (j\<lparr>j_id := 0\<rparr>) us"
proof (cases "j_state j")
  case CLI_JOB_LAUNCHING
  then show ?thesis using assms late_clear(1) [OF _ assms(3)] by (fastforce simp: slot_good_def)
next
  case CLI_JOB_REAPING
  then show ?thesis using assms late_clear(2) by (fastforce simp: slot_good_def)
qed (use assms in \<open>auto simp: slot_good_def named_def cancelled_def killed_def grows_def\<close>)

lemmas slot_cases = slot_good_def named_def cancelled_def killed_def grows_def

lemma acts_slots_good:
  assumes "acts p pc p' pc'" and y: "slots_good y" "a < length (y_pcs y)" "y_pool y = p" "y_pcs y ! a = pc"
  shows "slots_good (y\<lparr>y_pool := p', y_pcs := (y_pcs y)[a := pc']\<rparr>)"
  using assms(1)
proof cases
  case (reap_take i w)
  have g: "slot_good p (p_tenant p i) (p_jobs p ! i) (holders y i)"
    using slots_good_at [OF y(1)] reap_take y(3) by simp
  show ?thesis
    by (rule slots_good_act [where i = i, OF y(1,2)])
      (use reap_take y g in \<open>auto simp: reap_claim_def Let_def slot_cases finished_def split: if_splits\<close>)
next
  case (claim_slot i jid seg)
  have ff: "find_free 0 (p_jobs p) = Some i" using claim_slot by (auto simp: launch_claim_def split: option.splits)
  then have i: "i < length (p_jobs p)" "j_state (p_jobs p ! i) = CLI_JOB_FREE" using find_free_some [OF ff] by auto
  have g: "slot_good p (p_tenant p i) (p_jobs p ! i) (holders y i)"
    using slots_good_at [OF y(1)] i y(3) by simp
  show ?thesis
    by (rule slots_good_act [where i = i, OF y(1,2)])
      (use claim_slot y g i ff in \<open>auto simp: launch_claim_def slot_cases\<close>)
next
  case (reap_skip i w)
  then have "p' = p" by (auto simp: reap_claim_def Let_def split: if_splits)
  then show ?thesis using reap_skip y by (intro slots_good_idle [OF y(1,2)]) auto
next
  case (reap_end i w)
  then have "owns pc' = None" by (cases w) auto
  then show ?thesis using reap_end y by (intro slots_good_idle [OF y(1,2)]) auto
next
  case (claim_full jid seg)
  then have "\<exists>q. p' = say N_full q \<and> q = p" by (auto simp: launch_claim_def split: option.splits)
  then show ?thesis using claim_full y by (intro slots_good_idle [OF y(1,2)]) auto
next
  case (kill_miss i jid)
  then have "p' = p" by (auto simp: kill_slot_def Let_def split: if_splits)
  then show ?thesis using kill_miss y by (intro slots_good_idle [OF y(1,2)]) auto
next
  case (kill_hit i jid)
  then have k: "p' = say (N_killed jid) (set_job i cli_job_cancel p)" "j_state (p_jobs p ! i) = CLI_JOB_RUNNING"
    "j_id (p_jobs p ! i) = jid"
    by (auto simp: kill_slot_def Let_def split: if_splits)
  show ?thesis
    by (rule slots_good_free [where i = i and f = cli_job_cancel, OF y(1,2)])
      (use kill_hit k y in \<open>auto simp: slot_cases cli_job_cancel_def set_job_def\<close>)
next
  case (undo_id i n)
  show ?thesis
    by (rule slots_good_free [where i = i and f = "\<lambda>j. j\<lparr>j_id := 0\<rparr>", OF y(1,2)])
      (use undo_id y slot_good_late [of p _ _ _ p'] in
        \<open>simp_all add: grows_def launch_undo_id_def clear_id_def set_job_def\<close>)
next
  case (reap_unreg i w)
  show ?thesis
    by (rule slots_good_held [where i = i and f = "worker_unregister", OF y(1,2)])
      (use reap_unreg y in \<open>auto simp: job_step_defs slot_cases split: cli_job_state.splits\<close>)
next
  case (reap_del i w)
  show ?thesis
    by (rule slots_good_held [where i = i and f = "tx_thread_delete", OF y(1,2)])
      (use reap_del y in \<open>auto simp: job_step_defs slot_cases split: cli_job_state.splits\<close>)
next
  case (fills i jid seg)
  show ?thesis
    by (rule slots_good_held [where i = i and f = "\<lambda>j. j\<lparr>j_id := jid, j_label := strncpy (CLI_JOB_LABEL_MAX - 1) seg @ [0]\<rparr>", OF y(1,2)])
      (use fills y in \<open>auto simp: job_step_defs slot_cases split: cli_job_state.splits\<close>)
next
  case (reap_says i w)
  show ?thesis
    by (rule slots_good_held [where i = i and f = "\<lambda>j. j", OF y(1,2)])
      (use reap_says y in \<open>auto simp: job_step_defs slot_cases split: cli_job_state.splits\<close>)
next
  case (reap_clear i w)
  show ?thesis
    by (rule slots_good_held [where i = i and f = "\<lambda>j. j\<lparr>j_id := 0\<rparr>", OF y(1,2)])
      (use reap_clear y in \<open>auto simp: job_step_defs slot_cases split: cli_job_state.splits\<close>)
next
  case (reap_free i w)
  show ?thesis
    by (rule slots_good_held [where i = i and f = "\<lambda>j. j\<lparr>j_state := CLI_JOB_FREE\<rparr>", OF y(1,2)])
      (use reap_free y in \<open>auto simp: job_step_defs slot_cases split: cli_job_state.splits\<close>)
next
  case (resets i seg)
  show ?thesis
    by (rule slots_good_held [where i = i and f = "\<lambda>j. j\<lparr>j_inst := cli_job_inst_reset seg (j_inst j), j_events := 0\<rparr>", OF y(1,2)])
      (use resets y in \<open>auto simp: job_step_defs slot_cases cli_job_inst_reset_def split: cli_job_state.splits\<close>)
next
  case (register_ok i)
  show ?thesis
    by (rule slots_good_held [where i = i and f = "\<lambda>j. j\<lparr>j_thread := (j_thread j)\<lparr>t_registered := True\<rparr>\<rparr>", OF y(1,2)])
      (use register_ok y in \<open>auto simp: job_step_defs slot_cases split: cli_job_state.splits\<close>)
next
  case (register_no rc i)
  show ?thesis
    by (rule slots_good_held [where i = i and f = "\<lambda>j. j", OF y(1,2)])
      (use register_no y in \<open>auto simp: job_step_defs slot_cases split: cli_job_state.splits\<close>)
next
  case (create_ok i)
  show ?thesis
    by (rule slots_good_held [where i = i and f = "\<lambda>j. j\<lparr>j_thread := (j_thread j)\<lparr>t_created := True, t_state := TX_READY\<rparr>\<rparr>", OF y(1,2)])
      (use create_ok y in \<open>auto simp: job_step_defs slot_cases split: cli_job_state.splits\<close>)
next
  case (create_no i)
  show ?thesis
    by (rule slots_good_held [where i = i and f = "\<lambda>j. j", OF y(1,2)])
      (use create_no y in \<open>auto simp: job_step_defs slot_cases split: cli_job_state.splits\<close>)
next
  case (drop_reg i)
  show ?thesis
    by (rule slots_good_held [where i = i and f = "worker_unregister", OF y(1,2)])
      (use drop_reg y in \<open>auto simp: job_step_defs slot_cases split: cli_job_state.splits\<close>)
next
  case (undo_free i n)
  show ?thesis
    by (rule slots_good_held [where i = i and f = "\<lambda>j. j\<lparr>j_state := CLI_JOB_FREE\<rparr>", OF y(1,2)])
      (use undo_free y in \<open>auto simp: job_step_defs slot_cases split: cli_job_state.splits\<close>)
next
  case (starts i)
  show ?thesis
    by (rule slots_good_held [where i = i and f = "\<lambda>j. j\<lparr>j_state := CLI_JOB_RUNNING\<rparr>", OF y(1,2)])
      (use starts y in \<open>auto simp: job_step_defs slot_cases split: cli_job_state.splits\<close>)
qed (rule slots_good_idle [OF y(1,2)]; use y in \<open>auto simp: launch_announce_def show_line_def show_end_def\<close>)+

lemma moves_slots_good: "job_moves y z \<Longrightarrow> slots_good y \<Longrightarrow> slots_good z"
proof (induction rule: job_moves.induct)
  case (thread_acts a y p pc)
  then show ?case by (intro acts_slots_good) auto
next
  case (worker_leaves i y)
  show ?case
    by (rule slots_good_worker [OF worker_leaves(4,1)])
      (use worker_leaves in \<open>auto simp: slot_cases worker_unregister_def finished_def elim!: launching_ok.elims(2) reaping_ok.elims(2) split: cli_job_state.splits\<close>)
next
  case (worker_done i y)
  show ?case
    by (rule slots_good_worker [OF worker_done(4,1)])
      (use worker_done in \<open>auto simp: slot_cases worker_returns_def finished_def elim!: launching_ok.elims(2) reaping_ok.elims(2) split: cli_job_state.splits\<close>)
next
  case (worker_killed i y)
  show ?case
    by (rule slots_good_worker [OF worker_killed(4,1)])
      (use worker_killed in \<open>auto simp: slot_cases worker_terminated_def finished_def elim!: launching_ok.elims(2) reaping_ok.elims(2) split: cli_job_state.splits\<close>)
qed

section \<open>Ids are not shared\<close>

definition tenants_good :: "nat \<Rightarrow> job_pool \<Rightarrow> bool" where
  "tenants_good n p \<longleftrightarrow> 0 < unat (p_next_id p) \<and> unat (p_next_id p) \<le> n + 1 \<and>
    (\<forall>i < length (p_jobs p). j_state (p_jobs p ! i) \<noteq> CLI_JOB_FREE \<longrightarrow>
       0 < unat (p_tenant p i) \<and> unat (p_tenant p i) < unat (p_next_id p) \<and>
       (\<forall>k < length (p_jobs p). k \<noteq> i \<and> j_state (p_jobs p ! k) \<noteq> CLI_JOB_FREE \<longrightarrow> p_tenant p k \<noteq> p_tenant p i))"

lemma tenants_same:
  assumes "tenants_good n p" "p_next_id p' = p_next_id p" "p_tenant p' = p_tenant p" "length (p_jobs p') = length (p_jobs p)"
    "\<And>k. k < length (p_jobs p) \<Longrightarrow> j_state (p_jobs p ! k) = CLI_JOB_FREE \<Longrightarrow> j_state (p_jobs p' ! k) = CLI_JOB_FREE"
  shows "tenants_good (Suc n) p'"
  using assms unfolding tenants_good_def by (metis le_SucI add_Suc)

lemma late_clear_state: "j_state (js[i := (js ! i)\<lparr>j_id := 0\<rparr>] ! k) = j_state (js ! k)"
  by (cases "i < length js"; cases "k = i") (auto simp: list_update_beyond)

lemma acts_free_stays:
  assumes "acts p pc p' pc'" "\<And>seg. pc \<noteq> Claim seg" "\<And>i. owns pc = Some i \<Longrightarrow> i < length (p_jobs p) \<and> j_state (p_jobs p ! i) \<noteq> CLI_JOB_FREE"
  shows "p_next_id p' = p_next_id p \<and> p_tenant p' = p_tenant p \<and> length (p_jobs p') = length (p_jobs p) \<and>
    (\<forall>k < length (p_jobs p). j_state (p_jobs p ! k) = CLI_JOB_FREE \<longrightarrow> j_state (p_jobs p' ! k) = CLI_JOB_FREE)"
  using assms
  by cases (auto simp: job_step_defs late_clear_state Let_def set_job_def cli_job_cancel_def nth_list_update split: if_splits)

lemma held_not_free:
  assumes "slots_good y" "a < length (y_pcs y)" "owns (y_pcs y ! a) = Some i"
  shows "i < length (p_jobs (y_pool y)) \<and> j_state (p_jobs (y_pool y) ! i) \<noteq> CLI_JOB_FREE"
proof -
  have i: "i < length (p_jobs (y_pool y))" using slots_good_slot [OF assms] .
  have "y_pcs y ! a \<in> set (holders y i)" using assms(2,3) by (simp add: holders_def)
  then show ?thesis using slots_good_at [OF assms(1) i] i by (auto simp: slot_good_def)
qed

lemma claim_tenants:
  assumes t: "tenants_good n p" and c: "launch_claim p = ((Some i, jid), p')" and n: "n + 2 < 4294967296"
  shows "tenants_good (Suc n) p'"
proof -
  have ff: "find_free 0 (p_jobs p) = Some i"
    and p': "p' = (set_job i (\<lambda>j. j\<lparr>j_state := CLI_JOB_LAUNCHING\<rparr>) p)
      \<lparr>p_next_id := p_next_id p + 1, p_tenant := (p_tenant p)(i := p_next_id p)\<rparr>"
    using c by (auto simp: launch_claim_def split: option.splits)
  then have i: "i < length (p_jobs p)" "j_state (p_jobs p ! i) = CLI_JOB_FREE" using find_free_some [OF ff] by auto
  have nx: "unat (p_next_id p + 1) = unat (p_next_id p) + 1"
    using t n by (simp add: tenants_good_def unat_add_lem [THEN iffD1])
  have neq: "p_tenant p k \<noteq> p_next_id p" if "k < length (p_jobs p)" "j_state (p_jobs p ! k) \<noteq> CLI_JOB_FREE" for k
    using t that unfolding tenants_good_def by (metis less_irrefl)
  show ?thesis
    using t i nx neq unfolding tenants_good_def p' by (auto simp: set_job_def nth_list_update)
qed

lemma moves_tenants:
  assumes "job_moves y z" "slots_good y" "tenants_good n (y_pool y)" "n + 2 < 4294967296"
  shows "tenants_good (Suc n) (y_pool z)"
  using assms
proof (induction rule: job_moves.induct)
  case (thread_acts a y p pc)
  note held = held_not_free [OF thread_acts.prems(1) thread_acts.hyps(1)]
  show ?case
  proof (cases "\<exists>seg. y_pcs y ! a = Claim seg")
    case False
    then have "p_next_id p = p_next_id (y_pool y) \<and> p_tenant p = p_tenant (y_pool y) \<and>
        length (p_jobs p) = length (p_jobs (y_pool y)) \<and>
        (\<forall>k < length (p_jobs (y_pool y)). j_state (p_jobs (y_pool y) ! k) = CLI_JOB_FREE \<longrightarrow> j_state (p_jobs p ! k) = CLI_JOB_FREE)"
      using held by (intro acts_free_stays [OF thread_acts.hyps(2)]) auto
    then show ?thesis using tenants_same [OF thread_acts.prems(2), of p] by simp
  next
    case True
    then obtain seg where seg: "y_pcs y ! a = Claim seg" by blast
    from thread_acts.hyps(2) show ?thesis unfolding seg
    proof cases
      case (claim_full jid p1)
      then have "p1 = y_pool y" by (auto simp: launch_claim_def split: option.splits)
      then show ?thesis using claim_full tenants_same [OF thread_acts.prems(2), of p] by simp
    next
      case (claim_slot i jid)
      then show ?thesis using claim_tenants [OF thread_acts.prems(2) _ thread_acts.prems(3)] by simp
    qed
  qed
next
  case (worker_leaves i y)
  then show ?case by (intro tenants_same [OF worker_leaves.prems(2)]) (auto simp: worker_unregister_def)
next
  case (worker_done i y)
  then show ?case by (intro tenants_same [OF worker_done.prems(2)]) (auto simp: worker_returns_def)
next
  case (worker_killed i y)
  then show ?case by (intro tenants_same [OF worker_killed.prems(2)]) (auto simp: worker_terminated_def)
qed

section \<open>Every run\<close>

text \<open>The pool after its init, with no worker thread created, and any number of threads outside it.\<close>

definition pool_start :: "job_system \<Rightarrow> bool" where
  "pool_start y \<longleftrightarrow> (\<exists>ok p. y_pool y = cli_job_pool_init ok p \<and> p_next_id p = 1 \<and> \<not> p_undone p \<and>
     (\<forall>j \<in> set (p_jobs p). \<not> t_created (j_thread j))) \<and> (\<forall>pc \<in> set (y_pcs y). pc = Away)"

lemma start_good: "pool_start y \<Longrightarrow> slots_good y \<and> tenants_good 0 (y_pool y)"
proof -
  assume y: "pool_start y"
  then have "owns pc = None" if "pc \<in> set (y_pcs y)" for pc using that by (auto simp: pool_start_def)
  then have "holders y i = []" "\<forall>pc \<in> set (y_pcs y). owns pc = None" for i
    by (auto simp: holders_def filter_empty_conv)
  with y show ?thesis
    by (auto simp: pool_start_def slots_good_def tenants_good_def cli_job_pool_init_def slot_good_def)
qed

lemma job_run_good:
  "job_run x n y \<Longrightarrow> slots_good x \<and> tenants_good 0 (y_pool x) \<Longrightarrow> n + 1 < 4294967296 \<Longrightarrow>
    slots_good y \<and> tenants_good n (y_pool y)"
proof (induction rule: job_run.induct)
  case (run_step x n y z)
  then show ?case using moves_slots_good moves_tenants by simp
qed simp

lemma holder_alone:
  assumes "slots_good y" "a < length (y_pcs y)" "b < length (y_pcs y)" "owns (y_pcs y ! a) = Some i" "owns (y_pcs y ! b) = Some i"
  shows "a = b"
proof (rule ccontr)
  assume "a \<noteq> b"
  have i: "i < length (p_jobs (y_pool y))" using slots_good_slot [OF assms(1,2,4)] .
  have "y_pcs y ! a \<in> set (holders y i)" using assms by (simp add: holders_def)
  then obtain z where z: "holders y i = [z]"
    using slots_good_at [OF assms(1) i] by (auto simp: slot_good_def split: cli_job_state.splits)
  have "holders (y\<lparr>y_pcs := (y_pcs y)[a := Away]\<rparr>) i = []"
    using filter_update_in(2) [of a "y_pcs y" "\<lambda>pc. owns pc = Some i" z Away] assms z by (simp add: holders_def)
  moreover have "y_pcs y ! b \<in> set ((y_pcs y)[a := Away])"
    using \<open>a \<noteq> b\<close> assms(3) by (metis length_list_update nth_list_update_neq nth_mem)
  ultimately show False using assms(5) by (auto simp: holders_def filter_empty_conv)
qed

lemma holder_fact:
  assumes "slots_good y" "pc \<in> set (y_pcs y)" "owns pc = Some i"
  shows "launching_ok (y_pool y) (p_tenant (y_pool y) i) (p_jobs (y_pool y) ! i) pc \<or> reaping_ok (p_jobs (y_pool y) ! i) pc"
proof -
  have i: "i < length (p_jobs (y_pool y))" using assms by (auto simp: slots_good_def)
  have "pc \<in> set (holders y i)" using assms by (simp add: holders_def)
  then show ?thesis using slots_good_at [OF assms(1) i] by (auto simp: slot_good_def split: cli_job_state.splits)
qed

lemma slot_state:
  assumes "slots_good y" "i < length (p_jobs (y_pool y))"
  shows "j_state (p_jobs (y_pool y) ! i) = CLI_JOB_FREE \<Longrightarrow> \<not> t_created (j_thread (p_jobs (y_pool y) ! i))"
    "j_state (p_jobs (y_pool y) ! i) = CLI_JOB_RUNNING \<Longrightarrow> t_created (j_thread (p_jobs (y_pool y) ! i)) \<and>
      named (y_pool y) (p_tenant (y_pool y) i) (p_jobs (y_pool y) ! i) \<and>
      (cancelled (p_jobs (y_pool y) ! i) \<longrightarrow> killed (y_pool y) (p_tenant (y_pool y) i))"
  using slots_good_at [OF assms] by (simp_all add: slot_good_def)

section \<open>What one thread may do to a slot it does not own\<close>

text \<open>
  From the outside a slot is taken while it is free or its worker has finished, its running worker
  is asked to stop by a kill that names its id, or a failed launch clears its id; nothing else of it
  changes.
\<close>

definition foreign_change :: "job_pc \<Rightarrow> job_pc \<Rightarrow> nat \<Rightarrow> cli_job \<Rightarrow> cli_job \<Rightarrow> bool" where
  "foreign_change pc pc' i j j' \<longleftrightarrow>
    j' = j \<or>
    j_state j = CLI_JOB_FREE \<and> owns pc' = Some i \<and> j' = j\<lparr>j_state := CLI_JOB_LAUNCHING\<rparr> \<or>
    j_state j = CLI_JOB_RUNNING \<and> finished j \<and> owns pc' = Some i \<and> j' = j\<lparr>j_state := CLI_JOB_REAPING\<rparr> \<or>
    j_state j = CLI_JOB_RUNNING \<and> pc = Kill i (j_id j) \<and> j' = cli_job_cancel j \<or>
    (\<exists>rc. pc = Undo_id i rc) \<and> j' = j\<lparr>j_id := 0\<rparr>"

lemma acts_foreign:
  assumes "acts p pc p' pc'" "owns pc \<noteq> Some i" "i < length (p_jobs p)"
  shows "foreign_change pc pc' i (p_jobs p ! i) (p_jobs p' ! i)"
  using assms(1)
proof cases
  case (claim_slot k jid seg)
  then have ff: "find_free 0 (p_jobs p) = Some k" by (auto simp: launch_claim_def split: option.splits)
  then show ?thesis
    using claim_slot find_free_some [OF ff]
    by (cases "k = i") (auto simp: launch_claim_def foreign_change_def set_job_def)
next
  case (undo_id k n)
  then show ?thesis
    using assms(3) by (cases "k = i") (auto simp: foreign_change_def job_step_defs set_job_def)
qed (use assms(2,3) in \<open>auto simp: foreign_change_def job_step_defs launch_claim_def set_job_def nth_list_update Let_def
  split: if_splits option.splits\<close>)

text \<open>A late clear is followed by the error line of its launch.\<close>

definition undone_said :: "job_system \<Rightarrow> bool" where
  "undone_said y \<longleftrightarrow> (p_undone (y_pool y) \<longrightarrow>
    (\<exists>rc. launch_error rc \<in> set (p_log (y_pool y)) \<or> Undo_say rc \<in> set (y_pcs y)))"

lemma acts_said:
  assumes "acts p pc p' pc'"
  shows "set (p_log p) \<subseteq> set (p_log p')" "p_undone p' \<Longrightarrow> p_undone p \<or> (\<exists>rc. pc' = Undo_say rc)"
    "pc = Undo_say rc \<Longrightarrow> launch_error rc \<in> set (p_log p')"
  using assms by (cases; auto simp: job_step_defs launch_claim_def Let_def split: if_splits option.splits)+

lemma moves_said: "job_moves y z \<Longrightarrow> undone_said y \<Longrightarrow> undone_said z"
proof (induction rule: job_moves.induct)
  case (thread_acts a y p pc)
  note s = acts_said [OF thread_acts.hyps(2)]
  have stay: "q \<in> set ((y_pcs y)[a := pc]) \<or> q = y_pcs y ! a" if "q \<in> set (y_pcs y)" for q
    using that by (metis in_set_conv_nth length_list_update nth_list_update_neq)
  have new: "pc \<in> set ((y_pcs y)[a := pc])" using thread_acts.hyps(1) by (rule set_update_memI)
  show ?case
    using thread_acts.prems s stay new unfolding undone_said_def by (simp) (metis subsetD)
qed (simp_all add: undone_said_def)

lemma run_said: "job_run x n y \<Longrightarrow> undone_said x \<Longrightarrow> undone_said y"
  by (induction rule: job_run.induct) (auto intro: moves_said)

section \<open>What holds of every slot\<close>

lemma running_tenant:
  assumes "tenants_good n p" "i < length (p_jobs p)" "j_state (p_jobs p ! i) = CLI_JOB_RUNNING"
  shows "p_tenant p i \<noteq> 0"
    "k < length (p_jobs p) \<Longrightarrow> k \<noteq> i \<Longrightarrow> j_state (p_jobs p ! k) \<noteq> CLI_JOB_FREE \<Longrightarrow> p_tenant p k \<noteq> p_tenant p i"
  using assms by (auto simp: tenants_good_def)

lemma running_id:
  assumes "slots_good y" "i < length (p_jobs (y_pool y))" "j_state (p_jobs (y_pool y) ! i) = CLI_JOB_RUNNING"
  shows "j_id (p_jobs (y_pool y) ! i) = p_tenant (y_pool y) i \<or>
    j_id (p_jobs (y_pool y) ! i) = 0 \<and> p_undone (y_pool y)"
  using slot_state(2) [OF assms] by (simp add: named_def)

lemma slot_facts:
  assumes "slots_good y" "tenants_good n (y_pool y)" "i < length (p_jobs (y_pool y))"
  shows "(j_state (p_jobs (y_pool y) ! i) = CLI_JOB_FREE \<longrightarrow> \<not> t_created (j_thread (p_jobs (y_pool y) ! i))) \<and>
    (j_state (p_jobs (y_pool y) ! i) = CLI_JOB_RUNNING \<longrightarrow>
      t_created (j_thread (p_jobs (y_pool y) ! i)) \<and> p_tenant (y_pool y) i \<noteq> 0 \<and>
      (j_id (p_jobs (y_pool y) ! i) = p_tenant (y_pool y) i \<or>
       j_id (p_jobs (y_pool y) ! i) = 0 \<and> p_undone (y_pool y)) \<and>
      (cancelled (p_jobs (y_pool y) ! i) \<longrightarrow> killed (y_pool y) (p_tenant (y_pool y) i)) \<and>
      (\<forall>k < length (p_jobs (y_pool y)). k \<noteq> i \<and> j_state (p_jobs (y_pool y) ! k) \<noteq> CLI_JOB_FREE \<longrightarrow>
        p_tenant (y_pool y) k \<noteq> p_tenant (y_pool y) i))"
proof (intro conjI impI allI)
  assume run: "j_state (p_jobs (y_pool y) ! i) = CLI_JOB_RUNNING"
  note st = slot_state(2) [OF assms(1,3) run]
  show "t_created (j_thread (p_jobs (y_pool y) ! i))" using st by (rule conjunct1)
  show "p_tenant (y_pool y) i \<noteq> 0" by (rule running_tenant(1) [OF assms(2,3) run])
  show "j_id (p_jobs (y_pool y) ! i) = p_tenant (y_pool y) i \<or> j_id (p_jobs (y_pool y) ! i) = 0 \<and> p_undone (y_pool y)"
    by (rule running_id [OF assms(1,3) run])
  show "killed (y_pool y) (p_tenant (y_pool y) i)" if "cancelled (p_jobs (y_pool y) ! i)"
    using st that by (elim conjE impE)
  show "p_tenant (y_pool y) k \<noteq> p_tenant (y_pool y) i"
    if "k < length (p_jobs (y_pool y))" "k \<noteq> i \<and> j_state (p_jobs (y_pool y) ! k) \<noteq> CLI_JOB_FREE" for k
    by (rule running_tenant(2) [OF assms(2,3) run that(1) conjunct1 [OF that(2)] conjunct2 [OF that(2)]])
qed (rule slot_state(1) [OF assms(1,3)])

lemma running_ids_differ:
  assumes "slots_good y" "tenants_good n (y_pool y)" "\<not> p_undone (y_pool y)" "i \<noteq> k"
    and i: "i < length (p_jobs (y_pool y))" "j_state (p_jobs (y_pool y) ! i) = CLI_JOB_RUNNING"
    and k: "k < length (p_jobs (y_pool y))" "j_state (p_jobs (y_pool y) ! k) = CLI_JOB_RUNNING"
  shows "j_id (p_jobs (y_pool y) ! i) \<noteq> 0 \<and> j_id (p_jobs (y_pool y) ! i) \<noteq> j_id (p_jobs (y_pool y) ! k)"
proof -
  have "j_id (p_jobs (y_pool y) ! i) = p_tenant (y_pool y) i" "j_id (p_jobs (y_pool y) ! k) = p_tenant (y_pool y) k"
    using running_id [OF assms(1) i] running_id [OF assms(1) k] assms(3) by blast+
  moreover have "p_tenant (y_pool y) k \<noteq> p_tenant (y_pool y) i"
    by (rule running_tenant(2) [OF assms(2) i k(1) assms(4) [symmetric]]) (simp add: k(2))
  ultimately show ?thesis using running_tenant(1) [OF assms(2) i] by simp
qed

lemma owner_alone:
  assumes "slots_good y" "a < length (y_pcs y)" "b < length (y_pcs y)" "a \<noteq> b"
    "slot_of (y_pcs y ! a) = Some i" "slot_of (y_pcs y ! b) = Some i"
  shows "owns (y_pcs y ! a) = None \<or> owns (y_pcs y ! b) = None"
  using holder_alone [OF assms(1-3)] assms(4-6) by (auto simp: slot_of_def split: option.splits)

text \<open>C12. Whatever shells and workers do at once: a slot has at most one owner, and from outside it
  only four things happen to it: it is taken while free or while its worker has finished, a kill of
  its id asks its running worker to stop, or a launch that failed clears its id after it gave the slot
  back. A thread is deleted only when it exists and has finished, and created only in a slot whose
  last thread is gone, registered and with neither a cancel request nor an event of an earlier
  tenant. A free slot has no thread and a running slot has one, launched under an id that no other
  slot in use was launched under; it still answers to that id unless a failed launch cleared it, and
  that launch has reported its error or is about to; as long as none did, running slots have distinct
  ids other than 0. A running worker was asked to stop only by a kill that named it. (Ids do not wrap
  in fewer than \<open>2 ^ 32 - 1\<close> steps.)\<close>

theorem cli_job_pool_safe:
  assumes "pool_start x" "job_run x n y" "n + 1 < 2 ^ 32"
  shows "(\<forall>a < length (y_pcs y). \<forall>b < length (y_pcs y). \<forall>i. a \<noteq> b \<and>
      slot_of (y_pcs y ! a) = Some i \<and> slot_of (y_pcs y ! b) = Some i \<longrightarrow>
      owns (y_pcs y ! a) = None \<or> owns (y_pcs y ! b) = None) \<and>
    (\<forall>a < length (y_pcs y). \<forall>p pc i. acts (y_pool y) (y_pcs y ! a) p pc \<and> i < length (p_jobs (y_pool y)) \<and>
      owns (y_pcs y ! a) \<noteq> Some i \<longrightarrow> foreign_change (y_pcs y ! a) pc i (p_jobs (y_pool y) ! i) (p_jobs p ! i)) \<and>
    (\<forall>i w. Delete i w \<in> set (y_pcs y) \<longrightarrow>
      t_created (j_thread (p_jobs (y_pool y) ! i)) \<and> finished (p_jobs (y_pool y) ! i)) \<and>
    (\<forall>i. Create i \<in> set (y_pcs y) \<longrightarrow> \<not> t_created (j_thread (p_jobs (y_pool y) ! i)) \<and>
      t_registered (j_thread (p_jobs (y_pool y) ! i)) \<and> \<not> cancelled (p_jobs (y_pool y) ! i)) \<and>
    (\<forall>i < length (p_jobs (y_pool y)). let j = p_jobs (y_pool y) ! i; t = p_tenant (y_pool y) i in
      (j_state j = CLI_JOB_FREE \<longrightarrow> \<not> t_created (j_thread j)) \<and>
      (j_state j = CLI_JOB_RUNNING \<longrightarrow> t_created (j_thread j) \<and> t \<noteq> 0 \<and>
         (j_id j = t \<or> j_id j = 0 \<and> p_undone (y_pool y)) \<and>
         (cancelled j \<longrightarrow> killed (y_pool y) t) \<and>
         (\<forall>k < length (p_jobs (y_pool y)). k \<noteq> i \<and> j_state (p_jobs (y_pool y) ! k) \<noteq> CLI_JOB_FREE \<longrightarrow>
            p_tenant (y_pool y) k \<noteq> t))) \<and>
    (p_undone (y_pool y) \<longrightarrow>
      (\<exists>rc. launch_error rc \<in> set (p_log (y_pool y)) \<or> Undo_say rc \<in> set (y_pcs y))) \<and>
    (\<not> p_undone (y_pool y) \<longrightarrow>
      (\<forall>i < length (p_jobs (y_pool y)). \<forall>k < length (p_jobs (y_pool y)). i \<noteq> k \<and>
        j_state (p_jobs (y_pool y) ! i) = CLI_JOB_RUNNING \<and> j_state (p_jobs (y_pool y) ! k) = CLI_JOB_RUNNING \<longrightarrow>
        j_id (p_jobs (y_pool y) ! i) \<noteq> 0 \<and> j_id (p_jobs (y_pool y) ! i) \<noteq> j_id (p_jobs (y_pool y) ! k)))"
proof -
  have good: "slots_good y" "tenants_good n (y_pool y)"
    using job_run_good [OF assms(2) start_good [OF assms(1)]] assms(3) by auto
  have "undone_said x" using assms(1) by (auto simp: pool_start_def undone_said_def cli_job_pool_init_def)
  then have said: "undone_said y" by (rule run_said [OF assms(2)])
  show ?thesis
    apply (intro conjI)
    subgoal by (intro allI impI, elim conjE, rule owner_alone [OF good(1)])
    subgoal by (intro allI impI, elim conjE, rule acts_foreign)
    subgoal using holder_fact [OF good(1), of "Delete _ _"] by simp
    subgoal using holder_fact [OF good(1), of "Create _"] by simp
    subgoal unfolding Let_def by (intro allI impI, rule slot_facts [OF good])
    subgoal using said by (simp add: undone_said_def)
    subgoal by (intro allI impI, elim conjE, intro conjI; use running_ids_differ [OF good] in blast)
    done
qed

section \<open>A run\<close>

definition sample_job :: cli_job where
  "sample_job = \<lparr>j_state = CLI_JOB_FREE, j_id = 0, j_evt_ok = True, j_label = replicate 40 0, j_inst = fresh_instance,
    j_events = 0, j_thread = \<lparr>t_created = False, t_state = TX_COMPLETED, t_registered = False\<rparr>\<rparr>"

definition sample_pool :: job_pool where
  "sample_pool = \<lparr>p_jobs = [sample_job], p_next_id = 1, p_log = [], p_tenant = (\<lambda>_. 0), p_undone = False\<rparr>"

definition sample_start :: job_system where
  "sample_start = \<lparr>y_pool = sample_pool, y_pcs = [Away, Away]\<rparr>"

lemma sample_start_ok: "pool_start sample_start"
  unfolding pool_start_def
  by (intro conjI exI [of _ "\<lambda>_. True"] exI [of _ sample_pool])
    (simp_all add: sample_start_def sample_pool_def sample_job_def cli_job_pool_init_def)

lemma thread_goes:
  "job_run x n \<lparr>y_pool = p, y_pcs = pcs\<rparr> \<Longrightarrow> a < length pcs \<Longrightarrow> acts p (pcs ! a) p' pc \<Longrightarrow>
    job_run x (Suc n) \<lparr>y_pool = p', y_pcs = pcs[a := pc]\<rparr>"
  using run_step [OF _ thread_acts [of a "\<lparr>y_pool = p, y_pcs = pcs\<rparr>" p' pc]] by simp

definition late1 :: job_pool where "late1 = snd (launch_claim sample_pool)"
definition late2 :: job_pool where "late2 = launch_fill 0 1 [97] late1"
definition late3 :: job_pool where "late3 = launch_reset 0 [97] late2"
definition late4 :: job_pool where "late4 = set_free 0 late3"
definition late5 :: job_pool where "late5 = snd (launch_claim late4)"
definition late6 :: job_pool where "late6 = launch_fill 0 2 [98] late5"
definition late7 :: job_pool where "late7 = launch_reset 0 [98] late6"
definition late8 :: job_pool where "late8 = launch_register 0 late7"
definition late9 :: job_pool where "late9 = launch_create 0 late8"
definition late10 :: job_pool where "late10 = launch_running 0 late9"
definition late11 :: job_pool where "late11 = launch_undo_id 0 late10"

lemmas late_defs =
  late1_def late2_def late3_def late4_def late5_def late6_def late7_def late8_def late9_def late10_def late11_def

lemma late_pools:
  "length (p_jobs sample_pool) = 1" "length (p_jobs late4) = 1"
  "reap_claim 0 sample_pool = (False, sample_pool)" "reap_claim 0 late4 = (False, late4)"
  "launch_claim sample_pool = ((Some 0, 1), late1)" "launch_claim late4 = ((Some 0, 2), late5)"
  "j_state (p_jobs late11 ! 0) = CLI_JOB_RUNNING" "j_id (p_jobs late11 ! 0) = 0" "p_tenant late11 0 = 2"
  by (simp_all add: late_defs sample_pool_def sample_job_def job_step_defs launch_claim_def set_job_def say_def Let_def)

lemma late_acts:
  "acts sample_pool (Away) sample_pool (Reap 0 (Launch [97]))"
  "acts sample_pool (Reap 0 (Launch [97])) sample_pool (Reap 1 (Launch [97]))"
  "acts sample_pool (Reap 1 (Launch [97])) sample_pool (Claim [97])"
  "acts sample_pool (Claim [97]) late1 (Fill 0 1 [97])"
  "acts late1 (Fill 0 1 [97]) late2 (Reset 0 [97])"
  "acts late2 (Reset 0 [97]) late3 (Register 0)"
  "acts late3 (Register 0) late3 (Undo 0 (Some CLI_REG_ERR_FULL))"
  "acts late3 (Undo 0 (Some CLI_REG_ERR_FULL)) late4 (Undo_id 0 (Some CLI_REG_ERR_FULL))"
  "acts late4 (Away) late4 (Reap 0 (Launch [98]))"
  "acts late4 (Reap 0 (Launch [98])) late4 (Reap 1 (Launch [98]))"
  "acts late4 (Reap 1 (Launch [98])) late4 (Claim [98])"
  "acts late4 (Claim [98]) late5 (Fill 0 2 [98])"
  "acts late5 (Fill 0 2 [98]) late6 (Reset 0 [98])"
  "acts late6 (Reset 0 [98]) late7 (Register 0)"
  "acts late7 (Register 0) late8 (Create 0)"
  "acts late8 (Create 0) late9 (Started 0)"
  "acts late9 (Started 0) late10 (Announce 0)"
  "acts late10 (Undo_id 0 (Some CLI_REG_ERR_FULL)) late11 (Undo_say (Some CLI_REG_ERR_FULL))"
proof -
  show "acts sample_pool (Away) sample_pool (Reap 0 (Launch [97]))"
    by (rule acts.enter_reap)
  show "acts sample_pool (Reap 0 (Launch [97])) sample_pool (Reap 1 (Launch [97]))"
    using acts.reap_skip [of 0 sample_pool] acts.reap_skip [of 0 late4] by (simp add: late_pools)
  show "acts sample_pool (Reap 1 (Launch [97])) sample_pool (Claim [97])"
    using acts.reap_end [of sample_pool 1 "Launch [97]"] by (simp add: late_pools cli_seg_blank_def)
  show "acts sample_pool (Claim [97]) late1 (Fill 0 1 [97])"
    by (rule acts.claim_slot) (simp add: late_pools)
  show "acts late1 (Fill 0 1 [97]) late2 (Reset 0 [97])"
    unfolding late2_def by (rule acts.fills)
  show "acts late2 (Reset 0 [97]) late3 (Register 0)"
    unfolding late3_def by (rule acts.resets)
  show "acts late3 (Register 0) late3 (Undo 0 (Some CLI_REG_ERR_FULL))"
    by (rule acts.register_no) simp
  show "acts late3 (Undo 0 (Some CLI_REG_ERR_FULL)) late4 (Undo_id 0 (Some CLI_REG_ERR_FULL))"
    unfolding late4_def by (rule acts.undo_free)
  show "acts late4 (Away) late4 (Reap 0 (Launch [98]))"
    by (rule acts.enter_reap)
  show "acts late4 (Reap 0 (Launch [98])) late4 (Reap 1 (Launch [98]))"
    using acts.reap_skip [of 0 sample_pool] acts.reap_skip [of 0 late4] by (simp add: late_pools)
  show "acts late4 (Reap 1 (Launch [98])) late4 (Claim [98])"
    using acts.reap_end [of late4 1 "Launch [98]"] by (simp add: late_pools cli_seg_blank_def)
  show "acts late4 (Claim [98]) late5 (Fill 0 2 [98])"
    by (rule acts.claim_slot) (simp add: late_pools)
  show "acts late5 (Fill 0 2 [98]) late6 (Reset 0 [98])"
    unfolding late6_def by (rule acts.fills)
  show "acts late6 (Reset 0 [98]) late7 (Register 0)"
    unfolding late7_def by (rule acts.resets)
  show "acts late7 (Register 0) late8 (Create 0)"
    unfolding late8_def by (rule acts.register_ok)
  show "acts late8 (Create 0) late9 (Started 0)"
    unfolding late9_def by (rule acts.create_ok)
  show "acts late9 (Started 0) late10 (Announce 0)"
    unfolding late10_def by (rule acts.starts)
  show "acts late10 (Undo_id 0 (Some CLI_REG_ERR_FULL)) late11 (Undo_say (Some CLI_REG_ERR_FULL))"
    unfolding late11_def by (rule acts.undo_id)
qed

text \<open>The late clear: the path of a refused launch frees its slot before it clears the id, so a
  launch that takes the slot in between has its id wiped, and no kill by its number finds it.\<close>

lemma late_clear_run: "job_run sample_start 18 \<lparr>y_pool = late11, y_pcs = [Undo_say (Some CLI_REG_ERR_FULL), Announce 0]\<rparr>"
proof -
  have s0: "job_run sample_start 0 \<lparr>y_pool = sample_pool, y_pcs = [Away, Away]\<rparr>"
    using run_zero [of sample_start] by (simp add: sample_start_def)
  have s1: "job_run sample_start 1 \<lparr>y_pool = sample_pool, y_pcs = [Reap 0 (Launch [97]), Away]\<rparr>"
    using thread_goes [OF s0, where a = 0 and p' = sample_pool and pc = "Reap 0 (Launch [97])"]
    by (simp add: late_acts [simplified] eval_nat_numeral)
  have s2: "job_run sample_start 2 \<lparr>y_pool = sample_pool, y_pcs = [Reap 1 (Launch [97]), Away]\<rparr>"
    using thread_goes [OF s1, where a = 0 and p' = sample_pool and pc = "Reap 1 (Launch [97])"]
    by (simp add: late_acts [simplified] eval_nat_numeral)
  have s3: "job_run sample_start 3 \<lparr>y_pool = sample_pool, y_pcs = [Claim [97], Away]\<rparr>"
    using thread_goes [OF s2, where a = 0 and p' = sample_pool and pc = "Claim [97]"]
    by (simp add: late_acts [simplified] eval_nat_numeral)
  have s4: "job_run sample_start 4 \<lparr>y_pool = late1, y_pcs = [Fill 0 1 [97], Away]\<rparr>"
    using thread_goes [OF s3, where a = 0 and p' = late1 and pc = "Fill 0 1 [97]"]
    by (simp add: late_acts [simplified] eval_nat_numeral)
  have s5: "job_run sample_start 5 \<lparr>y_pool = late2, y_pcs = [Reset 0 [97], Away]\<rparr>"
    using thread_goes [OF s4, where a = 0 and p' = late2 and pc = "Reset 0 [97]"]
    by (simp add: late_acts [simplified] eval_nat_numeral)
  have s6: "job_run sample_start 6 \<lparr>y_pool = late3, y_pcs = [Register 0, Away]\<rparr>"
    using thread_goes [OF s5, where a = 0 and p' = late3 and pc = "Register 0"]
    by (simp add: late_acts [simplified] eval_nat_numeral)
  have s7: "job_run sample_start 7 \<lparr>y_pool = late3, y_pcs = [Undo 0 (Some CLI_REG_ERR_FULL), Away]\<rparr>"
    using thread_goes [OF s6, where a = 0 and p' = late3 and pc = "Undo 0 (Some CLI_REG_ERR_FULL)"]
    by (simp add: late_acts [simplified] eval_nat_numeral)
  have s8: "job_run sample_start 8 \<lparr>y_pool = late4, y_pcs = [Undo_id 0 (Some CLI_REG_ERR_FULL), Away]\<rparr>"
    using thread_goes [OF s7, where a = 0 and p' = late4 and pc = "Undo_id 0 (Some CLI_REG_ERR_FULL)"]
    by (simp add: late_acts [simplified] eval_nat_numeral)
  have s9: "job_run sample_start 9 \<lparr>y_pool = late4, y_pcs = [Undo_id 0 (Some CLI_REG_ERR_FULL), Reap 0 (Launch [98])]\<rparr>"
    using thread_goes [OF s8, where a = 1 and p' = late4 and pc = "Reap 0 (Launch [98])"]
    by (simp add: late_acts [simplified] eval_nat_numeral)
  have s10: "job_run sample_start 10 \<lparr>y_pool = late4, y_pcs = [Undo_id 0 (Some CLI_REG_ERR_FULL), Reap 1 (Launch [98])]\<rparr>"
    using thread_goes [OF s9, where a = 1 and p' = late4 and pc = "Reap 1 (Launch [98])"]
    by (simp add: late_acts [simplified] eval_nat_numeral)
  have s11: "job_run sample_start 11 \<lparr>y_pool = late4, y_pcs = [Undo_id 0 (Some CLI_REG_ERR_FULL), Claim [98]]\<rparr>"
    using thread_goes [OF s10, where a = 1 and p' = late4 and pc = "Claim [98]"]
    by (simp add: late_acts [simplified] eval_nat_numeral)
  have s12: "job_run sample_start 12 \<lparr>y_pool = late5, y_pcs = [Undo_id 0 (Some CLI_REG_ERR_FULL), Fill 0 2 [98]]\<rparr>"
    using thread_goes [OF s11, where a = 1 and p' = late5 and pc = "Fill 0 2 [98]"]
    by (simp add: late_acts [simplified] eval_nat_numeral)
  have s13: "job_run sample_start 13 \<lparr>y_pool = late6, y_pcs = [Undo_id 0 (Some CLI_REG_ERR_FULL), Reset 0 [98]]\<rparr>"
    using thread_goes [OF s12, where a = 1 and p' = late6 and pc = "Reset 0 [98]"]
    by (simp add: late_acts [simplified] eval_nat_numeral)
  have s14: "job_run sample_start 14 \<lparr>y_pool = late7, y_pcs = [Undo_id 0 (Some CLI_REG_ERR_FULL), Register 0]\<rparr>"
    using thread_goes [OF s13, where a = 1 and p' = late7 and pc = "Register 0"]
    by (simp add: late_acts [simplified] eval_nat_numeral)
  have s15: "job_run sample_start 15 \<lparr>y_pool = late8, y_pcs = [Undo_id 0 (Some CLI_REG_ERR_FULL), Create 0]\<rparr>"
    using thread_goes [OF s14, where a = 1 and p' = late8 and pc = "Create 0"]
    by (simp add: late_acts [simplified] eval_nat_numeral)
  have s16: "job_run sample_start 16 \<lparr>y_pool = late9, y_pcs = [Undo_id 0 (Some CLI_REG_ERR_FULL), Started 0]\<rparr>"
    using thread_goes [OF s15, where a = 1 and p' = late9 and pc = "Started 0"]
    by (simp add: late_acts [simplified] eval_nat_numeral)
  have s17: "job_run sample_start 17 \<lparr>y_pool = late10, y_pcs = [Undo_id 0 (Some CLI_REG_ERR_FULL), Announce 0]\<rparr>"
    using thread_goes [OF s16, where a = 1 and p' = late10 and pc = "Announce 0"]
    by (simp add: late_acts [simplified] eval_nat_numeral)
  have s18: "job_run sample_start 18 \<lparr>y_pool = late11, y_pcs = [Undo_say (Some CLI_REG_ERR_FULL), Announce 0]\<rparr>"
    using thread_goes [OF s17, where a = 0 and p' = late11 and pc = "Undo_say (Some CLI_REG_ERR_FULL)"]
    by (simp add: late_acts [simplified] eval_nat_numeral)
  show ?thesis using s18 .
qed

lemma cli_job_pool_safe_witness:
  "t_created (j_thread (p_jobs late11 ! 0)) \<and> p_tenant late11 0 = 2 \<and> j_id (p_jobs late11 ! 0) = 0 \<and>
    p_undone late11 \<and> (\<exists>rc. launch_error rc \<in> set (p_log late11) \<or> Undo_say rc = Undo_say (Some CLI_REG_ERR_FULL))"
proof -
  have "length (p_jobs late11) = 1" "p_undone late11"
    by (simp_all add: late_defs sample_pool_def job_step_defs launch_claim_def sample_job_def set_job_def say_def)
  then show ?thesis
    using cli_job_pool_safe [OF sample_start_ok late_clear_run] by (simp add: late_pools Let_def)
qed

end
