(* ===== verification/Spec2Isabelle.thy ===== *)
theory Spec2Isabelle
  imports CliValues UartRing Crc32 CliEdit BlobWrite YmodemDelivery CamHolders CamStep Fmt PaintBoards PluginAccept NnLifecycle CliJobPool
begin

text \<open>
  ThreadXShell: header to be completed.
\<close>

end
